(* ===== verification/Ord_Prelude.thy ===== *)
theory Ord_Prelude
  imports Main "HOL-Library.Word" "HOL-Library.Monad_Syntax" "HOL-Library.List_Lexorder"
begin

text \<open>
  Shared vocabulary of the development: the machine types of the Rust sources, the
  convention for panics, bounds-checked slice operations, little- and big-endian byte
  encodings, the three-way comparison of byte slices, and the generic lemmas about them.

  Conventions.  A Rust function that can panic (an \<open>assert!\<close>, a \<open>debug_assert!\<close>, an
  out-of-range index, an arithmetic overflow of a debug build, an access outside an
  allocation) returns an \<open>option\<close>, with \<open>None\<close> for the panic.  A Rust
  \<open>Result<T, E>\<close> is the sum \<open>E + T\<close>, with \<open>Inl\<close> for the error.  \<open>usize\<close> values
  are \<open>nat\<close> with the bound \<open>usize_MAX\<close> written out where the code checks it; the
  fixed-width integers of the wire formats are words.
\<close>

named_theorems slice_simps \<open>bounds-checked slice reads and writes\<close>
named_theorems byte_simps \<open>byte encodings of words\<close>
named_theorems inv_intros \<open>preservation of the component invariants\<close>

type_synonym byte = "8 word"
type_synonym u16 = "16 word"
type_synonym u32 = "32 word"
type_synonym u64 = "64 word"
type_synonym bytes = "byte list"

section \<open>Panics and checked arithmetic\<close>

definition assert_that :: "bool \<Rightarrow> unit option" where
  "assert_that c = (if c then Some () else None)"

definition usize_MAX :: nat where
  "usize_MAX = 2 ^ 64 - 1"

text \<open>\<open>usize::checked_add\<close>: \<open>None\<close> on overflow.\<close>

definition usize_checked_add :: "nat \<Rightarrow> nat \<Rightarrow> nat option" where
  "usize_checked_add a b = (if a + b \<le> usize_MAX then Some (a + b) else None)"

text \<open>\<open>Option::ok_or\<close> and \<open>Result::map_err\<close>.\<close>

definition ok_or :: "'a option \<Rightarrow> 'e \<Rightarrow> 'e + 'a" where
  "ok_or x e = (case x of None \<Rightarrow> Inl e | Some a \<Rightarrow> Inr a)"

section \<open>Bounds-checked slices\<close>

text \<open>\<open>buf[off..off + n]\<close>, \<open>buf[off..off + src.len()].copy_from_slice(src)\<close>, \<open>buf[i]\<close>,
  \<open>buf[i] = x\<close> and \<open>Vec::resize\<close>.\<close>

definition slice_at :: "nat \<Rightarrow> nat \<Rightarrow> 'a list \<Rightarrow> 'a list option" where
  "slice_at off n buf = (if off + n \<le> length buf then Some (take n (drop off buf)) else None)"

definition copy_at :: "nat \<Rightarrow> 'a list \<Rightarrow> 'a list \<Rightarrow> 'a list option" where
  "copy_at off src buf =
     (if off + length src \<le> length buf
      then Some (take off buf @ src @ drop (off + length src) buf) else None)"

definition get_at :: "nat \<Rightarrow> 'a list \<Rightarrow> 'a option" where
  "get_at i buf = (if i < length buf then Some (buf ! i) else None)"

definition set_at :: "nat \<Rightarrow> 'a \<Rightarrow> 'a list \<Rightarrow> 'a list option" where
  "set_at i x buf = (if i < length buf then Some (buf[i := x]) else None)"

definition vec_resize :: "nat \<Rightarrow> 'a \<Rightarrow> 'a list \<Rightarrow> 'a list" where
  "vec_resize n x xs = take n xs @ replicate (n - length xs) x"

section \<open>Endianness\<close>

text \<open>\<open>to_le_bytes\<close>, \<open>from_le_bytes\<close>, \<open>to_be_bytes\<close> and \<open>from_be_bytes\<close> of an
  \<open>n\<close>-byte integer.\<close>

fun to_le_bytes :: "nat \<Rightarrow> 'a::len word \<Rightarrow> bytes" where
  "to_le_bytes 0 w = []"
| "to_le_bytes (Suc n) w = ucast w # to_le_bytes n (drop_bit 8 w)"

fun from_le_bytes :: "bytes \<Rightarrow> 'a::len word" where
  "from_le_bytes [] = 0"
| "from_le_bytes (b # bs) = or (ucast b) (push_bit 8 (from_le_bytes bs))"

definition to_be_bytes :: "nat \<Rightarrow> 'a::len word \<Rightarrow> bytes" where
  "to_be_bytes n w = rev (to_le_bytes n w)"

definition from_be_bytes :: "bytes \<Rightarrow> 'a::len word" where
  "from_be_bytes bs = from_le_bytes (rev bs)"

section \<open>Three-way comparison of byte slices\<close>

datatype ordering = Less | Equal | Greater

text \<open>\<open>Ord for [u8]\<close>: element by element, then by length.\<close>

fun slice_cmp :: "bytes \<Rightarrow> bytes \<Rightarrow> ordering" where
  "slice_cmp [] [] = Equal"
| "slice_cmp [] (b # bs) = Less"
| "slice_cmp (a # as) [] = Greater"
| "slice_cmp (a # as) (b # bs) =
     (if a < b then Less else if b < a then Greater else slice_cmp as bs)"


section \<open>Lemmas on panics and checked arithmetic\<close>

lemma assert_that_bind [simp]:
  "(assert_that c \<bind> f) = (if c then f () else None)"
  by (simp add: assert_that_def)

lemma usize_checked_add_Some [simp]:
  "usize_checked_add a b = Some c \<longleftrightarrow> c = a + b \<and> a + b \<le> usize_MAX"
  by (auto simp: usize_checked_add_def)

lemma usize_checked_add_None [simp]:
  "usize_checked_add a b = None \<longleftrightarrow> usize_MAX < a + b"
  by (auto simp: usize_checked_add_def)

lemma usize_checked_add_fits: "a + b \<le> usize_MAX \<Longrightarrow> usize_checked_add a b = Some (a + b)"
  by simp

lemma ok_or_simps [simp]: "ok_or None e = Inl e" "ok_or (Some a) e = Inr a"
  by (simp_all add: ok_or_def)

section \<open>Lemmas on slices\<close>

lemma length_copy_at: "copy_at off src buf = Some buf' \<Longrightarrow> length buf' = length buf"
  by (auto simp: copy_at_def split: if_splits)

lemma copy_at_defined [slice_simps]:
  "off + length src \<le> length buf \<Longrightarrow>
   copy_at off src buf = Some (take off buf @ src @ drop (off + length src) buf)"
  by (simp add: copy_at_def)

lemma copy_at_prefix [slice_simps]:
  "off = length pre \<Longrightarrow> length src \<le> length rest \<Longrightarrow>
   copy_at off src (pre @ rest) = Some (pre @ src @ drop (length src) rest)"
  by (simp add: copy_at_def)

lemma slice_at_prefix [slice_simps]:
  "off = length pre \<Longrightarrow> n \<le> length rest \<Longrightarrow> slice_at off n (pre @ rest) = Some (take n rest)"
  by (simp add: slice_at_def)

lemma slice_at_copy_at:
  assumes "copy_at off src buf = Some buf'"
  shows "slice_at off (length src) buf' = Some src"
  using assms by (auto simp: copy_at_def slice_at_def min_def split: if_splits)

lemma slice_at_copy_at_before:
  assumes "copy_at off src buf = Some buf'" and "i + n \<le> off"
  shows "slice_at i n buf' = slice_at i n buf"
proof -
  from assms have fit: "off + length src \<le> length buf"
    and buf': "buf' = take off buf @ src @ drop (off + length src) buf"
    by (auto simp: copy_at_def split: if_splits)
  have "take n (drop i buf') = take n (drop i buf)"
    using fit assms(2) by (simp add: buf' drop_take)
  then show ?thesis using fit assms(2) by (simp add: slice_at_def length_copy_at [OF assms(1)])
qed

lemma slice_at_copy_at_after:
  assumes "copy_at off src buf = Some buf'" and "off + length src \<le> i"
  shows "slice_at i n buf' = slice_at i n buf"
proof -
  from assms have fit: "off + length src \<le> length buf"
    and buf': "buf' = take off buf @ src @ drop (off + length src) buf"
    by (auto simp: copy_at_def split: if_splits)
  have "drop i buf' = drop i buf" using fit assms(2) by (simp add: buf')
  then show ?thesis by (simp add: slice_at_def length_copy_at [OF assms(1)])
qed

lemma set_at_prefix [slice_simps]:
  "i = length pre \<Longrightarrow> rest \<noteq> [] \<Longrightarrow> set_at i x (pre @ rest) = Some (pre @ x # tl rest)"
  by (cases rest) (auto simp: set_at_def)

lemma length_vec_resize [simp]: "length (vec_resize n x xs) = n"
  by (simp add: vec_resize_def)

lemma vec_resize_grow: "length xs \<le> n \<Longrightarrow> vec_resize n x xs = xs @ replicate (n - length xs) x"
  by (simp add: vec_resize_def)

lemma vec_resize_shrink: "n \<le> length xs \<Longrightarrow> vec_resize n x xs = take n xs"
  by (simp add: vec_resize_def)

section \<open>Lemmas on byte encodings\<close>

lemma length_to_le_bytes [simp]: "length (to_le_bytes n w) = n"
  by (induction n w rule: to_le_bytes.induct) auto

lemma to_le_bytes_eq_Nil [simp]: "to_le_bytes n w = [] \<longleftrightarrow> n = 0"
  by (cases n) simp_all

lemma length_to_be_bytes [simp]: "length (to_be_bytes n w) = n"
  by (simp add: to_be_bytes_def)

lemma from_le_to_le_bytes:
  "from_le_bytes (to_le_bytes n w) = take_bit (8 * n) (w :: 'a::len word)"
proof (induction n arbitrary: w)
  case 0
  then show ?case by simp
next
  case (Suc n)
  have "or (ucast (ucast w :: byte)) (push_bit 8 (take_bit (8 * n) (drop_bit 8 w)))
        = take_bit (8 * Suc n) w"
    by (rule bit_word_eqI) (auto simp: bit_simps)
  then show ?case by (simp add: Suc.IH)
qed

lemma from_le_to_le_bytes_full [byte_simps]:
  "LENGTH('a) \<le> 8 * n \<Longrightarrow> from_le_bytes (to_le_bytes n w) = (w :: 'a::len word)"
  by (simp add: from_le_to_le_bytes take_bit_word_eq_self)

lemma to_le_from_le_bytes:
  "8 * length bs \<le> LENGTH('a) \<Longrightarrow> to_le_bytes (length bs) (from_le_bytes bs :: 'a::len word) = bs"
proof (induction bs)
  case Nil
  then show ?case by simp
next
  case (Cons b bs)
  let ?w = "from_le_bytes bs :: 'a word"
  have low: "ucast (or (ucast b) (push_bit 8 ?w)) = b"
    using Cons.prems by (intro bit_word_eqI) (auto simp: bit_simps)
  have drop: "drop_bit 8 (or (ucast b) (push_bit 8 ?w)) = take_bit (LENGTH('a) - 8) ?w"
    using Cons.prems by (intro bit_word_eqI) (auto simp: bit_simps dest: bit_imp_le_length)
  have bound: "bit ?w i \<Longrightarrow> i < 8 * length bs" for i
  proof (induction bs arbitrary: i)
    case Nil
    then show ?case by simp
  next
    case (Cons c cs)
    then show ?case
      by (cases "i < 8") (fastforce simp: bit_simps dest: bit_imp_le_length Cons.IH)+
  qed
  have "take_bit (LENGTH('a) - 8) ?w = ?w"
    using Cons.prems by (intro bit_word_eqI) (auto simp: bit_simps dest: bound)
  with low drop Cons show ?case by simp
qed

lemma to_le_from_le_bytes_full [byte_simps]:
  "length bs = n \<Longrightarrow> 8 * n = LENGTH('a) \<Longrightarrow> to_le_bytes n (from_le_bytes bs :: 'a::len word) = bs"
  using to_le_from_le_bytes [of bs, where 'a = 'a] by simp

lemma from_be_to_be_bytes_full [byte_simps]:
  "LENGTH('a) \<le> 8 * n \<Longrightarrow> from_be_bytes (to_be_bytes n w) = (w :: 'a::len word)"
  by (simp add: from_be_bytes_def to_be_bytes_def from_le_to_le_bytes_full)

lemma to_be_from_be_bytes_full [byte_simps]:
  "length bs = n \<Longrightarrow> 8 * n = LENGTH('a) \<Longrightarrow> to_be_bytes n (from_be_bytes bs :: 'a::len word) = bs"
  by (simp add: from_be_bytes_def to_be_bytes_def to_le_from_le_bytes_full)

lemma to_le_bytes_inject:
  "LENGTH('a) \<le> 8 * n \<Longrightarrow> to_le_bytes n v = to_le_bytes n w \<longleftrightarrow> v = (w :: 'a::len word)"
  by (metis from_le_to_le_bytes_full)

lemma to_be_bytes_inject:
  "LENGTH('a) \<le> 8 * n \<Longrightarrow> to_be_bytes n v = to_be_bytes n w \<longleftrightarrow> v = (w :: 'a::len word)"
  by (metis from_be_to_be_bytes_full)

text \<open>The numeric value of a big-endian digit string, and its agreement with the word.\<close>

fun be_value :: "bytes \<Rightarrow> nat" where
  "be_value [] = 0"
| "be_value (b # bs) = unat b * 256 ^ length bs + be_value bs"

lemma be_value_less: "be_value bs < 256 ^ length bs"
proof (induction bs)
  case Nil
  then show ?case by simp
next
  case (Cons b bs)
  have "Suc (unat b) \<le> 256" using unsigned_less [of b, where 'a = nat] by simp
  then have "Suc (unat b) * 256 ^ length bs \<le> 256 * 256 ^ length bs"
    by (rule mult_le_mono1)
  then have "256 ^ length bs + unat b * 256 ^ length bs \<le> 256 ^ length (b # bs)"
    by (simp only: mult_Suc list.size power_Suc add_Suc_right add_0_right)
  with Cons show ?case unfolding be_value.simps by linarith
qed

lemma be_value_append: "be_value (xs @ [b]) = be_value xs * 256 + unat b"
  by (induction xs) (auto simp: algebra_simps)

lemma be_value_to_be_bytes:
  "be_value (to_be_bytes n w) = unat (w :: 'a::len word) mod 256 ^ n"
proof (induction n arbitrary: w)
  case 0
  then show ?case by (simp add: to_be_bytes_def)
next
  case (Suc n)
  have ucast: "unat (ucast w :: byte) = unat w mod 256"
    by (simp add: unsigned_ucast_eq take_bit_eq_mod)
  have drop: "unat (drop_bit 8 w) = unat w div 256"
    unfolding unat_drop_bit_eq by (simp add: drop_bit_eq_div)
  have "be_value (to_be_bytes (Suc n) w) = be_value (to_be_bytes n (drop_bit 8 w)) * 256 + unat (ucast w :: byte)"
    by (simp add: to_be_bytes_def be_value_append)
  also have "\<dots> = (unat w div 256 mod 256 ^ n) * 256 + unat w mod 256"
    by (simp add: Suc.IH drop ucast)
  also have "\<dots> = unat w mod (256 * 256 ^ n)"
    by (simp add: mod_mult2_eq mult.commute)
  finally show ?case by (simp add: mult.commute)
qed

lemma be_value_to_be_bytes_full [byte_simps]:
  "LENGTH('a) \<le> 8 * n \<Longrightarrow> be_value (to_be_bytes n w) = unat (w :: 'a::len word)"
proof -
  assume "LENGTH('a) \<le> 8 * n"
  then have "(2::nat) ^ LENGTH('a) \<le> 2 ^ (8 * n)" by (intro power_increasing) auto
  then have "unat w < 256 ^ n"
    using unsigned_less [of w, where 'a = nat] by (simp add: power_mult del: unsigned_less)
  then show ?thesis by (simp add: be_value_to_be_bytes)
qed

section \<open>Lemmas on the slice comparison\<close>

lemma slice_cmp_eq: "slice_cmp a b = (if a < b then Less else if a = b then Equal else Greater)"
  by (induction a b rule: slice_cmp.induct) auto

lemma slice_cmp_Less [simp]: "slice_cmp a b = Less \<longleftrightarrow> a < b"
  and slice_cmp_Equal [simp]: "slice_cmp a b = Equal \<longleftrightarrow> a = b"
  and slice_cmp_Greater [simp]: "slice_cmp a b = Greater \<longleftrightarrow> b < a"
  by (auto simp: slice_cmp_eq)

lemma be_value_less_iff:
  "length a = length b \<Longrightarrow> a < b \<longleftrightarrow> be_value a < be_value b"
proof (induction a b rule: list_induct2)
  case Nil
  then show ?case by simp
next
  case (Cons x xs y ys)
  let ?p = "256 ^ length ys :: nat"
  have bx: "be_value xs < ?p" and by': "be_value ys < ?p"
    using be_value_less [of xs] be_value_less [of ys] Cons.hyps by simp_all
  have step: "u * ?p + r < v * ?p + s" if "u < v" "r < ?p" for u v r s :: nat
  proof -
    have "u * ?p + r < Suc u * ?p" using that by simp
    also have "\<dots> \<le> v * ?p" using that by (intro mult_le_mono1) simp
    finally show ?thesis by simp
  qed
  consider (lt) "x < y" | (gt) "y < x" | (eq) "x = y" by fastforce
  then show ?case
  proof cases
    case lt
    then have "be_value (x # xs) < be_value (y # ys)"
      using step [OF _ bx] Cons.hyps by (simp add: word_less_nat_alt)
    with lt show ?thesis by simp
  next
    case gt
    then have "be_value (y # ys) < be_value (x # xs)"
      using step [OF _ by'] Cons.hyps by (simp add: word_less_nat_alt)
    with gt show ?thesis by (simp add: not_less less_imp_le)
  next
    case eq
    with Cons show ?thesis by simp
  qed
qed

text \<open>Big-endian encodings compare as the integers they encode.\<close>

lemma to_be_bytes_less_iff:
  assumes "LENGTH('a) \<le> 8 * n"
  shows "to_be_bytes n v < to_be_bytes n w \<longleftrightarrow> v < (w :: 'a::len word)"
  using assms by (simp add: be_value_less_iff be_value_to_be_bytes_full word_less_nat_alt)

end
