(* ===== verification/Record_Kinds.thy ===== *)
theory Record_Kinds
  imports Ord_Prelude
begin

text \<open>
  The operation kinds: \<open>RecordKind\<close>, \<open>RecordCategory\<close> and the compile-time table
  \<open>RECORD_KIND_MAPPING\<close> of \<open>crates/engine/src/db/batch.rs\<close>, and \<open>InternalKeyKind\<close>
  with its conversions of \<open>crates/engine/src/key/internal_key.rs\<close>.
\<close>

section \<open>Record kinds of a batch\<close>

datatype record_kind = RK_Put | RK_Delete | RK_Merge | RK_RangeDel | RK_LogData

datatype record_category = RC_Invalid | RC_Point | RC_RangeDel | RC_LogData

primrec record_kind_u8 :: "record_kind \<Rightarrow> byte" where
  "record_kind_u8 RK_Put = 1"
| "record_kind_u8 RK_Delete = 2"
| "record_kind_u8 RK_Merge = 3"
| "record_kind_u8 RK_RangeDel = 4"
| "record_kind_u8 RK_LogData = 5"

definition record_kind_index :: "record_kind \<Rightarrow> nat" where
  "record_kind_index k = unat (record_kind_u8 k)"

definition RECORD_KIND_MAX :: nat where
  "RECORD_KIND_MAX = record_kind_index RK_LogData"

record batch_kind_info =
  min_format_major_version :: u64
  category :: record_category

definition batch_kind_info_from :: "record_category \<Rightarrow> batch_kind_info" where
  "batch_kind_info_from cat = \<lparr>min_format_major_version = 0, category = cat\<rparr>"

definition InvalidBatchKind :: batch_kind_info where
  "InvalidBatchKind = batch_kind_info_from RC_Invalid"

text \<open>The table is built by five stores into an array filled with the invalid entry.\<close>

definition make_batch_kind_mapping :: "batch_kind_info list" where
  "make_batch_kind_mapping =
     (let mappings = replicate (RECORD_KIND_MAX + 1) InvalidBatchKind;
          mappings = mappings[record_kind_index RK_Put := batch_kind_info_from RC_Point];
          mappings = mappings[record_kind_index RK_Delete := batch_kind_info_from RC_Point];
          mappings = mappings[record_kind_index RK_Merge := batch_kind_info_from RC_Point];
          mappings = mappings[record_kind_index RK_RangeDel := batch_kind_info_from RC_RangeDel];
          mappings = mappings[record_kind_index RK_LogData := batch_kind_info_from RC_LogData]
      in mappings)"

definition record_kind_info :: "record_kind \<Rightarrow> batch_kind_info option" where
  "record_kind_info k = get_at (record_kind_index k) make_batch_kind_mapping"

primrec record_kind_display :: "record_kind \<Rightarrow> string" where
  "record_kind_display RK_Put = ''Put''"
| "record_kind_display RK_Delete = ''Delete''"
| "record_kind_display RK_Merge = ''Merge''"
| "record_kind_display RK_RangeDel = ''RangeDel''"
| "record_kind_display RK_LogData = ''LogData''"

primrec record_category_display :: "record_category \<Rightarrow> string" where
  "record_category_display RC_Invalid = ''Invalid''"
| "record_category_display RC_Point = ''Point''"
| "record_category_display RC_RangeDel = ''RangeDel''"
| "record_category_display RC_LogData = ''LogData''"

section \<open>Kinds of internal keys\<close>

datatype internal_key_kind = IK_Put | IK_Delete | IK_Merge | IK_RangeDel | IK_Log | IK_Max

primrec internal_key_kind_u8 :: "internal_key_kind \<Rightarrow> byte" where
  "internal_key_kind_u8 IK_Put = 1"
| "internal_key_kind_u8 IK_Delete = 2"
| "internal_key_kind_u8 IK_Merge = 3"
| "internal_key_kind_u8 IK_RangeDel = 4"
| "internal_key_kind_u8 IK_Log = 5"
| "internal_key_kind_u8 IK_Max = 255"

text \<open>\<open>From<InternalKeyKind> for u64\<close>.\<close>

definition internal_key_kind_u64 :: "internal_key_kind \<Rightarrow> u64" where
  "internal_key_kind_u64 op = ucast (internal_key_kind_u8 op)"

text \<open>\<open>TryFrom<u8>\<close>: the error \<open>InvalidInternalKeyKind\<close> keeps the raw byte.\<close>

record invalid_internal_key_kind =
  ik_invalid_raw :: byte

definition internal_key_kind_try_from_u8 ::
  "byte \<Rightarrow> invalid_internal_key_kind + internal_key_kind" where
  "internal_key_kind_try_from_u8 raw =
     (if raw = 1 then Inr IK_Put
      else if raw = 2 then Inr IK_Delete
      else if raw = 3 then Inr IK_Merge
      else if raw = 255 then Inr IK_Max
      else Inl \<lparr>ik_invalid_raw = raw\<rparr>)"

text \<open>\<open>TryFrom<RecordKind>\<close>: the error is the rejected record kind.\<close>

primrec internal_key_kind_try_from_record :: "record_kind \<Rightarrow> record_kind + internal_key_kind" where
  "internal_key_kind_try_from_record RK_Put = Inr IK_Put"
| "internal_key_kind_try_from_record RK_Delete = Inr IK_Delete"
| "internal_key_kind_try_from_record RK_Merge = Inr IK_Merge"
| "internal_key_kind_try_from_record RK_RangeDel = Inl RK_RangeDel"
| "internal_key_kind_try_from_record RK_LogData = Inr IK_Log"

primrec internal_key_kind_display :: "internal_key_kind \<Rightarrow> string" where
  "internal_key_kind_display IK_Put = ''Put''"
| "internal_key_kind_display IK_Delete = ''Delete''"
| "internal_key_kind_display IK_Merge = ''Merge''"
| "internal_key_kind_display IK_RangeDel = ''RangeDel''"
| "internal_key_kind_display IK_Log = ''LogData''"
| "internal_key_kind_display IK_Max = ''Max''"

section \<open>Lemmas\<close>

lemma record_kind_index_less: "record_kind_index k \<le> RECORD_KIND_MAX"
  by (cases k) (simp_all add: record_kind_index_def RECORD_KIND_MAX_def)

lemma record_kind_info_eq:
  "record_kind_info k = Some (batch_kind_info_from
     (case k of RK_RangeDel \<Rightarrow> RC_RangeDel | RK_LogData \<Rightarrow> RC_LogData | _ \<Rightarrow> RC_Point))"
  by (cases k) (simp_all add: record_kind_info_def make_batch_kind_mapping_def get_at_def
      RECORD_KIND_MAX_def record_kind_index_def Let_def)

lemma record_kind_u8_inject [simp]: "record_kind_u8 j = record_kind_u8 k \<longleftrightarrow> j = k"
  by (cases j; cases k) simp_all

lemma internal_key_kind_u8_inject [simp]:
  "internal_key_kind_u8 j = internal_key_kind_u8 k \<longleftrightarrow> j = k"
  by (cases j; cases k) simp_all

lemma internal_key_kind_u64_less: "internal_key_kind_u64 op < 2 ^ 8"
  by (cases op) (simp_all add: internal_key_kind_u64_def)

lemma internal_key_kind_try_from_u8_u8:
  "internal_key_kind_try_from_u8 (internal_key_kind_u8 op) =
     (if op = IK_RangeDel \<or> op = IK_Log then Inl \<lparr>ik_invalid_raw = internal_key_kind_u8 op\<rparr>
      else Inr op)"
  by (cases op) (simp_all add: internal_key_kind_try_from_u8_def)

lemma internal_key_kind_try_from_u8_Inr:
  "internal_key_kind_try_from_u8 raw = Inr op \<Longrightarrow> raw = internal_key_kind_u8 op"
  by (auto simp: internal_key_kind_try_from_u8_def split: if_splits)

text \<open>
  Also:  The compile-time kind table has an entry for every record kind, the lookup
  \<open>RecordKind::info\<close> never indexes past it, no record kind maps to the invalid category,
  and the kinds classified as point operations other than the range deletion and log data
  are exactly those whose conversion to an internal-key kind keeps their wire byte.
\<close>

theorem record_kind_table:
  "\<exists>info. record_kind_info k = Some info \<and> category info \<noteq> RC_Invalid
     \<and> (category info = RC_Point \<longleftrightarrow>
          (\<exists>op. internal_key_kind_try_from_record k = Inr op
                \<and> internal_key_kind_u8 op = record_kind_u8 k \<and> op \<noteq> IK_Log))
     \<and> (category info = RC_RangeDel \<longleftrightarrow> internal_key_kind_try_from_record k = Inl RK_RangeDel)"
  by (cases k) (simp_all add: record_kind_info_eq batch_kind_info_from_def)

end
