(* ===== verification/Internal_Key.thy ===== *)
theory Internal_Key
  imports Record_Kinds
begin

text \<open>
  Internal keys (\<open>crates/engine/src/key/internal_key.rs\<close>, \<open>key/mod.rs\<close>) and the
  comparators that order them (\<open>key/comparator.rs\<close>).  An internal key is a user key
  followed by the eight big-endian bytes of the trailer \<open>(seq_no << 8) | kind\<close>.  The
  locale \<open>comparator\<close> is the contract that the skip list relies on; it is interpreted
  for both comparators of the source.
\<close>

unbundle bit_operations_syntax

section \<open>Trailers\<close>

definition pack_trailer :: "u64 \<Rightarrow> internal_key_kind \<Rightarrow> u64 option" where
  "pack_trailer seq_no op =
     do {
       assert_that (seq_no < 2 ^ 56);
       Some (push_bit 8 seq_no OR internal_key_kind_u64 op)
     }"

definition encode_trailer :: "u64 \<Rightarrow> internal_key_kind \<Rightarrow> bytes option" where
  "encode_trailer seq_no op = map_option (to_be_bytes 8) (pack_trailer seq_no op)"

definition unpack_trailer_raw :: "u64 \<Rightarrow> u64 \<times> byte" where
  "unpack_trailer_raw trailer = (drop_bit 8 trailer, ucast (trailer AND 0xff))"

definition unpack_trailer ::
  "u64 \<Rightarrow> invalid_internal_key_kind + (u64 \<times> internal_key_kind)" where
  "unpack_trailer trailer =
     (let (seq_no, op) = unpack_trailer_raw trailer
      in case internal_key_kind_try_from_u8 op of Inl e \<Rightarrow> Inl e | Inr k \<Rightarrow> Inr (seq_no, k))"

definition extract_seq_no :: "u64 \<Rightarrow> u64" where
  "extract_seq_no trailer = drop_bit 8 trailer"

definition extract_op :: "u64 \<Rightarrow> invalid_internal_key_kind + internal_key_kind" where
  "extract_op trailer = internal_key_kind_try_from_u8 (ucast (trailer AND 0xff))"

definition extract_op_raw :: "u64 \<Rightarrow> byte" where
  "extract_op_raw trailer = ucast (trailer AND 0xff)"

section \<open>Whole keys\<close>

record internal_key_ref =
  ik_user_key :: bytes
  ik_seq_no :: u64
  ik_op :: byte

definition internal_key_ref_from :: "bytes \<Rightarrow> internal_key_ref option" where
  "internal_key_ref_from key =
     do {
       assert_that (8 \<le> length key);
       let n = length key - 8;
       let user_key = take n key;
       let trailer = from_be_bytes (drop n key);
       let (seq_no, op) = unpack_trailer_raw trailer;
       Some \<lparr>ik_user_key = user_key, ik_seq_no = seq_no, ik_op = op\<rparr>
     }"

text \<open>\<open>key::encode_into\<close>: write the user key and the trailer at the start of \<open>dst\<close>.\<close>

definition encode_into :: "bytes \<Rightarrow> bytes \<Rightarrow> u64 \<Rightarrow> internal_key_kind \<Rightarrow> bytes option" where
  "encode_into dst user_key seq_no op_type =
     do {
       let user_len = length user_key;
       assert_that (user_len + 8 \<le> length dst);
       dst \<leftarrow> copy_at 0 user_key dst;
       trailer \<leftarrow> encode_trailer seq_no op_type;
       copy_at user_len trailer dst
     }"

section \<open>Comparators\<close>

definition default_compare :: "bytes \<Rightarrow> bytes \<Rightarrow> ordering option" where
  "default_compare a b = Some (slice_cmp a b)"

text \<open>\<open>a.len() - 8\<close> underflows on a key without a trailer, a panic.\<close>

definition internal_key_compare :: "bytes \<Rightarrow> bytes \<Rightarrow> ordering option" where
  "internal_key_compare a b =
     do {
       assert_that (8 \<le> length a);
       let a_user = take (length a - 8) a;
       let a_trailer = drop (length a - 8) a;
       assert_that (8 \<le> length b);
       let b_user = take (length b - 8) b;
       let b_trailer = drop (length b - 8) b;
       Some (case slice_cmp a_user b_user of
               Equal \<Rightarrow> slice_cmp b_trailer a_trailer
             | other \<Rightarrow> other)
     }"

section \<open>Specification of keys\<close>

definition trailer_of :: "u64 \<Rightarrow> internal_key_kind \<Rightarrow> u64" where
  "trailer_of seq_no op = push_bit 8 seq_no OR internal_key_kind_u64 op"

definition internal_key :: "bytes \<Rightarrow> u64 \<Rightarrow> internal_key_kind \<Rightarrow> bytes" where
  "internal_key user_key seq_no op = user_key @ to_be_bytes 8 (trailer_of seq_no op)"

definition user_part :: "bytes \<Rightarrow> bytes" where
  "user_part key = take (length key - 8) key"

definition trailer_part :: "bytes \<Rightarrow> bytes" where
  "trailer_part key = drop (length key - 8) key"

definition ik_valid :: "bytes \<Rightarrow> bool" where
  "ik_valid key \<longleftrightarrow> 8 \<le> length key"

text \<open>User keys ascending, and trailers descending within a user key.\<close>

definition ik_less :: "bytes \<Rightarrow> bytes \<Rightarrow> bool" where
  "ik_less a b \<longleftrightarrow>
     user_part a < user_part b \<or> user_part a = user_part b \<and> trailer_part b < trailer_part a"

section \<open>Lemmas on trailers\<close>

lemma bit_kind_u64: "bit (internal_key_kind_u64 op) n \<Longrightarrow> n < 8"
  by (auto simp: internal_key_kind_u64_def bit_simps dest: bit_imp_le_length)

lemma low8_take_bit: "w AND 0xff = take_bit 8 (w :: 'a::len word)"
  by (simp add: take_bit_eq_mask mask_eq_exp_minus_1)

lemma bit_seq_56: "seq < 2 ^ 56 \<Longrightarrow> bit (seq :: u64) n \<Longrightarrow> n < 56"
proof -
  assume "seq < 2 ^ 56" and b: "bit seq n"
  then have "drop_bit 56 seq = 0"
    by (metis div_word_less drop_bit_eq_div)
  then have "take_bit 56 seq = seq"
    by (simp only: take_bit_eq_self_iff_drop_bit_eq_0)
  with b show "n < 56" by (metis bit_take_bit_iff)
qed

lemma unpack_trailer_raw_trailer_of:
  "seq < 2 ^ 56 \<Longrightarrow> unpack_trailer_raw (trailer_of seq op) = (seq, internal_key_kind_u8 op)"
proof -
  assume seq: "seq < 2 ^ 56"
  have "drop_bit 8 (push_bit 8 seq OR internal_key_kind_u64 op) = seq"
    by (rule bit_word_eqI) (auto simp: bit_simps dest: bit_kind_u64 bit_seq_56 [OF seq])
  moreover have "ucast (take_bit 8 (push_bit 8 seq OR internal_key_kind_u64 op)) = internal_key_kind_u8 op"
    by (rule bit_word_eqI) (auto simp: bit_simps internal_key_kind_u64_def)
  ultimately show ?thesis by (simp add: unpack_trailer_raw_def trailer_of_def low8_take_bit)
qed

lemma trailer_of_eq_plus:
  "seq < 2 ^ 56 \<Longrightarrow> unat (trailer_of seq op) = unat seq * 256 + unat (internal_key_kind_u64 op)"
proof -
  assume seq: "seq < 2 ^ 56"
  let ?t = "trailer_of seq op"
  have d: "drop_bit 8 ?t = seq" and l: "take_bit 8 ?t = internal_key_kind_u64 op"
    using unpack_trailer_raw_trailer_of [OF seq, of op]
    by (auto simp: unpack_trailer_raw_def low8_take_bit trailer_of_def
        intro!: bit_word_eqI simp: bit_simps dest: bit_kind_u64)
  have "unat (drop_bit 8 ?t) = unat ?t div 256"
    unfolding unat_drop_bit_eq by (simp add: drop_bit_eq_div)
  moreover have "unat (take_bit 8 ?t) = unat ?t mod 256"
    unfolding unsigned_take_bit_eq by (simp add: take_bit_eq_mod)
  ultimately show ?thesis
    unfolding d l by (metis div_mult_mod_eq)
qed

lemma trailer_of_less_iff:
  assumes "s1 < 2 ^ 56" and "s2 < 2 ^ 56"
  shows "trailer_of s1 k1 < trailer_of s2 k2 \<longleftrightarrow>
           s1 < s2 \<or> s1 = s2 \<and> internal_key_kind_u8 k1 < internal_key_kind_u8 k2"
proof -
  have k: "unat (internal_key_kind_u64 k) = unat (internal_key_kind_u8 k)" for k
    by (cases k) (simp_all add: internal_key_kind_u64_def)
  have b: "unat (internal_key_kind_u8 k) < 256" for k
    by (cases k) simp_all
  show ?thesis
    unfolding word_less_nat_alt trailer_of_eq_plus [OF assms(1)] trailer_of_eq_plus [OF assms(2)] k
    using b [of k1] b [of k2] by (auto simp: unat_arith_simps)
qed

lemma pack_trailer_eq: "seq < 2 ^ 56 \<Longrightarrow> pack_trailer seq op = Some (trailer_of seq op)"
  by (simp add: pack_trailer_def trailer_of_def)

lemma encode_trailer_eq:
  "seq < 2 ^ 56 \<Longrightarrow> encode_trailer seq op = Some (to_be_bytes 8 (trailer_of seq op))"
  by (simp add: encode_trailer_def pack_trailer_eq)

section \<open>Lemmas on keys\<close>

lemma length_internal_key [simp]: "length (internal_key u s k) = length u + 8"
  by (simp add: internal_key_def)

lemma user_part_internal_key [simp]: "user_part (internal_key u s k) = u"
  by (simp add: user_part_def internal_key_def)

lemma trailer_part_internal_key [simp]:
  "trailer_part (internal_key u s k) = to_be_bytes 8 (trailer_of s k)"
  by (simp add: trailer_part_def internal_key_def)

lemma ik_valid_internal_key [simp]: "ik_valid (internal_key u s k)"
  by (simp add: ik_valid_def)

lemma user_trailer_part_eq: "user_part a = user_part b \<Longrightarrow> trailer_part a = trailer_part b \<Longrightarrow> a = b"
  unfolding user_part_def trailer_part_def by (metis append_take_drop_id)

lemma encode_into_eq:
  assumes "seq < 2 ^ 56" and "length u + 8 \<le> length dst"
  shows "encode_into dst u seq op
           = Some (internal_key u seq op @ drop (length u + 8) dst)"
  using assms by (simp add: encode_into_def copy_at_defined encode_trailer_eq internal_key_def Let_def
      add.commute)

lemma internal_key_ref_from_internal_key:
  "seq < 2 ^ 56 \<Longrightarrow>
   internal_key_ref_from (internal_key u seq op)
     = Some \<lparr>ik_user_key = u, ik_seq_no = seq, ik_op = internal_key_kind_u8 op\<rparr>"
  by (simp add: internal_key_ref_from_def internal_key_def Let_def from_be_to_be_bytes_full
      unpack_trailer_raw_trailer_of)

lemma internal_key_ref_from_user:
  "ik_valid key \<Longrightarrow> \<exists>r. internal_key_ref_from key = Some r \<and> ik_user_key r = user_part key
     \<and> (ik_seq_no r, ik_op r) = unpack_trailer_raw (from_be_bytes (trailer_part key))"
  by (auto simp: internal_key_ref_from_def ik_valid_def user_part_def trailer_part_def Let_def
      split: prod.splits)

lemma internal_key_ref_from_None: "internal_key_ref_from key = None \<longleftrightarrow> \<not> ik_valid key"
  by (auto simp: internal_key_ref_from_def ik_valid_def Let_def split: prod.splits)

lemma ik_less_internal_key:
  assumes "s1 < 2 ^ 56" and "s2 < 2 ^ 56"
  shows "ik_less (internal_key u1 s1 k1) (internal_key u2 s2 k2) \<longleftrightarrow>
           u1 < u2 \<or> u1 = u2 \<and>
             (s2 < s1 \<or> s1 = s2 \<and> internal_key_kind_u8 k2 < internal_key_kind_u8 k1)"
  by (auto simp: ik_less_def to_be_bytes_less_iff trailer_of_less_iff [OF assms(2,1)])

lemma ik_less_irrefl: "\<not> ik_less a a"
  by (simp add: ik_less_def)

lemma ik_less_trans: "ik_less a b \<Longrightarrow> ik_less b c \<Longrightarrow> ik_less a c"
  by (auto simp: ik_less_def)

lemma ik_less_total: "ik_less a b \<or> a = b \<or> ik_less b a"
  by (meson ik_less_def linorder_less_linear user_trailer_part_eq)

lemma internal_key_compare_eq:
  assumes "ik_valid a" and "ik_valid b"
  shows "internal_key_compare a b =
           Some (if ik_less a b then Less else if a = b then Equal else Greater)"
proof -
  have "internal_key_compare a b =
      Some (case slice_cmp (user_part a) (user_part b) of
              Equal \<Rightarrow> slice_cmp (trailer_part b) (trailer_part a) | other \<Rightarrow> other)"
    unfolding internal_key_compare_def user_part_def trailer_part_def
    using assms by (simp add: ik_valid_def Let_def)
  also have "\<dots> = Some (if ik_less a b then Less else if a = b then Equal else Greater)"
    using user_trailer_part_eq [of a b] by (auto simp: slice_cmp_eq ik_less_def)
  finally show ?thesis .
qed

lemma internal_key_compare_None:
  "internal_key_compare a b = None \<longleftrightarrow> \<not> ik_valid a \<or> \<not> ik_valid b"
  by (auto simp: internal_key_compare_def ik_valid_def Let_def)

section \<open>The comparator contract\<close>

text \<open>
  What a client of a \<open>Comparator\<close> relies on: on the keys of its domain it never panics
  and decides a strict linear order.
\<close>

locale comparator =
  fixes cmp :: "bytes \<Rightarrow> bytes \<Rightarrow> ordering option"
    and valid :: "bytes \<Rightarrow> bool"
    and lt :: "bytes \<Rightarrow> bytes \<Rightarrow> bool"
  assumes cmp_eq: "valid a \<Longrightarrow> valid b \<Longrightarrow>
      cmp a b = Some (if lt a b then Less else if a = b then Equal else Greater)"
    and lt_irrefl: "\<not> lt a a"
    and lt_trans: "lt a b \<Longrightarrow> lt b c \<Longrightarrow> lt a c"
    and lt_total: "valid a \<Longrightarrow> valid b \<Longrightarrow> lt a b \<or> a = b \<or> lt b a"
begin

lemma lt_asym: "lt a b \<Longrightarrow> \<not> lt b a"
  using lt_irrefl lt_trans by blast

lemma cmp_Less_iff: "valid a \<Longrightarrow> valid b \<Longrightarrow> cmp a b = Some Less \<longleftrightarrow> lt a b"
  by (simp add: cmp_eq)

lemma cmp_Equal_iff: "valid a \<Longrightarrow> valid b \<Longrightarrow> cmp a b = Some Equal \<longleftrightarrow> a = b"
  by (auto simp: cmp_eq lt_irrefl)

lemma cmp_Greater_iff: "valid a \<Longrightarrow> valid b \<Longrightarrow> cmp a b = Some Greater \<longleftrightarrow> lt b a"
  using lt_total [of a b] lt_asym lt_irrefl by (auto simp: cmp_eq)

lemma cmp_swap:
  assumes "valid a" and "valid b"
  shows "cmp b a = map_option (\<lambda>r. case r of Less \<Rightarrow> Greater | Equal \<Rightarrow> Equal | Greater \<Rightarrow> Less) (cmp a b)"
  using assms lt_total [of a b] lt_asym lt_irrefl by (auto simp: cmp_eq)

lemma not_lt_trans: "valid a \<Longrightarrow> valid b \<Longrightarrow> \<not> lt b a \<Longrightarrow> lt b c \<Longrightarrow> lt a c"
  using lt_total lt_trans by blast

end

interpretation default_cmp: comparator default_compare "\<lambda>_. True" "(<)"
  by unfold_locales (auto simp: default_compare_def slice_cmp_eq)

interpretation ik_cmp: comparator internal_key_compare ik_valid ik_less
  by unfold_locales
    (simp_all add: internal_key_compare_eq ik_less_irrefl ik_less_total, rule ik_less_trans)

section \<open>Properties\<close>

text \<open>
  C10.  Encoding an internal key into a buffer and decoding it again returns the user key,
  the sequence number and the kind byte, for every sequence number below \<open>2 ^ 56\<close> and
  every buffer the key exactly fills.
\<close>

theorem internal_key_roundtrip:
  assumes "seq_no < 2 ^ 56" and "length dst = length user_key + 8"
  shows "\<exists>key. encode_into dst user_key seq_no op = Some key
           \<and> internal_key_ref_from key
               = Some \<lparr>ik_user_key = user_key, ik_seq_no = seq_no, ik_op = internal_key_kind_u8 op\<rparr>"
  using assms by (simp add: encode_into_eq internal_key_ref_from_internal_key)

theorem internal_key_roundtrip_witness:
  "\<exists>key. encode_into (replicate 11 1) [107, 101, 121] 7 IK_Delete = Some key
     \<and> internal_key_ref_from key = Some \<lparr>ik_user_key = [107, 101, 121], ik_seq_no = 7, ik_op = 2\<rparr>"
  using internal_key_roundtrip [of 7 "replicate 11 1" "[107, 101, 121]" IK_Delete] by simp

text \<open>
  C11.  \<open>InternalKeyComparator\<close> orders encoded keys by user key ascending, then by
  sequence number descending, then by kind code descending, and reports equality exactly
  on equal keys, so the newest version of a user key sorts first.
\<close>

theorem internal_key_order:
  assumes "s1 < 2 ^ 56" and "s2 < 2 ^ 56"
  shows "internal_key_compare (internal_key u1 s1 k1) (internal_key u2 s2 k2) =
    Some (if u1 < u2 then Less else if u2 < u1 then Greater
          else if s1 > s2 then Less else if s1 < s2 then Greater
          else if internal_key_kind_u8 k1 > internal_key_kind_u8 k2 then Less
          else if internal_key_kind_u8 k1 < internal_key_kind_u8 k2 then Greater else Equal)"
proof -
  have lt: "ik_less (internal_key u1 s1 k1) (internal_key u2 s2 k2) \<longleftrightarrow>
      u1 < u2 \<or> u1 = u2 \<and> (s2 < s1 \<or> s1 = s2 \<and> internal_key_kind_u8 k2 < internal_key_kind_u8 k1)"
    by (rule ik_less_internal_key [OF assms])
  have gt: "ik_less (internal_key u2 s2 k2) (internal_key u1 s1 k1) \<longleftrightarrow>
      u2 < u1 \<or> u2 = u1 \<and> (s1 < s2 \<or> s2 = s1 \<and> internal_key_kind_u8 k1 < internal_key_kind_u8 k2)"
    by (rule ik_less_internal_key [OF assms(2,1)])
  have eq: "internal_key u1 s1 k1 = internal_key u2 s2 k2 \<longleftrightarrow> u1 = u2 \<and> s1 = s2 \<and> k1 = k2"
    using lt gt ik_less_total [of "internal_key u1 s1 k1" "internal_key u2 s2 k2"]
      ik_less_irrefl [of "internal_key u2 s2 k2"] internal_key_kind_u8_inject [of k1 k2]
    by (metis linorder_less_linear)
  have cmp: "internal_key_compare (internal_key u1 s1 k1) (internal_key u2 s2 k2) =
      Some (if u1 < u2 \<or> u1 = u2 \<and> (s2 < s1 \<or> s1 = s2 \<and> internal_key_kind_u8 k2 < internal_key_kind_u8 k1)
            then Less else if u1 = u2 \<and> s1 = s2 \<and> k1 = k2 then Equal else Greater)"
    by (simp add: internal_key_compare_eq lt eq)
  have "\<not> internal_key_kind_u8 k1 < internal_key_kind_u8 k2 \<Longrightarrow>
      \<not> internal_key_kind_u8 k2 < internal_key_kind_u8 k1 \<Longrightarrow> k1 = k2"
    by (metis internal_key_kind_u8_inject linorder_less_linear)
  then have "internal_key_kind_u8 k1 < internal_key_kind_u8 k2
      \<or> internal_key_kind_u8 k2 < internal_key_kind_u8 k1 \<or> k1 = k2"
    by blast
  then show ?thesis
    unfolding cmp by (cases u1 u2 rule: linorder_cases; cases s1 s2 rule: linorder_cases) auto
qed

theorem internal_key_order_witness:
  "internal_key_compare (internal_key [97] 9 IK_Put) (internal_key [97] 4 IK_Put) = Some Less"
  using internal_key_order [of 9 4 "[97]" IK_Put "[97]" IK_Put] by simp

text \<open>
  Also:  Every trailer the code packs below \<open>2 ^ 56\<close> yields its sequence number again, and
  its kind is recovered by \<open>unpack_trailer\<close> except for the declared kinds \<open>RangeDel\<close>
  and \<open>Log\<close>, which \<open>TryFrom<u8>\<close> rejects although \<open>pack_trailer\<close> writes them.
\<close>

theorem unpack_trailer_packed:
  assumes "pack_trailer seq_no op = Some t"
  shows "extract_seq_no t = seq_no \<and> extract_op_raw t = internal_key_kind_u8 op \<and>
    unpack_trailer t = (if op = IK_RangeDel \<or> op = IK_Log
       then Inl \<lparr>ik_invalid_raw = internal_key_kind_u8 op\<rparr> else Inr (seq_no, op))"
proof -
  have seq: "seq_no < 2 ^ 56" and t: "t = trailer_of seq_no op"
    using assms by (auto simp: pack_trailer_def trailer_of_def split: if_splits)
  then have raw: "unpack_trailer_raw t = (seq_no, internal_key_kind_u8 op)"
    by (simp add: unpack_trailer_raw_trailer_of)
  then have "extract_seq_no t = seq_no" and "extract_op_raw t = internal_key_kind_u8 op"
    by (simp_all add: unpack_trailer_raw_def extract_seq_no_def extract_op_raw_def)
  then show ?thesis
    by (simp add: unpack_trailer_def raw internal_key_kind_try_from_u8_u8)
qed

theorem unpack_trailer_packed_witness:
  "pack_trailer 3 IK_Log = Some 0x305 \<and> extract_seq_no 0x305 = 3
     \<and> unpack_trailer 0x305 = Inl \<lparr>ik_invalid_raw = 5\<rparr>"
proof -
  have p: "pack_trailer 3 IK_Log = Some 0x305" by code_simp
  show ?thesis using p unpack_trailer_packed [OF p] by simp
qed

end
