(* ===== verification/Key_Buffers.thy ===== *)
theory Key_Buffers
  imports Internal_Key
begin

text \<open>
  The buffers that hold an internal key on the read path: \<open>InnerKey\<close>
  (\<open>crates/engine/src/key/inner_key.rs\<close>), \<open>LookUpKey\<close> (\<open>lookup_key.rs\<close>) and the
  reusable \<open>IterKey\<close> (\<open>iter_key.rs\<close>).  The const parameter \<open>N\<close> is an argument.  A
  \<open>Vec<u8>\<close> is its allocation (all bytes of its capacity), its length and the identity of
  the allocation; a raw pointer is that identity, and reading through it a length beyond
  the allocation is undefined behaviour, \<open>None\<close>.
\<close>

section \<open>Constants\<close>

definition MAX_USER_KEY_BYTES :: nat where
  "MAX_USER_KEY_BYTES = 65535"

definition MAX_KEY_SIZE :: nat where
  "MAX_KEY_SIZE = MAX_USER_KEY_BYTES"

definition INITIAL_KEY_BUFFER_CAP :: nat where
  "INITIAL_KEY_BUFFER_CAP = 512"

definition ITER_INLINE :: nat where
  "ITER_INLINE = 39"

definition INLINE_IK_SIZE :: nat where
  "INLINE_IK_SIZE = 20"

section \<open>Vectors with a capacity\<close>

record u8_vec =
  vec_ptr :: nat
  vec_mem :: bytes
  vec_len :: nat

abbreviation vec_capacity :: "u8_vec \<Rightarrow> nat" where
  "vec_capacity v \<equiv> length (vec_mem v)"

definition vec_with_capacity :: "nat \<Rightarrow> u8_vec" where
  "vec_with_capacity cap = \<lparr>vec_ptr = 0, vec_mem = replicate cap 0, vec_len = 0\<rparr>"

definition vec_clear :: "u8_vec \<Rightarrow> u8_vec" where
  "vec_clear v = v\<lparr>vec_len := 0\<rparr>"

text \<open>
  \<open>Vec::reserve(additional)\<close>: room for \<open>additional\<close> elements after \<open>len\<close>; nothing
  happens when the capacity already allows it, otherwise the allocation is replaced by one
  of the amortised size (twice the old capacity, or what is required).
\<close>

definition vec_reserve :: "nat \<Rightarrow> u8_vec \<Rightarrow> u8_vec" where
  "vec_reserve additional v =
     (if vec_len v + additional \<le> vec_capacity v then v
      else let cap = max 8 (max (2 * vec_capacity v) (vec_len v + additional))
           in v\<lparr>vec_ptr := Suc (vec_ptr v), vec_mem := vec_resize cap 0 (vec_mem v)\<rparr>)"

text \<open>\<open>Vec::set_len\<close> does not look at the capacity.\<close>

definition vec_set_len :: "nat \<Rightarrow> u8_vec \<Rightarrow> u8_vec" where
  "vec_set_len n v = v\<lparr>vec_len := n\<rparr>"

section \<open>InnerKey\<close>

record inner_key =
  ink_inline :: bytes
  ink_len :: nat
  ink_external :: "nat option"

definition inner_key_new :: "nat \<Rightarrow> inner_key" where
  "inner_key_new N = \<lparr>ink_inline = replicate N 0, ink_len = 0, ink_external = None\<rparr>"

text \<open>\<open>mem\<close> resolves the pointer to the bytes of a live allocation.\<close>

definition inner_key_as_slice :: "(nat \<rightharpoonup> bytes) \<Rightarrow> inner_key \<Rightarrow> bytes option" where
  "inner_key_as_slice mem k =
     (case ink_external k of
        Some p \<Rightarrow> mem p \<bind> slice_at 0 (ink_len k)
      | None \<Rightarrow> slice_at 0 (ink_len k) (ink_inline k))"

definition inner_key_set_inline :: "nat \<Rightarrow> inner_key \<Rightarrow> inner_key option" where
  "inner_key_set_inline len k =
     do {
       assert_that (len \<le> length (ink_inline k));
       Some (k\<lparr>ink_len := len, ink_external := None\<rparr>)
     }"

definition inner_key_set_external :: "nat \<Rightarrow> nat \<Rightarrow> inner_key \<Rightarrow> inner_key" where
  "inner_key_set_external len ptr k = k\<lparr>ink_len := len, ink_external := Some ptr\<rparr>"

definition inner_key_encode_inline ::
  "bytes \<Rightarrow> u64 \<Rightarrow> internal_key_kind \<Rightarrow> inner_key \<Rightarrow> inner_key option" where
  "inner_key_encode_inline user_key seq_no op k =
     do {
       let total = length user_key + 8;
       assert_that (total \<le> length (ink_inline k));
       k \<leftarrow> inner_key_set_inline total k;
       dst \<leftarrow> slice_at 0 total (ink_inline k);
       enc \<leftarrow> encode_into dst user_key seq_no op;
       inline \<leftarrow> copy_at 0 enc (ink_inline k);
       Some (k\<lparr>ink_inline := inline\<rparr>)
     }"

definition inner_key_encode_inline_from_slice :: "bytes \<Rightarrow> inner_key \<Rightarrow> inner_key option" where
  "inner_key_encode_inline_from_slice src k =
     do {
       let len = length src;
       assert_that (len \<le> length (ink_inline k));
       k \<leftarrow> inner_key_set_inline len k;
       inline \<leftarrow> copy_at 0 src (ink_inline k);
       Some (k\<lparr>ink_inline := inline\<rparr>)
     }"

section \<open>LookUpKey\<close>

record lookup_key =
  lk_inner :: inner_key
  lk_buffer :: "bytes option"

text \<open>The boxed buffer, when there is one, is the only allocation of the key.\<close>

definition lookup_key_mem :: "lookup_key \<Rightarrow> (nat \<rightharpoonup> bytes)" where
  "lookup_key_mem k p = (if p = 0 then lk_buffer k else None)"

definition lookup_key_new :: "nat \<Rightarrow> bytes \<Rightarrow> u64 \<Rightarrow> internal_key_kind \<Rightarrow> lookup_key option" where
  "lookup_key_new N user_key seq_no op =
     do {
       let total = length user_key + 8;
       assert_that (total \<le> MAX_KEY_SIZE);
       if total \<le> N then
         do {
           inner \<leftarrow> inner_key_encode_inline user_key seq_no op (inner_key_new N);
           Some \<lparr>lk_inner = inner, lk_buffer = None\<rparr>
         }
       else
         do {
           trailer \<leftarrow> encode_trailer seq_no op;
           let buffer = user_key @ trailer;
           let inner = inner_key_set_external total 0 (inner_key_new N);
           Some \<lparr>lk_inner = inner, lk_buffer = Some buffer\<rparr>
         }
     }"

definition lookup_key_as_ref :: "lookup_key \<Rightarrow> bytes option" where
  "lookup_key_as_ref k = inner_key_as_slice (lookup_key_mem k) (lk_inner k)"

section \<open>IterKey\<close>

record iter_key =
  itk_inner :: inner_key
  itk_heap :: u8_vec

definition iter_key_mem :: "iter_key \<Rightarrow> (nat \<rightharpoonup> bytes)" where
  "iter_key_mem k p = (if p = vec_ptr (itk_heap k) then Some (vec_mem (itk_heap k)) else None)"

definition iter_key_new :: "nat \<Rightarrow> iter_key" where
  "iter_key_new N =
     \<lparr>itk_inner = inner_key_new N, itk_heap = vec_with_capacity INITIAL_KEY_BUFFER_CAP\<rparr>"

text \<open>The shared heap path of \<open>set\<close> and \<open>set_from_slice\<close>: clear, reserve
  \<open>total - capacity\<close> more, and set the length.\<close>

definition iter_key_prepare_heap :: "nat \<Rightarrow> u8_vec \<Rightarrow> u8_vec" where
  "iter_key_prepare_heap needed heap =
     (let heap = vec_clear heap;
          heap = (if vec_capacity heap < needed
                  then vec_reserve (needed - vec_capacity heap) heap else heap)
      in vec_set_len needed heap)"

definition iter_key_set ::
  "bytes \<Rightarrow> u64 \<Rightarrow> internal_key_kind \<Rightarrow> iter_key \<Rightarrow> iter_key option" where
  "iter_key_set user_key seq_no op k =
     do {
       let total = length user_key + 8;
       assert_that (total \<le> MAX_KEY_SIZE);
       if total \<le> length (ink_inline (itk_inner k)) then
         do {
           inner \<leftarrow> inner_key_encode_inline user_key seq_no op (itk_inner k);
           Some (k\<lparr>itk_inner := inner\<rparr>)
         }
       else
         do {
           let heap = iter_key_prepare_heap total (itk_heap k);
           let inner = inner_key_set_external total (vec_ptr heap) (itk_inner k);
           dst \<leftarrow> slice_at 0 total (vec_mem heap);
           enc \<leftarrow> encode_into dst user_key seq_no op;
           mem \<leftarrow> copy_at 0 enc (vec_mem heap);
           Some \<lparr>itk_inner = inner, itk_heap = heap\<lparr>vec_mem := mem\<rparr>\<rparr>
         }
     }"

definition iter_key_set_from_slice :: "bytes \<Rightarrow> iter_key \<Rightarrow> iter_key option" where
  "iter_key_set_from_slice src k =
     (let len = length src
      in if len \<le> length (ink_inline (itk_inner k)) then
           do {
             inner \<leftarrow> inner_key_encode_inline_from_slice src (itk_inner k);
             Some (k\<lparr>itk_inner := inner\<rparr>)
           }
         else
           do {
             let heap = iter_key_prepare_heap len (itk_heap k);
             let inner = inner_key_set_external len (vec_ptr heap) (itk_inner k);
             mem \<leftarrow> copy_at 0 src (vec_mem heap);
             Some \<lparr>itk_inner = inner, itk_heap = heap\<lparr>vec_mem := mem\<rparr>\<rparr>
           })"

definition iter_key_as_slice :: "iter_key \<Rightarrow> bytes option" where
  "iter_key_as_slice k = inner_key_as_slice (iter_key_mem k) (itk_inner k)"

text \<open>The invariant of an \<open>IterKey<N>\<close>: the inline array has \<open>N\<close> bytes and the vector
  never shrinks below its initial capacity.\<close>

definition iter_key_inv :: "nat \<Rightarrow> iter_key \<Rightarrow> bool" where
  "iter_key_inv N k \<longleftrightarrow>
     length (ink_inline (itk_inner k)) = N \<and> INITIAL_KEY_BUFFER_CAP \<le> vec_capacity (itk_heap k)"

section \<open>Lemmas\<close>

lemma inner_key_encode_inline_eq:
  assumes "seq < 2 ^ 56" and "length u + 8 \<le> length (ink_inline k)"
  shows "inner_key_encode_inline u seq op k =
    Some (k\<lparr>ink_inline := internal_key u seq op @ drop (length u + 8) (ink_inline k),
            ink_len := length u + 8, ink_external := None\<rparr>)"
  using assms
  by (simp add: inner_key_encode_inline_def inner_key_set_inline_def Let_def slice_at_def
      encode_into_eq copy_at_defined)

lemma inner_key_encode_inline_from_slice_eq:
  assumes "length s \<le> length (ink_inline k)"
  shows "inner_key_encode_inline_from_slice s k =
    Some (k\<lparr>ink_inline := s @ drop (length s) (ink_inline k), ink_len := length s,
            ink_external := None\<rparr>)"
  using assms
  by (simp add: inner_key_encode_inline_from_slice_def inner_key_set_inline_def Let_def copy_at_defined)

text \<open>Asking for \<open>total - capacity\<close> more after clearing never makes room for \<open>total\<close>.\<close>

lemma iter_key_prepare_heap_cap:
  assumes "8 \<le> vec_capacity heap"
  shows "needed \<le> vec_capacity (iter_key_prepare_heap needed heap) \<longleftrightarrow> needed \<le> vec_capacity heap"
  using assms
  by (auto simp: iter_key_prepare_heap_def vec_clear_def vec_reserve_def vec_set_len_def Let_def)

lemma iter_key_prepare_heap_mono:
  "vec_capacity heap \<le> vec_capacity (iter_key_prepare_heap needed heap)"
  by (auto simp: iter_key_prepare_heap_def vec_clear_def vec_reserve_def vec_set_len_def Let_def)

lemma iter_key_inv_new [inv_intros]: "iter_key_inv N (iter_key_new N)"
  by (simp add: iter_key_inv_def iter_key_new_def inner_key_new_def vec_with_capacity_def)


lemma iter_key_set_inline:
  assumes "seq < 2 ^ 56" and "length u + 8 \<le> MAX_KEY_SIZE"
    and "length u + 8 \<le> length (ink_inline (itk_inner k))"
  shows "\<exists>k'. iter_key_set u seq op k = Some k' \<and> itk_heap k' = itk_heap k
           \<and> length (ink_inline (itk_inner k')) = length (ink_inline (itk_inner k))
           \<and> iter_key_as_slice k' = Some (internal_key u seq op)"
  using assms
  by (simp add: iter_key_set_def Let_def inner_key_encode_inline_eq iter_key_as_slice_def
      inner_key_as_slice_def slice_at_def)

lemma iter_key_set_heap:
  assumes "seq < 2 ^ 56" and "length u + 8 \<le> MAX_KEY_SIZE"
    and "length (ink_inline (itk_inner k)) < length u + 8"
    and "length u + 8 \<le> vec_capacity (itk_heap k)"
  shows "\<exists>k'. iter_key_set u seq op k = Some k' \<and> vec_capacity (itk_heap k') = vec_capacity (itk_heap k)
           \<and> vec_ptr (itk_heap k') = vec_ptr (itk_heap k)
           \<and> ink_inline (itk_inner k') = ink_inline (itk_inner k)
           \<and> iter_key_as_slice k' = Some (internal_key u seq op)"
proof -
  have heap: "iter_key_prepare_heap (length u + 8) (itk_heap k) = (itk_heap k)\<lparr>vec_len := length u + 8\<rparr>"
    using assms(4) by (simp add: iter_key_prepare_heap_def vec_clear_def vec_set_len_def Let_def)
  show ?thesis
    using assms
    by (simp add: iter_key_set_def Let_def heap slice_at_def encode_into_eq copy_at_defined
        iter_key_as_slice_def inner_key_as_slice_def iter_key_mem_def inner_key_set_external_def)
qed

lemma iter_key_set_overflow:
  assumes "8 \<le> vec_capacity (itk_heap k)"
    and "length (ink_inline (itk_inner k)) < length u + 8"
    and "vec_capacity (itk_heap k) < length u + 8"
  shows "iter_key_set u seq op k = None"
proof -
  have "\<not> length u + 8 \<le> vec_capacity (iter_key_prepare_heap (length u + 8) (itk_heap k))"
    using assms(3) by (subst iter_key_prepare_heap_cap [OF assms(1)]) simp
  then show ?thesis using assms(2) by (simp add: iter_key_set_def Let_def slice_at_def)
qed

lemma iter_key_set_bad_seq:
  assumes "\<not> seq < 2 ^ 56"
  shows "iter_key_set u seq op k = None"
proof -
  have enc: "encode_into dst u seq op = None" for dst
    using assms by (auto simp: encode_into_def encode_trailer_def pack_trailer_def Let_def split: bind_splits)
  have "inner_key_encode_inline u seq op i = None" for i
    by (auto simp: inner_key_encode_inline_def enc Let_def split: bind_splits)
  then show ?thesis
    by (auto simp: iter_key_set_def enc Let_def split: bind_splits)
qed

lemma iter_key_set_too_long: "\<not> length u + 8 \<le> MAX_KEY_SIZE \<Longrightarrow> iter_key_set u seq op k = None"
  by (simp add: iter_key_set_def Let_def)

lemma iter_key_set_from_slice_ok:
  assumes "length s \<le> length (ink_inline (itk_inner k)) \<or> length s \<le> vec_capacity (itk_heap k)"
  shows "\<exists>k'. iter_key_set_from_slice s k = Some k' \<and> iter_key_as_slice k' = Some s"
proof (cases "length s \<le> length (ink_inline (itk_inner k))")
  case True
  then show ?thesis
    by (simp add: iter_key_set_from_slice_def Let_def inner_key_encode_inline_from_slice_eq
        iter_key_as_slice_def inner_key_as_slice_def slice_at_def)
next
  case False
  then have heap: "iter_key_prepare_heap (length s) (itk_heap k) = (itk_heap k)\<lparr>vec_len := length s\<rparr>"
    using assms by (simp add: iter_key_prepare_heap_def vec_clear_def vec_set_len_def Let_def)
  show ?thesis
    using assms False
    by (simp add: iter_key_set_from_slice_def Let_def heap copy_at_defined slice_at_def
        iter_key_as_slice_def inner_key_as_slice_def iter_key_mem_def inner_key_set_external_def)
qed

section \<open>Properties\<close>

text \<open>
  Also:  \<open>LookUpKey::new\<close> succeeds exactly when the user key with its eight-byte trailer
  fits \<open>MAX_KEY_SIZE\<close> and the sequence number fits 56 bits, and then the key it exposes is
  the encoded internal key, whether it is stored inline or in the boxed buffer.  The limit
  is eight bytes short of the documented maximum for user keys.
\<close>

theorem lookup_key_correct:
  "(case lookup_key_new N user_key seq_no op of
      Some k \<Rightarrow> lookup_key_as_ref k = Some (internal_key user_key seq_no op)
        \<and> seq_no < 2 ^ 56 \<and> length user_key + 8 \<le> MAX_USER_KEY_BYTES
    | None \<Rightarrow> \<not> (seq_no < 2 ^ 56 \<and> length user_key + 8 \<le> MAX_USER_KEY_BYTES))"
proof (cases "seq_no < 2 ^ 56 \<and> length user_key + 8 \<le> MAX_USER_KEY_BYTES")
  case True
  then show ?thesis
    by (simp add: lookup_key_new_def MAX_KEY_SIZE_def inner_key_encode_inline_eq inner_key_new_def
        lookup_key_as_ref_def inner_key_as_slice_def slice_at_def encode_trailer_eq
        inner_key_set_external_def lookup_key_mem_def internal_key_def Let_def)
next
  case False
  have enc: "seq_no < 2 ^ 56 \<or> encode_trailer seq_no op = None"
    by (auto simp: encode_trailer_def pack_trailer_def)
  have "seq_no < 2 ^ 56 \<or> inner_key_encode_inline user_key seq_no op i = None" for i
    using enc by (auto simp: inner_key_encode_inline_def encode_into_def Let_def split: bind_splits)
  then have "lookup_key_new N user_key seq_no op = None"
    using False enc by (auto simp: lookup_key_new_def MAX_KEY_SIZE_def Let_def)
  with False show ?thesis by simp
qed

text \<open>
  Also:  \<open>IterKey::set\<close> on a key buffer with \<open>N\<close> inline bytes returns, and then exposes
  exactly the encoded internal key, if and only if the sequence number and the length are
  in range and the encoded key fits the inline array or the capacity the vector already
  has: the reservation on the heap path never provides more room, so a longer key is
  written past the allocation.
\<close>

theorem iter_key_set_iff:
  assumes "iter_key_inv N k"
  shows "(\<exists>k'. iter_key_set user_key seq_no op k = Some k'
            \<and> iter_key_inv N k' \<and> iter_key_as_slice k' = Some (internal_key user_key seq_no op))
    \<longleftrightarrow> seq_no < 2 ^ 56 \<and> length user_key + 8 \<le> MAX_KEY_SIZE
        \<and> length user_key + 8 \<le> max N (vec_capacity (itk_heap k))"
    (is "?ok \<longleftrightarrow> ?fits")
proof
  have N: "length (ink_inline (itk_inner k)) = N" and cap: "512 \<le> vec_capacity (itk_heap k)"
    using assms by (auto simp: iter_key_inv_def INITIAL_KEY_BUFFER_CAP_def)
  show ?fits if ?ok
  proof (rule ccontr)
    assume "\<not> ?fits"
    then consider "\<not> seq_no < 2 ^ 56" | "\<not> length user_key + 8 \<le> MAX_KEY_SIZE"
      | "N < length user_key + 8" "vec_capacity (itk_heap k) < length user_key + 8"
      by linarith
    then have "iter_key_set user_key seq_no op k = None"
    proof cases
      case 3
      with N cap show ?thesis by (intro iter_key_set_overflow) simp_all
    qed (simp_all only: iter_key_set_bad_seq iter_key_set_too_long not_False_eq_True)
    with that show False by simp
  qed
  show ?ok if ?fits
  proof (cases "length user_key + 8 \<le> N")
    case True
    then show ?thesis
      using that iter_key_set_inline [of seq_no user_key k op] N cap
      by (auto simp: iter_key_inv_def INITIAL_KEY_BUFFER_CAP_def)
  next
    case False
    then show ?thesis
      using that iter_key_set_heap [of seq_no user_key k op] N cap
      by (auto simp: iter_key_inv_def INITIAL_KEY_BUFFER_CAP_def le_max_iff_disj)
  qed
qed

theorem iter_key_set_iff_witness:
  "iter_key_inv 39 (iter_key_new 39) \<and>
   \<not> (\<exists>k'. iter_key_set (replicate 600 97) 1 IK_Put (iter_key_new 39) = Some k'
        \<and> iter_key_inv 39 k'
        \<and> iter_key_as_slice k' = Some (internal_key (replicate 600 97) 1 IK_Put))"
proof -
  have cap: "vec_capacity (itk_heap (iter_key_new 39)) = 512"
    by (simp add: iter_key_new_def vec_with_capacity_def INITIAL_KEY_BUFFER_CAP_def)
  show ?thesis
    using iter_key_inv_new [of 39]
      iter_key_set_iff [OF iter_key_inv_new [of 39], of "replicate 600 97" 1 IK_Put]
    by (simp add: cap)
qed

end
