(* ===== verification/Log_Records.thy ===== *)
theory Log_Records
  imports Ord_Prelude
begin

text \<open>
  The chunk-header formats of the log files (\<open>crates/engine/src/log_records/mod.rs\<close>): the
  chunk encodings, the wire formats with their header sizes, and the compile-time table
  from encodings to formats.
\<close>

section \<open>Definitions\<close>

definition LegacyHeaderSize :: nat where
  "LegacyHeaderSize = 7"

definition RecyclableHeaderSize :: nat where
  "RecyclableHeaderSize = LegacyHeaderSize + 4"

definition WALSyncRecyclableHeaderSize :: nat where
  "WALSyncRecyclableHeaderSize = RecyclableHeaderSize + 8"

definition BlockSize :: nat where
  "BlockSize = 32 * 1024"

datatype chunk_position = InvalidType | FullType | FirstType | MiddleType | LastType

datatype wire_format = InvalidFormat | Legacy | Recyclable | WALSync

record header_format =
  hf_chunk_position :: chunk_position
  hf_wire_format :: wire_format
  hf_header_size :: nat

definition header_format_new :: "chunk_position \<Rightarrow> wire_format \<Rightarrow> nat \<Rightarrow> header_format" where
  "header_format_new p w n = \<lparr>hf_chunk_position = p, hf_wire_format = w, hf_header_size = n\<rparr>"

definition INVALID_HEADER_FORMAT :: header_format where
  "INVALID_HEADER_FORMAT = header_format_new InvalidType InvalidFormat 0"

text \<open>The chunk encodings, in the order of their constants.\<close>

definition FullChunkEncoding :: nat where "FullChunkEncoding = 1"
definition FirstChunkEncoding :: nat where "FirstChunkEncoding = 2"
definition MiddleChunkEncoding :: nat where "MiddleChunkEncoding = 3"
definition LastChunkEncoding :: nat where "LastChunkEncoding = 4"
definition RecyclableFullChunkEncoding :: nat where "RecyclableFullChunkEncoding = 5"
definition RecyclableFirstChunkEncoding :: nat where "RecyclableFirstChunkEncoding = 6"
definition RecyclableMiddleChunkEncoding :: nat where "RecyclableMiddleChunkEncoding = 7"
definition RecyclableLastChunkEncoding :: nat where "RecyclableLastChunkEncoding = 8"
definition WALSyncFullChunkEncoding :: nat where "WALSyncFullChunkEncoding = 9"
definition WALSyncFirstChunkEncoding :: nat where "WALSyncFirstChunkEncoding = 10"
definition WALSyncMiddleChunkEncoding :: nat where "WALSyncMiddleChunkEncoding = 11"
definition WALSyncLastChunkEncoding :: nat where "WALSyncLastChunkEncoding = 12"

definition HEADER_FORMAT_MAP_ARRAY_SIZE :: nat where
  "HEADER_FORMAT_MAP_ARRAY_SIZE = 13"

definition make_header_format_map_array :: "header_format list" where
  "make_header_format_map_array =
     (let formats = replicate HEADER_FORMAT_MAP_ARRAY_SIZE INVALID_HEADER_FORMAT;
          formats = formats[FullChunkEncoding := header_format_new FullType Legacy LegacyHeaderSize];
          formats = formats[FirstChunkEncoding := header_format_new FirstType Legacy LegacyHeaderSize];
          formats = formats[MiddleChunkEncoding := header_format_new MiddleType Legacy LegacyHeaderSize];
          formats = formats[LastChunkEncoding := header_format_new LastType Legacy LegacyHeaderSize];
          formats = formats[RecyclableFullChunkEncoding :=
            header_format_new FullType Recyclable RecyclableHeaderSize];
          formats = formats[RecyclableFirstChunkEncoding :=
            header_format_new FirstType Recyclable RecyclableHeaderSize];
          formats = formats[RecyclableMiddleChunkEncoding :=
            header_format_new MiddleType Recyclable RecyclableHeaderSize];
          formats = formats[RecyclableLastChunkEncoding :=
            header_format_new LastType Recyclable RecyclableHeaderSize];
          formats = formats[WALSyncFullChunkEncoding :=
            header_format_new FullType WALSync WALSyncRecyclableHeaderSize];
          formats = formats[WALSyncFirstChunkEncoding :=
            header_format_new FirstType WALSync WALSyncRecyclableHeaderSize];
          formats = formats[WALSyncMiddleChunkEncoding :=
            header_format_new MiddleType WALSync WALSyncRecyclableHeaderSize];
          formats = formats[WALSyncLastChunkEncoding :=
            header_format_new LastType WALSync WALSyncRecyclableHeaderSize]
      in formats)"

section \<open>Specification\<close>

text \<open>The bytes of a header, field by field: checksum 4, size 2, type 1, then a log number
  of 4 in the recyclable formats and a sync offset of 8 in the sync format.\<close>

primrec wire_header_bytes :: "wire_format \<Rightarrow> nat" where
  "wire_header_bytes InvalidFormat = 0"
| "wire_header_bytes Legacy = 4 + 2 + 1"
| "wire_header_bytes Recyclable = 4 + 2 + 1 + 4"
| "wire_header_bytes WALSync = 4 + 2 + 1 + 4 + 8"

lemmas chunk_encoding_defs =
  FullChunkEncoding_def FirstChunkEncoding_def MiddleChunkEncoding_def LastChunkEncoding_def
  RecyclableFullChunkEncoding_def RecyclableFirstChunkEncoding_def
  RecyclableMiddleChunkEncoding_def RecyclableLastChunkEncoding_def
  WALSyncFullChunkEncoding_def WALSyncFirstChunkEncoding_def WALSyncMiddleChunkEncoding_def
  WALSyncLastChunkEncoding_def

lemmas header_size_defs =
  LegacyHeaderSize_def RecyclableHeaderSize_def WALSyncRecyclableHeaderSize_def

lemma make_header_format_map_array_eq:
  "make_header_format_map_array =
     header_format_new InvalidType InvalidFormat 0 #
     [header_format_new p w (wire_header_bytes w).
        w \<leftarrow> [Legacy, Recyclable, WALSync], p \<leftarrow> [FullType, FirstType, MiddleType, LastType]]"
  by (simp add: make_header_format_map_array_def chunk_encoding_defs header_size_defs Let_def
      HEADER_FORMAT_MAP_ARRAY_SIZE_def INVALID_HEADER_FORMAT_def numeral_eq_Suc)

section \<open>Properties\<close>

text \<open>
  Also:  The header table is one-to-one: it has thirteen entries, entry 0 alone is invalid,
  every valid wire format and chunk position occurs at exactly one encoding, the header
  size of each entry is the size of the fields of its wire format, and every header fits a
  block.
\<close>

theorem header_format_table:
  "length make_header_format_map_array = HEADER_FORMAT_MAP_ARRAY_SIZE
   \<and> distinct make_header_format_map_array
   \<and> make_header_format_map_array ! 0 = INVALID_HEADER_FORMAT
   \<and> (\<lambda>f. (hf_wire_format f, hf_chunk_position f)) ` set (tl make_header_format_map_array)
       = {Legacy, Recyclable, WALSync} \<times> {FullType, FirstType, MiddleType, LastType}
   \<and> list_all (\<lambda>f. hf_header_size f = wire_header_bytes (hf_wire_format f)
                     \<and> hf_header_size f < BlockSize) make_header_format_map_array"
proof (intro conjI)
  show "length make_header_format_map_array = HEADER_FORMAT_MAP_ARRAY_SIZE"
    by (simp add: make_header_format_map_array_eq HEADER_FORMAT_MAP_ARRAY_SIZE_def)
  show "distinct make_header_format_map_array"
    by (simp add: make_header_format_map_array_eq header_format_new_def)
  show "make_header_format_map_array ! 0 = INVALID_HEADER_FORMAT"
    by (simp add: make_header_format_map_array_eq INVALID_HEADER_FORMAT_def)
  show "(\<lambda>f. (hf_wire_format f, hf_chunk_position f)) ` set (tl make_header_format_map_array)
       = {Legacy, Recyclable, WALSync} \<times> {FullType, FirstType, MiddleType, LastType}"
    by (simp add: make_header_format_map_array_eq header_format_new_def insert_commute)
  show "list_all (\<lambda>f. hf_header_size f = wire_header_bytes (hf_wire_format f)
                     \<and> hf_header_size f < BlockSize) make_header_format_map_array"
    by (simp add: make_header_format_map_array_eq header_format_new_def BlockSize_def)
qed

end
