(* ===== verification/Arena.thy ===== *)
theory Arena
  imports Ord_Prelude
begin

text \<open>
  The bump allocator of \<open>crates/engine/src/arena/arena.rs\<close> and \<open>allocator.rs\<close>.  Chunks
  are a list in allocation order and the current chunk is an index into it; a pointer
  into the arena is a chunk index with an offset.  The address the system allocator returns
  for the \<open>n\<close>-th chunk is the argument \<open>base\<close>.  Operations of one thread at a time: a
  compare-exchange succeeds at the first attempt.
\<close>

unbundle bit_operations_syntax

section \<open>Definitions\<close>

record arena_policy =
  block_size :: nat
  cap :: nat

datatype arena_error = AllocationError nat | Overflow | ChunkDoubleCheckFailed | ArenaFull

datatype allocator = System | NUMA | HugePage | MMap | TestAllocator

text \<open>A debug build fills a new block with ones.\<close>

definition allocator_allocate :: "allocator \<Rightarrow> nat \<Rightarrow> bytes option" where
  "allocator_allocate a n = (case a of System \<Rightarrow> Some (replicate n 1) | _ \<Rightarrow> None)"

record chunk =
  ch_base :: nat
  ch_mem :: bytes
  ch_bump :: nat

definition chunk_new :: "nat \<Rightarrow> bytes \<Rightarrow> chunk" where
  "chunk_new base mem = \<lparr>ch_base = base, ch_mem = mem, ch_bump = 0\<rparr>"

record layout =
  lay_size :: nat
  lay_align :: nat

record arena =
  ar_current :: nat
  ar_chunks :: "chunk list"
  ar_allocated_bytes :: nat
  ar_memory_used :: nat
  ar_allocator :: allocator
  ar_policy :: arena_policy

definition isize_MAX :: nat where
  "isize_MAX = 2 ^ 63 - 1"

definition arena_new :: "(nat \<Rightarrow> nat) \<Rightarrow> arena_policy \<Rightarrow> allocator \<Rightarrow> arena option" where
  "arena_new base policy allocator =
     do {
       assert_that (block_size policy \<le> cap policy);
       assert_that (block_size policy \<noteq> 0);
       assert_that (cap policy mod block_size policy = 0);
       assert_that (cap policy \<le> isize_MAX);
       heap \<leftarrow> allocator_allocate allocator (block_size policy);
       Some \<lparr>ar_current = 0, ar_chunks = [chunk_new (base 0) heap],
             ar_allocated_bytes = block_size policy, ar_memory_used = 0,
             ar_allocator = allocator, ar_policy = policy\<rparr>
     }"

definition get_chunk :: "arena \<Rightarrow> chunk option" where
  "get_chunk a = get_at (ar_current a) (ar_chunks a)"

text \<open>\<open>(bump + (align - 1)) & !(align - 1)\<close> on \<open>usize\<close>.\<close>

definition align_offset :: "nat \<Rightarrow> nat \<Rightarrow> nat" where
  "align_offset bump align = unat ((of_nat (bump + (align - 1)) :: u64) AND NOT (of_nat align - 1))"

definition alignment_check :: "nat \<Rightarrow> layout \<Rightarrow> arena \<Rightarrow> (arena_error + nat \<times> nat) option" where
  "alignment_check bump layout a =
     do {
       assert_that (\<exists>m \<in> {0..<64}. lay_align layout = 2 ^ m);
       assert_that (bump + (lay_align layout - 1) \<le> usize_MAX);
       let aligned = align_offset bump (lay_align layout);
       c \<leftarrow> get_chunk a;
       Some (case usize_checked_add aligned (lay_size layout) of
               None \<Rightarrow> Inl Overflow
             | Some next' \<Rightarrow> if length (ch_mem c) < next' then Inl Overflow else Inr (aligned, next'))
     }"

definition try_new_chunk :: "(nat \<Rightarrow> nat) \<Rightarrow> layout \<Rightarrow> arena \<Rightarrow> ((arena_error + unit) \<times> arena) option" where
  "try_new_chunk base layout a =
     do {
       c \<leftarrow> get_chunk a;
       r \<leftarrow> alignment_check (ch_bump c) layout a;
       case r of
         Inr _ \<Rightarrow> Some (Inr (), a)
       | Inl _ \<Rightarrow>
           if cap (ar_policy a) < ar_allocated_bytes a + block_size (ar_policy a)
           then Some (Inl ArenaFull, a)
           else do {
             heap \<leftarrow> allocator_allocate (ar_allocator a) (block_size (ar_policy a));
             let new_chunk = chunk_new (base (length (ar_chunks a))) heap;
             Some (Inr (), a\<lparr>ar_allocated_bytes := ar_allocated_bytes a + block_size (ar_policy a),
               ar_chunks := ar_chunks a @ [new_chunk], ar_current := length (ar_chunks a)\<rparr>)
           }
     }"

definition bump_chunk :: "nat \<Rightarrow> nat \<Rightarrow> arena \<Rightarrow> arena" where
  "bump_chunk next' n a =
     a\<lparr>ar_chunks := (ar_chunks a)[ar_current a := (ar_chunks a ! ar_current a)\<lparr>ch_bump := next'\<rparr>],
       ar_memory_used := ar_memory_used a + n\<rparr>"

text \<open>The allocation loop; not returning is \<open>None\<close>.\<close>

partial_function (option) alloc_loop ::
  "(nat \<Rightarrow> nat) \<Rightarrow> layout \<Rightarrow> arena \<Rightarrow> ((arena_error + nat \<times> nat) \<times> arena) option" where
  "alloc_loop base layout a =
     Option.bind (get_chunk a) (\<lambda>c.
     Option.bind (alignment_check (ch_bump c) layout a) (\<lambda>r.
       case r of
         Inl _ \<Rightarrow>
           Option.bind (try_new_chunk base layout a) (\<lambda>(n, a').
             case n of
               Inl e \<Rightarrow> Some (Inl e, a')
             | Inr _ \<Rightarrow> alloc_loop base layout a')
       | Inr (aligned, next') \<Rightarrow>
           Some (Inr (ar_current a, aligned), bump_chunk next' (lay_size layout) a)))"

declare alloc_loop.simps [code]

definition alloc_raw_fallback ::
  "(nat \<Rightarrow> nat) \<Rightarrow> layout \<Rightarrow> arena \<Rightarrow> ((arena_error + nat \<times> nat) \<times> arena) option" where
  "alloc_raw_fallback base layout a =
     (if block_size (ar_policy a) < lay_size layout
      then Some (Inl (AllocationError (lay_size layout)), a)
      else alloc_loop base layout a)"

text \<open>\<open>alloc_raw\<close> is the same loop with a panic in place of each error.\<close>

definition alloc_raw :: "(nat \<Rightarrow> nat) \<Rightarrow> layout \<Rightarrow> arena \<Rightarrow> ((nat \<times> nat) \<times> arena) option" where
  "alloc_raw base layout a =
     do {
       assert_that (lay_size layout \<le> block_size (ar_policy a));
       (r, a) \<leftarrow> alloc_loop base layout a;
       case r of Inl e \<Rightarrow> None | Inr p \<Rightarrow> Some (p, a)
     }"

definition blocks_used :: "arena \<Rightarrow> nat" where
  "blocks_used a = ar_allocated_bytes a div block_size (ar_policy a)"

definition max_bytes :: "arena \<Rightarrow> nat" where
  "max_bytes a = cap (ar_policy a)"

definition number_of_blocks :: "arena \<Rightarrow> nat" where
  "number_of_blocks a = cap (ar_policy a) div block_size (ar_policy a)"

definition arena_memory_used :: "arena \<Rightarrow> nat" where
  "arena_memory_used a = ar_memory_used a"

definition arena_reset :: "arena \<Rightarrow> arena option" where
  "arena_reset a =
     do {
       assert_that (ar_chunks a \<noteq> []);
       Some (a\<lparr>ar_chunks := map (\<lambda>c. c\<lparr>ch_bump := 0\<rparr>) (ar_chunks a), ar_current := 0,
               ar_memory_used := 0\<rparr>)
     }"

definition get_current_init_slice :: "arena \<Rightarrow> bytes option" where
  "get_current_init_slice a = do { c \<leftarrow> get_chunk a; slice_at 0 (ch_bump c) (ch_mem c) }"

text \<open>The address of a pointer into the arena, and a write of bytes through it.\<close>

definition arena_address :: "arena \<Rightarrow> nat \<times> nat \<Rightarrow> nat" where
  "arena_address a p = ch_base (ar_chunks a ! fst p) + snd p"

definition arena_write :: "nat \<times> nat \<Rightarrow> bytes \<Rightarrow> arena \<Rightarrow> arena option" where
  "arena_write p src a =
     do {
       c \<leftarrow> get_at (fst p) (ar_chunks a);
       m \<leftarrow> copy_at (snd p) src (ch_mem c);
       Some (a\<lparr>ar_chunks := (ar_chunks a)[fst p := c\<lparr>ch_mem := m\<rparr>]\<rparr>)
     }"

definition arena_read :: "nat \<times> nat \<Rightarrow> nat \<Rightarrow> arena \<Rightarrow> bytes option" where
  "arena_read p n a = do { c \<leftarrow> get_at (fst p) (ar_chunks a); slice_at (snd p) n (ch_mem c) }"

section \<open>Alignment\<close>

definition layout_ok :: "layout \<Rightarrow> bool" where
  "layout_ok l \<longleftrightarrow> (\<exists>m < 63. lay_align l = 2 ^ m)"

lemma align_offset_eq:
  assumes "m < 64" and "bump + (2 ^ m - 1) \<le> usize_MAX"
  shows "align_offset bump (2 ^ m) = (bump + (2 ^ m - 1)) div 2 ^ m * 2 ^ m"
proof -
  let ?x = "bump + (2 ^ m - 1)"
  let ?w = "of_nat ?x :: u64"
  have small: "?x < 2 ^ 64" using assms(2) by (simp add: usize_MAX_def)
  then have x: "unat ?w = ?x" by (simp only: unat_of_nat) simp
  have "?w AND NOT (of_nat (2 ^ m) - 1) = push_bit m (drop_bit m ?w)"
  proof -
    have "(of_nat (2 ^ m) - 1 :: u64) = mask m" by (simp add: mask_eq_exp_minus_1)
    moreover have "?w AND NOT (mask m) = push_bit m (drop_bit m ?w)"
      by (rule bit_word_eqI) (auto simp: bit_simps)
    ultimately show ?thesis by simp
  qed
  moreover have "unat (push_bit m (drop_bit m ?w)) = ?x div 2 ^ m * 2 ^ m"
  proof -
    have "unat (push_bit m (drop_bit m ?w)) = take_bit 64 (push_bit m (drop_bit m (unat ?w)))"
      by (simp only: unsigned_push_bit_eq unat_drop_bit_eq) simp
    also have "\<dots> = (?x div 2 ^ m * 2 ^ m) mod 2 ^ 64"
      unfolding x by (simp add: take_bit_eq_mod push_bit_eq_mult drop_bit_eq_div)
    also have "\<dots> = ?x div 2 ^ m * 2 ^ m"
      using small div_times_less_eq_dividend [of ?x "2 ^ m"] by (intro mod_less) linarith
    finally show ?thesis .
  qed
  ultimately show ?thesis by (simp only: align_offset_def)
qed

lemma align_offset_props:
  assumes "m < 64" and "bump + (2 ^ m - 1) \<le> usize_MAX"
  shows "bump \<le> align_offset bump (2 ^ m)" and "align_offset bump (2 ^ m) < bump + 2 ^ m"
    and "align_offset bump (2 ^ m) mod 2 ^ m = 0"
proof -
  let ?M = "(2::nat) ^ m" and ?x = "bump + (2 ^ m - 1)"
  have M: "0 < ?M" by simp
  have split: "?x div ?M * ?M + ?x mod ?M = ?x" by (rule div_mult_mod_eq)
  have rem: "?x mod ?M < ?M" using M by (rule mod_less_divisor)
  show "bump \<le> align_offset bump ?M" and "align_offset bump ?M < bump + ?M"
    unfolding align_offset_eq [OF assms] using split rem by linarith+
  show "align_offset bump ?M mod ?M = 0"
    unfolding align_offset_eq [OF assms] by simp
qed

lemma align_offset_zero: "m < 64 \<Longrightarrow> align_offset 0 (2 ^ m) = 0"
proof -
  assume m: "m < 64"
  have "(2::nat) ^ m \<le> 2 ^ 63" using m by (intro power_increasing) simp_all
  then have "0 + (2 ^ m - 1) \<le> usize_MAX" by (simp add: usize_MAX_def)
  then show ?thesis using align_offset_eq [OF m] by simp
qed

section \<open>Invariant\<close>

text \<open>
  A well-formed arena, and the regions it has handed out: each lies below the bump offset of its
  chunk and no two of them overlap.
\<close>

definition arena_ok :: "arena \<Rightarrow> bool" where
  "arena_ok a \<longleftrightarrow> 0 < block_size (ar_policy a) \<and> cap (ar_policy a) \<le> isize_MAX
     \<and> ar_current a < length (ar_chunks a) \<and> ar_allocator a = System
     \<and> ar_allocated_bytes a = length (ar_chunks a) * block_size (ar_policy a)
     \<and> ar_allocated_bytes a \<le> cap (ar_policy a)
     \<and> (\<forall>c \<in> set (ar_chunks a). length (ch_mem c) = block_size (ar_policy a)
          \<and> ch_bump c \<le> block_size (ar_policy a))"

type_synonym region = "nat \<times> nat \<times> nat"

definition region_within :: "arena \<Rightarrow> region \<Rightarrow> bool" where
  "region_within a = (\<lambda>(k, off, n). k < length (ar_chunks a) \<and> off + n \<le> ch_bump (ar_chunks a ! k))"

definition regions_disjoint :: "region \<Rightarrow> region \<Rightarrow> bool" where
  "regions_disjoint = (\<lambda>(k, off, n) (k', off', n'). k \<noteq> k' \<or> off + n \<le> off' \<or> off' + n' \<le> off)"

definition arena_holds :: "arena \<Rightarrow> region list \<Rightarrow> bool" where
  "arena_holds a rs \<longleftrightarrow> arena_ok a \<and> list_all (region_within a) rs
     \<and> sorted_wrt (\<lambda>r s. regions_disjoint r s) rs"

lemma get_chunk_ok: "arena_ok a \<Longrightarrow> get_chunk a = Some (ar_chunks a ! ar_current a)"
  by (simp add: arena_ok_def get_chunk_def get_at_def)

lemma arena_chunk:
  assumes "arena_ok a" and "k < length (ar_chunks a)"
  shows "length (ch_mem (ar_chunks a ! k)) = block_size (ar_policy a)"
    and "ch_bump (ar_chunks a ! k) \<le> block_size (ar_policy a)"
  using assms unfolding arena_ok_def by (metis nth_mem)+

definition fits :: "layout \<Rightarrow> nat \<Rightarrow> arena \<Rightarrow> bool" where
  "fits l bump a \<longleftrightarrow> align_offset bump (lay_align l) + lay_size l \<le> block_size (ar_policy a)"

lemma block_size_isize: "arena_ok a \<Longrightarrow> block_size (ar_policy a) \<le> isize_MAX"
proof -
  assume a: "arena_ok a"
  then have "ar_chunks a \<noteq> []" by (auto simp: arena_ok_def)
  then have "1 \<le> length (ar_chunks a)" by (cases "ar_chunks a") simp_all
  then have "1 * block_size (ar_policy a) \<le> length (ar_chunks a) * block_size (ar_policy a)"
    by (rule mult_le_mono1)
  then show ?thesis using a unfolding arena_ok_def by linarith
qed

lemma layout_align_bound:
  assumes "layout_ok l" and "bump \<le> isize_MAX"
  obtains m where "m < 64" and "lay_align l = 2 ^ m" and "bump + (2 ^ m - 1) \<le> usize_MAX"
proof -
  obtain m where m: "m < 63" "lay_align l = 2 ^ m" using assms(1) by (auto simp: layout_ok_def)
  have "(2::nat) ^ m \<le> 2 ^ 62" using m(1) by (intro power_increasing) simp_all
  then have "bump + (2 ^ m - 1) \<le> usize_MAX" using assms(2) by (simp add: isize_MAX_def usize_MAX_def)
  then show thesis using that m by simp
qed

lemma alignment_check_eq:
  assumes "arena_ok a" and "layout_ok l" and "bump \<le> block_size (ar_policy a)"
    and "lay_size l \<le> block_size (ar_policy a)"
  shows "alignment_check bump l a = Some (if fits l bump a
    then Inr (align_offset bump (lay_align l), align_offset bump (lay_align l) + lay_size l) else Inl Overflow)"
proof -
  have bound: "bump \<le> isize_MAX" using assms(3) block_size_isize [OF assms(1)] by linarith
  obtain m where m: "m < 64" "lay_align l = 2 ^ m" "bump + (2 ^ m - 1) \<le> usize_MAX"
    by (rule layout_align_bound [OF assms(2) bound])
  have len: "length (ch_mem (ar_chunks a ! ar_current a)) = block_size (ar_policy a)"
    using arena_chunk(1) [OF assms(1)] assms(1) by (simp add: arena_ok_def)
  have pow: "\<exists>j \<in> {0..<64}. lay_align l = 2 ^ j" using m(1,2) by auto
  have blk: "block_size (ar_policy a) \<le> usize_MAX"
    using block_size_isize [OF assms(1)] by (simp add: isize_MAX_def usize_MAX_def)
  show ?thesis
    using m(2,3) blk pow unfolding alignment_check_def get_chunk_ok [OF assms(1)] fits_def Let_def
    by (auto simp: len usize_checked_add_def)
qed

lemma fits_fresh: "layout_ok l \<Longrightarrow> lay_size l \<le> block_size (ar_policy a) \<Longrightarrow> fits l 0 a"
  using align_offset_zero by (auto simp: fits_def layout_ok_def)

text \<open>The arena with one more chunk.\<close>

definition grow :: "(nat \<Rightarrow> nat) \<Rightarrow> arena \<Rightarrow> arena" where
  "grow base a = a\<lparr>ar_allocated_bytes := ar_allocated_bytes a + block_size (ar_policy a),
     ar_chunks := ar_chunks a @ [chunk_new (base (length (ar_chunks a))) (replicate (block_size (ar_policy a)) 1)],
     ar_current := length (ar_chunks a)\<rparr>"

abbreviation can_grow :: "arena \<Rightarrow> bool" where
  "can_grow a \<equiv> ar_allocated_bytes a + block_size (ar_policy a) \<le> cap (ar_policy a)"

lemma arena_ok_grow: "arena_ok a \<Longrightarrow> can_grow a \<Longrightarrow> arena_ok (grow base a)"
  by (auto simp: arena_ok_def grow_def chunk_new_def)

abbreviation cur_bump :: "arena \<Rightarrow> nat" where
  "cur_bump a \<equiv> ch_bump (ar_chunks a ! ar_current a)"

lemma cur_bump_grow [simp]: "cur_bump (grow base a) = 0"
  by (simp add: grow_def chunk_new_def nth_append)

lemma try_new_chunk_eq:
  assumes "arena_ok a" and "layout_ok l" and "lay_size l \<le> block_size (ar_policy a)" and "\<not> fits l (cur_bump a) a"
  shows "try_new_chunk base l a = Some (if can_grow a then (Inr (), grow base a) else (Inl ArenaFull, a))"
proof -
  have "cur_bump a \<le> block_size (ar_policy a)"
    using arena_chunk(2) [OF assms(1)] assms(1) by (simp add: arena_ok_def)
  note c = alignment_check_eq [OF assms(1,2) this assms(3)]
  have "ar_allocator a = System" using assms(1) by (simp add: arena_ok_def)
  then show ?thesis
    using assms(4) by (simp add: try_new_chunk_def get_chunk_ok [OF assms(1)] c allocator_allocate_def grow_def)
qed

text \<open>The loop returns: after at most one new chunk the layout fits.\<close>

lemma alloc_loop_fits:
  assumes "arena_ok a" and "layout_ok l" and "lay_size l \<le> block_size (ar_policy a)" and "fits l (cur_bump a) a"
  shows "alloc_loop base l a = Some (Inr (ar_current a, align_offset (cur_bump a) (lay_align l)),
    bump_chunk (align_offset (cur_bump a) (lay_align l) + lay_size l) (lay_size l) a)"
proof -
  have "cur_bump a \<le> block_size (ar_policy a)"
    using arena_chunk(2) [OF assms(1)] assms(1) by (simp add: arena_ok_def)
  note c = alignment_check_eq [OF assms(1,2) this assms(3)]
  show ?thesis
    using assms(4) by (subst alloc_loop.simps) (simp add: get_chunk_ok [OF assms(1)] c)
qed

lemma alloc_loop_eq:
  assumes "arena_ok a" and "layout_ok l" and "lay_size l \<le> block_size (ar_policy a)"
  shows "alloc_loop base l a =
    (if fits l (cur_bump a) a
     then Some (Inr (ar_current a, align_offset (cur_bump a) (lay_align l)),
       bump_chunk (align_offset (cur_bump a) (lay_align l) + lay_size l) (lay_size l) a)
     else if can_grow a
     then Some (Inr (length (ar_chunks a), 0), bump_chunk (lay_size l) (lay_size l) (grow base a))
     else Some (Inl ArenaFull, a))"
proof (cases "fits l (cur_bump a) a")
  case True
  then show ?thesis using alloc_loop_fits [OF assms] by simp
next
  case False
  have "cur_bump a \<le> block_size (ar_policy a)"
    using arena_chunk(2) [OF assms(1)] assms(1) by (simp add: arena_ok_def)
  note c = alignment_check_eq [OF assms(1,2) this assms(3)]
  have step: "alloc_loop base l a = (if can_grow a then alloc_loop base l (grow base a) else Some (Inl ArenaFull, a))"
    using False by (subst alloc_loop.simps) (simp add: get_chunk_ok [OF assms(1)] c try_new_chunk_eq [OF assms False])
  show ?thesis
  proof (cases "can_grow a")
    case True
    have pol: "ar_policy (grow base a) = ar_policy a" "ar_current (grow base a) = length (ar_chunks a)"
      by (simp_all add: grow_def)
    have "fits l (cur_bump (grow base a)) (grow base a)"
      unfolding cur_bump_grow using fits_fresh [OF assms(2), of "grow base a"] assms(3) pol(1) by simp
    note fin = alloc_loop_fits [OF arena_ok_grow [OF assms(1) True] assms(2) _ this, unfolded cur_bump_grow]
    have "align_offset 0 (lay_align l) = 0" using assms(2) align_offset_zero by (auto simp: layout_ok_def)
    then show ?thesis using False True step fin assms(3) pol by simp
  next
    case False': False
    then show ?thesis using False step by simp
  qed
qed

section \<open>Allocation keeps the regions apart\<close>

lemma arena_ok_bump:
  assumes "arena_ok a" and "n \<le> block_size (ar_policy a)"
  shows "arena_ok (bump_chunk n k a)"
proof -
  let ?c = "(ar_chunks a ! ar_current a)\<lparr>ch_bump := n\<rparr>"
  have cur: "ar_current a < length (ar_chunks a)" using assms(1) by (simp add: arena_ok_def)
  have len: "length (ch_mem ?c) = block_size (ar_policy a)" using arena_chunk(1) [OF assms(1) cur] by simp
  have "\<forall>c \<in> set ((ar_chunks a)[ar_current a := ?c]). length (ch_mem c) = block_size (ar_policy a)
      \<and> ch_bump c \<le> block_size (ar_policy a)"
    using assms len set_update_subset_insert [of "ar_chunks a" "ar_current a" ?c]
    by (fastforce simp: arena_ok_def)
  then show ?thesis using assms(1) by (simp add: arena_ok_def bump_chunk_def)
qed

lemma region_within_bump:
  assumes "arena_ok a" and "cur_bump a \<le> n" and "region_within a r"
  shows "region_within (bump_chunk n k a) r"
  using assms by (cases r) (auto simp: region_within_def bump_chunk_def nth_list_update arena_ok_def)

lemma region_within_grow: "region_within a r \<Longrightarrow> region_within (grow base a) r"
  by (cases r) (auto simp: region_within_def grow_def nth_append)

lemma arena_holds_bump:
  assumes "arena_holds a rs" and "cur_bump a \<le> off" and "off + n \<le> block_size (ar_policy a)"
  shows "arena_holds (bump_chunk (off + n) n a) ((ar_current a, off, n) # rs)"
proof -
  have a: "arena_ok a" and cur: "ar_current a < length (ar_chunks a)"
    using assms(1) by (simp_all add: arena_holds_def arena_ok_def)
  have "regions_disjoint (ar_current a, off, n) r" if "region_within a r" for r
    using that assms(2) by (cases r) (auto simp: regions_disjoint_def region_within_def)
  moreover have "region_within (bump_chunk (off + n) n a) r" if "region_within a r" for r
    using region_within_bump [OF a _ that] assms(2) by simp
  moreover have "region_within (bump_chunk (off + n) n a) (ar_current a, off, n)"
    using cur by (simp add: region_within_def bump_chunk_def)
  ultimately show ?thesis
    using assms(1,3) arena_ok_bump [OF a assms(3)] by (simp add: arena_holds_def list_all_iff)
qed

lemma arena_holds_grow:
  "arena_holds a rs \<Longrightarrow> can_grow a \<Longrightarrow> arena_holds (grow base a) rs"
  by (auto simp: arena_holds_def arena_ok_grow list_all_iff region_within_grow)

lemma align_offset_ge: "arena_ok a \<Longrightarrow> layout_ok l \<Longrightarrow> cur_bump a \<le> align_offset (cur_bump a) (lay_align l)"
  and align_offset_mod: "arena_ok a \<Longrightarrow> layout_ok l \<Longrightarrow> align_offset (cur_bump a) (lay_align l) mod lay_align l = 0"
proof -
  assume a: "arena_ok a" and l: "layout_ok l"
  have "ar_current a < length (ar_chunks a)" using a by (simp add: arena_ok_def)
  from arena_chunk(2) [OF a this] have "cur_bump a \<le> isize_MAX"
    using block_size_isize [OF a] by linarith
  then obtain m where m: "m < 64" "lay_align l = 2 ^ m" "cur_bump a + (2 ^ m - 1) \<le> usize_MAX"
    by (rule layout_align_bound [OF l])
  show "cur_bump a \<le> align_offset (cur_bump a) (lay_align l)"
    and "align_offset (cur_bump a) (lay_align l) mod lay_align l = 0"
    using align_offset_props [OF m(1,3)] unfolding m(2) by blast+
qed

lemma alloc_loop_correct:
  assumes "arena_holds a rs" and "layout_ok l" and "lay_size l \<le> block_size (ar_policy a)"
  shows "(alloc_loop base l a = Some (Inl ArenaFull, a) \<and> \<not> fits l (cur_bump a) a \<and> \<not> can_grow a)
    \<or> (\<exists>k off a'. alloc_loop base l a = Some (Inr (k, off), a')
        \<and> (fits l (cur_bump a) a \<or> can_grow a)
        \<and> arena_holds a' ((k, off, lay_size l) # rs) \<and> off mod lay_align l = 0
        \<and> ar_memory_used a' = ar_memory_used a + lay_size l \<and> ar_policy a' = ar_policy a)"
proof -
  have a: "arena_ok a" using assms(1) by (simp add: arena_holds_def)
  note loop = alloc_loop_eq [OF a assms(2,3), of base]
  let ?off = "align_offset (cur_bump a) (lay_align l)"
  consider (here) "fits l (cur_bump a) a" | (new) "\<not> fits l (cur_bump a) a" "can_grow a"
    | (full) "\<not> fits l (cur_bump a) a" "\<not> can_grow a" by blast
  then show ?thesis
  proof cases
    case here
    then have "arena_holds (bump_chunk (?off + lay_size l) (lay_size l) a) ((ar_current a, ?off, lay_size l) # rs)"
      using align_offset_ge [OF a assms(2)] by (intro arena_holds_bump [OF assms(1)]) (simp_all add: fits_def)
    then show ?thesis
      using here loop align_offset_mod [OF a assms(2)] by (auto simp: bump_chunk_def)
  next
    case new
    have h: "arena_holds (bump_chunk (0 + lay_size l) (lay_size l) (grow base a))
        ((ar_current (grow base a), 0, lay_size l) # rs)"
      using assms(3) by (intro arena_holds_bump [OF arena_holds_grow [OF assms(1) new(2)]])
        (simp_all only: cur_bump_grow order_refl, simp add: grow_def)
    have "ar_current (grow base a) = length (ar_chunks a)" by (simp add: grow_def)
    then show ?thesis
      using h new loop by (auto simp: bump_chunk_def grow_def)
  next
    case full
    then show ?thesis using loop by simp
  qed
qed

section \<open>Properties\<close>

lemma arena_new_holds:
  assumes "0 < block_size pol" and "block_size pol \<le> cap pol" and "cap pol mod block_size pol = 0"
    and "cap pol \<le> isize_MAX"
  obtains a where "arena_new base pol System = Some a" and "arena_holds a []" and "ar_policy a = pol"
  using that assms
  by (simp add: arena_new_def allocator_allocate_def arena_holds_def arena_ok_def chunk_new_def)

definition demo_arena :: arena where
  "demo_arena = \<lparr>ar_current = 0, ar_chunks = [chunk_new 0 (replicate 64 1)], ar_allocated_bytes = 64,
     ar_memory_used = 0, ar_allocator = System, ar_policy = \<lparr>block_size = 64, cap = 128\<rparr>\<rparr>"

lemma demo_arena_holds: "arena_holds demo_arena []"
  by (simp add: demo_arena_def arena_holds_def arena_ok_def chunk_new_def isize_MAX_def)

text \<open>
  Also:  Allocation from the arena always returns: a layout no larger than a block gets a region
  whose offset is aligned, that lies inside its chunk and overlaps no region handed out before;
  the error \<open>ArenaFull\<close> comes exactly when the layout fits neither the current chunk nor a new
  chunk under the capacity, and a larger layout is rejected; on errors the arena is
  unchanged.  The memory taken from the allocator is the number of chunks times the block
  size and never exceeds the capacity.
\<close>

theorem alloc_raw_fallback_correct:
  assumes "arena_holds a rs" and "layout_ok l"
  shows "(block_size (ar_policy a) < lay_size l \<longrightarrow>
       alloc_raw_fallback base l a = Some (Inl (AllocationError (lay_size l)), a))
    \<and> (lay_size l \<le> block_size (ar_policy a) \<and> \<not> fits l (cur_bump a) a \<and> \<not> can_grow a \<longrightarrow>
       alloc_raw_fallback base l a = Some (Inl ArenaFull, a))
    \<and> (lay_size l \<le> block_size (ar_policy a) \<and> (fits l (cur_bump a) a \<or> can_grow a) \<longrightarrow>
       (\<exists>k off a'. alloc_raw_fallback base l a = Some (Inr (k, off), a')
         \<and> off mod lay_align l = 0 \<and> arena_holds a' ((k, off, lay_size l) # rs)
         \<and> off + lay_size l \<le> length (ch_mem (ar_chunks a' ! k))
         \<and> ar_allocated_bytes a' = length (ar_chunks a') * block_size (ar_policy a')
         \<and> ar_allocated_bytes a' \<le> cap (ar_policy a')
         \<and> ar_memory_used a' = ar_memory_used a + lay_size l))"
proof -
  have inside: "off + n \<le> length (ch_mem (ar_chunks a' ! k)) \<and> ar_allocated_bytes a' = length (ar_chunks a') * block_size (ar_policy a')
      \<and> ar_allocated_bytes a' \<le> cap (ar_policy a')"
    if "arena_holds a' ((k, off, n) # rs)" for a' k off n
  proof -
    have ok: "arena_ok a'" and k: "k < length (ar_chunks a')" "off + n \<le> ch_bump (ar_chunks a' ! k)"
      using that by (simp_all add: arena_holds_def region_within_def)
    have "off + n \<le> length (ch_mem (ar_chunks a' ! k))"
      using arena_chunk [OF ok k(1)] k(2) by linarith
    then show ?thesis using ok by (simp add: arena_ok_def)
  qed
  show ?thesis
    using alloc_loop_correct [OF assms, of base] inside by (fastforce simp: alloc_raw_fallback_def)
qed

theorem alloc_raw_fallback_correct_witness:
  "\<exists>k off a'. alloc_raw_fallback (\<lambda>n. 100 * n) \<lparr>lay_size = 40, lay_align = 8\<rparr> demo_arena = Some (Inr (k, off), a')
    \<and> off mod 8 = 0 \<and> arena_holds a' [(k, off, 40)]"
proof -
  let ?l = "\<lparr>lay_size = 40, lay_align = 8\<rparr>"
  have l: "layout_ok ?l" unfolding layout_ok_def by (rule exI [of _ 3]) simp
  have "fits ?l (cur_bump demo_arena) demo_arena"
    using align_offset_zero [of 3] by (simp add: fits_def demo_arena_def chunk_new_def)
  then show ?thesis
    using alloc_raw_fallback_correct [OF demo_arena_holds l, of "\<lambda>n. 100 * n"]
    by (auto simp: demo_arena_def)
qed

text \<open>
  Also:  The pointer is only as aligned as the block: its address is congruent, modulo the requested
  alignment, to the address at which the allocator placed the block.  Blocks are byte slices, for
  which the allocator promises alignment one, so an allocation is aligned exactly when the block
  happens to be.
\<close>

theorem alloc_alignment_relative:
  assumes "arena_holds a rs" and "layout_ok l" and "lay_size l \<le> block_size (ar_policy a)"
    and "alloc_raw base l a = Some (p, a')"
  shows "arena_address a' p mod lay_align l = ch_base (ar_chunks a' ! fst p) mod lay_align l
    \<and> (arena_address a' p mod lay_align l = 0 \<longleftrightarrow> ch_base (ar_chunks a' ! fst p) mod lay_align l = 0)"
proof -
  have "alloc_loop base l a = Some (Inr p, a')"
    using assms(3,4) by (auto simp: alloc_raw_def split: bind_splits sum.splits)
  then have "snd p mod lay_align l = 0"
    using alloc_loop_correct [OF assms(1-3), of base] by auto
  then have "arena_address a' p mod lay_align l = ch_base (ar_chunks a' ! fst p) mod lay_align l"
    unfolding arena_address_def by (metis add.right_neutral mod_add_right_eq)
  then show ?thesis by simp
qed

theorem alloc_alignment_relative_witness:
  "\<exists>p a'. alloc_raw (\<lambda>_. 0) \<lparr>lay_size = 8, lay_align = 8\<rparr> demo_arena = Some (p, a')
    \<and> arena_address a' p mod 8 = ch_base (ar_chunks a' ! fst p) mod 8"
proof -
  let ?l = "\<lparr>lay_size = 8, lay_align = 8\<rparr>"
  have l: "layout_ok ?l" unfolding layout_ok_def by (rule exI [of _ 3]) simp
  have fit: "lay_size ?l \<le> block_size (ar_policy demo_arena)" by (simp add: demo_arena_def)
  have "fits ?l (cur_bump demo_arena) demo_arena"
    using align_offset_zero [of 3] by (simp add: fits_def demo_arena_def chunk_new_def)
  then obtain p a' where run: "alloc_raw (\<lambda>_. 0) ?l demo_arena = Some (p, a')"
    using alloc_loop_eq [of demo_arena ?l "\<lambda>_. 0"] demo_arena_holds l fit
    by (auto simp: alloc_raw_def arena_holds_def)
  then show ?thesis
    using alloc_alignment_relative [OF demo_arena_holds l fit run] by auto
qed

text \<open>
  Also:  Reset forgets every region and starts again in the first chunk, but it keeps the byte
  count of all chunks and allocation never moves to a retained later chunk: once the arena has
  grown to its capacity, a reset arena holds a single usable block, and the next layout that does
  not fit the first chunk fails with \<open>ArenaFull\<close> although every other chunk is empty.
\<close>

theorem arena_reset_contract:
  assumes "arena_holds a rs"
  shows "\<exists>a'. arena_reset a = Some a' \<and> arena_holds a' [] \<and> ar_memory_used a' = 0
    \<and> length (ar_chunks a') = length (ar_chunks a) \<and> ar_allocated_bytes a' = ar_allocated_bytes a
    \<and> (\<not> can_grow a \<longrightarrow> (\<forall>b qs l. arena_holds b qs \<and> ar_policy b = ar_policy a'
          \<and> ar_allocated_bytes b = ar_allocated_bytes a' \<and> ar_current b = 0 \<and> layout_ok l
          \<and> lay_size l \<le> block_size (ar_policy b) \<and> \<not> fits l (cur_bump b) b \<longrightarrow>
          alloc_raw_fallback base l b = Some (Inl ArenaFull, b)))"
proof -
  let ?a' = "a\<lparr>ar_chunks := map (\<lambda>c. c\<lparr>ch_bump := 0\<rparr>) (ar_chunks a), ar_current := 0, ar_memory_used := 0\<rparr>"
  have a: "arena_ok a" and ne: "ar_chunks a \<noteq> []" using assms by (auto simp: arena_holds_def arena_ok_def)
  have "arena_reset a = Some ?a'" using ne by (simp add: arena_reset_def)
  moreover have "arena_holds ?a' []" using a ne by (auto simp: arena_holds_def arena_ok_def)
  moreover have "alloc_raw_fallback base l b = Some (Inl ArenaFull, b)"
    if "arena_holds b qs" "layout_ok l" "lay_size l \<le> block_size (ar_policy b)" "\<not> fits l (cur_bump b) b"
      "\<not> can_grow b" for b qs l
    using alloc_loop_correct [OF that(1-3), of base] that(3-5) by (auto simp: alloc_raw_fallback_def)
  ultimately show ?thesis by auto
qed

theorem arena_reset_contract_witness:
  "\<exists>a'. arena_reset demo_arena = Some a' \<and> arena_holds a' []"
  using arena_reset_contract [OF demo_arena_holds] by blast

end
