(* ===== verification/Skip_List.thy ===== *)
theory Skip_List
  imports Internal_Key Arena
begin

text \<open>
  The memtable's skip list of \<open>crates/engine/src/utils/skiplists/mem_skip_list.rs\<close>, one
  thread at a time.  A node pointer is the arena pointer \<open>Node::alloc\<close> got, a null pointer is
  \<open>None\<close>, and the memory behind node pointers is a map \<open>hp_nodes\<close> from pointers to nodes:
  header fields, tower and the key and value bytes that follow the tower.  Dereferencing a pointer
  that is no node, a tower access past the height and a copy past the end of a node are
  \<open>None\<close>, as panics are.  The comparator trait object is the argument \<open>cmp\<close>.  The
  compare-exchange loops are kept as loops; not returning is \<open>None\<close>.
\<close>

unbundle bit_operations_syntax

section \<open>Definitions\<close>

subsection \<open>Nodes\<close>

datatype skip_list_error = LayoutError | ArenaErr arena_error

definition MAX_HEAD_HEIGHT :: nat where
  "MAX_HEAD_HEIGHT = 8"

type_synonym node_ptr = "nat \<times> nat"
type_synonym comparator_fn = "bytes \<Rightarrow> bytes \<Rightarrow> ordering option"

record node =
  nd_height :: u16
  nd_key_len :: u16
  nd_value_len :: u32
  nd_tower :: "node_ptr option list"
  nd_bytes :: bytes

type_synonym nodes = "node_ptr \<Rightarrow> node option"

record node_heap =
  hp_arena :: arena
  hp_nodes :: nodes

text \<open>\<open>Layout::from_size_align\<close>, \<open>Layout::array\<close> and \<open>Layout::extend\<close>.\<close>

definition layout_from :: "nat \<Rightarrow> nat \<Rightarrow> skip_list_error + layout" where
  "layout_from n align =
     (if n \<le> isize_MAX - (align - 1) then Inr \<lparr>lay_size = n, lay_align = align\<rparr> else Inl LayoutError)"

definition layout_extend :: "skip_list_error + layout \<Rightarrow> skip_list_error + layout \<Rightarrow> skip_list_error + layout" where
  "layout_extend r s =
     (case r of Inl e \<Rightarrow> Inl e
      | Inr l \<Rightarrow> (case s of Inl e \<Rightarrow> Inl e
        | Inr m \<Rightarrow>
            let offset = (lay_size l + (lay_align m - 1)) div lay_align m * lay_align m
            in layout_from (offset + lay_size m) (max (lay_align l) (lay_align m))))"

text \<open>\<open>Node\<close> is \<open>repr(C)\<close> with two \<open>u16\<close>, one \<open>u32\<close> and an empty
  array of pointers: eight bytes, aligned to eight.\<close>

definition build_layout :: "nat \<Rightarrow> nat \<Rightarrow> nat \<Rightarrow> skip_list_error + layout" where
  "build_layout height key_len value_len =
     layout_extend
       (layout_extend
         (layout_extend (layout_from 8 8) (layout_from (8 * height) 8))
         (layout_from key_len 1))
       (layout_from value_len 1)"

definition key_ptr :: "node_ptr \<Rightarrow> u16 \<Rightarrow> node_ptr" where
  "key_ptr p height = (fst p, snd p + 8 + unat height * 8)"

definition tower_height :: "node_ptr \<Rightarrow> u16 \<Rightarrow> nat" where
  "tower_height p height = (snd (key_ptr p height) - (snd p + 8)) div 8"

text \<open>The bytes after the tower are what the arena's memory holds there.\<close>

definition init_node :: "arena \<Rightarrow> node_ptr \<Rightarrow> u16 \<Rightarrow> u16 \<Rightarrow> u32 \<Rightarrow> node option" where
  "init_node a p height key_len value_len =
     do {
       mem \<leftarrow> arena_read (key_ptr p height) (unat key_len + unat value_len) a;
       Some \<lparr>nd_height = height, nd_key_len = key_len, nd_value_len = value_len,
             nd_tower = replicate (unat height) None, nd_bytes = mem\<rparr>
     }"

definition node_alloc ::
  "(nat \<Rightarrow> nat) \<Rightarrow> u16 \<Rightarrow> u16 \<Rightarrow> u32 \<Rightarrow> node_heap \<Rightarrow> (node_ptr \<times> node_heap) option" where
  "node_alloc base height key_len value_len hp =
     do {
       assert_that (unat height \<le> MAX_HEAD_HEIGHT);
       case build_layout (unat height) (unat key_len) (unat value_len) of
         Inl e \<Rightarrow> None
       | Inr layout \<Rightarrow>
           do {
             (p, a) \<leftarrow> alloc_raw base layout (hp_arena hp);
             nd \<leftarrow> init_node a p height key_len value_len;
             Some (p, \<lparr>hp_arena = a, hp_nodes = (hp_nodes hp)(p \<mapsto> nd)\<rparr>)
           }
     }"

definition get_key_bytes :: "nodes \<Rightarrow> node_ptr \<Rightarrow> bytes option" where
  "get_key_bytes ns p = do { nd \<leftarrow> ns p; slice_at 0 (unat (nd_key_len nd)) (nd_bytes nd) }"

definition get_value_bytes :: "nodes \<Rightarrow> node_ptr \<Rightarrow> bytes option" where
  "get_value_bytes ns p =
     do { nd \<leftarrow> ns p; slice_at (unat (nd_key_len nd)) (unat (nd_value_len nd)) (nd_bytes nd) }"

text \<open>
  \<open>Node::next\<close> returns the address of a tower slot: a raw pointer that is null (\<open>None\<close>)
  or names a node and a level.
\<close>

type_synonym slot_ptr = "(node_ptr \<times> nat) option"

definition node_next :: "nodes \<Rightarrow> node_ptr \<Rightarrow> nat \<Rightarrow> slot_ptr option" where
  "node_next ns p level =
     do {
       assert_that (level < MAX_HEAD_HEIGHT);
       nd \<leftarrow> ns p;
       assert_that (level < unat (nd_height nd));
       Some (Some (p, level))
     }"

text \<open>Atomic load, store and compare-exchange through a slot pointer.\<close>

definition slot_load :: "nodes \<Rightarrow> slot_ptr \<Rightarrow> node_ptr option option" where
  "slot_load ns s = do { (p, level) \<leftarrow> s; nd \<leftarrow> ns p; get_at level (nd_tower nd) }"

definition slot_store :: "slot_ptr \<Rightarrow> node_ptr option \<Rightarrow> nodes \<Rightarrow> nodes option" where
  "slot_store s q ns =
     do {
       (p, level) \<leftarrow> s;
       nd \<leftarrow> ns p;
       tower \<leftarrow> set_at level q (nd_tower nd);
       Some (ns(p \<mapsto> nd\<lparr>nd_tower := tower\<rparr>))
     }"

definition slot_compare_exchange ::
  "slot_ptr \<Rightarrow> node_ptr option \<Rightarrow> node_ptr option \<Rightarrow> nodes \<Rightarrow> (bool \<times> nodes) option" where
  "slot_compare_exchange s current new ns =
     do {
       v \<leftarrow> slot_load ns s;
       if v = current then do { ns \<leftarrow> slot_store s new ns; Some (True, ns) } else Some (False, ns)
     }"

definition load_next :: "nodes \<Rightarrow> node_ptr \<Rightarrow> nat \<Rightarrow> node_ptr option option" where
  "load_next ns p level =
     do { assert_that (level < MAX_HEAD_HEIGHT); s \<leftarrow> node_next ns p level; slot_load ns s }"

subsection \<open>The list\<close>

record skip_list =
  sl_head :: node_ptr
  sl_seed :: u64
  sl_entries :: u64
  sl_max_level :: nat

record traversal_ctx =
  tc_searched_node :: "node_ptr option"
  tc_predecessors :: "node_ptr option list"
  tc_successors :: "node_ptr option list"

definition traversal_ctx_new :: traversal_ctx where
  "traversal_ctx_new = \<lparr>tc_searched_node = None, tc_predecessors = replicate MAX_HEAD_HEIGHT None,
     tc_successors = replicate MAX_HEAD_HEIGHT None\<rparr>"

definition seed_generator :: "u64 \<Rightarrow> u64" where
  "seed_generator seed =
     (let x = seed + 0x9E3779B97F4A7C15;
          x = (x XOR drop_bit 30 x) * 0xBF58476D1CE4E5B9;
          x = (x XOR drop_bit 27 x) * 0x94D049BB133111EB
      in x XOR drop_bit 31 x)"

definition skip_list_new :: "(nat \<Rightarrow> nat) \<Rightarrow> arena \<Rightarrow> (skip_list \<times> node_heap) option" where
  "skip_list_new base a =
     do {
       (head, hp) \<leftarrow> node_alloc base (of_nat MAX_HEAD_HEIGHT) 0 0 \<lparr>hp_arena = a, hp_nodes = (\<lambda>_. None)\<rparr>;
       Some (\<lparr>sl_head = head, sl_seed = seed_generator 1, sl_entries = 0, sl_max_level = 1\<rparr>, hp)
     }"

definition trailing_zeros :: "u64 \<Rightarrow> nat" where
  "trailing_zeros x = length (takeWhile (\<lambda>i. \<not> bit x i) [0..<64])"

definition xorshift :: "u64 \<Rightarrow> u64" where
  "xorshift x =
     (let x = x XOR push_bit 12 x;
          x = x XOR drop_bit 25 x
      in x XOR push_bit 27 x)"

text \<open>The loop that lowers a height: it tests the address of a slot of the sentinel.\<close>

fun lower_height :: "nodes \<Rightarrow> node_ptr \<Rightarrow> nat \<Rightarrow> nat option" where
  "lower_height ns head height =
     (if 4 \<le> height
      then do {
        slot \<leftarrow> node_next ns head (height - 2);
        if slot = None then Some height else lower_height ns head (height - 1)
      }
      else Some height)"

declare lower_height.simps [simp del]

definition generate_random_level :: "nodes \<Rightarrow> skip_list \<Rightarrow> (nat \<times> skip_list) option" where
  "generate_random_level ns sl =
     do {
       let starting_num = xorshift (sl_seed sl);
       let sl = sl\<lparr>sl_seed := starting_num\<rparr>;
       height \<leftarrow> lower_height ns (sl_head sl) (min MAX_HEAD_HEIGHT (trailing_zeros starting_num + 1));
       Some (height, if sl_max_level sl < height then sl\<lparr>sl_max_level := height\<rparr> else sl)
     }"

subsection \<open>Search\<close>

partial_function (option) search_right ::
  "comparator_fn \<Rightarrow> nodes \<Rightarrow> bytes \<Rightarrow> nat \<Rightarrow> node_ptr \<Rightarrow> node_ptr option \<Rightarrow> node_ptr option
    \<Rightarrow> (node_ptr \<times> node_ptr option \<times> node_ptr option) option" where
  "search_right cmp ns key level pred cur found =
     (case cur of
        None \<Rightarrow> Some (pred, None, found)
      | Some c \<Rightarrow>
          Option.bind (get_key_bytes ns c) (\<lambda>node_key.
          Option.bind (cmp node_key key) (\<lambda>r.
            case r of
              Less \<Rightarrow> Option.bind (load_next ns c level) (\<lambda>n. search_right cmp ns key level c n found)
            | Equal \<Rightarrow> Some (pred, Some c, Some c)
            | Greater \<Rightarrow> Some (pred, Some c, found))))"

declare search_right.simps [code]

fun skip_empty_levels :: "nodes \<Rightarrow> node_ptr \<Rightarrow> nat \<Rightarrow> nat option" where
  "skip_empty_levels ns head 0 = Some 0"
| "skip_empty_levels ns head (Suc level) =
     do {
       n \<leftarrow> load_next ns head level;
       if n = None then skip_empty_levels ns head level else Some (Suc level)
     }"

fun search_levels ::
  "comparator_fn \<Rightarrow> nodes \<Rightarrow> bytes \<Rightarrow> nat \<Rightarrow> node_ptr \<Rightarrow> traversal_ctx \<Rightarrow> traversal_ctx option" where
  "search_levels cmp ns key 0 pred t = Some t"
| "search_levels cmp ns key (Suc level) pred t =
     do {
       cur \<leftarrow> load_next ns pred level;
       (pred, cur, found) \<leftarrow> search_right cmp ns key level pred cur (tc_searched_node t);
       predecessors \<leftarrow> set_at level (Some pred) (tc_predecessors t);
       successors \<leftarrow> set_at level cur (tc_successors t);
       search_levels cmp ns key level pred
         \<lparr>tc_searched_node = found, tc_predecessors = predecessors, tc_successors = successors\<rparr>
     }"

definition search :: "comparator_fn \<Rightarrow> skip_list \<Rightarrow> nodes \<Rightarrow> bytes \<Rightarrow> traversal_ctx option" where
  "search cmp sl ns key =
     do {
       let t = traversal_ctx_new\<lparr>tc_predecessors := replicate MAX_HEAD_HEIGHT (Some (sl_head sl))\<rparr>;
       level \<leftarrow> skip_empty_levels ns (sl_head sl) (sl_max_level sl);
       search_levels cmp ns key level (sl_head sl) t
     }"

definition search_node :: "comparator_fn \<Rightarrow> skip_list \<Rightarrow> nodes \<Rightarrow> bytes \<Rightarrow> node_ptr option option" where
  "search_node cmp sl ns key = do { t \<leftarrow> search cmp sl ns key; get_at 0 (tc_successors t) }"

definition first_node :: "skip_list \<Rightarrow> nodes \<Rightarrow> node_ptr option option" where
  "first_node sl ns = load_next ns (sl_head sl) 0"

subsection \<open>Insertion\<close>

text \<open>\<open>ptr::copy_nonoverlapping\<close> to \<open>key_ptr\<close> plus an offset, and to \<open>value_ptr\<close>.\<close>

definition write_key :: "node_ptr \<Rightarrow> nat \<Rightarrow> bytes \<Rightarrow> nodes \<Rightarrow> nodes option" where
  "write_key p off src ns =
     do {
       nd \<leftarrow> ns p;
       mem \<leftarrow> copy_at off src (nd_bytes nd);
       Some (ns(p \<mapsto> nd\<lparr>nd_bytes := mem\<rparr>))
     }"

definition write_value :: "node_ptr \<Rightarrow> bytes \<Rightarrow> nodes \<Rightarrow> nodes option" where
  "write_value p src ns =
     do {
       nd \<leftarrow> ns p;
       mem \<leftarrow> copy_at (unat (nd_key_len nd)) src (nd_bytes nd);
       Some (ns(p \<mapsto> nd\<lparr>nd_bytes := mem\<rparr>))
     }"

text \<open>One attempt to link a node at a level: store the successor in the node, then exchange the
  predecessor's pointer.\<close>

definition link_attempt :: "node_ptr \<Rightarrow> nat \<Rightarrow> traversal_ctx \<Rightarrow> nodes \<Rightarrow> (bool \<times> nodes) option" where
  "link_attempt np level t ns =
     do {
       p \<leftarrow> get_at level (tc_predecessors t);
       p \<leftarrow> p;
       pred \<leftarrow> node_next ns p level;
       succ \<leftarrow> get_at level (tc_successors t);
       ns \<leftarrow> (case succ of
                None \<Rightarrow> Some ns
              | Some q \<Rightarrow> do { slot \<leftarrow> node_next ns np level; slot_store slot (Some q) ns });
       slot_compare_exchange pred succ (Some np) ns
     }"

text \<open>The loop at the base level ends with the node linked or with an equal node found.\<close>

partial_function (option) link_base ::
  "comparator_fn \<Rightarrow> skip_list \<Rightarrow> bytes \<Rightarrow> node_ptr \<Rightarrow> traversal_ctx \<Rightarrow> nodes
    \<Rightarrow> ((node_ptr + traversal_ctx) \<times> nodes) option" where
  "link_base cmp sl key np t ns =
     Option.bind (link_attempt np 0 t ns) (\<lambda>(linked, ns).
       if linked then Some (Inr t, ns)
       else Option.bind (search cmp sl ns key) (\<lambda>t.
         case tc_searched_node t of
           Some p \<Rightarrow> Some (Inl p, ns)
         | None \<Rightarrow> link_base cmp sl key np t ns))"

partial_function (option) link_level ::
  "comparator_fn \<Rightarrow> skip_list \<Rightarrow> bytes \<Rightarrow> node_ptr \<Rightarrow> nat \<Rightarrow> traversal_ctx \<Rightarrow> nodes
    \<Rightarrow> (traversal_ctx \<times> nodes) option" where
  "link_level cmp sl key np level t ns =
     Option.bind (link_attempt np level t ns) (\<lambda>(linked, ns).
       if linked then Some (t, ns)
       else Option.bind (search cmp sl ns key) (\<lambda>t. link_level cmp sl key np level t ns))"

declare link_base.simps [code] link_level.simps [code]

fun link_levels ::
  "comparator_fn \<Rightarrow> skip_list \<Rightarrow> bytes \<Rightarrow> node_ptr \<Rightarrow> nat list \<Rightarrow> traversal_ctx \<Rightarrow> nodes \<Rightarrow> nodes option" where
  "link_levels cmp sl key np [] t ns = Some ns"
| "link_levels cmp sl key np (level # levels) t ns =
     do {
       (t, ns) \<leftarrow> link_level cmp sl key np level t ns;
       link_levels cmp sl key np levels t ns
     }"

definition link_node ::
  "comparator_fn \<Rightarrow> skip_list \<Rightarrow> bytes \<Rightarrow> node_ptr \<Rightarrow> nat \<Rightarrow> traversal_ctx \<Rightarrow> node_heap
    \<Rightarrow> (node_ptr \<times> skip_list \<times> node_heap) option" where
  "link_node cmp sl key np height t hp =
     do {
       (r, ns) \<leftarrow> link_base cmp sl key np t (hp_nodes hp);
       case r of
         Inl p \<Rightarrow> Some (p, sl, hp\<lparr>hp_nodes := ns\<rparr>)
       | Inr t \<Rightarrow>
           do {
             ns \<leftarrow> link_levels cmp sl key np [1..<height] t ns;
             Some (np, sl, hp\<lparr>hp_nodes := ns\<rparr>)
           }
     }"

definition sl_insert ::
  "comparator_fn \<Rightarrow> (nat \<Rightarrow> nat) \<Rightarrow> bytes \<Rightarrow> bytes \<Rightarrow> skip_list \<Rightarrow> node_heap
    \<Rightarrow> (node_ptr \<times> skip_list \<times> node_heap) option" where
  "sl_insert cmp base key val sl hp =
     do {
       t \<leftarrow> search cmp sl (hp_nodes hp) key;
       case tc_searched_node t of
         Some p \<Rightarrow> Some (p, sl, hp)
       | None \<Rightarrow>
           do {
             let sl = sl\<lparr>sl_entries := sl_entries sl + 1\<rparr>;
             (height, sl) \<leftarrow> generate_random_level (hp_nodes hp) sl;
             assert_that (height \<le> MAX_HEAD_HEIGHT);
             (np, hp) \<leftarrow> node_alloc base (of_nat height) (of_nat (length key)) (of_nat (length val)) hp;
             ns \<leftarrow> write_key np 0 key (hp_nodes hp);
             ns \<leftarrow> write_value np val ns;
             link_node cmp sl key np height t (hp\<lparr>hp_nodes := ns\<rparr>)
           }
     }"

text \<open>The closure of \<open>insert_with\<close> writes the key through the node pointer it is given.\<close>

definition insert_with ::
  "comparator_fn \<Rightarrow> (nat \<Rightarrow> nat) \<Rightarrow> u16 \<Rightarrow> bytes \<Rightarrow> (node_ptr \<Rightarrow> nodes \<Rightarrow> nodes option)
    \<Rightarrow> skip_list \<Rightarrow> node_heap \<Rightarrow> (node_ptr \<times> skip_list \<times> node_heap) option" where
  "insert_with cmp base key_len val f sl hp =
     do {
       let sl = sl\<lparr>sl_entries := sl_entries sl + 1\<rparr>;
       (height, sl) \<leftarrow> generate_random_level (hp_nodes hp) sl;
       assert_that (height \<le> MAX_HEAD_HEIGHT);
       (np, hp) \<leftarrow> node_alloc base (of_nat height) key_len (of_nat (length val)) hp;
       ns \<leftarrow> f np (hp_nodes hp);
       ns \<leftarrow> write_value np val ns;
       let hp = hp\<lparr>hp_nodes := ns\<rparr>;
       key \<leftarrow> get_key_bytes ns np;
       t \<leftarrow> search cmp sl ns key;
       case tc_searched_node t of
         Some p \<Rightarrow> Some (p, sl, hp)
       | None \<Rightarrow> link_node cmp sl key np height t hp
     }"

subsection \<open>Iterators\<close>

definition sl_iter :: "skip_list \<Rightarrow> nodes \<Rightarrow> node_ptr option option" where
  "sl_iter sl ns = load_next ns (sl_head sl) 0"

definition sl_seek :: "comparator_fn \<Rightarrow> skip_list \<Rightarrow> nodes \<Rightarrow> bytes \<Rightarrow> node_ptr option option" where
  "sl_seek cmp sl ns key =
     do {
       t \<leftarrow> search cmp sl ns key;
       case tc_searched_node t of Some p \<Rightarrow> Some (Some p) | None \<Rightarrow> get_at 0 (tc_successors t)
     }"

text \<open>\<open>Iter::next\<close>: the item yielded and the iterator after it.\<close>

definition iter_next :: "nodes \<Rightarrow> node_ptr option \<Rightarrow> (node_ptr option \<times> node_ptr option) option" where
  "iter_next ns it =
     (case it of None \<Rightarrow> Some (None, None)
      | Some p \<Rightarrow> do { n \<leftarrow> load_next ns p 0; Some (Some p, n) })"

datatype bound = Included bytes | Excluded bytes | Unbounded

record range_iter =
  ri_start :: "node_ptr option"
  ri_end_bound :: bound

definition sl_range :: "comparator_fn \<Rightarrow> skip_list \<Rightarrow> nodes \<Rightarrow> bound \<Rightarrow> bound \<Rightarrow> range_iter option" where
  "sl_range cmp sl ns lo hi =
     do {
       start \<leftarrow> (case lo of
                   Excluded k \<Rightarrow> sl_seek cmp sl ns k
                 | Included k \<Rightarrow> sl_seek cmp sl ns k
                 | Unbounded \<Rightarrow> sl_iter sl ns);
       Some \<lparr>ri_start = start, ri_end_bound = hi\<rparr>
     }"

definition range_next :: "nodes \<Rightarrow> range_iter \<Rightarrow> (node_ptr option \<times> range_iter) option" where
  "range_next ns r =
     (case ri_start r of
        None \<Rightarrow> Some (None, r)
      | Some p \<Rightarrow>
          do {
            key \<leftarrow> get_key_bytes ns p;
            if (case ri_end_bound r of
                  Excluded b \<Rightarrow> b \<le> key
                | Included b \<Rightarrow> b < key
                | Unbounded \<Rightarrow> False)
            then Some (None, r)
            else do { n \<leftarrow> load_next ns p 0; Some (Some p, r\<lparr>ri_start := n\<rparr>) }
          })"

section \<open>Loads and stores\<close>

definition node_ok :: "node \<Rightarrow> bool" where
  "node_ok nd \<longleftrightarrow> length (nd_tower nd) = unat (nd_height nd) \<and> 0 < unat (nd_height nd)
     \<and> unat (nd_height nd) \<le> MAX_HEAD_HEIGHT
     \<and> length (nd_bytes nd) = unat (nd_key_len nd) + unat (nd_value_len nd)"

definition heap_ok :: "nodes \<Rightarrow> bool" where
  "heap_ok ns \<longleftrightarrow> (\<forall>p nd. ns p = Some nd \<longrightarrow> node_ok nd)"

definition node_height :: "nodes \<Rightarrow> node_ptr \<Rightarrow> nat" where
  "node_height ns p = (case ns p of None \<Rightarrow> 0 | Some nd \<Rightarrow> unat (nd_height nd))"

definition node_key :: "nodes \<Rightarrow> node_ptr \<Rightarrow> bytes" where
  "node_key ns p = the (get_key_bytes ns p)"

definition node_value :: "nodes \<Rightarrow> node_ptr \<Rightarrow> bytes" where
  "node_value ns p = the (get_value_bytes ns p)"

lemma heap_okD: "heap_ok ns \<Longrightarrow> ns p = Some nd \<Longrightarrow> node_ok nd"
  unfolding heap_ok_def by blast

lemma node_height_le: "heap_ok ns \<Longrightarrow> node_height ns p \<le> MAX_HEAD_HEIGHT"
  by (auto simp: node_height_def node_ok_def dest: heap_okD split: option.splits)

lemma node_height_pos: "heap_ok ns \<Longrightarrow> p \<in> dom ns \<Longrightarrow> 0 < node_height ns p"
  by (auto simp: node_height_def node_ok_def dest: heap_okD split: option.splits)

lemma height_dom: "l < node_height ns p \<Longrightarrow> p \<in> dom ns"
  by (auto simp: node_height_def split: option.splits)

lemma get_bytes_ok:
  assumes "heap_ok ns" and "p \<in> dom ns"
  shows "get_key_bytes ns p = Some (node_key ns p)" and "get_value_bytes ns p = Some (node_value ns p)"
proof -
  obtain nd where "ns p = Some nd" using assms(2) by blast
  moreover have "node_ok nd" using calculation assms(1) by (rule heap_okD [rotated])
  ultimately show "get_key_bytes ns p = Some (node_key ns p)" "get_value_bytes ns p = Some (node_value ns p)"
    by (simp_all add: node_key_def node_value_def get_key_bytes_def get_value_bytes_def slice_at_def node_ok_def)
qed

lemma node_next_ok:
  "heap_ok ns \<Longrightarrow> node_next ns p l = (if l < node_height ns p then Some (Some (p, l)) else None)"
  using node_height_le [of ns p] by (auto simp: node_next_def node_height_def split: option.splits)

lemma load_next_ok:
  assumes "heap_ok ns"
  shows "load_next ns p l = (if l < node_height ns p then Some (nd_tower (the (ns p)) ! l) else None)"
  using node_height_le [OF assms, of p] assms
  by (auto simp: load_next_def node_next_ok slot_load_def get_at_def node_height_def node_ok_def
      dest: heap_okD split: option.splits)

lemma slot_load_ok: "heap_ok ns \<Longrightarrow> l < node_height ns p \<Longrightarrow> slot_load ns (Some (p, l)) = load_next ns p l"
  using node_height_le [of ns p] by (simp add: load_next_def node_next_ok)

text \<open>Two node maps with the same nodes up to the tower pointers.\<close>

definition tower_frame :: "nodes \<Rightarrow> nodes \<Rightarrow> bool" where
  "tower_frame ns ns' \<longleftrightarrow> dom ns' = dom ns \<and> node_height ns' = node_height ns
     \<and> get_key_bytes ns' = get_key_bytes ns \<and> get_value_bytes ns' = get_value_bytes ns"

lemma tower_frame_refl: "tower_frame ns ns"
  by (simp add: tower_frame_def)

lemma tower_frame_trans: "tower_frame a b \<Longrightarrow> tower_frame b c \<Longrightarrow> tower_frame a c"
  by (simp add: tower_frame_def)

lemma tower_frameD:
  assumes "tower_frame ns ns'"
  shows "dom ns' = dom ns" and "node_height ns' = node_height ns" and "node_key ns' = node_key ns"
    and "node_value ns' = node_value ns"
  using assms by (auto simp: tower_frame_def node_key_def node_value_def)

lemma slot_store_ok:
  assumes "heap_ok ns" and "l < node_height ns p"
  obtains ns' where "slot_store (Some (p, l)) q ns = Some ns'" and "heap_ok ns'" and "tower_frame ns ns'"
    and "\<And>p' l'. load_next ns' p' l' = (if p' = p \<and> l' = l then Some q else load_next ns p' l')"
proof -
  obtain nd where nd: "ns p = Some nd" using height_dom [OF assms(2)] by blast
  have ok: "node_ok nd" using assms(1) nd by (rule heap_okD)
  have l: "l < length (nd_tower nd)" "l < unat (nd_height nd)"
    using assms(2) nd ok by (simp_all add: node_height_def node_ok_def)
  let ?nd = "nd\<lparr>nd_tower := (nd_tower nd)[l := q]\<rparr>"
  let ?ns = "ns(p \<mapsto> ?nd)"
  have run: "slot_store (Some (p, l)) q ns = Some ?ns"
    using nd l by (simp add: slot_store_def set_at_def)
  have heap: "heap_ok ?ns" using assms(1) ok by (auto simp: heap_ok_def node_ok_def)
  have frame: "tower_frame ns ?ns"
    using nd by (auto simp: tower_frame_def node_height_def get_key_bytes_def get_value_bytes_def fun_eq_iff)
  have "load_next ?ns p' l' = (if p' = p \<and> l' = l then Some q else load_next ns p' l')" for p' l'
    using nd l by (auto simp: load_next_ok [OF heap] load_next_ok [OF assms(1)] tower_frameD [OF frame]
        node_height_def nth_list_update)
  with that run heap frame show thesis by blast
qed

lemma slot_compare_exchange_ok:
  assumes "heap_ok ns" and "l < node_height ns p" and "load_next ns p l = Some old"
  obtains ns' where "slot_compare_exchange (Some (p, l)) old new ns = Some (True, ns')" and "heap_ok ns'"
    and "tower_frame ns ns'"
    and "\<And>p' l'. load_next ns' p' l' = (if p' = p \<and> l' = l then Some new else load_next ns p' l')"
proof -
  obtain ns' where ns': "slot_store (Some (p, l)) new ns = Some ns'" "heap_ok ns'" "tower_frame ns ns'"
    "\<And>p' l'. load_next ns' p' l' = (if p' = p \<and> l' = l then Some new else load_next ns p' l')"
    using slot_store_ok [OF assms(1,2), where q = new] by blast
  then show thesis
    using that assms(3) by (simp add: slot_compare_exchange_def slot_load_ok [OF assms(1,2)])
qed

section \<open>Chains\<close>

abbreviation hd_opt :: "'a list \<Rightarrow> 'a option" where
  "hd_opt xs \<equiv> (case xs of [] \<Rightarrow> None | x # _ \<Rightarrow> Some x)"

text \<open>The nodes reached from \<open>p\<close> at a level, up to the last one (\<open>path\<close>) and to the end of the
  level (\<open>linked\<close>).\<close>

fun path :: "nodes \<Rightarrow> nat \<Rightarrow> node_ptr \<Rightarrow> node_ptr list \<Rightarrow> bool" where
  "path ns l p [] \<longleftrightarrow> True"
| "path ns l p (q # qs) \<longleftrightarrow> load_next ns p l = Some (Some q) \<and> path ns l q qs"

fun linked :: "nodes \<Rightarrow> nat \<Rightarrow> node_ptr \<Rightarrow> node_ptr list \<Rightarrow> bool" where
  "linked ns l p [] \<longleftrightarrow> load_next ns p l = Some None"
| "linked ns l p (q # qs) \<longleftrightarrow> load_next ns p l = Some (Some q) \<and> linked ns l q qs"

lemma linked_append: "linked ns l p (xs @ ys) \<longleftrightarrow> path ns l p xs \<and> linked ns l (last (p # xs)) ys"
  by (induction xs arbitrary: p) auto

lemma linked_head: "linked ns l p qs \<Longrightarrow> load_next ns p l = Some (hd_opt qs)"
  by (cases qs) auto

lemma linked_cong:
  "(\<And>q. q \<in> set (p # qs) \<Longrightarrow> load_next ns' q l = load_next ns q l) \<Longrightarrow> linked ns' l p qs = linked ns l p qs"
  by (induction qs arbitrary: p) auto

lemma path_cong:
  "(\<And>q. q \<in> set (butlast (p # qs)) \<Longrightarrow> load_next ns' q l = load_next ns q l) \<Longrightarrow> path ns' l p qs = path ns l p qs"
  by (induction qs arbitrary: p) (auto split: if_splits)

lemma last_notin_butlast: "distinct (p # xs) \<Longrightarrow> last (p # xs) \<notin> set (butlast (p # xs))"
  using append_butlast_last_id [of "p # xs"] distinct_append [of "butlast (p # xs)" "[last (p # xs)]"]
  by fastforce

text \<open>Linking a node between two parts of a chain.\<close>

lemma linked_splice:
  assumes "linked ns l p (xs @ ys)" and "distinct (p # xs @ ys)" and "np \<notin> set (p # xs @ ys)"
    and upd: "\<And>q. load_next ns' q l = (if q = np then Some (hd_opt ys)
        else if q = last (p # xs) then Some (Some np) else load_next ns q l)"
  shows "linked ns' l p (xs @ np # ys)"
proof -
  have xs: "path ns l p xs" and ys: "linked ns l (last (p # xs)) ys"
    using assms(1) unfolding linked_append by blast+
  have "path ns' l p xs = path ns l p xs"
  proof (rule path_cong)
    fix q assume q: "q \<in> set (butlast (p # xs))"
    then have "q \<noteq> last (p # xs)" using last_notin_butlast assms(2) by fastforce
    moreover have "q \<in> set (p # xs)" using q by (rule in_set_butlastD)
    ultimately show "load_next ns' q l = load_next ns q l" using assms(3) unfolding upd by auto
  qed
  moreover have "last (p # xs) \<in> set (p # xs)" by (rule last_in_set) simp
  then have pred: "last (p # xs) \<noteq> np" "last (p # xs) \<notin> set ys" using assms(2,3) by auto
  then have "load_next ns' (last (p # xs)) l = Some (Some np)" unfolding upd by simp
  moreover have "linked ns' l np ys"
  proof (cases ys)
    case Nil
    then show ?thesis using upd [of np] by simp
  next
    case (Cons y zs)
    have "linked ns' l y zs = linked ns l y zs"
      using pred(2) assms(3) unfolding Cons by (intro linked_cong) (auto simp: upd)
    then show ?thesis using Cons ys upd [of np] by simp
  qed
  ultimately show ?thesis using xs by (simp add: linked_append)
qed

section \<open>Invariant\<close>

text \<open>
  A list with the nodes \<open>ps\<close> in order: the nodes are distinct, sorted by key, and every level
  links exactly the nodes that are tall enough, in the same order.
\<close>

abbreviation at_level :: "nodes \<Rightarrow> nat \<Rightarrow> node_ptr list \<Rightarrow> node_ptr list" where
  "at_level ns l ps \<equiv> filter (\<lambda>p. l < node_height ns p) ps"

definition sl_links :: "skip_list \<Rightarrow> nodes \<Rightarrow> node_ptr list \<Rightarrow> bool" where
  "sl_links sl ns ps \<longleftrightarrow> heap_ok ns \<and> distinct (sl_head sl # ps) \<and> set (sl_head sl # ps) \<subseteq> dom ns
     \<and> node_height ns (sl_head sl) = MAX_HEAD_HEIGHT \<and> sl_max_level sl \<le> MAX_HEAD_HEIGHT
     \<and> (\<forall>p \<in> set ps. node_height ns p \<le> sl_max_level sl)
     \<and> (\<forall>l < MAX_HEAD_HEIGHT. linked ns l (sl_head sl) (at_level ns l ps))"

definition sl_sorted :: "(bytes \<Rightarrow> bool) \<Rightarrow> (bytes \<Rightarrow> bytes \<Rightarrow> bool) \<Rightarrow> nodes \<Rightarrow> node_ptr list \<Rightarrow> bool" where
  "sl_sorted valid lt ns ps \<longleftrightarrow> sorted_wrt lt (map (node_key ns) ps) \<and> (\<forall>p \<in> set ps. valid (node_key ns p))"

lemma sl_linksD:
  assumes "sl_links sl ns ps"
  shows "heap_ok ns" and "distinct (sl_head sl # ps)" and "p \<in> set (sl_head sl # ps) \<Longrightarrow> p \<in> dom ns"
    and "node_height ns (sl_head sl) = MAX_HEAD_HEIGHT" and "sl_max_level sl \<le> MAX_HEAD_HEIGHT"
    and "p \<in> set ps \<Longrightarrow> node_height ns p \<le> sl_max_level sl"
    and "l < MAX_HEAD_HEIGHT \<Longrightarrow> linked ns l (sl_head sl) (at_level ns l ps)"
  using assms unfolding sl_links_def by blast+

lemma at_level_0: "sl_links sl ns ps \<Longrightarrow> set qs \<subseteq> set ps \<Longrightarrow> at_level ns 0 qs = qs"
  using node_height_pos [of ns] by (intro filter_True ballI) (meson sl_linksD(1,3) list.set_intros(2) subsetD)

text \<open>The chain below a node of a higher level continues from that node.\<close>

lemma linked_from_pred:
  assumes "linked ns l h (at_level ns l (as @ bs))" and "l < k"
  defines "q \<equiv> last (h # at_level ns k as)"
  obtains xs where "linked ns l q (xs @ at_level ns l bs)" and "last (q # xs) = last (h # at_level ns l as)"
    and "set xs \<subseteq> set as"
proof (cases "at_level ns k as = []")
  case True
  then show thesis using that [of "at_level ns l as"] assms(1) by (auto simp: q_def)
next
  case False
  then have "q = last (at_level ns k as)" by (simp add: q_def)
  then have "q \<in> set as" "l < node_height ns q"
    using last_in_set [OF False] assms(2) by auto
  then obtain a1 a2 where as: "as = a1 @ q # a2" by (meson split_list)
  then have split: "at_level ns l as = at_level ns l a1 @ q # at_level ns l a2"
    using \<open>l < node_height ns q\<close> by simp
  have "linked ns l h (at_level ns l a1 @ (q # at_level ns l a2 @ at_level ns l bs))"
    using assms(1) unfolding filter_append split by simp
  then have "linked ns l q (at_level ns l a2 @ at_level ns l bs)"
    by (subst (asm) linked_append) simp
  then show thesis using that [of "at_level ns l a2"] split as by auto
qed

lemma hd_opt_Nil_iff: "hd_opt xs = None \<longleftrightarrow> xs = []"
  by (cases xs) auto

lemma skip_empty_levels_ok:
  assumes "sl_links sl ns ps" and "n \<le> MAX_HEAD_HEIGHT"
  obtains m where "skip_empty_levels ns (sl_head sl) n = Some m" and "m \<le> n"
    and "\<And>l. m \<le> l \<Longrightarrow> l < n \<Longrightarrow> at_level ns l ps = []"
  using assms(2)
proof (induction n arbitrary: thesis)
  case 0
  then show ?case by simp
next
  case (Suc n)
  have n: "load_next ns (sl_head sl) n = Some (hd_opt (at_level ns n ps))"
    using sl_linksD(7) [OF assms(1), of n] Suc.prems(2) by (intro linked_head) simp
  show ?case
  proof (cases "at_level ns n ps = []")
    case False
    then show ?thesis using n Suc.prems(1) [of "Suc n"] by (simp add: hd_opt_Nil_iff)
  next
    case True
    obtain m where m: "skip_empty_levels ns (sl_head sl) n = Some m" "m \<le> n"
      "\<And>l. m \<le> l \<Longrightarrow> l < n \<Longrightarrow> at_level ns l ps = []"
      using Suc.IH Suc.prems(2) by (metis Suc_leD)
    have "at_level ns l ps = []" if "m \<le> l" "l < Suc n" for l
      using m(3) [OF that(1)] True that(2) less_antisym by blast
    then show ?thesis using Suc.prems(1) [of m] m n True by simp
  qed
qed

section \<open>Search\<close>

context comparator
begin

lemma search_right_ok:
  assumes heap: "heap_ok ns" and key: "valid key"
    and "linked ns l pred (xs @ ys)" and "set (xs @ ys) \<subseteq> dom ns" and "\<forall>p \<in> set (xs @ ys). valid (node_key ns p)"
    and "\<forall>x \<in> set xs. lt (node_key ns x) key" and "\<forall>y \<in> set ys. \<not> lt (node_key ns y) key"
  shows "search_right cmp ns key l pred (hd_opt (xs @ ys)) found =
    Some (last (pred # xs), hd_opt ys,
      if ys \<noteq> [] \<and> node_key ns (hd ys) = key then Some (hd ys) else found)"
  using assms(3-7)
proof (induction xs arbitrary: pred)
  case Nil
  show ?case
  proof (cases ys)
    case Nil
    then show ?thesis by (simp add: search_right.simps)
  next
    case (Cons y zs)
    have "get_key_bytes ns y = Some (node_key ns y)" using Nil.prems(2) Cons get_bytes_ok(1) [OF heap] by simp
    moreover have "cmp (node_key ns y) key = Some (if node_key ns y = key then Equal else Greater)"
      using Nil.prems(3,5) Cons cmp_eq key by simp
    ultimately show ?thesis using Cons by (simp add: search_right.simps)
  qed
next
  case (Cons x xs)
  have k: "get_key_bytes ns x = Some (node_key ns x)" using Cons.prems(2) get_bytes_ok(1) [OF heap] by simp
  have c: "cmp (node_key ns x) key = Some Less"
    using Cons.prems(3,4) cmp_Less_iff key by simp
  have n: "load_next ns x l = Some (hd_opt (xs @ ys))"
    using Cons.prems(1) by (intro linked_head) simp
  have "search_right cmp ns key l x (hd_opt (xs @ ys)) found =
    Some (last (x # xs), hd_opt ys, if ys \<noteq> [] \<and> node_key ns (hd ys) = key then Some (hd ys) else found)"
    using Cons.prems by (intro Cons.IH) simp_all
  then show ?case using k c n by (subst search_right.simps) simp
qed

text \<open>The nodes before a key and from it on.\<close>

lemma sl_split:
  assumes "sl_sorted valid lt ns ps" and "valid key"
  obtains as bs where "ps = as @ bs" and "\<forall>x \<in> set as. lt (node_key ns x) key"
    and "\<forall>y \<in> set bs. \<not> lt (node_key ns y) key"
proof
  let ?P = "\<lambda>p. lt (node_key ns p) key"
  show "ps = takeWhile ?P ps @ dropWhile ?P ps" by simp
  show "\<forall>x \<in> set (takeWhile ?P ps). ?P x" by (meson set_takeWhileD)
  show "\<forall>y \<in> set (dropWhile ?P ps). \<not> ?P y"
  proof (cases "dropWhile ?P ps")
    case (Cons y ys)
    have y: "\<not> ?P y" using hd_dropWhile [of ?P ps] Cons by simp
    have "sorted_wrt lt (map (node_key ns) (takeWhile ?P ps @ y # ys))"
      using assms(1) Cons by (metis sl_sorted_def takeWhile_dropWhile_id)
    then have "\<forall>z \<in> set ys. lt (node_key ns y) (node_key ns z)"
      by (simp add: sorted_wrt_append)
    then show ?thesis using y lt_trans Cons by auto
  next
    case Nil
    then show ?thesis by (simp only: list.set ball_empty)
  qed
qed

lemma only_head_equal:
  assumes "sl_sorted valid lt ns (as @ bs)" and "\<forall>y \<in> set bs. \<not> lt (node_key ns y) key"
    and "y \<in> set bs" and "node_key ns y = key"
  shows "y = hd bs"
proof (cases bs)
  case (Cons b cs)
  have "\<forall>c \<in> set cs. lt (node_key ns b) (node_key ns c)"
    using assms(1) Cons by (simp add: sl_sorted_def sorted_wrt_append)
  then show ?thesis using assms(2-4) Cons by auto
qed (use assms(3) in simp)

text \<open>What a search leaves in its context, for a list split at the key.\<close>

lemma search_levels_ok:
  assumes links: "sl_links sl ns (as @ bs)" and srt: "sl_sorted valid lt ns (as @ bs)" and key: "valid key"
    and as: "\<forall>x \<in> set as. lt (node_key ns x) key" and bs: "\<forall>y \<in> set bs. \<not> lt (node_key ns y) key"
    and "n \<le> MAX_HEAD_HEIGHT" and "n \<le> k" and "pred = last (sl_head sl # at_level ns k as)"
    and "length P = MAX_HEAD_HEIGHT" and "length S = MAX_HEAD_HEIGHT"
  shows "\<exists>f P' S'. search_levels cmp ns key n pred
      \<lparr>tc_searched_node = found, tc_predecessors = P, tc_successors = S\<rparr> =
      Some \<lparr>tc_searched_node = f, tc_predecessors = P', tc_successors = S'\<rparr>
    \<and> length P' = MAX_HEAD_HEIGHT \<and> length S' = MAX_HEAD_HEIGHT
    \<and> (\<forall>l. P' ! l = (if l < n then Some (last (sl_head sl # at_level ns l as)) else P ! l))
    \<and> (\<forall>l. S' ! l = (if l < n then hd_opt (at_level ns l bs) else S ! l))
    \<and> f = (if 0 < n \<and> bs \<noteq> [] \<and> node_key ns (hd bs) = key then Some (hd bs) else found)"
  using assms(6-10)
proof (induction n arbitrary: k pred P S found)
  case 0
  then show ?case by simp
next
  case (Suc n)
  let ?h = "sl_head sl" and ?as = "at_level ns n as" and ?bs = "at_level ns n bs"
  let ?found = "if ?bs \<noteq> [] \<and> node_key ns (hd ?bs) = key then Some (hd ?bs) else found"
  let ?P = "P[n := Some (last (?h # ?as))]" and ?S = "S[n := hd_opt ?bs]"
  have n: "n < MAX_HEAD_HEIGHT" "n < k" using Suc.prems(1,2) by simp_all
  obtain xs where xs: "linked ns n pred (xs @ ?bs)" "last (pred # xs) = last (?h # ?as)" "set xs \<subseteq> set as"
    using linked_from_pred [OF sl_linksD(7) [OF links n(1)] n(2)] unfolding Suc.prems(3) by blast
  have "set (xs @ ?bs) \<subseteq> set (as @ bs)" using xs(3) by auto
  then have "set (xs @ ?bs) \<subseteq> dom ns" "\<forall>p \<in> set (xs @ ?bs). valid (node_key ns p)"
    using sl_linksD(3) [OF links] srt by (auto simp: sl_sorted_def)
  moreover have "\<forall>x \<in> set xs. lt (node_key ns x) key" "\<forall>y \<in> set ?bs. \<not> lt (node_key ns y) key"
    using as bs xs(3) by auto
  ultimately have right: "search_right cmp ns key n pred (hd_opt (xs @ ?bs)) found = Some (last (?h # ?as), hd_opt ?bs, ?found)"
    unfolding xs(2) [symmetric] by (rule search_right_ok [OF sl_linksD(1) [OF links] key xs(1)])
  have step: "search_levels cmp ns key (Suc n) pred \<lparr>tc_searched_node = found, tc_predecessors = P, tc_successors = S\<rparr>
      = search_levels cmp ns key n (last (?h # ?as)) \<lparr>tc_searched_node = ?found, tc_predecessors = ?P, tc_successors = ?S\<rparr>"
    using n(1) Suc.prems(4,5) right linked_head [OF xs(1)] by (simp add: set_at_def)
  have found: "(if 0 < n \<and> bs \<noteq> [] \<and> node_key ns (hd bs) = key then Some (hd bs) else ?found)
      = (if bs \<noteq> [] \<and> node_key ns (hd bs) = key then Some (hd bs) else found)"
  proof (cases "?bs \<noteq> [] \<and> node_key ns (hd ?bs) = key")
    case True
    then have "hd ?bs \<in> set bs" using hd_in_set [of ?bs] by auto
    then have hd: "hd ?bs = hd bs" "bs \<noteq> []" using only_head_equal [OF srt bs] True by auto
    then have eq: "?found = Some (hd bs)" and "node_key ns (hd bs) = key" using True by simp_all
    then show ?thesis unfolding eq using hd(2) by simp
  next
    case False
    have "?bs = bs" if "n = 0" using at_level_0 [OF links, of bs] that by simp
    then show ?thesis using False by auto
  qed
  have "\<exists>f P' S'. search_levels cmp ns key n (last (?h # ?as))
      \<lparr>tc_searched_node = ?found, tc_predecessors = ?P, tc_successors = ?S\<rparr> =
      Some \<lparr>tc_searched_node = f, tc_predecessors = P', tc_successors = S'\<rparr>
    \<and> length P' = MAX_HEAD_HEIGHT \<and> length S' = MAX_HEAD_HEIGHT
    \<and> (\<forall>l. P' ! l = (if l < n then Some (last (?h # at_level ns l as)) else ?P ! l))
    \<and> (\<forall>l. S' ! l = (if l < n then hd_opt (at_level ns l bs) else ?S ! l))
    \<and> f = (if 0 < n \<and> bs \<noteq> [] \<and> node_key ns (hd bs) = key then Some (hd bs) else ?found)"
    using Suc.prems(4,5) n(1) by (intro Suc.IH [of n]) simp_all
  then obtain f P' S' where r:
    "search_levels cmp ns key n (last (?h # ?as))
      \<lparr>tc_searched_node = ?found, tc_predecessors = ?P, tc_successors = ?S\<rparr> =
      Some \<lparr>tc_searched_node = f, tc_predecessors = P', tc_successors = S'\<rparr>"
    "length P' = MAX_HEAD_HEIGHT" "length S' = MAX_HEAD_HEIGHT"
    "\<forall>l. P' ! l = (if l < n then Some (last (?h # at_level ns l as)) else ?P ! l)"
    "\<forall>l. S' ! l = (if l < n then hd_opt (at_level ns l bs) else ?S ! l)"
    "f = (if bs \<noteq> [] \<and> node_key ns (hd bs) = key then Some (hd bs) else found)"
    unfolding found by (elim exE conjE)
  have "\<forall>l. P' ! l = (if l < Suc n then Some (last (?h # at_level ns l as)) else P ! l)"
    using r(4) n(1) Suc.prems(4) by (metis less_antisym less_Suc_eq nth_list_update_eq nth_list_update_neq)
  moreover have "\<forall>l. S' ! l = (if l < Suc n then hd_opt (at_level ns l bs) else S ! l)"
    using r(5) n(1) Suc.prems(5) by (metis less_antisym less_Suc_eq nth_list_update_eq nth_list_update_neq)
  moreover have "f = (if 0 < Suc n \<and> bs \<noteq> [] \<and> node_key ns (hd bs) = key then Some (hd bs) else found)"
    using r(6) by simp
  ultimately show ?case unfolding step using r(1-3) by blast
qed

lemma search_ok:
  assumes links: "sl_links sl ns (as @ bs)" and srt: "sl_sorted valid lt ns (as @ bs)" and key: "valid key"
    and as: "\<forall>x \<in> set as. lt (node_key ns x) key" and bs: "\<forall>y \<in> set bs. \<not> lt (node_key ns y) key"
  obtains t where "search cmp sl ns key = Some t"
    and "length (tc_predecessors t) = MAX_HEAD_HEIGHT" and "length (tc_successors t) = MAX_HEAD_HEIGHT"
    and "\<And>l. l < MAX_HEAD_HEIGHT \<Longrightarrow> tc_predecessors t ! l = Some (last (sl_head sl # at_level ns l as))"
    and "\<And>l. l < MAX_HEAD_HEIGHT \<Longrightarrow> tc_successors t ! l = hd_opt (at_level ns l bs)"
    and "tc_searched_node t = (if bs \<noteq> [] \<and> node_key ns (hd bs) = key then Some (hd bs) else None)"
proof -
  let ?h = "sl_head sl"
  obtain m where m: "skip_empty_levels ns ?h (sl_max_level sl) = Some m" "m \<le> sl_max_level sl"
    "\<And>l. m \<le> l \<Longrightarrow> l < sl_max_level sl \<Longrightarrow> at_level ns l (as @ bs) = []"
    using skip_empty_levels_ok [OF links sl_linksD(5) [OF links]] by blast
  have empty: "at_level ns l (as @ bs) = []" if "m \<le> l" for l
  proof (cases "l < sl_max_level sl")
    case True
    then show ?thesis using m(3) that by blast
  next
    case False
    then show ?thesis using sl_linksD(6) [OF links] by (intro filter_False) fastforce
  qed
  have m8: "m \<le> MAX_HEAD_HEIGHT" using m(2) sl_linksD(5) [OF links] by simp
  have top: "?h = last (?h # at_level ns m as)" using empty [of m] by simp
  obtain f P S where run: "search_levels cmp ns key m ?h
      \<lparr>tc_searched_node = None, tc_predecessors = replicate MAX_HEAD_HEIGHT (Some ?h),
       tc_successors = replicate MAX_HEAD_HEIGHT None\<rparr> =
      Some \<lparr>tc_searched_node = f, tc_predecessors = P, tc_successors = S\<rparr>"
    "length P = MAX_HEAD_HEIGHT" "length S = MAX_HEAD_HEIGHT"
    "\<forall>l. P ! l = (if l < m then Some (last (?h # at_level ns l as)) else replicate MAX_HEAD_HEIGHT (Some ?h) ! l)"
    "\<forall>l. S ! l = (if l < m then hd_opt (at_level ns l bs) else replicate MAX_HEAD_HEIGHT None ! l)"
    "f = (if 0 < m \<and> bs \<noteq> [] \<and> node_key ns (hd bs) = key then Some (hd bs) else None)"
    using search_levels_ok [OF links srt key as bs m8 order_refl top length_replicate length_replicate,
        of None "Some ?h" None] by (elim exE conjE)
  have "bs = []" if "m = 0" using empty [of 0] at_level_0 [OF links, of "as @ bs"] that by simp
  then have f: "f = (if bs \<noteq> [] \<and> node_key ns (hd bs) = key then Some (hd bs) else None)"
    using run(6) by auto
  have high: "at_level ns l as = []" "at_level ns l bs = []" if "\<not> l < m" for l
    using empty [of l] that by (simp_all only: not_less filter_append append_is_Nil_conv)
  show thesis
  proof (rule that)
    show "search cmp sl ns key = Some \<lparr>tc_searched_node = f, tc_predecessors = P, tc_successors = S\<rparr>"
      using m(1) run(1) by (simp add: search_def traversal_ctx_new_def)
  qed (use run(2-5) f high in auto)
qed

end

section \<open>Linking a node\<close>

text \<open>A search context for the position between \<open>as\<close> and \<open>bs\<close>.\<close>

definition ctx_ok :: "traversal_ctx \<Rightarrow> node_ptr \<Rightarrow> nodes \<Rightarrow> node_ptr list \<Rightarrow> node_ptr list \<Rightarrow> bool" where
  "ctx_ok t h ns as bs \<longleftrightarrow> length (tc_predecessors t) = MAX_HEAD_HEIGHT \<and> length (tc_successors t) = MAX_HEAD_HEIGHT
     \<and> (\<forall>l < MAX_HEAD_HEIGHT. tc_predecessors t ! l = Some (last (h # at_level ns l as))
          \<and> tc_successors t ! l = hd_opt (at_level ns l bs))"

text \<open>The node \<open>np\<close> is linked below level \<open>j\<close> and has no successor from level \<open>j\<close> on.\<close>

definition linked_upto ::
  "nodes \<Rightarrow> node_ptr \<Rightarrow> node_ptr list \<Rightarrow> node_ptr \<Rightarrow> node_ptr list \<Rightarrow> nat \<Rightarrow> bool" where
  "linked_upto ns h as np bs j \<longleftrightarrow>
     (\<forall>l < MAX_HEAD_HEIGHT. linked ns l h (at_level ns l as @ (if l < j then [np] else []) @ at_level ns l bs))
     \<and> (\<forall>l. j \<le> l \<and> l < node_height ns np \<longrightarrow> load_next ns np l = Some None)"

lemma ctx_ok_frame: "tower_frame ns ns' \<Longrightarrow> ctx_ok t h ns' as bs = ctx_ok t h ns as bs"
  by (simp only: ctx_ok_def tower_frameD(2))

lemma link_attempt_ok:
  assumes heap: "heap_ok ns" and p: "l < node_height ns p" and np: "l < node_height ns np" and "p \<noteq> np"
    and "l < length (tc_predecessors t)" and "l < length (tc_successors t)"
    and "tc_predecessors t ! l = Some p" and s: "tc_successors t ! l = s"
    and "load_next ns p l = Some s" and "load_next ns np l = Some None"
  obtains ns' where "link_attempt np l t ns = Some (True, ns')" and "heap_ok ns'" and "tower_frame ns ns'"
    and "\<And>q k. load_next ns' q k = (if q = np \<and> k = l then Some s
        else if q = p \<and> k = l then Some (Some np) else load_next ns q k)"
proof -
  have "\<exists>ns1. (case s of None \<Rightarrow> Some ns | Some q \<Rightarrow> do { slot \<leftarrow> node_next ns np l; slot_store slot (Some q) ns }) = Some ns1
      \<and> heap_ok ns1 \<and> tower_frame ns ns1
      \<and> (\<forall>q k. load_next ns1 q k = (if q = np \<and> k = l then Some s else load_next ns q k))"
  proof (cases s)
    case None
    then show ?thesis using heap assms(10) by (simp add: tower_frame_refl)
  next
    case (Some q)
    show ?thesis
      by (rule slot_store_ok [OF heap np, of s]) (use Some np in \<open>simp add: node_next_ok [OF heap]\<close>)
  qed
  then obtain ns1 where ns1: "(case s of None \<Rightarrow> Some ns
        | Some q \<Rightarrow> do { slot \<leftarrow> node_next ns np l; slot_store slot (Some q) ns }) = Some ns1"
    "heap_ok ns1" "tower_frame ns ns1"
    "\<And>q k. load_next ns1 q k = (if q = np \<and> k = l then Some s else load_next ns q k)" by blast
  have "l < node_height ns1 p" "load_next ns1 p l = Some s"
    using p tower_frameD(2) [OF ns1(3)] assms(4,9) ns1(4) by simp_all
  from slot_compare_exchange_ok [OF ns1(2) this, where new = "Some np"] obtain ns2 where ns2:
    "slot_compare_exchange (Some (p, l)) s (Some np) ns1 = Some (True, ns2)" "heap_ok ns2" "tower_frame ns1 ns2"
    "\<And>p' l'. load_next ns2 p' l' = (if p' = p \<and> l' = l then Some (Some np) else load_next ns1 p' l')" by blast
  have "link_attempt np l t ns = Some (True, ns2)"
    using assms(5-7) s ns1(1) ns2(1) p unfolding link_attempt_def
    by (simp add: get_at_def node_next_ok [OF heap])
  then show thesis
    using that ns2(2,4) tower_frame_trans [OF ns1(3) ns2(3)] assms(4) by (simp add: ns1(4))
qed

lemma link_step:
  assumes heap: "heap_ok ns" and dist: "distinct (h # as @ bs)" and np: "np \<notin> set (h # as @ bs)"
    and h: "node_height ns h = MAX_HEAD_HEIGHT" and ctx: "ctx_ok t h ns as bs"
    and up: "linked_upto ns h as np bs j" and j: "j < node_height ns np"
  obtains ns' where "link_attempt np j t ns = Some (True, ns')" and "heap_ok ns'" and "tower_frame ns ns'"
    and "linked_upto ns' h as np bs (Suc j)"
proof -
  let ?p = "last (h # at_level ns j as)" and ?s = "hd_opt (at_level ns j bs)"
  have j8: "j < MAX_HEAD_HEIGHT" using j node_height_le [OF heap, of np] by simp
  have chain: "linked ns j h (at_level ns j as @ at_level ns j bs)"
    using up j8 unfolding linked_upto_def by fastforce
  then have nxt: "load_next ns ?p j = Some ?s" by (intro linked_head) (simp add: linked_append)
  have "?p = h \<or> ?p \<in> set (at_level ns j as)" using last_in_set [of "at_level ns j as"]
    by (cases "at_level ns j as = []") (simp, simp only: last.simps if_False simp_thms)
  then have p: "j < node_height ns ?p" "?p \<noteq> np" using h j8 np by auto
  have t: "tc_predecessors t ! j = Some ?p" "tc_successors t ! j = ?s" "j < length (tc_predecessors t)"
    "j < length (tc_successors t)" using ctx j8 by (simp_all add: ctx_ok_def)
  have new: "load_next ns np j = Some None" using up j by (simp add: linked_upto_def)
  obtain ns' where ns': "link_attempt np j t ns = Some (True, ns')" "heap_ok ns'" "tower_frame ns ns'"
    "\<And>q k. load_next ns' q k = (if q = np \<and> k = j then Some ?s
        else if q = ?p \<and> k = j then Some (Some np) else load_next ns q k)"
    using link_attempt_ok [OF heap p(1) j p(2) t(3,4,1,2) nxt new] by blast
  have "linked ns' l h (at_level ns l as @ (if l < Suc j then [np] else []) @ at_level ns l bs)"
    if "l < MAX_HEAD_HEIGHT" for l
  proof (cases "l = j")
    case True
    have "linked ns' j h (at_level ns j as @ np # at_level ns j bs)"
    proof (rule linked_splice [OF chain])
      show "distinct (h # at_level ns j as @ at_level ns j bs)" using dist by auto
      show "np \<notin> set (h # at_level ns j as @ at_level ns j bs)" using np by auto
    qed (simp add: ns'(4))
    then show ?thesis using True by simp
  next
    case False
    then have "linked ns' l h qs = linked ns l h qs" for qs by (intro linked_cong) (simp add: ns'(4))
    then show ?thesis using up that False by (simp add: linked_upto_def less_Suc_eq)
  qed
  moreover have "\<forall>l. Suc j \<le> l \<and> l < node_height ns np \<longrightarrow> load_next ns' np l = Some None"
    using up p(2) by (auto simp: linked_upto_def ns'(4))
  ultimately have "linked_upto ns' h as np bs (Suc j)"
    unfolding linked_upto_def tower_frameD(2) [OF ns'(3)] by blast
  then show thesis using that ns'(1-3) by blast
qed

lemma link_levels_ok:
  assumes "heap_ok ns" and dist: "distinct (h # as @ bs)" and np: "np \<notin> set (h # as @ bs)"
    and "node_height ns h = MAX_HEAD_HEIGHT" and "ctx_ok t h ns as bs"
    and "linked_upto ns h as np bs j" and "j + n = node_height ns np"
  shows "\<exists>ns'. link_levels cmp sl key np [j..<j + n] t ns = Some ns' \<and> heap_ok ns' \<and> tower_frame ns ns'
    \<and> linked_upto ns' h as np bs (j + n)"
  using assms(1,4-7)
proof (induction n arbitrary: j ns)
  case 0
  then show ?case by (auto simp: tower_frame_refl)
next
  case (Suc n)
  have "j < node_height ns np" using Suc.prems(5) by simp
  from link_step [OF Suc.prems(1) dist np Suc.prems(2-4) this] obtain ns1 where ns1:
    "link_attempt np j t ns = Some (True, ns1)" "heap_ok ns1" "tower_frame ns ns1" "linked_upto ns1 h as np bs (Suc j)"
    by blast
  have "\<exists>ns'. link_levels cmp sl key np [Suc j..<Suc j + n] t ns1 = Some ns' \<and> heap_ok ns' \<and> tower_frame ns1 ns'
    \<and> linked_upto ns' h as np bs (Suc j + n)"
    using Suc.prems ns1 by (intro Suc.IH) (simp_all add: tower_frameD(2) [OF ns1(3)] ctx_ok_frame [OF ns1(3)])
  moreover have "[j..<j + Suc n] = j # [Suc j..<Suc j + n]" using upt_conv_Cons [of j "j + Suc n"] by simp
  moreover have "link_level cmp sl key np j t ns = Some (t, ns1)"
    using ns1(1) by (subst link_level.simps) simp
  ultimately show ?case using tower_frame_trans [OF ns1(3)] by auto
qed

lemma link_node_ok:
  assumes heap: "heap_ok (hp_nodes hp)" and dist: "distinct (h # as @ bs)" and np: "np \<notin> set (h # as @ bs)"
    and h: "node_height (hp_nodes hp) h = MAX_HEAD_HEIGHT" and ctx: "ctx_ok t h (hp_nodes hp) as bs"
    and up: "linked_upto (hp_nodes hp) h as np bs 0" and height: "height = node_height (hp_nodes hp) np" "0 < height"
  obtains ns' where "link_node cmp sl key np height t hp = Some (np, sl, hp\<lparr>hp_nodes := ns'\<rparr>)" and "heap_ok ns'"
    and "tower_frame (hp_nodes hp) ns'" and "linked_upto ns' h as np bs height"
proof -
  obtain ns1 where ns1: "link_attempt np 0 t (hp_nodes hp) = Some (True, ns1)" "heap_ok ns1"
    "tower_frame (hp_nodes hp) ns1" "linked_upto ns1 h as np bs 1"
    using link_step [OF heap dist np h ctx up] height by auto
  have base: "link_base cmp sl key np t (hp_nodes hp) = Some (Inr t, ns1)"
    using ns1(1) by (subst link_base.simps) simp
  have "\<exists>ns'. link_levels cmp sl key np [1..<1 + (height - 1)] t ns1 = Some ns' \<and> heap_ok ns' \<and> tower_frame ns1 ns'
    \<and> linked_upto ns' h as np bs (1 + (height - 1))"
    using h ctx height
    by (intro link_levels_ok [OF ns1(2) dist np _ _ ns1(4)])
      (simp_all add: tower_frameD(2) [OF ns1(3)] ctx_ok_frame [OF ns1(3)])
  then obtain ns' where "link_levels cmp sl key np [1..<height] t ns1 = Some ns'" "heap_ok ns'" "tower_frame ns1 ns'"
    "linked_upto ns' h as np bs height" using height(2) by auto
  then show thesis using that base tower_frame_trans [OF ns1(3)] by (simp add: link_node_def)
qed

lemma linked_upto_links:
  assumes "linked_upto ns (sl_head sl) as np bs (node_height ns np)" and "heap_ok ns"
    and "distinct (sl_head sl # as @ bs)" and "np \<notin> set (sl_head sl # as @ bs)"
    and "set (sl_head sl # as @ np # bs) \<subseteq> dom ns" and "node_height ns (sl_head sl) = MAX_HEAD_HEIGHT"
    and "sl_max_level sl \<le> MAX_HEAD_HEIGHT" and "\<forall>p \<in> set (as @ np # bs). node_height ns p \<le> sl_max_level sl"
  shows "sl_links sl ns (as @ np # bs)"
proof -
  have "at_level ns l (as @ np # bs) = at_level ns l as @ (if l < node_height ns np then [np] else []) @ at_level ns l bs"
    for l by simp
  moreover have "linked ns l (sl_head sl) (at_level ns l as @ (if l < node_height ns np then [np] else []) @ at_level ns l bs)"
    if "l < MAX_HEAD_HEIGHT" for l using assms(1) that by (simp only: linked_upto_def)
  ultimately have "\<forall>l < MAX_HEAD_HEIGHT. linked ns l (sl_head sl) (at_level ns l (as @ np # bs))"
    by (metis (no_types, lifting))
  moreover have "distinct (sl_head sl # as @ np # bs)" using assms(3,4) by auto
  ultimately show ?thesis using assms(2,5-8) unfolding sl_links_def by blast
qed

section \<open>Allocating a node\<close>

text \<open>Every node is the start of a region of the arena.\<close>

definition heap_inv :: "node_heap \<Rightarrow> bool" where
  "heap_inv hp \<longleftrightarrow> heap_ok (hp_nodes hp)
     \<and> (\<exists>rs. arena_holds (hp_arena hp) rs \<and> (\<forall>p \<in> dom (hp_nodes hp). \<exists>n > 0. (fst p, snd p, n) \<in> set rs))"

definition node_layout :: "nat \<Rightarrow> nat \<Rightarrow> nat \<Rightarrow> layout" where
  "node_layout h k v = \<lparr>lay_size = 8 + 8 * h + k + v, lay_align = 8\<rparr>"

text \<open>The arena has room for a node.\<close>

definition node_fits :: "nat \<Rightarrow> nat \<Rightarrow> nat \<Rightarrow> arena \<Rightarrow> bool" where
  "node_fits h k v a \<longleftrightarrow> 8 + 8 * h + k + v \<le> block_size (ar_policy a)
     \<and> (fits (node_layout h k v) (cur_bump a) a \<or> can_grow a)"

lemma build_layout_eq:
  assumes "8 + 8 * h + k + v \<le> isize_MAX - 7"
  shows "build_layout h k v = Inr (node_layout h k v)"
proof -
  have "8 + 8 * h + 7 = (h + 1) * 8 + 7" by simp
  then have "(8 + (8 * h + 7)) div 8 * 8 = 8 + 8 * h" by (simp add: div_mult_self3)
  moreover have "k \<le> isize_MAX" "v \<le> isize_MAX" using assms by linarith+
  ultimately show ?thesis
    using assms by (simp add: build_layout_def layout_extend_def layout_from_def node_layout_def Let_def)
qed

lemma layout_ok_node: "layout_ok (node_layout h k v)"
  unfolding layout_ok_def node_layout_def by (rule exI [of _ 3]) simp

lemma region_read:
  assumes "arena_holds a ((k, off, n) # rs)" and "d + m \<le> n"
  obtains mem where "arena_read (k, off + d) m a = Some mem" and "length mem = m"
proof -
  have k: "k < length (ar_chunks a)" "off + n \<le> ch_bump (ar_chunks a ! k)" and a: "arena_ok a"
    using assms(1) by (simp_all add: arena_holds_def region_within_def)
  then have "off + n \<le> length (ch_mem (ar_chunks a ! k))" using arena_chunk [OF a k(1)] by simp
  then show thesis
    using that k(1) assms(2) by (simp add: arena_read_def get_at_def slice_at_def)
qed

lemma alloc_raw_cases:
  assumes "arena_holds a rs" and "layout_ok l"
  obtains (full) "alloc_raw base l a = None"
      "\<not> (lay_size l \<le> block_size (ar_policy a) \<and> (fits l (cur_bump a) a \<or> can_grow a))"
    | (room) p a' where "alloc_raw base l a = Some (p, a')"
      "lay_size l \<le> block_size (ar_policy a)" "fits l (cur_bump a) a \<or> can_grow a"
      "arena_holds a' ((fst p, snd p, lay_size l) # rs)" "ar_policy a' = ar_policy a"
proof (cases "lay_size l \<le> block_size (ar_policy a)")
  case size: True
  from alloc_loop_correct [OF assms size, of base] show thesis
  proof (rule disjE)
    assume "alloc_loop base l a = Some (Inl ArenaFull, a) \<and> \<not> fits l (cur_bump a) a \<and> \<not> can_grow a"
    then show thesis using full by (simp add: alloc_raw_def)
  next
    assume "\<exists>k off a'. alloc_loop base l a = Some (Inr (k, off), a')
        \<and> (fits l (cur_bump a) a \<or> can_grow a)
        \<and> arena_holds a' ((k, off, lay_size l) # rs) \<and> off mod lay_align l = 0
        \<and> ar_memory_used a' = ar_memory_used a + lay_size l \<and> ar_policy a' = ar_policy a"
    then obtain k off a' where r: "alloc_loop base l a = Some (Inr (k, off), a')"
      "fits l (cur_bump a) a \<or> can_grow a" "arena_holds a' ((k, off, lay_size l) # rs)" "ar_policy a' = ar_policy a"
      by (elim exE conjE)
    show thesis by (rule room [of "(k, off)" a']) (use r size in \<open>simp_all add: alloc_raw_def\<close>)
  qed
next
  case False
  then show thesis using full by (simp add: alloc_raw_def)
qed

lemma node_alloc_cases:
  assumes "heap_inv hp" and h: "unat h \<le> MAX_HEAD_HEIGHT" "0 < unat h"
  obtains (full) "node_alloc base h k v hp = None" "\<not> node_fits (unat h) (unat k) (unat v) (hp_arena hp)"
    | (room) p a nd where "node_alloc base h k v hp = Some (p, \<lparr>hp_arena = a, hp_nodes = (hp_nodes hp)(p \<mapsto> nd)\<rparr>)"
      "node_fits (unat h) (unat k) (unat v) (hp_arena hp)" "p \<notin> dom (hp_nodes hp)"
      "node_ok nd" "nd_height nd = h" "nd_key_len nd = k" "nd_value_len nd = v"
      "nd_tower nd = replicate (unat h) None" "heap_inv \<lparr>hp_arena = a, hp_nodes = (hp_nodes hp)(p \<mapsto> nd)\<rparr>"
proof -
  obtain rs where rs: "arena_holds (hp_arena hp) rs" "\<forall>p \<in> dom (hp_nodes hp). \<exists>n > 0. (fst p, snd p, n) \<in> set rs"
    and heap: "heap_ok (hp_nodes hp)" using assms(1) unfolding heap_inv_def by blast
  let ?l = "node_layout (unat h) (unat k) (unat v)"
  have "unat k < 2 ^ 16" "unat v < 2 ^ 32" using unsigned_less [of k] unsigned_less [of v] by simp_all
  then have "8 + 8 * unat h + unat k + unat v \<le> isize_MAX - 7"
    using h(1) by (simp add: MAX_HEAD_HEIGHT_def isize_MAX_def)
  note lay = build_layout_eq [OF this]
  have sz: "lay_size ?l = 8 + 8 * unat h + unat k + unat v" by (simp add: node_layout_def)
  from rs(1) layout_ok_node show thesis
  proof (cases rule: alloc_raw_cases [where l = ?l and base = base])
    case full
    then show thesis using that(1) h(1) lay by (simp add: node_alloc_def node_fits_def sz)
  next
    case (room p a)
    note run = room(1) and fit = room(2,3) and a = room(4,5)
    obtain mem where mem: "arena_read (fst p, snd p + (8 + unat h * 8)) (unat k + unat v) a = Some mem"
      "length mem = unat k + unat v"
      using region_read [OF a(1), of "8 + unat h * 8" "unat k + unat v"] sz by auto
    let ?nd = "\<lparr>nd_height = h, nd_key_len = k, nd_value_len = v, nd_tower = replicate (unat h) None, nd_bytes = mem\<rparr>"
    have "node_alloc base h k v hp = Some (p, \<lparr>hp_arena = a, hp_nodes = (hp_nodes hp)(p \<mapsto> ?nd)\<rparr>)"
      using h(1) lay run mem(1) by (simp add: node_alloc_def init_node_def key_ptr_def add.assoc)
    moreover have "p \<notin> dom (hp_nodes hp)"
    proof
      assume "p \<in> dom (hp_nodes hp)"
      then obtain n where "0 < n" "(fst p, snd p, n) \<in> set rs" using rs(2) by blast
      then have "regions_disjoint (fst p, snd p, lay_size ?l) (fst p, snd p, n)"
        using a(1) by (simp add: arena_holds_def)
      then show False using \<open>0 < n\<close> sz by (simp add: regions_disjoint_def)
    qed
    moreover have nd: "node_ok ?nd" using h mem(2) by (simp add: node_ok_def)
    moreover have "heap_inv \<lparr>hp_arena = a, hp_nodes = (hp_nodes hp)(p \<mapsto> ?nd)\<rparr>"
    proof -
      have "heap_ok ((hp_nodes hp)(p \<mapsto> ?nd))" using heap nd by (simp add: heap_ok_def)
      moreover have "\<exists>n > 0. (fst q, snd q, n) \<in> set ((fst p, snd p, lay_size ?l) # rs)"
        if "q \<in> dom ((hp_nodes hp)(p \<mapsto> ?nd))" for q
        using that rs(2) sz by (cases "q = p") auto
      ultimately show ?thesis unfolding heap_inv_def using a(1) by (metis node_heap.select_convs(1,2))
    qed
    moreover have "node_fits (unat h) (unat k) (unat v) (hp_arena hp)" using fit sz by (simp add: node_fits_def)
    ultimately show thesis using that(2) [of p a ?nd] by simp
  qed
qed

section \<open>The height of a new node\<close>

lemma lower_height_ok:
  "heap_ok ns \<Longrightarrow> node_height ns head = MAX_HEAD_HEIGHT \<Longrightarrow> h \<le> MAX_HEAD_HEIGHT \<Longrightarrow>
   lower_height ns head h = Some (min h 3)"
proof (induction h)
  case 0
  then show ?case by (simp add: lower_height.simps)
next
  case (Suc h)
  then show ?case by (subst lower_height.simps) (auto simp: node_next_ok MAX_HEAD_HEIGHT_def min_def)
qed

definition drawn_height :: "skip_list \<Rightarrow> nat" where
  "drawn_height sl = min 3 (trailing_zeros (xorshift (sl_seed sl)) + 1)"

lemma drawn_height_bounds: "0 < drawn_height sl" "drawn_height sl \<le> 3" "drawn_height sl \<le> MAX_HEAD_HEIGHT"
  by (simp_all add: drawn_height_def MAX_HEAD_HEIGHT_def)

definition after_draw :: "skip_list \<Rightarrow> skip_list" where
  "after_draw sl = sl\<lparr>sl_seed := xorshift (sl_seed sl), sl_max_level := max (sl_max_level sl) (drawn_height sl)\<rparr>"

lemma generate_random_level_ok:
  assumes "heap_ok ns" and "node_height ns (sl_head sl) = MAX_HEAD_HEIGHT"
  shows "generate_random_level ns sl = Some (drawn_height sl, after_draw sl)"
proof -
  let ?h = "min MAX_HEAD_HEIGHT (trailing_zeros (xorshift (sl_seed sl)) + 1)"
  have "lower_height ns (sl_head sl) ?h = Some (min ?h 3)" by (rule lower_height_ok [OF assms]) simp
  moreover have "min ?h 3 = drawn_height sl" by (simp add: drawn_height_def MAX_HEAD_HEIGHT_def)
  ultimately show ?thesis
    by (simp add: generate_random_level_def after_draw_def Let_def max_def)
qed

end
