(* ===== verification/Skip_List_Index.thy ===== *)
theory Skip_List_Index
  imports Skip_List
begin

text \<open>
  The skip list of \<open>mem_skip_list.rs\<close> as an ordered index: insertion, iteration, seek and
  range scans of the operations of \<open>Skip_List\<close> against a sorted list of entries, the
  contract \<open>ordered_index\<close> the memtable relies on and its interpretation on the skip list.
\<close>

unbundle bit_operations_syntax

section \<open>Insertion\<close>

definition sl_inv ::
  "(bytes \<Rightarrow> bool) \<Rightarrow> (bytes \<Rightarrow> bytes \<Rightarrow> bool) \<Rightarrow> skip_list \<Rightarrow> node_heap \<Rightarrow> node_ptr list \<Rightarrow> bool" where
  "sl_inv valid lt sl hp ps \<longleftrightarrow> heap_inv hp \<and> sl_links sl (hp_nodes hp) ps \<and> sl_sorted valid lt (hp_nodes hp) ps"

text \<open>What the list holds, in order.\<close>

definition sl_contents :: "nodes \<Rightarrow> node_ptr list \<Rightarrow> (bytes \<times> bytes) list" where
  "sl_contents ns ps = map (\<lambda>p. (node_key ns p, node_value ns p)) ps"

lemma sl_contents_simps [simp]:
  "sl_contents ns [] = []"
  "sl_contents ns (p # ps) = (node_key ns p, node_value ns p) # sl_contents ns ps"
  "sl_contents ns (ps @ qs) = sl_contents ns ps @ sl_contents ns qs"
  by (simp_all add: sl_contents_def)

lemma sl_contents_keys: "fst ` set (sl_contents ns ps) = node_key ns ` set ps"
  by (simp add: sl_contents_def image_image)

text \<open>Adding a node that no tower points to.\<close>

lemma fresh_node:
  assumes "heap_ok ns" and np: "np \<notin> dom ns" and nd: "node_ok nd" "nd_tower nd = replicate (unat (nd_height nd)) None"
  defines "ns1 \<equiv> ns(np \<mapsto> nd)"
  shows "heap_ok ns1" and "node_height ns1 np = unat (nd_height nd)"
    and "p \<in> dom ns \<Longrightarrow> node_height ns1 p = node_height ns p"
    and "p \<in> dom ns \<Longrightarrow> node_key ns1 p = node_key ns p"
    and "p \<in> dom ns \<Longrightarrow> node_value ns1 p = node_value ns p"
    and "p \<in> dom ns \<Longrightarrow> load_next ns1 p l = load_next ns p l"
    and "l < unat (nd_height nd) \<Longrightarrow> load_next ns1 np l = Some None"
proof -
  show heap: "heap_ok ns1" using assms(1) nd(1) by (simp add: ns1_def heap_ok_def)
  show hnp: "node_height ns1 np = unat (nd_height nd)" by (simp add: ns1_def node_height_def)
  have neq: "p \<noteq> np" if "p \<in> dom ns" for p using that np by blast
  show h: "node_height ns1 p = node_height ns p" if "p \<in> dom ns" for p
    using neq [OF that] by (simp add: ns1_def node_height_def)
  show "p \<in> dom ns \<Longrightarrow> node_key ns1 p = node_key ns p" "p \<in> dom ns \<Longrightarrow> node_value ns1 p = node_value ns p"
    using neq by (simp_all add: ns1_def node_key_def node_value_def get_key_bytes_def get_value_bytes_def)
  show "load_next ns1 p l = load_next ns p l" if "p \<in> dom ns"
    unfolding load_next_ok [OF heap] load_next_ok [OF assms(1)] h [OF that]
    using neq [OF that] by (simp add: ns1_def)
  show "load_next ns1 np l = Some None" if "l < unat (nd_height nd)"
    unfolding load_next_ok [OF heap] hnp using that by (simp add: ns1_def nd(2))
qed

lemma fresh_node_links:
  assumes links: "sl_links sl ns (as @ bs)"
    and np: "np \<notin> dom ns" and nd: "node_ok nd" "nd_tower nd = replicate (unat (nd_height nd)) None"
  shows "ctx_ok t (sl_head sl) (ns(np \<mapsto> nd)) as bs = ctx_ok t (sl_head sl) ns as bs" and "linked_upto (ns(np \<mapsto> nd)) (sl_head sl) as np bs 0"
proof -
  let ?ns = "ns(np \<mapsto> nd)"
  note fresh = fresh_node [OF sl_linksD(1) [OF links] np nd]
  have lev: "at_level ?ns l qs = at_level ns l qs" if "set qs \<subseteq> set (as @ bs)" for l qs
  proof (rule filter_cong [OF refl])
    fix x assume "x \<in> set qs"
    then have "x \<in> dom ns" using that sl_linksD(3) [OF links, of x] by auto
    then show "(l < node_height ?ns x) = (l < node_height ns x)" by (simp only: fresh(3))
  qed
  then have parts: "at_level ?ns l as = at_level ns l as" "at_level ?ns l bs = at_level ns l bs" for l
    using lev [of as l] lev [of bs l] by simp_all
  show "ctx_ok t (sl_head sl) ?ns as bs = ctx_ok t (sl_head sl) ns as bs" unfolding ctx_ok_def parts ..
  have "linked ?ns l (sl_head sl) (at_level ns l as @ at_level ns l bs)" if "l < MAX_HEAD_HEIGHT" for l
  proof -
    have "linked ?ns l (sl_head sl) (at_level ns l (as @ bs)) = linked ns l (sl_head sl) (at_level ns l (as @ bs))"
    proof (rule linked_cong)
      fix q assume "q \<in> set (sl_head sl # at_level ns l (as @ bs))"
      then have "q \<in> dom ns" using sl_linksD(3) [OF links, of q] by auto
      then show "load_next ?ns q l = load_next ns q l" by (rule fresh(6))
    qed
    then show ?thesis using sl_linksD(7) [OF links that] by simp
  qed
  moreover have "load_next ?ns np l = Some None" if "l < node_height ?ns np" for l
    using that unfolding fresh(2) by (rule fresh(7))
  ultimately show "linked_upto ?ns (sl_head sl) as np bs 0"
    unfolding linked_upto_def parts by simp
qed

text \<open>Linking a fresh node in its place.\<close>

lemma heap_inv_frame:
  assumes "heap_inv hp" and "heap_ok ns" and "dom ns = dom (hp_nodes hp)"
  shows "heap_inv (hp\<lparr>hp_nodes := ns\<rparr>)"
  using assms unfolding heap_inv_def by simp

context comparator
begin

lemma sorted_splice:
  assumes "sl_sorted valid lt ns (as @ bs)" and "valid key"
    and "\<forall>x \<in> set as. lt (node_key ns x) key" and "\<forall>y \<in> set bs. \<not> lt (node_key ns y) key"
    and "\<not> (bs \<noteq> [] \<and> node_key ns (hd bs) = key)"
  shows "sorted_wrt lt (map (node_key ns) as @ key # map (node_key ns) bs)"
proof -
  have "lt key (node_key ns y)" if "y \<in> set bs" for y
  proof -
    have "node_key ns y \<noteq> key"
      using only_head_equal [OF assms(1,4) that] assms(5) that by auto
    then show ?thesis using assms(1,2,4) that lt_total [of "node_key ns y" key] by (auto simp: sl_sorted_def)
  qed
  then show ?thesis using assms(1,3) by (simp add: sl_sorted_def sorted_wrt_append)
qed

lemma link_fresh:
  assumes links: "sl_links sl ns (as @ bs)" and srt: "sl_sorted valid lt ns (as @ bs)" and key: "valid key"
    and as: "\<forall>x \<in> set as. lt (node_key ns x) key" and bs: "\<forall>y \<in> set bs. \<not> lt (node_key ns y) key"
    and new: "\<not> (bs \<noteq> [] \<and> node_key ns (hd bs) = key)" and ctx: "ctx_ok t (sl_head sl) (ns(np \<mapsto> nd)) as bs"
    and np: "np \<notin> dom ns" and nd: "node_ok nd" "nd_tower nd = replicate (unat (nd_height nd)) None"
    and knd: "node_key (ns(np \<mapsto> nd)) np = key" and hp: "hp_nodes hp = ns(np \<mapsto> nd)"
    and sl': "sl_head sl' = sl_head sl" "sl_max_level sl \<le> sl_max_level sl'" "sl_max_level sl' \<le> MAX_HEAD_HEIGHT"
      "unat (nd_height nd) \<le> sl_max_level sl'"
  obtains ns' where "link_node cmp sl' key np (unat (nd_height nd)) t hp = Some (np, sl', hp\<lparr>hp_nodes := ns'\<rparr>)"
    and "heap_ok ns'" and "dom ns' = dom (hp_nodes hp)" and "sl_links sl' ns' (as @ np # bs)"
    and "sl_sorted valid lt ns' (as @ np # bs)"
    and "sl_contents ns' (as @ np # bs) = sl_contents ns as @ (key, node_value (hp_nodes hp) np) # sl_contents ns bs"
proof -
  let ?h = "sl_head sl" and ?ns = "ns(np \<mapsto> nd)"
  note fresh = fresh_node [OF sl_linksD(1) [OF links] np nd]
  note fl = fresh_node_links(2) [OF links np nd]
  have old: "p \<in> dom ns" if "p \<in> set (?h # as @ bs)" for p using sl_linksD(3) [OF links that] .
  then have npn: "np \<notin> set (?h # as @ bs)" using np by blast
  have hh: "node_height ?ns ?h = MAX_HEAD_HEIGHT" using fresh(3) old sl_linksD(4) [OF links] by simp
  have hpos: "0 < unat (nd_height nd)" using nd(1) by (simp add: node_ok_def)
  obtain ns' where ns': "link_node cmp sl' key np (unat (nd_height nd)) t hp = Some (np, sl', hp\<lparr>hp_nodes := ns'\<rparr>)"
    "heap_ok ns'" "tower_frame ?ns ns'" "linked_upto ns' ?h as np bs (unat (nd_height nd))"
    using link_node_ok [of hp, unfolded hp, OF fresh(1) sl_linksD(2) [OF links] npn hh ctx fl fresh(2) [symmetric] hpos]
    by blast
  note fr = tower_frameD [OF ns'(3)]
  have keep: "node_height ns' p = node_height ns p" "node_key ns' p = node_key ns p" "node_value ns' p = node_value ns p"
    if "p \<in> set (?h # as @ bs)" for p
    using old [OF that] unfolding fr(2-4) by (rule fresh(3-5))+
  have maps: "map (node_key ns') as = map (node_key ns) as" "map (node_key ns') bs = map (node_key ns) bs"
    "sl_contents ns' as = sl_contents ns as" "sl_contents ns' bs = sl_contents ns bs"
    using keep by (simp_all add: sl_contents_def)
  have knp: "node_key ns' np = key" using knd fr(3) by simp
  have lk: "sl_links sl' ns' (as @ np # bs)"
  proof (rule linked_upto_links)
    show "linked_upto ns' (sl_head sl') as np bs (node_height ns' np)"
      using ns'(4) fr(2) fresh(2) sl'(1) by simp
    show "\<forall>p \<in> set (as @ np # bs). node_height ns' p \<le> sl_max_level sl'"
      using keep(1) sl_linksD(6) [OF links] sl'(2,4) fr(2) fresh(2) by fastforce
    show "set (sl_head sl' # as @ np # bs) \<subseteq> dom ns'" using old sl'(1) fr(1) by auto
  qed (use ns'(2) sl_linksD(2) [OF links] npn sl'(1,3) hh fr(2) in simp_all)
  have "sorted_wrt lt (map (node_key ns') (as @ np # bs))"
    using sorted_splice [OF srt key as bs new] by (simp add: maps knp)
  then have "sl_sorted valid lt ns' (as @ np # bs)"
    using srt key keep(2) knp by (auto simp: sl_sorted_def)
  moreover have "node_value ns' np = node_value (hp_nodes hp) np" using fr(4) hp by simp
  ultimately show thesis
    using that ns'(1,2) lk fr(1) hp maps knp by simp
qed

end

text \<open>Insertion into a sorted list of entries; an entry with the same key stays.\<close>

fun index_insert :: "(bytes \<Rightarrow> bytes \<Rightarrow> bool) \<Rightarrow> bytes \<Rightarrow> bytes \<Rightarrow> (bytes \<times> bytes) list \<Rightarrow> (bytes \<times> bytes) list" where
  "index_insert lt k v [] = [(k, v)]"
| "index_insert lt k v ((k', v') # es) =
     (if lt k' k then (k', v') # index_insert lt k v es
      else if k' = k then (k', v') # es else (k, v) # (k', v') # es)"

lemma index_insert_split:
  assumes "\<forall>x \<in> set as. lt (node_key ns x) key" and "\<forall>y \<in> set bs. \<not> lt (node_key ns y) key"
  shows "index_insert lt key val (sl_contents ns (as @ bs)) = sl_contents ns as
    @ (if bs \<noteq> [] \<and> node_key ns (hd bs) = key then sl_contents ns bs else (key, val) # sl_contents ns bs)"
  using assms by (induction as) (cases bs, simp_all)

lemma write_node_ok:
  assumes "length (nd_bytes nd) = length key + length val" and "unat (nd_key_len nd) = length key"
    and "unat (nd_value_len nd) = length val"
  shows "do { ns \<leftarrow> write_key np 0 key (ns(np \<mapsto> nd)); write_value np val ns }
      = Some (ns(np \<mapsto> nd\<lparr>nd_bytes := key @ val\<rparr>))"
    and "node_key (ns(np \<mapsto> nd\<lparr>nd_bytes := key @ val\<rparr>)) np = key"
    and "node_value (ns(np \<mapsto> nd\<lparr>nd_bytes := key @ val\<rparr>)) np = val"
  using assms by (simp_all add: write_key_def write_value_def copy_at_def node_key_def node_value_def
      get_key_bytes_def get_value_bytes_def slice_at_def)

definition counted :: "skip_list \<Rightarrow> skip_list" where
  "counted sl = after_draw (sl\<lparr>sl_entries := sl_entries sl + 1\<rparr>)"

lemma counted_simps [simp]:
  "sl_head (counted sl) = sl_head sl" "sl_entries (counted sl) = sl_entries sl + 1"
  "sl_max_level (counted sl) = max (sl_max_level sl) (drawn_height sl)"
  "sl_seed (counted sl) = xorshift (sl_seed sl)"
  by (simp_all add: counted_def after_draw_def drawn_height_def)

lemma random_level_counted:
  assumes "sl_links sl ns ps"
  shows "generate_random_level ns (sl\<lparr>sl_entries := sl_entries sl + 1\<rparr>) = Some (drawn_height sl, counted sl)"
  using generate_random_level_ok [of ns "sl\<lparr>sl_entries := sl_entries sl + 1\<rparr>"] sl_linksD(1,4) [OF assms]
  by (simp add: counted_def drawn_height_def)

lemma unat_drawn_height: "unat (of_nat (drawn_height sl) :: u16) = drawn_height sl"
  using drawn_height_bounds(2) [of sl] by (simp add: unat_of_nat)

lemma unat_length_small: "length xs < 2 ^ LENGTH('a) \<Longrightarrow> unat (of_nat (length xs) :: 'a::len word) = length xs"
  by (simp add: unat_of_nat)

lemma sl_invD:
  assumes "sl_inv valid lt sl hp ps"
  shows "heap_inv hp" and "sl_links sl (hp_nodes hp) ps" and "sl_sorted valid lt (hp_nodes hp) ps"
  using assms by (simp_all add: sl_inv_def)

context comparator
begin

lemma search_split:
  assumes inv: "sl_inv valid lt sl hp ps" and key: "valid key"
  obtains as bs t where "ps = as @ bs" and "\<forall>x \<in> set as. lt (node_key (hp_nodes hp) x) key"
    and "\<forall>y \<in> set bs. \<not> lt (node_key (hp_nodes hp) y) key"
    and "search cmp sl (hp_nodes hp) key = Some t" and "ctx_ok t (sl_head sl) (hp_nodes hp) as bs"
    and "tc_searched_node t = (if bs \<noteq> [] \<and> node_key (hp_nodes hp) (hd bs) = key then Some (hd bs) else None)"
    and "get_at 0 (tc_successors t) = Some (hd_opt bs)"
proof -
  obtain as bs where s: "ps = as @ bs" "\<forall>x \<in> set as. lt (node_key (hp_nodes hp) x) key"
    "\<forall>y \<in> set bs. \<not> lt (node_key (hp_nodes hp) y) key" using sl_split [OF sl_invD(3) [OF inv] key] by blast
  note i = sl_invD(2,3) [OF inv, unfolded s(1)]
  obtain t where t: "search cmp sl (hp_nodes hp) key = Some t"
    "length (tc_predecessors t) = MAX_HEAD_HEIGHT" "length (tc_successors t) = MAX_HEAD_HEIGHT"
    "\<And>l. l < MAX_HEAD_HEIGHT \<Longrightarrow> tc_predecessors t ! l = Some (last (sl_head sl # at_level (hp_nodes hp) l as))"
    "\<And>l. l < MAX_HEAD_HEIGHT \<Longrightarrow> tc_successors t ! l = hd_opt (at_level (hp_nodes hp) l bs)"
    "tc_searched_node t = (if bs \<noteq> [] \<and> node_key (hp_nodes hp) (hd bs) = key then Some (hd bs) else None)"
    using search_ok [OF i key s(2,3)] by blast
  have "at_level (hp_nodes hp) 0 bs = bs" by (rule at_level_0 [OF i(1)]) auto
  then have "get_at 0 (tc_successors t) = Some (hd_opt bs)"
    using t(3,5) by (simp add: get_at_def MAX_HEAD_HEIGHT_def)
  moreover have "ctx_ok t (sl_head sl) (hp_nodes hp) as bs" using t(2-5) by (simp add: ctx_ok_def)
  ultimately show thesis using that s t(1,6) by blast
qed

text \<open>Insertion of a new key and of a key the list already holds.\<close>

lemma insert_found:
  assumes "sl_inv valid lt sl hp ps" and "valid key" and "key \<in> fst ` set (sl_contents (hp_nodes hp) ps)"
  obtains p where "sl_insert cmp base key val sl hp = Some (p, sl, hp)" and "p \<in> set ps"
    and "node_key (hp_nodes hp) p = key"
    and "index_insert lt key val (sl_contents (hp_nodes hp) ps) = sl_contents (hp_nodes hp) ps"
proof -
  obtain as bs t where s: "ps = as @ bs" "\<forall>x \<in> set as. lt (node_key (hp_nodes hp) x) key"
    "\<forall>y \<in> set bs. \<not> lt (node_key (hp_nodes hp) y) key" "search cmp sl (hp_nodes hp) key = Some t"
    "tc_searched_node t = (if bs \<noteq> [] \<and> node_key (hp_nodes hp) (hd bs) = key then Some (hd bs) else None)"
    using search_split [OF assms(1,2)] by blast
  obtain p where p: "p \<in> set ps" "node_key (hp_nodes hp) p = key" using assms(3) by (auto simp: sl_contents_def)
  then have "p \<in> set bs" using s(1,2) lt_irrefl by auto
  then have hd: "bs \<noteq> []" "p = hd bs" using only_head_equal [OF sl_invD(3) [OF assms(1), unfolded s(1)] s(3)] p by auto
  have "sl_insert cmp base key val sl hp = Some (p, sl, hp)"
    using s(4,5) hd p(2) by (simp add: sl_insert_def)
  moreover have "index_insert lt key val (sl_contents (hp_nodes hp) ps) = sl_contents (hp_nodes hp) ps"
    using index_insert_split [where lt = lt, OF s(2,3)] hd p(2) s(1) by simp
  ultimately show thesis using that p by blast
qed

end

text \<open>Allocating a node does not change what the list holds.\<close>

lemma fresh_inv:
  assumes inv: "sl_inv valid lt sl hp ps" and np: "np \<notin> dom (hp_nodes hp)" and nd: "node_ok nd"
    "nd_tower nd = replicate (unat (nd_height nd)) None"
    and hp': "heap_inv hp'" "hp_nodes hp' = (hp_nodes hp)(np \<mapsto> nd)"
  shows "sl_inv valid lt (counted sl) hp' ps" and "sl_contents (hp_nodes hp') ps = sl_contents (hp_nodes hp) ps"
proof -
  let ?ns = "hp_nodes hp" and ?h = "sl_head sl"
  note links = sl_invD(2) [OF inv]
  note fresh = fresh_node [OF sl_linksD(1) [OF links] np nd, folded hp'(2)]
  have old: "p \<in> dom ?ns" if "p \<in> set (?h # ps)" for p using sl_linksD(3) [OF links that] .
  have lev: "at_level (hp_nodes hp') l ps = at_level ?ns l ps" for l
    using old by (intro filter_cong refl) (simp add: fresh(3))
  have "linked (hp_nodes hp') l ?h (at_level ?ns l ps) = linked ?ns l ?h (at_level ?ns l ps)" for l
    by (intro linked_cong fresh(6) old) auto
  then have "\<forall>l < MAX_HEAD_HEIGHT. linked (hp_nodes hp') l ?h (at_level (hp_nodes hp') l ps)"
    unfolding lev using sl_linksD(7) [OF links] by blast
  moreover have "\<forall>p \<in> set ps. node_height (hp_nodes hp') p \<le> sl_max_level (counted sl)"
    using old sl_linksD(6) [OF links] by (auto simp: fresh(3) le_max_iff_disj)
  moreover have "node_height (hp_nodes hp') ?h = MAX_HEAD_HEIGHT"
    using old sl_linksD(4) [OF links] by (simp add: fresh(3))
  moreover have "set (?h # ps) \<subseteq> dom (hp_nodes hp')" using old hp'(2) by auto
  ultimately have "sl_links (counted sl) (hp_nodes hp') ps"
    using fresh(1) sl_linksD(2,5) [OF links] drawn_height_bounds(3) [of sl] by (simp add: sl_links_def)
  moreover have keys: "map (node_key (hp_nodes hp')) ps = map (node_key ?ns) ps"
    "sl_contents (hp_nodes hp') ps = sl_contents ?ns ps"
    using old by (auto simp: fresh(4,5) sl_contents_def)
  moreover have "sl_sorted valid lt (hp_nodes hp') ps"
    using sl_invD(3) [OF inv] old unfolding sl_sorted_def keys(1) by (simp add: fresh(4))
  ultimately show "sl_inv valid lt (counted sl) hp' ps" "sl_contents (hp_nodes hp') ps = sl_contents ?ns ps"
    using hp'(1) by (simp_all add: sl_inv_def)
qed

lemma heap_inv_write:
  assumes "sl_inv valid lt sl hp ps" and "np \<notin> dom (hp_nodes hp)"
    and "heap_inv \<lparr>hp_arena = a, hp_nodes = (hp_nodes hp)(np \<mapsto> nd)\<rparr>"
    and "node_ok nd'" and "nd_tower nd' = replicate (unat (nd_height nd')) None"
  shows "heap_inv \<lparr>hp_arena = a, hp_nodes = (hp_nodes hp)(np \<mapsto> nd')\<rparr>"
proof -
  have "heap_ok ((hp_nodes hp)(np \<mapsto> nd'))"
    using fresh_node(1) [OF sl_linksD(1) [OF sl_invD(2) [OF assms(1)]] assms(2,4,5)] .
  then show ?thesis
    using heap_inv_frame [OF assms(3), of "(hp_nodes hp)(np \<mapsto> nd')"] by simp
qed

text \<open>A closure that writes a key at the start of a node's bytes.\<close>

definition writes_key :: "(node_ptr \<Rightarrow> nodes \<Rightarrow> nodes option) \<Rightarrow> bytes \<Rightarrow> bool" where
  "writes_key f key \<longleftrightarrow> (\<forall>p ns nd. ns p = Some nd \<and> length key \<le> length (nd_bytes nd) \<longrightarrow> f p ns = write_key p 0 key ns)"

context comparator
begin

lemma place_node:
  assumes inv: "sl_inv valid lt sl hp (as @ bs)" and key: "valid key"
    and as: "\<forall>x \<in> set as. lt (node_key (hp_nodes hp) x) key"
    and bs: "\<forall>y \<in> set bs. \<not> lt (node_key (hp_nodes hp) y) key"
    and new: "\<not> (bs \<noteq> [] \<and> node_key (hp_nodes hp) (hd bs) = key)"
    and ctx: "ctx_ok t (sl_head sl) (hp_nodes hp1) as bs"
    and np: "np \<notin> dom (hp_nodes hp)" and nd: "node_ok nd" "nd_tower nd = replicate (unat (nd_height nd)) None"
    and h: "unat (nd_height nd) = drawn_height sl"
    and hp1: "heap_inv hp1" "hp_nodes hp1 = (hp_nodes hp)(np \<mapsto> nd)"
    and kv: "node_key (hp_nodes hp1) np = key" "node_value (hp_nodes hp1) np = val"
  shows "\<exists>hp'. link_node cmp (counted sl) key np (drawn_height sl) t hp1 = Some (np, counted sl, hp')
    \<and> sl_inv valid lt (counted sl) hp' (as @ np # bs)
    \<and> node_key (hp_nodes hp') np = key \<and> node_value (hp_nodes hp') np = val
    \<and> sl_contents (hp_nodes hp') (as @ np # bs) = index_insert lt key val (sl_contents (hp_nodes hp) (as @ bs))"
proof -
  note i = sl_invD(2,3) [OF inv]
  obtain ns' where ns': "link_node cmp (counted sl) key np (unat (nd_height nd)) t hp1
      = Some (np, counted sl, hp1\<lparr>hp_nodes := ns'\<rparr>)"
    "heap_ok ns'" "dom ns' = dom (hp_nodes hp1)" "sl_links (counted sl) ns' (as @ np # bs)"
    "sl_sorted valid lt ns' (as @ np # bs)"
    "sl_contents ns' (as @ np # bs) =
      sl_contents (hp_nodes hp) as @ (key, node_value (hp_nodes hp1) np) # sl_contents (hp_nodes hp) bs"
    by (rule link_fresh [OF i key as bs new _ np nd, of t hp1 "counted sl"])
      (use ctx hp1(2) kv(1) h drawn_height_bounds(3) [of sl] sl_linksD(5) [OF i(1)] in simp_all)
  have "sl_inv valid lt (counted sl) (hp1\<lparr>hp_nodes := ns'\<rparr>) (as @ np # bs)"
    using heap_inv_frame [OF hp1(1) ns'(2,3)] ns'(4,5) by (simp add: sl_inv_def)
  moreover have "node_key ns' np = key" "node_value ns' np = val"
    using ns'(6) kv(2) by (simp_all add: sl_contents_def)
  moreover have "sl_contents ns' (as @ np # bs) = index_insert lt key val (sl_contents (hp_nodes hp) (as @ bs))"
    using ns'(6) kv(2) index_insert_split [where lt = lt, OF as bs] new by simp
  ultimately show ?thesis using ns'(1) h by simp
qed

lemma insert_new:
  assumes inv: "sl_inv valid lt sl hp ps" and key: "valid key"
    and fresh: "key \<notin> fst ` set (sl_contents (hp_nodes hp) ps)" and len: "length key < 2 ^ 16" "length val < 2 ^ 32"
  shows "sl_insert cmp base key val sl hp = None \<and> \<not> node_fits (drawn_height sl) (length key) (length val) (hp_arena hp)
    \<or> (\<exists>p hp' ps'. sl_insert cmp base key val sl hp = Some (p, counted sl, hp')
        \<and> node_fits (drawn_height sl) (length key) (length val) (hp_arena hp)
        \<and> sl_inv valid lt (counted sl) hp' ps' \<and> p \<in> set ps'
        \<and> node_key (hp_nodes hp') p = key \<and> node_value (hp_nodes hp') p = val
        \<and> sl_contents (hp_nodes hp') ps' = index_insert lt key val (sl_contents (hp_nodes hp) ps))"
proof -
  let ?ns = "hp_nodes hp" and ?h = "of_nat (drawn_height sl) :: u16"
  obtain as bs t where s: "ps = as @ bs" "\<forall>x \<in> set as. lt (node_key ?ns x) key"
    "\<forall>y \<in> set bs. \<not> lt (node_key ?ns y) key" "search cmp sl ?ns key = Some t" "ctx_ok t (sl_head sl) ?ns as bs"
    "tc_searched_node t = (if bs \<noteq> [] \<and> node_key ?ns (hd bs) = key then Some (hd bs) else None)"
    using search_split [OF inv key] by blast
  have new: "\<not> (bs \<noteq> [] \<and> node_key ?ns (hd bs) = key)"
    using fresh s(1) hd_in_set [of bs] unfolding sl_contents_keys by auto
  note i = sl_invD(2,3) [OF inv, unfolded s(1)] and hh = drawn_height_bounds [of sl]
  have u: "unat ?h = drawn_height sl" "unat (of_nat (length key) :: u16) = length key"
    "unat (of_nat (length val) :: u32) = length val"
    using len by (simp_all add: unat_drawn_height unat_length_small)
  note step = s(4,6) random_level_counted [OF sl_invD(2) [OF inv]]
  have "unat ?h \<le> MAX_HEAD_HEIGHT" "0 < unat ?h" using hh u(1) by simp_all
  with sl_invD(1) [OF inv] show ?thesis
  proof (cases rule: node_alloc_cases [where k = "of_nat (length key)" and v = "of_nat (length val)" and base = base])
    case full
    then show ?thesis unfolding u using step new hh(3) by (simp add: sl_insert_def Let_def)
  next
    case alloc: (room np a nd)
    note room = alloc [unfolded u]
    let ?nd = "nd\<lparr>nd_bytes := key @ val\<rparr>" and ?sl = "counted sl"
    let ?hp = "\<lparr>hp_arena = a, hp_nodes = ?ns(np \<mapsto> ?nd)\<rparr>"
    have nl: "length (nd_bytes nd) = length key + length val" "unat (nd_key_len nd) = length key"
      "unat (nd_value_len nd) = length val" using room(4,6,7) u by (simp_all add: node_ok_def)
    have nd': "node_ok ?nd" "nd_tower ?nd = replicate (unat (nd_height ?nd)) None"
      using room(4,5,8) nl u(1) by (simp_all add: node_ok_def)
    note w = write_node_ok [OF nl, where np = np and ns = ?ns]
    from w(1) obtain nk where "write_key np 0 key (?ns(np \<mapsto> nd)) = Some nk"
      "write_value np val nk = Some (?ns(np \<mapsto> ?nd))" unfolding bind_eq_Some_conv by blast
    then have link: "sl_insert cmp base key val sl hp = link_node cmp ?sl key np (drawn_height sl) t ?hp"
      using step new hh(3) room(1) by (simp add: sl_insert_def Let_def)
    have "heap_inv ?hp" by (rule heap_inv_write [OF inv room(3,9) nd'])
    then have "\<exists>hp'. link_node cmp ?sl key np (drawn_height sl) t ?hp = Some (np, ?sl, hp')
      \<and> sl_inv valid lt ?sl hp' (as @ np # bs)
      \<and> node_key (hp_nodes hp') np = key \<and> node_value (hp_nodes hp') np = val
      \<and> sl_contents (hp_nodes hp') (as @ np # bs) = index_insert lt key val (sl_contents ?ns (as @ bs))"
      (is "\<exists>hp'. ?P hp'")
      using s(1,5) room(5) u(1) w(2,3) fresh_node_links(1) [OF i(1) room(3) nd']
      by (intro place_node [OF inv [unfolded s(1)] key s(2,3) new _ room(3) nd']) simp_all
    then obtain hp' where "?P hp'" ..
    then show ?thesis
      using room(2) link s(1)
      by (intro disjI2 exI [of _ np] exI [of _ hp'] exI [of _ "as @ np # bs"]) (simp del: sl_contents_simps)
  qed
qed

lemma insert_with_ok:
  assumes inv: "sl_inv valid lt sl hp ps" and key: "valid key" and f: "writes_key f key"
    and len: "length key < 2 ^ 16" "length val < 2 ^ 32"
  shows "insert_with cmp base (of_nat (length key)) val f sl hp = None
      \<and> \<not> node_fits (drawn_height sl) (length key) (length val) (hp_arena hp)
    \<or> (\<exists>p hp' ps'. insert_with cmp base (of_nat (length key)) val f sl hp = Some (p, counted sl, hp')
        \<and> node_fits (drawn_height sl) (length key) (length val) (hp_arena hp)
        \<and> sl_inv valid lt (counted sl) hp' ps' \<and> p \<in> set ps' \<and> node_key (hp_nodes hp') p = key
        \<and> sl_contents (hp_nodes hp') ps' = index_insert lt key val (sl_contents (hp_nodes hp) ps))"
proof -
  let ?ns = "hp_nodes hp" and ?h = "of_nat (drawn_height sl) :: u16" and ?sl = "counted sl"
  note hh = drawn_height_bounds [of sl]
  have u: "unat ?h = drawn_height sl" "unat (of_nat (length key) :: u16) = length key"
    "unat (of_nat (length val) :: u32) = length val"
    using len by (simp_all add: unat_drawn_height unat_length_small)
  note level = random_level_counted [OF sl_invD(2) [OF inv]]
  have "unat ?h \<le> MAX_HEAD_HEIGHT" "0 < unat ?h" using hh u(1) by simp_all
  with sl_invD(1) [OF inv] show ?thesis
  proof (cases rule: node_alloc_cases [where k = "of_nat (length key)" and v = "of_nat (length val)" and base = base])
    case full
    then show ?thesis unfolding u using level hh(3) by (simp add: insert_with_def Let_def)
  next
    case alloc: (room np a nd)
    note room = alloc [unfolded u]
    let ?nd = "nd\<lparr>nd_bytes := key @ val\<rparr>"
    let ?hp = "\<lparr>hp_arena = a, hp_nodes = ?ns(np \<mapsto> ?nd)\<rparr>"
    have nl: "length (nd_bytes nd) = length key + length val" "unat (nd_key_len nd) = length key"
      "unat (nd_value_len nd) = length val" using room(4,6,7) u by (simp_all add: node_ok_def)
    have nd': "node_ok ?nd" "nd_tower ?nd = replicate (unat (nd_height ?nd)) None"
      using room(4,5,8) nl u(1) by (simp_all add: node_ok_def)
    note w = write_node_ok [OF nl, where np = np and ns = ?ns]
    have "f np (?ns(np \<mapsto> nd)) = write_key np 0 key (?ns(np \<mapsto> nd))"
      using f nl(1) unfolding writes_key_def by (metis fun_upd_same le_add1)
    then have wr: "do { ns \<leftarrow> f np (?ns(np \<mapsto> nd)); write_value np val ns } = Some (?ns(np \<mapsto> ?nd))"
      using w(1) by (simp only:)
    have hi: "heap_inv ?hp" by (rule heap_inv_write [OF inv room(3,9) nd'])
    note fi = fresh_inv [OF inv room(3) nd' hi]
    have inv': "sl_inv valid lt ?sl ?hp ps" and cont: "sl_contents (hp_nodes ?hp) ps = sl_contents ?ns ps"
      using fi by simp_all
    obtain as bs t where s: "ps = as @ bs" "\<forall>x \<in> set as. lt (node_key (hp_nodes ?hp) x) key"
      "\<forall>y \<in> set bs. \<not> lt (node_key (hp_nodes ?hp) y) key" "search cmp ?sl (hp_nodes ?hp) key = Some t"
      "ctx_ok t (sl_head ?sl) (hp_nodes ?hp) as bs"
      "tc_searched_node t = (if bs \<noteq> [] \<and> node_key (hp_nodes ?hp) (hd bs) = key then Some (hd bs) else None)"
      using search_split [OF inv' key] by blast
    have ins: "index_insert lt key val (sl_contents ?ns ps) = sl_contents (hp_nodes ?hp) as
        @ (if bs \<noteq> [] \<and> node_key (hp_nodes ?hp) (hd bs) = key then sl_contents (hp_nodes ?hp) bs
           else (key, val) # sl_contents (hp_nodes ?hp) bs)"
      using index_insert_split [where lt = lt, OF s(2,3), of val] s(1) cont by simp
    from wr obtain nk where nk: "f np (?ns(np \<mapsto> nd)) = Some nk" "write_value np val nk = Some (?ns(np \<mapsto> ?nd))"
      unfolding bind_eq_Some_conv by blast
    have gk: "get_key_bytes (?ns(np \<mapsto> ?nd)) np = Some key"
      using w(2) nl by (simp add: get_key_bytes_def slice_at_def)
    have run: "insert_with cmp base (of_nat (length key)) val f sl hp = (case tc_searched_node t of
         Some p \<Rightarrow> Some (p, ?sl, ?hp) | None \<Rightarrow> link_node cmp ?sl key np (drawn_height sl) t ?hp)"
      using level hh(3) room(1) nk gk s(4) by (simp add: insert_with_def Let_def split: option.split)
    show ?thesis
    proof (cases "bs \<noteq> [] \<and> node_key (hp_nodes ?hp) (hd bs) = key")
      case True
      have "insert_with cmp base (of_nat (length key)) val f sl hp = Some (hd bs, ?sl, ?hp)"
        using run s(6) True by simp
      moreover have "sl_contents (hp_nodes ?hp) ps = index_insert lt key val (sl_contents ?ns ps)"
        unfolding ins using s(1) True by simp
      ultimately show ?thesis using inv' True s(1) room(2) hd_in_set [of bs]
        by (intro disjI2 exI [of _ "hd bs"] exI [of _ ?hp] exI [of _ ps]) simp
    next
      case False
      note i = sl_invD(2,3) [OF inv, unfolded s(1)] and frn = fresh_node [OF sl_linksD(1) [OF sl_invD(2) [OF inv]] room(3) nd']
      have same: "node_key (hp_nodes ?hp) x = node_key ?ns x" if "x \<in> set (as @ bs)" for x
        using frn(4) [of x] sl_linksD(3) [OF i(1), of x] that by simp
      have as: "\<forall>x \<in> set as. lt (node_key ?ns x) key" and bs: "\<forall>y \<in> set bs. \<not> lt (node_key ?ns y) key"
        using s(2,3) same by simp_all
      have new: "\<not> (bs \<noteq> [] \<and> node_key ?ns (hd bs) = key)" using False same [of "hd bs"] hd_in_set [of bs] by auto
      have "\<exists>hp'. link_node cmp ?sl key np (drawn_height sl) t ?hp = Some (np, ?sl, hp')
        \<and> sl_inv valid lt ?sl hp' (as @ np # bs)
        \<and> node_key (hp_nodes hp') np = key \<and> node_value (hp_nodes hp') np = val
        \<and> sl_contents (hp_nodes hp') (as @ np # bs) = index_insert lt key val (sl_contents ?ns (as @ bs))"
        (is "\<exists>hp'. ?P hp'")
        using s(1,5) room(5) u(1) w(2,3) hi by (intro place_node [OF inv [unfolded s(1)] key as bs new _ room(3) nd']) simp_all
      then obtain hp' where "?P hp'" ..
      moreover have "insert_with cmp base (of_nat (length key)) val f sl hp = link_node cmp ?sl key np (drawn_height sl) t ?hp"
        unfolding run s(6) if_not_P [OF False] by simp
      ultimately show ?thesis
        using room(2) s(1)
        by (intro disjI2 exI [of _ np] exI [of _ hp'] exI [of _ "as @ np # bs"]) (simp del: sl_contents_simps)
    qed
  qed
qed

end

section \<open>A new list\<close>

lemma linked_empty:
  assumes "heap_ok ns" and "ns p = Some nd" and "nd_tower nd = replicate (unat (nd_height nd)) None"
    and "l < unat (nd_height nd)"
  shows "linked ns l p []"
  using assms load_next_ok [OF assms(1), of p l] by (simp add: node_height_def)

lemma skip_list_new_cases:
  assumes "arena_holds a rs"
  obtains (full) "skip_list_new base a = None" "\<not> node_fits MAX_HEAD_HEIGHT 0 0 a"
    | (room) sl hp where "skip_list_new base a = Some (sl, hp)" "node_fits MAX_HEAD_HEIGHT 0 0 a"
      "sl_inv valid lt sl hp []" "sl_max_level sl = 1" "sl_entries sl = 0" "sl_seed sl = seed_generator 1"
proof -
  let ?hp = "\<lparr>hp_arena = a, hp_nodes = (\<lambda>_. None)\<rparr>" and ?h = "of_nat MAX_HEAD_HEIGHT :: u16"
  have u: "unat ?h = MAX_HEAD_HEIGHT" by (simp add: MAX_HEAD_HEIGHT_def)
  have "heap_inv ?hp" using assms by (auto simp: heap_inv_def heap_ok_def)
  moreover have "unat ?h \<le> MAX_HEAD_HEIGHT" "0 < unat ?h" unfolding u by (simp_all add: MAX_HEAD_HEIGHT_def)
  ultimately show thesis
  proof (cases rule: node_alloc_cases [where k = 0 and v = 0 and base = base])
    case full
    then show thesis unfolding u using that(1) by (simp add: skip_list_new_def)
  next
    case (room p a' nd)
    let ?hp' = "\<lparr>hp_arena = a', hp_nodes = (\<lambda>_. None)(p \<mapsto> nd)\<rparr>"
    let ?sl = "\<lparr>sl_head = p, sl_seed = seed_generator 1, sl_entries = 0, sl_max_level = 1\<rparr>"
    have heap: "heap_ok (hp_nodes ?hp')" using room(9) by (simp add: heap_inv_def)
    have "linked (hp_nodes ?hp') l p []" if "l < MAX_HEAD_HEIGHT" for l
      using linked_empty [OF heap, of p nd l] room(5,8) that u by simp
    moreover have "node_height (hp_nodes ?hp') p = MAX_HEAD_HEIGHT" using room(5) u by (simp add: node_height_def)
    ultimately have "sl_links ?sl (hp_nodes ?hp') []"
      using heap by (auto simp: sl_links_def MAX_HEAD_HEIGHT_def)
    then have "sl_inv valid lt ?sl ?hp' []" using room(9) by (simp add: sl_inv_def sl_sorted_def)
    then show thesis using that(2) [of ?sl ?hp'] room(1,2) u by (simp add: skip_list_new_def)
  qed
qed

section \<open>Iteration\<close>

text \<open>The items of at most \<open>n\<close> calls of \<open>next\<close>, for both iterators.\<close>

fun iter_drain :: "nat \<Rightarrow> nodes \<Rightarrow> node_ptr option \<Rightarrow> node_ptr list option" where
  "iter_drain 0 ns it = Some []"
| "iter_drain (Suc n) ns it =
     do {
       (item, it) \<leftarrow> iter_next ns it;
       case item of None \<Rightarrow> Some [] | Some p \<Rightarrow> map_option ((#) p) (iter_drain n ns it)
     }"

fun range_drain :: "nat \<Rightarrow> nodes \<Rightarrow> range_iter \<Rightarrow> node_ptr list option" where
  "range_drain 0 ns r = Some []"
| "range_drain (Suc n) ns r =
     do {
       (item, r) \<leftarrow> range_next ns r;
       case item of None \<Rightarrow> Some [] | Some p \<Rightarrow> map_option ((#) p) (range_drain n ns r)
     }"

definition within_end :: "bound \<Rightarrow> bytes \<Rightarrow> bool" where
  "within_end b key = (case b of Excluded e \<Rightarrow> key < e | Included e \<Rightarrow> key \<le> e | Unbounded \<Rightarrow> True)"

lemma base_linked: "sl_links sl ns ps \<Longrightarrow> linked ns 0 (sl_head sl) ps"
  using sl_linksD(7) [of sl ns ps 0] at_level_0 [of sl ns ps ps] by (simp add: MAX_HEAD_HEIGHT_def)

lemma base_next:
  assumes "sl_links sl ns (as @ p # bs)"
  shows "load_next ns p 0 = Some (hd_opt bs)"
  using base_linked [OF assms] by (subst (asm) linked_append) (auto intro: linked_head)

lemma iter_drain_ok:
  "sl_links sl ns (as @ bs) \<Longrightarrow> length bs \<le> n \<Longrightarrow> iter_drain n ns (hd_opt bs) = Some bs"
proof (induction n arbitrary: as bs)
  case 0
  then show ?case by simp
next
  case (Suc n)
  show ?case
  proof (cases bs)
    case Nil
    then show ?thesis by (simp add: iter_next_def)
  next
    case (Cons p cs)
    have "iter_drain n ns (hd_opt cs) = Some cs" using Suc.IH [of "as @ [p]" cs] Suc.prems Cons by simp
    moreover have "load_next ns p 0 = Some (hd_opt cs)" using base_next Suc.prems(1) Cons by blast
    ultimately show ?thesis using Cons by (simp add: iter_next_def)
  qed
qed

lemma range_drain_ok:
  "sl_links sl ns (as @ bs) \<Longrightarrow> length bs \<le> n \<Longrightarrow> range_drain n ns \<lparr>ri_start = hd_opt bs, ri_end_bound = e\<rparr>
    = Some (takeWhile (\<lambda>p. within_end e (node_key ns p)) bs)"
proof (induction n arbitrary: as bs)
  case 0
  then show ?case by simp
next
  case (Suc n)
  show ?case
  proof (cases bs)
    case Nil
    then show ?thesis by (simp add: range_next_def)
  next
    case (Cons p cs)
    have rest: "range_drain n ns \<lparr>ri_start = hd_opt cs, ri_end_bound = e\<rparr>
        = Some (takeWhile (\<lambda>p. within_end e (node_key ns p)) cs)"
      using Suc.IH [of "as @ [p]" cs] Suc.prems Cons by simp
    have "get_key_bytes ns p = Some (node_key ns p)"
      using sl_linksD(3) [OF Suc.prems(1), of p] Cons
      by (intro get_bytes_ok(1) sl_linksD(1) [OF Suc.prems(1)]) simp_all
    moreover have "load_next ns p 0 = Some (hd_opt cs)" using base_next Suc.prems(1) Cons by blast
    ultimately show ?thesis
      using Cons rest by (cases e) (auto simp: range_next_def within_end_def)
  qed
qed

lemma sl_iter_ok: "sl_links sl ns ps \<Longrightarrow> sl_iter sl ns = Some (hd_opt ps)"
  unfolding sl_iter_def by (intro linked_head base_linked)

context comparator
begin

lemma dropWhile_split:
  assumes "\<forall>x \<in> set as. lt (node_key ns x) key" and "\<forall>y \<in> set bs. \<not> lt (node_key ns y) key"
  shows "dropWhile (\<lambda>p. lt (node_key ns p) key) (as @ bs) = bs"
  using assms by (cases bs) (simp_all add: dropWhile_append)

lemma search_node_ok:
  assumes "sl_inv valid lt sl hp ps" and "valid key"
  shows "search_node cmp sl (hp_nodes hp) key = Some (hd_opt (dropWhile (\<lambda>p. lt (node_key (hp_nodes hp) p) key) ps))"
    and "sl_seek cmp sl (hp_nodes hp) key = Some (hd_opt (dropWhile (\<lambda>p. lt (node_key (hp_nodes hp) p) key) ps))"
proof -
  obtain as bs t where s: "ps = as @ bs" "\<forall>x \<in> set as. lt (node_key (hp_nodes hp) x) key"
    "\<forall>y \<in> set bs. \<not> lt (node_key (hp_nodes hp) y) key" "search cmp sl (hp_nodes hp) key = Some t"
    "tc_searched_node t = (if bs \<noteq> [] \<and> node_key (hp_nodes hp) (hd bs) = key then Some (hd bs) else None)"
    "get_at 0 (tc_successors t) = Some (hd_opt bs)"
    using search_split [OF assms] by blast
  have bs: "dropWhile (\<lambda>p. lt (node_key (hp_nodes hp) p) key) ps = bs"
    unfolding s(1) by (rule dropWhile_split [OF s(2,3)])
  show "search_node cmp sl (hp_nodes hp) key = Some (hd_opt (dropWhile (\<lambda>p. lt (node_key (hp_nodes hp) p) key) ps))"
    unfolding bs using s(4,6) by (simp add: search_node_def)
  show "sl_seek cmp sl (hp_nodes hp) key = Some (hd_opt (dropWhile (\<lambda>p. lt (node_key (hp_nodes hp) p) key) ps))"
    unfolding bs using s(4-6) by (cases bs) (simp_all add: sl_seek_def)
qed

lemma seek_iter_drain:
  assumes inv: "sl_inv valid lt sl hp ps" and key: "valid key" and "length ps \<le> n"
  shows "\<exists>it. sl_seek cmp sl (hp_nodes hp) key = Some it
    \<and> iter_drain n (hp_nodes hp) it = Some (dropWhile (\<lambda>p. lt (node_key (hp_nodes hp) p) key) ps)"
proof -
  let ?P = "\<lambda>p. lt (node_key (hp_nodes hp) p) key"
  have "sl_links sl (hp_nodes hp) (takeWhile ?P ps @ dropWhile ?P ps)" using sl_invD(2) [OF inv] by simp
  moreover have "length (dropWhile ?P ps) \<le> n" using length_dropWhile_le [of ?P ps] assms(3) by simp
  ultimately have "iter_drain n (hp_nodes hp) (hd_opt (dropWhile ?P ps)) = Some (dropWhile ?P ps)" by (rule iter_drain_ok)
  then show ?thesis using search_node_ok(2) [OF inv key] by simp
qed

lemma range_ok:
  assumes inv: "sl_inv valid lt sl hp ps" and "length ps \<le> n" and "case lo of Unbounded \<Rightarrow> True | Included k \<Rightarrow> valid k | Excluded k \<Rightarrow> valid k"
  shows "\<exists>r. sl_range cmp sl (hp_nodes hp) lo hi = Some r \<and> range_drain n (hp_nodes hp) r =
    Some (takeWhile (\<lambda>p. within_end hi (node_key (hp_nodes hp) p))
      (case lo of Unbounded \<Rightarrow> ps | Included k \<Rightarrow> dropWhile (\<lambda>p. lt (node_key (hp_nodes hp) p) k) ps
       | Excluded k \<Rightarrow> dropWhile (\<lambda>p. lt (node_key (hp_nodes hp) p) k) ps))"
proof -
  note links = sl_invD(2) [OF inv]
  have from_key: "range_drain n (hp_nodes hp) \<lparr>ri_start = hd_opt (dropWhile P ps), ri_end_bound = hi\<rparr>
      = Some (takeWhile (\<lambda>p. within_end hi (node_key (hp_nodes hp) p)) (dropWhile P ps))" for P
    using range_drain_ok [of sl "hp_nodes hp" "takeWhile P ps" "dropWhile P ps" n hi] links assms(2)
      length_dropWhile_le [of P ps] by simp
  show ?thesis
    using assms(3) from_key from_key [of "\<lambda>_. False"] search_node_ok(2) [OF inv] sl_iter_ok [OF links]
    by (cases lo) (simp_all add: sl_range_def)
qed

end

section \<open>The contract of an ordered index\<close>

text \<open>
  What the memtable relies on: an index holds a list of entries sorted by key, \<open>ins\<close> adds an
  entry in its place unless the key is present, and \<open>first_ge\<close> returns the first entry whose
  key is not below a key.
\<close>

locale ordered_index =
  fixes holds :: "'s \<Rightarrow> (bytes \<times> bytes) list \<Rightarrow> bool"
    and valid :: "bytes \<Rightarrow> bool"
    and lt :: "bytes \<Rightarrow> bytes \<Rightarrow> bool"
    and ins :: "bytes \<Rightarrow> bytes \<Rightarrow> 's \<Rightarrow> 's option"
    and first_ge :: "bytes \<Rightarrow> 's \<Rightarrow> (bytes \<times> bytes) option option"
  assumes holds_sorted: "holds s es \<Longrightarrow> sorted_wrt lt (map fst es)"
    and holds_valid: "holds s es \<Longrightarrow> e \<in> set es \<Longrightarrow> valid (fst e)"
    and ins_holds: "holds s es \<Longrightarrow> valid k \<Longrightarrow> length k < 2 ^ 16 \<Longrightarrow> length v < 2 ^ 32 \<Longrightarrow>
      ins k v s = Some s' \<Longrightarrow> holds s' (index_insert lt k v es)"
    and first_ge_eq: "holds s es \<Longrightarrow> valid k \<Longrightarrow>
      first_ge k s = Some (hd_opt (dropWhile (\<lambda>e. lt (fst e) k) es))"
begin

text \<open>The entry found is a held one, not below the key, and every other such entry is above it.\<close>

lemma first_ge_Some:
  assumes "holds s es" and "valid k" and "first_ge k s = Some (Some e)"
  shows "e \<in> set es" and "\<not> lt (fst e) k" and "e' \<in> set es \<Longrightarrow> \<not> lt (fst e') k \<Longrightarrow> e' = e \<or> lt (fst e) (fst e')"
proof -
  let ?P = "\<lambda>e. lt (fst e) k"
  obtain es2 where e: "dropWhile ?P es = e # es2"
    using first_ge_eq [OF assms(1,2)] assms(3) by (auto split: list.splits)
  then have es: "es = takeWhile ?P es @ e # es2" using takeWhile_dropWhile_id [of ?P es] by simp
  show "e \<in> set es" by (subst es) simp
  show "\<not> ?P e" using hd_dropWhile [of ?P es] e by simp
  assume e': "e' \<in> set es" "\<not> ?P e'"
  have "sorted_wrt lt (map fst (takeWhile ?P es @ e # es2))" using holds_sorted [OF assms(1)] es by simp
  then have "\<forall>x \<in> set es2. lt (fst e) (fst x)" by (simp add: sorted_wrt_append)
  moreover have "e' \<in> set (e # es2)" using e' es set_takeWhileD [of e' ?P es] by (metis Un_iff set_append)
  ultimately show "e' = e \<or> lt (fst e) (fst e')" by auto
qed

lemma first_ge_None:
  assumes "holds s es" and "valid k"
  shows "first_ge k s = Some None \<longleftrightarrow> (\<forall>e \<in> set es. lt (fst e) k)"
  unfolding first_ge_eq [OF assms] by (simp only: option.inject hd_opt_Nil_iff dropWhile_eq_Nil_conv)

end

text \<open>The skip list under the internal-key comparator is such an index.\<close>

definition sl_holds :: "skip_list \<times> node_heap \<Rightarrow> (bytes \<times> bytes) list \<Rightarrow> bool" where
  "sl_holds = (\<lambda>(sl, hp) es. \<exists>ps. sl_inv ik_valid ik_less sl hp ps \<and> sl_contents (hp_nodes hp) ps = es)"

definition sl_put :: "(nat \<Rightarrow> nat) \<Rightarrow> bytes \<Rightarrow> bytes \<Rightarrow> skip_list \<times> node_heap \<Rightarrow> (skip_list \<times> node_heap) option" where
  "sl_put base key val = (\<lambda>(sl, hp). map_option snd (sl_insert internal_key_compare base key val sl hp))"

definition sl_first_ge :: "bytes \<Rightarrow> skip_list \<times> node_heap \<Rightarrow> (bytes \<times> bytes) option option" where
  "sl_first_ge key = (\<lambda>(sl, hp).
     do {
       p \<leftarrow> search_node internal_key_compare sl (hp_nodes hp) key;
       case p of
         None \<Rightarrow> Some None
       | Some p \<Rightarrow> do { k \<leftarrow> get_key_bytes (hp_nodes hp) p; v \<leftarrow> get_value_bytes (hp_nodes hp) p; Some (Some (k, v)) }
     })"

lemma sl_insert_outcome:
  assumes inv: "sl_inv ik_valid ik_less sl hp ps" and key: "ik_valid key"
    and len: "length key < 2 ^ 16" "length val < 2 ^ 32"
  shows "sl_insert internal_key_compare base key val sl hp = None
      \<and> key \<notin> fst ` set (sl_contents (hp_nodes hp) ps)
      \<and> \<not> node_fits (drawn_height sl) (length key) (length val) (hp_arena hp)
    \<or> (\<exists>p sl' hp' ps'. sl_insert internal_key_compare base key val sl hp = Some (p, sl', hp')
        \<and> (key \<in> fst ` set (sl_contents (hp_nodes hp) ps)
            \<or> node_fits (drawn_height sl) (length key) (length val) (hp_arena hp))
        \<and> sl_inv ik_valid ik_less sl' hp' ps' \<and> p \<in> set ps' \<and> node_key (hp_nodes hp') p = key
        \<and> sl_contents (hp_nodes hp') ps' = index_insert ik_less key val (sl_contents (hp_nodes hp) ps))"
proof (cases "key \<in> fst ` set (sl_contents (hp_nodes hp) ps)")
  case True
  from ik_cmp.insert_found [OF inv key True, of base val] obtain p where
    "sl_insert internal_key_compare base key val sl hp = Some (p, sl, hp)" "p \<in> set ps"
    "node_key (hp_nodes hp) p = key"
    "index_insert ik_less key val (sl_contents (hp_nodes hp) ps) = sl_contents (hp_nodes hp) ps" by blast
  then show ?thesis using inv True by (intro disjI2 exI [of _ p] exI [of _ sl] exI [of _ hp] exI [of _ ps]) simp
next
  case False
  from ik_cmp.insert_new [OF inv key False len, of base] False show ?thesis by blast
qed

lemma hd_opt_map: "hd_opt (map f xs) = map_option f (hd_opt xs)"
  by (cases xs) simp_all

lemma sl_first_ge_ok:
  assumes inv: "sl_inv ik_valid ik_less sl hp ps" and key: "ik_valid key"
  shows "sl_first_ge key (sl, hp) = Some (hd_opt (dropWhile (\<lambda>e. ik_less (fst e) key) (sl_contents (hp_nodes hp) ps)))"
proof -
  let ?ns = "hp_nodes hp" and ?P = "\<lambda>p. ik_less (node_key (hp_nodes hp) p) key"
  note links = sl_invD(2) [OF inv]
  have mem: "p \<in> dom ?ns" if "p \<in> set ps" for p using sl_linksD(3) [OF links, of p] that by simp
  have "dropWhile (\<lambda>e. ik_less (fst e) key) (sl_contents ?ns ps) = sl_contents ?ns (dropWhile ?P ps)"
    by (simp add: sl_contents_def dropWhile_map comp_def)
  moreover have "sl_first_ge key (sl, hp) = Some (hd_opt (sl_contents ?ns (dropWhile ?P ps)))"
  proof (cases "dropWhile ?P ps")
    case Nil
    have "search_node internal_key_compare sl ?ns key = Some None"
      using ik_cmp.search_node_ok(1) [OF inv key] unfolding Nil by simp
    then show ?thesis unfolding Nil by (simp add: sl_first_ge_def)
  next
    case (Cons p qs)
    have "p \<in> dom ?ns" using set_dropWhileD [of p ?P ps] Cons mem by simp
    note gb = get_bytes_ok [OF sl_linksD(1) [OF links] this]
    have "search_node internal_key_compare sl ?ns key = Some (Some p)"
      using ik_cmp.search_node_ok(1) [OF inv key] unfolding Cons by simp
    then show ?thesis unfolding Cons using gb by (simp add: sl_first_ge_def)
  qed
  ultimately show ?thesis by simp
qed

interpretation skip_index: ordered_index sl_holds ik_valid ik_less "sl_put base" sl_first_ge for base
proof
  fix s es assume "sl_holds s es"
  then obtain sl hp ps where s: "s = (sl, hp)" "sl_inv ik_valid ik_less sl hp ps" "sl_contents (hp_nodes hp) ps = es"
    by (auto simp: sl_holds_def)
  then show "sorted_wrt ik_less (map fst es)"
    using sl_invD(3) [OF s(2)] by (auto simp: sl_sorted_def sl_contents_def comp_def)
  show "ik_valid (fst e)" if "e \<in> set es" for e
    using that sl_invD(3) [OF s(2)] s(3) by (auto simp: sl_sorted_def sl_contents_def)
  show "sl_first_ge k s = Some (hd_opt (dropWhile (\<lambda>e. ik_less (fst e) k) es))" if "ik_valid k" for k
    using sl_first_ge_ok [OF s(2) that] s(1,3) by simp
  show "sl_holds s' (index_insert ik_less k v es)"
    if "ik_valid k" "length k < 2 ^ 16" "length v < 2 ^ 32" "sl_put base k v s = Some s'" for k v s'
    using sl_insert_outcome [OF s(2) that(1-3), of base] that(4) s(1,3) by (auto simp: sl_put_def sl_holds_def)
qed

section \<open>Properties\<close>

definition demo_index_arena :: arena where
  "demo_index_arena = \<lparr>ar_current = 0, ar_chunks = [chunk_new 0 (replicate 1024 1)], ar_allocated_bytes = 1024,
     ar_memory_used = 0, ar_allocator = System, ar_policy = \<lparr>block_size = 1024, cap = 4096\<rparr>\<rparr>"

lemma demo_index:
  obtains sl hp where "skip_list_new base demo_index_arena = Some (sl, hp)" and "sl_inv valid lt sl hp []"
proof -
  have "arena_holds demo_index_arena []"
    by (simp add: demo_index_arena_def arena_holds_def arena_ok_def chunk_new_def isize_MAX_def)
  moreover have "node_fits MAX_HEAD_HEIGHT 0 0 demo_index_arena"
    by (simp add: node_fits_def MAX_HEAD_HEIGHT_def demo_index_arena_def)
  ultimately show thesis using that by (elim skip_list_new_cases [where base = base]) auto
qed

lemma skip_list_new_arena:
  assumes "arena_holds a rs" and "fits (node_layout MAX_HEAD_HEIGHT 0 0) (cur_bump a) a"
    and "skip_list_new base a = Some (sl, hp)"
  shows "ar_policy (hp_arena hp) = ar_policy a" and "ar_allocated_bytes (hp_arena hp) = ar_allocated_bytes a"
proof -
  let ?l = "node_layout MAX_HEAD_HEIGHT 0 0"
  have u: "unat (of_nat MAX_HEAD_HEIGHT :: u16) = MAX_HEAD_HEIGHT" by (simp add: MAX_HEAD_HEIGHT_def)
  have a: "arena_ok a" using assms(1) by (simp add: arena_holds_def)
  have lay: "build_layout MAX_HEAD_HEIGHT 0 0 = Inr ?l"
    by (rule build_layout_eq) (simp add: MAX_HEAD_HEIGHT_def isize_MAX_def)
  obtain p a' where raw: "alloc_raw base ?l a = Some (p, a')" "hp_arena hp = a'"
    using assms(3) lay by (auto simp: skip_list_new_def node_alloc_def u split: bind_splits)
  then have "lay_size ?l \<le> block_size (ar_policy a)" by (simp add: alloc_raw_def split: if_splits)
  from alloc_loop_fits [OF a layout_ok_node this assms(2), of base] raw
  have eq: "hp_arena hp = bump_chunk (align_offset (cur_bump a) (lay_align ?l) + lay_size ?l) (lay_size ?l) a"
    by (auto simp: alloc_raw_def split: if_splits)
  show "ar_policy (hp_arena hp) = ar_policy a" "ar_allocated_bytes (hp_arena hp) = ar_allocated_bytes a"
    unfolding eq by (simp_all add: bump_chunk_def)
qed

lemma demo_index_room:
  obtains sl hp where "skip_list_new (\<lambda>_. 0) demo_index_arena = Some (sl, hp)" and "sl_inv ik_valid ik_less sl hp []"
    and "can_grow (hp_arena hp)" and "block_size (ar_policy (hp_arena hp)) = 1024"
proof -
  obtain sl hp where s: "skip_list_new (\<lambda>_. 0) demo_index_arena = Some (sl, hp)" "sl_inv ik_valid ik_less sl hp []"
    by (rule demo_index)
  have "arena_holds demo_index_arena []"
    by (simp add: demo_index_arena_def arena_holds_def arena_ok_def chunk_new_def isize_MAX_def)
  moreover have "fits (node_layout MAX_HEAD_HEIGHT 0 0) (cur_bump demo_index_arena) demo_index_arena"
    using align_offset_zero [of 3] by (simp add: fits_def node_layout_def chunk_new_def demo_index_arena_def MAX_HEAD_HEIGHT_def)
  ultimately have "can_grow (hp_arena hp)" "block_size (ar_policy (hp_arena hp)) = 1024"
    using skip_list_new_arena [OF _ _ s(1)] by (simp_all add: demo_index_arena_def)
  then show thesis using that s by blast
qed

text \<open>An insertion into the new list.\<close>

lemma demo_index_insert:
  assumes "ik_valid key" and "length key = 9" and "length val = 1"
  obtains sl hp p sl' hp' where "skip_list_new (\<lambda>_. 0) demo_index_arena = Some (sl, hp)"
    and "sl_insert internal_key_compare (\<lambda>_. 0) key val sl hp = Some (p, sl', hp')"
    and "sl_inv ik_valid ik_less sl' hp' [p]" and "node_key (hp_nodes hp') p = key"
proof -
  note demo = that
  obtain sl hp where s: "skip_list_new (\<lambda>_. 0) demo_index_arena = Some (sl, hp)" "sl_inv ik_valid ik_less sl hp []"
    "can_grow (hp_arena hp)" "block_size (ar_policy (hp_arena hp)) = 1024" by (rule demo_index_room)
  then have room: "node_fits (drawn_height sl) (length key) (length val) (hp_arena hp)"
    using drawn_height_bounds(2) [of sl] by (simp add: node_fits_def assms(2,3))
  have len: "length key < 2 ^ 16" "length val < 2 ^ 32" by (simp_all add: assms(2,3))
  have found: thesis if r: "sl_insert internal_key_compare (\<lambda>_. 0) key val sl hp = Some (p, sl', hp')"
      "sl_inv ik_valid ik_less sl' hp' ps" "p \<in> set ps" "node_key (hp_nodes hp') p = key"
      and c: "sl_contents (hp_nodes hp') ps = index_insert ik_less key val (sl_contents (hp_nodes hp) [])" for p sl' hp' ps
  proof -
    have "length (sl_contents (hp_nodes hp') ps) = 1" unfolding c by simp
    then have "length ps = 1" by (simp add: sl_contents_def)
    then have "ps = [p]" using r(3) by (cases ps) auto
    then show thesis using demo s(1) r(1,2,4) by blast
  qed
  from sl_insert_outcome [OF s(2) assms(1) len, of "\<lambda>_. 0"] room show thesis
    by (elim disjE exE conjE) (blast | rule found, assumption+)+
qed

text \<open>
  C12.  Insertion implements insertion into a sorted list of entries.  From a well-formed list and
  for a key of fewer than \<open>2 ^ 16\<close> bytes it always returns; it panics exactly when the key is new
  and the arena has no room for its node; otherwise the list is well-formed again, every level links
  exactly the nodes tall enough for it, an entry with an equal key is kept as it is, and a new entry
  stands in its place in the order of the internal-key comparator.
\<close>

theorem skip_list_insert_refines:
  assumes "sl_inv ik_valid ik_less sl hp ps" and "ik_valid key" and "length key < 2 ^ 16" and "length val < 2 ^ 32"
  shows "(sl_insert internal_key_compare base key val sl hp = None \<longleftrightarrow>
      key \<notin> fst ` set (sl_contents (hp_nodes hp) ps)
      \<and> \<not> node_fits (drawn_height sl) (length key) (length val) (hp_arena hp))
    \<and> (\<forall>p sl' hp'. sl_insert internal_key_compare base key val sl hp = Some (p, sl', hp') \<longrightarrow>
      (\<exists>ps'. sl_inv ik_valid ik_less sl' hp' ps' \<and> p \<in> set ps' \<and> node_key (hp_nodes hp') p = key
        \<and> sl_contents (hp_nodes hp') ps' = index_insert ik_less key val (sl_contents (hp_nodes hp) ps)))"
  using sl_insert_outcome [OF assms, of base] by auto

theorem skip_list_insert_refines_witness:
  "\<exists>sl hp. skip_list_new (\<lambda>_. 0) demo_index_arena = Some (sl, hp)
    \<and> (sl_insert internal_key_compare (\<lambda>_. 0) (replicate 9 7) [1] sl hp = None \<longleftrightarrow>
        \<not> node_fits (drawn_height sl) 9 1 (hp_arena hp))"
proof -
  obtain sl hp where s: "skip_list_new (\<lambda>_. 0) demo_index_arena = Some (sl, hp)" "sl_inv ik_valid ik_less sl hp []"
    by (rule demo_index)
  from skip_list_insert_refines [OF s(2), of "replicate 9 7" "[1]" "\<lambda>_. 0"] show ?thesis
    using s(1) by (simp add: ik_valid_def)
qed

text \<open>
  C24.  Iteration: from the iterator of a well-formed list, \<open>next\<close> yields every entry once, in
  increasing key order; from \<open>seek\<close> it yields exactly the entries whose keys are not below the
  key sought.  Both end after as many calls as there are entries.
\<close>

theorem skip_list_iteration:
  assumes "sl_inv ik_valid ik_less sl hp ps" and "ik_valid key" and "length ps \<le> n"
  shows "sorted_wrt ik_less (map (node_key (hp_nodes hp)) ps)
    \<and> (\<exists>it. sl_iter sl (hp_nodes hp) = Some it \<and> iter_drain n (hp_nodes hp) it = Some ps)
    \<and> (\<exists>it. sl_seek internal_key_compare sl (hp_nodes hp) key = Some it
        \<and> iter_drain n (hp_nodes hp) it = Some (filter (\<lambda>p. \<not> ik_less (node_key (hp_nodes hp) p) key) ps))"
proof -
  have srt: "sorted_wrt ik_less (map (node_key (hp_nodes hp)) ps)"
    using sl_invD(3) [OF assms(1)] by (simp add: sl_sorted_def)
  have "iter_drain n (hp_nodes hp) (hd_opt ps) = Some ps"
    using iter_drain_ok [of sl "hp_nodes hp" "[]" ps n] sl_invD(2) [OF assms(1)] assms(3) by simp
  then have all: "\<exists>it. sl_iter sl (hp_nodes hp) = Some it \<and> iter_drain n (hp_nodes hp) it = Some ps"
    using sl_iter_ok [OF sl_invD(2) [OF assms(1)]] by simp
  from sl_invD(3) [OF assms(1)] assms(2) obtain as bs where s: "ps = as @ bs"
    "\<forall>x \<in> set as. ik_less (node_key (hp_nodes hp) x) key" "\<forall>y \<in> set bs. \<not> ik_less (node_key (hp_nodes hp) y) key"
    by (rule ik_cmp.sl_split)
  have "filter (\<lambda>p. \<not> ik_less (node_key (hp_nodes hp) p) key) ps = bs"
    using s by (simp add: filter_True filter_False)
  moreover have "dropWhile (\<lambda>p. ik_less (node_key (hp_nodes hp) p) key) ps = bs"
    unfolding s(1) by (rule ik_cmp.dropWhile_split [OF s(2,3)])
  ultimately show ?thesis
    using srt all ik_cmp.seek_iter_drain [OF assms] by simp
qed

theorem skip_list_iteration_witness:
  "\<exists>sl hp p sl' hp'. skip_list_new (\<lambda>_. 0) demo_index_arena = Some (sl, hp)
    \<and> sl_insert internal_key_compare (\<lambda>_. 0) (internal_key [7] 3 IK_Put) [1] sl hp = Some (p, sl', hp')
    \<and> (\<exists>it. sl_iter sl' (hp_nodes hp') = Some it \<and> iter_drain 2 (hp_nodes hp') it = Some [p])
    \<and> (\<exists>it. sl_seek internal_key_compare sl' (hp_nodes hp') (internal_key [5] 3 IK_Put) = Some it
        \<and> iter_drain 2 (hp_nodes hp') it = Some [p])
    \<and> (\<exists>it. sl_seek internal_key_compare sl' (hp_nodes hp') (internal_key [8] 3 IK_Put) = Some it
        \<and> iter_drain 2 (hp_nodes hp') it = Some [])"
proof -
  obtain sl hp p sl' hp' where s: "skip_list_new (\<lambda>_. 0) demo_index_arena = Some (sl, hp)"
    "sl_insert internal_key_compare (\<lambda>_. 0) (internal_key [7] 3 IK_Put) [1] sl hp = Some (p, sl', hp')"
    "sl_inv ik_valid ik_less sl' hp' [p]" "node_key (hp_nodes hp') p = internal_key [7] 3 IK_Put"
    by (rule demo_index_insert [of "internal_key [7] 3 IK_Put" "[1]"]) (simp_all add: ik_valid_internal_key)
  note it = skip_list_iteration [OF s(3) ik_valid_internal_key, of 2]
  show ?thesis
    using s(1,2) it [of "[5]" 3 IK_Put] it [of "[8]" 3 IK_Put] s(4) by (auto simp: ik_less_internal_key)
qed

text \<open>
  Also:  A range scan ends.  Its lower bound is always inclusive, also when it is given as
  \<open>Excluded\<close>, and it stops at the first entry whose key is above the upper bound as a byte
  string: under the default comparator this gives the entries between the bounds.
\<close>

theorem skip_list_range:
  assumes "sl_inv (\<lambda>_. True) (<) sl hp ps" and "length ps \<le> n"
  shows "\<exists>r. sl_range default_compare sl (hp_nodes hp) lo hi = Some r
    \<and> range_drain n (hp_nodes hp) r = Some (filter (\<lambda>p. within_end hi (node_key (hp_nodes hp) p)
        \<and> (case lo of Unbounded \<Rightarrow> True | Included k \<Rightarrow> k \<le> node_key (hp_nodes hp) p
           | Excluded k \<Rightarrow> k \<le> node_key (hp_nodes hp) p)) ps)"
proof -
  let ?ns = "hp_nodes hp"
  have srt: "sorted_wrt (<) (map (node_key ?ns) ps)"
    using sl_invD(3) [OF assms(1)] by (simp add: sl_sorted_def)
  have take: "takeWhile (\<lambda>p. within_end hi (node_key ?ns p)) qs = filter (\<lambda>p. within_end hi (node_key ?ns p)) qs"
    if "sorted_wrt (<) (map (node_key ?ns) qs)" for qs
    using that
  proof (induction qs)
    case (Cons q qs)
    have "\<not> within_end hi (node_key ?ns x)" if "\<not> within_end hi (node_key ?ns q)" "x \<in> set qs" for x
      using Cons.prems that by (cases hi) (fastforce simp: within_end_def)+
    then show ?case using Cons by (simp add: filter_False)
  qed simp
  have drop: "dropWhile (\<lambda>p. node_key ?ns p < k) ps = filter (\<lambda>p. k \<le> node_key ?ns p) ps" for k
    using srt
  proof (induction ps)
    case (Cons q qs)
    have "k \<le> node_key ?ns x" if "\<not> node_key ?ns q < k" "x \<in> set qs" for x
      using Cons.prems that by fastforce
    then show ?case using Cons by (auto simp: filter_True not_less)
  qed simp
  have srt': "sorted_wrt (<) (map (node_key ?ns) (filter P ps))" for P
    using srt by (simp add: sorted_wrt_map sorted_wrt_filter)
  show ?thesis
    using default_cmp.range_ok [OF assms, of lo hi] srt
    by (cases lo) (simp_all add: drop take [OF srt'] take conj_commute)
qed

theorem skip_list_range_witness:
  "\<exists>sl hp r. skip_list_new (\<lambda>_. 0) demo_index_arena = Some (sl, hp)
    \<and> sl_range default_compare sl (hp_nodes hp) (Excluded [1]) Unbounded = Some r \<and> range_drain 3 (hp_nodes hp) r = Some []"
proof -
  obtain sl hp where s: "skip_list_new (\<lambda>_. 0) demo_index_arena = Some (sl, hp)" "sl_inv (\<lambda>_. True) (<) sl hp []"
    by (rule demo_index)
  from skip_list_range [OF s(2), of 3 "Excluded [1]" Unbounded] show ?thesis using s(1) by auto
qed

text \<open>
  Also:  The height of a new node is at least one and at most three whatever the seed, since the
  loop that should lower an unusually tall node to the levels in use tests the address of a slot of
  the sentinel, which is never null, and so always runs down to three: the sentinel's levels above
  the third are never linked.
\<close>

theorem random_level_capped:
  assumes "sl_inv valid lt sl hp ps"
  shows "\<exists>h sl'. generate_random_level (hp_nodes hp) sl = Some (h, sl') \<and> 1 \<le> h \<and> h \<le> 3
    \<and> h = min 3 (trailing_zeros (xorshift (sl_seed sl)) + 1) \<and> sl_seed sl' = xorshift (sl_seed sl)
    \<and> sl_max_level sl' = max (sl_max_level sl) h"
  using generate_random_level_ok [OF sl_linksD(1,4) [OF sl_invD(2) [OF assms]]] drawn_height_bounds [of sl]
  by (auto simp: after_draw_def drawn_height_def)

theorem random_level_capped_witness:
  "\<exists>sl hp h sl'. skip_list_new (\<lambda>_. 0) demo_index_arena = Some (sl, hp)
    \<and> generate_random_level (hp_nodes hp) sl = Some (h, sl') \<and> h \<le> 3"
proof -
  obtain sl hp where s: "skip_list_new (\<lambda>_. 0) demo_index_arena = Some (sl, hp)" "sl_inv ik_valid ik_less sl hp []"
    by (rule demo_index)
  from random_level_capped [OF s(2)] show ?thesis using s(1) by auto
qed

text \<open>
  C33.  The key length is kept in sixteen bits.  For a new key of \<open>2 ^ 16\<close> bytes or more the node is laid out for
  the length modulo \<open>2 ^ 16\<close>: the insertion is out of room exactly when a node of that size does not
  fit the arena, and when it does fit, the copy of the key runs past the node exactly when the value is shorter than what the
  truncation cut off.  With such a value, in particular with any value below \<open>2 ^ 16\<close> bytes, the insertion
  never succeeds.  A user key within the documented limit of 65535 bytes reaches this length with its trailer.
\<close>

theorem insert_oversized_key:
  assumes inv: "sl_inv ik_valid ik_less sl hp ps" and len: "2 ^ 16 \<le> length key" "length val < 2 ^ 32"
    and new: "key \<notin> fst ` set (sl_contents (hp_nodes hp) ps)"
  defines "k \<equiv> length key mod 2 ^ 16" and "h \<equiv> drawn_height sl"
  shows "(\<not> node_fits h k (length val) (hp_arena hp) \<longrightarrow>
        node_alloc base (of_nat h) (of_nat (length key)) (of_nat (length val)) hp = None
        \<and> sl_insert internal_key_compare base key val sl hp = None)
    \<and> (node_fits h k (length val) (hp_arena hp) \<longrightarrow>
        (\<exists>np hp'. node_alloc base (of_nat h) (of_nat (length key)) (of_nat (length val)) hp = Some (np, hp')
          \<and> (write_key np 0 key (hp_nodes hp') = None \<longleftrightarrow> length val < length key - k)))
    \<and> (length val < length key - k \<longrightarrow> sl_insert internal_key_compare base key val sl hp = None)"
proof -
  let ?ns = "hp_nodes hp" and ?h = "of_nat (drawn_height sl) :: u16"
  let ?k = "of_nat (length key) :: u16" and ?v = "of_nat (length val) :: u32"
  have key: "ik_valid key" using len(1) by (simp add: ik_valid_def)
  obtain as bs t where s: "ps = as @ bs" "search internal_key_compare sl ?ns key = Some t"
    "tc_searched_node t = (if bs \<noteq> [] \<and> node_key ?ns (hd bs) = key then Some (hd bs) else None)"
    using ik_cmp.search_split [OF inv key] by blast
  then have t: "tc_searched_node t = None"
    using new hd_in_set [of bs] unfolding sl_contents_keys by auto
  have u: "unat ?k = k" "unat ?v = length val" using len(2) by (simp_all add: unat_of_nat k_def)
  have uh: "unat ?h = h" unfolding h_def by (rule unat_drawn_height)
  have kl: "k \<le> length key" by (simp add: k_def)
  note level = random_level_counted [OF sl_invD(2) [OF inv]]
  have "unat ?h \<le> MAX_HEAD_HEIGHT" "0 < unat ?h"
    using drawn_height_bounds [of sl] by (simp_all add: unat_drawn_height)
  with sl_invD(1) [OF inv] show ?thesis
  proof (cases rule: node_alloc_cases [where k = ?k and v = ?v and base = base])
    case full
    then show ?thesis using s(2) t level unfolding u uh by (simp add: sl_insert_def Let_def h_def)
  next
    case (room np a nd)
    have over: "write_key np 0 key (?ns(np \<mapsto> nd)) = None \<longleftrightarrow> length val < length key - k"
      using room(4,6,7) u kl by (auto simp: write_key_def copy_at_def node_ok_def)
    moreover have "sl_insert internal_key_compare base key val sl hp = None" if "length val < length key - k"
    proof -
      have "write_key np 0 key (?ns(np \<mapsto> nd)) = None" using over that by simp
      then show ?thesis using s(2) t level room(1) by (simp add: sl_insert_def Let_def)
    qed
    ultimately show ?thesis using room(1,2) unfolding u uh by (auto simp: h_def)
  qed
qed

text \<open>A key of \<open>2 ^ 16\<close> bytes in the arena with blocks of 1024: the node fits, the copy does not.\<close>

theorem insert_oversized_key_witness:
  "\<exists>sl hp np hp'. skip_list_new (\<lambda>_. 0) demo_index_arena = Some (sl, hp)
    \<and> node_alloc (\<lambda>_. 0) (of_nat (drawn_height sl)) (of_nat (length (replicate 65536 (7 :: byte)))) (of_nat (length [1 :: byte])) hp
        = Some (np, hp')
    \<and> write_key np 0 (replicate 65536 7) (hp_nodes hp') = None
    \<and> sl_insert internal_key_compare (\<lambda>_. 0) (replicate 65536 7) [1] sl hp = None"
proof -
  obtain sl hp where s: "skip_list_new (\<lambda>_. 0) demo_index_arena = Some (sl, hp)" "sl_inv ik_valid ik_less sl hp []"
    "can_grow (hp_arena hp)" "block_size (ar_policy (hp_arena hp)) = 1024" by (rule demo_index_room)
  then have "node_fits (drawn_height sl) 0 1 (hp_arena hp)" using drawn_height_bounds(2) [of sl] by (simp add: node_fits_def)
  then show ?thesis
    using insert_oversized_key [OF s(2), of "replicate 65536 7" "[1]" "\<lambda>_. 0"] s(1) by auto
qed

end
