(* ===== verification/Memtable.thy ===== *)
theory Memtable
  imports Skip_List_Index
begin

text \<open>
  The memtable of \<open>crates/engine/src/memtable/memtable.rs\<close> over the skip list and its arena:
  point reads, both insertion paths and the internal iterator.  The comparator trait object is the
  argument \<open>cmp\<close>; the typestate wrappers \<open>Memtable<S>\<close> add no state to
  \<open>MemtableInner\<close>, so their operations are those of the inner table.
\<close>

section \<open>Definitions\<close>

datatype mem_life_cycle = ML_Active | ML_Freezing | ML_Frozen | ML_Flushing | ML_Flushed

primrec mem_life_cycle_u8 :: "mem_life_cycle \<Rightarrow> byte" where
  "mem_life_cycle_u8 ML_Active = 1"
| "mem_life_cycle_u8 ML_Freezing = 2"
| "mem_life_cycle_u8 ML_Frozen = 3"
| "mem_life_cycle_u8 ML_Flushing = 4"
| "mem_life_cycle_u8 ML_Flushed = 5"

definition mem_life_cycle_from_u8 :: "byte \<Rightarrow> mem_life_cycle option" where
  "mem_life_cycle_from_u8 v =
     (if v = 1 then Some ML_Active
      else if v = 2 then Some ML_Freezing
      else if v = 3 then Some ML_Frozen
      else if v = 4 then Some ML_Flushing
      else if v = 5 then Some ML_Flushed
      else None)"

primrec mem_life_cycle_display :: "mem_life_cycle \<Rightarrow> string" where
  "mem_life_cycle_display ML_Active = ''Active''"
| "mem_life_cycle_display ML_Freezing = ''Freezing''"
| "mem_life_cycle_display ML_Frozen = ''Frozen''"
| "mem_life_cycle_display ML_Flushing = ''Flushing''"
| "mem_life_cycle_display ML_Flushed = ''Flushed''"

datatype mem_return = MR_NotFound | MR_Merge | MR_Deleted | MR_Value bytes

text \<open>The arena of the table is the one inside the node heap.\<close>

record memtable_inner =
  mt_id :: u64
  mt_highest_seqno :: u64
  mt_size :: u64
  mt_requested_rotation :: bool
  mt_lifecycle :: byte
  mt_heap :: node_heap
  mt_skiplist :: skip_list

definition memtable_inner_new :: "(nat \<Rightarrow> nat) \<Rightarrow> u64 \<Rightarrow> arena_policy \<Rightarrow> allocator \<Rightarrow> memtable_inner option" where
  "memtable_inner_new base mem_id policy allocator =
     do {
       a \<leftarrow> arena_new base policy allocator;
       (skiplist, hp) \<leftarrow> skip_list_new base a;
       Some \<lparr>mt_id = mem_id, mt_highest_seqno = 0, mt_size = 0, mt_requested_rotation = False,
             mt_lifecycle = mem_life_cycle_u8 ML_Active, mt_heap = hp, mt_skiplist = skiplist\<rparr>
     }"

definition memtable_inner_display :: "memtable_inner \<Rightarrow> string option" where
  "memtable_inner_display m =
     do {
       l \<leftarrow> mem_life_cycle_from_u8 (mt_lifecycle m);
       Some (''{ lifecycle: '' @ mem_life_cycle_display l @ '' }'')
     }"

definition first_ge :: "comparator_fn \<Rightarrow> bytes \<Rightarrow> memtable_inner \<Rightarrow> (bytes \<times> bytes) option option" where
  "first_ge cmp key m =
     do {
       t \<leftarrow> search cmp (mt_skiplist m) (hp_nodes (mt_heap m)) key;
       node \<leftarrow> get_at 0 (tc_successors t);
       case node of
         None \<Rightarrow> Some None
       | Some p \<Rightarrow>
           do {
             k \<leftarrow> get_key_bytes (hp_nodes (mt_heap m)) p;
             v \<leftarrow> get_value_bytes (hp_nodes (mt_heap m)) p;
             Some (Some (k, v))
           }
     }"

definition memtable_insert ::
  "comparator_fn \<Rightarrow> (nat \<Rightarrow> nat) \<Rightarrow> bytes \<Rightarrow> bytes \<Rightarrow> memtable_inner \<Rightarrow> memtable_inner option" where
  "memtable_insert cmp base key val m =
     do {
       (p, sl, hp) \<leftarrow> sl_insert cmp base key val (mt_skiplist m) (mt_heap m);
       Some (m\<lparr>mt_skiplist := sl, mt_heap := hp\<rparr>)
     }"

text \<open>
  The closure of \<open>insert_direct\<close> copies the trailer through a pointer to a temporary that is
  gone by then; \<open>stale\<close> is what that read yields for the array that was there.
\<close>

definition direct_key_writer ::
  "(bytes \<Rightarrow> bytes) \<Rightarrow> bytes \<Rightarrow> u64 \<Rightarrow> internal_key_kind \<Rightarrow> node_ptr \<Rightarrow> nodes \<Rightarrow> nodes option" where
  "direct_key_writer stale user_key seq_no op_type p ns =
     do {
       ns \<leftarrow> write_key p 0 user_key ns;
       trailer \<leftarrow> encode_trailer seq_no op_type;
       write_key p (length user_key) (stale trailer) ns
     }"

definition insert_direct ::
  "comparator_fn \<Rightarrow> (nat \<Rightarrow> nat) \<Rightarrow> (bytes \<Rightarrow> bytes) \<Rightarrow> bytes \<Rightarrow> u64 \<Rightarrow> internal_key_kind \<Rightarrow> bytes
    \<Rightarrow> memtable_inner \<Rightarrow> memtable_inner option" where
  "insert_direct cmp base stale user_key seq_no op_type val m =
     do {
       (p, sl, hp) \<leftarrow> insert_with cmp base (of_nat (length user_key + 8)) val
         (direct_key_writer stale user_key seq_no op_type) (mt_skiplist m) (mt_heap m);
       Some (m\<lparr>mt_skiplist := sl, mt_heap := hp\<rparr>)
     }"

definition memtable_get :: "comparator_fn \<Rightarrow> bytes \<Rightarrow> memtable_inner \<Rightarrow> mem_return option" where
  "memtable_get cmp key m =
     do {
       r \<leftarrow> first_ge cmp key m;
       case r of
         None \<Rightarrow> Some MR_NotFound
       | Some (skip_key, v) \<Rightarrow>
           do {
             sk \<leftarrow> internal_key_ref_from skip_key;
             lookup \<leftarrow> internal_key_ref_from key;
             if ik_user_key sk \<noteq> ik_user_key lookup then Some MR_NotFound
             else (case internal_key_kind_try_from_u8 (ik_op sk) of
                     Inl e \<Rightarrow> None
                   | Inr IK_Put \<Rightarrow> Some (MR_Value v)
                   | Inr IK_Delete \<Rightarrow> Some MR_Deleted
                   | Inr IK_Merge \<Rightarrow> Some MR_Merge
                   | Inr k \<Rightarrow> None)
           }
     }"

subsection \<open>The internal iterator\<close>

record memtable_iterator =
  mi_item :: "node_ptr option"
  mi_current :: "node_ptr option"

definition memtable_iter :: "memtable_inner \<Rightarrow> memtable_iterator option" where
  "memtable_iter m =
     do {
       item \<leftarrow> load_next (hp_nodes (mt_heap m)) (sl_head (mt_skiplist m)) 0;
       Some \<lparr>mi_item = item, mi_current = None\<rparr>
     }"

definition memtable_iter_from :: "comparator_fn \<Rightarrow> bytes \<Rightarrow> memtable_inner \<Rightarrow> memtable_iterator option" where
  "memtable_iter_from cmp key m =
     do {
       item \<leftarrow> search_node cmp (mt_skiplist m) (hp_nodes (mt_heap m)) key;
       Some \<lparr>mi_item = item, mi_current = None\<rparr>
     }"

definition mi_valid :: "memtable_iterator \<Rightarrow> bool" where
  "mi_valid it \<longleftrightarrow> mi_current it \<noteq> None"

definition mi_seek_to_first :: "memtable_inner \<Rightarrow> memtable_iterator \<Rightarrow> memtable_iterator option" where
  "mi_seek_to_first m it =
     do {
       item \<leftarrow> load_next (hp_nodes (mt_heap m)) (sl_head (mt_skiplist m)) 0;
       Some (it\<lparr>mi_item := item, mi_current := item\<rparr>)
     }"

definition mi_seek :: "comparator_fn \<Rightarrow> bytes \<Rightarrow> memtable_inner \<Rightarrow> memtable_iterator \<Rightarrow> memtable_iterator option" where
  "mi_seek cmp key m it =
     do {
       item \<leftarrow> search_node cmp (mt_skiplist m) (hp_nodes (mt_heap m)) key;
       Some (it\<lparr>mi_item := item, mi_current := item\<rparr>)
     }"

definition mi_next :: "memtable_inner \<Rightarrow> memtable_iterator \<Rightarrow> memtable_iterator option" where
  "mi_next m it =
     (case mi_current it of
        Some p \<Rightarrow> do { n \<leftarrow> load_next (hp_nodes (mt_heap m)) p 0; Some (it\<lparr>mi_current := n\<rparr>) }
      | None \<Rightarrow> Some (it\<lparr>mi_current := None\<rparr>))"

definition mi_key :: "memtable_inner \<Rightarrow> memtable_iterator \<Rightarrow> bytes option" where
  "mi_key m it = do { p \<leftarrow> mi_current it; get_key_bytes (hp_nodes (mt_heap m)) p }"

definition mi_value :: "memtable_inner \<Rightarrow> memtable_iterator \<Rightarrow> bytes option" where
  "mi_value m it = do { p \<leftarrow> mi_current it; get_value_bytes (hp_nodes (mt_heap m)) p }"

text \<open>\<open>internal_key\<close> is an \<open>Option\<close> of its own inside the panics.\<close>

definition mi_internal_key :: "memtable_inner \<Rightarrow> memtable_iterator \<Rightarrow> internal_key_ref option option" where
  "mi_internal_key m it =
     (case mi_current it of
        None \<Rightarrow> Some None
      | Some p \<Rightarrow>
          do { k \<leftarrow> get_key_bytes (hp_nodes (mt_heap m)) p; r \<leftarrow> internal_key_ref_from k; Some (Some r) })"

section \<open>The table as an ordered index\<close>

definition mem_holds :: "memtable_inner \<Rightarrow> (bytes \<times> bytes) list \<Rightarrow> bool" where
  "mem_holds m es \<longleftrightarrow> sl_holds (mt_skiplist m, mt_heap m) es"

lemma first_ge_index: "first_ge internal_key_compare key m = sl_first_ge key (mt_skiplist m, mt_heap m)"
  by (simp add: first_ge_def sl_first_ge_def search_node_def)

lemma memtable_insert_index:
  "memtable_insert internal_key_compare base key val m =
     map_option (\<lambda>(sl, hp). m\<lparr>mt_skiplist := sl, mt_heap := hp\<rparr>) (sl_put base key val (mt_skiplist m, mt_heap m))"
  by (simp add: memtable_insert_def sl_put_def map_option.compositionality comp_def case_prod_unfold
      bind_eq_Some_conv split: bind_splits)

interpretation mem_index: ordered_index mem_holds ik_valid ik_less
  "memtable_insert internal_key_compare base" "first_ge internal_key_compare" for base
proof
  fix m es assume h: "mem_holds m es"
  note s = h [unfolded mem_holds_def]
  show "sorted_wrt ik_less (map fst es)" by (rule skip_index.holds_sorted [OF s])
  show "ik_valid (fst e)" if "e \<in> set es" for e by (rule skip_index.holds_valid [OF s that])
  show "first_ge internal_key_compare k m = Some (hd_opt (dropWhile (\<lambda>e. ik_less (fst e) k) es))"
    if "ik_valid k" for k
    unfolding first_ge_index by (rule skip_index.first_ge_eq [OF s that])
  show "mem_holds m' (index_insert ik_less k v es)"
    if "ik_valid k" "length k < 2 ^ 16" "length v < 2 ^ 32" "memtable_insert internal_key_compare base k v m = Some m'"
    for k v m'
    using skip_index.ins_holds [OF s that(1-3)] that(4) unfolding memtable_insert_index mem_holds_def by auto
qed

section \<open>Versions\<close>

text \<open>
  A version of a user key: its sequence number, kind and value; and the entry a memtable keeps
  for it.
\<close>

record version =
  vs_user :: bytes
  vs_seq :: u64
  vs_kind :: internal_key_kind
  vs_value :: bytes

definition version_ok :: "version \<Rightarrow> bool" where
  "version_ok r \<longleftrightarrow> vs_seq r < 2 ^ 56 \<and> vs_kind r \<in> {IK_Put, IK_Delete, IK_Merge}"

definition version_key :: "version \<Rightarrow> bytes" where
  "version_key r = internal_key (vs_user r) (vs_seq r) (vs_kind r)"

definition version_entry :: "version \<Rightarrow> bytes \<times> bytes" where
  "version_entry r = (version_key r, vs_value r)"

text \<open>The versions of a user key a snapshot sees, and what a read of one of them answers.\<close>

definition visible :: "bytes \<Rightarrow> u64 \<Rightarrow> version \<Rightarrow> bool" where
  "visible uk snapshot r \<longleftrightarrow> vs_user r = uk \<and> vs_seq r \<le> snapshot"

definition answer :: "version \<Rightarrow> mem_return" where
  "answer r = (case vs_kind r of IK_Put \<Rightarrow> MR_Value (vs_value r) | IK_Delete \<Rightarrow> MR_Deleted | _ \<Rightarrow> MR_Merge)"

lemma version_entry_simps [simp]:
  "fst (version_entry r) = version_key r" "snd (version_entry r) = vs_value r"
  by (simp_all add: version_entry_def)

lemma ik_valid_version [simp]: "ik_valid (version_key r)"
  by (simp add: version_key_def)

lemma kind_below_Max: "\<not> internal_key_kind_u8 IK_Max < internal_key_kind_u8 k"
  by (cases k) simp_all

lemma version_less_lookup:
  assumes "version_ok r" and "s < 2 ^ 56"
  shows "ik_less (version_key r) (internal_key uk s IK_Max) \<longleftrightarrow>
    vs_user r < uk \<or> vs_user r = uk \<and> s < vs_seq r"
  using assms kind_below_Max [of "vs_kind r"]
  by (auto simp: version_key_def version_ok_def ik_less_internal_key)

lemma version_key_ref:
  "version_ok r \<Longrightarrow> internal_key_ref_from (version_key r)
     = Some \<lparr>ik_user_key = vs_user r, ik_seq_no = vs_seq r, ik_op = internal_key_kind_u8 (vs_kind r)\<rparr>"
  by (simp add: version_ok_def version_key_def internal_key_ref_from_internal_key)

lemma get_entry:
  assumes "first_ge cmp (internal_key uk s k) m = Some (Some (version_entry r))" and "version_ok r" and "s < 2 ^ 56"
  shows "memtable_get cmp (internal_key uk s k) m = Some (if vs_user r = uk then answer r else MR_NotFound)"
  using assms
  by (auto simp: memtable_get_def version_entry_def version_key_ref internal_key_ref_from_internal_key
      internal_key_kind_try_from_u8_u8 version_ok_def answer_def)

text \<open>Of two versions of a user key the later sequence number is newer, and among equal ones the higher kind.\<close>

definition newer :: "version \<Rightarrow> version \<Rightarrow> bool" where
  "newer r r' \<longleftrightarrow> vs_seq r' < vs_seq r
     \<or> vs_seq r' = vs_seq r \<and> internal_key_kind_u8 (vs_kind r') < internal_key_kind_u8 (vs_kind r)"

lemma version_entry_inject:
  assumes "version_entry r = version_entry r'" and "version_ok r" and "version_ok r'"
  shows "r = r'"
proof -
  have k: "version_key r = version_key r'" "vs_value r = vs_value r'" using assms(1) by (simp_all add: version_entry_def)
  then have "vs_user r = vs_user r'" "vs_seq r = vs_seq r'" "internal_key_kind_u8 (vs_kind r) = internal_key_kind_u8 (vs_kind r')"
    using version_key_ref [OF assms(2)] version_key_ref [OF assms(3)] by auto
  moreover from this(3) have "vs_kind r = vs_kind r'" by (cases "vs_kind r"; cases "vs_kind r'") simp_all
  ultimately show ?thesis using k(2) by simp
qed

text \<open>The entry found is the newest of those the snapshot sees.\<close>

lemma get_newest:
  assumes holds: "mem_holds m (map version_entry rs)" and ok: "\<forall>r \<in> set rs. version_ok r" and s: "s < 2 ^ 56"
    and seen: "r \<in> set rs" "visible uk s r"
  obtains r0 where "r0 \<in> set rs" and "visible uk s r0" and "\<forall>r' \<in> set rs. visible uk s r' \<longrightarrow> r' = r0 \<or> newer r0 r'"
    and "memtable_get internal_key_compare (internal_key uk s IK_Max) m = Some (answer r0)"
proof -
  let ?k = "internal_key uk s IK_Max"
  note fg = mem_index.first_ge_Some [OF holds ik_valid_internal_key]
  have notless: "\<not> ik_less (version_key r') ?k" if "r' \<in> set rs" "visible uk s r'" for r'
    using that ok s by (auto simp: version_less_lookup visible_def)
  then obtain e where e: "first_ge internal_key_compare ?k m = Some (Some e)"
    using mem_index.first_ge_None [OF holds ik_valid_internal_key] mem_index.first_ge_eq [OF holds ik_valid_internal_key]
      seen by (metis (no_types, lifting) imageI list.set_map not_None_eq version_entry_simps(1))
  obtain r0 where r0: "r0 \<in> set rs" "e = version_entry r0" using fg(1) [OF e] by auto
  have above: "r' = r0 \<or> ik_less (version_key r0) (version_key r')" if "r' \<in> set rs" "visible uk s r'" for r'
    using fg(3) [OF e, of "version_entry r'"] that notless [OF that] r0 ok version_entry_inject [of r' r0] by auto
  have "\<not> ik_less (version_key r0) ?k" using fg(2) [OF e] r0(2) by simp
  then have vis: "visible uk s r0"
    using above [OF seen] r0(1) ok seen s by (auto simp: version_less_lookup visible_def version_key_def version_ok_def ik_less_internal_key)
  have "r' = r0 \<or> newer r0 r'" if "r' \<in> set rs" "visible uk s r'" for r'
    using above [OF that] that vis r0(1) ok by (auto simp: visible_def version_key_def version_ok_def ik_less_internal_key newer_def)
  moreover have "memtable_get internal_key_compare ?k m = Some (answer r0)"
    using get_entry [of internal_key_compare uk s IK_Max m r0] e r0 vis ok s by (auto simp: visible_def)
  ultimately show thesis using that r0(1) vis by blast
qed

lemma get_visible:
  assumes holds: "mem_holds m (map version_entry rs)" and ok: "\<forall>r \<in> set rs. version_ok r" and s: "s < 2 ^ 56"
    and r: "r \<in> set rs" "visible uk s r" and newest: "\<forall>r' \<in> set rs. visible uk s r' \<longrightarrow> r' = r \<or> vs_seq r' < vs_seq r"
  shows "memtable_get internal_key_compare (internal_key uk s IK_Max) m = Some (answer r)"
proof -
  obtain r0 where r0: "r0 \<in> set rs" "visible uk s r0" "\<forall>r' \<in> set rs. visible uk s r' \<longrightarrow> r' = r0 \<or> newer r0 r'"
    "memtable_get internal_key_compare (internal_key uk s IK_Max) m = Some (answer r0)"
    by (rule get_newest [OF holds ok s r])
  have "r0 = r" using r0(1-3) r newest by (metis newer_def order_less_asym order_less_irrefl)
  then show ?thesis using r0(4) by simp
qed

lemma get_invisible:
  assumes holds: "mem_holds m (map version_entry rs)" and ok: "\<forall>r \<in> set rs. version_ok r" and s: "s < 2 ^ 56"
    and none: "\<forall>r \<in> set rs. \<not> visible uk s r"
  shows "memtable_get internal_key_compare (internal_key uk s IK_Max) m = Some MR_NotFound"
proof -
  let ?k = "internal_key uk s IK_Max"
  obtain e where e: "first_ge internal_key_compare ?k m = Some e"
    using mem_index.first_ge_eq [OF holds ik_valid_internal_key] by blast
  show ?thesis
  proof (cases e)
    case None
    then show ?thesis using e by (simp add: memtable_get_def)
  next
    case (Some x)
    note fg = mem_index.first_ge_Some [OF holds ik_valid_internal_key e [unfolded Some]]
    obtain r0 where r0: "r0 \<in> set rs" "x = version_entry r0" using fg(1) by auto
    have "vs_user r0 \<noteq> uk"
      using fg(2) r0 none ok s by (auto simp: version_less_lookup visible_def not_less)
    then show ?thesis
      using get_entry [of internal_key_compare uk s IK_Max m r0] e Some r0 ok s by simp
  qed
qed

lemma version_key_inject:
  assumes "version_key r = version_key r'" and "version_ok r" and "version_ok r'"
  shows "vs_user r = vs_user r'" and "vs_seq r = vs_seq r'"
  using assms version_key_ref [of r] version_key_ref [of r'] by auto

lemma index_insert_versions:
  assumes "\<forall>r' \<in> set rs. version_key r' \<noteq> version_key r"
  obtains rs' where "index_insert lt (version_key r) (vs_value r) (map version_entry rs) = map version_entry rs'"
    and "set rs' = insert r (set rs)"
  using assms
proof (induction rs arbitrary: thesis)
  case Nil
  show ?case by (rule Nil.prems(1) [of "[r]"]) (simp_all add: version_entry_def)
next
  case (Cons q rs)
  obtain rs' where rs': "index_insert lt (version_key r) (vs_value r) (map version_entry rs) = map version_entry rs'"
    "set rs' = insert r (set rs)" using Cons.IH Cons.prems(2) by auto
  show ?case
  proof (cases "lt (version_key q) (version_key r)")
    case True
    have "index_insert lt (version_key r) (vs_value r) (map version_entry (q # rs)) = map version_entry (q # rs')"
      using True rs'(1) by (simp add: version_entry_def [of q])
    then show ?thesis using Cons.prems(1) [of "q # rs'"] rs'(2) by auto
  next
    case False
    then show ?thesis using Cons.prems(1) [of "r # q # rs"] Cons.prems(2) by (simp add: version_entry_def)
  qed
qed

lemma insert_version:
  assumes holds: "mem_holds m (map version_entry rs)" and ok: "\<forall>r \<in> set rs. version_ok r" and r: "version_ok r"
    and len: "length (vs_user r) + 8 < 2 ^ 16" "length (vs_value r) < 2 ^ 32"
    and newest: "\<forall>r' \<in> set rs. vs_user r' = vs_user r \<longrightarrow> vs_seq r' < vs_seq r"
    and run: "memtable_insert internal_key_compare base (version_key r) (vs_value r) m = Some m'"
  obtains rs' where "mem_holds m' (map version_entry rs')" and "set rs' = insert r (set rs)"
proof -
  have "\<forall>r' \<in> set rs. version_key r' \<noteq> version_key r"
    using newest ok r version_key_inject by (metis less_irrefl)
  then obtain rs' where rs': "index_insert ik_less (version_key r) (vs_value r) (map version_entry rs) = map version_entry rs'"
    "set rs' = insert r (set rs)" by (rule index_insert_versions)
  have "length (version_key r) < 2 ^ 16" using len(1) by (simp add: version_key_def)
  then have "mem_holds m' (map version_entry rs')"
    using mem_index.ins_holds [OF holds ik_valid_version _ len(2) run] rs'(1) by simp
  then show thesis using that rs'(2) by blast
qed

section \<open>Direct insertion\<close>

lemma write_key_twice:
  assumes "ns p = Some nd" and "length (a @ b) \<le> length (nd_bytes nd)"
  shows "do { ns \<leftarrow> write_key p 0 a ns; write_key p (length a) b ns } = write_key p 0 (a @ b) ns"
  using assms by (simp add: write_key_def copy_at_def drop_drop add.commute)

lemma direct_key_writer_writes:
  assumes "seq_no < 2 ^ 56"
  shows "writes_key (direct_key_writer (\<lambda>t. t) user_key seq_no op) (internal_key user_key seq_no op)"
  unfolding writes_key_def
proof (intro allI impI, elim conjE)
  fix p :: node_ptr and ns :: nodes and nd assume nd: "ns p = Some nd" "length (internal_key user_key seq_no op) \<le> length (nd_bytes nd)"
  have "encode_trailer seq_no op = Some (to_be_bytes 8 (trailer_of seq_no op))"
    using assms by (simp add: encode_trailer_eq)
  then show "direct_key_writer (\<lambda>t. t) user_key seq_no op p ns = write_key p 0 (internal_key user_key seq_no op) ns"
    using write_key_twice [of ns p nd user_key "to_be_bytes 8 (trailer_of seq_no op)"] nd
    by (simp add: direct_key_writer_def internal_key_def)
qed

section \<open>Properties\<close>

definition demo_policy :: arena_policy where
  "demo_policy = \<lparr>block_size = 1024, cap = 4096\<rparr>"

lemma memtable_new_holds:
  assumes "0 < block_size pol" and "block_size pol \<le> cap pol" and "cap pol mod block_size pol = 0"
    and "cap pol \<le> isize_MAX" and "72 \<le> block_size pol"
  obtains m where "memtable_inner_new base mem_id pol System = Some m" and "mem_holds m []"
proof -
  obtain a where a: "arena_new base pol System = Some a" "arena_holds a []" "ar_policy a = pol"
    by (rule arena_new_holds [OF assms(1-4)])
  have fresh: "cur_bump a = 0" using a(1) by (auto simp: arena_new_def chunk_new_def split: if_splits bind_splits)
  have "fits (node_layout MAX_HEAD_HEIGHT 0 0) (cur_bump a) a"
    unfolding fresh using assms(5) a(3)
    by (intro fits_fresh layout_ok_node) (simp add: node_layout_def MAX_HEAD_HEIGHT_def)
  then have room: "node_fits MAX_HEAD_HEIGHT 0 0 a" using assms(5) a(3) by (simp add: node_fits_def MAX_HEAD_HEIGHT_def)
  from a(2) show thesis
  proof (cases rule: skip_list_new_cases [where base = base and valid = ik_valid and lt = ik_less])
    case full
    then show thesis using room by simp
  next
    case (room sl hp)
    have "sl_holds (sl, hp) []" using room(3) sl_contents_simps(1) by (auto simp: sl_holds_def)
    then show thesis
      using that a(1) room(1) by (simp add: memtable_inner_new_def mem_holds_def)
  qed
qed

text \<open>The arena of a new table keeps the policy it was made with.\<close>

lemma memtable_new_arena:
  assumes "memtable_inner_new base mem_id pol System = Some m" and "72 \<le> block_size pol"
  shows "ar_policy (hp_arena (mt_heap m)) = pol" and "ar_allocated_bytes (hp_arena (mt_heap m)) = block_size pol"
proof -
  obtain a sl where a: "arena_new base pol System = Some a" "skip_list_new base a = Some (sl, mt_heap m)"
    using assms(1) by (auto simp: memtable_inner_new_def split: bind_splits)
  have pol: "ar_policy a = pol" "ar_allocated_bytes a = block_size pol" and fresh: "cur_bump a = 0"
    using a(1) by (auto simp: arena_new_def chunk_new_def split: if_splits bind_splits)
  have "arena_holds a []"
    using a(1) by (auto simp: arena_new_def allocator_allocate_def arena_holds_def arena_ok_def chunk_new_def split: if_splits)
  moreover have "fits (node_layout MAX_HEAD_HEIGHT 0 0) (cur_bump a) a"
    unfolding fresh using assms(2) pol(1)
    by (intro fits_fresh layout_ok_node) (simp add: node_layout_def MAX_HEAD_HEIGHT_def)
  ultimately show "ar_policy (hp_arena (mt_heap m)) = pol" "ar_allocated_bytes (hp_arena (mt_heap m)) = block_size pol"
    using skip_list_new_arena [OF _ _ a(2)] pol by simp_all
qed

definition demo_version :: version where
  "demo_version = \<lparr>vs_user = [97], vs_seq = 3, vs_kind = IK_Put, vs_value = [1]\<rparr>"

lemma demo_insert:
  obtains m m' where "memtable_inner_new (\<lambda>_. 0) 0 demo_policy System = Some m" and "mem_holds m []"
    and "memtable_insert internal_key_compare (\<lambda>_. 0) (version_key demo_version) (vs_value demo_version) m = Some m'"
proof -
  obtain m where m: "memtable_inner_new (\<lambda>_. 0) 0 demo_policy System = Some m" "mem_holds m []"
    by (rule memtable_new_holds [of demo_policy]) (simp_all add: demo_policy_def isize_MAX_def)
  let ?a = "\<lparr>ar_current = 0, ar_chunks = [chunk_new 0 (replicate 1024 1)], ar_allocated_bytes = 1024,
    ar_memory_used = 0, ar_allocator = System, ar_policy = demo_policy\<rparr>"
  have new: "arena_new (\<lambda>_. 0) demo_policy System = Some ?a"
    by (simp add: arena_new_def demo_policy_def isize_MAX_def allocator_allocate_def)
  have "arena_holds ?a []" by (simp add: arena_holds_def arena_ok_def chunk_new_def demo_policy_def isize_MAX_def)
  moreover have "fits (node_layout MAX_HEAD_HEIGHT 0 0) (cur_bump ?a) ?a"
    using align_offset_zero [of 3]
    by (simp add: fits_def node_layout_def chunk_new_def demo_policy_def MAX_HEAD_HEIGHT_def)
  moreover have "skip_list_new (\<lambda>_. 0) ?a = Some (mt_skiplist m, mt_heap m)"
    using m(1) new by (auto simp: memtable_inner_new_def split: bind_splits)
  ultimately have "can_grow (hp_arena (mt_heap m))" "block_size (ar_policy (hp_arena (mt_heap m))) = 1024"
    using skip_list_new_arena [of ?a "[]" "\<lambda>_. 0" "mt_skiplist m" "mt_heap m"] by (simp_all add: demo_policy_def)
  then have room: "node_fits (drawn_height (mt_skiplist m)) 9 1 (hp_arena (mt_heap m))"
    using drawn_height_bounds(2) [of "mt_skiplist m"] by (simp add: node_fits_def)
  obtain ps where ps: "sl_inv ik_valid ik_less (mt_skiplist m) (mt_heap m) ps"
    using m(2) by (auto simp: mem_holds_def sl_holds_def)
  have "memtable_insert internal_key_compare (\<lambda>_. 0) (version_key demo_version) (vs_value demo_version) m \<noteq> None"
    using sl_insert_outcome [OF ps ik_valid_version, of demo_version "vs_value demo_version" "\<lambda>_. 0"] room
    by (auto simp: memtable_insert_def version_key_def demo_version_def)
  then show thesis using that m by blast
qed

text \<open>
  C3.  Reads are consistent with a snapshot.  A table that holds a set of versions (puts,
  deletions and merges) answers every lookup of a user key at a sequence number \<open>s\<close>: with not found when no
  version of the key is that old, and otherwise with the newest version of that key whose sequence number is
  at most \<open>s\<close> (its value, that it is deleted or that it is a merge operand).  When several kinds share the newest sequence number,
  the one with the highest kind byte is the newest.  The lookup never panics.
\<close>

theorem memtable_get_newest_visible:
  assumes "mem_holds m (map version_entry rs)" and "\<forall>r \<in> set rs. version_ok r" and "s < 2 ^ 56"
  shows "\<exists>ans. memtable_get internal_key_compare (internal_key uk s IK_Max) m = Some ans
    \<and> (if \<exists>r \<in> set rs. visible uk s r
       then \<exists>r \<in> set rs. visible uk s r \<and> ans = answer r \<and> (\<forall>r' \<in> set rs. visible uk s r' \<longrightarrow> r' = r \<or> newer r r')
       else ans = MR_NotFound)"
proof (cases "\<exists>r \<in> set rs. visible uk s r")
  case True
  then obtain r where r: "r \<in> set rs" "visible uk s r" by blast
  obtain r0 where "r0 \<in> set rs" "visible uk s r0" "\<forall>r' \<in> set rs. visible uk s r' \<longrightarrow> r' = r0 \<or> newer r0 r'"
    "memtable_get internal_key_compare (internal_key uk s IK_Max) m = Some (answer r0)"
    by (rule get_newest [OF assms r])
  then show ?thesis using True by auto
next
  case False
  then show ?thesis using get_invisible [OF assms] by auto
qed

text \<open>
  A table with one version inserted, and lookups that see it, come too early for it, and ask for another key.
\<close>

theorem memtable_get_newest_visible_witness:
  "\<exists>m m'. memtable_inner_new (\<lambda>_. 0) 0 demo_policy System = Some m
    \<and> memtable_insert internal_key_compare (\<lambda>_. 0) (version_key demo_version) (vs_value demo_version) m = Some m'
    \<and> memtable_get internal_key_compare (internal_key [97] 8 IK_Max) m' = Some (MR_Value [1])
    \<and> memtable_get internal_key_compare (internal_key [97] 2 IK_Max) m' = Some MR_NotFound
    \<and> memtable_get internal_key_compare (internal_key [98] 8 IK_Max) m' = Some MR_NotFound"
proof -
  obtain m m' where m: "memtable_inner_new (\<lambda>_. 0) 0 demo_policy System = Some m" "mem_holds m []"
    "memtable_insert internal_key_compare (\<lambda>_. 0) (version_key demo_version) (vs_value demo_version) m = Some m'"
    by (rule demo_insert)
  have ok: "version_ok demo_version" by (simp add: demo_version_def version_ok_def)
  obtain rs where rs: "mem_holds m' (map version_entry rs)" "set rs = insert demo_version (set [])"
    by (rule insert_version [of m "[]" demo_version "\<lambda>_. 0" m']) (use m(2,3) ok in \<open>simp_all add: demo_version_def\<close>)
  note get = memtable_get_newest_visible [OF rs(1), unfolded rs(2)]
  show ?thesis
    using m(1,3) get [of 8 "[97]"] get [of 2 "[97]"] get [of 8 "[98]"] ok
    by (simp add: visible_def answer_def demo_version_def)
qed

text \<open>
  Also:  Read your writes: inserting a version newer than every version of its user key keeps the
  table well-formed with exactly that version added, and every later lookup of the key whose snapshot
  covers it answers with it, be it a value, a deletion or a merge operand.
\<close>

theorem memtable_read_your_write:
  assumes "mem_holds m (map version_entry rs)" and "\<forall>r \<in> set rs. version_ok r" and "version_ok r"
    and "length (vs_user r) + 8 < 2 ^ 16" and "length (vs_value r) < 2 ^ 32"
    and "\<forall>r' \<in> set rs. vs_user r' = vs_user r \<longrightarrow> vs_seq r' < vs_seq r"
    and "memtable_insert internal_key_compare base (version_key r) (vs_value r) m = Some m'"
    and "vs_seq r \<le> s" and "s < 2 ^ 56"
  shows "memtable_get internal_key_compare (internal_key (vs_user r) s IK_Max) m' = Some (answer r)
    \<and> (\<exists>rs'. mem_holds m' (map version_entry rs') \<and> set rs' = insert r (set rs))"
proof -
  obtain rs' where rs': "mem_holds m' (map version_entry rs')" "set rs' = insert r (set rs)"
    by (rule insert_version [OF assms(1-7)])
  have "memtable_get internal_key_compare (internal_key (vs_user r) s IK_Max) m' = Some (answer r)"
    using assms(2,3,6,8) rs'(2) by (intro get_visible [OF rs'(1) _ assms(9)]) (auto simp: visible_def)
  then show ?thesis using rs' by blast
qed

theorem memtable_read_your_write_witness:
  "\<exists>m m'. memtable_inner_new (\<lambda>_. 0) 0 demo_policy System = Some m
    \<and> memtable_insert internal_key_compare (\<lambda>_. 0) (version_key demo_version) (vs_value demo_version) m = Some m'
    \<and> memtable_get internal_key_compare (internal_key [97] 8 IK_Max) m' = Some (MR_Value [1])"
proof -
  obtain m m' where m: "memtable_inner_new (\<lambda>_. 0) 0 demo_policy System = Some m" "mem_holds m []"
    "memtable_insert internal_key_compare (\<lambda>_. 0) (version_key demo_version) (vs_value demo_version) m = Some m'"
    by (rule demo_insert)
  have "memtable_get internal_key_compare (internal_key (vs_user demo_version) 8 IK_Max) m' = Some (answer demo_version)"
    using memtable_read_your_write [of m "[]" demo_version "\<lambda>_. 0" m' 8] m(2,3)
    by (simp add: demo_version_def version_ok_def)
  then show ?thesis using m(1,3) by (auto simp: demo_version_def answer_def)
qed

text \<open>
  Also:  If the read through the dangling trailer pointer happens to yield the trailer, direct
  insertion is equivalent to encoding the internal key and inserting it: the tables hold the same entries
  afterwards, whether the key is new or present.  It differs in its failures: it needs room for a node
  even when the key is present.
\<close>

theorem insert_direct_equivalent:
  assumes holds: "mem_holds m es" and seq: "seq_no < 2 ^ 56" and len: "length user_key + 8 < 2 ^ 16" "length val < 2 ^ 32"
  shows "(insert_direct internal_key_compare base (\<lambda>t. t) user_key seq_no op val m = None \<longleftrightarrow>
      \<not> node_fits (drawn_height (mt_skiplist m)) (length user_key + 8) (length val) (hp_arena (mt_heap m)))
    \<and> (\<forall>m'. insert_direct internal_key_compare base (\<lambda>t. t) user_key seq_no op val m = Some m' \<longrightarrow>
      mem_holds m' (index_insert ik_less (internal_key user_key seq_no op) val es)
      \<and> (\<exists>m''. memtable_insert internal_key_compare base (internal_key user_key seq_no op) val m = Some m''
          \<and> mem_holds m'' (index_insert ik_less (internal_key user_key seq_no op) val es)))"
proof -
  let ?key = "internal_key user_key seq_no op" and ?sl = "mt_skiplist m" and ?hp = "mt_heap m"
  obtain ps where ps: "sl_inv ik_valid ik_less ?sl ?hp ps" "sl_contents (hp_nodes ?hp) ps = es"
    using holds by (auto simp: mem_holds_def sl_holds_def)
  have klen: "length ?key < 2 ^ 16" "length ?key = length user_key + 8" using len(1) by simp_all
  let ?run = "insert_with internal_key_compare base (of_nat (length user_key + 8)) val
    (direct_key_writer (\<lambda>t. t) user_key seq_no op) ?sl ?hp"
  note out = ik_cmp.insert_with_ok [OF ps(1) ik_valid_internal_key direct_key_writer_writes [OF seq] klen(1) len(2),
      of base, unfolded klen(2) ps(2)]
  have dir: "insert_direct internal_key_compare base (\<lambda>t. t) user_key seq_no op val m
      = map_option (\<lambda>(p, sl, hp). m\<lparr>mt_skiplist := sl, mt_heap := hp\<rparr>) ?run"
    by (cases ?run) (auto simp: insert_direct_def)
  have ins: "\<exists>m''. memtable_insert internal_key_compare base ?key val m = Some m''
      \<and> mem_holds m'' (index_insert ik_less ?key val es)"
    if "node_fits (drawn_height ?sl) (length user_key + 8) (length val) (hp_arena ?hp)"
  proof -
    have "memtable_insert internal_key_compare base ?key val m \<noteq> None"
      using sl_insert_outcome [OF ps(1) ik_valid_internal_key klen(1) len(2), of base] that klen(2)
      by (auto simp: memtable_insert_def)
    then show ?thesis
      using mem_index.ins_holds [OF holds ik_valid_internal_key klen(1) len(2)] by blast
  qed
  from out show ?thesis
  proof (rule disjE)
    assume "?run = None \<and> \<not> node_fits (drawn_height ?sl) (length user_key + 8) (length val) (hp_arena ?hp)"
    then show ?thesis unfolding dir by simp
  next
    assume "\<exists>p hp' ps'. ?run = Some (p, counted ?sl, hp')
        \<and> node_fits (drawn_height ?sl) (length user_key + 8) (length val) (hp_arena ?hp)
        \<and> sl_inv ik_valid ik_less (counted ?sl) hp' ps' \<and> p \<in> set ps' \<and> node_key (hp_nodes hp') p = ?key
        \<and> sl_contents (hp_nodes hp') ps' = index_insert ik_less ?key val es"
    then obtain p hp' ps' where r: "?run = Some (p, counted ?sl, hp')"
      "node_fits (drawn_height ?sl) (length user_key + 8) (length val) (hp_arena ?hp)"
      "sl_inv ik_valid ik_less (counted ?sl) hp' ps'" "sl_contents (hp_nodes hp') ps' = index_insert ik_less ?key val es"
      by blast
    then have "mem_holds (m\<lparr>mt_skiplist := counted ?sl, mt_heap := hp'\<rparr>) (index_insert ik_less ?key val es)"
      by (auto simp: mem_holds_def sl_holds_def)
    then show ?thesis unfolding dir using r(1,2) ins by simp
  qed
qed

theorem insert_direct_equivalent_witness:
  "\<exists>m. memtable_inner_new (\<lambda>_. 0) 0 demo_policy System = Some m
    \<and> (insert_direct internal_key_compare (\<lambda>_. 0) (\<lambda>t. t) [97] 3 IK_Put [1] m = None \<longleftrightarrow>
        \<not> node_fits (drawn_height (mt_skiplist m)) 9 1 (hp_arena (mt_heap m)))"
proof -
  obtain m where m: "memtable_inner_new (\<lambda>_. 0) 0 demo_policy System = Some m" "mem_holds m []"
    by (rule memtable_new_holds [of demo_policy]) (simp_all add: demo_policy_def isize_MAX_def)
  then show ?thesis
    using insert_direct_equivalent [OF m(2), of 3 "[97]" "[1]" "\<lambda>_. 0" IK_Put] by simp
qed

section \<open>Iteration\<close>

text \<open>The entries an iterator yields until it is no longer valid, in at most \<open>n\<close> steps.\<close>

fun mi_collect :: "nat \<Rightarrow> memtable_inner \<Rightarrow> memtable_iterator \<Rightarrow> (bytes \<times> bytes) list option" where
  "mi_collect 0 m it = Some []"
| "mi_collect (Suc n) m it =
     (if mi_valid it
      then do {
        k \<leftarrow> mi_key m it;
        v \<leftarrow> mi_value m it;
        it \<leftarrow> mi_next m it;
        map_option ((#) (k, v)) (mi_collect n m it)
      }
      else Some [])"

lemma mi_collect_ok:
  "sl_links (mt_skiplist m) (hp_nodes (mt_heap m)) (as @ bs) \<Longrightarrow> length bs \<le> n \<Longrightarrow> mi_current it = hd_opt bs \<Longrightarrow>
    mi_collect n m it = Some (sl_contents (hp_nodes (mt_heap m)) bs)"
proof (induction n arbitrary: as bs it)
  case 0
  then show ?case by simp
next
  case (Suc n)
  show ?case
  proof (cases bs)
    case Nil
    then show ?thesis using Suc.prems(3) by (simp add: mi_valid_def)
  next
    case (Cons p cs)
    let ?ns = "hp_nodes (mt_heap m)"
    have "p \<in> dom ?ns" using sl_linksD(3) [OF Suc.prems(1), of p] Cons by simp
    note gb = get_bytes_ok [OF sl_linksD(1) [OF Suc.prems(1)] this]
    have "load_next ?ns p 0 = Some (hd_opt cs)" using base_next Suc.prems(1) Cons by blast
    moreover have "mi_collect n m (it\<lparr>mi_current := hd_opt cs\<rparr>) = Some (sl_contents ?ns cs)"
      using Suc.IH [of "as @ [p]" cs] Suc.prems Cons by simp
    ultimately show ?thesis
      using gb Cons Suc.prems(3) by (simp add: mi_valid_def mi_key_def mi_value_def mi_next_def)
  qed
qed

text \<open>
  C25.  The internal iterator: after \<open>seek_to_first\<close> it yields every entry in key order and
  after \<open>seek\<close> exactly the entries from the key on, and then becomes invalid.  An iterator just
  made by \<open>iter\<close> or \<open>iter_from\<close> is not valid, wherever it was positioned, and stays so
  under \<open>next\<close>: it must be sought first.
\<close>

theorem memtable_iterator_correct:
  assumes "mem_holds m es" and "ik_valid key" and "length es \<le> n"
  shows "(\<exists>it'. mi_seek_to_first m it = Some it' \<and> mi_collect n m it' = Some es)
    \<and> (\<exists>it'. mi_seek internal_key_compare key m it = Some it'
        \<and> mi_collect n m it' = Some (dropWhile (\<lambda>e. ik_less (fst e) key) es))
    \<and> (\<exists>it0. memtable_iter m = Some it0 \<and> \<not> mi_valid it0 \<and> mi_next m it0 = Some it0)
    \<and> (\<exists>it0. memtable_iter_from internal_key_compare key m = Some it0 \<and> \<not> mi_valid it0 \<and> mi_next m it0 = Some it0)"
proof -
  let ?ns = "hp_nodes (mt_heap m)"
  obtain ps where ps: "sl_inv ik_valid ik_less (mt_skiplist m) (mt_heap m) ps" "sl_contents ?ns ps = es"
    using assms(1) by (auto simp: mem_holds_def sl_holds_def)
  let ?P = "\<lambda>p. ik_less (node_key ?ns p) key"
  note links = sl_invD(2) [OF ps(1)] and sn = ik_cmp.search_node_ok(1) [OF ps(1) assms(2)]
  have len: "length ps \<le> n" using ps(2) assms(3) by (auto simp: sl_contents_def)
  have first: "load_next ?ns (sl_head (mt_skiplist m)) 0 = Some (hd_opt ps)"
    using sl_iter_ok [OF links] by (simp add: sl_iter_def)
  have all: "mi_collect n m (it\<lparr>mi_item := hd_opt ps, mi_current := hd_opt ps\<rparr>) = Some es"
    using mi_collect_ok [of m "[]" ps n] links len ps(2) by simp
  have "dropWhile (\<lambda>e. ik_less (fst e) key) es = sl_contents ?ns (dropWhile ?P ps)"
    using ps(2) by (auto simp: sl_contents_def dropWhile_map comp_def)
  moreover have "mi_collect n m (it\<lparr>mi_item := hd_opt (dropWhile ?P ps), mi_current := hd_opt (dropWhile ?P ps)\<rparr>)
      = Some (sl_contents ?ns (dropWhile ?P ps))"
    using mi_collect_ok [of m "takeWhile ?P ps" "dropWhile ?P ps" n] links len length_dropWhile_le [of ?P ps] by simp
  ultimately show ?thesis
    using first all sn
    by (simp add: mi_seek_to_first_def mi_seek_def memtable_iter_def memtable_iter_from_def mi_valid_def mi_next_def)
qed

text \<open>A table with one version: read from the start, from a later sequence number, and from an earlier one.\<close>

theorem memtable_iterator_correct_witness:
  "\<exists>m m'. memtable_inner_new (\<lambda>_. 0) 0 demo_policy System = Some m
    \<and> memtable_insert internal_key_compare (\<lambda>_. 0) (version_key demo_version) (vs_value demo_version) m = Some m'
    \<and> (\<exists>it'. mi_seek_to_first m' \<lparr>mi_item = None, mi_current = None\<rparr> = Some it'
        \<and> mi_collect 5 m' it' = Some [version_entry demo_version])
    \<and> (\<exists>it'. mi_seek internal_key_compare (internal_key [97] 8 IK_Put) m' \<lparr>mi_item = None, mi_current = None\<rparr> = Some it'
        \<and> mi_collect 5 m' it' = Some [version_entry demo_version])
    \<and> (\<exists>it'. mi_seek internal_key_compare (internal_key [97] 2 IK_Put) m' \<lparr>mi_item = None, mi_current = None\<rparr> = Some it'
        \<and> mi_collect 5 m' it' = Some [])"
proof -
  obtain m m' where m: "memtable_inner_new (\<lambda>_. 0) 0 demo_policy System = Some m" "mem_holds m []"
    "memtable_insert internal_key_compare (\<lambda>_. 0) (version_key demo_version) (vs_value demo_version) m = Some m'"
    by (rule demo_insert)
  have "mem_holds m' [version_entry demo_version]"
    using mem_index.ins_holds [OF m(2) ik_valid_version _ _ m(3)] by (simp add: version_key_def demo_version_def version_entry_def)
  note it = memtable_iterator_correct [OF this, of "internal_key [97] _ IK_Put" 5 "\<lparr>mi_item = None, mi_current = None\<rparr>"]
  have "\<not> ik_less (version_key demo_version) (internal_key [97] 8 IK_Put)" "ik_less (version_key demo_version) (internal_key [97] 2 IK_Put)"
    by (simp_all add: version_key_def demo_version_def ik_less_internal_key)
  then show ?thesis using m(1,3) it [of 8] it [of 2] by auto
qed

end
