(* ===== verification/Skip_List_Conc.thy ===== *)
theory Skip_List_Conc
  imports Skip_List_Index
begin

text \<open>
  The skip list of \<open>mem_skip_list.rs\<close> shared by threads that insert and search at the same time.  The
  operations of \<open>Skip_List\<close> are cut at every access to shared memory: each load of a tower pointer, each
  store into the tower of the new node, each compare-exchange, and the accesses to the counters and the
  seed.  Keys and values are written once, before a node is linked.  \<open>Node::alloc\<close> with the copies into
  the new node is one step: the memory it writes belongs to the caller alone.  The weak
  compare-exchange on the height may fail at any time.  All accesses are sequentially consistent.
\<close>

unbundle bit_operations_syntax

section \<open>Definitions\<close>

datatype conc_op = Op_Insert bytes bytes | Op_Insert_With bytes bytes | Op_Search bytes

fun op_key :: "conc_op \<Rightarrow> bytes" where
  "op_key (Op_Insert k v) = k"
| "op_key (Op_Insert_With k v) = k"
| "op_key (Op_Search k) = k"

fun op_value :: "conc_op \<Rightarrow> bytes" where
  "op_value (Op_Insert k v) = v"
| "op_value (Op_Insert_With k v) = v"
| "op_value (Op_Search k) = []"

definition op_inserts :: "conc_op \<Rightarrow> bool" where
  "op_inserts op \<longleftrightarrow> (case op of Op_Search _ \<Rightarrow> False | _ \<Rightarrow> True)"

text \<open>What a search is for: the first look at the list, the place of a new node of a given height at the
  base, or its place at a higher level.\<close>

datatype purpose = For_Key | For_Base node_ptr nat | For_Level node_ptr nat nat

text \<open>
  Where a thread is.  \<open>C_Search\<close> loads the height of the list, \<open>C_Skip\<close> tests the levels of the head,
  \<open>C_Level\<close> enters a level from a predecessor and \<open>C_Right\<close> moves right along it.  \<open>C_Count\<close> to
  \<open>C_Alloc\<close> make the new node, for a context found before (\<open>insert\<close>) or not yet searched
  (\<open>insert_with\<close>).  \<open>C_Store\<close> and \<open>C_Exchange\<close> link it at a level.
\<close>

datatype conc_pc =
    C_Idle
  | C_Search conc_op purpose
  | C_Skip conc_op purpose nat
  | C_Level conc_op purpose nat node_ptr traversal_ctx
  | C_Right conc_op purpose nat node_ptr "node_ptr option" traversal_ctx
  | C_Count conc_op "traversal_ctx option"
  | C_Seed conc_op "traversal_ctx option"
  | C_Seed_Store conc_op "traversal_ctx option" u64
  | C_Max conc_op "traversal_ctx option" nat
  | C_Max_Exchange conc_op "traversal_ctx option" nat nat
  | C_Alloc conc_op "traversal_ctx option" nat
  | C_Store conc_op node_ptr nat nat traversal_ctx
  | C_Exchange conc_op node_ptr nat nat traversal_ctx
  | C_Return conc_op "node_ptr option"
  | C_Panic conc_op

definition start_ctx :: "skip_list \<Rightarrow> traversal_ctx" where
  "start_ctx sl = traversal_ctx_new\<lparr>tc_predecessors := replicate MAX_HEAD_HEIGHT (Some (sl_head sl))\<rparr>"

text \<open>What follows a finished search.\<close>

definition after_search :: "conc_op \<Rightarrow> purpose \<Rightarrow> traversal_ctx \<Rightarrow> conc_pc" where
  "after_search op pu t =
     (case pu of
        For_Key \<Rightarrow>
          (case op of
             Op_Search _ \<Rightarrow> C_Return op (tc_successors t ! 0)
           | _ \<Rightarrow> (case tc_searched_node t of Some p \<Rightarrow> C_Return op (Some p) | None \<Rightarrow> C_Count op (Some t)))
      | For_Base np h \<Rightarrow>
          (case tc_searched_node t of Some p \<Rightarrow> C_Return op (Some p) | None \<Rightarrow> C_Store op np h 0 t)
      | For_Level np h level \<Rightarrow> C_Store op np h level t)"

definition leave_level ::
  "conc_op \<Rightarrow> purpose \<Rightarrow> nat \<Rightarrow> node_ptr \<Rightarrow> node_ptr option \<Rightarrow> node_ptr option \<Rightarrow> traversal_ctx \<Rightarrow> conc_pc option" where
  "leave_level op pu level pred cur found t =
     do {
       predecessors \<leftarrow> set_at level (Some pred) (tc_predecessors t);
       successors \<leftarrow> set_at level cur (tc_successors t);
       Some (C_Level op pu level pred
         \<lparr>tc_searched_node = found, tc_predecessors = predecessors, tc_successors = successors\<rparr>)
     }"

text \<open>One step of a thread; \<open>None\<close> is a panic.\<close>

fun thread_step ::
  "comparator_fn \<Rightarrow> (nat \<Rightarrow> nat) \<Rightarrow> conc_pc \<Rightarrow> skip_list \<Rightarrow> node_heap \<Rightarrow> (conc_pc \<times> skip_list \<times> node_heap) option" where
  "thread_step cmp base (C_Search op pu) sl hp = Some (C_Skip op pu (sl_max_level sl), sl, hp)"
| "thread_step cmp base (C_Skip op pu 0) sl hp = Some (after_search op pu (start_ctx sl), sl, hp)"
| "thread_step cmp base (C_Skip op pu (Suc level)) sl hp =
     do {
       n \<leftarrow> load_next (hp_nodes hp) (sl_head sl) level;
       Some (if n = None then C_Skip op pu level else C_Level op pu (Suc level) (sl_head sl) (start_ctx sl), sl, hp)
     }"
| "thread_step cmp base (C_Level op pu 0 pred t) sl hp = Some (after_search op pu t, sl, hp)"
| "thread_step cmp base (C_Level op pu (Suc level) pred t) sl hp =
     do {
       cur \<leftarrow> load_next (hp_nodes hp) pred level;
       Some (C_Right op pu level pred cur t, sl, hp)
     }"
| "thread_step cmp base (C_Right op pu level pred None t) sl hp =
     do { pc \<leftarrow> leave_level op pu level pred None (tc_searched_node t) t; Some (pc, sl, hp) }"
| "thread_step cmp base (C_Right op pu level pred (Some c) t) sl hp =
     do {
       node_key \<leftarrow> get_key_bytes (hp_nodes hp) c;
       r \<leftarrow> cmp node_key (op_key op);
       case r of
         Less \<Rightarrow> do { n \<leftarrow> load_next (hp_nodes hp) c level; Some (C_Right op pu level c n t, sl, hp) }
       | Equal \<Rightarrow> do { pc \<leftarrow> leave_level op pu level pred (Some c) (Some c) t; Some (pc, sl, hp) }
       | Greater \<Rightarrow> do { pc \<leftarrow> leave_level op pu level pred (Some c) (tc_searched_node t) t; Some (pc, sl, hp) }
     }"
| "thread_step cmp base (C_Count op t) sl hp = Some (C_Seed op t, sl\<lparr>sl_entries := sl_entries sl + 1\<rparr>, hp)"
| "thread_step cmp base (C_Seed op t) sl hp = Some (C_Seed_Store op t (xorshift (sl_seed sl)), sl, hp)"
| "thread_step cmp base (C_Seed_Store op t x) sl hp =
     do {
       let sl = sl\<lparr>sl_seed := x\<rparr>;
       height \<leftarrow> lower_height (hp_nodes hp) (sl_head sl) (min MAX_HEAD_HEIGHT (trailing_zeros x + 1));
       Some (C_Max op t height, sl, hp)
     }"
| "thread_step cmp base (C_Max op t height) sl hp = Some (C_Max_Exchange op t height (sl_max_level sl), sl, hp)"
| "thread_step cmp base (C_Max_Exchange op t height m) sl hp =
     Some (if height \<le> m then (C_Alloc op t height, sl, hp)
       else if sl_max_level sl = m then (C_Alloc op t height, sl\<lparr>sl_max_level := height\<rparr>, hp)
       else (C_Max_Exchange op t height (sl_max_level sl), sl, hp))"
| "thread_step cmp base (C_Alloc op t height) sl hp =
     do {
       assert_that (height \<le> MAX_HEAD_HEIGHT);
       (np, hp) \<leftarrow> node_alloc base (of_nat height) (of_nat (length (op_key op))) (of_nat (length (op_value op))) hp;
       ns \<leftarrow> write_key np 0 (op_key op) (hp_nodes hp);
       ns \<leftarrow> write_value np (op_value op) ns;
       Some (case t of Some t \<Rightarrow> C_Store op np height 0 t | None \<Rightarrow> C_Search op (For_Base np height),
             sl, hp\<lparr>hp_nodes := ns\<rparr>)
     }"
| "thread_step cmp base (C_Store op np height level t) sl hp =
     do {
       succ \<leftarrow> get_at level (tc_successors t);
       ns \<leftarrow> (case succ of
                None \<Rightarrow> Some (hp_nodes hp)
              | Some q \<Rightarrow> do { slot \<leftarrow> node_next (hp_nodes hp) np level; slot_store slot (Some q) (hp_nodes hp) });
       Some (C_Exchange op np height level t, sl, hp\<lparr>hp_nodes := ns\<rparr>)
     }"
| "thread_step cmp base (C_Exchange op np height level t) sl hp =
     do {
       p \<leftarrow> get_at level (tc_predecessors t);
       p \<leftarrow> p;
       pred \<leftarrow> node_next (hp_nodes hp) p level;
       succ \<leftarrow> get_at level (tc_successors t);
       (linked, ns) \<leftarrow> slot_compare_exchange pred succ (Some np) (hp_nodes hp);
       Some (if \<not> linked then C_Search op (if level = 0 then For_Base np height else For_Level np height level)
         else if Suc level < height then C_Store op np height (Suc level) t
         else C_Return op (Some np), sl, hp\<lparr>hp_nodes := ns\<rparr>)
     }"
| "thread_step cmp base C_Idle sl hp = None"
| "thread_step cmp base (C_Return op r) sl hp = None"
| "thread_step cmp base (C_Panic op) sl hp = None"

fun pc_op :: "conc_pc \<Rightarrow> conc_op option" where
  "pc_op C_Idle = None"
| "pc_op (C_Search op pu) = Some op"
| "pc_op (C_Skip op pu l) = Some op"
| "pc_op (C_Level op pu l p t) = Some op"
| "pc_op (C_Right op pu l p c t) = Some op"
| "pc_op (C_Count op t) = Some op"
| "pc_op (C_Seed op t) = Some op"
| "pc_op (C_Seed_Store op t x) = Some op"
| "pc_op (C_Max op t h) = Some op"
| "pc_op (C_Max_Exchange op t h m) = Some op"
| "pc_op (C_Alloc op t h) = Some op"
| "pc_op (C_Store op np h l t) = Some op"
| "pc_op (C_Exchange op np h l t) = Some op"
| "pc_op (C_Return op r) = Some op"
| "pc_op (C_Panic op) = Some op"

fun running :: "conc_pc \<Rightarrow> bool" where
  "running C_Idle = False"
| "running (C_Return op r) = False"
| "running (C_Panic op) = False"
| "running _ = True"

text \<open>The list, its memory, the threads, and (ghost) the calls made so far.\<close>

record conc_sys =
  cs_list :: skip_list
  cs_heap :: node_heap
  cs_pc :: "conc_pc list"
  cs_calls :: "conc_op list"

definition first_pc :: "conc_op \<Rightarrow> conc_pc" where
  "first_pc op = (case op of Op_Insert_With k v \<Rightarrow> C_Count op None | _ \<Rightarrow> C_Search op For_Key)"

definition op_ok :: "(bytes \<Rightarrow> bool) \<Rightarrow> conc_op \<Rightarrow> bool" where
  "op_ok valid op \<longleftrightarrow> valid (op_key op) \<and> length (op_key op) < 2 ^ 16 \<and> length (op_value op) < 2 ^ 32"

text \<open>A step of thread \<open>i\<close>; threads of \<open>callers\<close> may make a new call when they have returned.\<close>

inductive conc_step ::
  "comparator_fn \<Rightarrow> (nat \<Rightarrow> nat) \<Rightarrow> (bytes \<Rightarrow> bool) \<Rightarrow> nat set \<Rightarrow> nat \<Rightarrow> conc_sys \<Rightarrow> conc_sys \<Rightarrow> bool"
  for cmp base valid callers i s where
  cs_run: "i < length (cs_pc s) \<Longrightarrow> thread_step cmp base (cs_pc s ! i) (cs_list s) (cs_heap s) = Some (pc, sl, hp) \<Longrightarrow>
     conc_step cmp base valid callers i s (s\<lparr>cs_list := sl, cs_heap := hp, cs_pc := (cs_pc s)[i := pc]\<rparr>)"
| cs_panic: "i < length (cs_pc s) \<Longrightarrow> running (cs_pc s ! i) \<Longrightarrow> pc_op (cs_pc s ! i) = Some op \<Longrightarrow>
     thread_step cmp base (cs_pc s ! i) (cs_list s) (cs_heap s) = None \<Longrightarrow>
     conc_step cmp base valid callers i s (s\<lparr>cs_pc := (cs_pc s)[i := C_Panic op]\<rparr>)"
| cs_weak: "i < length (cs_pc s) \<Longrightarrow> cs_pc s ! i = C_Max_Exchange op t h m \<Longrightarrow> m < h \<Longrightarrow>
     conc_step cmp base valid callers i s
       (s\<lparr>cs_pc := (cs_pc s)[i := C_Max_Exchange op t h (sl_max_level (cs_list s))]\<rparr>)"
| cs_call: "i < length (cs_pc s) \<Longrightarrow> i \<in> callers \<Longrightarrow> cs_pc s ! i = C_Idle \<or> cs_pc s ! i = C_Return op' r \<Longrightarrow>
     op_ok valid op \<Longrightarrow>
     conc_step cmp base valid callers i s
       (s\<lparr>cs_pc := (cs_pc s)[i := first_pc op], cs_calls := op # cs_calls s\<rparr>)"

inductive conc_run ::
  "comparator_fn \<Rightarrow> (nat \<Rightarrow> nat) \<Rightarrow> (bytes \<Rightarrow> bool) \<Rightarrow> nat set \<Rightarrow> conc_sys \<Rightarrow> conc_sys \<Rightarrow> bool"
  for cmp base valid callers s0 where
  cs_refl: "conc_run cmp base valid callers s0 s0"
| cs_more: "conc_run cmp base valid callers s0 s \<Longrightarrow> conc_step cmp base valid callers i s t \<Longrightarrow>
     conc_run cmp base valid callers s0 t"

section \<open>Invariant\<close>

text \<open>The nodes linked at each level: every level is a chain from the head, sorted, of nodes tall enough,
  and holds only nodes of the level below.\<close>

type_synonym levels = "nat \<Rightarrow> node_ptr list"

definition levels_ok ::
  "(bytes \<Rightarrow> bool) \<Rightarrow> (bytes \<Rightarrow> bytes \<Rightarrow> bool) \<Rightarrow> skip_list \<Rightarrow> nodes \<Rightarrow> levels \<Rightarrow> bool" where
  "levels_ok valid lt sl ns ls \<longleftrightarrow> heap_ok ns \<and> node_height ns (sl_head sl) = MAX_HEAD_HEIGHT
     \<and> 1 \<le> sl_max_level sl \<and> sl_max_level sl \<le> MAX_HEAD_HEIGHT
     \<and> (\<forall>l < MAX_HEAD_HEIGHT. linked ns l (sl_head sl) (ls l) \<and> sl_sorted valid lt ns (ls l)
          \<and> sl_head sl \<notin> set (ls l) \<and> (\<forall>p \<in> set (ls l). l < node_height ns p \<and> node_height ns p \<le> sl_max_level sl))
     \<and> (\<forall>l. Suc l < MAX_HEAD_HEIGHT \<longrightarrow> set (ls (Suc l)) \<subseteq> set (ls l))"

text \<open>The node a thread is linking, its height and the next level to link.\<close>

fun purpose_own :: "purpose \<Rightarrow> (node_ptr \<times> nat \<times> nat) option" where
  "purpose_own For_Key = None"
| "purpose_own (For_Base np h) = Some (np, h, 0)"
| "purpose_own (For_Level np h l) = Some (np, h, l)"

fun pc_own :: "conc_pc \<Rightarrow> (node_ptr \<times> nat \<times> nat) option" where
  "pc_own (C_Search op pu) = purpose_own pu"
| "pc_own (C_Skip op pu l) = purpose_own pu"
| "pc_own (C_Level op pu l p t) = purpose_own pu"
| "pc_own (C_Right op pu l p c t) = purpose_own pu"
| "pc_own (C_Store op np h l t) = Some (np, h, l)"
| "pc_own (C_Exchange op np h l t) = Some (np, h, l)"
| "pc_own _ = None"

text \<open>That node holds the key and value of the call, is linked exactly below its next level, and points
  from there on to nothing or to nodes behind its key.\<close>

definition own_ok ::
  "(bytes \<Rightarrow> bytes \<Rightarrow> bool) \<Rightarrow> skip_list \<Rightarrow> nodes \<Rightarrow> levels \<Rightarrow> conc_op \<Rightarrow> (node_ptr \<times> nat \<times> nat) option \<Rightarrow> bool" where
  "own_ok lt sl ns ls op ow \<longleftrightarrow> (\<forall>np h lv. ow = Some (np, h, lv) \<longrightarrow>
     op_inserts op \<and> np \<in> dom ns \<and> np \<noteq> sl_head sl \<and> node_height ns np = h \<and> h \<le> sl_max_level sl \<and> lv < h
     \<and> node_key ns np = op_key op \<and> node_value ns np = op_value op
     \<and> (\<forall>l < MAX_HEAD_HEIGHT. np \<in> set (ls l) \<longleftrightarrow> l < lv)
     \<and> (\<forall>l. lv \<le> l \<and> l < h \<longrightarrow> (\<forall>q. load_next ns np l = Some (Some q) \<longrightarrow>
          q \<in> set (ls l) \<and> lt (op_key op) (node_key ns q))))"

text \<open>Its pointer at a level is still null.\<close>

definition null_at :: "nodes \<Rightarrow> (node_ptr \<times> nat \<times> nat) option \<Rightarrow> nat \<Rightarrow> bool" where
  "null_at ns ow l \<longleftrightarrow> (\<forall>np h lv. ow = Some (np, h, lv) \<and> lv \<le> l \<and> l < h \<longrightarrow> load_next ns np l = Some None)"

text \<open>A node whose key is below the key sought.\<close>

definition below ::
  "(bytes \<Rightarrow> bytes \<Rightarrow> bool) \<Rightarrow> skip_list \<Rightarrow> nodes \<Rightarrow> levels \<Rightarrow> bytes \<Rightarrow> nat \<Rightarrow> node_ptr \<Rightarrow> bool" where
  "below lt sl ns ls key l p \<longleftrightarrow> p = sl_head sl \<or> p \<in> set (ls l) \<and> lt (node_key ns p) key"

text \<open>What a context says of a level: the place of the key lay between predecessor and successor.  The
  conditions say when there may be no successor, and when it may have the key itself.\<close>

definition ctx_level ::
  "(bytes \<Rightarrow> bytes \<Rightarrow> bool) \<Rightarrow> skip_list \<Rightarrow> nodes \<Rightarrow> levels \<Rightarrow> bytes \<Rightarrow> traversal_ctx \<Rightarrow> bool \<Rightarrow> bool \<Rightarrow> nat \<Rightarrow> bool" where
  "ctx_level lt sl ns ls key t free equal l \<longleftrightarrow>
     (\<exists>p. tc_predecessors t ! l = Some p \<and> below lt sl ns ls key l p)
     \<and> (case tc_successors t ! l of
          None \<Rightarrow> free
        | Some q \<Rightarrow> q \<in> set (ls l) \<and> (lt key (node_key ns q) \<or> node_key ns q = key \<and> equal))"

definition ctx_frame :: "nodes \<Rightarrow> levels \<Rightarrow> bytes \<Rightarrow> traversal_ctx \<Rightarrow> bool" where
  "ctx_frame ns ls key t \<longleftrightarrow> length (tc_predecessors t) = MAX_HEAD_HEIGHT \<and> length (tc_successors t) = MAX_HEAD_HEIGHT
     \<and> (\<forall>c. tc_searched_node t = Some c \<longrightarrow> c \<in> set (ls 0) \<and> node_key ns c = key)"

definition equal_at :: "purpose \<Rightarrow> traversal_ctx \<Rightarrow> nat \<Rightarrow> bool" where
  "equal_at pu t l \<longleftrightarrow> tc_searched_node t \<noteq> None \<and> (case pu of For_Level np h lv \<Rightarrow> l < lv | _ \<Rightarrow> True)"

text \<open>A search that has finished the levels from \<open>n\<close> up, and a context ready for linking from a level.\<close>

definition ctx_from ::
  "(bytes \<Rightarrow> bytes \<Rightarrow> bool) \<Rightarrow> skip_list \<Rightarrow> nodes \<Rightarrow> levels \<Rightarrow> bytes \<Rightarrow> purpose \<Rightarrow> traversal_ctx \<Rightarrow> nat \<Rightarrow> bool" where
  "ctx_from lt sl ns ls key pu t n \<longleftrightarrow> ctx_frame ns ls key t \<and>
     (\<forall>l. n \<le> l \<and> l < MAX_HEAD_HEIGHT \<longrightarrow> ctx_level lt sl ns ls key t (null_at ns (purpose_own pu) l) (equal_at pu t l) l)"

definition ctx_link ::
  "(bytes \<Rightarrow> bytes \<Rightarrow> bool) \<Rightarrow> skip_list \<Rightarrow> nodes \<Rightarrow> levels \<Rightarrow> bytes \<Rightarrow> (node_ptr \<times> nat \<times> nat) option \<Rightarrow> traversal_ctx \<Rightarrow> nat \<Rightarrow> bool" where
  "ctx_link lt sl ns ls key ow t n \<longleftrightarrow>
     length (tc_predecessors t) = MAX_HEAD_HEIGHT \<and> length (tc_successors t) = MAX_HEAD_HEIGHT
     \<and> (\<forall>l. n \<le> l \<and> l < MAX_HEAD_HEIGHT \<longrightarrow> ctx_level lt sl ns ls key t (null_at ns ow l) False l)"

definition purpose_ok :: "purpose \<Rightarrow> bool" where
  "purpose_ok pu \<longleftrightarrow> (case pu of For_Level np h l \<Rightarrow> 0 < l | _ \<Rightarrow> True)"

fun pc_inv ::
  "(bytes \<Rightarrow> bytes \<Rightarrow> bool) \<Rightarrow> skip_list \<Rightarrow> nodes \<Rightarrow> levels \<Rightarrow> conc_pc \<Rightarrow> bool" where
  "pc_inv lt sl ns ls (C_Search op pu) \<longleftrightarrow> purpose_ok pu"
| "pc_inv lt sl ns ls (C_Skip op pu n) \<longleftrightarrow> purpose_ok pu \<and> n \<le> MAX_HEAD_HEIGHT \<and> (\<forall>l. n \<le> l \<longrightarrow> null_at ns (purpose_own pu) l)"
| "pc_inv lt sl ns ls (C_Level op pu n pred t) \<longleftrightarrow> purpose_ok pu \<and> n \<le> MAX_HEAD_HEIGHT \<and> ctx_from lt sl ns ls (op_key op) pu t n
     \<and> (0 < n \<longrightarrow> below lt sl ns ls (op_key op) (n - 1) pred)"
| "pc_inv lt sl ns ls (C_Right op pu l pred cur t) \<longleftrightarrow> purpose_ok pu \<and> l < MAX_HEAD_HEIGHT \<and> ctx_from lt sl ns ls (op_key op) pu t (Suc l)
     \<and> below lt sl ns ls (op_key op) l pred
     \<and> (case cur of None \<Rightarrow> null_at ns (purpose_own pu) l | Some c \<Rightarrow> c \<in> set (ls l))"
| "pc_inv lt sl ns ls (C_Count op t) \<longleftrightarrow> op_inserts op \<and> (\<forall>u. t = Some u \<longrightarrow> ctx_link lt sl ns ls (op_key op) None u 0)"
| "pc_inv lt sl ns ls (C_Seed op t) \<longleftrightarrow> op_inserts op \<and> (\<forall>u. t = Some u \<longrightarrow> ctx_link lt sl ns ls (op_key op) None u 0)"
| "pc_inv lt sl ns ls (C_Seed_Store op t x) \<longleftrightarrow> op_inserts op \<and> (\<forall>u. t = Some u \<longrightarrow> ctx_link lt sl ns ls (op_key op) None u 0)"
| "pc_inv lt sl ns ls (C_Max op t h) \<longleftrightarrow> op_inserts op \<and> 0 < h \<and> h \<le> MAX_HEAD_HEIGHT
     \<and> (\<forall>u. t = Some u \<longrightarrow> ctx_link lt sl ns ls (op_key op) None u 0)"
| "pc_inv lt sl ns ls (C_Max_Exchange op t h m) \<longleftrightarrow> op_inserts op \<and> 0 < h \<and> h \<le> MAX_HEAD_HEIGHT \<and> m \<le> sl_max_level sl
     \<and> (\<forall>u. t = Some u \<longrightarrow> ctx_link lt sl ns ls (op_key op) None u 0)"
| "pc_inv lt sl ns ls (C_Alloc op t h) \<longleftrightarrow> op_inserts op \<and> 0 < h \<and> h \<le> sl_max_level sl
     \<and> (\<forall>u. t = Some u \<longrightarrow> ctx_link lt sl ns ls (op_key op) None u 0)"
| "pc_inv lt sl ns ls (C_Store op np h l t) \<longleftrightarrow> ctx_link lt sl ns ls (op_key op) (Some (np, h, l)) t l"
| "pc_inv lt sl ns ls (C_Exchange op np h l t) \<longleftrightarrow>
     ctx_link lt sl ns ls (op_key op) (Some (np, h, Suc l)) t l \<and> load_next ns np l = Some (tc_successors t ! l)"
| "pc_inv lt sl ns ls (C_Return op r) \<longleftrightarrow> (\<forall>p. r = Some p \<longrightarrow> p \<in> set (ls 0)
     \<and> (if op_inserts op then node_key ns p = op_key op else \<not> lt (node_key ns p) (op_key op)))
     \<and> (op_inserts op \<longrightarrow> r \<noteq> None)"
| "pc_inv lt sl ns ls _ \<longleftrightarrow> True"

section \<open>Steps of other threads\<close>

text \<open>Nodes stay, with their keys, values and heights; levels only gain nodes; the height of the list only
  grows.\<close>

definition conc_le :: "skip_list \<Rightarrow> nodes \<Rightarrow> levels \<Rightarrow> skip_list \<Rightarrow> nodes \<Rightarrow> levels \<Rightarrow> bool" where
  "conc_le sl ns ls sl' ns' ls' \<longleftrightarrow> sl_head sl' = sl_head sl \<and> sl_max_level sl \<le> sl_max_level sl'
     \<and> (\<forall>l < MAX_HEAD_HEIGHT. set (ls l) \<subseteq> set (ls' l))
     \<and> (\<forall>p \<in> dom ns. p \<in> dom ns' \<and> node_height ns' p = node_height ns p
          \<and> node_key ns' p = node_key ns p \<and> node_value ns' p = node_value ns p)"

text \<open>The part of the tower a thread has still to link is left alone.\<close>

definition own_kept :: "nodes \<Rightarrow> levels \<Rightarrow> nodes \<Rightarrow> levels \<Rightarrow> (node_ptr \<times> nat \<times> nat) option \<Rightarrow> bool" where
  "own_kept ns ls ns' ls' ow \<longleftrightarrow> (\<forall>np h lv. ow = Some (np, h, lv) \<longrightarrow>
     (\<forall>l < MAX_HEAD_HEIGHT. np \<in> set (ls' l) \<longleftrightarrow> np \<in> set (ls l))
     \<and> (\<forall>l. lv \<le> l \<longrightarrow> load_next ns' np l = load_next ns np l))"

lemma conc_leD:
  assumes "conc_le sl ns ls sl' ns' ls'"
  shows "sl_head sl' = sl_head sl" and "sl_max_level sl \<le> sl_max_level sl'"
    and "l < MAX_HEAD_HEIGHT \<Longrightarrow> p \<in> set (ls l) \<Longrightarrow> p \<in> set (ls' l)"
    and "p \<in> dom ns \<Longrightarrow> p \<in> dom ns'" and "p \<in> dom ns \<Longrightarrow> node_height ns' p = node_height ns p"
    and "p \<in> dom ns \<Longrightarrow> node_key ns' p = node_key ns p" and "p \<in> dom ns \<Longrightarrow> node_value ns' p = node_value ns p"
  using assms unfolding conc_le_def by blast+

lemma levels_okD:
  assumes "levels_ok valid lt sl ns ls"
  shows "heap_ok ns" and "node_height ns (sl_head sl) = MAX_HEAD_HEIGHT"
    and "1 \<le> sl_max_level sl" and "sl_max_level sl \<le> MAX_HEAD_HEIGHT"
    and "l < MAX_HEAD_HEIGHT \<Longrightarrow> linked ns l (sl_head sl) (ls l)"
    and "l < MAX_HEAD_HEIGHT \<Longrightarrow> sl_sorted valid lt ns (ls l)"
    and "l < MAX_HEAD_HEIGHT \<Longrightarrow> sl_head sl \<notin> set (ls l)"
    and "l < MAX_HEAD_HEIGHT \<Longrightarrow> p \<in> set (ls l) \<Longrightarrow> l < node_height ns p"
    and "l < MAX_HEAD_HEIGHT \<Longrightarrow> p \<in> set (ls l) \<Longrightarrow> p \<in> dom ns"
    and "Suc l < MAX_HEAD_HEIGHT \<Longrightarrow> p \<in> set (ls (Suc l)) \<Longrightarrow> p \<in> set (ls l)"
    and "l < MAX_HEAD_HEIGHT \<Longrightarrow> p \<in> set (ls l) \<Longrightarrow> node_height ns p \<le> sl_max_level sl"
  using assms height_dom unfolding levels_ok_def by blast+

lemma levels_base: "levels_ok valid lt sl ns ls \<Longrightarrow> l < MAX_HEAD_HEIGHT \<Longrightarrow> p \<in> set (ls l) \<Longrightarrow> p \<in> set (ls 0)"
  by (induction l) (auto dest: levels_okD(10))

lemma null_at_frame:
  assumes "own_kept ns ls ns' ls' ow"
  shows "null_at ns ow l \<Longrightarrow> null_at ns' ow l"
  using assms by (auto simp: own_kept_def null_at_def)

lemma own_kept_Suc: "own_kept ns ls ns' ls' (Some (np, h, l)) \<Longrightarrow> own_kept ns ls ns' ls' (Some (np, h, Suc l))"
  by (simp add: own_kept_def)

lemma own_kept_None: "own_kept ns ls ns' ls' None"
  by (simp add: own_kept_def)

lemma conc_le_node:
  assumes "levels_ok valid lt sl ns ls" and "conc_le sl ns ls sl' ns' ls'" and "l < MAX_HEAD_HEIGHT" and "p \<in> set (ls l)"
  shows "p \<in> set (ls' l)" and "node_key ns' p = node_key ns p"
  using conc_leD(3,6) [OF assms(2)] levels_okD(9) [OF assms(1,3,4)] assms(3,4) by blast+

lemma below_frame:
  assumes "levels_ok valid lt sl ns ls" and "conc_le sl ns ls sl' ns' ls'" and "l < MAX_HEAD_HEIGHT"
    and "below lt sl ns ls key l p"
  shows "below lt sl' ns' ls' key l p"
  using assms(4) by (auto simp: below_def conc_leD(1) [OF assms(2)] conc_le_node [OF assms(1-3)])

lemma ctx_level_frame:
  assumes "levels_ok valid lt sl ns ls" and "conc_le sl ns ls sl' ns' ls'" and "l < MAX_HEAD_HEIGHT"
    and "ctx_level lt sl ns ls key t free equal l" and "free \<longrightarrow> free'" and "equal \<longrightarrow> equal'"
  shows "ctx_level lt sl' ns' ls' key t free' equal' l"
proof -
  obtain p where "tc_predecessors t ! l = Some p" "below lt sl' ns' ls' key l p"
    using assms(4) below_frame [OF assms(1-3)] by (auto simp: ctx_level_def)
  then show ?thesis
    using assms(4-6) by (auto simp: ctx_level_def conc_le_node [OF assms(1-3)] split: option.splits)
qed

lemma ctx_link_frame:
  assumes "levels_ok valid lt sl ns ls" and "conc_le sl ns ls sl' ns' ls'" and "own_kept ns ls ns' ls' ow"
    and "ctx_link lt sl ns ls key ow t n"
  shows "ctx_link lt sl' ns' ls' key ow t n"
  using assms(4) unfolding ctx_link_def
  by (auto intro!: ctx_level_frame [OF assms(1,2)] null_at_frame [OF assms(3)])

lemma ctx_frame_frame:
  assumes "levels_ok valid lt sl ns ls" and "conc_le sl ns ls sl' ns' ls'" and "ctx_frame ns ls key t"
  shows "ctx_frame ns' ls' key t"
proof -
  have "0 < MAX_HEAD_HEIGHT" by (simp add: MAX_HEAD_HEIGHT_def)
  then show ?thesis using assms(3) by (auto simp: ctx_frame_def conc_le_node [OF assms(1,2)])
qed

lemma ctx_from_frame:
  assumes "levels_ok valid lt sl ns ls" and "conc_le sl ns ls sl' ns' ls'" and "own_kept ns ls ns' ls' (purpose_own pu)"
    and "ctx_from lt sl ns ls key pu t n"
  shows "ctx_from lt sl' ns' ls' key pu t n"
  using assms(4) unfolding ctx_from_def
  by (auto intro!: ctx_level_frame [OF assms(1,2)] null_at_frame [OF assms(3)] ctx_frame_frame [OF assms(1,2)])

lemma own_okD:
  assumes "own_ok lt sl ns ls op (Some (np, h, lv))"
  shows "op_inserts op" and "np \<in> dom ns" and "np \<noteq> sl_head sl" and "node_height ns np = h" and "h \<le> sl_max_level sl"
    and "lv < h" and "node_key ns np = op_key op" and "node_value ns np = op_value op"
    and "l < MAX_HEAD_HEIGHT \<Longrightarrow> np \<in> set (ls l) \<longleftrightarrow> l < lv"
    and "lv \<le> l \<Longrightarrow> l < h \<Longrightarrow> load_next ns np l = Some (Some q) \<Longrightarrow> q \<in> set (ls l)"
    and "lv \<le> l \<Longrightarrow> l < h \<Longrightarrow> load_next ns np l = Some (Some q) \<Longrightarrow> lt (op_key op) (node_key ns q)"
  using assms unfolding own_ok_def by blast+

lemma own_okI:
  assumes "op_inserts op" and "np \<in> dom ns" and "np \<noteq> sl_head sl" and "node_height ns np = h" and "h \<le> sl_max_level sl"
    and "lv < h" and "node_key ns np = op_key op" and "node_value ns np = op_value op"
    and "\<And>l. l < MAX_HEAD_HEIGHT \<Longrightarrow> np \<in> set (ls l) \<longleftrightarrow> l < lv"
    and "\<And>l q. lv \<le> l \<Longrightarrow> l < h \<Longrightarrow> load_next ns np l = Some (Some q) \<Longrightarrow> q \<in> set (ls l) \<and> lt (op_key op) (node_key ns q)"
  shows "own_ok lt sl ns ls op (Some (np, h, lv))"
  using assms unfolding own_ok_def option.inject prod.inject by blast

lemma own_ok_frame:
  assumes "levels_ok valid lt sl ns ls" and "conc_le sl ns ls sl' ns' ls'" and "own_kept ns ls ns' ls' ow"
    and "own_ok lt sl ns ls op ow"
  shows "own_ok lt sl' ns' ls' op ow"
proof (cases ow)
  case (Some w)
  obtain np h lv where "w = (np, h, lv)" by (rule prod_cases3)
  then have ow: "ow = Some (np, h, lv)" using Some by simp
  note o = own_okD [OF assms(4) [unfolded ow]]
  have h8: "h \<le> MAX_HEAD_HEIGHT" using o(5) levels_okD(4) [OF assms(1)] by simp
  have kept: "\<forall>l < MAX_HEAD_HEIGHT. np \<in> set (ls' l) \<longleftrightarrow> np \<in> set (ls l)" "\<forall>l. lv \<le> l \<longrightarrow> load_next ns' np l = load_next ns np l"
    using assms(3) ow by (simp_all add: own_kept_def)
  have slots: "q \<in> set (ls' l) \<and> lt (op_key op) (node_key ns' q)"
    if "lv \<le> l" "l < h" "load_next ns' np l = Some (Some q)" for l q
  proof -
    have "load_next ns np l = Some (Some q)" "l < MAX_HEAD_HEIGHT" using that kept(2) h8 by simp_all
    then show ?thesis using o(10,11) [OF that(1,2)] conc_le_node [OF assms(1,2)] by simp
  qed
  show ?thesis unfolding ow
    by (rule own_okI) (use o(1,3,5,6) conc_leD(1,2) [OF assms(2)] conc_leD(4-7) [OF assms(2) o(2)] o(4,7,8,9) kept(1) slots in auto)
qed (simp add: own_ok_def)

lemma pc_inv_frame:
  assumes "levels_ok valid lt sl ns ls" and "conc_le sl ns ls sl' ns' ls'" and "own_kept ns ls ns' ls' (pc_own pc)"
    and "pc_inv lt sl ns ls pc"
  shows "pc_inv lt sl' ns' ls' pc"
proof -
  note bf = below_frame [OF assms(1,2)] and node = conc_le_node [OF assms(1,2)] and null = null_at_frame [OF assms(3)]
  note cl = ctx_link_frame [OF assms(1,2)] and cf = ctx_from_frame [OF assms(1,2)] and le = conc_leD(2) [OF assms(2)]
  have z: "0 < MAX_HEAD_HEIGHT" by (simp add: MAX_HEAD_HEIGHT_def)
  show ?thesis
  proof (cases pc)
    case (C_Level op pu n pred t)
    then show ?thesis using assms(3,4) by (auto intro: cf bf)
  next
    case (C_Right op pu l pred cur t)
    then show ?thesis using assms(3,4) null by (auto intro: cf bf node split: option.splits)
  next
    case (C_Store op np h l t)
    then show ?thesis using assms(3,4) by (auto intro: cl)
  next
    case (C_Exchange op np h l t)
    have "own_kept ns ls ns' ls' (Some (np, h, Suc l))" using assms(3) C_Exchange by (simp add: own_kept_Suc)
    from cl [OF this] show ?thesis using assms(3,4) C_Exchange by (auto simp: own_kept_def)
  next
    case (C_Return op r)
    then show ?thesis using assms(4) by (auto simp: node [OF z])
  qed (use assms(3,4) le null in \<open>auto intro: cl [OF own_kept_None]\<close>)
qed

section \<open>Steps of a search\<close>

lemma sorted_wrt_distinct: "(\<And>x. \<not> R x x) \<Longrightarrow> sorted_wrt R xs \<Longrightarrow> distinct xs"
  by (induction xs) auto

lemma sorted_wrt_unique:
  assumes "sorted_wrt R xs" and "x \<in> set xs" and "y \<in> set xs" and "x \<noteq> y"
  shows "R x y \<or> R y x"
  using assms by (induction xs) auto

lemma null_atI:
  assumes "heap_ok ns" and "own_ok lt sl ns ls op ow"
    and "\<And>np h lv q. ow = Some (np, h, lv) \<Longrightarrow> lv \<le> l \<Longrightarrow> l < h \<Longrightarrow> q \<in> set (ls l) \<Longrightarrow> lt (op_key op) (node_key ns q) \<Longrightarrow> False"
  shows "null_at ns ow l"
  unfolding null_at_def
proof (intro allI impI, elim conjE)
  fix np h lv assume ow: "ow = Some (np, h, lv)" and l: "lv \<le> l" "l < h"
  note o = own_okD [OF assms(2) [unfolded ow]]
  obtain q where q: "load_next ns np l = Some q" using o(4) l(2) load_next_ok [OF assms(1), of np l] by simp
  show "load_next ns np l = Some None"
  proof (cases q)
    case (Some x)
    then show ?thesis using assms(3) [OF ow l] o(10,11) [OF l] q by blast
  qed (use q in simp)
qed

lemma null_at_above: "own_ok lt sl ns ls op ow \<Longrightarrow> sl_max_level sl \<le> l \<Longrightarrow> null_at ns ow l"
  unfolding null_at_def own_ok_def by fastforce

context comparator
begin

lemma levels_sorted:
  assumes "levels_ok valid lt sl ns ls" and "l < MAX_HEAD_HEIGHT"
  shows "sorted_wrt (\<lambda>p q. lt (node_key ns p) (node_key ns q)) (ls l)" and "distinct (sl_head sl # ls l)"
    and "p \<in> set (ls l) \<Longrightarrow> valid (node_key ns p)"
proof -
  show s: "sorted_wrt (\<lambda>p q. lt (node_key ns p) (node_key ns q)) (ls l)"
    using levels_okD(6) [OF assms] by (simp add: sl_sorted_def sorted_wrt_map)
  show "distinct (sl_head sl # ls l)"
    using sorted_wrt_distinct [OF _ s] levels_okD(7) [OF assms] lt_irrefl by simp
  show "p \<in> set (ls l) \<Longrightarrow> valid (node_key ns p)"
    using levels_okD(6) [OF assms] by (simp add: sl_sorted_def)
qed

lemma level_key_unique:
  assumes "levels_ok valid lt sl ns ls" and "l < MAX_HEAD_HEIGHT" and "p \<in> set (ls l)" and "q \<in> set (ls l)"
    and "node_key ns p = node_key ns q"
  shows "p = q"
  using sorted_wrt_unique [OF levels_sorted(1) [OF assms(1,2)] assms(3,4)] assms(5) lt_irrefl by auto

text \<open>The pointer of a node at a level leads to the next node of that level.\<close>

lemma level_split:
  assumes "levels_ok valid lt sl ns ls" and "l < MAX_HEAD_HEIGHT" and "p = sl_head sl \<or> p \<in> set (ls l)"
  obtains as bs where "ls l = as @ bs" and "p = last (sl_head sl # as)" and "load_next ns p l = Some (hd_opt bs)"
proof (cases "p = sl_head sl")
  case True
  then show thesis using that [of "[]" "ls l"] linked_head [OF levels_okD(5) [OF assms(1,2)]] by simp
next
  case False
  then obtain a1 a2 where s: "ls l = a1 @ p # a2" using assms(3) by (meson split_list)
  have "linked ns l p a2" using levels_okD(5) [OF assms(1,2)] by (simp add: s linked_append)
  then show thesis using that [of "a1 @ [p]" a2] s linked_head by simp
qed

lemma level_next:
  assumes lv: "levels_ok valid lt sl ns ls" and l: "l < MAX_HEAD_HEIGHT" and p: "p = sl_head sl \<or> p \<in> set (ls l)"
  obtains n where "load_next ns p l = Some n"
    and "\<forall>c. n = Some c \<longrightarrow> c \<in> set (ls l)"
    and "\<forall>x \<in> set (ls l). p = sl_head sl \<or> lt (node_key ns p) (node_key ns x) \<longrightarrow>
      (\<exists>c. n = Some c \<and> (x = c \<or> lt (node_key ns c) (node_key ns x)))"
proof -
  obtain as bs where s: "ls l = as @ bs" "p = last (sl_head sl # as)" "load_next ns p l = Some (hd_opt bs)"
    using level_split [OF assms] by blast
  have srt: "sorted_wrt (\<lambda>p q. lt (node_key ns p) (node_key ns q)) (as @ bs)" using levels_sorted(1) [OF lv l] s(1) by simp
  have "\<exists>c. hd_opt bs = Some c \<and> (x = c \<or> lt (node_key ns c) (node_key ns x))"
    if x: "x \<in> set (ls l)" and px: "p = sl_head sl \<or> lt (node_key ns p) (node_key ns x)" for x
  proof -
    have "x \<notin> set as"
    proof
      assume xa: "x \<in> set as"
      then have ne: "as \<noteq> []" by auto
      then have pa: "p = last as" "p \<in> set as" using s(2) by auto
      then have "p \<noteq> sl_head sl" using levels_okD(7) [OF lv l] s(1) by auto
      then have "lt (node_key ns p) (node_key ns x)" using px by simp
      moreover have "x = p \<or> lt (node_key ns x) (node_key ns p)"
      proof -
        have as: "as = butlast as @ [p]" using ne pa(1) by simp
        then have "sorted_wrt (\<lambda>p q. lt (node_key ns p) (node_key ns q)) (butlast as @ [p])"
          using srt by (metis sorted_wrt_append)
        then show ?thesis using xa as by (metis (no_types, lifting) Un_iff empty_iff empty_set list.set_intros(1) set_ConsD set_append sorted_wrt_append)
      qed
      ultimately show False using lt_asym lt_irrefl by auto
    qed
    then have "x \<in> set bs" using x s(1) by simp
    then show ?thesis using srt by (cases bs) (auto simp: sorted_wrt_append)
  qed
  moreover have "c \<in> set (ls l)" if "hd_opt bs = Some c" for c using that s(1) by (cases bs) auto
  ultimately show thesis using that s(3) by blast
qed

lemma below_cases: "below lt sl ns ls key l p \<Longrightarrow> p = sl_head sl \<or> p \<in> set (ls l)"
  by (auto simp: below_def)

lemma below_before:
  "below lt sl ns ls key l p \<Longrightarrow> lt key k \<or> key = k \<Longrightarrow> p = sl_head sl \<or> lt (node_key ns p) k"
  using lt_trans by (auto simp: below_def)

text \<open>A load at a level of a search: a null pointer means that the own node has no successor there.\<close>

lemma search_load:
  assumes lv: "levels_ok valid lt sl ns ls" and l: "l < MAX_HEAD_HEIGHT" and p: "below lt sl ns ls (op_key op) l p"
    and own: "own_ok lt sl ns ls op ow"
  obtains n where "load_next ns p l = Some n"
    and "case n of None \<Rightarrow> null_at ns ow l | Some c \<Rightarrow> c \<in> set (ls l)"
proof -
  obtain n where n: "load_next ns p l = Some n" "\<forall>c. n = Some c \<longrightarrow> c \<in> set (ls l)"
    "\<forall>x \<in> set (ls l). p = sl_head sl \<or> lt (node_key ns p) (node_key ns x) \<longrightarrow>
      (\<exists>c. n = Some c \<and> (x = c \<or> lt (node_key ns c) (node_key ns x)))"
    by (rule level_next [OF lv l below_cases [OF p]])
  have "null_at ns ow l" if "n = None"
  proof (rule null_atI [OF levels_okD(1) [OF lv] own])
    fix q assume "q \<in> set (ls l)" "lt (op_key op) (node_key ns q)"
    then show False using n(3) below_before [OF p, of "node_key ns q"] that by simp
  qed
  then show thesis using that n(1,2) by (cases n) simp_all
qed

end

definition at_ok :: "(bytes \<Rightarrow> bytes \<Rightarrow> bool) \<Rightarrow> skip_list \<Rightarrow> nodes \<Rightarrow> levels \<Rightarrow> conc_op \<Rightarrow> conc_pc \<Rightarrow> bool" where
  "at_ok lt sl ns ls op pc \<longleftrightarrow> pc_op pc = Some op \<and> pc_inv lt sl ns ls pc \<and> own_ok lt sl ns ls op (pc_own pc)"

lemma own_ok_None [simp]: "own_ok lt sl ns ls op None"
  by (simp add: own_ok_def)

lemma null_at_None [simp]: "null_at ns None l"
  by (simp add: null_at_def)

lemma null_at_Some:
  "null_at ns (Some (np, h, lv)) l \<longleftrightarrow> (lv \<le> l \<and> l < h \<longrightarrow> load_next ns np l = Some None)"
  unfolding null_at_def by blast

lemma MAX_HEAD_HEIGHT_pos [simp]: "0 < MAX_HEAD_HEIGHT"
  by (simp add: MAX_HEAD_HEIGHT_def)

lemma ctx_level_mono:
  "ctx_level lt sl ns ls key t free equal l \<Longrightarrow> (free \<longrightarrow> free') \<Longrightarrow> (equal \<longrightarrow> equal') \<Longrightarrow>
   tc_predecessors t' ! l = tc_predecessors t ! l \<Longrightarrow> tc_successors t' ! l = tc_successors t ! l \<Longrightarrow>
   ctx_level lt sl ns ls key t' free' equal' l"
  by (auto simp: ctx_level_def split: option.splits)

lemma ctx_from_link:
  assumes "ctx_from lt sl ns ls key pu t 0" and "\<And>l. n \<le> l \<Longrightarrow> \<not> equal_at pu t l" and "purpose_own pu = ow"
  shows "ctx_link lt sl ns ls key ow t n"
  using assms by (auto simp: ctx_from_def ctx_frame_def ctx_link_def)

context comparator
begin

lemma after_search_ok:
  assumes ctx: "ctx_from lt sl ns ls (op_key op) pu t 0" and own: "own_ok lt sl ns ls op (purpose_own pu)"
    and pu: "purpose_ok pu" "pu = For_Key \<or> op_inserts op"
  shows "at_ok lt sl ns ls op (after_search op pu t)"
proof -
  have found: "c \<in> set (ls 0) \<and> node_key ns c = op_key op" if "tc_searched_node t = Some c" for c
    using ctx that by (simp add: ctx_from_def ctx_frame_def)
  have link: "ctx_link lt sl ns ls (op_key op) (purpose_own pu) t 0" if "tc_searched_node t = None"
    using that by (intro ctx_from_link [OF ctx]) (simp_all add: equal_at_def)
  show ?thesis
  proof (cases pu)
    case For_Key
    have succ: "q \<in> set (ls 0) \<and> \<not> lt (node_key ns q) (op_key op)" if "tc_successors t ! 0 = Some q" for q
    proof -
      have "ctx_level lt sl ns ls (op_key op) t (null_at ns (purpose_own pu) 0) (equal_at pu t 0) 0"
        using ctx by (simp add: ctx_from_def)
      then show ?thesis using that lt_asym lt_irrefl by (auto simp: ctx_level_def)
    qed
    show ?thesis
    proof (cases "op_inserts op")
      case True
      then show ?thesis using For_Key found link
        by (cases op; cases "tc_searched_node t") (auto simp: at_ok_def after_search_def op_inserts_def)
    next
      case False
      then show ?thesis using For_Key succ by (cases op) (auto simp: at_ok_def after_search_def op_inserts_def)
    qed
  next
    case (For_Base np h)
    then show ?thesis using found link own pu
      by (cases "tc_searched_node t") (auto simp: at_ok_def after_search_def)
  next
    case (For_Level np h l)
    have "ctx_link lt sl ns ls (op_key op) (Some (np, h, l)) t l"
      by (rule ctx_from_link [OF ctx]) (simp_all add: equal_at_def For_Level)
    then show ?thesis using own For_Level by (simp add: at_ok_def after_search_def)
  qed
qed

lemma leave_level_ok:
  assumes lv: "levels_ok valid lt sl ns ls" and l: "l < MAX_HEAD_HEIGHT"
    and ctx: "ctx_from lt sl ns ls (op_key op) pu t (Suc l)" and p: "below lt sl ns ls (op_key op) l pred"
    and own: "own_ok lt sl ns ls op (purpose_own pu)" and pu: "purpose_ok pu"
    and cur: "case cur of None \<Rightarrow> null_at ns (purpose_own pu) l
      | Some c \<Rightarrow> c \<in> set (ls l) \<and> (lt (op_key op) (node_key ns c)
          \<or> node_key ns c = op_key op \<and> found \<noteq> None \<and> (case pu of For_Level np h k \<Rightarrow> l < k | _ \<Rightarrow> True))"
    and found: "found = tc_searched_node t \<or> (\<exists>c. found = Some c \<and> c \<in> set (ls 0) \<and> node_key ns c = op_key op)"
  shows "\<exists>pc. leave_level op pu l pred cur found t = Some pc \<and> at_ok lt sl ns ls op pc"
proof -
  let ?t = "\<lparr>tc_searched_node = found, tc_predecessors = (tc_predecessors t)[l := Some pred],
    tc_successors = (tc_successors t)[l := cur]\<rparr>"
  have fr: "ctx_frame ns ls (op_key op) t" using ctx by (simp add: ctx_from_def)
  then have len: "length (tc_predecessors t) = MAX_HEAD_HEIGHT" "length (tc_successors t) = MAX_HEAD_HEIGHT"
    by (simp_all add: ctx_frame_def)
  have run: "leave_level op pu l pred cur found t = Some (C_Level op pu l pred ?t)"
    using l len by (simp add: leave_level_def set_at_def)
  have "ctx_frame ns ls (op_key op) ?t" using fr found by (auto simp: ctx_frame_def)
  moreover have "ctx_level lt sl ns ls (op_key op) ?t (null_at ns (purpose_own pu) k) (equal_at pu ?t k) k"
    if "l \<le> k" "k < MAX_HEAD_HEIGHT" for k
  proof (cases "k = l")
    case True
    then show ?thesis using p cur l len by (auto simp: ctx_level_def equal_at_def split: option.splits)
  next
    case False
    then have "ctx_level lt sl ns ls (op_key op) t (null_at ns (purpose_own pu) k) (equal_at pu t k) k"
      using ctx that by (simp add: ctx_from_def)
    then show ?thesis by (rule ctx_level_mono) (use False found in \<open>auto simp: equal_at_def\<close>)
  qed
  moreover have "below lt sl ns ls (op_key op) (l - 1) pred" if "0 < l"
    using p levels_okD(10) [OF lv, of "l - 1" pred] that l by (auto simp: below_def)
  ultimately show ?thesis using run l pu own by (auto simp: at_ok_def ctx_from_def)
qed

text \<open>The key of the call at a level where its own node is not yet linked belongs to no node.\<close>

lemma equal_level:
  assumes lv: "levels_ok valid lt sl ns ls" and l: "l < MAX_HEAD_HEIGHT" and own: "own_ok lt sl ns ls op (purpose_own pu)"
    and pu: "purpose_ok pu" and c: "c \<in> set (ls l)" "node_key ns c = op_key op"
  shows "case pu of For_Level np h k \<Rightarrow> l < k | _ \<Rightarrow> True"
proof (cases pu)
  case (For_Level np h k)
  note o = own_okD [OF own [unfolded For_Level, simplified]]
  have "np \<in> set (ls 0)" using o(9) [of 0] pu For_Level by (simp add: purpose_ok_def)
  moreover have "c \<in> set (ls 0)" using levels_base [OF lv l c(1)] .
  ultimately have "c = np" using level_key_unique [OF lv MAX_HEAD_HEIGHT_pos] c(2) o(7) by simp
  then show ?thesis using o(9) [OF l] c(1) For_Level by simp
qed simp_all

lemma right_ok:
  assumes lv: "levels_ok valid lt sl (hp_nodes hp) ls" and key: "valid (op_key op)"
    and pc: "pc_inv lt sl (hp_nodes hp) ls (C_Right op pu l pred cur t)" and own: "own_ok lt sl (hp_nodes hp) ls op (purpose_own pu)"
  shows "\<exists>pc'. thread_step cmp base (C_Right op pu l pred cur t) sl hp = Some (pc', sl, hp)
    \<and> at_ok lt sl (hp_nodes hp) ls op pc'"
proof -
  let ?ns = "hp_nodes hp"
  have i: "purpose_ok pu" "l < MAX_HEAD_HEIGHT" "ctx_from lt sl ?ns ls (op_key op) pu t (Suc l)"
    "below lt sl ?ns ls (op_key op) l pred" using pc by simp_all
  note leave = leave_level_ok [OF lv i(2,3,4) own i(1)]
  show ?thesis
  proof (cases cur)
    case None
    then show ?thesis using leave [where cur = None and found = "tc_searched_node t"] pc by auto
  next
    case (Some c)
    then have c: "c \<in> set (ls l)" using pc by simp
    note dom = levels_okD(9) [OF lv i(2) c] and val = levels_sorted(3) [OF lv i(2) c]
    have k: "get_key_bytes ?ns c = Some (node_key ?ns c)" by (rule get_bytes_ok(1) [OF levels_okD(1) [OF lv] dom])
    have base: "c \<in> set (ls 0)" by (rule levels_base [OF lv i(2) c])
    consider "lt (node_key ?ns c) (op_key op)" | "node_key ?ns c = op_key op" | "lt (op_key op) (node_key ?ns c)"
      using lt_total [OF val key] by blast
    then show ?thesis
    proof cases
      case 1
      then have b: "below lt sl ?ns ls (op_key op) l c" using c by (simp add: below_def)
      obtain n where n: "load_next ?ns c l = Some n"
        "case n of None \<Rightarrow> null_at ?ns (purpose_own pu) l | Some c \<Rightarrow> c \<in> set (ls l)"
        by (rule search_load [OF lv i(2) b own])
      have "cmp (node_key ?ns c) (op_key op) = Some Less" using 1 cmp_Less_iff [OF val key] by simp
      then show ?thesis using Some k n i b own by (simp add: at_ok_def)
    next
      case 2
      then have "cmp (node_key ?ns c) (op_key op) = Some Equal" using cmp_Equal_iff [OF val key] by simp
      moreover have "\<exists>pc. leave_level op pu l pred (Some c) (Some c) t = Some pc \<and> at_ok lt sl ?ns ls op pc"
        by (rule leave) (use 2 c base equal_level [OF lv i(2) own i(1) c 2] in auto)
      ultimately show ?thesis using Some k by auto
    next
      case 3
      then have "cmp (node_key ?ns c) (op_key op) = Some Greater" using cmp_Greater_iff [OF val key] by simp
      moreover have "\<exists>pc. leave_level op pu l pred (Some c) (tc_searched_node t) t = Some pc \<and> at_ok lt sl ?ns ls op pc"
        by (rule leave) (use 3 c in auto)
      ultimately show ?thesis using Some k by auto
    qed
  qed
qed

lemma search_step_ok:
  assumes lv: "levels_ok valid lt sl (hp_nodes hp) ls" and key: "valid (op_key op)"
    and ok: "at_ok lt sl (hp_nodes hp) ls op pc"
    and pc: "pc = C_Search op pu \<or> (\<exists>n. pc = C_Skip op pu n) \<or> (\<exists>n p t. pc = C_Level op pu n p t) \<or> (\<exists>n p c t. pc = C_Right op pu n p c t)"
    and pu: "pu = For_Key \<or> op_inserts op"
  shows "\<exists>pc'. thread_step cmp base pc sl hp = Some (pc', sl, hp) \<and> at_ok lt sl (hp_nodes hp) ls op pc'"
proof -
  let ?ns = "hp_nodes hp" and ?h = "sl_head sl" and ?ow = "purpose_own pu"
  have own: "own_ok lt sl ?ns ls op ?ow" and inv: "pc_inv lt sl ?ns ls pc" using ok pc by (auto simp: at_ok_def)
  have start: "ctx_from lt sl ?ns ls (op_key op) pu (start_ctx sl) n" if "\<And>l. n \<le> l \<Longrightarrow> null_at ?ns ?ow l" for n
    using that by (simp add: ctx_from_def ctx_frame_def ctx_level_def start_ctx_def traversal_ctx_new_def below_def)
  from pc consider "pc = C_Search op pu" | n where "pc = C_Skip op pu n" | n p t where "pc = C_Level op pu n p t"
    | n p c t where "pc = C_Right op pu n p c t" by blast
  then show ?thesis
  proof cases
    case 1
    then show ?thesis using inv own null_at_above [OF own] levels_okD(4) [OF lv] by (simp add: at_ok_def)
  next
    case (2 n)
    then have i: "purpose_ok pu" "n \<le> MAX_HEAD_HEIGHT" "\<And>l. n \<le> l \<Longrightarrow> null_at ?ns ?ow l" using inv by simp_all
    show ?thesis
    proof (cases n)
      case 0
      then show ?thesis using 2 after_search_ok [OF start own i(1) pu] i(3) by simp
    next
      case (Suc m)
      then have m: "m < MAX_HEAD_HEIGHT" using i(2) by simp
      have head: "below lt sl ?ns ls (op_key op) m ?h" by (simp add: below_def)
      obtain c where c: "load_next ?ns ?h m = Some c" "case c of None \<Rightarrow> null_at ?ns ?ow m | Some c \<Rightarrow> c \<in> set (ls m)"
        by (rule search_load [OF lv m head own])
      show ?thesis
      proof (cases c)
        case None
        have "null_at ?ns ?ow l" if "m \<le> l" for l using that None c(2) i(3) [of l] Suc by (cases "l = m") simp_all
        then show ?thesis using 2 Suc None c(1) i(1) m own by (simp add: at_ok_def)
      next
        case (Some x)
        then show ?thesis using 2 Suc c(1) i head own start [OF i(3)] by (simp add: at_ok_def)
      qed
    qed
  next
    case (3 n p t)
    then have i: "purpose_ok pu" "n \<le> MAX_HEAD_HEIGHT" "ctx_from lt sl ?ns ls (op_key op) pu t n"
      "0 < n \<longrightarrow> below lt sl ?ns ls (op_key op) (n - 1) p" using inv by simp_all
    show ?thesis
    proof (cases n)
      case 0
      then show ?thesis using 3 after_search_ok [OF _ own i(1) pu] i(3) by simp
    next
      case (Suc m)
      then have m: "m < MAX_HEAD_HEIGHT" and p: "below lt sl ?ns ls (op_key op) m p" using i(2,4) by simp_all
      obtain c where "load_next ?ns p m = Some c" "case c of None \<Rightarrow> null_at ?ns ?ow m | Some c \<Rightarrow> c \<in> set (ls m)"
        by (rule search_load [OF lv m p own])
      then show ?thesis using 3 Suc i m p own by (simp add: at_ok_def)
    qed
  next
    case (4 n p c t)
    then show ?thesis using right_ok [OF lv key _ own] inv by simp
  qed
qed

end

section \<open>What a step of a thread does\<close>

text \<open>
  A step keeps the levels, leaves the nodes other threads own alone, links at most the node of its own
  call, and keeps track of the levels that node has still to be linked at.
\<close>

definition good_step ::
  "(bytes \<Rightarrow> bool) \<Rightarrow> (bytes \<Rightarrow> bytes \<Rightarrow> bool) \<Rightarrow> conc_op \<Rightarrow> skip_list \<Rightarrow> node_heap \<Rightarrow> levels \<Rightarrow> conc_pc
    \<Rightarrow> skip_list \<Rightarrow> node_heap \<Rightarrow> levels \<Rightarrow> conc_pc \<Rightarrow> bool" where
  "good_step valid lt op sl hp ls pc sl' hp' ls' pc' \<longleftrightarrow>
     heap_inv hp' \<and> levels_ok valid lt sl' (hp_nodes hp') ls' \<and> at_ok lt sl' (hp_nodes hp') ls' op pc'
     \<and> conc_le sl (hp_nodes hp) ls sl' (hp_nodes hp') ls'
     \<and> (\<forall>op' q h lv. own_ok lt sl (hp_nodes hp) ls op' (Some (q, h, lv)) \<and> (\<forall>h' lv'. pc_own pc \<noteq> Some (q, h', lv')) \<longrightarrow>
          own_kept (hp_nodes hp) ls (hp_nodes hp') ls' (Some (q, h, lv)) \<and> (\<forall>h' lv'. pc_own pc' \<noteq> Some (q, h', lv')))
     \<and> (\<forall>p \<in> set (ls' 0) - set (ls 0). op_inserts op \<and> node_key (hp_nodes hp') p = op_key op
          \<and> node_value (hp_nodes hp') p = op_value op)
     \<and> (\<forall>p l. p \<in> set (ls' 0) \<and> l < node_height (hp_nodes hp') p
          \<and> (p \<notin> set (ls 0) \<or> (\<exists>h lv. pc_own pc = Some (p, h, lv) \<and> lv \<le> l)) \<longrightarrow>
          p \<in> set (ls' l) \<or> (\<exists>h lv. pc_own pc' = Some (p, h, lv) \<and> lv \<le> l))"

lemma good_stepI:
  assumes "heap_inv hp'" and "levels_ok valid lt sl' (hp_nodes hp') ls'" and "at_ok lt sl' (hp_nodes hp') ls' op pc'"
    and "conc_le sl (hp_nodes hp) ls sl' (hp_nodes hp') ls'"
    and "\<And>op' q h lv. own_ok lt sl (hp_nodes hp) ls op' (Some (q, h, lv)) \<Longrightarrow> (\<And>h' lv'. pc_own pc \<noteq> Some (q, h', lv')) \<Longrightarrow>
      own_kept (hp_nodes hp) ls (hp_nodes hp') ls' (Some (q, h, lv)) \<and> (\<forall>h' lv'. pc_own pc' \<noteq> Some (q, h', lv'))"
    and "\<And>p. p \<in> set (ls' 0) \<Longrightarrow> p \<notin> set (ls 0) \<Longrightarrow> op_inserts op \<and> node_key (hp_nodes hp') p = op_key op
      \<and> node_value (hp_nodes hp') p = op_value op"
    and "\<And>p l. p \<in> set (ls' 0) \<Longrightarrow> l < node_height (hp_nodes hp') p \<Longrightarrow>
      p \<notin> set (ls 0) \<or> (\<exists>h lv. pc_own pc = Some (p, h, lv) \<and> lv \<le> l) \<Longrightarrow>
      p \<in> set (ls' l) \<or> (\<exists>h lv. pc_own pc' = Some (p, h, lv) \<and> lv \<le> l)"
  shows "good_step valid lt op sl hp ls pc sl' hp' ls' pc'"
  using assms unfolding good_step_def by blast

lemma conc_le_refl: "conc_le sl ns ls sl ns ls"
  by (simp add: conc_le_def)

lemma own_kept_refl: "own_kept ns ls ns ls ow"
  by (simp add: own_kept_def)

text \<open>A step that changes neither nodes nor levels.\<close>

lemma good_step_local:
  assumes "heap_inv hp" and "levels_ok valid lt sl (hp_nodes hp) ls" and "at_ok lt sl (hp_nodes hp) ls op pc"
    and "sl_head sl' = sl_head sl" and "sl_max_level sl \<le> sl_max_level sl'" and "sl_max_level sl' \<le> MAX_HEAD_HEIGHT"
    and "at_ok lt sl' (hp_nodes hp) ls op pc'"
    and own: "pc_own pc' = pc_own pc \<or> pc_own pc' = None \<and> (\<forall>np h lv. pc_own pc = Some (np, h, lv) \<longrightarrow> lv = 0)"
  shows "good_step valid lt op sl hp ls pc sl' hp ls pc'"
proof -
  have "conc_le sl (hp_nodes hp) ls sl' (hp_nodes hp) ls" using assms(4,5) by (simp add: conc_le_def)
  moreover have "levels_ok valid lt sl' (hp_nodes hp) ls"
    using assms(2,4-6) by (fastforce simp: levels_ok_def)
  moreover have "p \<notin> set (ls 0)" if "pc_own pc = Some (p, h, 0)" for p h
    using own_okD(9) [of lt sl "hp_nodes hp" ls op p h 0 0] assms(3) that by (simp add: at_ok_def)
  then have tall: "\<exists>h lv. pc_own pc' = Some (p, h, lv) \<and> lv \<le> l"
    if "p \<in> set (ls 0)" "pc_own pc = Some (p, h, lv)" "lv \<le> l" for p h lv l
    using own that by metis
  ultimately show ?thesis
  proof (intro good_stepI)
    fix q h lv assume "\<And>h' lv'. pc_own pc \<noteq> Some (q, h', lv')"
    then have "\<forall>h' lv'. pc_own pc' \<noteq> Some (q, h', lv')" using own by (elim disjE) simp_all
    then show "own_kept (hp_nodes hp) ls (hp_nodes hp) ls (Some (q, h, lv)) \<and> (\<forall>h' lv'. pc_own pc' \<noteq> Some (q, h', lv'))"
      by (simp add: own_kept_refl)
  next
    fix p l assume "p \<in> set (ls 0)" "p \<notin> set (ls 0) \<or> (\<exists>h lv. pc_own pc = Some (p, h, lv) \<and> lv \<le> l)"
    then show "p \<in> set (ls l) \<or> (\<exists>h lv. pc_own pc' = Some (p, h, lv) \<and> lv \<le> l)" using tall by blast
  qed (use assms(1,7) in simp_all)
qed

lemma search_step_own:
  assumes "thread_step cmp base pc sl hp = Some (pc', sl', hp')"
    and "pc = C_Search op pu \<or> (\<exists>n. pc = C_Skip op pu n) \<or> (\<exists>n p t. pc = C_Level op pu n p t) \<or> (\<exists>n p c t. pc = C_Right op pu n p c t)"
  shows "pc_own pc' = pc_own pc \<or> pc_own pc' = None \<and> (\<forall>np h lv. pc_own pc = Some (np, h, lv) \<longrightarrow> lv = 0)"
proof -
  have after: "pc_own (after_search op pu t) = purpose_own pu
      \<or> pc_own (after_search op pu t) = None \<and> (\<forall>np h lv. purpose_own pu = Some (np, h, lv) \<longrightarrow> lv = 0)" for t
    by (cases pu) (auto simp: after_search_def split: option.splits conc_op.splits)
  have leave: "pc_own x = purpose_own pu" if "leave_level op pu n p c f t = Some x" for n p c f t x
    using that by (auto simp: leave_level_def split: bind_splits)
  from assms(2) consider "pc = C_Search op pu" | n where "pc = C_Skip op pu n" | n p t where "pc = C_Level op pu n p t"
    | n p c t where "pc = C_Right op pu n p c t" by blast
  then show ?thesis
  proof cases
    case 1
    then show ?thesis using assms(1) by auto
  next
    case (2 n)
    then show ?thesis using assms(1) after [of "start_ctx sl"] by (cases n) (auto split: bind_splits if_splits)
  next
    case (3 n p t)
    then show ?thesis using assms(1) after [of t] by (cases n) (auto split: bind_splits)
  next
    case (4 n p c t)
    then show ?thesis using assms(1) leave by (cases c) (auto split: bind_splits ordering.splits)
  qed
qed

lemma levels_ok_frame:
  assumes "levels_ok valid lt sl ns ls" and "tower_frame ns ns'" and "heap_ok ns'"
    and "\<And>l. l < MAX_HEAD_HEIGHT \<Longrightarrow> linked ns' l (sl_head sl) (ls l)"
  shows "levels_ok valid lt sl ns' ls"
  using assms(1,3,4) by (simp add: levels_ok_def sl_sorted_def tower_frameD [OF assms(2)])

lemma conc_le_tower:
  assumes "tower_frame ns ns'" and "\<And>l. l < MAX_HEAD_HEIGHT \<Longrightarrow> set (ls l) \<subseteq> set (ls' l)"
  shows "conc_le sl ns ls sl ns' ls'"
  using assms by (simp add: conc_le_def tower_frameD [OF assms(1)])

text \<open>The store of the successor into the tower of the new node.\<close>

lemma store_step_ok:
  assumes heap: "heap_inv hp" and lv: "levels_ok valid lt sl (hp_nodes hp) ls"
    and ok: "at_ok lt sl (hp_nodes hp) ls op (C_Store op np h l t)"
  shows "\<exists>hp'. thread_step cmp base (C_Store op np h l t) sl hp = Some (C_Exchange op np h l t, sl, hp')
    \<and> good_step valid lt op sl hp ls (C_Store op np h l t) sl hp' ls (C_Exchange op np h l t)"
proof -
  let ?ns = "hp_nodes hp" and ?s = "tc_successors t ! l"
  have own: "own_ok lt sl ?ns ls op (Some (np, h, l))" and ctx: "ctx_link lt sl ?ns ls (op_key op) (Some (np, h, l)) t l"
    using ok by (simp_all add: at_ok_def)
  note o = own_okD [OF own] and hok = levels_okD(1) [OF lv]
  have l8: "l < MAX_HEAD_HEIGHT" using o(5,6) levels_okD(4) [OF lv] by simp
  have lvl: "ctx_level lt sl ?ns ls (op_key op) t (null_at ?ns (Some (np, h, l)) l) False l" and len: "l < length (tc_successors t)"
    using ctx l8 by (simp_all add: ctx_link_def)
  have "\<exists>ns'. (case ?s of None \<Rightarrow> Some ?ns | Some q \<Rightarrow> do { slot \<leftarrow> node_next ?ns np l; slot_store slot (Some q) ?ns }) = Some ns'
      \<and> heap_ok ns' \<and> tower_frame ?ns ns'
      \<and> (\<forall>p k. load_next ns' p k = (if p = np \<and> k = l then Some ?s else load_next ?ns p k))"
  proof (cases ?s)
    case None
    then have "load_next ?ns np l = Some None" using lvl o(6) by (simp add: ctx_level_def null_at_def)
    then show ?thesis using None hok by (simp add: tower_frame_refl)
  next
    case (Some q)
    have "l < node_height ?ns np" using o(4,6) by simp
    then show ?thesis
      by (rule slot_store_ok [OF hok, of l np ?s]) (use Some o(4,6) in \<open>simp add: node_next_ok [OF hok]\<close>)
  qed
  then obtain ns' where ns': "(case ?s of None \<Rightarrow> Some ?ns
        | Some q \<Rightarrow> do { slot \<leftarrow> node_next ?ns np l; slot_store slot (Some q) ?ns }) = Some ns'"
    "heap_ok ns'" "tower_frame ?ns ns'" and upd: "\<And>p k. load_next ns' p k = (if p = np \<and> k = l then Some ?s else load_next ?ns p k)"
    by blast
  let ?hp = "hp\<lparr>hp_nodes := ns'\<rparr>"
  have run: "thread_step cmp base (C_Store op np h l t) sl hp = Some (C_Exchange op np h l t, sl, ?hp)"
    using ns'(1) len by (simp add: get_at_def)
  have npl: "np \<notin> set (ls l)" using o(9) [OF l8] by simp
  have "linked ns' k (sl_head sl) (ls k)" if "k < MAX_HEAD_HEIGHT" for k
  proof -
    have "linked ns' k (sl_head sl) (ls k) = linked ?ns k (sl_head sl) (ls k)"
      by (rule linked_cong) (use npl o(3) in \<open>auto simp: upd\<close>)
    then show ?thesis using levels_okD(5) [OF lv that] by simp
  qed
  then have lv': "levels_ok valid lt sl ns' ls" by (rule levels_ok_frame [OF lv ns'(3,2)])
  have le: "conc_le sl ?ns ls sl ns' ls" by (rule conc_le_tower [OF ns'(3)]) simp
  have key: "node_key ns' = node_key ?ns" by (rule tower_frameD(3) [OF ns'(3)])
  have kept: "own_kept ?ns ls ns' ls (Some (np, h, Suc l))" by (simp add: own_kept_def upd)
  have "own_ok lt sl ns' ls op (Some (np, h, l))"
  proof (rule own_okI)
    fix k q assume k: "l \<le> k" "k < h" "load_next ns' np k = Some (Some q)"
    show "q \<in> set (ls k) \<and> lt (op_key op) (node_key ns' q)"
      using k lvl o(10,11) [OF k(1,2), of q] by (cases "k = l") (auto simp: upd key ctx_level_def)
  qed (use o in \<open>simp_all add: tower_frameD [OF ns'(3)]\<close>)
  moreover have "ctx_link lt sl ns' ls (op_key op) (Some (np, h, Suc l)) t l"
  proof -
    have "ctx_link lt sl ?ns ls (op_key op) (Some (np, h, Suc l)) t l"
      using ctx by (auto simp: ctx_link_def null_at_def elim!: ctx_level_mono)
    then show ?thesis by (rule ctx_link_frame [OF lv le kept])
  qed
  ultimately have at: "at_ok lt sl (hp_nodes ?hp) ls op (C_Exchange op np h l t)" by (simp add: at_ok_def upd)
  have "good_step valid lt op sl hp ls (C_Store op np h l t) sl ?hp ls (C_Exchange op np h l t)"
  proof (rule good_stepI)
    fix op' q h' lv' assume other: "\<And>h' lv'. pc_own (C_Store op np h l t) \<noteq> Some (q, h', lv')"
    have "q \<noteq> np" using other [of h l] by auto
    then show "own_kept ?ns ls (hp_nodes ?hp) ls (Some (q, h', lv')) \<and> (\<forall>h' lv'. pc_own (C_Exchange op np h l t) \<noteq> Some (q, h', lv'))"
      by (simp add: own_kept_def upd)
  qed (use heap_inv_frame [OF heap ns'(2)] ns'(3) lv' at le in \<open>auto simp: tower_frameD(1)\<close>)
  then show ?thesis using run by blast
qed

text \<open>The exchange: when it fails nothing has changed, when it succeeds the node is linked between the two
  neighbours of its key.\<close>

context comparator
begin

lemma splice_sorted:
  assumes lv: "levels_ok valid lt sl ns ls" and l: "l < MAX_HEAD_HEIGHT" and s: "ls l = as @ bs"
    and p: "below lt sl ns ls key l (last (sl_head sl # as))" and key: "valid key"
    and b: "\<forall>q. hd_opt bs = Some q \<longrightarrow> lt key (node_key ns q)" and np: "node_key ns np = key"
  shows "sl_sorted valid lt ns (as @ np # bs)"
proof -
  let ?R = "\<lambda>p q. lt (node_key ns p) (node_key ns q)"
  have srt: "sorted_wrt ?R (as @ bs)" using levels_sorted(1) [OF lv l] s by simp
  have "lt (node_key ns x) key" if x: "x \<in> set as" for x
  proof -
    have ne: "as \<noteq> []" using x by auto
    then have la: "last as \<in> set as" by simp
    then have "last as \<noteq> sl_head sl" using levels_okD(7) [OF lv l] s by auto
    then have last: "lt (node_key ns (last as)) key" using p ne by (simp add: below_def)
    have "x = last as \<or> ?R x (last as)"
      using x srt ne append_butlast_last_id [OF ne]
      by (metis (no_types, lifting) Un_iff list.set_intros(1) set_ConsD set_append sorted_wrt_append empty_iff empty_set)
    then show ?thesis using last lt_trans by auto
  qed
  moreover have "lt key (node_key ns y)" if "y \<in> set bs" for y
    using that b srt lt_trans by (cases bs) (auto simp: sorted_wrt_append)
  ultimately have "sorted_wrt ?R (as @ np # bs)" using srt np by (auto simp: sorted_wrt_append)
  then have "sorted_wrt lt (map (node_key ns) (as @ np # bs))" by (simp only: sorted_wrt_map)
  moreover have "\<forall>x \<in> set (as @ np # bs). valid (node_key ns x)"
    using levels_okD(6) [OF lv l] key np by (auto simp: sl_sorted_def s)
  ultimately show ?thesis by (simp only: sl_sorted_def simp_thms)
qed

lemma levels_link:
  assumes lv: "levels_ok valid lt sl ns ls" and s: "ls l = as @ bs" and key: "valid (op_key op)"
    and own: "own_ok lt sl ns ls op (Some (np, h, l))"
    and p: "below lt sl ns ls (op_key op) l (last (sl_head sl # as))"
    and b: "\<forall>q. hd_opt bs = Some q \<longrightarrow> lt (op_key op) (node_key ns q)"
    and slot: "load_next ns np l = Some (hd_opt bs)"
    and fr: "tower_frame ns ns'" "heap_ok ns'"
    and upd: "\<And>q k. load_next ns' q k = (if q = last (sl_head sl # as) \<and> k = l then Some (Some np) else load_next ns q k)"
  shows "levels_ok valid lt sl ns' (ls(l := as @ np # bs))"
proof -
  note o = own_okD [OF own]
  have l: "l < MAX_HEAD_HEIGHT" using o(5,6) levels_okD(4) [OF lv] by simp
  have npl: "np \<notin> set (sl_head sl # as @ bs)" using o(3) o(9) [OF l] s by simp
  have plast: "last (sl_head sl # as) \<in> set (sl_head sl # as)" by (rule last_in_set) simp
  have "linked ns' k (sl_head sl) ((ls(l := as @ np # bs)) k)" if k: "k < MAX_HEAD_HEIGHT" for k
  proof (cases "k = l")
    case True
    have "linked ns' l (sl_head sl) (as @ np # bs)"
    proof (rule linked_splice)
      show "linked ns l (sl_head sl) (as @ bs)" using levels_okD(5) [OF lv l] s by simp
      show "distinct (sl_head sl # as @ bs)" using levels_sorted(2) [OF lv l] s by simp
      show "load_next ns' q l = (if q = np then Some (hd_opt bs) else if q = last (sl_head sl # as) then Some (Some np)
        else load_next ns q l)" for q using npl plast slot unfolding upd by auto
    qed (rule npl)
    then show ?thesis using True by simp
  next
    case False
    then have "linked ns' k (sl_head sl) (ls k) = linked ns k (sl_head sl) (ls k)"
      by (intro linked_cong) (simp add: upd)
    then show ?thesis using False levels_okD(5) [OF lv k] by simp
  qed
  moreover have "sl_sorted valid lt ns' (as @ np # bs)"
    using splice_sorted [OF lv l s p key b o(7)] by (simp add: sl_sorted_def tower_frameD [OF fr(1)])
  moreover have "set ((ls(l := as @ np # bs)) (Suc k)) \<subseteq> set ((ls(l := as @ np # bs)) k)" if k: "Suc k < MAX_HEAD_HEIGHT" for k
  proof -
    have old: "set (ls (Suc k)) \<subseteq> set (ls k)" using levels_okD(10) [OF lv k] by blast
    have "np \<in> set (ls k)" if "Suc k = l" using o(9) [of k] k that by simp
    then show ?thesis using old s by auto
  qed
  moreover have "\<forall>x \<in> set (ls l). x \<noteq> sl_head sl \<and> l < node_height ns x \<and> node_height ns x \<le> sl_max_level sl"
    using levels_okD(7,8,11) [OF lv l] by blast
  then have "\<forall>x \<in> set (as @ np # bs). x \<noteq> sl_head sl \<and> l < node_height ns x \<and> node_height ns x \<le> sl_max_level sl"
    using o(3,4,5,6) unfolding s by simp
  ultimately show ?thesis
    using lv fr(2) by (auto simp: levels_ok_def sl_sorted_def tower_frameD [OF fr(1)])
qed

text \<open>What linking a node at a level means for the thread that links it and for the others.\<close>

lemma own_ok_linked:
  assumes lv: "levels_ok valid lt sl ns ls" and own: "own_ok lt sl ns ls op (Some (np, h, l))" and "Suc l < h"
    and le: "conc_le sl ns ls sl ns' ls'" and ls': "ls' = ls(l := as @ np # bs)" and s: "ls l = as @ bs"
    and upd: "\<And>k. Suc l \<le> k \<Longrightarrow> load_next ns' np k = load_next ns np k"
  shows "own_ok lt sl ns' ls' op (Some (np, h, Suc l))"
proof -
  note o = own_okD [OF own] and le' = conc_leD(4-7) [OF le own_okD(2) [OF own]]
  have h8: "h \<le> MAX_HEAD_HEIGHT" using o(5) levels_okD(4) [OF lv] by simp
  show ?thesis
  proof (rule own_okI)
    fix k assume k: "k < MAX_HEAD_HEIGHT"
    show "np \<in> set (ls' k) \<longleftrightarrow> k < Suc l" using o(9) [OF k] ls' by auto
  next
    fix k q assume k: "Suc l \<le> k" "k < h" "load_next ns' np k = Some (Some q)"
    then have "load_next ns np k = Some (Some q)" "l \<le> k" using upd by simp_all
    then have "q \<in> set (ls k)" "lt (op_key op) (node_key ns q)" using o(10,11) k(2) by blast+
    then show "q \<in> set (ls' k) \<and> lt (op_key op) (node_key ns' q)"
      using conc_le_node [OF lv le, of k q] k(2) h8 by simp
  qed (use o le' assms(3) in simp_all)
qed

lemma other_kept:
  assumes lv: "levels_ok valid lt sl ns ls" and own: "own_ok lt sl ns ls op' (Some (q, h, k))" and "q \<noteq> np"
    and l: "l < MAX_HEAD_HEIGHT" and s: "ls l = as @ bs"
    and p: "p = sl_head sl \<or> p \<in> set (ls l)"
    and upd: "\<And>x j. load_next ns' x j = (if x = p \<and> j = l then Some (Some np) else load_next ns x j)"
  shows "own_kept ns ls ns' (ls(l := as @ np # bs)) (Some (q, h, k))"
proof -
  note o = own_okD [OF own]
  have "\<not> k \<le> l" if "q = p" using p that o(3) o(9) [OF l] by auto
  then show ?thesis using s \<open>q \<noteq> np\<close> by (auto simp: own_kept_def upd)
qed

lemma exchange_step_ok:
  assumes heap: "heap_inv hp" and lv: "levels_ok valid lt sl (hp_nodes hp) ls" and key: "valid (op_key op)"
    and ok: "at_ok lt sl (hp_nodes hp) ls op (C_Exchange op np h l t)"
  shows "\<exists>pc' hp' ls'. thread_step cmp base (C_Exchange op np h l t) sl hp = Some (pc', sl, hp')
    \<and> good_step valid lt op sl hp ls (C_Exchange op np h l t) sl hp' ls' pc'"
proof -
  let ?ns = "hp_nodes hp" and ?s = "tc_successors t ! l" and ?pc = "C_Exchange op np h l t"
  have own: "own_ok lt sl ?ns ls op (Some (np, h, l))" and ctx: "ctx_link lt sl ?ns ls (op_key op) (Some (np, h, Suc l)) t l"
    and slot: "load_next ?ns np l = Some ?s" using ok by (simp_all add: at_ok_def)
  note o = own_okD [OF own] and hok = levels_okD(1) [OF lv]
  have l8: "l < MAX_HEAD_HEIGHT" using o(5,6) levels_okD(4) [OF lv] by simp
  have lvl: "ctx_level lt sl ?ns ls (op_key op) t (null_at ?ns (Some (np, h, Suc l)) l) False l"
    and len: "l < length (tc_predecessors t)" "l < length (tc_successors t)"
    using ctx l8 by (simp_all add: ctx_link_def)
  then obtain p where p: "tc_predecessors t ! l = Some p" "below lt sl ?ns ls (op_key op) l p"
    by (auto simp: ctx_level_def)
  obtain as bs where s: "ls l = as @ bs" "p = last (sl_head sl # as)" "load_next ?ns p l = Some (hd_opt bs)"
    by (rule level_split [OF lv l8 below_cases [OF p(2)]])
  have hp: "l < node_height ?ns p" using s(3) load_next_ok [OF hok, of p l] by (simp split: if_splits)
  have pre: "get_at l (tc_predecessors t) = Some (Some p)" "get_at l (tc_successors t) = Some ?s"
    "node_next ?ns p l = Some (Some (p, l))" "slot_load ?ns (Some (p, l)) = Some (hd_opt bs)"
    using len p(1) hp s(3) by (simp_all add: get_at_def node_next_ok [OF hok] slot_load_ok [OF hok hp])
  show ?thesis
  proof (cases "hd_opt bs = ?s")
    case False
    let ?pc' = "C_Search op (if l = 0 then For_Base np h else For_Level np h l)"
    have "thread_step cmp base ?pc sl hp = Some (?pc', sl, hp)"
      using pre False by (simp add: slot_compare_exchange_def)
    moreover have "at_ok lt sl ?ns ls op ?pc'" using own by (auto simp: at_ok_def purpose_ok_def)
    then have "good_step valid lt op sl hp ls ?pc sl hp ls ?pc'"
      using levels_okD(4) [OF lv] by (intro good_step_local [OF heap lv ok]) simp_all
    ultimately show ?thesis by blast
  next
    case True
    obtain ns' where ns': "slot_compare_exchange (Some (p, l)) ?s (Some np) ?ns = Some (True, ns')" "heap_ok ns'"
      "tower_frame ?ns ns'" and upd: "\<And>q k. load_next ns' q k = (if q = p \<and> k = l then Some (Some np) else load_next ?ns q k)"
      using slot_compare_exchange_ok [OF hok hp s(3) [unfolded True], where new = "Some np"] by blast
    let ?pc' = "if Suc l < h then C_Store op np h (Suc l) t else C_Return op (Some np)"
    let ?hp = "hp\<lparr>hp_nodes := ns'\<rparr>" and ?ls = "ls(l := as @ np # bs)"
    have run: "thread_step cmp base ?pc sl hp = Some (?pc', sl, ?hp)" using pre ns'(1) by simp
    have np: "p \<noteq> np" using below_cases [OF p(2)] o(3) o(9) [OF l8] by auto
    have b: "\<forall>q. hd_opt bs = Some q \<longrightarrow> lt (op_key op) (node_key ?ns q)"
      using lvl unfolding True ctx_level_def by (auto split: option.splits)
    have lv': "levels_ok valid lt sl ns' ?ls"
      by (rule levels_link [OF lv s(1) key own _ b _ ns'(3,2)]) (use p(2) slot True upd s(2) in simp_all)
    have le: "conc_le sl ?ns ls sl ns' ?ls" by (rule conc_le_tower [OF ns'(3)]) (auto simp: s(1))
    have keep: "load_next ns' np k = load_next ?ns np k" for k using np by (simp add: upd)
    have kept: "own_kept ?ns ls ns' ?ls (Some (q, h', k))" if "own_ok lt sl ?ns ls op' (Some (q, h', k))" "q \<noteq> np" for op' q h' k
      by (rule other_kept [OF lv that l8 s(1) below_cases [OF p(2)] upd])
    have in0: "np \<in> set (?ls 0)" using o(9) [of 0] by (cases "l = 0") simp_all
    have frame: "ctx_link lt sl ns' ?ls (op_key op) (Some (np, h, Suc l)) t (Suc l)"
    proof -
      have lev: "ctx_level lt sl ?ns ls (op_key op) t (null_at ?ns (Some (np, h, Suc l)) k) False k"
        if "Suc l \<le> k" "k < MAX_HEAD_HEIGHT" for k using ctx that by (simp add: ctx_link_def)
      have "null_at ns' (Some (np, h, Suc l)) k" if "null_at ?ns (Some (np, h, Suc l)) k" for k
        using that by (simp only: null_at_Some keep)
      then have "ctx_level lt sl ns' ?ls (op_key op) t (null_at ns' (Some (np, h, Suc l)) k) False k"
        if "Suc l \<le> k" "k < MAX_HEAD_HEIGHT" for k
        using ctx_level_frame [OF lv le that(2) lev [OF that]] by blast
      then show ?thesis using ctx by (simp add: ctx_link_def)
    qed
    have at: "at_ok lt sl (hp_nodes ?hp) ?ls op ?pc'"
    proof (cases "Suc l < h")
      case True
      then show ?thesis using frame own_ok_linked [OF lv own True le refl s(1) keep] by (simp add: at_ok_def)
    next
      case False
      then show ?thesis using in0 o(1,7) tower_frameD(3) [OF ns'(3)] by (simp add: at_ok_def)
    qed
    have "good_step valid lt op sl hp ls ?pc sl ?hp ?ls ?pc'"
    proof (rule good_stepI)
      fix op' q h' k assume q: "own_ok lt sl ?ns ls op' (Some (q, h', k))"
        and other: "\<And>h' lv'. pc_own ?pc \<noteq> Some (q, h', lv')"
      have "q \<noteq> np" using other [of h l] by auto
      then show "own_kept ?ns ls (hp_nodes ?hp) ?ls (Some (q, h', k)) \<and> (\<forall>h' lv'. pc_own ?pc' \<noteq> Some (q, h', lv'))"
        using kept [OF q] by simp
    next
      fix x assume "x \<in> set (?ls 0)" "x \<notin> set (ls 0)"
      then have "x = np" using s(1) by (auto split: if_splits)
      then show "op_inserts op \<and> node_key (hp_nodes ?hp) x = op_key op \<and> node_value (hp_nodes ?hp) x = op_value op"
        using o(1,7,8) tower_frameD(3,4) [OF ns'(3)] by simp
    next
      fix x k assume x: "x \<in> set (?ls 0)" "k < node_height (hp_nodes ?hp) x"
        and "x \<notin> set (ls 0) \<or> (\<exists>h' lv'. pc_own ?pc = Some (x, h', lv') \<and> lv' \<le> k)"
      then have xn: "x = np" using s(1) by (auto split: if_splits)
      then have k: "k < h" "k < MAX_HEAD_HEIGHT" using x(2) o(4,5) tower_frameD(2) [OF ns'(3)] levels_okD(4) [OF lv] by simp_all
      show "x \<in> set (?ls k) \<or> (\<exists>h' lv'. pc_own ?pc' = Some (x, h', lv') \<and> lv' \<le> k)"
        using o(9) [OF k(2)] k(1) xn by (cases "k \<le> l") (auto simp: le_less)
    qed (use heap_inv_frame [OF heap ns'(2)] ns'(3) lv' at le in \<open>simp_all add: tower_frameD(1)\<close>)
    then show ?thesis using run by blast
  qed
qed

end

text \<open>A new node is in nobody's way.\<close>

lemma fresh_levels:
  assumes lv: "levels_ok valid lt sl ns ls" and np: "np \<notin> dom ns"
    and nd: "node_ok nd" "nd_tower nd = replicate (unat (nd_height nd)) None"
  shows "levels_ok valid lt sl (ns(np \<mapsto> nd)) ls" and "conc_le sl ns ls sl (ns(np \<mapsto> nd)) ls"
    and "own_ok lt' sl ns ls op ow \<Longrightarrow> own_kept ns ls (ns(np \<mapsto> nd)) ls ow"
proof -
  let ?ns = "ns(np \<mapsto> nd)"
  note fresh = fresh_node [OF levels_okD(1) [OF lv] np nd]
  have head: "sl_head sl \<in> dom ns" by (rule height_dom [of 0]) (simp add: levels_okD(2) [OF lv])
  note old = levels_okD(9) [OF lv]
  have "linked ?ns l (sl_head sl) (ls l)" if l: "l < MAX_HEAD_HEIGHT" for l
  proof -
    have "linked ?ns l (sl_head sl) (ls l) = linked ns l (sl_head sl) (ls l)"
      by (intro linked_cong fresh(6)) (use head old [OF l] in auto)
    then show ?thesis using levels_okD(5) [OF lv l] by simp
  qed
  moreover have "sl_sorted valid lt ?ns (ls l)" if l: "l < MAX_HEAD_HEIGHT" for l
  proof -
    have k: "map (node_key ?ns) (ls l) = map (node_key ns) (ls l)" using fresh(4) old [OF l] by simp
    have "\<forall>p \<in> set (ls l). valid (node_key ?ns p)"
      using levels_okD(6) [OF lv l] fresh(4) old [OF l] by (simp add: sl_sorted_def)
    then show ?thesis using levels_okD(6) [OF lv l] unfolding sl_sorted_def k by blast
  qed
  moreover have "\<forall>p \<in> set (ls l). l < node_height ?ns p \<and> node_height ?ns p \<le> sl_max_level sl"
    if l: "l < MAX_HEAD_HEIGHT" for l
    using levels_okD(8,11) [OF lv l] fresh(3) old [OF l] by simp
  ultimately show "levels_ok valid lt sl ?ns ls"
    using lv fresh(1) fresh(3) [OF head] by (simp add: levels_ok_def)
  show "conc_le sl ns ls sl ?ns ls" using fresh(3-5) by (simp add: conc_le_def)
  show "own_kept ns ls ?ns ls ow" if own: "own_ok lt' sl ns ls op ow"
    unfolding own_kept_def
  proof (intro allI impI conjI)
    fix q h k l assume ow: "ow = Some (q, h, k)"
    show "load_next ?ns q l = load_next ns q l" by (rule fresh(6) [OF own_okD(2) [OF own [unfolded ow]]])
  qed simp
qed

lemma alloc_step_ok:
  assumes heap: "heap_inv hp" and lv: "levels_ok valid lt sl (hp_nodes hp) ls" and op: "op_ok valid op"
    and ok: "at_ok lt sl (hp_nodes hp) ls op (C_Alloc op t h)"
  shows "thread_step cmp base (C_Alloc op t h) sl hp = None
      \<and> \<not> node_fits h (length (op_key op)) (length (op_value op)) (hp_arena hp)
    \<or> (\<exists>pc' hp'. thread_step cmp base (C_Alloc op t h) sl hp = Some (pc', sl, hp')
        \<and> good_step valid lt op sl hp ls (C_Alloc op t h) sl hp' ls pc')"
proof -
  let ?ns = "hp_nodes hp" and ?k = "op_key op" and ?v = "op_value op" and ?h = "of_nat h :: u16"
  have i: "op_inserts op" "0 < h" "h \<le> sl_max_level sl" "\<forall>u. t = Some u \<longrightarrow> ctx_link lt sl ?ns ls ?k None u 0"
    using ok by (simp_all add: at_ok_def)
  have h8: "h \<le> MAX_HEAD_HEIGHT" using i(3) levels_okD(4) [OF lv] by simp
  have u: "unat ?h = h" using h8 by (simp add: unat_of_nat MAX_HEAD_HEIGHT_def)
  have len: "unat (of_nat (length ?k) :: u16) = length ?k" "unat (of_nat (length ?v) :: u32) = length ?v"
    using op by (simp_all add: op_ok_def unat_of_nat)
  have uh: "unat ?h \<le> MAX_HEAD_HEIGHT" "0 < unat ?h" using u h8 i(2) by simp_all
  from heap uh show ?thesis
  proof (cases rule: node_alloc_cases [where base = base and k = "of_nat (length ?k)" and v = "of_nat (length ?v)"])
    case full
    then show ?thesis using u len by simp
  next
    case (room p a nd)
    let ?nd = "nd\<lparr>nd_bytes := ?k @ ?v\<rparr>"
    let ?ns' = "?ns(p \<mapsto> ?nd)"
    let ?hp = "\<lparr>hp_arena = a, hp_nodes = ?ns'\<rparr>"
    have nlen: "length (nd_bytes nd) = length ?k + length ?v" "unat (nd_key_len nd) = length ?k" "unat (nd_value_len nd) = length ?v"
      using room(4,6,7) len by (simp_all add: node_ok_def)
    note w = write_node_ok [OF nlen, where np = p and ns = ?ns]
    have nd: "node_ok ?nd" "nd_tower ?nd = replicate (unat (nd_height ?nd)) None" "nd_height ?nd = ?h"
      using room(4,5,8) nlen by (simp_all add: node_ok_def)
    note fl = fresh_levels [OF lv room(3) nd(1,2)] and fresh = fresh_node [OF levels_okD(1) [OF lv] room(3) nd(1,2)]
    obtain m where m: "write_key p 0 ?k (?ns(p \<mapsto> nd)) = Some m" "write_value p ?v m = Some ?ns'"
      using w(1) by (cases "write_key p 0 ?k (?ns(p \<mapsto> nd))") simp_all
    let ?pc = "case t of Some t \<Rightarrow> C_Store op p h 0 t | None \<Rightarrow> C_Search op (For_Base p h)"
    have run: "thread_step cmp base (C_Alloc op t h) sl hp = Some (?pc, sl, ?hp)"
      using h8 room(1) m by simp
    have head: "sl_head sl \<in> dom ?ns" by (rule height_dom [of 0]) (simp add: levels_okD(2) [OF lv])
    have null: "null_at ?ns' (Some (p, h, 0)) l" for l using fresh(7) nd(3) u by (simp add: null_at_Some)
    have own: "own_ok lt sl ?ns' ls op (Some (p, h, 0))"
    proof (rule own_okI)
      show "p \<in> set (ls l) \<longleftrightarrow> l < 0" if "l < MAX_HEAD_HEIGHT" for l
        using levels_okD(9) [OF lv that] room(3) by blast
      show "q \<in> set (ls l) \<and> lt ?k (node_key ?ns' q)" if "l < h" "load_next ?ns' p l = Some (Some q)" for l q
        using null [of l] that by (simp add: null_at_Some)
    qed (use i head room(3) fresh(2) w(2,3) nd(3) u in auto)
    have link: "ctx_link lt sl ?ns' ls ?k (Some (p, h, 0)) x 0" if "t = Some x" for x
    proof -
      have "ctx_link lt sl ?ns' ls ?k None x 0"
        using i(4) that by (intro ctx_link_frame [OF lv fl(2) own_kept_None]) simp
      then show ?thesis using null by (auto simp: ctx_link_def elim!: ctx_level_mono)
    qed
    have at: "at_ok lt sl ?ns' ls op ?pc"
      using own link by (cases t) (simp_all add: at_ok_def purpose_ok_def)
    have ow: "pc_own ?pc = Some (p, h, 0)" by (cases t) simp_all
    have "good_step valid lt op sl hp ls (C_Alloc op t h) sl ?hp ls ?pc"
    proof (rule good_stepI)
      fix op' q h' k assume q: "own_ok lt sl ?ns ls op' (Some (q, h', k))"
      have "q \<noteq> p" using own_okD(2) [OF q] room(3) by blast
      then show "own_kept ?ns ls (hp_nodes ?hp) ls (Some (q, h', k)) \<and> (\<forall>h' lv'. pc_own ?pc \<noteq> Some (q, h', lv'))"
        using fl(3) [OF q] ow by simp
    next
      show "heap_inv ?hp" using heap_inv_frame [OF room(9), of ?ns'] fresh(1) by simp
    qed (use fl(1,2) at in simp_all)
    then show ?thesis using run by blast
  qed
qed

text \<open>The counters, the seed and the height.\<close>

lemma counter_step_ok:
  assumes heap: "heap_inv hp" and lv: "levels_ok valid lt sl (hp_nodes hp) ls" and ok: "at_ok lt sl (hp_nodes hp) ls op pc"
    and pc: "pc \<in> {C_Count op t, C_Seed op t, C_Seed_Store op t x, C_Max op t h, C_Max_Exchange op t h m}"
  shows "\<exists>pc' sl'. thread_step cmp base pc sl hp = Some (pc', sl', hp) \<and> good_step valid lt op sl hp ls pc sl' hp ls pc'"
proof -
  let ?ns = "hp_nodes hp"
  have own: "pc_own pc = None" using pc by auto
  have link: "\<forall>u. t = Some u \<longrightarrow> ctx_link lt sl' ?ns ls (op_key op) None u 0"
    if "sl_head sl' = sl_head sl" "sl_max_level sl \<le> sl_max_level sl'" for sl'
  proof -
    have "conc_le sl ?ns ls sl' ?ns ls" using that by (simp add: conc_le_def)
    from ctx_link_frame [OF lv this own_kept_None] show ?thesis using ok pc by (auto simp: at_ok_def)
  qed
  have fin: ?thesis if "thread_step cmp base pc sl hp = Some (pc', sl', hp)"
      "at_ok lt sl' ?ns ls op pc'" "pc_own pc' = None" "sl_head sl' = sl_head sl" "sl_max_level sl \<le> sl_max_level sl'"
      "sl_max_level sl' \<le> MAX_HEAD_HEIGHT" for sl' pc'
    using that(1) good_step_local [OF heap lv ok that(4-6,2)] that(3) own by auto
  have ins: "op_inserts op" using ok pc by (auto simp: at_ok_def)
  note max = levels_okD(3,4) [OF lv]
  from pc consider "pc = C_Count op t" | "pc = C_Seed op t" | "pc = C_Seed_Store op t x" | "pc = C_Max op t h"
    | "pc = C_Max_Exchange op t h m" by blast
  then show ?thesis
  proof cases
    case 1
    show ?thesis
      by (rule fin [of "C_Seed op t" "sl\<lparr>sl_entries := sl_entries sl + 1\<rparr>"]) (use 1 ins link max in \<open>simp_all add: at_ok_def\<close>)
  next
    case 2
    show ?thesis
      by (rule fin [of "C_Seed_Store op t (xorshift (sl_seed sl))" sl]) (use 2 ins link max in \<open>simp_all add: at_ok_def\<close>)
  next
    case 3
    let ?n = "min MAX_HEAD_HEIGHT (trailing_zeros x + 1)"
    have "lower_height ?ns (sl_head sl) ?n = Some (min ?n 3)"
      by (rule lower_height_ok [OF levels_okD(1,2) [OF lv]]) simp
    then show ?thesis
      by (intro fin [of "C_Max op t (min ?n 3)" "sl\<lparr>sl_seed := x\<rparr>"]) (use 3 ins link max in \<open>simp_all add: at_ok_def min_def\<close>)
  next
    case 4
    then have "0 < h \<and> h \<le> MAX_HEAD_HEIGHT" using ok by (simp add: at_ok_def)
    then show ?thesis
      by (intro fin [of "C_Max_Exchange op t h (sl_max_level sl)" sl]) (use 4 ins link max in \<open>simp_all add: at_ok_def\<close>)
  next
    case 5
    then have h: "0 < h" "h \<le> MAX_HEAD_HEIGHT" "m \<le> sl_max_level sl" using ok by (simp_all add: at_ok_def)
    consider "h \<le> m" | "m < h" "sl_max_level sl = m" | "m < h" "sl_max_level sl \<noteq> m" by linarith
    then show ?thesis
    proof cases
      case 1
      then show ?thesis by (intro fin [of "C_Alloc op t h" sl]) (use 5 h ins link max in \<open>simp_all add: at_ok_def\<close>)
    next
      case 2
      then show ?thesis
        by (intro fin [of "C_Alloc op t h" "sl\<lparr>sl_max_level := h\<rparr>"]) (use 5 h ins link max in \<open>simp_all add: at_ok_def\<close>)
    next
      case 3
      then show ?thesis
        by (intro fin [of "C_Max_Exchange op t h (sl_max_level sl)" sl]) (use 5 h ins link max in \<open>simp_all add: at_ok_def\<close>)
    qed
  qed
qed

lemma weak_step_ok:
  assumes heap: "heap_inv hp" and lv: "levels_ok valid lt sl (hp_nodes hp) ls"
    and ok: "at_ok lt sl (hp_nodes hp) ls op (C_Max_Exchange op t h m)"
  shows "good_step valid lt op sl hp ls (C_Max_Exchange op t h m) sl hp ls (C_Max_Exchange op t h (sl_max_level sl))"
  by (rule good_step_local [OF heap lv ok]) (use ok levels_okD(4) [OF lv] in \<open>simp_all add: at_ok_def\<close>)

context comparator
begin

lemma thread_step_good:
  assumes heap: "heap_inv hp" and lv: "levels_ok valid lt sl (hp_nodes hp) ls" and op: "op_ok valid op"
    and ok: "at_ok lt sl (hp_nodes hp) ls op pc" and run: "running pc"
  shows "thread_step cmp base pc sl hp = None \<and> (\<exists>t h. pc = C_Alloc op t h
      \<and> \<not> node_fits h (length (op_key op)) (length (op_value op)) (hp_arena hp))
    \<or> (\<exists>pc' sl' hp' ls'. thread_step cmp base pc sl hp = Some (pc', sl', hp')
        \<and> good_step valid lt op sl hp ls pc sl' hp' ls' pc')"
proof -
  note thread_step.simps [simp del]
  have key: "valid (op_key op)" using op by (simp add: op_ok_def)
  have search: "\<exists>pc' sl' hp' ls'. thread_step cmp base pc sl hp = Some (pc', sl', hp')
      \<and> good_step valid lt op sl hp ls pc sl' hp' ls' pc'"
    if pc: "pc = C_Search op pu \<or> (\<exists>n. pc = C_Skip op pu n) \<or> (\<exists>n p t. pc = C_Level op pu n p t) \<or> (\<exists>n p c t. pc = C_Right op pu n p c t)"
    for pu
  proof -
    have "pu = For_Key \<or> op_inserts op"
    proof (cases "purpose_own pu")
      case None
      then show ?thesis by (cases pu) simp_all
    next
      case (Some w)
      then have "pc_own pc = Some w" using pc by auto
      then show ?thesis using ok by (cases w) (auto simp: at_ok_def own_ok_def)
    qed
    from search_step_ok [OF lv key ok pc this, of base] obtain pc' where s:
      "thread_step cmp base pc sl hp = Some (pc', sl, hp)" "at_ok lt sl (hp_nodes hp) ls op pc'" by blast
    have "good_step valid lt op sl hp ls pc sl hp ls pc'"
      by (rule good_step_local [OF heap lv ok _ _ _ s(2) search_step_own [OF s(1) pc]]) (use levels_okD(4) [OF lv] in simp_all)
    then show ?thesis using s(1) by blast
  qed
  have pcop: "pc_op pc = Some op" using ok by (simp add: at_ok_def)
  show ?thesis
  proof (cases pc)
    case (C_Alloc op' t h)
    then have pc: "pc = C_Alloc op t h" using pcop by simp
    show ?thesis using alloc_step_ok [OF heap lv op ok [unfolded pc], of cmp base] unfolding pc by blast
  next
    case (C_Store op' np h l t)
    then have pc: "pc = C_Store op np h l t" using pcop by simp
    show ?thesis using store_step_ok [OF heap lv ok [unfolded pc], of cmp base] unfolding pc by blast
  next
    case (C_Exchange op' np h l t)
    then have pc: "pc = C_Exchange op np h l t" using pcop by simp
    show ?thesis using exchange_step_ok [OF heap lv key ok [unfolded pc], of base] unfolding pc by blast
  next
    case (C_Count op' t)
    then have "pc = C_Count op t" using pcop by simp
    then show ?thesis using counter_step_ok [OF heap lv ok, where t = t and cmp = cmp and base = base] by blast
  next
    case (C_Seed op' t)
    then have "pc = C_Seed op t" using pcop by simp
    then show ?thesis using counter_step_ok [OF heap lv ok, where t = t and cmp = cmp and base = base] by blast
  next
    case (C_Seed_Store op' t x)
    then have "pc = C_Seed_Store op t x" using pcop by simp
    then show ?thesis using counter_step_ok [OF heap lv ok, where t = t and x = x and cmp = cmp and base = base] by blast
  next
    case (C_Max op' t h)
    then have "pc = C_Max op t h" using pcop by simp
    then show ?thesis using counter_step_ok [OF heap lv ok, where t = t and h = h and cmp = cmp and base = base] by blast
  next
    case (C_Max_Exchange op' t h m)
    then have "pc = C_Max_Exchange op t h m" using pcop by simp
    then show ?thesis using counter_step_ok [OF heap lv ok, where t = t and h = h and m = m and cmp = cmp and base = base] by blast
  qed (use run pcop search in auto)
qed

end

end
