(* ===== verification/Skip_List_Runs.thy ===== *)
theory Skip_List_Runs
  imports Skip_List_Conc
begin

text \<open>
  Runs of threads on the skip list of \<open>mem_skip_list.rs\<close>: the invariant of the whole system, built from
  what one step of a thread does, and the properties of concurrent insertions and searches.
\<close>

section \<open>The invariant of a run\<close>

definition op_entry :: "conc_op \<Rightarrow> bytes \<times> bytes" where
  "op_entry op = (op_key op, op_value op)"

definition node_entry :: "nodes \<Rightarrow> node_ptr \<Rightarrow> bytes \<times> bytes" where
  "node_entry ns p = (node_key ns p, node_value ns p)"

definition inserted :: "conc_op list \<Rightarrow> (bytes \<times> bytes) set" where
  "inserted ops = op_entry ` {op \<in> set ops. op_inserts op}"

definition unfinished :: "conc_pc \<Rightarrow> bool" where
  "unfinished pc \<longleftrightarrow> (case pc of C_Idle \<Rightarrow> False | C_Return _ _ \<Rightarrow> False | _ \<Rightarrow> True)"

text \<open>The threads and the nodes they own.\<close>

definition threads_ok ::
  "(bytes \<Rightarrow> bool) \<Rightarrow> (bytes \<Rightarrow> bytes \<Rightarrow> bool) \<Rightarrow> skip_list \<Rightarrow> nodes \<Rightarrow> levels \<Rightarrow> conc_op list \<Rightarrow> conc_pc list \<Rightarrow> bool" where
  "threads_ok valid lt sl ns ls calls pcs \<longleftrightarrow>
     (\<forall>i < length pcs. \<forall>op. pc_op (pcs ! i) = Some op \<longrightarrow>
        op \<in> set calls \<and> op_ok valid op \<and> at_ok lt sl ns ls op (pcs ! i))
     \<and> (\<forall>i < length pcs. \<forall>j < length pcs. \<forall>p h l h' l'.
          i \<noteq> j \<longrightarrow> pc_own (pcs ! i) = Some (p, h, l) \<longrightarrow> pc_own (pcs ! j) \<noteq> Some (p, h', l'))"

text \<open>Every linked node is linked at all its levels, except for those its owner has still to link.\<close>

definition towers_ok :: "nodes \<Rightarrow> levels \<Rightarrow> conc_pc list \<Rightarrow> bool" where
  "towers_ok ns ls pcs \<longleftrightarrow> (\<forall>p \<in> set (ls 0). \<forall>l < node_height ns p. p \<in> set (ls l)
     \<or> (\<exists>i < length pcs. \<exists>h k. pc_own (pcs ! i) = Some (p, h, k) \<and> k \<le> l))"

text \<open>The entries are those of the start and of the calls; the key of a call that has returned is there.\<close>

definition entries_ok :: "(bytes \<times> bytes) set \<Rightarrow> nodes \<Rightarrow> node_ptr list \<Rightarrow> conc_op list \<Rightarrow> conc_pc list \<Rightarrow> bool" where
  "entries_ok E ns ps calls pcs \<longleftrightarrow> node_entry ns ` set ps \<subseteq> E \<union> inserted calls \<and> E \<subseteq> node_entry ns ` set ps
     \<and> (\<forall>op \<in> set calls. op_inserts op \<longrightarrow> op_key op \<in> node_key ns ` set ps
          \<or> (\<exists>i < length pcs. pc_op (pcs ! i) = Some op \<and> unfinished (pcs ! i)))"

definition conc_inv ::
  "(bytes \<Rightarrow> bool) \<Rightarrow> (bytes \<Rightarrow> bytes \<Rightarrow> bool) \<Rightarrow> (bytes \<times> bytes) set \<Rightarrow> conc_sys \<Rightarrow> levels \<Rightarrow> bool" where
  "conc_inv valid lt E s ls \<longleftrightarrow> heap_inv (cs_heap s) \<and> levels_ok valid lt (cs_list s) (hp_nodes (cs_heap s)) ls
     \<and> threads_ok valid lt (cs_list s) (hp_nodes (cs_heap s)) ls (cs_calls s) (cs_pc s)
     \<and> towers_ok (hp_nodes (cs_heap s)) ls (cs_pc s)
     \<and> entries_ok E (hp_nodes (cs_heap s)) (ls 0) (cs_calls s) (cs_pc s)"

lemma threads_okD:
  assumes "threads_ok valid lt sl ns ls calls pcs" and "i < length pcs"
  shows "pc_op (pcs ! i) = Some op \<Longrightarrow> op \<in> set calls" and "pc_op (pcs ! i) = Some op \<Longrightarrow> op_ok valid op"
    and "pc_op (pcs ! i) = Some op \<Longrightarrow> at_ok lt sl ns ls op (pcs ! i)"
    and "j < length pcs \<Longrightarrow> i \<noteq> j \<Longrightarrow> pc_own (pcs ! i) = Some (p, h, l) \<Longrightarrow> pc_own (pcs ! j) \<noteq> Some (p, h', l')"
  using assms unfolding threads_ok_def by blast+

lemma pc_op_own: "pc_op pc = None \<Longrightarrow> pc_own pc = None"
  by (cases pc) simp_all

lemma finished_key:
  assumes "at_ok lt sl ns ls op pc" and "op_inserts op" and "\<not> unfinished pc"
  shows "op_key op \<in> node_key ns ` set (ls 0)"
  using assms by (cases pc) (auto simp: at_ok_def unfinished_def intro: rev_image_eqI)

lemma good_stepD:
  assumes "good_step valid lt op sl hp ls pc sl' hp' ls' pc'"
  shows "heap_inv hp'" and "levels_ok valid lt sl' (hp_nodes hp') ls'" and "at_ok lt sl' (hp_nodes hp') ls' op pc'"
    and "conc_le sl (hp_nodes hp) ls sl' (hp_nodes hp') ls'"
    and "own_ok lt sl (hp_nodes hp) ls op' (Some (q, h, k)) \<Longrightarrow> (\<And>h' k'. pc_own pc \<noteq> Some (q, h', k')) \<Longrightarrow>
      own_kept (hp_nodes hp) ls (hp_nodes hp') ls' (Some (q, h, k))"
    and "own_ok lt sl (hp_nodes hp) ls op' (Some (q, h, k)) \<Longrightarrow> (\<And>h' k'. pc_own pc \<noteq> Some (q, h', k')) \<Longrightarrow>
      pc_own pc' \<noteq> Some (q, h', k')"
    and "p \<in> set (ls' 0) \<Longrightarrow> p \<notin> set (ls 0) \<Longrightarrow> op_inserts op \<and> node_entry (hp_nodes hp') p = op_entry op"
    and "p \<in> set (ls' 0) \<Longrightarrow> l < node_height (hp_nodes hp') p \<Longrightarrow>
      p \<notin> set (ls 0) \<or> (\<exists>h k. pc_own pc = Some (p, h, k) \<and> k \<le> l) \<Longrightarrow>
      p \<in> set (ls' l) \<or> (\<exists>h k. pc_own pc' = Some (p, h, k) \<and> k \<le> l)"
  using assms unfolding good_step_def op_entry_def node_entry_def prod.inject by blast+

section \<open>Preservation\<close>

lemma threads_step:
  assumes old: "threads_ok valid lt sl (hp_nodes hp) ls calls pcs" and lv: "levels_ok valid lt sl (hp_nodes hp) ls"
    and i: "i < length pcs" and op: "pc_op (pcs ! i) = Some op"
    and good: "good_step valid lt op sl hp ls (pcs ! i) sl' hp' ls' pc'"
  shows "threads_ok valid lt sl' (hp_nodes hp') ls' calls (pcs[i := pc'])"
proof -
  note D = threads_okD [OF old] and g = good_stepD [OF good]
  have own: "own_ok lt sl (hp_nodes hp) ls op' (pc_own (pcs ! j))" if "j < length pcs" "pc_op (pcs ! j) = Some op'" for j op'
    using D(3) [OF that] by (simp add: at_ok_def)
  have other: "own_kept (hp_nodes hp) ls (hp_nodes hp') ls' (Some (q, h, k))" "pc_own pc' \<noteq> Some (q, h', k')"
    if j: "j < length pcs" "j \<noteq> i" and w: "pc_own (pcs ! j) = Some (q, h, k)" for j q h k h' k'
  proof -
    obtain op' where op': "pc_op (pcs ! j) = Some op'" using pc_op_own [of "pcs ! j"] w by (cases "pc_op (pcs ! j)") simp_all
    have o: "own_ok lt sl (hp_nodes hp) ls op' (Some (q, h, k))" using own [OF j(1) op'] w by simp
    have n: "pc_own (pcs ! i) \<noteq> Some (q, h', k')" for h' k' using D(4) [OF j(1) i j(2) w] .
    show "own_kept (hp_nodes hp) ls (hp_nodes hp') ls' (Some (q, h, k))" by (rule g(5) [OF o n])
    show "pc_own pc' \<noteq> Some (q, h', k')" by (rule g(6) [OF o n])
  qed
  have kept: "own_kept (hp_nodes hp) ls (hp_nodes hp') ls' (pc_own (pcs ! j))" if "j < length pcs" "j \<noteq> i" for j
  proof (cases "pc_own (pcs ! j)")
    case None
    then show ?thesis by (simp add: own_kept_None)
  next
    case (Some w)
    obtain q h k where "w = (q, h, k)" by (rule prod_cases3)
    then show ?thesis using other(1) [OF that] Some by simp
  qed
  have "op' \<in> set calls \<and> op_ok valid op' \<and> at_ok lt sl' (hp_nodes hp') ls' op' (pcs[i := pc'] ! j)"
    if j: "j < length pcs" and o: "pc_op (pcs[i := pc'] ! j) = Some op'" for j op'
  proof (cases "j = i")
    case True
    then have "pc_op pc' = Some op'" using o i by simp
    moreover have "pc_op pc' = Some op" using g(3) by (simp add: at_ok_def)
    ultimately have "op' = op" by simp
    then show ?thesis using True i g(3) D(1,2) [OF i op] by simp
  next
    case False
    then have o': "pc_op (pcs ! j) = Some op'" using o by simp
    have "at_ok lt sl' (hp_nodes hp') ls' op' (pcs ! j)"
      using D(3) [OF j o'] pc_inv_frame [OF lv g(4) kept [OF j False]] own_ok_frame [OF lv g(4) kept [OF j False]]
      by (simp add: at_ok_def)
    then show ?thesis using False D(1,2) [OF j o'] by simp
  qed
  moreover have "pc_own (pcs[i := pc'] ! b) \<noteq> Some (p, h', l')"
    if ab: "a < length pcs" "b < length pcs" "a \<noteq> b" "pc_own (pcs[i := pc'] ! a) = Some (p, h, l)" for a b p h l h' l'
  proof -
    consider "a = i" "b \<noteq> i" | "b = i" "a \<noteq> i" | "a \<noteq> i" "b \<noteq> i" using ab(3) by blast
    then show ?thesis
    proof cases
      case 1
      then have "pc_own pc' = Some (p, h, l)" using ab(4) i by simp
      then show ?thesis using other(2) [OF ab(2) 1(2), of p h' l' h l] 1(2) by auto
    next
      case 2
      then show ?thesis using other(2) [OF ab(1) 2(2)] ab(4) i by simp
    next
      case 3
      then show ?thesis using D(4) [OF ab(1-3)] ab(4) by simp
    qed
  qed
  ultimately show ?thesis unfolding threads_ok_def length_list_update by blast
qed

lemma towers_step:
  assumes old: "towers_ok (hp_nodes hp) ls pcs" and lv: "levels_ok valid lt sl (hp_nodes hp) ls" and i: "i < length pcs"
    and good: "good_step valid lt op sl hp ls (pcs ! i) sl' hp' ls' pc'"
  shows "towers_ok (hp_nodes hp') ls' (pcs[i := pc'])"
proof -
  note g = good_stepD [OF good]
  have "p \<in> set (ls' l) \<or> (\<exists>j < length pcs. \<exists>h k. pc_own (pcs[i := pc'] ! j) = Some (p, h, k) \<and> k \<le> l)"
    if p: "p \<in> set (ls' 0)" and l: "l < node_height (hp_nodes hp') p" for p l
  proof (cases "p \<notin> set (ls 0) \<or> (\<exists>h k. pc_own (pcs ! i) = Some (p, h, k) \<and> k \<le> l)")
    case True
    from g(8) [OF p l this] show ?thesis
    proof (elim disjE exE)
      fix h k assume w: "pc_own pc' = Some (p, h, k) \<and> k \<le> l"
      have "pcs[i := pc'] ! i = pc'" using i by simp
      then have "\<exists>j < length pcs. \<exists>h k. pc_own (pcs[i := pc'] ! j) = Some (p, h, k) \<and> k \<le> l" using w i by metis
      then show ?thesis ..
    qed simp
  next
    case False
    then have p0: "p \<in> set (ls 0)" by blast
    have l8: "l < MAX_HEAD_HEIGHT" using l node_height_le [OF levels_okD(1) [OF g(2)], of p] by simp
    have "l < node_height (hp_nodes hp) p"
      using l conc_leD(5) [OF g(4)] levels_okD(9) [OF lv MAX_HEAD_HEIGHT_pos p0] by simp
    then consider "p \<in> set (ls l)" | j h k where "j < length pcs" "pc_own (pcs ! j) = Some (p, h, k)" "k \<le> l"
      using old p0 unfolding towers_ok_def by blast
    then show ?thesis
    proof cases
      case 1
      then show ?thesis using conc_leD(3) [OF g(4) l8] by blast
    next
      case (2 j h k)
      then have "j \<noteq> i" using False by blast
      then show ?thesis using 2 by (metis nth_list_update_neq)
    qed
  qed
  then show ?thesis unfolding towers_ok_def length_list_update by blast
qed

lemma entries_step:
  assumes old: "entries_ok E (hp_nodes hp) (ls 0) calls pcs" and lv: "levels_ok valid lt sl (hp_nodes hp) ls"
    and i: "i < length pcs" and op: "pc_op (pcs ! i) = Some op" "op \<in> set calls"
    and good: "good_step valid lt op sl hp ls (pcs ! i) sl' hp' ls' pc'"
  shows "entries_ok E (hp_nodes hp') (ls' 0) calls (pcs[i := pc'])"
proof -
  note g = good_stepD [OF good]
  have keep: "p \<in> set (ls' 0)" "node_entry (hp_nodes hp') p = node_entry (hp_nodes hp) p"
    "node_key (hp_nodes hp') p = node_key (hp_nodes hp) p" if "p \<in> set (ls 0)" for p
    using conc_leD(3,6,7) [OF g(4)] levels_okD(9) [OF lv MAX_HEAD_HEIGHT_pos that] that by (simp_all add: node_entry_def)
  have "node_entry (hp_nodes hp') p \<in> E \<union> inserted calls" if "p \<in> set (ls' 0)" for p
  proof (cases "p \<in> set (ls 0)")
    case True
    then show ?thesis using old keep(2) [OF True] by (auto simp: entries_ok_def)
  next
    case False
    then show ?thesis using g(7) [OF that False] op(2) by (auto simp: inserted_def)
  qed
  moreover have "E \<subseteq> node_entry (hp_nodes hp') ` set (ls' 0)"
  proof
    fix e assume "e \<in> E"
    then obtain p where "p \<in> set (ls 0)" "e = node_entry (hp_nodes hp) p" using old by (auto simp: entries_ok_def)
    then show "e \<in> node_entry (hp_nodes hp') ` set (ls' 0)" using keep(1,2) by (intro rev_image_eqI [of p]) simp_all
  qed
  moreover have "op' \<in> set calls \<Longrightarrow> op_inserts op' \<Longrightarrow> op_key op' \<in> node_key (hp_nodes hp') ` set (ls' 0)
      \<or> (\<exists>j < length pcs. pc_op (pcs[i := pc'] ! j) = Some op' \<and> unfinished (pcs[i := pc'] ! j))" for op'
  proof -
    assume o: "op' \<in> set calls" "op_inserts op'"
    then consider "op_key op' \<in> node_key (hp_nodes hp) ` set (ls 0)"
      | j where "j < length pcs" "pc_op (pcs ! j) = Some op'" "unfinished (pcs ! j)"
      using old unfolding entries_ok_def by blast
    then show ?thesis
    proof cases
      case 1
      then obtain p where "p \<in> set (ls 0)" "op_key op' = node_key (hp_nodes hp) p" by blast
      then have "op_key op' \<in> node_key (hp_nodes hp') ` set (ls' 0)" using keep(1,3) by (intro rev_image_eqI [of p]) simp_all
      then show ?thesis ..
    next
      case (2 j)
      show ?thesis
      proof (cases "j = i")
        case False
        then show ?thesis using 2 by (metis nth_list_update_neq)
      next
        case True
        then have eq: "op' = op" using 2 op(1) by simp
        have at: "at_ok lt sl' (hp_nodes hp') ls' op pc'" by (rule g(3))
        have "op_key op \<in> node_key (hp_nodes hp') ` set (ls' 0) \<or> unfinished pc'"
          using finished_key [OF at] o(2) eq by blast
        then show ?thesis using at i eq by (metis at_ok_def nth_list_update_eq)
      qed
    qed
  qed
  ultimately show ?thesis unfolding entries_ok_def length_list_update by blast
qed

lemma conc_inv_good:
  assumes inv: "conc_inv valid lt E s ls" and i: "i < length (cs_pc s)" and op: "pc_op (cs_pc s ! i) = Some op"
    and good: "good_step valid lt op (cs_list s) (cs_heap s) ls (cs_pc s ! i) sl' hp' ls' pc'"
  shows "conc_inv valid lt E (s\<lparr>cs_list := sl', cs_heap := hp', cs_pc := (cs_pc s)[i := pc']\<rparr>) ls'"
proof -
  have I: "levels_ok valid lt (cs_list s) (hp_nodes (cs_heap s)) ls"
    "threads_ok valid lt (cs_list s) (hp_nodes (cs_heap s)) ls (cs_calls s) (cs_pc s)"
    "towers_ok (hp_nodes (cs_heap s)) ls (cs_pc s)"
    "entries_ok E (hp_nodes (cs_heap s)) (ls 0) (cs_calls s) (cs_pc s)" using inv by (simp_all add: conc_inv_def)
  show ?thesis
    using good_stepD(1,2) [OF good] threads_step [OF I(2,1) i op good] towers_step [OF I(3,1) i good]
      entries_step [OF I(4,1) i op threads_okD(1) [OF I(2) i op] good] by (simp add: conc_inv_def)
qed

lemma first_pc_ok: "at_ok lt sl ns ls op (first_pc op)" "pc_own (first_pc op) = None" "unfinished (first_pc op)"
  by (cases op; simp add: first_pc_def at_ok_def purpose_ok_def op_inserts_def unfinished_def)+

lemma conc_inv_call:
  assumes inv: "conc_inv valid lt E s ls" and i: "i < length (cs_pc s)" and pc: "\<not> unfinished (cs_pc s ! i)"
    and op: "op_ok valid op"
  shows "conc_inv valid lt E (s\<lparr>cs_pc := (cs_pc s)[i := first_pc op], cs_calls := op # cs_calls s\<rparr>) ls"
proof -
  let ?ns = "hp_nodes (cs_heap s)" and ?sl = "cs_list s" and ?pcs = "(cs_pc s)[i := first_pc op]" and ?calls = "op # cs_calls s"
  have I: "threads_ok valid lt ?sl ?ns ls (cs_calls s) (cs_pc s)" "towers_ok ?ns ls (cs_pc s)"
    "entries_ok E ?ns (ls 0) (cs_calls s) (cs_pc s)" using inv by (simp_all add: conc_inv_def)
  have own: "pc_own (cs_pc s ! i) = None" using pc by (cases "cs_pc s ! i") (simp_all add: unfinished_def)
  have own': "pc_own (?pcs ! j) = pc_own (cs_pc s ! j)" if "j < length (cs_pc s)" for j
    using own first_pc_ok(2) that by (cases "j = i") simp_all
  have "threads_ok valid lt ?sl ?ns ls ?calls ?pcs"
  proof -
    have "op' \<in> set ?calls \<and> op_ok valid op' \<and> at_ok lt ?sl ?ns ls op' (?pcs ! j)"
      if "j < length (cs_pc s)" "pc_op (?pcs ! j) = Some op'" for j op'
    proof (cases "j = i")
      case True
      then have "op' = op" using that i first_pc_ok(1) [of lt ?sl ?ns ls op] by (simp add: at_ok_def)
      then show ?thesis using True i op first_pc_ok(1) by simp
    next
      case False
      then show ?thesis using that threads_okD(1-3) [OF I(1) that(1), of op'] by simp
    qed
    moreover have "pc_own (?pcs ! b) \<noteq> Some (p, h', l')"
      if "a < length (cs_pc s)" "b < length (cs_pc s)" "a \<noteq> b" "pc_own (?pcs ! a) = Some (p, h, l)" for a b p h l h' l'
      using threads_okD(4) [OF I(1) that(1-3)] that(4) unfolding own' [OF that(1)] own' [OF that(2)] by blast
    ultimately show ?thesis unfolding threads_ok_def length_list_update by blast
  qed
  moreover have "towers_ok ?ns ls ?pcs"
    using I(2) own' unfolding towers_ok_def length_list_update by (metis (no_types, lifting))
  moreover have "entries_ok E ?ns (ls 0) ?calls ?pcs"
  proof -
    have "op_key op' \<in> node_key ?ns ` set (ls 0) \<or> (\<exists>j < length (cs_pc s). pc_op (?pcs ! j) = Some op' \<and> unfinished (?pcs ! j))"
      if o: "op' \<in> set ?calls" "op_inserts op'" for op'
    proof (cases "op' = op")
      case True
      then show ?thesis using i first_pc_ok(1) [of lt ?sl ?ns ls op] first_pc_ok(3) by (metis at_ok_def nth_list_update_eq)
    next
      case False
      then consider "op_key op' \<in> node_key ?ns ` set (ls 0)"
        | j where "j < length (cs_pc s)" "pc_op (cs_pc s ! j) = Some op'" "unfinished (cs_pc s ! j)"
        using I(3) o unfolding entries_ok_def by auto
      then show ?thesis
      proof cases
        case (2 j)
        then have "j \<noteq> i" using pc by blast
        then show ?thesis using 2 by (metis nth_list_update_neq)
      qed blast
    qed
    moreover have "inserted (cs_calls s) \<subseteq> inserted ?calls" by (auto simp: inserted_def)
    ultimately show ?thesis using I(3) unfolding entries_ok_def length_list_update by blast
  qed
  ultimately show ?thesis using inv by (simp add: conc_inv_def)
qed

section \<open>Runs\<close>

definition conc_start :: "nat \<Rightarrow> skip_list \<Rightarrow> node_heap \<Rightarrow> conc_sys" where
  "conc_start n sl hp = \<lparr>cs_list = sl, cs_heap = hp, cs_pc = replicate n C_Idle, cs_calls = []\<rparr>"

lemma conc_start_inv:
  assumes inv: "sl_inv valid lt sl hp ps" and "1 \<le> sl_max_level sl"
  shows "conc_inv valid lt (set (sl_contents (hp_nodes hp) ps)) (conc_start n sl hp) (\<lambda>l. at_level (hp_nodes hp) l ps)"
proof -
  let ?ns = "hp_nodes hp"
  note links = sl_invD(2) [OF inv] and srt = sl_invD(3) [OF inv]
  have a0: "at_level ?ns 0 ps = ps" by (rule at_level_0 [OF links]) simp
  have "sl_sorted valid lt ?ns (at_level ?ns l ps)" for l
  proof -
    have "sorted_wrt (\<lambda>p q. lt (node_key ?ns p) (node_key ?ns q)) ps" using srt by (simp add: sl_sorted_def sorted_wrt_map)
    from sorted_wrt_filter [OF this] have "sorted_wrt lt (map (node_key ?ns) (at_level ?ns l ps))" by (simp only: sorted_wrt_map)
    then show ?thesis using srt by (auto simp: sl_sorted_def)
  qed
  then have "levels_ok valid lt sl ?ns (\<lambda>l. at_level ?ns l ps)"
    using links assms(2) by (auto simp: levels_ok_def sl_links_def)
  moreover have "threads_ok valid lt sl ?ns (\<lambda>l. at_level ?ns l ps) [] (replicate n C_Idle)" by (simp add: threads_ok_def)
  moreover have "towers_ok ?ns (\<lambda>l. at_level ?ns l ps) (replicate n C_Idle)" by (simp add: towers_ok_def)
  moreover have "node_entry ?ns ` set ps = set (sl_contents ?ns ps)" by (simp add: sl_contents_def node_entry_def)
  then have "entries_ok (set (sl_contents ?ns ps)) ?ns (at_level ?ns 0 ps) [] (replicate n C_Idle)"
    unfolding a0 by (simp add: entries_ok_def)
  ultimately show ?thesis using sl_invD(1) [OF inv] by (simp add: conc_inv_def conc_start_def)
qed

lemma conc_run_trans:
  assumes "conc_run cmp base valid callers b c" and "conc_run cmp base valid callers a b"
  shows "conc_run cmp base valid callers a c"
  using assms by (induction rule: conc_run.induct) (auto intro: cs_more)

text \<open>Nodes and levels of two states of a run.\<close>

abbreviation sys_le :: "conc_sys \<Rightarrow> levels \<Rightarrow> conc_sys \<Rightarrow> levels \<Rightarrow> bool" where
  "sys_le s ls t ls' \<equiv> conc_le (cs_list s) (hp_nodes (cs_heap s)) ls (cs_list t) (hp_nodes (cs_heap t)) ls'"

lemma conc_le_trans:
  assumes "conc_le a ns ls b ns' ls'" and "conc_le b ns' ls' c ns'' ls''"
  shows "conc_le a ns ls c ns'' ls''"
  unfolding conc_le_def
proof (intro conjI allI ballI impI)
  fix l assume l: "l < MAX_HEAD_HEIGHT"
  show "set (ls l) \<subseteq> set (ls'' l)" using conc_leD(3) [OF assms(1) l] conc_leD(3) [OF assms(2) l] by blast
next
  fix p assume p: "p \<in> dom ns"
  have p': "p \<in> dom ns'" by (rule conc_leD(4) [OF assms(1) p])
  show "p \<in> dom ns''" by (rule conc_leD(4) [OF assms(2) p'])
  show "node_height ns'' p = node_height ns p" "node_key ns'' p = node_key ns p" "node_value ns'' p = node_value ns p"
    using conc_leD(5-7) [OF assms(1) p] conc_leD(5-7) [OF assms(2) p'] by simp_all
qed (use conc_leD(1,2) [OF assms(1)] conc_leD(1,2) [OF assms(2)] in simp_all)

context comparator
begin

lemma conc_step_inv:
  assumes inv: "conc_inv valid lt E s ls" and step: "conc_step cmp base valid callers i s t"
  obtains ls' where "conc_inv valid lt E t ls'" and "sys_le s ls t ls'"
proof -
  let ?ns = "hp_nodes (cs_heap s)"
  have I: "heap_inv (cs_heap s)" "levels_ok valid lt (cs_list s) ?ns ls"
    "threads_ok valid lt (cs_list s) ?ns ls (cs_calls s) (cs_pc s)" using inv by (simp_all add: conc_inv_def)
  have fin: thesis if "i < length (cs_pc s)" "pc_op (cs_pc s ! i) = Some op"
      "good_step valid lt op (cs_list s) (cs_heap s) ls (cs_pc s ! i) sl' hp' ls' pc'"
      "t = s\<lparr>cs_list := sl', cs_heap := hp', cs_pc := (cs_pc s)[i := pc']\<rparr>" for op sl' hp' ls' pc'
    using \<open>\<And>ls'. conc_inv valid lt E t ls' \<Longrightarrow> sys_le s ls t ls' \<Longrightarrow> thesis\<close>
      conc_inv_good [OF inv that(1-3)] good_stepD(4) [OF that(3)] that(4) by simp
  from step show thesis
  proof cases
    case (cs_run pc sl hp)
    have run: "running (cs_pc s ! i)" using cs_run(3) by (cases "cs_pc s ! i") simp_all
    then obtain op where op: "pc_op (cs_pc s ! i) = Some op" by (cases "cs_pc s ! i") simp_all
    from thread_step_good [OF I(1,2) threads_okD(2,3) [OF I(3) cs_run(2) op] run, of base]
    obtain ls' where "good_step valid lt op (cs_list s) (cs_heap s) ls (cs_pc s ! i) sl hp ls' pc"
      using cs_run(3) by auto
    then show thesis by (rule fin [OF cs_run(2) op _ cs_run(1)])
  next
    case (cs_panic op)
    from thread_step_good [OF I(1,2) threads_okD(2,3) [OF I(3) cs_panic(2,4)] cs_panic(3), of base]
    obtain u h where pc: "cs_pc s ! i = C_Alloc op u h" using cs_panic(5) by auto
    have ok: "at_ok lt (cs_list s) ?ns ls op (C_Alloc op u h)" using threads_okD(3) [OF I(3) cs_panic(2,4)] pc by simp
    have "good_step valid lt op (cs_list s) (cs_heap s) ls (cs_pc s ! i) (cs_list s) (cs_heap s) ls (C_Panic op)"
      unfolding pc by (rule good_step_local [OF I(1,2) ok]) (use levels_okD(4) [OF I(2)] in \<open>simp_all add: at_ok_def\<close>)
    then show thesis by (rule fin [OF cs_panic(2,4)]) (simp add: cs_panic(1))
  next
    case (cs_weak op u h m)
    then have op: "pc_op (cs_pc s ! i) = Some op" by simp
    have ok: "at_ok lt (cs_list s) ?ns ls op (C_Max_Exchange op u h m)" using threads_okD(3) [OF I(3) cs_weak(2) op] cs_weak(3) by simp
    show thesis
      by (rule fin [OF cs_weak(2) op, of "cs_list s" "cs_heap s" ls "C_Max_Exchange op u h (sl_max_level (cs_list s))"])
        (use weak_step_ok [OF I(1,2) ok] cs_weak(1,3) in simp_all)
  next
    case (cs_call op' r op)
    then have "\<not> unfinished (cs_pc s ! i)" by (auto simp: unfinished_def)
    from conc_inv_call [OF inv cs_call(2) this cs_call(5)] show thesis
      using that [of ls] cs_call(1) by (simp add: conc_le_refl)
  qed
qed

lemma conc_run_inv:
  assumes "conc_run cmp base valid callers s0 s" and "conc_inv valid lt E s0 ls0"
  shows "\<exists>ls. conc_inv valid lt E s ls \<and> sys_le s0 ls0 s ls"
  using assms
proof (induction rule: conc_run.induct)
  case cs_refl
  then show ?case using conc_le_refl by blast
next
  case (cs_more s i t)
  then obtain ls where ls: "conc_inv valid lt E s ls" "sys_le s0 ls0 s ls" by blast
  obtain ls' where "conc_inv valid lt E t ls'" "sys_le s ls t ls'" using conc_step_inv [OF ls(1) cs_more(2)] by blast
  then show ?case using conc_le_trans [OF ls(2)] by blast
qed

text \<open>When no thread is running, no tower is unfinished: the levels are those of the nodes' heights, and
  the list satisfies the invariant of the operations one at a time.\<close>

lemma sorted_same_set:
  assumes "sorted_wrt (\<lambda>p q. lt (f p) (f q)) xs" and "sorted_wrt (\<lambda>p q. lt (f p) (f q)) ys" and "set xs = set ys"
  shows "xs = ys"
  using assms
proof (induction xs arbitrary: ys)
  case (Cons x xs)
  obtain y zs where ys: "ys = y # zs" using Cons.prems(3) by (cases ys) auto
  have "x = y"
  proof (rule ccontr)
    assume "x \<noteq> y"
    then have "x \<in> set zs" "y \<in> set xs" using Cons.prems(3) ys by auto
    then have "lt (f y) (f x)" "lt (f x) (f y)" using Cons.prems(1,2) ys by auto
    then show False using lt_trans lt_irrefl by blast
  qed
  moreover have "x \<notin> set xs" "y \<notin> set zs" using Cons.prems(1,2) ys lt_irrefl by auto
  ultimately have "set xs = set zs" using Cons.prems(3) ys by (simp add: insert_ident)
  then show ?case using Cons.IH [of zs] Cons.prems(1,2) ys \<open>x = y\<close> by simp
qed simp

lemma quiescent_inv:
  assumes inv: "conc_inv valid lt E s ls" and q: "\<forall>pc \<in> set (cs_pc s). \<not> running pc"
  shows "sl_inv valid lt (cs_list s) (cs_heap s) (ls 0)"
proof -
  let ?ns = "hp_nodes (cs_heap s)" and ?sl = "cs_list s"
  have lv: "levels_ok valid lt ?sl ?ns ls" and tw: "towers_ok ?ns ls (cs_pc s)" using inv by (simp_all add: conc_inv_def)
  have own: "pc_own pc = None" if "pc \<in> set (cs_pc s)" for pc using q that by (cases pc) auto
  have tall: "p \<in> set (ls l)" if "p \<in> set (ls 0)" "l < node_height ?ns p" for p l
  proof -
    have "\<nexists>i h k. i < length (cs_pc s) \<and> pc_own (cs_pc s ! i) = Some (p, h, k)"
      using own nth_mem by fastforce
    then show ?thesis using tw that unfolding towers_ok_def by blast
  qed
  have eq: "at_level ?ns l (ls 0) = ls l" if l: "l < MAX_HEAD_HEIGHT" for l
  proof (rule sorted_same_set)
    show "sorted_wrt (\<lambda>p q. lt (node_key ?ns p) (node_key ?ns q)) (at_level ?ns l (ls 0))"
      by (rule sorted_wrt_filter [OF levels_sorted(1) [OF lv MAX_HEAD_HEIGHT_pos]])
    show "sorted_wrt (\<lambda>p q. lt (node_key ?ns p) (node_key ?ns q)) (ls l)" by (rule levels_sorted(1) [OF lv l])
    have "p \<in> set (ls l) \<longleftrightarrow> p \<in> set (ls 0) \<and> l < node_height ?ns p" for p
      using tall levels_okD(8) [OF lv l] levels_base [OF lv l] by blast
    then show "set (at_level ?ns l (ls 0)) = set (ls l)" by (simp only: set_filter set_eq_iff mem_Collect_eq simp_thms)
  qed
  have "\<forall>p \<in> set (ls 0). p \<in> dom ?ns \<and> node_height ?ns p \<le> sl_max_level ?sl"
    using levels_okD(9,11) [OF lv MAX_HEAD_HEIGHT_pos] by blast
  moreover have "sl_head ?sl \<in> dom ?ns"
    using height_dom [of 0 ?ns "sl_head ?sl"] levels_okD(2) [OF lv] by simp
  ultimately have "sl_links ?sl ?ns (ls 0)"
    unfolding sl_links_def
    using levels_okD(1,2,4) [OF lv] levels_sorted(2) [OF lv MAX_HEAD_HEIGHT_pos] levels_okD(5) [OF lv]
    by (simp add: eq subset_iff)
  then show ?thesis
    using inv levels_okD(6) [OF lv MAX_HEAD_HEIGHT_pos] by (simp add: sl_inv_def conc_inv_def)
qed

end

section \<open>Properties\<close>

lemma conc_inv_entries:
  assumes "conc_inv valid lt E s ls"
  shows "E \<subseteq> set (sl_contents (hp_nodes (cs_heap s)) (ls 0))"
    and "set (sl_contents (hp_nodes (cs_heap s)) (ls 0)) \<subseteq> E \<union> inserted (cs_calls s)"
    and "op \<in> set (cs_calls s) \<Longrightarrow> op_inserts op \<Longrightarrow> op_key op \<in> fst ` set (sl_contents (hp_nodes (cs_heap s)) (ls 0))
      \<or> (\<exists>i < length (cs_pc s). pc_op (cs_pc s ! i) = Some op \<and> unfinished (cs_pc s ! i))"
proof -
  let ?ns = "hp_nodes (cs_heap s)"
  have c: "set (sl_contents ?ns (ls 0)) = node_entry ?ns ` set (ls 0)" by (simp add: sl_contents_def node_entry_def)
  have k: "fst ` node_entry ?ns ` set (ls 0) = node_key ?ns ` set (ls 0)" by (simp add: node_entry_def image_image)
  have e: "entries_ok E ?ns (ls 0) (cs_calls s) (cs_pc s)" using assms by (simp add: conc_inv_def)
  show "E \<subseteq> set (sl_contents ?ns (ls 0))" "set (sl_contents ?ns (ls 0)) \<subseteq> E \<union> inserted (cs_calls s)"
    using e unfolding c entries_ok_def by blast+
  show "op_key op \<in> fst ` set (sl_contents ?ns (ls 0))
      \<or> (\<exists>i < length (cs_pc s). pc_op (cs_pc s ! i) = Some op \<and> unfinished (cs_pc s ! i))"
    if "op \<in> set (cs_calls s)" "op_inserts op" using e that unfolding c k entries_ok_def by blast
qed

lemma finished_keys:
  assumes inv: "conc_inv valid lt E s ls" and fin: "\<forall>pc \<in> set (cs_pc s). \<not> unfinished pc"
  shows "fst ` set (sl_contents (hp_nodes (cs_heap s)) (ls 0)) = fst ` E \<union> fst ` inserted (cs_calls s)" (is "fst ` ?c = _")
proof
  note e = conc_inv_entries [OF inv]
  show "fst ` ?c \<subseteq> fst ` E \<union> fst ` inserted (cs_calls s)" using e(2) by blast
  have "\<not> unfinished (cs_pc s ! i)" if "i < length (cs_pc s)" for i using nth_mem [OF that] fin by blast
  then have "op_key op \<in> fst ` ?c" if "op \<in> set (cs_calls s)" "op_inserts op" for op using e(3) [OF that] by blast
  then have "fst ` inserted (cs_calls s) \<subseteq> fst ` ?c" by (auto simp: inserted_def op_entry_def)
  then show "fst ` E \<union> fst ` inserted (cs_calls s) \<subseteq> fst ` ?c" using e(1) by blast
qed

lemma no_fault:
  assumes inv: "conc_inv ik_valid ik_less E s ls" and i: "i < length (cs_pc s)" and run: "running (cs_pc s ! i)"
    and none: "thread_step internal_key_compare base (cs_pc s ! i) (cs_list s) (cs_heap s) = None"
  shows "\<exists>op t h. cs_pc s ! i = C_Alloc op t h
    \<and> \<not> node_fits h (length (op_key op)) (length (op_value op)) (hp_arena (cs_heap s))"
proof -
  have I: "heap_inv (cs_heap s)" "levels_ok ik_valid ik_less (cs_list s) (hp_nodes (cs_heap s)) ls"
    "threads_ok ik_valid ik_less (cs_list s) (hp_nodes (cs_heap s)) ls (cs_calls s) (cs_pc s)"
    using inv by (simp_all add: conc_inv_def)
  obtain op where op: "pc_op (cs_pc s ! i) = Some op" using run by (cases "cs_pc s ! i") simp_all
  from ik_cmp.thread_step_good [OF I(1,2) threads_okD(2,3) [OF I(3) i op] run, of base] none
  show ?thesis by auto
qed

lemma demo_shared:
  obtains sl hp where "skip_list_new base demo_index_arena = Some (sl, hp)" and "sl_inv ik_valid ik_less sl hp []"
    and "1 \<le> sl_max_level sl"
proof -
  have "arena_holds demo_index_arena []"
    by (simp add: demo_index_arena_def arena_holds_def arena_ok_def chunk_new_def isize_MAX_def)
  moreover have "node_fits MAX_HEAD_HEIGHT 0 0 demo_index_arena"
    by (simp add: node_fits_def MAX_HEAD_HEIGHT_def demo_index_arena_def)
  ultimately show thesis using that by (elim skip_list_new_cases [where base = base]) auto
qed

text \<open>A run in which one thread has called \<open>insert\<close>.\<close>

definition demo_op :: conc_op where
  "demo_op = Op_Insert (replicate 9 7) [1]"

lemma demo_op_ok: "op_ok ik_valid demo_op" "op_inserts demo_op"
  by (simp_all add: demo_op_def op_ok_def op_inserts_def ik_valid_def)

lemma demo_call_run:
  "conc_run internal_key_compare base ik_valid {0} (conc_start 2 sl hp)
     \<lparr>cs_list = sl, cs_heap = hp, cs_pc = [C_Search demo_op For_Key, C_Idle], cs_calls = [demo_op]\<rparr>"
proof -
  have "conc_step internal_key_compare base ik_valid {0} 0 (conc_start 2 sl hp)
      ((conc_start 2 sl hp)\<lparr>cs_pc := (cs_pc (conc_start 2 sl hp))[0 := first_pc demo_op], cs_calls := demo_op # cs_calls (conc_start 2 sl hp)\<rparr>)"
    by (rule cs_call) (simp_all add: conc_start_def demo_op_ok numeral_2_eq_2)
  then have "conc_run internal_key_compare base ik_valid {0} (conc_start 2 sl hp)
      ((conc_start 2 sl hp)\<lparr>cs_pc := (cs_pc (conc_start 2 sl hp))[0 := first_pc demo_op], cs_calls := demo_op # cs_calls (conc_start 2 sl hp)\<rparr>)"
    by (rule cs_more [OF cs_refl])
  then show ?thesis by (simp add: conc_start_def first_pc_def demo_op_def numeral_2_eq_2)
qed

text \<open>
  C13.  Threads that insert and search at the same time, in every interleaving: at any moment the bottom
  level is a linked chain in strictly increasing key order, so no insertion is lost and no key is there
  twice.  It holds every entry of the start, and only those and entries of insertions that were called;
  an insertion that has returned points to a linked node with its key, and the key of one that is over
  is in the list.  No thread reads through a null pointer or outside a tower: a running thread can always
  take its next step, except that \<open>Node::alloc\<close> panics when the arena has no room for the node.
\<close>

theorem skip_list_concurrent_safe:
  assumes "sl_inv ik_valid ik_less sl hp ps" and "1 \<le> sl_max_level sl"
    and "conc_run internal_key_compare base ik_valid callers (conc_start n sl hp) s"
  shows "\<exists>ps'. linked (hp_nodes (cs_heap s)) 0 (sl_head (cs_list s)) ps'
    \<and> sorted_wrt ik_less (map (node_key (hp_nodes (cs_heap s))) ps')
    \<and> set (sl_contents (hp_nodes hp) ps) \<subseteq> set (sl_contents (hp_nodes (cs_heap s)) ps')
    \<and> set (sl_contents (hp_nodes (cs_heap s)) ps') \<subseteq> set (sl_contents (hp_nodes hp) ps) \<union> inserted (cs_calls s)
    \<and> (\<forall>i op r. i < length (cs_pc s) \<and> cs_pc s ! i = C_Return op r \<and> op_inserts op \<longrightarrow>
        (\<exists>p \<in> set ps'. r = Some p \<and> node_key (hp_nodes (cs_heap s)) p = op_key op))
    \<and> (\<forall>op. op \<in> set (cs_calls s) \<and> op_inserts op \<longrightarrow>
        op_key op \<in> fst ` set (sl_contents (hp_nodes (cs_heap s)) ps')
        \<or> (\<exists>i < length (cs_pc s). pc_op (cs_pc s ! i) = Some op \<and> unfinished (cs_pc s ! i)))
    \<and> (\<forall>i. i < length (cs_pc s) \<and> running (cs_pc s ! i)
        \<and> thread_step internal_key_compare base (cs_pc s ! i) (cs_list s) (cs_heap s) = None \<longrightarrow>
        (\<exists>op t h. cs_pc s ! i = C_Alloc op t h
          \<and> \<not> node_fits h (length (op_key op)) (length (op_value op)) (hp_arena (cs_heap s))))"
proof -
  let ?ns = "hp_nodes (cs_heap s)"
  obtain ls where inv: "conc_inv ik_valid ik_less (set (sl_contents (hp_nodes hp) ps)) s ls"
    using ik_cmp.conc_run_inv [OF assms(3) conc_start_inv [OF assms(1,2)]] by blast
  have lv: "levels_ok ik_valid ik_less (cs_list s) ?ns ls"
    and th: "threads_ok ik_valid ik_less (cs_list s) ?ns ls (cs_calls s) (cs_pc s)" using inv by (simp_all add: conc_inv_def)
  have ret: "\<exists>p \<in> set (ls 0). r = Some p \<and> node_key ?ns p = op_key op"
    if "i < length (cs_pc s)" "cs_pc s ! i = C_Return op r" "op_inserts op" for i op r
    using threads_okD(3) [OF th that(1), of op] that(2,3) by (cases r) (auto simp: at_ok_def)
  note e = conc_inv_entries [OF inv]
  show ?thesis
  proof (intro exI [of _ "ls 0"] conjI allI impI)
    show "linked ?ns 0 (sl_head (cs_list s)) (ls 0)" "sorted_wrt ik_less (map (node_key ?ns) (ls 0))"
      using levels_okD(5,6) [OF lv MAX_HEAD_HEIGHT_pos] by (simp_all add: sl_sorted_def)
  next
    fix i assume i: "i < length (cs_pc s) \<and> running (cs_pc s ! i)
      \<and> thread_step internal_key_compare base (cs_pc s ! i) (cs_list s) (cs_heap s) = None"
    then show "\<exists>op t h. cs_pc s ! i = C_Alloc op t h
        \<and> \<not> node_fits h (length (op_key op)) (length (op_value op)) (hp_arena (cs_heap s))"
      using no_fault [OF inv] by blast
  qed (use e(1,2) in simp, use e(2) in simp, use ret in blast, use e(3) in blast)
qed

theorem skip_list_concurrent_safe_witness:
  "\<exists>sl hp ps'. skip_list_new (\<lambda>_. 0) demo_index_arena = Some (sl, hp)
    \<and> conc_run internal_key_compare (\<lambda>_. 0) ik_valid {0} (conc_start 2 sl hp)
        \<lparr>cs_list = sl, cs_heap = hp, cs_pc = [C_Search demo_op For_Key, C_Idle], cs_calls = [demo_op]\<rparr>
    \<and> linked (hp_nodes hp) 0 (sl_head sl) ps' \<and> set (sl_contents (hp_nodes hp) ps') \<subseteq> {(replicate 9 7, [1])}"
proof -
  obtain sl hp where s: "skip_list_new (\<lambda>_. 0) demo_index_arena = Some (sl, hp)" "sl_inv ik_valid ik_less sl hp []" "1 \<le> sl_max_level sl"
    by (rule demo_shared)
  have "inserted [demo_op] = {(replicate 9 7, [1])}" by (auto simp: inserted_def demo_op_def op_entry_def op_inserts_def)
  then show ?thesis
    using skip_list_concurrent_safe [OF s(2,3) demo_call_run [of "\<lambda>_. 0"]] s(1) demo_call_run [of "\<lambda>_. 0" sl hp]
    by (auto simp: sl_contents_def)
qed

end
