(* ===== verification/Skip_List_Solo.thy ===== *)
theory Skip_List_Solo
  imports Skip_List_Runs
begin

text \<open>
  Progress of the shared skip list: a thread that runs alone finishes its call, wherever the other threads
  stopped.  Its retries end because a search that nobody disturbs leaves a context that agrees with the
  list, and an exchange in such a context succeeds.
\<close>

section \<open>Contexts that agree with the list\<close>

text \<open>Two neighbours of a level.\<close>

definition next_to :: "skip_list \<Rightarrow> levels \<Rightarrow> nat \<Rightarrow> node_ptr \<Rightarrow> node_ptr option \<Rightarrow> bool" where
  "next_to sl ls l p q \<longleftrightarrow> (\<exists>as bs. ls l = as @ bs \<and> p = last (sl_head sl # as) \<and> q = hd_opt bs)"

definition current_at :: "skip_list \<Rightarrow> levels \<Rightarrow> traversal_ctx \<Rightarrow> nat \<Rightarrow> bool" where
  "current_at sl ls t l \<longleftrightarrow> (\<exists>p. tc_predecessors t ! l = Some p \<and> next_to sl ls l p (tc_successors t ! l))"

fun fresh :: "skip_list \<Rightarrow> levels \<Rightarrow> conc_pc \<Rightarrow> bool" where
  "fresh sl ls (C_Skip op pu n) \<longleftrightarrow> (\<forall>l. n \<le> l \<and> l < MAX_HEAD_HEIGHT \<longrightarrow> ls l = [])"
| "fresh sl ls (C_Level op pu n p t) \<longleftrightarrow> (\<forall>l. n \<le> l \<and> l < MAX_HEAD_HEIGHT \<longrightarrow> current_at sl ls t l)"
| "fresh sl ls (C_Right op pu l p cur t) \<longleftrightarrow>
     (\<forall>k. Suc l \<le> k \<and> k < MAX_HEAD_HEIGHT \<longrightarrow> current_at sl ls t k) \<and> next_to sl ls l p cur"
| "fresh sl ls (C_Store op np h l t) \<longleftrightarrow> current_at sl ls t l"
| "fresh sl ls (C_Exchange op np h l t) \<longleftrightarrow> current_at sl ls t l"
| "fresh sl ls _ \<longleftrightarrow> True"

section \<open>What gets smaller\<close>

text \<open>The part of the call, or the levels still to link; whether the context can still fail; and the place in
  a search.\<close>

fun purpose_phase :: "purpose \<Rightarrow> nat" where
  "purpose_phase For_Key = 200"
| "purpose_phase (For_Base np h) = h"
| "purpose_phase (For_Level np h l) = h - l"

fun solo_phase :: "skip_list \<Rightarrow> conc_pc \<Rightarrow> nat" where
  "solo_phase sl (C_Search op pu) = purpose_phase pu"
| "solo_phase sl (C_Skip op pu n) = purpose_phase pu"
| "solo_phase sl (C_Level op pu n p t) = purpose_phase pu"
| "solo_phase sl (C_Right op pu l p c t) = purpose_phase pu"
| "solo_phase sl (C_Count op t) = 107"
| "solo_phase sl (C_Seed op t) = 106"
| "solo_phase sl (C_Seed_Store op t x) = 105"
| "solo_phase sl (C_Max op t h) = 104"
| "solo_phase sl (C_Max_Exchange op t h m) = (if h \<le> m \<or> sl_max_level sl = m then 102 else 103)"
| "solo_phase sl (C_Alloc op t h) = 101"
| "solo_phase sl (C_Store op np h l t) = h - l"
| "solo_phase sl (C_Exchange op np h l t) = h - l"
| "solo_phase sl _ = 0"

fun solo_stage :: "skip_list \<Rightarrow> levels \<Rightarrow> conc_pc \<Rightarrow> nat" where
  "solo_stage sl ls (C_Store op np h l t) = (if fresh sl ls (C_Store op np h l t) then 3 else 6)"
| "solo_stage sl ls (C_Exchange op np h l t) = (if fresh sl ls (C_Exchange op np h l t) then 2 else 5)"
| "solo_stage sl ls pc = (if fresh sl ls pc then 4 else 7)"

fun solo_place :: "(bytes \<Rightarrow> bytes \<Rightarrow> bool) \<Rightarrow> nodes \<Rightarrow> levels \<Rightarrow> conc_pc \<Rightarrow> nat \<times> nat \<times> nat" where
  "solo_place lt ns ls (C_Search op pu) = (3, 0, 0)"
| "solo_place lt ns ls (C_Skip op pu n) = (2, n, 0)"
| "solo_place lt ns ls (C_Level op pu n p t) = (1, 2 * n, 0)"
| "solo_place lt ns ls (C_Right op pu l p c t) = (1, 2 * l + 1,
     case c of None \<Rightarrow> 0 | Some c \<Rightarrow> Suc (length (filter (\<lambda>x. lt (node_key ns c) (node_key ns x)) (ls l))))"
| "solo_place lt ns ls _ = (0, 0, 0)"

definition solo_rank ::
  "(bytes \<Rightarrow> bytes \<Rightarrow> bool) \<Rightarrow> skip_list \<Rightarrow> nodes \<Rightarrow> levels \<Rightarrow> conc_pc \<Rightarrow> nat \<times> nat \<times> nat \<times> nat \<times> nat" where
  "solo_rank lt sl ns ls pc = (solo_phase sl pc, solo_stage sl ls pc, solo_place lt ns ls pc)"

definition solo_less :: "((nat \<times> nat \<times> nat \<times> nat \<times> nat) \<times> (nat \<times> nat \<times> nat \<times> nat \<times> nat)) set" where
  "solo_less = less_than <*lex*> less_than <*lex*> less_than <*lex*> less_than <*lex*> less_than"

lemma wf_solo_less: "wf solo_less"
  by (auto simp: solo_less_def intro!: wf_lex_prod)

text \<open>A step that makes no context stale and moves on within the search.\<close>

lemma solo_less_place:
  assumes "solo_phase sl pc' = solo_phase sl pc" and "solo_stage sl ls pc = (if fresh sl ls pc then 4 else 7)"
    and "solo_stage sl ls pc' = (if fresh sl ls pc' then 4 else 7)" and "fresh sl ls pc \<longrightarrow> fresh sl ls pc'"
    and "(solo_place lt ns ls pc', solo_place lt ns ls pc) \<in> less_than <*lex*> less_than <*lex*> less_than"
  shows "(solo_rank lt sl ns ls pc', solo_rank lt sl ns ls pc) \<in> solo_less"
  using assms unfolding solo_rank_def solo_less_def by auto

context comparator
begin

lemma next_to_load:
  assumes lv: "levels_ok valid lt sl ns ls" and l: "l < MAX_HEAD_HEIGHT" and "next_to sl ls l p q"
  shows "load_next ns p l = Some q"
proof -
  obtain as bs where s: "ls l = as @ bs" "p = last (sl_head sl # as)" "q = hd_opt bs" using assms(3) by (auto simp: next_to_def)
  have lk: "linked ns l (sl_head sl) (as @ bs)" using levels_okD(5) [OF lv l] s(1) by simp
  show ?thesis
  proof (cases as rule: rev_cases)
    case Nil
    then show ?thesis using linked_head [OF lk] s by simp
  next
    case (snoc cs c)
    then have "linked ns l c bs" using lk by (simp add: linked_append)
    then show ?thesis using linked_head s snoc by auto
  qed
qed

lemma load_next_to:
  assumes "levels_ok valid lt sl ns ls" and "l < MAX_HEAD_HEIGHT" and "p = sl_head sl \<or> p \<in> set (ls l)"
    and "load_next ns p l = Some q"
  shows "next_to sl ls l p q"
  using level_split [OF assms(1-3)] assms(4) unfolding next_to_def by (metis option.inject)

lemma start_current: "ls l = [] \<Longrightarrow> l < MAX_HEAD_HEIGHT \<Longrightarrow> current_at sl ls (start_ctx sl) l"
  by (simp add: current_at_def next_to_def start_ctx_def traversal_ctx_new_def)

lemma head_null_empty:
  assumes "levels_ok valid lt sl ns ls" and "l < MAX_HEAD_HEIGHT"
  shows "load_next ns (sl_head sl) l = Some None \<longleftrightarrow> ls l = []"
  using linked_head [OF levels_okD(5) [OF assms]] by (cases "ls l") simp_all

text \<open>The end of a search.\<close>

lemma after_search_smaller:
  assumes "solo_phase sl pc = purpose_phase pu" and "solo_stage sl ls pc = (if fresh sl ls pc then 4 else 7)"
    and "fresh sl ls pc \<longrightarrow> (\<forall>l < MAX_HEAD_HEIGHT. current_at sl ls t l)"
    and "own_ok lt sl ns ls op (purpose_own pu)" and "sl_max_level sl \<le> MAX_HEAD_HEIGHT" and "running (after_search op pu t)"
  shows "(solo_rank lt sl ns ls (after_search op pu t), solo_rank lt sl ns ls pc) \<in> solo_less"
proof (cases pu)
  case For_Key
  then show ?thesis using assms(1,6)
    by (cases op; cases "tc_searched_node t") (simp_all add: after_search_def solo_rank_def solo_less_def)
next
  case (For_Base np h)
  then have "after_search op pu t = C_Store op np h 0 t" using assms(6) by (cases "tc_searched_node t") (simp_all add: after_search_def)
  then show ?thesis using assms(1-3) For_Base by (auto simp: solo_rank_def solo_less_def)
next
  case (For_Level np h l)
  have "l < MAX_HEAD_HEIGHT" using own_okD(5,6) [of lt sl ns ls op np h l] assms(4,5) For_Level by simp
  then show ?thesis using assms(1-3) For_Level by (auto simp: after_search_def solo_rank_def solo_less_def)
qed

lemma leave_smaller:
  assumes ctx: "ctx_from lt sl ns ls key pu t (Suc l)" and l: "l < MAX_HEAD_HEIGHT"
    and leave: "leave_level op pu l p cur found t = Some pc'"
  shows "(solo_rank lt sl ns ls pc', solo_rank lt sl ns ls (C_Right op pu l p cur t)) \<in> solo_less"
proof -
  let ?t = "\<lparr>tc_searched_node = found, tc_predecessors = (tc_predecessors t)[l := Some p], tc_successors = (tc_successors t)[l := cur]\<rparr>"
  have len: "length (tc_predecessors t) = MAX_HEAD_HEIGHT" "length (tc_successors t) = MAX_HEAD_HEIGHT"
    using ctx by (simp_all add: ctx_from_def ctx_frame_def)
  have pc': "pc' = C_Level op pu l p ?t" using leave len l by (simp add: leave_level_def set_at_def)
  have "current_at sl ls ?t k" if "fresh sl ls (C_Right op pu l p cur t)" "l \<le> k" "k < MAX_HEAD_HEIGHT" for k
    using that len l by (cases "k = l") (auto simp: current_at_def)
  then show ?thesis unfolding pc' by (intro solo_less_place) (auto simp: Let_def)
qed

lemma right_smaller:
  assumes lv: "levels_ok valid lt sl ns ls" and l: "l < MAX_HEAD_HEIGHT" and c: "c \<in> set (ls l)" and n: "load_next ns c l = Some n"
  shows "(solo_rank lt sl ns ls (C_Right op pu l c n t), solo_rank lt sl ns ls (C_Right op pu l p (Some c) t)) \<in> solo_less"
proof -
  have nt: "next_to sl ls l c n" by (rule load_next_to [OF lv l disjI2 [OF c] n])
  have "length (filter (\<lambda>x. lt (node_key ns d) (node_key ns x)) (ls l)) < length (filter (\<lambda>x. lt (node_key ns c) (node_key ns x)) (ls l))"
    if d: "n = Some d" for d
  proof -
    obtain as bs where s: "ls l = as @ bs" "c = last (sl_head sl # as)" "Some d = hd_opt bs" using nt d by (auto simp: next_to_def)
    have "c \<noteq> sl_head sl" using levels_okD(7) [OF lv l] c by auto
    then have ca: "c \<in> set as" using s(2) by (metis last.simps last_in_set)
    have db: "d \<in> set bs" using s(3) by (cases bs) auto
    have cd: "lt (node_key ns c) (node_key ns d)"
      using levels_sorted(1) [OF lv l] ca db s(1) by (auto simp: sorted_wrt_append)
    have imp: "lt (node_key ns c) (node_key ns x)" if "lt (node_key ns d) (node_key ns x)" for x using lt_trans [OF cd that] .
    have "filter (\<lambda>x. lt (node_key ns d) (node_key ns x)) (ls l)
        = filter (\<lambda>x. lt (node_key ns d) (node_key ns x)) (filter (\<lambda>x. lt (node_key ns c) (node_key ns x)) (ls l))"
      unfolding filter_filter using imp by (intro filter_cong) auto
    also have "length \<dots> < length (filter (\<lambda>x. lt (node_key ns c) (node_key ns x)) (ls l))"
      by (rule length_filter_less [of d]) (use cd db s(1) lt_irrefl in auto)
    finally show ?thesis .
  qed
  then show ?thesis using nt by (intro solo_less_place) (cases n; auto)+
qed

text \<open>One step of a search.\<close>

lemma right_step_smaller:
  assumes lv: "levels_ok valid lt sl (hp_nodes hp) ls" and inv: "pc_inv lt sl (hp_nodes hp) ls (C_Right op pu l p cur t)"
    and step: "thread_step cmp base (C_Right op pu l p cur t) sl hp = Some (pc', sl', hp')"
  shows "(solo_rank lt sl (hp_nodes hp) ls pc', solo_rank lt sl (hp_nodes hp) ls (C_Right op pu l p cur t)) \<in> solo_less"
proof -
  have i: "l < MAX_HEAD_HEIGHT" "ctx_from lt sl (hp_nodes hp) ls (op_key op) pu t (Suc l)" using inv by simp_all
  consider found where "leave_level op pu l p cur found t = Some pc'"
    | c n where "cur = Some c" "load_next (hp_nodes hp) c l = Some n" "pc' = C_Right op pu l c n t"
    using step by (cases cur) (auto split: Option.bind_splits ordering.splits)
  then show ?thesis
  proof cases
    case (1 found)
    then show ?thesis by (rule leave_smaller [OF i(2,1)])
  next
    case (2 c n)
    then have "c \<in> set (ls l)" using inv by simp
    from right_smaller [OF lv i(1) this 2(2)] show ?thesis unfolding 2(1,3) .
  qed
qed

lemma skip_step_smaller:
  assumes lv: "levels_ok valid lt sl (hp_nodes hp) ls" and inv: "pc_inv lt sl (hp_nodes hp) ls (C_Skip op pu n)"
    and own: "own_ok lt sl (hp_nodes hp) ls op (purpose_own pu)" and run: "running pc'"
    and step: "thread_step cmp base (C_Skip op pu n) sl hp = Some (pc', sl', hp')"
  shows "(solo_rank lt sl (hp_nodes hp) ls pc', solo_rank lt sl (hp_nodes hp) ls (C_Skip op pu n)) \<in> solo_less"
proof (cases n)
  case 0
  then have "pc' = after_search op pu (start_ctx sl)" using step by auto
  then show ?thesis using after_search_smaller [OF _ _ _ own levels_okD(4) [OF lv]] run 0 start_current by simp
next
  case (Suc l)
  then have l: "l < MAX_HEAD_HEIGHT" using inv by simp
  consider "load_next (hp_nodes hp) (sl_head sl) l = Some None" "pc' = C_Skip op pu l"
    | "pc' = C_Level op pu n (sl_head sl) (start_ctx sl)"
    using step Suc by (auto split: Option.bind_splits if_splits)
  then show ?thesis
  proof cases
    case 1
    then have "ls l = []" using head_null_empty [OF lv l] by simp
    then have "ls k = []" if "fresh sl ls (C_Skip op pu (Suc l))" "l \<le> k" "k < MAX_HEAD_HEIGHT" for k
      using that by (cases "k = l") simp_all
    then show ?thesis unfolding 1(2) Suc by (intro solo_less_place) auto
  next
    case 2
    then show ?thesis using start_current by (intro solo_less_place) auto
  qed
qed

lemma level_step_smaller:
  assumes lv: "levels_ok valid lt sl (hp_nodes hp) ls" and inv: "pc_inv lt sl (hp_nodes hp) ls (C_Level op pu n p t)"
    and own: "own_ok lt sl (hp_nodes hp) ls op (purpose_own pu)" and run: "running pc'"
    and step: "thread_step cmp base (C_Level op pu n p t) sl hp = Some (pc', sl', hp')"
  shows "(solo_rank lt sl (hp_nodes hp) ls pc', solo_rank lt sl (hp_nodes hp) ls (C_Level op pu n p t)) \<in> solo_less"
proof (cases n)
  case 0
  then have "pc' = after_search op pu t" using step by simp
  then show ?thesis using after_search_smaller [OF _ _ _ own levels_okD(4) [OF lv]] run 0 by simp
next
  case (Suc l)
  then have l: "l < MAX_HEAD_HEIGHT" and p: "below lt sl (hp_nodes hp) ls (op_key op) l p" using inv by simp_all
  obtain c where c: "load_next (hp_nodes hp) p l = Some c" "pc' = C_Right op pu l p c t"
    using step Suc by (auto split: Option.bind_splits)
  have "next_to sl ls l p c" by (rule load_next_to [OF lv l below_cases [OF p] c(1)])
  then show ?thesis unfolding c(2) Suc by (intro solo_less_place) auto
qed

lemma search_smaller:
  assumes heap: "heap_inv hp" and lv: "levels_ok valid lt sl (hp_nodes hp) ls" and op: "op_ok valid op"
    and ok: "at_ok lt sl (hp_nodes hp) ls op pc"
    and pc: "pc = C_Search op pu \<or> (\<exists>n. pc = C_Skip op pu n) \<or> (\<exists>n p t. pc = C_Level op pu n p t) \<or> (\<exists>n p c t. pc = C_Right op pu n p c t)"
    and step: "thread_step cmp base pc sl hp = Some (pc', sl', hp')"
  shows "good_step valid lt op sl hp ls pc sl' hp' ls pc'
    \<and> (running pc' \<longrightarrow> (solo_rank lt sl' (hp_nodes hp') ls pc', solo_rank lt sl (hp_nodes hp) ls pc) \<in> solo_less)"
proof -
  let ?ns = "hp_nodes hp"
  have own: "own_ok lt sl ?ns ls op (purpose_own pu)" and inv: "pc_inv lt sl ?ns ls pc" using ok pc by (auto simp: at_ok_def)
  have "pu = For_Key \<or> op_inserts op" using own own_okD(1) by (cases pu) fastforce+
  then obtain q where "thread_step cmp base pc sl hp = Some (q, sl, hp)" "at_ok lt sl ?ns ls op q"
    using search_step_ok [OF lv _ ok pc, of base] op by (auto simp: op_ok_def)
  then have eq: "sl' = sl" "hp' = hp" "at_ok lt sl ?ns ls op pc'" using step by simp_all
  have good: "good_step valid lt op sl hp ls pc sl hp ls pc'"
    by (rule good_step_local [OF heap lv ok _ _ _ eq(3) search_step_own [OF step pc]]) (use levels_okD(4) [OF lv] in simp_all)
  have "(solo_rank lt sl ?ns ls pc', solo_rank lt sl ?ns ls pc) \<in> solo_less" if run: "running pc'"
  proof -
    from pc consider "pc = C_Search op pu" | n where "pc = C_Skip op pu n" | n p t where "pc = C_Level op pu n p t"
      | n p c t where "pc = C_Right op pu n p c t" by blast
    then show ?thesis
    proof cases
      case 1
      have "ls l = []" if "sl_max_level sl \<le> l" "l < MAX_HEAD_HEIGHT" for l
      proof (cases "ls l")
        case (Cons x xs)
        then have "x \<in> set (ls l)" by simp
        then show ?thesis using levels_okD(8,11) [OF lv that(2), of x] that(1) by simp
      qed
      moreover have "pc' = C_Skip op pu (sl_max_level sl)" using step 1 by auto
      ultimately show ?thesis using 1 by (intro solo_less_place) auto
    next
      case (2 n)
      show ?thesis unfolding 2 by (rule skip_step_smaller [OF lv inv [unfolded 2] own run step [unfolded 2]])
    next
      case (3 n p t)
      show ?thesis unfolding 3 by (rule level_step_smaller [OF lv inv [unfolded 3] own run step [unfolded 3]])
    next
      case (4 n p c t)
      show ?thesis unfolding 4 by (rule right_step_smaller [OF lv inv [unfolded 4] step [unfolded 4]])
    qed
  qed
  then show ?thesis using good eq by simp
qed

text \<open>An exchange fails only in a context that no longer agrees with the list.\<close>

lemma exchange_smaller:
  assumes lv: "levels_ok valid lt sl (hp_nodes hp) ls" and ok: "at_ok lt sl (hp_nodes hp) ls op (C_Exchange op np h l t)"
    and step: "thread_step cmp base (C_Exchange op np h l t) sl hp = Some (pc', sl', hp')" and run: "running pc'"
  shows "(solo_rank lt sl' (hp_nodes hp') ls' pc', solo_rank lt sl (hp_nodes hp) ls (C_Exchange op np h l t)) \<in> solo_less"
proof -
  let ?ns = "hp_nodes hp"
  have own: "own_ok lt sl ?ns ls op (Some (np, h, l))" and ctx: "ctx_link lt sl ?ns ls (op_key op) (Some (np, h, Suc l)) t l"
    using ok by (simp_all add: at_ok_def)
  note o = own_okD [OF own] and hok = levels_okD(1) [OF lv]
  have l8: "l < MAX_HEAD_HEIGHT" using o(5,6) levels_okD(4) [OF lv] by simp
  have len: "l < length (tc_predecessors t)" "l < length (tc_successors t)" using ctx l8 by (simp_all add: ctx_link_def)
  obtain p where p: "tc_predecessors t ! l = Some p" using ctx l8 by (auto simp: ctx_link_def ctx_level_def)
  have "node_next ?ns p l = (if l < node_height ?ns p then Some (Some (p, l)) else None)" by (rule node_next_ok [OF hok])
  then obtain x where x: "node_next ?ns p l = Some (Some (p, l))" "slot_load ?ns (Some (p, l)) = Some x"
    using step len p by (auto simp: get_at_def slot_compare_exchange_def split: Option.bind_splits if_splits)
  then have load: "load_next ?ns p l = Some x" using l8 by (simp add: load_next_def)
  have "pc' = (if x \<noteq> tc_successors t ! l then C_Search op (if l = 0 then For_Base np h else For_Level np h l)
      else if Suc l < h then C_Store op np h (Suc l) t else C_Return op (Some np))"
    using step len p x by (auto simp: get_at_def slot_compare_exchange_def split: Option.bind_splits if_splits)
  then consider "pc' = C_Store op np h (Suc l) t"
    | "pc' = C_Search op (if l = 0 then For_Base np h else For_Level np h l)" "load_next ?ns p l \<noteq> Some (tc_successors t ! l)"
    using load run by (auto split: if_splits)
  then show ?thesis
  proof cases
    case 1
    then show ?thesis using o(6) by (auto simp: solo_rank_def solo_less_def)
  next
    case 2
    then have "\<not> current_at sl ls t l" using next_to_load [OF lv l8, of p] p by (auto simp: current_at_def)
    then show ?thesis using 2(1) by (auto simp: solo_rank_def solo_less_def)
  qed
qed

text \<open>The steps between the search and the linking, each taken once, or twice if the height was read
  before another thread raised it.\<close>

lemma setup_smaller:
  assumes "pc \<in> {C_Count op t, C_Seed op t, C_Seed_Store op t x, C_Max op t h, C_Max_Exchange op t h m, C_Alloc op t h}"
    and "thread_step cmp base pc sl hp = Some (pc', sl', hp')"
  shows "(solo_rank lt sl' (hp_nodes hp') ls' pc', solo_rank lt sl (hp_nodes hp) ls pc) \<in> solo_less"
  using assms
  by (auto simp: solo_rank_def solo_less_def MAX_HEAD_HEIGHT_def split: Option.bind_splits if_splits option.splits)

lemma store_smaller:
  "(solo_rank lt sl ns' ls (C_Exchange op np h l t), solo_rank lt sl ns ls (C_Store op np h l t)) \<in> solo_less"
  by (simp add: solo_rank_def solo_less_def)

lemma solo_step:
  assumes heap: "heap_inv hp" and lv: "levels_ok valid lt sl (hp_nodes hp) ls" and op: "op_ok valid op"
    and ok: "at_ok lt sl (hp_nodes hp) ls op pc" and run: "running pc"
    and step: "thread_step cmp base pc sl hp = Some (pc', sl', hp')"
  shows "\<exists>ls'. good_step valid lt op sl hp ls pc sl' hp' ls' pc'
    \<and> (running pc' \<longrightarrow> (solo_rank lt sl' (hp_nodes hp') ls' pc', solo_rank lt sl (hp_nodes hp) ls pc) \<in> solo_less)"
proof -
  note thread_step.simps [simp del]
  have pcop: "pc_op pc = Some op" using ok by (simp add: at_ok_def)
  obtain lg where good: "good_step valid lt op sl hp ls pc sl' hp' lg pc'"
    using thread_step_good [OF heap lv op ok run, of base] step by auto
  consider pu where "pc = C_Search op pu \<or> (\<exists>n. pc = C_Skip op pu n) \<or> (\<exists>n p t. pc = C_Level op pu n p t) \<or> (\<exists>n p c t. pc = C_Right op pu n p c t)"
    | t x h m where "pc \<in> {C_Count op t, C_Seed op t, C_Seed_Store op t x, C_Max op t h, C_Max_Exchange op t h m, C_Alloc op t h}"
    | np h l t where "pc = C_Store op np h l t" | np h l t where "pc = C_Exchange op np h l t"
    using run pcop by (cases pc) auto
  then show ?thesis
  proof cases
    case (1 pu)
    then show ?thesis using search_smaller [OF heap lv op ok _ step] by blast
  next
    case 2
    then show ?thesis using setup_smaller [OF _ step] good by blast
  next
    case (3 np h l t)
    have st: "pc' = C_Exchange op np h l t" "sl' = sl" "good_step valid lt op sl hp ls pc sl' hp' ls pc'"
      using store_step_ok [OF heap lv ok [unfolded 3], of cmp base] step 3 by auto
    then show ?thesis unfolding 3 using store_smaller by blast
  next
    case (4 np h l t)
    show ?thesis using exchange_smaller [OF lv ok [unfolded 4] step [unfolded 4]] good unfolding 4 by blast
  qed
qed

lemma step_no_panic:
  assumes "thread_step cmp base pc sl hp = Some (pc', sl', hp')"
  shows "pc' \<noteq> C_Panic op'"
proof -
  have after: "after_search op pu t \<noteq> C_Panic op'" for op pu t
    by (cases pu) (auto simp: after_search_def split: option.splits conc_op.splits)
  have leave: "leave_level op pu l p c f t \<noteq> Some (C_Panic op')" for op pu l p c f t
    by (auto simp: leave_level_def split: Option.bind_splits)
  show ?thesis using assms
    by (induction cmp base pc sl hp rule: thread_step.induct)
      (auto simp: after after [symmetric] leave leave [symmetric] split: Option.bind_splits if_splits ordering.splits option.splits)
qed

lemma solo_run:
  assumes "conc_inv valid lt E s ls" and "i < length (cs_pc s)" and "running (cs_pc s ! i)"
  shows "\<exists>t. (conc_step cmp base valid {} i)\<^sup>*\<^sup>* s t \<and> (\<forall>j. j \<noteq> i \<longrightarrow> cs_pc t ! j = cs_pc s ! j) \<and> length (cs_pc t) = length (cs_pc s)
    \<and> cs_calls t = cs_calls s \<and> \<not> running (cs_pc t ! i) \<and> pc_op (cs_pc t ! i) = pc_op (cs_pc s ! i)
    \<and> (\<forall>op. cs_pc t ! i = C_Panic op \<longrightarrow> (\<exists>h. h \<le> MAX_HEAD_HEIGHT
        \<and> \<not> node_fits h (length (op_key op)) (length (op_value op)) (hp_arena (cs_heap t))))"
  using assms
proof (induction "solo_rank lt (cs_list s) (hp_nodes (cs_heap s)) ls (cs_pc s ! i)" arbitrary: s ls
    rule: wf_induct_rule [OF wf_solo_less])
  case less: (1 s ls)
  let ?pc = "cs_pc s ! i"
  have I: "heap_inv (cs_heap s)" "levels_ok valid lt (cs_list s) (hp_nodes (cs_heap s)) ls"
    "threads_ok valid lt (cs_list s) (hp_nodes (cs_heap s)) ls (cs_calls s) (cs_pc s)"
    using less.prems(1) by (simp_all add: conc_inv_def)
  obtain op where op: "pc_op ?pc = Some op" using less.prems(3) by (cases ?pc) simp_all
  note ok = threads_okD(2,3) [OF I(3) less.prems(2) op]
  show ?case
  proof (cases "thread_step cmp base ?pc (cs_list s) (cs_heap s)")
    case None
    let ?t = "s\<lparr>cs_pc := (cs_pc s)[i := C_Panic op]\<rparr>"
    have "(conc_step cmp base valid {} i)\<^sup>*\<^sup>* s ?t" by (rule r_into_rtranclp [of "conc_step cmp base valid {} i", OF cs_panic [OF less.prems(2,3) op None]])
    moreover obtain u h where "?pc = C_Alloc op u h"
      "\<not> node_fits h (length (op_key op)) (length (op_value op)) (hp_arena (cs_heap s))"
      using thread_step_good [OF I(1,2) ok less.prems(3), of base] None by auto
    moreover from this have "h \<le> MAX_HEAD_HEIGHT" using ok(2) levels_okD(4) [OF I(2)] by (simp add: at_ok_def)
    ultimately show ?thesis using less.prems(2) op by (intro exI [of _ ?t]) auto
  next
    case (Some r)
    obtain pc' sl' hp' where r: "r = (pc', sl', hp')" by (rule prod_cases3)
    let ?s = "s\<lparr>cs_list := sl', cs_heap := hp', cs_pc := (cs_pc s)[i := pc']\<rparr>"
    note step = Some [unfolded r]
    from solo_step [OF I(1,2) ok less.prems(3) step] obtain ls' where
      g: "good_step valid lt op (cs_list s) (cs_heap s) ls ?pc sl' hp' ls' pc'" and
      rank: "running pc' \<longrightarrow> (solo_rank lt sl' (hp_nodes hp') ls' pc',
        solo_rank lt (cs_list s) (hp_nodes (cs_heap s)) ls ?pc) \<in> solo_less" by blast
    have inv: "conc_inv valid lt E ?s ls'" by (rule conc_inv_good [OF less.prems(1,2) op g])
    have op': "pc_op pc' = Some op" using good_stepD(3) [OF g] by (simp add: at_ok_def)
    have one: "conc_step cmp base valid {} i s ?s" by (rule cs_run [OF less.prems(2) step])
    show ?thesis
    proof (cases "running pc'")
      case False
      then show ?thesis using r_into_rtranclp [of "conc_step cmp base valid {} i", OF one] less.prems(2) op op' step_no_panic [OF step] by (intro exI [of _ ?s]) simp
    next
      case True
      then obtain t where t: "(conc_step cmp base valid {} i)\<^sup>*\<^sup>* ?s t" "\<forall>j. j \<noteq> i \<longrightarrow> cs_pc t ! j = cs_pc s ! j" "length (cs_pc t) = length (cs_pc s)"
        "cs_calls t = cs_calls s" "\<not> running (cs_pc t ! i)" "pc_op (cs_pc t ! i) = Some op"
        "\<forall>op. cs_pc t ! i = C_Panic op \<longrightarrow> (\<exists>h. h \<le> MAX_HEAD_HEIGHT
          \<and> \<not> node_fits h (length (op_key op)) (length (op_value op)) (hp_arena (cs_heap t)))"
        using less.hyps [OF _ inv] rank less.prems(2) op' by auto
      have "(conc_step cmp base valid {} i)\<^sup>*\<^sup>* s t" using one t(1) by (rule converse_rtranclp_into_rtranclp)
      then show ?thesis using t op by auto
    qed
  qed
qed

end

section \<open>A call that finds room returns\<close>

text \<open>The part of a call before the node is allocated: until then the arena stays as it was.\<close>

fun before_alloc :: "conc_pc \<Rightarrow> bool" where
  "before_alloc (C_Search op pu) = (pu = For_Key)"
| "before_alloc (C_Skip op pu l) = (pu = For_Key)"
| "before_alloc (C_Level op pu l p t) = (pu = For_Key)"
| "before_alloc (C_Right op pu l p c t) = (pu = For_Key)"
| "before_alloc (C_Count op t) = True"
| "before_alloc (C_Seed op t) = True"
| "before_alloc (C_Seed_Store op t x) = True"
| "before_alloc (C_Max op t h) = True"
| "before_alloc (C_Max_Exchange op t h m) = True"
| "before_alloc (C_Alloc op t h) = True"
| "before_alloc _ = False"

lemma before_alloc_after [simp]: "before_alloc (after_search op pu t) \<Longrightarrow> pu = For_Key"
  by (cases pu) (auto simp: after_search_def split: option.splits)

lemma before_alloc_leave: "leave_level op pu l p c f t = Some pc \<Longrightarrow> before_alloc pc \<Longrightarrow> pu = For_Key"
  by (auto simp: leave_level_def split: Option.bind_splits)

lemma before_alloc_step:
  assumes "thread_step cmp base pc sl hp = Some (pc', sl', hp')" and "before_alloc pc'"
  shows "before_alloc pc \<and> hp_arena hp' = hp_arena hp"
  using assms
  by (induction cmp base pc sl hp rule: thread_step.induct)
    (auto dest: before_alloc_leave before_alloc_after split: Option.bind_splits if_splits ordering.splits option.splits)

lemma conc_step_more:
  assumes "conc_step cmp base valid {} i s t"
  shows "conc_step cmp base valid callers i s t"
  using assms by cases (auto intro: conc_step.intros)

lemma solo_steps_run:
  assumes "(conc_step cmp base valid {} i)\<^sup>*\<^sup>* s t" and "conc_run cmp base valid callers s0 s"
  shows "conc_run cmp base valid callers s0 t"
  using assms by (induction rule: rtranclp_induct) (auto intro: cs_more conc_step_more)

text \<open>A thread that panics finds the arena as it was before its call.\<close>

lemma solo_panic_arena:
  assumes start: "sl_inv ik_valid ik_less sl hp ps" "1 \<le> sl_max_level sl"
    and run: "conc_run internal_key_compare base ik_valid callers (conc_start n sl hp) s"
    and steps: "(conc_step internal_key_compare base ik_valid {} i)\<^sup>*\<^sup>* s t" and i: "i < length (cs_pc s)"
    and np: "\<forall>op. cs_pc s ! i \<noteq> C_Panic op"
  shows "length (cs_pc t) = length (cs_pc s) \<and> (before_alloc (cs_pc t ! i) \<or> (\<exists>op. cs_pc t ! i = C_Panic op)
    \<longrightarrow> hp_arena (cs_heap t) = hp_arena (cs_heap s))"
  using steps
proof (induction rule: rtranclp_induct)
  case base
  then show ?case by simp
next
  case (step u v)
  have ru: "conc_run internal_key_compare base ik_valid callers (conc_start n sl hp) u"
    by (rule solo_steps_run [OF step.hyps(1) run])
  obtain ls where inv: "conc_inv ik_valid ik_less (set (sl_contents (hp_nodes hp) ps)) u ls"
    using ik_cmp.conc_run_inv [OF ru conc_start_inv [OF start]] by blast
  from step.hyps(2) show ?case
  proof cases
    case (cs_run pc sl' hp')
    then show ?thesis using step.IH before_alloc_step [OF cs_run(3)] ik_cmp.step_no_panic [OF cs_run(3)] by auto
  next
    case (cs_panic op)
    then have "before_alloc (cs_pc u ! i)" using no_fault [OF inv cs_panic(2,3,5)] by auto
    then show ?thesis using step.IH cs_panic(1,2) by simp
  next
    case (cs_weak op t h m)
    then show ?thesis using step.IH by simp
  qed simp
qed

lemma insertion_returns:
  assumes start: "sl_inv ik_valid ik_less sl hp ps" "1 \<le> sl_max_level sl" and op: "op_ok ik_valid op"
    and room: "\<forall>h \<le> MAX_HEAD_HEIGHT. node_fits h (length (op_key op)) (length (op_value op)) (hp_arena hp)"
  obtains t r where "conc_run internal_key_compare base ik_valid {0} (conc_start 2 sl hp) t"
    and "cs_pc t = [C_Return op r, C_Idle]" and "cs_calls t = [op]"
proof -
  let ?s = "(conc_start 2 sl hp)\<lparr>cs_pc := (cs_pc (conc_start 2 sl hp))[0 := first_pc op], cs_calls := op # cs_calls (conc_start 2 sl hp)\<rparr>"
  have "conc_step internal_key_compare base ik_valid {0} 0 (conc_start 2 sl hp) ?s"
    by (rule cs_call) (simp_all add: conc_start_def op numeral_2_eq_2)
  then have run: "conc_run internal_key_compare base ik_valid {0} (conc_start 2 sl hp) ?s" by (rule cs_more [OF cs_refl])
  obtain ls where inv: "conc_inv ik_valid ik_less (set (sl_contents (hp_nodes hp) ps)) ?s ls"
    using ik_cmp.conc_run_inv [OF run conc_start_inv [OF start]] by blast
  have pcs: "cs_pc ?s = [first_pc op, C_Idle]" "cs_heap ?s = hp" "cs_calls ?s = [op]" by (simp_all add: conc_start_def numeral_2_eq_2)
  have first: "running (first_pc op)" "pc_op (first_pc op) = Some op" "first_pc op \<noteq> C_Panic op'" for op'
    by (cases op; simp add: first_pc_def)+
  obtain t where t: "(conc_step internal_key_compare base ik_valid {} 0)\<^sup>*\<^sup>* ?s t" "\<forall>j. j \<noteq> 0 \<longrightarrow> cs_pc t ! j = cs_pc ?s ! j"
    "length (cs_pc t) = length (cs_pc ?s)" "cs_calls t = cs_calls ?s" "\<not> running (cs_pc t ! 0)" "pc_op (cs_pc t ! 0) = Some op"
    "\<forall>op. cs_pc t ! 0 = C_Panic op \<longrightarrow> (\<exists>h \<le> MAX_HEAD_HEIGHT.
        \<not> node_fits h (length (op_key op)) (length (op_value op)) (hp_arena (cs_heap t)))"
    using ik_cmp.solo_run [OF inv, of 0 base] first pcs by auto
  have "cs_pc t ! 0 \<noteq> C_Panic op"
  proof
    assume p: "cs_pc t ! 0 = C_Panic op"
    then have "hp_arena (cs_heap t) = hp_arena hp" using solo_panic_arena [OF start run t(1)] first pcs by simp
    then show False using p t(7) room by auto
  qed
  then obtain r where r: "cs_pc t ! 0 = C_Return op r" using t(5,6) by (cases "cs_pc t ! 0") auto
  have "cs_pc t = [C_Return op r, C_Idle]"
    using t(2,3) r pcs(1) by (intro nth_equalityI) (auto simp: less_Suc_eq)
  then show thesis using that solo_steps_run [OF t(1) run] t(4) pcs(3) by simp
qed

section \<open>Properties\<close>

text \<open>
  C16.  The skip list is obstruction-free.  Whatever the other threads were doing when they stopped, a thread
  in the middle of \<open>insert\<close>, \<open>insert_with\<close> or \<open>search_node\<close> finishes its call by its own steps alone: every
  loop that retries (the height, the links) ends, once the weak exchange of the height fails only when the
  height has changed.  It returns, unless the arena has no room for its node, in which case
  \<open>Node::alloc\<close> panics.  The other threads stay where they are.
\<close>

theorem skip_list_obstruction_free:
  assumes "sl_inv ik_valid ik_less sl hp ps" and "1 \<le> sl_max_level sl"
    and "conc_run internal_key_compare base ik_valid callers (conc_start n sl hp) s"
    and "i < length (cs_pc s)" and "pc_op (cs_pc s ! i) = Some op" and "running (cs_pc s ! i)"
  shows "\<exists>t. (conc_step internal_key_compare base ik_valid {} i)\<^sup>*\<^sup>* s t \<and> (\<forall>j. j \<noteq> i \<longrightarrow> cs_pc t ! j = cs_pc s ! j)
    \<and> cs_calls t = cs_calls s
    \<and> ((\<exists>r. cs_pc t ! i = C_Return op r) \<or> cs_pc t ! i = C_Panic op \<and> (\<exists>h. h \<le> MAX_HEAD_HEIGHT
        \<and> \<not> node_fits h (length (op_key op)) (length (op_value op)) (hp_arena (cs_heap t))))"
proof -
  obtain ls where inv: "conc_inv ik_valid ik_less (set (sl_contents (hp_nodes hp) ps)) s ls"
    using ik_cmp.conc_run_inv [OF assms(3) conc_start_inv [OF assms(1,2)]] by blast
  have ret: "x = C_Panic op \<or> (\<exists>r. x = C_Return op r)" if "\<not> running x" "pc_op x = Some op" for x
    using that by (cases x) simp_all
  obtain t where t: "(conc_step internal_key_compare base ik_valid {} i)\<^sup>*\<^sup>* s t" "\<forall>j. j \<noteq> i \<longrightarrow> cs_pc t ! j = cs_pc s ! j"
    "cs_calls t = cs_calls s" "\<not> running (cs_pc t ! i)" "pc_op (cs_pc t ! i) = Some op"
    "\<forall>op. cs_pc t ! i = C_Panic op \<longrightarrow> (\<exists>h. h \<le> MAX_HEAD_HEIGHT
        \<and> \<not> node_fits h (length (op_key op)) (length (op_value op)) (hp_arena (cs_heap t)))"
    using ik_cmp.solo_run [OF inv assms(4,6)] assms(5) by metis
  show ?thesis by (intro exI [of _ t] conjI) (use t ret [OF t(4,5)] in blast)+
qed

theorem skip_list_obstruction_free_witness:
  "\<exists>sl hp t. skip_list_new (\<lambda>_. 0) demo_index_arena = Some (sl, hp)
    \<and> (conc_step internal_key_compare (\<lambda>_. 0) ik_valid {} 0)\<^sup>*\<^sup>*
        \<lparr>cs_list = sl, cs_heap = hp, cs_pc = [C_Search demo_op For_Key, C_Idle], cs_calls = [demo_op]\<rparr> t
    \<and> ((\<exists>r. cs_pc t ! 0 = C_Return demo_op r) \<or> cs_pc t ! 0 = C_Panic demo_op) \<and> cs_pc t ! 1 = C_Idle"
proof -
  obtain sl hp where s: "skip_list_new (\<lambda>_. 0) demo_index_arena = Some (sl, hp)" "sl_inv ik_valid ik_less sl hp []" "1 \<le> sl_max_level sl"
    by (rule demo_shared)
  from skip_list_obstruction_free [OF s(2,3) demo_call_run [of "\<lambda>_. 0"], of 0 demo_op] obtain t where
    "(conc_step internal_key_compare (\<lambda>_. 0) ik_valid {} 0)\<^sup>*\<^sup>*
        \<lparr>cs_list = sl, cs_heap = hp, cs_pc = [C_Search demo_op For_Key, C_Idle], cs_calls = [demo_op]\<rparr> t"
    "(\<exists>r. cs_pc t ! 0 = C_Return demo_op r) \<or> cs_pc t ! 0 = C_Panic demo_op" "cs_pc t ! 1 = C_Idle"
    by auto
  then show ?thesis using s(1) by blast
qed

text \<open>
  C15.  When no call is in progress the list is exactly as if the insertions had been made one at a time:
  it satisfies the invariant of the sequential operations, every node linked at all levels of its tower,
  and, if none panicked, its keys are those of the start and of the insertions called.
\<close>

theorem skip_list_quiescent:
  assumes "sl_inv ik_valid ik_less sl hp ps" and "1 \<le> sl_max_level sl"
    and "conc_run internal_key_compare base ik_valid callers (conc_start n sl hp) s"
    and "\<forall>pc \<in> set (cs_pc s). \<not> running pc"
  shows "\<exists>ps'. sl_inv ik_valid ik_less (cs_list s) (cs_heap s) ps'
    \<and> ((\<forall>op. C_Panic op \<notin> set (cs_pc s)) \<longrightarrow>
        fst ` set (sl_contents (hp_nodes (cs_heap s)) ps') =
          fst ` set (sl_contents (hp_nodes hp) ps) \<union> fst ` inserted (cs_calls s))"
proof -
  obtain ls where inv: "conc_inv ik_valid ik_less (set (sl_contents (hp_nodes hp) ps)) s ls"
    using ik_cmp.conc_run_inv [OF assms(3) conc_start_inv [OF assms(1,2)]] by blast
  have "\<forall>pc \<in> set (cs_pc s). \<not> unfinished pc" if np: "\<forall>op. C_Panic op \<notin> set (cs_pc s)"
  proof
    fix pc assume pc: "pc \<in> set (cs_pc s)"
    have "\<not> running pc" "pc \<noteq> C_Panic op" for op using pc np assms(4) by blast+
    then show "\<not> unfinished pc" by (cases pc) (auto simp: unfinished_def)
  qed
  then show ?thesis using ik_cmp.quiescent_inv [OF inv assms(4)] finished_keys [OF inv] by blast
qed

text \<open>One of two threads inserts a key into a new list, and its call returns.\<close>

theorem skip_list_quiescent_witness:
  "\<exists>sl hp s r ps'. skip_list_new (\<lambda>_. 0) demo_index_arena = Some (sl, hp)
    \<and> conc_run internal_key_compare (\<lambda>_. 0) ik_valid {0} (conc_start 2 sl hp) s \<and> cs_pc s = [C_Return demo_op r, C_Idle]
    \<and> sl_inv ik_valid ik_less (cs_list s) (cs_heap s) ps'
    \<and> fst ` set (sl_contents (hp_nodes (cs_heap s)) ps') = {replicate 9 7}"
proof -
  obtain sl hp where s: "skip_list_new (\<lambda>_. 0) demo_index_arena = Some (sl, hp)" "sl_inv ik_valid ik_less sl hp []"
    "can_grow (hp_arena hp)" "block_size (ar_policy (hp_arena hp)) = 1024" by (rule demo_index_room)
  have max: "1 \<le> sl_max_level sl" using s(1) demo_shared [of "\<lambda>_. 0"] by (metis option.inject prod.inject)
  have "\<forall>h \<le> MAX_HEAD_HEIGHT. node_fits h (length (op_key demo_op)) (length (op_value demo_op)) (hp_arena hp)"
    using s(3,4) by (simp add: node_fits_def MAX_HEAD_HEIGHT_def demo_op_def)
  from s(2) max demo_op_ok(1) this obtain t r where
    t: "conc_run internal_key_compare (\<lambda>_. 0) ik_valid {0} (conc_start 2 sl hp) t"
      "cs_pc t = [C_Return demo_op r, C_Idle]" "cs_calls t = [demo_op]"
    by (rule insertion_returns)
  have ins: "inserted [demo_op] = {(replicate 9 7, [1])}" by (auto simp: inserted_def demo_op_def op_entry_def op_inserts_def)
  have quiet: "\<forall>pc \<in> set (cs_pc t). \<not> running pc" "\<forall>op. C_Panic op \<notin> set (cs_pc t)" by (simp_all add: t(2))
  obtain ps' where "sl_inv ik_valid ik_less (cs_list t) (cs_heap t) ps'"
    "fst ` set (sl_contents (hp_nodes (cs_heap t)) ps') = fst ` set (sl_contents (hp_nodes hp) []) \<union> fst ` inserted [demo_op]"
    using skip_list_quiescent [OF s(2) max t(1) quiet(1)] quiet(2) t(3) by auto
  moreover have "fst ` set (sl_contents (hp_nodes hp) []) \<union> fst ` inserted [demo_op] = {replicate 9 7}"
    unfolding ins by (simp add: sl_contents_def)
  ultimately show ?thesis using s(1) t(1,2) by metis
qed

end
