(* ===== verification/Memtable_Conc.thy ===== *)
theory Memtable_Conc
  imports Memtable Skip_List_Solo
begin

text \<open>
  A memtable shared by writers (\<open>memtable.rs\<close> over \<open>mem_skip_list.rs\<close>): the table its skip list makes after
  any interleaving of their insertions.
\<close>

section \<open>Tables and runs\<close>

text \<open>The table with the list and the memory of a run; \<open>insert\<close> changes nothing else of it.\<close>

definition mem_after :: "memtable_inner \<Rightarrow> conc_sys \<Rightarrow> memtable_inner" where
  "mem_after m s = m\<lparr>mt_skiplist := cs_list s, mt_heap := cs_heap s\<rparr>"

lemma memtable_new_shared:
  assumes "memtable_inner_new base mem_id pol System = Some m" and "72 \<le> block_size pol"
  shows "sl_inv ik_valid ik_less (mt_skiplist m) (mt_heap m) []" and "1 \<le> sl_max_level (mt_skiplist m)"
proof -
  have pol: "0 < block_size pol" "block_size pol \<le> cap pol" "cap pol mod block_size pol = 0" "cap pol \<le> isize_MAX"
    using assms(1) by (auto simp: memtable_inner_new_def arena_new_def split: if_splits bind_splits)
  obtain a where a: "arena_new base pol System = Some a" "arena_holds a []" by (rule arena_new_holds [OF pol])
  have new: "skip_list_new base a = Some (mt_skiplist m, mt_heap m)"
    using assms(1) a(1) by (auto simp: memtable_inner_new_def split: bind_splits)
  show "sl_inv ik_valid ik_less (mt_skiplist m) (mt_heap m) []"
    by (rule skip_list_new_cases [OF a(2), where base = base and valid = ik_valid and lt = ik_less]) (use new in simp_all)
  show "1 \<le> sl_max_level (mt_skiplist m)"
    by (rule skip_list_new_cases [OF a(2), where base = base]) (use new in simp_all)
qed

lemma running_unfinished: "running pc \<Longrightarrow> unfinished pc"
  by (cases pc) (simp_all add: unfinished_def)

text \<open>When the calls of a run are over, the table holds exactly the versions they inserted.\<close>

lemma mem_after_holds:
  assumes "memtable_inner_new base mem_id pol System = Some m" and "72 \<le> block_size pol"
    and run: "conc_run internal_key_compare base ik_valid callers (conc_start n (mt_skiplist m) (mt_heap m)) s"
    and fin: "\<forall>pc \<in> set (cs_pc s). \<not> unfinished pc"
    and R: "inserted (cs_calls s) = version_entry ` R" "\<forall>r \<in> R. version_ok r" "inj_on (\<lambda>r. (vs_user r, vs_seq r)) R"
  obtains rs where "mem_holds (mem_after m s) (map version_entry rs)" and "set rs = R"
proof -
  let ?es = "\<lambda>ls. sl_contents (hp_nodes (cs_heap s)) (ls 0)"
  obtain ls where inv: "conc_inv ik_valid ik_less {} s ls"
    using ik_cmp.conc_run_inv [OF run conc_start_inv [OF memtable_new_shared [OF assms(1,2)]]]
    by (auto simp: sl_contents_def)
  have "\<forall>pc \<in> set (cs_pc s). \<not> running pc" using fin running_unfinished by blast
  then have "sl_inv ik_valid ik_less (cs_list s) (cs_heap s) (ls 0)" by (rule ik_cmp.quiescent_inv [OF inv])
  then have holds: "mem_holds (mem_after m s) (?es ls)" by (auto simp: mem_holds_def mem_after_def sl_holds_def)
  have sub: "set (?es ls) \<subseteq> version_entry ` R" using conc_inv_entries(2) [OF inv] R(1) by auto
  then have "\<forall>e \<in> set (?es ls). \<exists>r \<in> R. e = version_entry r" by blast
  then obtain f where f: "\<forall>e \<in> set (?es ls). f e \<in> R \<and> e = version_entry (f e)" by metis
  have es: "?es ls = map version_entry (map f (?es ls))" using f by (simp add: map_idI)
  have keys: "fst ` set (?es ls) = version_key ` R" using finished_keys [OF inv fin] R(1) by (auto simp: image_image)
  have "R \<subseteq> set (map f (?es ls))"
  proof
    fix r assume r: "r \<in> R"
    then obtain e where e: "e \<in> set (?es ls)" "fst e = version_key r" using keys by (metis imageE imageI)
    then have fe: "f e \<in> R" "version_key (f e) = version_key r" using f by (metis version_entry_simps(1))+
    have "f e = r"
      using inj_onD [OF R(3) _ fe(1) r] version_key_inject [OF fe(2)] R(2) fe(1) r by simp
    then show "r \<in> set (map f (?es ls))" using e(1) by force
  qed
  moreover have "set (map f (?es ls)) \<subseteq> R" using f by auto
  ultimately show thesis using that [of "map f (?es ls)"] holds es by simp
qed

section \<open>Properties\<close>

text \<open>
  C2.  A memtable written by several threads at once, end to end: after any interleaving of their insertions
  into a new table, once the calls have returned, a lookup of any user key at any snapshot answers with the
  newest version of the key the snapshot covers among all versions inserted by any thread, and with not
  found when there is none.  No insertion is lost and none is seen in part.
\<close>

theorem memtable_concurrent_writes:
  assumes "memtable_inner_new base mem_id pol System = Some m" and "72 \<le> block_size pol"
    and "conc_run internal_key_compare base ik_valid callers (conc_start n (mt_skiplist m) (mt_heap m)) s"
    and "\<forall>pc \<in> set (cs_pc s). \<not> unfinished pc"
    and "inserted (cs_calls s) = version_entry ` R" and "\<forall>r \<in> R. version_ok r" and "inj_on (\<lambda>r. (vs_user r, vs_seq r)) R"
    and "snapshot < 2 ^ 56"
  shows "(\<forall>r \<in> R. visible uk snapshot r \<longrightarrow> (\<forall>r' \<in> R. visible uk snapshot r' \<longrightarrow> r' = r \<or> vs_seq r' < vs_seq r) \<longrightarrow>
        memtable_get internal_key_compare (internal_key uk snapshot IK_Max) (mem_after m s) = Some (answer r))
    \<and> ((\<forall>r \<in> R. \<not> visible uk snapshot r) \<longrightarrow>
        memtable_get internal_key_compare (internal_key uk snapshot IK_Max) (mem_after m s) = Some MR_NotFound)"
proof -
  obtain rs where rs: "mem_holds (mem_after m s) (map version_entry rs)" "set rs = R"
    by (rule mem_after_holds [OF assms(1-7)])
  then show ?thesis using get_visible [OF rs(1) _ assms(8)] get_invisible [OF rs(1) _ assms(8)] assms(6) by blast
qed

text \<open>One of two writers inserts a version into a new table, and its call returns.\<close>

theorem memtable_concurrent_writes_witness:
  "\<exists>m s r. memtable_inner_new (\<lambda>_. 0) 0 demo_policy System = Some m
    \<and> conc_run internal_key_compare (\<lambda>_. 0) ik_valid {0} (conc_start 2 (mt_skiplist m) (mt_heap m)) s
    \<and> cs_pc s = [C_Return (Op_Insert (version_key demo_version) (vs_value demo_version)) r, C_Idle]
    \<and> memtable_get internal_key_compare (internal_key [97] 8 IK_Max) (mem_after m s) = Some (MR_Value [1])
    \<and> memtable_get internal_key_compare (internal_key [97] 2 IK_Max) (mem_after m s) = Some MR_NotFound"
proof -
  let ?op = "Op_Insert (version_key demo_version) (vs_value demo_version)"
  obtain m where m: "memtable_inner_new (\<lambda>_. 0) 0 demo_policy System = Some m"
    by (rule memtable_new_holds [of demo_policy]) (simp_all add: demo_policy_def isize_MAX_def)
  have pol: "72 \<le> block_size demo_policy" by (simp add: demo_policy_def)
  note new = memtable_new_shared [OF m pol] and arena = memtable_new_arena [OF m pol]
  have op: "op_ok ik_valid ?op" by (simp add: op_ok_def version_key_def demo_version_def)
  have "\<forall>h \<le> MAX_HEAD_HEIGHT. node_fits h (length (op_key ?op)) (length (op_value ?op)) (hp_arena (mt_heap m))"
    using arena by (simp add: node_fits_def MAX_HEAD_HEIGHT_def version_key_def demo_version_def demo_policy_def)
  with new op obtain s r where s: "conc_run internal_key_compare (\<lambda>_. 0) ik_valid {0} (conc_start 2 (mt_skiplist m) (mt_heap m)) s"
    "cs_pc s = [C_Return ?op r, C_Idle]" "cs_calls s = [?op]" by (rule insertion_returns)
  have fin: "\<forall>pc \<in> set (cs_pc s). \<not> unfinished pc" by (simp add: s(2) unfinished_def)
  have ins: "inserted (cs_calls s) = version_entry ` {demo_version}"
    by (auto simp: s(3) inserted_def op_entry_def op_inserts_def version_entry_def)
  have ok: "\<forall>r \<in> {demo_version}. version_ok r" by (simp add: demo_version_def version_ok_def)
  have inj: "inj_on (\<lambda>r. (vs_user r, vs_seq r)) {demo_version}" by simp
  note get = memtable_concurrent_writes [OF m pol s(1) fin ins ok inj]
  have "memtable_get internal_key_compare (internal_key [97] 8 IK_Max) (mem_after m s) = Some (MR_Value [1])"
    "memtable_get internal_key_compare (internal_key [97] 2 IK_Max) (mem_after m s) = Some MR_NotFound"
    using get [of 8 "[97]"] get [of 2 "[97]"] by (simp_all add: visible_def answer_def demo_version_def)
  then show ?thesis using m s(1,2) by blast
qed

end
