(* ===== verification/Memtable_Handle.thy ===== *)
theory Memtable_Handle
  imports Memtable "HOL-Library.Multiset"
begin

text \<open>
  The handles of \<open>memtable.rs\<close>: \<open>Memtable<S>\<close> and \<open>ReadableMemtable\<close> share a \<open>MemtableInner\<close> through an
  \<open>Arc\<close>.  The tables live in a memory of reference-counted cells; the cell of a table is gone when its
  last handle is dropped.  Access to a cell that is gone is \<open>None\<close>.
\<close>

section \<open>Definitions\<close>

text \<open>The type states.\<close>

datatype memtable_state = MS_Mutable | MS_Immutable | MS_Flushed

primrec memtable_state_name :: "memtable_state \<Rightarrow> string" where
  "memtable_state_name MS_Mutable = ''Mutable''"
| "memtable_state_name MS_Immutable = ''Immutable''"
| "memtable_state_name MS_Flushed = ''Flushed''"

text \<open>A cell holds a table and the number of its owners.\<close>

type_synonym table_cells = "(memtable_inner \<times> nat) option list"

record memtable_handle =
  mh_state :: memtable_state
  mh_inner :: nat

record readable_handle =
  rm_inner :: nat

definition table_at :: "nat \<Rightarrow> table_cells \<Rightarrow> memtable_inner option" where
  "table_at a cs = do { cell \<leftarrow> get_at a cs; map_option fst cell }"

definition table_clone :: "nat \<Rightarrow> table_cells \<Rightarrow> table_cells option" where
  "table_clone a cs =
     do {
       cell \<leftarrow> get_at a cs;
       (m, n) \<leftarrow> cell;
       set_at a (Some (m, n + 1)) cs
     }"

definition table_drop :: "nat \<Rightarrow> table_cells \<Rightarrow> table_cells option" where
  "table_drop a cs =
     do {
       cell \<leftarrow> get_at a cs;
       (m, n) \<leftarrow> cell;
       set_at a (if n = 1 then None else Some (m, n - 1)) cs
     }"

definition memtable_new ::
  "(nat \<Rightarrow> nat) \<Rightarrow> u64 \<Rightarrow> arena_policy \<Rightarrow> allocator \<Rightarrow> table_cells \<Rightarrow> (memtable_handle \<times> table_cells) option" where
  "memtable_new base mem_id policy allocator cs =
     do {
       m \<leftarrow> memtable_inner_new base mem_id policy allocator;
       Some (\<lparr>mh_state = MS_Mutable, mh_inner = length cs\<rparr>, cs @ [Some (m, 1)])
     }"

definition memtable_clone :: "memtable_handle \<Rightarrow> table_cells \<Rightarrow> (memtable_handle \<times> table_cells) option" where
  "memtable_clone h cs = map_option (Pair h) (table_clone (mh_inner h) cs)"

definition readable_memtable :: "memtable_handle \<Rightarrow> table_cells \<Rightarrow> (readable_handle \<times> table_cells) option" where
  "readable_memtable h cs = map_option (Pair \<lparr>rm_inner = mh_inner h\<rparr>) (table_clone (mh_inner h) cs)"

text \<open>The operations of \<open>Memtable<Mutable>\<close> go to the shared table.\<close>

definition mutable_insert ::
  "comparator_fn \<Rightarrow> (nat \<Rightarrow> nat) \<Rightarrow> bytes \<Rightarrow> bytes \<Rightarrow> memtable_handle \<Rightarrow> table_cells \<Rightarrow> table_cells option" where
  "mutable_insert cmp base key val h cs =
     do {
       cell \<leftarrow> get_at (mh_inner h) cs;
       (m, n) \<leftarrow> cell;
       m \<leftarrow> memtable_insert cmp base key val m;
       set_at (mh_inner h) (Some (m, n)) cs
     }"

definition mutable_get :: "comparator_fn \<Rightarrow> bytes \<Rightarrow> memtable_handle \<Rightarrow> table_cells \<Rightarrow> mem_return option" where
  "mutable_get cmp key h cs = do { m \<leftarrow> table_at (mh_inner h) cs; memtable_get cmp key m }"

definition mutable_iter :: "memtable_handle \<Rightarrow> table_cells \<Rightarrow> memtable_iterator option" where
  "mutable_iter h cs = do { m \<leftarrow> table_at (mh_inner h) cs; memtable_iter m }"

definition memtable_display :: "memtable_handle \<Rightarrow> table_cells \<Rightarrow> string option" where
  "memtable_display h cs =
     do {
       m \<leftarrow> table_at (mh_inner h) cs;
       d \<leftarrow> memtable_inner_display m;
       Some (''Memtable<'' @ memtable_state_name (mh_state h) @ ''> { '' @ d @ '' } '')
     }"

text \<open>The tables with all live handles, and what their owners do.\<close>

record mem_world =
  mw_cells :: table_cells
  mw_handles :: "memtable_handle list"
  mw_readers :: "readable_handle list"

inductive mem_step :: "comparator_fn \<Rightarrow> (nat \<Rightarrow> nat) \<Rightarrow> mem_world \<Rightarrow> mem_world \<Rightarrow> bool" for cmp base w where
  ms_new: "memtable_new base mem_id policy allocator (mw_cells w) = Some (h, cs) \<Longrightarrow>
     mem_step cmp base w (w\<lparr>mw_cells := cs, mw_handles := h # mw_handles w\<rparr>)"
| ms_clone: "h \<in> set (mw_handles w) \<Longrightarrow> memtable_clone h (mw_cells w) = Some (h', cs) \<Longrightarrow>
     mem_step cmp base w (w\<lparr>mw_cells := cs, mw_handles := h' # mw_handles w\<rparr>)"
| ms_readable: "h \<in> set (mw_handles w) \<Longrightarrow> readable_memtable h (mw_cells w) = Some (r, cs) \<Longrightarrow>
     mem_step cmp base w (w\<lparr>mw_cells := cs, mw_readers := r # mw_readers w\<rparr>)"
| ms_insert: "h \<in> set (mw_handles w) \<Longrightarrow> mutable_insert cmp base key val h (mw_cells w) = Some cs \<Longrightarrow>
     mem_step cmp base w (w\<lparr>mw_cells := cs\<rparr>)"
| ms_drop: "h \<in> set (mw_handles w) \<Longrightarrow> table_drop (mh_inner h) (mw_cells w) = Some cs \<Longrightarrow>
     mem_step cmp base w (w\<lparr>mw_cells := cs, mw_handles := remove1 h (mw_handles w)\<rparr>)"
| ms_drop_reader: "r \<in> set (mw_readers w) \<Longrightarrow> table_drop (rm_inner r) (mw_cells w) = Some cs \<Longrightarrow>
     mem_step cmp base w (w\<lparr>mw_cells := cs, mw_readers := remove1 r (mw_readers w)\<rparr>)"

inductive mem_run :: "comparator_fn \<Rightarrow> (nat \<Rightarrow> nat) \<Rightarrow> mem_world \<Rightarrow> mem_world \<Rightarrow> bool" for cmp base w0 where
  mr_refl: "mem_run cmp base w0 w0"
| mr_more: "mem_run cmp base w0 w \<Longrightarrow> mem_step cmp base w w' \<Longrightarrow> mem_run cmp base w0 w'"

definition mem_world_start :: mem_world where
  "mem_world_start = \<lparr>mw_cells = [], mw_handles = [], mw_readers = []\<rparr>"

section \<open>Reference counts\<close>

text \<open>The count of a cell is the number of handles to it.\<close>

definition owners :: "mem_world \<Rightarrow> nat multiset" where
  "owners w = mset (map mh_inner (mw_handles w)) + mset (map rm_inner (mw_readers w))"

definition cell_count :: "table_cells \<Rightarrow> nat \<Rightarrow> nat" where
  "cell_count cs a = (if a < length cs then (case cs ! a of None \<Rightarrow> 0 | Some (m, n) \<Rightarrow> n) else 0)"

definition counted :: "table_cells \<Rightarrow> nat multiset \<Rightarrow> bool" where
  "counted cs own \<longleftrightarrow> (\<forall>a. count own a = cell_count cs a) \<and> (\<forall>a < length cs. \<forall>m. cs ! a \<noteq> Some (m, 0))"

lemma cell_count_update: "a < length cs \<Longrightarrow> cell_count (cs[a := c]) b = (if b = a then (case c of None \<Rightarrow> 0 | Some (m, n) \<Rightarrow> n) else cell_count cs b)"
  by (auto simp: cell_count_def)

lemma counted_cell:
  assumes "counted cs own" and "a \<in># own"
  obtains m n where "a < length cs" and "cs ! a = Some (m, Suc n)"
proof -
  have "0 < cell_count cs a" using assms unfolding counted_def count_greater_zero_iff [symmetric] by auto
  then have "a < length cs" "\<exists>m n. cs ! a = Some (m, Suc n)"
    by (auto simp: cell_count_def gr0_conv_Suc split: if_splits option.splits)
  then show thesis using that by blast
qed

lemma counted_update:
  assumes "counted cs own" and "a < length cs" and "\<forall>m. c \<noteq> Some (m, 0)"
    and "\<forall>b. count own' b = (if b = a then (case c of None \<Rightarrow> 0 | Some (m, n) \<Rightarrow> n) else count own b)"
  shows "counted (cs[a := c]) own'"
  using assms by (auto simp: counted_def cell_count_update nth_list_update)

lemma table_clone_ok:
  assumes "counted cs own" and "a \<in># own"
  obtains cs' where "table_clone a cs = Some cs'" and "counted cs' (add_mset a own)"
    and "\<And>b. table_at b cs' = table_at b cs" and "length cs' = length cs"
proof -
  obtain m n where a: "a < length cs" "cs ! a = Some (m, Suc n)" using counted_cell [OF assms] .
  have "count own a = Suc n" using assms(1) a by (simp add: counted_def cell_count_def)
  then have "counted (cs[a := Some (m, Suc n + 1)]) (add_mset a own)"
    by (intro counted_update [OF assms(1) a(1)]) auto
  moreover have "table_at b (cs[a := Some (m, Suc n + 1)]) = table_at b cs" for b
    using a by (auto simp: table_at_def get_at_def nth_list_update)
  ultimately show thesis using that [of "cs[a := Some (m, Suc n + 1)]"] a by (simp add: table_clone_def get_at_def set_at_def)
qed

lemma table_drop_ok:
  assumes "counted cs own" and "a \<in># own"
  obtains cs' where "table_drop a cs = Some cs'" and "counted cs' (own - {#a#})"
    and "\<And>b. b \<in># own - {#a#} \<Longrightarrow> table_at b cs' = table_at b cs" and "length cs' = length cs"
proof -
  obtain m n where a: "a < length cs" "cs ! a = Some (m, Suc n)" using counted_cell [OF assms] .
  let ?c = "if Suc n = 1 then None else Some (m, Suc n - 1)"
  have n: "count own a = Suc n" using assms(1) a by (simp add: counted_def cell_count_def)
  have "counted (cs[a := ?c]) (own - {#a#})"
    by (intro counted_update [OF assms(1) a(1)]) (use n in auto)
  moreover have "table_at b (cs[a := ?c]) = table_at b cs" if "b \<in># own - {#a#}" for b
  proof (cases "b = a")
    case True
    then have "n \<noteq> 0" using that n by (auto simp: count_greater_zero_iff [symmetric] simp del: count_greater_zero_iff)
    then show ?thesis using a True by (simp add: table_at_def get_at_def)
  qed (simp add: table_at_def get_at_def)
  ultimately show thesis using that [of "cs[a := ?c]"] a by (simp add: table_drop_def get_at_def set_at_def)
qed

lemma mutable_insert_ok:
  assumes "counted cs own" and "mutable_insert cmp base key val h cs = Some cs'"
  obtains m m' where "table_at (mh_inner h) cs = Some m" and "memtable_insert cmp base key val m = Some m'"
    and "counted cs' own" and "\<And>b. table_at b cs' = (if b = mh_inner h then Some m' else table_at b cs)"
proof -
  let ?a = "mh_inner h"
  obtain m n m' where m: "?a < length cs" "cs ! ?a = Some (m, n)" "memtable_insert cmp base key val m = Some m'" "cs' = cs[?a := Some (m', n)]"
    using assms(2) by (auto simp: mutable_insert_def get_at_def set_at_def split: Option.bind_splits if_splits)
  have "n \<noteq> 0" "count own ?a = n" using assms(1) m(1,2) by (auto simp: counted_def cell_count_def)
  then have "counted cs' own" unfolding m(4) by (intro counted_update [OF assms(1) m(1)]) auto
  moreover have "table_at b cs' = (if b = ?a then Some m' else table_at b cs)" for b
    using m(1,4) by (auto simp: table_at_def get_at_def nth_list_update)
  ultimately show thesis using that m by (simp add: table_at_def get_at_def)
qed

lemma owners_handle: "h \<in> set (mw_handles w) \<Longrightarrow> mh_inner h \<in># owners w"
  by (simp add: owners_def)

lemma owners_reader: "r \<in> set (mw_readers w) \<Longrightarrow> rm_inner r \<in># owners w"
  by (simp add: owners_def)

lemma mset_map_remove1: "x \<in> set xs \<Longrightarrow> mset (map f (remove1 x xs)) = mset (map f xs) - {#f x#}"
  by (simp add: image_mset_Diff)

lemma mem_step_counted:
  assumes "mem_step cmp base w w'" and inv: "counted (mw_cells w) (owners w)"
  shows "counted (mw_cells w') (owners w')"
  using assms(1)
proof cases
  case (ms_new mem_id policy allocator h cs)
  obtain m where m: "mh_inner h = length (mw_cells w)" "cs = mw_cells w @ [Some (m, 1)]"
    using ms_new(2) by (auto simp: memtable_new_def split: Option.bind_splits)
  have "count (owners w) (length (mw_cells w)) = 0" using inv by (simp add: counted_def cell_count_def)
  then show ?thesis using inv unfolding ms_new(1) by (auto simp: counted_def owners_def m cell_count_def nth_append less_Suc_eq)
next
  case (ms_clone h h' cs)
  obtain cs' where "table_clone (mh_inner h) (mw_cells w) = Some cs'" "counted cs' (add_mset (mh_inner h) (owners w))"
    by (rule table_clone_ok [OF inv owners_handle [OF ms_clone(2)]])
  then show ?thesis using ms_clone(1,3) by (auto simp: memtable_clone_def owners_def)
next
  case (ms_readable h r cs)
  obtain cs' where "table_clone (mh_inner h) (mw_cells w) = Some cs'" "counted cs' (add_mset (mh_inner h) (owners w))"
    by (rule table_clone_ok [OF inv owners_handle [OF ms_readable(2)]])
  then show ?thesis using ms_readable(1,3) by (auto simp: readable_memtable_def owners_def)
next
  case (ms_insert h key val cs)
  then show ?thesis using mutable_insert_ok [OF inv ms_insert(3)] by (auto simp: owners_def)
next
  case (ms_drop h cs)
  have "counted cs (owners w - {#mh_inner h#})"
    by (rule table_drop_ok [OF inv owners_handle [OF ms_drop(2)]]) (use ms_drop(3) in simp)
  moreover have "mh_inner h \<in># mset (map mh_inner (mw_handles w))" using ms_drop(2) by simp
  ultimately show ?thesis using ms_drop(1,2) by (simp add: owners_def mset_map_remove1 del: mset_map)
next
  case (ms_drop_reader r cs)
  have "counted cs (owners w - {#rm_inner r#})"
    by (rule table_drop_ok [OF inv owners_reader [OF ms_drop_reader(2)]]) (use ms_drop_reader(3) in simp)
  moreover have "rm_inner r \<in># mset (map rm_inner (mw_readers w))" using ms_drop_reader(2) by simp
  ultimately show ?thesis using ms_drop_reader(1,2) by (simp add: owners_def mset_map_remove1 del: mset_map)
qed

lemma mem_run_counted: "mem_run cmp base mem_world_start w \<Longrightarrow> counted (mw_cells w) (owners w)"
proof (induction rule: mem_run.induct)
  case mr_refl
  then show ?case by (simp add: counted_def mem_world_start_def owners_def cell_count_def)
qed (rule mem_step_counted)

lemma counted_alive: "counted cs own \<Longrightarrow> table_at a cs \<noteq> None \<longleftrightarrow> a \<in># own"
  by (cases "a < length cs"; cases "cs ! a")
    (auto simp: counted_def cell_count_def table_at_def get_at_def count_greater_zero_iff [symmetric] simp del: count_greater_zero_iff)

section \<open>Properties\<close>

text \<open>
  Also:  Memtables live exactly as long as their handles.  Whatever sequence of new tables, clones, readers,
  insertions and drops came before, the table of a cell is there if and only if some handle or reader
  points to it, so no operation of a handle finds its table gone; and the handles of one table see the
  same state: after an insertion through one of them each answers lookups as the table with that entry,
  while the handles of other tables answer as before.
\<close>

theorem memtable_handles_share:
  assumes "mem_run internal_key_compare base mem_world_start w" and "h \<in> set (mw_handles w)"
  shows "(\<forall>a. table_at a (mw_cells w) \<noteq> None \<longleftrightarrow> a \<in># owners w)
    \<and> memtable_clone h (mw_cells w) \<noteq> None \<and> readable_memtable h (mw_cells w) \<noteq> None
    \<and> table_drop (mh_inner h) (mw_cells w) \<noteq> None
    \<and> (\<forall>key val cs. mutable_insert internal_key_compare base key val h (mw_cells w) = Some cs \<longrightarrow>
        (\<exists>m m'. table_at (mh_inner h) (mw_cells w) = Some m \<and> memtable_insert internal_key_compare base key val m = Some m'
          \<and> (\<forall>h' \<in> set (mw_handles w). \<forall>k. mutable_get internal_key_compare k h' cs =
              (if mh_inner h' = mh_inner h then memtable_get internal_key_compare k m'
               else mutable_get internal_key_compare k h' (mw_cells w)))))"
proof -
  note inv = mem_run_counted [OF assms(1)] and own = owners_handle [OF assms(2)]
  show ?thesis
  proof (intro conjI allI impI)
    show "table_at a (mw_cells w) \<noteq> None \<longleftrightarrow> a \<in># owners w" for a by (rule counted_alive [OF inv])
    show "memtable_clone h (mw_cells w) \<noteq> None" "readable_memtable h (mw_cells w) \<noteq> None"
      using table_clone_ok [OF inv own] by (auto simp: memtable_clone_def readable_memtable_def)
    show "table_drop (mh_inner h) (mw_cells w) \<noteq> None" using table_drop_ok [OF inv own] by auto
  next
    fix key val cs assume "mutable_insert internal_key_compare base key val h (mw_cells w) = Some cs"
    from mutable_insert_ok [OF inv this] obtain m m' where
      m: "table_at (mh_inner h) (mw_cells w) = Some m" "memtable_insert internal_key_compare base key val m = Some m'"
      and at: "\<And>b. table_at b cs = (if b = mh_inner h then Some m' else table_at b (mw_cells w))" by metis
    have "mutable_get internal_key_compare k h' cs = (if mh_inner h' = mh_inner h then memtable_get internal_key_compare k m'
        else mutable_get internal_key_compare k h' (mw_cells w))" for h' k by (simp add: mutable_get_def at)
    then show "\<exists>m m'. table_at (mh_inner h) (mw_cells w) = Some m \<and> memtable_insert internal_key_compare base key val m = Some m'
        \<and> (\<forall>h' \<in> set (mw_handles w). \<forall>k. mutable_get internal_key_compare k h' cs =
            (if mh_inner h' = mh_inner h then memtable_get internal_key_compare k m'
             else mutable_get internal_key_compare k h' (mw_cells w)))" using m by blast
  qed
qed

theorem memtable_handles_share_witness:
  "\<exists>m m' h cs. memtable_new (\<lambda>_. 0) 0 demo_policy System [] = Some (h, [Some (m, 1)])
    \<and> mutable_insert internal_key_compare (\<lambda>_. 0) (version_key demo_version) (vs_value demo_version) h [Some (m, 1)] = Some cs
    \<and> mutable_get internal_key_compare [] h cs = memtable_get internal_key_compare [] m'"
proof -
  obtain m m' where m: "memtable_inner_new (\<lambda>_. 0) 0 demo_policy System = Some m"
    "memtable_insert internal_key_compare (\<lambda>_. 0) (version_key demo_version) (vs_value demo_version) m = Some m'"
    by (rule demo_insert)
  let ?h = "\<lparr>mh_state = MS_Mutable, mh_inner = 0\<rparr>" and ?w = "\<lparr>mw_cells = [Some (m, 1)], mw_handles = [\<lparr>mh_state = MS_Mutable, mh_inner = 0\<rparr>], mw_readers = []\<rparr>"
  have new: "memtable_new (\<lambda>_. 0) 0 demo_policy System [] = Some (?h, [Some (m, 1)])" using m(1) by (simp add: memtable_new_def)
  have ins: "mutable_insert internal_key_compare (\<lambda>_. 0) (version_key demo_version) (vs_value demo_version) ?h [Some (m, 1)] = Some [Some (m', 1)]"
    using m(2) by (simp add: mutable_insert_def get_at_def set_at_def)
  have "mem_step internal_key_compare (\<lambda>_. 0) mem_world_start
      (mem_world_start\<lparr>mw_cells := [Some (m, 1)], mw_handles := ?h # mw_handles mem_world_start\<rparr>)"
    by (rule ms_new) (use new in \<open>simp add: mem_world_start_def\<close>)
  from mr_more [OF mr_refl this] have "mem_run internal_key_compare (\<lambda>_. 0) mem_world_start ?w" by (simp add: mem_world_start_def)
  moreover have "?h \<in> set (mw_handles ?w)" "mutable_insert internal_key_compare (\<lambda>_. 0) (version_key demo_version)
      (vs_value demo_version) ?h (mw_cells ?w) = Some [Some (m', 1)]" using ins by simp_all
  ultimately obtain n n' where "table_at (mh_inner ?h) (mw_cells ?w) = Some n"
    "memtable_insert internal_key_compare (\<lambda>_. 0) (version_key demo_version) (vs_value demo_version) n = Some n'"
    "\<forall>h' \<in> set (mw_handles ?w). \<forall>k. mutable_get internal_key_compare k h' [Some (m', 1)] =
        (if mh_inner h' = mh_inner ?h then memtable_get internal_key_compare k n'
         else mutable_get internal_key_compare k h' (mw_cells ?w))"
    using memtable_handles_share [of "\<lambda>_. 0" ?w ?h] by blast
  then have "mutable_get internal_key_compare [] ?h [Some (m', 1)] = memtable_get internal_key_compare [] m'"
    using m(2) by (simp add: table_at_def get_at_def)
  then show ?thesis using new ins by blast
qed

end
