(* ===== verification/Skip_List_Linear.thy ===== *)
theory Skip_List_Linear
  imports Skip_List_Runs
begin

text \<open>
  Searches of the shared skip list are linearizable: while other threads insert, a search returns the
  answer that was right at one moment between its call and its return.
\<close>

section \<open>The moment of a search\<close>

text \<open>The first node not below a key, in the bottom level of a state.\<close>

definition exact :: "(bytes \<Rightarrow> bytes \<Rightarrow> bool) \<Rightarrow> conc_sys \<Rightarrow> bytes \<Rightarrow> node_ptr option \<Rightarrow> bool" where
  "exact lt s key r \<longleftrightarrow> (\<exists>ps. linked (hp_nodes (cs_heap s)) 0 (sl_head (cs_list s)) ps
     \<and> r = hd_opt (dropWhile (\<lambda>p. lt (node_key (hp_nodes (cs_heap s)) p) key) ps))"

text \<open>The states between the call and now, and what a search in progress has seen in one of them.\<close>

definition past ::
  "(conc_sys \<Rightarrow> conc_sys \<Rightarrow> bool) \<Rightarrow> (bytes \<Rightarrow> bool) \<Rightarrow> (bytes \<Rightarrow> bytes \<Rightarrow> bool) \<Rightarrow> conc_sys \<Rightarrow> conc_sys \<Rightarrow> levels
    \<Rightarrow> conc_sys \<Rightarrow> levels \<Rightarrow> bool" where
  "past run valid lt s1 s ls m lm \<longleftrightarrow> run s1 m \<and> run m s
     \<and> levels_ok valid lt (cs_list m) (hp_nodes (cs_heap m)) lm \<and> sys_le m lm s ls"

definition looked :: "(bytes \<Rightarrow> bytes \<Rightarrow> bool) \<Rightarrow> (conc_sys \<Rightarrow> levels \<Rightarrow> bool) \<Rightarrow> bytes \<Rightarrow> conc_pc \<Rightarrow> bool" where
  "looked lt was key pc \<longleftrightarrow>
     (\<forall>op. pc = C_Skip op For_Key 0 \<longrightarrow> (\<exists>m lm. was m lm \<and> exact lt m key None))
     \<and> (\<forall>op p cur t. pc = C_Right op For_Key 0 p cur t \<longrightarrow> (\<exists>m lm. was m lm
          \<and> below lt (cs_list m) (hp_nodes (cs_heap m)) lm key 0 p \<and> load_next (hp_nodes (cs_heap m)) p 0 = Some cur))
     \<and> (\<forall>op p t. pc = C_Level op For_Key 0 p t \<longrightarrow> (\<exists>m lm. was m lm \<and> exact lt m key (tc_successors t ! 0)))
     \<and> (\<forall>op r. pc = C_Return op r \<longrightarrow> (\<exists>m lm. was m lm \<and> exact lt m key r))"

lemma lookedD:
  assumes "looked lt was key pc"
  shows "pc = C_Skip op For_Key 0 \<Longrightarrow> \<exists>m lm. was m lm \<and> exact lt m key None"
    and "pc = C_Right op For_Key 0 p cur t \<Longrightarrow> \<exists>m lm. was m lm
          \<and> below lt (cs_list m) (hp_nodes (cs_heap m)) lm key 0 p \<and> load_next (hp_nodes (cs_heap m)) p 0 = Some cur"
    and "pc = C_Level op For_Key 0 p t \<Longrightarrow> \<exists>m lm. was m lm \<and> exact lt m key (tc_successors t ! 0)"
    and "pc = C_Return op r \<Longrightarrow> \<exists>m lm. was m lm \<and> exact lt m key r"
  using assms unfolding looked_def by blast+

lemma looked_mono:
  assumes "looked lt was key pc" and "\<forall>m lm. was m lm \<longrightarrow> was' m lm"
  shows "looked lt was' key pc"
  unfolding looked_def
proof (intro conjI allI impI)
qed (use lookedD [OF assms(1)] assms(2) in \<open>blast\<close>)+

context comparator
begin

text \<open>A pointer loaded from a node below the key shows the first node not below it, when it leads to none
  that is.\<close>

lemma exact_load:
  assumes lv: "levels_ok valid lt (cs_list m) (hp_nodes (cs_heap m)) lm"
    and p: "below lt (cs_list m) (hp_nodes (cs_heap m)) lm key 0 p" and c: "load_next (hp_nodes (cs_heap m)) p 0 = Some cur"
    and b: "\<forall>c. cur = Some c \<longrightarrow> \<not> lt (node_key (hp_nodes (cs_heap m)) c) key"
  shows "exact lt m key cur"
proof -
  let ?ns = "hp_nodes (cs_heap m)" and ?h = "sl_head (cs_list m)"
  obtain as bs where s: "lm 0 = as @ bs" "p = last (?h # as)" "load_next ?ns p 0 = Some (hd_opt bs)"
    using level_split [OF lv MAX_HEAD_HEIGHT_pos below_cases [OF p]] by blast
  have cur: "cur = hd_opt bs" using c s(3) by simp
  have "lt (node_key ?ns x) key" if x: "x \<in> set as" for x
  proof -
    have pa: "p = last as" "p \<in> set as" using s(2) x by auto
    then have "p \<noteq> ?h" using levels_okD(7) [OF lv MAX_HEAD_HEIGHT_pos] s(1) by auto
    then have pk: "lt (node_key ?ns p) key" using p by (simp add: below_def)
    have as: "as = butlast as @ [p]" using pa by (cases as rule: rev_cases) auto
    have "sorted_wrt (\<lambda>p q. lt (node_key ?ns p) (node_key ?ns q)) (butlast as @ [p])"
      using levels_sorted(1) [OF lv MAX_HEAD_HEIGHT_pos] s(1) as by (metis sorted_wrt_append)
    moreover have "x \<in> set (butlast as) \<or> x = p" using x as by (metis Un_iff empty_iff empty_set set_ConsD set_append)
    ultimately show ?thesis using pk lt_trans by (auto simp: sorted_wrt_append)
  qed
  moreover have "dropWhile (\<lambda>p. lt (node_key ?ns p) key) bs = bs" using b cur by (cases bs) auto
  ultimately have "dropWhile (\<lambda>p. lt (node_key ?ns p) key) (lm 0) = bs" unfolding s(1) by (simp add: dropWhile_append2)
  then show ?thesis unfolding exact_def cur using levels_okD(5) [OF lv MAX_HEAD_HEIGHT_pos] by auto
qed

lemma leave_level_eq:
  assumes "ctx_from lt sl ns ls key pu t (Suc l)" and "l < MAX_HEAD_HEIGHT"
  obtains t' where "leave_level op pu l pred cur found t = Some (C_Level op pu l pred t')" and "tc_successors t' ! l = cur"
  using assms by (auto simp: ctx_from_def ctx_frame_def leave_level_def set_at_def)

text \<open>The steps of a search keep track of what it has seen.\<close>

lemma looked_right:
  assumes lv: "levels_ok valid lt (cs_list s) (hp_nodes (cs_heap s)) ls" and key: "valid key"
    and ok: "pc_inv lt (cs_list s) (hp_nodes (cs_heap s)) ls (C_Right (Op_Search key) For_Key l p cur t)"
    and look: "looked lt was key (C_Right (Op_Search key) For_Key l p cur t)" and now: "was s ls"
    and was: "\<forall>m lm. was m lm \<longrightarrow> levels_ok valid lt (cs_list m) (hp_nodes (cs_heap m)) lm \<and> sys_le m lm s ls"
    and step: "thread_step cmp base (C_Right (Op_Search key) For_Key l p cur t) (cs_list s) (cs_heap s) = Some (pc', sl', hp')"
  shows "looked lt was key pc'"
proof -
  let ?ns = "hp_nodes (cs_heap s)"
  have i: "l < MAX_HEAD_HEIGHT" "ctx_from lt (cs_list s) ?ns ls key For_Key t (Suc l)"
    "case cur of None \<Rightarrow> True | Some c \<Rightarrow> c \<in> set (ls l)" using ok by (auto split: option.splits)
  have left: "looked lt was key (C_Level (Op_Search key) For_Key l p t')"
    if t': "tc_successors t' ! l = cur" and ge: "\<forall>c. cur = Some c \<longrightarrow> \<not> lt (node_key ?ns c) key" for t'
  proof (cases "l = 0")
    case True
    obtain m lm where m: "was m lm" "below lt (cs_list m) (hp_nodes (cs_heap m)) lm key 0 p" "load_next (hp_nodes (cs_heap m)) p 0 = Some cur"
      using lookedD(2) [OF look] True by blast
    have lm: "levels_ok valid lt (cs_list m) (hp_nodes (cs_heap m)) lm" "sys_le m lm s ls" using was m(1) by blast+
    have "\<not> lt (node_key (hp_nodes (cs_heap m)) c) key" if "cur = Some c" for c
    proof -
      have "c \<in> set (lm 0)"
        using level_next [OF lm(1) MAX_HEAD_HEIGHT_pos below_cases [OF m(2)]] m(3) that by (metis option.inject)
      then show ?thesis using ge that conc_le_node(2) [OF lm MAX_HEAD_HEIGHT_pos] by simp
    qed
    then have "exact lt m key cur" using exact_load [OF lm(1) m(2,3)] by blast
    then show ?thesis using m(1) t' True unfolding looked_def by auto
  qed (simp add: looked_def)
  have leave: ?thesis
    if "leave_level (Op_Search key) For_Key l p cur found t = Some pc'" "\<forall>c. cur = Some c \<longrightarrow> \<not> lt (node_key ?ns c) key" for found
    using leave_level_eq [OF i(2,1), of "Op_Search key" p cur found] left that by (metis option.inject)
  show ?thesis
  proof (cases cur)
    case None
    then have "leave_level (Op_Search key) For_Key l p cur (tc_searched_node t) t = Some pc'"
      using step by (auto split: Option.bind_splits)
    then show ?thesis by (rule leave) (simp add: None)
  next
    case (Some c)
    then have c: "c \<in> set (ls l)" using i(3) by simp
    note dom = levels_okD(9) [OF lv i(1) c] and val = levels_sorted(3) [OF lv i(1) c]
    have k: "get_key_bytes ?ns c = Some (node_key ?ns c)" by (rule get_bytes_ok(1) [OF levels_okD(1) [OF lv] dom])
    show ?thesis
    proof (cases "lt (node_key ?ns c) key")
      case True
      then have "cmp (node_key ?ns c) key = Some Less" using cmp_Less_iff [OF val key] by simp
      then obtain n where n: "load_next ?ns c l = Some n" "pc' = C_Right (Op_Search key) For_Key l c n t"
        using step Some k by (auto split: Option.bind_splits)
      have "below lt (cs_list s) ?ns ls key l c" using True c by (simp add: below_def)
      then show ?thesis using n now unfolding looked_def by auto
    next
      case False
      then obtain r where r: "cmp (node_key ?ns c) key = Some r" "r \<noteq> Less" using cmp_eq [OF val key] by auto
      have "\<exists>found. leave_level (Op_Search key) For_Key l p cur found t = Some pc'"
        using step Some k r by (cases r) (auto split: Option.bind_splits)
      then show ?thesis using leave False Some by blast
    qed
  qed
qed

lemma looked_step:
  assumes lv: "levels_ok valid lt (cs_list s) (hp_nodes (cs_heap s)) ls" and key: "valid key"
    and ok: "at_ok lt (cs_list s) (hp_nodes (cs_heap s)) ls (Op_Search key) pc" and run: "running pc"
    and look: "looked lt was key pc" and now: "was s ls"
    and was: "\<forall>m lm. was m lm \<longrightarrow> levels_ok valid lt (cs_list m) (hp_nodes (cs_heap m)) lm \<and> sys_le m lm s ls"
    and step: "thread_step cmp base pc (cs_list s) (cs_heap s) = Some (pc', sl', hp')"
  shows "looked lt was key pc'"
proof -
  let ?ns = "hp_nodes (cs_heap s)" and ?op = "Op_Search key"
  have ni: "\<not> op_inserts ?op" by (simp add: op_inserts_def)
  have pu: "pu = For_Key" if "own_ok lt (cs_list s) ?ns ls ?op (purpose_own pu)" for pu
    using that ni own_okD(1) by (cases pu) fastforce+
  consider "pc = C_Search ?op For_Key" | n where "pc = C_Skip ?op For_Key n" | n p t where "pc = C_Level ?op For_Key n p t"
    | n p c t where "pc = C_Right ?op For_Key n p c t"
    using ok run pu ni by (cases pc) (auto simp: at_ok_def dest: own_okD(1))
  then show ?thesis
  proof cases
    case 1
    then show ?thesis using step levels_okD(3) [OF lv] by (auto simp: looked_def)
  next
    case (2 n)
    show ?thesis
    proof (cases n)
      case 0
      then have "pc' = C_Return ?op None"
        using 2 step by (simp add: after_search_def start_ctx_def traversal_ctx_new_def)
      then show ?thesis using lookedD(1) [OF look] 2 0 unfolding looked_def by auto
    next
      case (Suc l)
      have "exact lt s key None" if "load_next ?ns (sl_head (cs_list s)) 0 = Some None"
        by (rule exact_load [OF lv _ that]) (simp_all add: below_def)
      then show ?thesis
        using 2 Suc step now unfolding looked_def by (auto split: Option.bind_splits if_splits)
    qed
  next
    case (3 n p t)
    show ?thesis
    proof (cases n)
      case 0
      then have "pc' = C_Return ?op (tc_successors t ! 0)" using 3 step by (simp add: after_search_def)
      then show ?thesis using lookedD(3) [OF look] 3 0 unfolding looked_def by auto
    next
      case (Suc l)
      then have "below lt (cs_list s) ?ns ls key l p" using 3 ok by (simp add: at_ok_def)
      then show ?thesis using 3 Suc step now unfolding looked_def by (auto split: Option.bind_splits)
    qed
  next
    case (4 n p c t)
    then show ?thesis using looked_right [OF lv key _ _ now was, of n p c t base] ok look step by (simp add: at_ok_def)
  qed
qed

text \<open>A step of the system, for a thread that is searching and makes no new call.\<close>

lemma looked_conc_step:
  assumes inv: "conc_inv valid lt E s ls" and i: "i < length (cs_pc s)" "i \<notin> callers" and op: "pc_op (cs_pc s ! i) = Some (Op_Search key)"
    and look: "looked lt was key (cs_pc s ! i)" and now: "was s ls"
    and was: "\<forall>m lm. was m lm \<longrightarrow> levels_ok valid lt (cs_list m) (hp_nodes (cs_heap m)) lm \<and> sys_le m lm s ls"
    and step: "conc_step cmp base valid callers j s t"
  shows "looked lt was key (cs_pc t ! i) \<and> pc_op (cs_pc t ! i) = Some (Op_Search key) \<and> length (cs_pc t) = length (cs_pc s)"
proof -
  let ?ns = "hp_nodes (cs_heap s)"
  have I: "heap_inv (cs_heap s)" "levels_ok valid lt (cs_list s) ?ns ls" "threads_ok valid lt (cs_list s) ?ns ls (cs_calls s) (cs_pc s)"
    using inv by (simp_all add: conc_inv_def)
  note ok = threads_okD(2,3) [OF I(3) i(1) op]
  have key: "valid key" using ok(1) by (simp add: op_ok_def)
  from step show ?thesis
  proof cases
    case (cs_run pc sl hp)
    show ?thesis
    proof (cases "j = i")
      case True
      have run: "running (cs_pc s ! i)" using cs_run(3) True by (cases "cs_pc s ! i") simp_all
      have step: "thread_step cmp base (cs_pc s ! i) (cs_list s) (cs_heap s) = Some (pc, sl, hp)" using cs_run(3) True by simp
      obtain ls' where "good_step valid lt (Op_Search key) (cs_list s) (cs_heap s) ls (cs_pc s ! i) sl hp ls' pc"
        using thread_step_good [OF I(1,2) ok run, of base] step by auto
      then have "pc_op pc = Some (Op_Search key)" using good_stepD(3) by (simp add: at_ok_def)
      then show ?thesis using looked_step [OF I(2) key ok(2) run look now was step] cs_run(1) True i(1) by simp
    qed (use cs_run(1) look op in simp)
  next
    case (cs_panic op')
    then show ?thesis using op look i by (cases "j = i") (simp_all add: looked_def)
  next
    case (cs_weak op' u h m)
    then show ?thesis using op look i by (cases "j = i") (simp_all add: looked_def)
  next
    case (cs_call op' r op'')
    then have "j \<noteq> i" using i(2) by blast
    then show ?thesis using cs_call(1) op look by simp
  qed
qed

lemma search_run:
  assumes "conc_run cmp base valid callers s1 s" and "conc_inv valid lt E s1 ls1" and "i < length (cs_pc s1)" and "i \<notin> callers"
    and "cs_pc s1 ! i = C_Search (Op_Search key) For_Key"
  shows "\<exists>ls. conc_inv valid lt E s ls \<and> length (cs_pc s) = length (cs_pc s1) \<and> pc_op (cs_pc s ! i) = Some (Op_Search key)
    \<and> looked lt (past (conc_run cmp base valid callers) valid lt s1 s ls) key (cs_pc s ! i)"
  using assms(1)
proof (induction rule: conc_run.induct)
  case cs_refl
  then show ?case using assms(2,5) by (auto simp: looked_def)
next
  case (cs_more s j t)
  let ?run = "conc_run cmp base valid callers"
  obtain ls where ls: "conc_inv valid lt E s ls" "length (cs_pc s) = length (cs_pc s1)" "pc_op (cs_pc s ! i) = Some (Op_Search key)"
    "looked lt (past ?run valid lt s1 s ls) key (cs_pc s ! i)" using cs_more by blast
  have now: "past ?run valid lt s1 s ls s ls"
    using cs_more(1) ls(1) conc_run.cs_refl conc_le_refl unfolding past_def conc_inv_def by blast
  have was: "\<forall>m lm. past ?run valid lt s1 s ls m lm \<longrightarrow>
      levels_ok valid lt (cs_list m) (hp_nodes (cs_heap m)) lm \<and> sys_le m lm s ls" by (simp add: past_def)
  have i: "i < length (cs_pc s)" using ls(2) assms(3) by simp
  note new = looked_conc_step [OF ls(1) i assms(4) ls(3,4) now was cs_more(2)]
  obtain ls' where ls': "conc_inv valid lt E t ls'" "sys_le s ls t ls'" using conc_step_inv [OF ls(1) cs_more(2)] by blast
  have "\<forall>m lm. past ?run valid lt s1 s ls m lm \<longrightarrow> past ?run valid lt s1 t ls' m lm"
    using conc_run.cs_more [OF _ cs_more(2)] conc_le_trans [OF _ ls'(2)] unfolding past_def by blast
  then show ?case using new ls' ls(2) looked_mono by metis
qed

end

section \<open>Properties\<close>

text \<open>
  C14.  Searches are linearizable.  Take a search that thread \<open>i\<close> has just begun in a reachable state, and
  any interleaving with the insertions and searches of the other threads up to its return: it returns
  the first node whose key is not below the key sought, exactly as the bottom level of the list stood at
  some moment in between.
\<close>

theorem search_linearizable:
  assumes "sl_inv ik_valid ik_less sl hp ps" and "1 \<le> sl_max_level sl"
    and "conc_run internal_key_compare base ik_valid callers (conc_start n sl hp) s"
    and "i < length (cs_pc s)" and "cs_pc s ! i = C_Search (Op_Search key) For_Key"
    and "conc_run internal_key_compare base ik_valid (callers - {i}) s t" and "cs_pc t ! i = C_Return (Op_Search key) r"
  shows "\<exists>m ps'. conc_run internal_key_compare base ik_valid (callers - {i}) s m
    \<and> conc_run internal_key_compare base ik_valid (callers - {i}) m t
    \<and> linked (hp_nodes (cs_heap m)) 0 (sl_head (cs_list m)) ps'
    \<and> r = hd_opt (dropWhile (\<lambda>p. ik_less (node_key (hp_nodes (cs_heap m)) p) key) ps')"
proof -
  let ?run = "conc_run internal_key_compare base ik_valid (callers - {i})"
  obtain ls where inv: "conc_inv ik_valid ik_less (set (sl_contents (hp_nodes hp) ps)) s ls"
    using ik_cmp.conc_run_inv [OF assms(3) conc_start_inv [OF assms(1,2)]] by blast
  obtain ls' where "looked ik_less (past ?run ik_valid ik_less s t ls') key (cs_pc t ! i)"
    using ik_cmp.search_run [OF assms(6) inv assms(4) _ assms(5)] by blast
  from lookedD(4) [OF this assms(7)] show ?thesis unfolding past_def exact_def by blast
qed

text \<open>A search of an empty list by thread 0, run to its end.\<close>

definition demo_search :: "skip_list \<Rightarrow> node_heap \<Rightarrow> conc_pc \<Rightarrow> conc_sys" where
  "demo_search sl hp pc = \<lparr>cs_list = sl, cs_heap = hp, cs_pc = [pc, C_Idle], cs_calls = [Op_Search (replicate 9 7)]\<rparr>"

lemma demo_search_call:
  "conc_run internal_key_compare base ik_valid {0} (conc_start 2 sl hp) (demo_search sl hp (C_Search (Op_Search (replicate 9 7)) For_Key))"
proof -
  let ?op = "Op_Search (replicate 9 7)"
  have "op_ok ik_valid ?op" by (simp add: op_ok_def ik_valid_def)
  then have "conc_step internal_key_compare base ik_valid {0} 0 (conc_start 2 sl hp)
      ((conc_start 2 sl hp)\<lparr>cs_pc := (cs_pc (conc_start 2 sl hp))[0 := first_pc ?op], cs_calls := ?op # cs_calls (conc_start 2 sl hp)\<rparr>)"
    by (intro cs_call) (simp_all add: conc_start_def numeral_2_eq_2)
  from cs_more [OF cs_refl this] show ?thesis
    by (simp add: demo_search_def conc_start_def first_pc_def numeral_2_eq_2)
qed

lemma demo_search_step:
  assumes "conc_run internal_key_compare base ik_valid callers s (demo_search sl hp pc)"
    and "thread_step internal_key_compare base pc sl hp = Some (pc', sl, hp)"
  shows "conc_run internal_key_compare base ik_valid callers s (demo_search sl hp pc')"
proof -
  have "conc_step internal_key_compare base ik_valid callers 0 (demo_search sl hp pc)
      ((demo_search sl hp pc)\<lparr>cs_list := sl, cs_heap := hp, cs_pc := (cs_pc (demo_search sl hp pc))[0 := pc']\<rparr>)"
    by (rule cs_run) (simp_all add: demo_search_def assms(2))
  from cs_more [OF assms(1) this] show ?thesis by (simp add: demo_search_def)
qed

theorem search_linearizable_witness:
  "\<exists>sl hp m ps'. skip_list_new (\<lambda>_. 0) demo_index_arena = Some (sl, hp)
    \<and> conc_run internal_key_compare (\<lambda>_. 0) ik_valid {} m (demo_search sl hp (C_Return (Op_Search (replicate 9 7)) None))
    \<and> linked (hp_nodes (cs_heap m)) 0 (sl_head (cs_list m)) ps'
    \<and> None = hd_opt (dropWhile (\<lambda>p. ik_less (node_key (hp_nodes (cs_heap m)) p) (replicate 9 7)) ps')"
proof -
  let ?op = "Op_Search (replicate 9 7)"
  have hold: "arena_holds demo_index_arena []"
    by (simp add: demo_index_arena_def arena_holds_def arena_ok_def chunk_new_def isize_MAX_def)
  have fits: "node_fits MAX_HEAD_HEIGHT 0 0 demo_index_arena"
    by (simp add: node_fits_def MAX_HEAD_HEIGHT_def demo_index_arena_def)
  obtain sl hp where s: "skip_list_new (\<lambda>_. 0) demo_index_arena = Some (sl, hp)" "sl_inv ik_valid ik_less sl hp []" "sl_max_level sl = 1"
    using hold fits by (elim skip_list_new_cases [where base = "\<lambda>_. 0" and valid = ik_valid and lt = ik_less]) auto
  have nil: "load_next (hp_nodes hp) (sl_head sl) 0 = Some None"
    using linked_head [OF sl_linksD(7) [OF sl_invD(2) [OF s(2)] MAX_HEAD_HEIGHT_pos]] by simp
  let ?run = "conc_run internal_key_compare (\<lambda>_. 0) ik_valid {} (demo_search sl hp (C_Search ?op For_Key))"
  have "?run (demo_search sl hp (C_Skip ?op For_Key 1))" by (rule demo_search_step [OF cs_refl]) (simp add: s(3))
  then have "?run (demo_search sl hp (C_Skip ?op For_Key 0))" by (rule demo_search_step) (simp add: nil)
  then have "?run (demo_search sl hp (C_Return ?op None))"
    by (rule demo_search_step) (simp add: after_search_def start_ctx_def traversal_ctx_new_def)
  then show ?thesis
    using search_linearizable [OF s(2) _ demo_search_call [of "\<lambda>_. 0"], of 0 "replicate 9 7" "demo_search sl hp (C_Return ?op None)" None] s(1,3)
    by (auto simp: demo_search_def)
qed

end
