(* ===== verification/Arena_Conc.thy ===== *)
theory Arena_Conc
  imports Arena
begin

text \<open>
  The arena of \<open>crates/engine/src/arena/arena.rs\<close> shared by threads.  \<open>alloc_raw\<close>, \<open>alloc_raw_fallback\<close> and
  \<open>try_new_chunk\<close> are cut at every access to shared memory: the current-chunk pointer, the bump
  offsets, the two counters and the mutex on the chunks.  The weak compare-exchange may fail at any
  time.  A thread that has returned may call again.  The regions handed out so far are kept in a ghost
  list.
\<close>

section \<open>Threads in the allocator\<close>

text \<open>
  Where a thread is, named after what it does next.  \<open>A_Exchange\<close> carries the chunk, the bump offset it
  read, the aligned offset and the offset after the allocation; the points from \<open>A_Locked_Chunk\<close> to
  \<open>A_Unlock\<close> are inside the critical section of \<open>try_new_chunk\<close>.  \<open>A_Raised\<close> is the panic of \<open>alloc_raw\<close>, which
  has the loop of \<open>alloc_raw_fallback\<close> with a panic in place of each error; \<open>A_Panic\<close> is any other panic.
\<close>

datatype alloc_pc =
    A_Idle
  | A_Call layout
  | A_Get_Chunk layout
  | A_Load_Bump layout nat
  | A_Check layout nat nat
  | A_Exchange layout nat nat nat nat
  | A_Count layout nat nat
  | A_Lock layout
  | A_Locked_Chunk layout
  | A_Locked_Bump layout nat
  | A_Locked_Check layout nat
  | A_Cap layout
  | A_Reserve layout
  | A_Push layout
  | A_Store layout nat
  | A_Unlock layout "arena_error + unit"
  | A_Return layout "arena_error + nat \<times> nat"
  | A_Raised layout arena_error
  | A_Panic

text \<open>\<open>al_raw\<close> tells for each thread whether its call is \<open>alloc_raw\<close> or \<open>alloc_raw_fallback\<close>.\<close>

record alloc_sys =
  al_arena :: arena
  al_mutex :: "nat option"
  al_pc :: "alloc_pc list"
  al_raw :: "nat \<Rightarrow> bool"
  al_regions :: "region list"

definition al_goto :: "nat \<Rightarrow> alloc_pc \<Rightarrow> alloc_sys \<Rightarrow> alloc_sys" where
  "al_goto i p s = s\<lparr>al_pc := (al_pc s)[i := p]\<rparr>"

definition chunk_set_bump :: "nat \<Rightarrow> nat \<Rightarrow> arena \<Rightarrow> arena" where
  "chunk_set_bump k b a = a\<lparr>ar_chunks := (ar_chunks a)[k := (ar_chunks a ! k)\<lparr>ch_bump := b\<rparr>]\<rparr>"

fun al_result :: "bool \<Rightarrow> layout \<Rightarrow> arena_error + nat \<times> nat \<Rightarrow> alloc_pc" where
  "al_result raw l (Inr p) = A_Return l (Inr p)"
| "al_result raw l (Inl e) = (if raw then A_Raised l e else A_Return l (Inl e))"

inductive alloc_step :: "(nat \<Rightarrow> nat) \<Rightarrow> nat \<Rightarrow> alloc_sys \<Rightarrow> alloc_sys \<Rightarrow> bool"
  for base :: "nat \<Rightarrow> nat" and i :: nat and s :: alloc_sys where
  al_oversized: "al_pc s ! i = A_Call l \<Longrightarrow> block_size (ar_policy (al_arena s)) < lay_size l \<Longrightarrow>
     alloc_step base i s (al_goto i (al_result (al_raw s i) l (Inl (AllocationError (lay_size l)))) s)"
| al_enter: "al_pc s ! i = A_Call l \<Longrightarrow> lay_size l \<le> block_size (ar_policy (al_arena s)) \<Longrightarrow>
     alloc_step base i s (al_goto i (A_Get_Chunk l) s)"
| al_chunk: "al_pc s ! i = A_Get_Chunk l \<Longrightarrow>
     alloc_step base i s (al_goto i (A_Load_Bump l (ar_current (al_arena s))) s)"
| al_bump: "al_pc s ! i = A_Load_Bump l k \<Longrightarrow> get_at k (ar_chunks (al_arena s)) = Some c \<Longrightarrow>
     alloc_step base i s (al_goto i (A_Check l k (ch_bump c)) s)"
| al_bump_bad: "al_pc s ! i = A_Load_Bump l k \<Longrightarrow> get_at k (ar_chunks (al_arena s)) = None \<Longrightarrow>
     alloc_step base i s (al_goto i A_Panic s)"
| al_fit: "al_pc s ! i = A_Check l k b \<Longrightarrow> alignment_check b l (al_arena s) = Some (Inr (aligned, next')) \<Longrightarrow>
     alloc_step base i s (al_goto i (A_Exchange l k b aligned next') s)"
| al_no_fit: "al_pc s ! i = A_Check l k b \<Longrightarrow> alignment_check b l (al_arena s) = Some (Inl e) \<Longrightarrow>
     alloc_step base i s (al_goto i (A_Lock l) s)"
| al_check_bad: "al_pc s ! i = A_Check l k b \<Longrightarrow> alignment_check b l (al_arena s) = None \<Longrightarrow>
     alloc_step base i s (al_goto i A_Panic s)"
| al_exchange: "al_pc s ! i = A_Exchange l k b aligned next' \<Longrightarrow>
     get_at k (ar_chunks (al_arena s)) = Some c \<Longrightarrow> ch_bump c = b \<Longrightarrow>
     alloc_step base i s (al_goto i (A_Count l k aligned)
       (s\<lparr>al_arena := chunk_set_bump k next' (al_arena s),
          al_regions := (k, aligned, lay_size l) # al_regions s\<rparr>))"
| al_retry: "al_pc s ! i = A_Exchange l k b aligned next' \<Longrightarrow>
     alloc_step base i s (al_goto i (A_Get_Chunk l) s)"
| al_count: "al_pc s ! i = A_Count l k aligned \<Longrightarrow>
     alloc_step base i s (al_goto i (A_Return l (Inr (k, aligned)))
       (s\<lparr>al_arena := (al_arena s)\<lparr>ar_memory_used := ar_memory_used (al_arena s) + lay_size l\<rparr>\<rparr>))"
| al_lock: "al_pc s ! i = A_Lock l \<Longrightarrow> al_mutex s = None \<Longrightarrow>
     alloc_step base i s (al_goto i (A_Locked_Chunk l) (s\<lparr>al_mutex := Some i\<rparr>))"
| al_locked_chunk: "al_pc s ! i = A_Locked_Chunk l \<Longrightarrow>
     alloc_step base i s (al_goto i (A_Locked_Bump l (ar_current (al_arena s))) s)"
| al_locked_bump: "al_pc s ! i = A_Locked_Bump l k \<Longrightarrow> get_at k (ar_chunks (al_arena s)) = Some c \<Longrightarrow>
     alloc_step base i s (al_goto i (A_Locked_Check l (ch_bump c)) s)"
| al_locked_bump_bad: "al_pc s ! i = A_Locked_Bump l k \<Longrightarrow> get_at k (ar_chunks (al_arena s)) = None \<Longrightarrow>
     alloc_step base i s (al_goto i A_Panic s)"
| al_locked_fit: "al_pc s ! i = A_Locked_Check l b \<Longrightarrow> alignment_check b l (al_arena s) = Some (Inr r) \<Longrightarrow>
     alloc_step base i s (al_goto i (A_Unlock l (Inr ())) s)"
| al_locked_no_fit: "al_pc s ! i = A_Locked_Check l b \<Longrightarrow> alignment_check b l (al_arena s) = Some (Inl e) \<Longrightarrow>
     alloc_step base i s (al_goto i (A_Cap l) s)"
| al_locked_bad: "al_pc s ! i = A_Locked_Check l b \<Longrightarrow> alignment_check b l (al_arena s) = None \<Longrightarrow>
     alloc_step base i s (al_goto i A_Panic s)"
| al_full: "al_pc s ! i = A_Cap l \<Longrightarrow> \<not> can_grow (al_arena s) \<Longrightarrow>
     alloc_step base i s (al_goto i (A_Unlock l (Inl ArenaFull)) s)"
| al_cap: "al_pc s ! i = A_Cap l \<Longrightarrow> can_grow (al_arena s) \<Longrightarrow>
     alloc_step base i s (al_goto i (A_Reserve l) s)"
| al_reserve: "al_pc s ! i = A_Reserve l \<Longrightarrow>
     alloc_step base i s (al_goto i (A_Push l)
       (s\<lparr>al_arena := (al_arena s)\<lparr>ar_allocated_bytes :=
            ar_allocated_bytes (al_arena s) + block_size (ar_policy (al_arena s))\<rparr>\<rparr>))"
| al_push: "al_pc s ! i = A_Push l \<Longrightarrow> n = length (ar_chunks (al_arena s)) \<Longrightarrow>
     allocator_allocate (ar_allocator (al_arena s)) (block_size (ar_policy (al_arena s))) = Some heap \<Longrightarrow>
     alloc_step base i s (al_goto i (A_Store l n)
       (s\<lparr>al_arena := (al_arena s)\<lparr>ar_chunks := ar_chunks (al_arena s) @ [chunk_new (base n) heap]\<rparr>\<rparr>))"
| al_push_bad: "al_pc s ! i = A_Push l \<Longrightarrow>
     allocator_allocate (ar_allocator (al_arena s)) (block_size (ar_policy (al_arena s))) = None \<Longrightarrow>
     alloc_step base i s (al_goto i A_Panic s)"
| al_store: "al_pc s ! i = A_Store l k \<Longrightarrow>
     alloc_step base i s (al_goto i (A_Unlock l (Inr ())) (s\<lparr>al_arena := (al_arena s)\<lparr>ar_current := k\<rparr>\<rparr>))"
| al_unlock_ok: "al_pc s ! i = A_Unlock l (Inr ()) \<Longrightarrow>
     alloc_step base i s (al_goto i (A_Get_Chunk l) (s\<lparr>al_mutex := None\<rparr>))"
| al_unlock_err: "al_pc s ! i = A_Unlock l (Inl e) \<Longrightarrow>
     alloc_step base i s (al_goto i (al_result (al_raw s i) l (Inl e)) (s\<lparr>al_mutex := None\<rparr>))"

text \<open>Runs of any threads, with new calls by threads that are outside the allocator.\<close>

inductive alloc_run :: "(nat \<Rightarrow> nat) \<Rightarrow> alloc_sys \<Rightarrow> alloc_sys \<Rightarrow> bool" for base s0 where
  al_refl: "alloc_run base s0 s0"
| al_more: "alloc_run base s0 s \<Longrightarrow> i < length (al_pc s) \<Longrightarrow> alloc_step base i s t \<Longrightarrow> alloc_run base s0 t"
| al_invoke: "alloc_run base s0 s \<Longrightarrow> i < length (al_pc s) \<Longrightarrow> al_pc s ! i = A_Idle \<or> al_pc s ! i = A_Return l' r \<Longrightarrow>
     layout_ok l \<Longrightarrow> alloc_run base s0 (al_goto i (A_Call l) (s\<lparr>al_raw := (al_raw s)(i := raw)\<rparr>))"

definition alloc_start :: "nat \<Rightarrow> arena \<Rightarrow> alloc_sys" where
  "alloc_start n a = \<lparr>al_arena = a, al_mutex = None, al_pc = replicate n A_Idle, al_raw = (\<lambda>_. False), al_regions = []\<rparr>"

inductive_cases alloc_stepE: "alloc_step base i s t"

section \<open>Invariant\<close>

fun in_lock_section :: "alloc_pc \<Rightarrow> bool" where
  "in_lock_section (A_Locked_Chunk l) = True"
| "in_lock_section (A_Locked_Bump l k) = True"
| "in_lock_section (A_Locked_Check l b) = True"
| "in_lock_section (A_Cap l) = True"
| "in_lock_section (A_Reserve l) = True"
| "in_lock_section (A_Push l) = True"
| "in_lock_section (A_Store l k) = True"
| "in_lock_section (A_Unlock l r) = True"
| "in_lock_section _ = False"

text \<open>Bytes a thread has taken from a chunk and not yet added to the counter, and whether it has
  reserved a block that is not yet a chunk.\<close>

fun pending_bytes :: "alloc_pc \<Rightarrow> nat" where
  "pending_bytes (A_Count l k off) = lay_size l"
| "pending_bytes _ = 0"

fun pending_block :: "alloc_pc \<Rightarrow> nat" where
  "pending_block (A_Push l) = 1"
| "pending_block _ = 0"

abbreviation region_size :: "region \<Rightarrow> nat" where
  "region_size r \<equiv> snd (snd r)"

text \<open>What holds of the arena whatever the threads do: the invariant of the sequential arena without the
  count of reserved bytes, which is ahead of the chunks while a thread is about to push one.\<close>

definition chunks_ok :: "arena \<Rightarrow> bool" where
  "chunks_ok a \<longleftrightarrow> 0 < block_size (ar_policy a) \<and> block_size (ar_policy a) \<le> cap (ar_policy a)
     \<and> cap (ar_policy a) \<le> isize_MAX
     \<and> ar_current a < length (ar_chunks a) \<and> ar_allocator a = System
     \<and> (\<forall>c \<in> set (ar_chunks a). length (ch_mem c) = block_size (ar_policy a)
          \<and> ch_bump c \<le> block_size (ar_policy a))"

abbreviation bump_at :: "arena \<Rightarrow> nat \<Rightarrow> nat" where
  "bump_at a k \<equiv> ch_bump (ar_chunks a ! k)"

fun call_layout :: "alloc_pc \<Rightarrow> layout option" where
  "call_layout (A_Get_Chunk l) = Some l"
| "call_layout (A_Load_Bump l k) = Some l"
| "call_layout (A_Check l k b) = Some l"
| "call_layout (A_Exchange l k b al nx) = Some l"
| "call_layout (A_Count l k off) = Some l"
| "call_layout (A_Lock l) = Some l"
| "call_layout (A_Locked_Chunk l) = Some l"
| "call_layout (A_Locked_Bump l k) = Some l"
| "call_layout (A_Locked_Check l b) = Some l"
| "call_layout (A_Cap l) = Some l"
| "call_layout (A_Reserve l) = Some l"
| "call_layout (A_Push l) = Some l"
| "call_layout (A_Store l k) = Some l"
| "call_layout (A_Unlock l r) = Some l"
| "call_layout _ = None"

text \<open>Why a call may fail: its layout is larger than a block, or no further block fits the capacity.\<close>

definition refused :: "arena \<Rightarrow> layout \<Rightarrow> arena_error \<Rightarrow> bool" where
  "refused a l e \<longleftrightarrow> e = AllocationError (lay_size l) \<and> block_size (ar_policy a) < lay_size l
     \<or> e = ArenaFull \<and> \<not> can_grow a"

fun local_ok :: "arena \<Rightarrow> region list \<Rightarrow> alloc_pc \<Rightarrow> bool" where
  "local_ok a rs (A_Call l) \<longleftrightarrow> layout_ok l"
| "local_ok a rs (A_Load_Bump l k) \<longleftrightarrow> k < length (ar_chunks a)"
| "local_ok a rs (A_Check l k b) \<longleftrightarrow> k < length (ar_chunks a) \<and> b \<le> bump_at a k"
| "local_ok a rs (A_Exchange l k b al nx) \<longleftrightarrow> k < length (ar_chunks a) \<and> b \<le> bump_at a k
     \<and> al = align_offset b (lay_align l) \<and> nx = al + lay_size l \<and> nx \<le> block_size (ar_policy a)"
| "local_ok a rs (A_Count l k off) \<longleftrightarrow> (k, off, lay_size l) \<in> set rs \<and> off mod lay_align l = 0"
| "local_ok a rs (A_Return l (Inr p)) \<longleftrightarrow> (fst p, snd p, lay_size l) \<in> set rs \<and> snd p mod lay_align l = 0"
| "local_ok a rs (A_Return l (Inl e)) \<longleftrightarrow> refused a l e"
| "local_ok a rs (A_Raised l e) \<longleftrightarrow> refused a l e"
| "local_ok a rs (A_Unlock l (Inl e)) \<longleftrightarrow> refused a l e"
| "local_ok a rs (A_Locked_Bump l k) \<longleftrightarrow> k < length (ar_chunks a)"
| "local_ok a rs (A_Locked_Check l b) \<longleftrightarrow> b \<le> block_size (ar_policy a)"
| "local_ok a rs (A_Reserve l) \<longleftrightarrow> can_grow a"
| "local_ok a rs (A_Store l k) \<longleftrightarrow> k < length (ar_chunks a)"
| "local_ok a rs A_Panic \<longleftrightarrow> False"
| "local_ok a rs _ \<longleftrightarrow> True"

definition pc_ok :: "arena \<Rightarrow> region list \<Rightarrow> alloc_pc \<Rightarrow> bool" where
  "pc_ok a rs p \<longleftrightarrow> local_ok a rs p
     \<and> (\<forall>l. call_layout p = Some l \<longrightarrow> layout_ok l \<and> lay_size l \<le> block_size (ar_policy a))"

definition alloc_inv :: "alloc_sys \<Rightarrow> bool" where
  "alloc_inv s \<longleftrightarrow>
     (let a = al_arena s; rs = al_regions s; pcs = al_pc s in
       chunks_ok a \<and> list_all (region_within a) rs \<and> sorted_wrt regions_disjoint rs
     \<and> (\<forall>j < length pcs. pc_ok a rs (pcs ! j))
     \<and> (\<forall>j < length pcs. in_lock_section (pcs ! j) \<longleftrightarrow> al_mutex s = Some j)
     \<and> ar_allocated_bytes a = (length (ar_chunks a) + sum_list (map pending_block pcs)) * block_size (ar_policy a)
     \<and> ar_allocated_bytes a \<le> cap (ar_policy a)
     \<and> ar_memory_used a + sum_list (map pending_bytes pcs) = sum_list (map region_size rs))"

section \<open>Preservation\<close>

text \<open>The arena only grows: facts a thread has learnt stay true while others run.\<close>

definition arena_le :: "arena \<Rightarrow> arena \<Rightarrow> bool" where
  "arena_le a b \<longleftrightarrow> ar_policy b = ar_policy a \<and> length (ar_chunks a) \<le> length (ar_chunks b)
     \<and> (\<forall>k < length (ar_chunks a). bump_at a k \<le> bump_at b k) \<and> ar_allocated_bytes a \<le> ar_allocated_bytes b"

lemma arena_leD:
  assumes "arena_le a b"
  shows "ar_policy b = ar_policy a" and "k < length (ar_chunks a) \<Longrightarrow> k < length (ar_chunks b)"
    and "k < length (ar_chunks a) \<Longrightarrow> bump_at a k \<le> bump_at b k" and "ar_allocated_bytes a \<le> ar_allocated_bytes b"
  using assms by (auto simp: arena_le_def)

lemma arena_le_refl: "arena_le a a"
  by (simp add: arena_le_def)

lemma pc_ok_mono:
  assumes "pc_ok a rs p" and "arena_le a b" and "set rs \<subseteq> set rs'"
    and "ar_allocated_bytes b = ar_allocated_bytes a \<or> \<not> in_lock_section p"
  shows "pc_ok b rs' p"
proof -
  have r: "refused b l e" if "refused a l e" for l e
    using that arena_leD(1,4) [OF assms(2)] by (auto simp: refused_def)
  have "local_ok b rs' p" if "local_ok a rs p"
    using that assms(3,4) arena_leD [OF assms(2)]
    by (cases "(a, rs, p)" rule: local_ok.cases) (auto intro: le_trans r)
  then show ?thesis using assms(1) arena_leD(1) [OF assms(2)] by (simp add: pc_ok_def)
qed

lemma sum_list_map_update:
  fixes f :: "'a \<Rightarrow> nat"
  shows "i < length xs \<Longrightarrow> sum_list (map f (xs[i := x])) + f (xs ! i) = sum_list (map f xs) + f x"
  by (induction xs arbitrary: i) (auto split: nat.splits simp: nth_Cons')

text \<open>One step of a thread, from what it does to the arena, the mutex and the ghost regions.\<close>

lemma alloc_inv_step:
  assumes inv: "alloc_inv s" and i: "i < length (al_pc s)" and pc: "al_pc t = (al_pc s)[i := p]"
    and ok: "chunks_ok (al_arena t)" and le: "arena_le (al_arena s) (al_arena t)"
    and rs: "list_all (region_within (al_arena t)) (al_regions t)" "sorted_wrt regions_disjoint (al_regions t)"
      "set (al_regions s) \<subseteq> set (al_regions t)"
    and p: "pc_ok (al_arena t) (al_regions t) p"
    and mu: "in_lock_section p \<longleftrightarrow> al_mutex t = Some i" "\<And>j. j \<noteq> i \<Longrightarrow> al_mutex t = Some j \<longleftrightarrow> al_mutex s = Some j"
    and own: "ar_allocated_bytes (al_arena t) = ar_allocated_bytes (al_arena s) \<or> al_mutex s = Some i"
    and bytes: "ar_allocated_bytes (al_arena t) \<le> cap (ar_policy (al_arena t))"
      "ar_allocated_bytes (al_arena t)
        + (length (ar_chunks (al_arena s)) + pending_block (al_pc s ! i)) * block_size (ar_policy (al_arena s))
       = ar_allocated_bytes (al_arena s)
        + (length (ar_chunks (al_arena t)) + pending_block p) * block_size (ar_policy (al_arena s))"
    and mem: "ar_memory_used (al_arena t) + pending_bytes p + sum_list (map region_size (al_regions s))
       = ar_memory_used (al_arena s) + pending_bytes (al_pc s ! i) + sum_list (map region_size (al_regions t))"
  shows "alloc_inv t"
proof -
  let ?a = "al_arena s" and ?b = "al_arena t" and ?bs = "block_size (ar_policy (al_arena s))"
  have old: "\<forall>j < length (al_pc s). pc_ok ?a (al_regions s) (al_pc s ! j)"
    "\<forall>j < length (al_pc s). in_lock_section (al_pc s ! j) \<longleftrightarrow> al_mutex s = Some j"
    "ar_allocated_bytes ?a = (length (ar_chunks ?a) + sum_list (map pending_block (al_pc s))) * ?bs"
    "ar_memory_used ?a + sum_list (map pending_bytes (al_pc s)) = sum_list (map region_size (al_regions s))"
    using inv by (simp_all add: alloc_inv_def Let_def)
  have "pc_ok ?b (al_regions t) (al_pc t ! j)" if "j < length (al_pc t)" for j
  proof (cases "j = i")
    case True
    then show ?thesis using p pc i by simp
  next
    case False
    then have j: "j < length (al_pc s)" "al_pc t ! j = al_pc s ! j" using that pc by simp_all
    then have "ar_allocated_bytes ?b = ar_allocated_bytes ?a \<or> \<not> in_lock_section (al_pc s ! j)"
      using own old(2) False by auto
    then show ?thesis using pc_ok_mono [OF _ le rs(3)] old(1) j by simp
  qed
  moreover have "in_lock_section (al_pc t ! j) \<longleftrightarrow> al_mutex t = Some j" if "j < length (al_pc t)" for j
    using that mu old(2) pc i by (cases "j = i") simp_all
  moreover have "ar_allocated_bytes ?b = (length (ar_chunks ?b) + sum_list (map pending_block (al_pc t))) * ?bs"
  proof -
    have "sum_list (map pending_block (al_pc t)) + pending_block (al_pc s ! i)
      = sum_list (map pending_block (al_pc s)) + pending_block p"
      unfolding pc by (rule sum_list_map_update [OF i])
    from arg_cong [OF this, of "\<lambda>n. n * ?bs"] show ?thesis
      using bytes(2) old(3) by (simp add: algebra_simps)
  qed
  moreover have "ar_memory_used ?b + sum_list (map pending_bytes (al_pc t)) = sum_list (map region_size (al_regions t))"
    using sum_list_map_update [OF i, of pending_bytes p] mem old(4) unfolding pc by linarith
  ultimately show ?thesis
    using ok rs bytes(1) arena_leD(1) [OF le] by (simp add: alloc_inv_def Let_def)
qed

lemma alloc_invD:
  assumes "alloc_inv s"
  shows "chunks_ok (al_arena s)" and "list_all (region_within (al_arena s)) (al_regions s)"
    and "sorted_wrt regions_disjoint (al_regions s)"
    and "j < length (al_pc s) \<Longrightarrow> pc_ok (al_arena s) (al_regions s) (al_pc s ! j)"
    and "j < length (al_pc s) \<Longrightarrow> in_lock_section (al_pc s ! j) \<longleftrightarrow> al_mutex s = Some j"
    and "ar_allocated_bytes (al_arena s) =
      (length (ar_chunks (al_arena s)) + sum_list (map pending_block (al_pc s))) * block_size (ar_policy (al_arena s))"
    and "ar_allocated_bytes (al_arena s) \<le> cap (ar_policy (al_arena s))"
    and "ar_memory_used (al_arena s) + sum_list (map pending_bytes (al_pc s)) = sum_list (map region_size (al_regions s))"
  using assms by (simp_all add: alloc_inv_def Let_def)

lemma al_goto_simps [simp]:
  "al_pc (al_goto i p s) = (al_pc s)[i := p]" "al_arena (al_goto i p s) = al_arena s"
  "al_mutex (al_goto i p s) = al_mutex s" "al_regions (al_goto i p s) = al_regions s" "al_raw (al_goto i p s) = al_raw s"
  by (simp_all add: al_goto_def)

lemma al_result_simps [simp]:
  "in_lock_section (al_result raw l r) = False" "pending_block (al_result raw l r) = 0" "pending_bytes (al_result raw l r) = 0"
  "call_layout (al_result raw l r) = None" "local_ok a rs (al_result raw l (Inl e)) = refused a l e"
  by (cases r; simp)+

lemma alloc_inv_raw [simp]: "alloc_inv (s\<lparr>al_raw := f\<rparr>) = alloc_inv s"
  by (simp add: alloc_inv_def)

lemma al_goto_again:
  "al_goto i q (al_goto i p s) = al_goto i q s"
  "al_goto i q ((al_goto i p s)\<lparr>al_arena := a\<rparr>) = al_goto i q (s\<lparr>al_arena := a\<rparr>)"
  "al_goto i q ((al_goto i p s)\<lparr>al_mutex := m\<rparr>) = al_goto i q (s\<lparr>al_mutex := m\<rparr>)"
  "al_goto i q ((al_goto i p s)\<lparr>al_arena := a, al_regions := rs\<rparr>) = al_goto i q (s\<lparr>al_arena := a, al_regions := rs\<rparr>)"
  by (simp_all add: al_goto_def)

lemma alloc_inv_local:
  assumes "alloc_inv s" and "i < length (al_pc s)" and "pc_ok (al_arena s) (al_regions s) p"
    and "al_pc t = (al_pc s)[i := p]" "al_arena t = al_arena s" "al_regions t = al_regions s"
    and "in_lock_section p \<longleftrightarrow> al_mutex t = Some i" "\<And>j. j \<noteq> i \<Longrightarrow> al_mutex t = Some j \<longleftrightarrow> al_mutex s = Some j"
    and "pending_block p = pending_block (al_pc s ! i)" and "pending_bytes p = pending_bytes (al_pc s ! i)"
  shows "alloc_inv t"
  by (rule alloc_inv_step [OF assms(1,2,4)]) (use assms alloc_invD [OF assms(1)] in \<open>simp_all add: arena_le_refl\<close>)

lemma alloc_inv_goto:
  assumes "alloc_inv s" and "i < length (al_pc s)" and "pc_ok (al_arena s) (al_regions s) p"
    and "in_lock_section p = in_lock_section (al_pc s ! i)"
    and "pending_block p = pending_block (al_pc s ! i)" and "pending_bytes p = pending_bytes (al_pc s ! i)"
  shows "alloc_inv (al_goto i p s)"
  by (rule alloc_inv_local [OF assms(1-3)]) (use assms alloc_invD(5) [OF assms(1,2)] in simp_all)

lemma chunks_block_isize: "chunks_ok a \<Longrightarrow> block_size (ar_policy a) \<le> isize_MAX"
  by (simp add: chunks_ok_def)

lemma chunks_okD:
  assumes "chunks_ok a" and "k < length (ar_chunks a)"
  shows "length (ch_mem (ar_chunks a ! k)) = block_size (ar_policy a)" and "bump_at a k \<le> block_size (ar_policy a)"
  using assms unfolding chunks_ok_def by (metis nth_mem)+

text \<open>The alignment check reads nothing but the length of the current chunk, so its sequential
  description holds here too.\<close>

lemma alignment_check_conc:
  assumes "alloc_inv s" and "layout_ok l" and "b \<le> block_size (ar_policy (al_arena s))"
    and "lay_size l \<le> block_size (ar_policy (al_arena s))"
  shows "alignment_check b l (al_arena s) = Some (if fits l b (al_arena s)
    then Inr (align_offset b (lay_align l), align_offset b (lay_align l) + lay_size l) else Inl Overflow)"
proof -
  let ?a = "al_arena s" and ?n = "length (ar_chunks (al_arena s)) * block_size (ar_policy (al_arena s))"
  let ?b = "?a\<lparr>ar_allocated_bytes := ?n\<rparr>"
  have "?n \<le> ar_allocated_bytes ?a" using alloc_invD(6) [OF assms(1)] by (simp add: algebra_simps)
  then have "arena_ok ?b"
    using alloc_invD(1,7) [OF assms(1)] by (auto simp: arena_ok_def chunks_ok_def)
  from alignment_check_eq [OF this assms(2), of b] assms(3,4)
  show ?thesis by (simp add: alignment_check_def get_chunk_def fits_def)
qed

lemma aligned_props:
  assumes "layout_ok l" and "b \<le> isize_MAX"
  shows "b \<le> align_offset b (lay_align l)" and "align_offset b (lay_align l) mod lay_align l = 0"
proof -
  obtain m where m: "m < 64" "lay_align l = 2 ^ m" "b + (2 ^ m - 1) \<le> usize_MAX"
    by (rule layout_align_bound [OF assms])
  show "b \<le> align_offset b (lay_align l)" and "align_offset b (lay_align l) mod lay_align l = 0"
    using align_offset_props [OF m(1,3)] unfolding m(2) by blast+
qed

text \<open>The exchange: the region starts at or above every region handed out from that chunk.\<close>

lemma alloc_inv_exchange:
  assumes inv: "alloc_inv s" and i: "i < length (al_pc s)" and pc: "al_pc s ! i = A_Exchange l k b al nx"
    and b: "bump_at (al_arena s) k = b"
  shows "alloc_inv (al_goto i (A_Count l k al) (s\<lparr>al_arena := chunk_set_bump k nx (al_arena s),
    al_regions := (k, al, lay_size l) # al_regions s\<rparr>))"
proof -
  let ?a = "al_arena s" and ?a' = "chunk_set_bump k nx (al_arena s)"
  note D = alloc_invD [OF inv]
  have loc: "k < length (ar_chunks ?a)" "al = align_offset b (lay_align l)" "nx = al + lay_size l"
    "nx \<le> block_size (ar_policy ?a)" "layout_ok l" "lay_size l \<le> block_size (ar_policy ?a)"
    using D(4) [OF i] pc by (simp_all add: pc_ok_def)
  have al: "b \<le> al" "al mod lay_align l = 0"
    using aligned_props [OF loc(5), of b] chunks_okD(2) [OF D(1) loc(1)] chunks_block_isize [OF D(1)] b loc(2)
    by simp_all
  have bump: "bump_at ?a' j = (if j = k then nx else bump_at ?a j)" "length (ar_chunks ?a') = length (ar_chunks ?a)"
    if "j < length (ar_chunks ?a)" for j
    using that loc(1) by (simp_all add: chunk_set_bump_def nth_list_update)
  have le: "arena_le ?a ?a'"
    using bump al(1) loc(3) b by (auto simp: arena_le_def chunk_set_bump_def nth_list_update)
  have chunks: "chunks_ok ?a'"
    using D(1) loc(1,4) chunks_okD [OF D(1) loc(1)]
    by (auto simp: chunks_ok_def chunk_set_bump_def dest!: subsetD [OF set_update_subset_insert])
  have old: "region_within ?a' r" "regions_disjoint (k, al, lay_size l) r" if "r \<in> set (al_regions s)" for r
  proof -
    have w: "region_within ?a r" using D(2) that by (simp add: list_all_iff)
    show "region_within ?a' r"
      using w arena_leD [OF le] by (cases r) (fastforce simp: region_within_def)
    show "regions_disjoint (k, al, lay_size l) r"
      using w al(1) b by (cases r) (auto simp: region_within_def regions_disjoint_def)
  qed
  have new: "region_within ?a' (k, al, lay_size l)"
    using bump [OF loc(1)] loc(1,3) by (simp add: region_within_def)
  show ?thesis
    by (rule alloc_inv_step [OF inv i, where p = "A_Count l k al"])
      (use D(3,7) D(5) [OF i] pc le chunks old new loc al in \<open>auto simp: list_all_iff pc_ok_def chunk_set_bump_def\<close>)
qed

lemma alloc_inv_push:
  assumes inv: "alloc_inv s" and i: "i < length (al_pc s)" and pc: "al_pc s ! i = A_Push l"
    and n: "n = length (ar_chunks (al_arena s))"
  shows "alloc_inv (al_goto i (A_Store l n) (s\<lparr>al_arena := (al_arena s)\<lparr>ar_chunks := ar_chunks (al_arena s)
    @ [chunk_new (base n) (replicate (block_size (ar_policy (al_arena s))) 1)]\<rparr>\<rparr>))"
proof -
  let ?a = "al_arena s"
  let ?a' = "?a\<lparr>ar_chunks := ar_chunks ?a @ [chunk_new (base n) (replicate (block_size (ar_policy ?a)) 1)]\<rparr>"
  note D = alloc_invD [OF inv]
  have le: "arena_le ?a ?a'" by (simp add: arena_le_def nth_append)
  have "region_within ?a' r" if "region_within ?a r" for r
    using that arena_leD [OF le] by (cases r) (fastforce simp: region_within_def)
  then have rs: "list_all (region_within ?a') (al_regions s)" using D(2) by (simp add: list_all_iff)
  have chunks: "chunks_ok ?a'" using D(1) by (auto simp: chunks_ok_def chunk_new_def)
  have pcok: "pc_ok ?a' (al_regions s) (A_Store l n)" using D(4) [OF i] pc n by (simp add: pc_ok_def)
  show ?thesis
    by (rule alloc_inv_step [OF inv i, where p = "A_Store l n"])
      (use D(3,7) D(5) [OF i] pc le chunks rs pcok in \<open>auto simp: algebra_simps\<close>)
qed

lemma alloc_inv_reserve:
  assumes inv: "alloc_inv s" and i: "i < length (al_pc s)" and pc: "al_pc s ! i = A_Reserve l"
  shows "alloc_inv (al_goto i (A_Push l) (s\<lparr>al_arena := (al_arena s)\<lparr>ar_allocated_bytes :=
    ar_allocated_bytes (al_arena s) + block_size (ar_policy (al_arena s))\<rparr>\<rparr>))"
proof -
  let ?a = "al_arena s"
  let ?a' = "?a\<lparr>ar_allocated_bytes := ar_allocated_bytes ?a + block_size (ar_policy ?a)\<rparr>"
  note D = alloc_invD [OF inv]
  have le: "arena_le ?a ?a'" by (simp add: arena_le_def)
  have "region_within ?a' = region_within ?a" by (simp add: region_within_def fun_eq_iff)
  then show ?thesis
    by (intro alloc_inv_step [OF inv i, where p = "A_Push l"])
      (use D(1-3,7) D(4,5) [OF i] pc le in \<open>auto simp: algebra_simps chunks_ok_def pc_ok_def\<close>)
qed

lemma alloc_inv_count:
  assumes inv: "alloc_inv s" and i: "i < length (al_pc s)" and pc: "al_pc s ! i = A_Count l k off"
  shows "alloc_inv (al_goto i (A_Return l (Inr (k, off))) (s\<lparr>al_arena := (al_arena s)\<lparr>ar_memory_used :=
    ar_memory_used (al_arena s) + lay_size l\<rparr>\<rparr>))"
proof -
  let ?a = "al_arena s"
  let ?a' = "?a\<lparr>ar_memory_used := ar_memory_used ?a + lay_size l\<rparr>"
  note D = alloc_invD [OF inv]
  have le: "arena_le ?a ?a'" by (simp add: arena_le_def)
  have "region_within ?a' = region_within ?a" by (simp add: region_within_def fun_eq_iff)
  then show ?thesis
    by (intro alloc_inv_step [OF inv i, where p = "A_Return l (Inr (k, off))"])
      (use D(1-3,7) D(4,5) [OF i] pc le in \<open>auto simp: chunks_ok_def pc_ok_def\<close>)
qed

lemma alloc_inv_store:
  assumes inv: "alloc_inv s" and i: "i < length (al_pc s)" and pc: "al_pc s ! i = A_Store l k"
  shows "alloc_inv (al_goto i (A_Unlock l (Inr ())) (s\<lparr>al_arena := (al_arena s)\<lparr>ar_current := k\<rparr>\<rparr>))"
proof -
  let ?a = "al_arena s"
  let ?a' = "?a\<lparr>ar_current := k\<rparr>"
  note D = alloc_invD [OF inv]
  have le: "arena_le ?a ?a'" by (simp add: arena_le_def)
  have "region_within ?a' = region_within ?a" by (simp add: region_within_def fun_eq_iff)
  then show ?thesis
    by (intro alloc_inv_step [OF inv i, where p = "A_Unlock l (Inr ())"])
      (use D(1-3,7) D(4,5) [OF i] pc le in \<open>auto simp: chunks_ok_def pc_ok_def\<close>)
qed

lemma alloc_step_inv:
  assumes inv: "alloc_inv s" and i: "i < length (al_pc s)" and "alloc_step base i s t"
  shows "alloc_inv t"
proof -
  note D = alloc_invD [OF inv]
  note ok = D(4) [OF i] and sec = D(5) [OF i]
  note goto = alloc_inv_goto [OF inv i]
  have cur: "ar_current (al_arena s) < length (ar_chunks (al_arena s))" using D(1) by (simp add: chunks_ok_def)
  from assms(3) show ?thesis
  proof (cases rule: alloc_step.cases)
    case (al_bump l k c)
    then show ?thesis using ok by (auto simp: pc_ok_def get_at_def intro!: goto)
  next
    case (al_fit l k b aligned next')
    then have b: "b \<le> block_size (ar_policy (al_arena s))" "layout_ok l" "lay_size l \<le> block_size (ar_policy (al_arena s))"
      using ok chunks_okD(2) [OF D(1), of k] by (auto simp: pc_ok_def)
    show ?thesis unfolding al_fit
      by (rule goto) (use ok al_fit alignment_check_conc [OF inv b(2,1,3)] in
          \<open>auto simp: pc_ok_def fits_def split: if_splits\<close>)
  next
    case (al_check_bad l k b)
    then have b: "b \<le> block_size (ar_policy (al_arena s))" "layout_ok l" "lay_size l \<le> block_size (ar_policy (al_arena s))"
      using ok chunks_okD(2) [OF D(1), of k] by (auto simp: pc_ok_def)
    show ?thesis using alignment_check_conc [OF inv b(2,1,3)] al_check_bad by simp
  next
    case (al_exchange l k b al nx c)
    then show ?thesis using alloc_inv_exchange [OF inv i al_exchange(2)] by (simp add: get_at_def split: if_splits)
  next
    case (al_count l k off)
    then show ?thesis using alloc_inv_count [OF inv i] by simp
  next
    case (al_lock l)
    show ?thesis unfolding al_lock
      by (rule alloc_inv_local [OF inv i, where p = "A_Locked_Chunk l"]) (use ok al_lock in \<open>auto simp: pc_ok_def\<close>)
  next
    case (al_locked_bump l k c)
    then have "k < length (ar_chunks (al_arena s))" using ok by (simp add: pc_ok_def)
    from chunks_okD(2) [OF D(1) this] show ?thesis
      using ok al_locked_bump by (auto simp: pc_ok_def get_at_def intro!: goto)
  next
    case (al_locked_bad l b)
    then have b: "b \<le> block_size (ar_policy (al_arena s))" "layout_ok l" "lay_size l \<le> block_size (ar_policy (al_arena s))"
      using ok by (auto simp: pc_ok_def)
    show ?thesis using alignment_check_conc [OF inv b(2,1,3)] al_locked_bad by simp
  next
    case (al_reserve l)
    then show ?thesis using alloc_inv_reserve [OF inv i] by simp
  next
    case (al_push l n heap)
    moreover have "ar_allocator (al_arena s) = System" using D(1) by (simp add: chunks_ok_def)
    ultimately show ?thesis using alloc_inv_push [OF inv i] by (simp add: allocator_allocate_def)
  next
    case (al_push_bad l)
    moreover have "ar_allocator (al_arena s) = System" using D(1) by (simp add: chunks_ok_def)
    ultimately show ?thesis by (simp add: allocator_allocate_def)
  next
    case (al_store l k)
    then show ?thesis using alloc_inv_store [OF inv i] by simp
  next
    case (al_unlock_ok l)
    show ?thesis unfolding al_unlock_ok
      by (rule alloc_inv_local [OF inv i, where p = "A_Get_Chunk l"]) (use ok sec al_unlock_ok in \<open>auto simp: pc_ok_def\<close>)
  next
    case (al_unlock_err l e)
    show ?thesis unfolding al_unlock_err
      by (rule alloc_inv_local [OF inv i, where p = "al_result (al_raw s i) l (Inl e)"]) (use ok sec al_unlock_err in \<open>auto simp: pc_ok_def\<close>)
  qed (use ok cur in \<open>auto simp: pc_ok_def get_at_def refused_def simp del: al_result.simps intro!: goto\<close>)
qed

lemma alloc_run_inv:
  assumes "alloc_run base s0 s" and "alloc_inv s0"
  shows "alloc_inv s" and "length (al_pc s) = length (al_pc s0)"
  using assms
proof (induction rule: alloc_run.induct)
  case (al_more s i t)
  {
    case 1
    then show ?case using alloc_step_inv al_more by blast
  next
    case 2
    then show ?case using al_more by (auto elim!: alloc_stepE)
  }
next
  case (al_invoke s i l' r l)
  {
    case 1
    then show ?case using al_invoke by (auto intro!: alloc_inv_goto simp: pc_ok_def)
  next
    case 2
    then show ?case using al_invoke by simp
  }
qed simp_all

lemma alloc_start_inv:
  assumes "arena_new base pol System = Some a"
  shows "alloc_inv (alloc_start n a)"
proof -
  have "sum_list (replicate n 0) = (0::nat)" by (simp add: sum_list_replicate)
  then show ?thesis using assms
    by (auto simp: arena_new_def alloc_inv_def alloc_start_def Let_def chunks_ok_def pc_ok_def allocator_allocate_def
        chunk_new_def split: if_splits)
qed

section \<open>Allocation by any threads\<close>

text \<open>A failed call of \<open>alloc_raw\<close> is a panic, one of \<open>alloc_raw_fallback\<close> an error.\<close>

fun as_called :: "bool \<Rightarrow> alloc_pc \<Rightarrow> bool" where
  "as_called raw (A_Raised l e) = raw"
| "as_called raw (A_Return l (Inl e)) = (\<not> raw)"
| "as_called raw _ = True"

definition fails_as_called :: "alloc_sys \<Rightarrow> bool" where
  "fails_as_called s \<longleftrightarrow> (\<forall>i < length (al_pc s). as_called (al_raw s i) (al_pc s ! i))"

lemma as_called_result [simp]: "as_called raw (al_result raw l r)"
  by (cases r) simp_all

lemma fails_as_called_goto:
  assumes "fails_as_called s" and "al_pc u = al_pc s" and "\<forall>j. j \<noteq> i \<longrightarrow> al_raw u j = al_raw s j" and "as_called (al_raw u i) p"
  shows "fails_as_called (al_goto i p u)"
  unfolding fails_as_called_def
proof (intro allI impI)
  fix j assume j: "j < length (al_pc (al_goto i p u))"
  show "as_called (al_raw (al_goto i p u) j) (al_pc (al_goto i p u) ! j)"
    using assms j by (cases "j = i") (simp_all add: fails_as_called_def)
qed

lemma alloc_step_fails: "alloc_step base i s t \<Longrightarrow> fails_as_called s \<Longrightarrow> fails_as_called t"
  by (induction rule: alloc_step.induct) (erule fails_as_called_goto; simp)+

lemma alloc_run_fails: "alloc_run base s0 s \<Longrightarrow> fails_as_called s0 \<Longrightarrow> fails_as_called s"
proof (induction rule: alloc_run.induct)
  case (al_more s i t)
  then show ?case using alloc_step_fails by blast
next
  case (al_invoke s i l' r l raw)
  then have "fails_as_called s" by simp
  then show ?case by (rule fails_as_called_goto) simp_all
qed simp

text \<open>
  C32.  The arena shared by any number of threads that call \<open>alloc_raw\<close> and \<open>alloc_raw_fallback\<close>, in any
  interleaving and with any spurious failures of the weak exchange.  The regions handed out lie inside the
  memory of their chunk and never overlap, and every returned pointer is one of them and aligned within its
  chunk.  A call fails only when its layout is larger than a block, or when the capacity has no room for
  another block; then \<open>alloc_raw_fallback\<close> returns the error and \<open>alloc_raw\<close> panics, and nothing else ever
  panics.  At most one thread is in the critical section of \<open>try_new_chunk\<close>, the memory taken from the system
  stays within the cap, and the counter of used memory is exact whenever no thread is between its exchange
  and its count.
\<close>

theorem arena_concurrent_safe:
  assumes "arena_new base pol System = Some a" and "alloc_run base (alloc_start n a) s"
  shows "sorted_wrt regions_disjoint (al_regions s)
    \<and> list_all (\<lambda>(k, off, len). k < length (ar_chunks (al_arena s))
        \<and> off + len \<le> length (ch_mem (ar_chunks (al_arena s) ! k))) (al_regions s)
    \<and> (\<forall>i < n. case al_pc s ! i of
        A_Return l (Inr (k, off)) \<Rightarrow> (k, off, lay_size l) \<in> set (al_regions s) \<and> off mod lay_align l = 0
      | A_Return l (Inl e) \<Rightarrow> \<not> al_raw s i \<and> refused (al_arena s) l e
      | A_Raised l e \<Rightarrow> al_raw s i \<and> refused (al_arena s) l e
      | A_Panic \<Rightarrow> False
      | _ \<Rightarrow> True)
    \<and> (\<forall>i < n. in_lock_section (al_pc s ! i) \<longleftrightarrow> al_mutex s = Some i)
    \<and> length (ar_chunks (al_arena s)) * block_size (ar_policy (al_arena s)) \<le> cap (ar_policy (al_arena s))
    \<and> (list_all (\<lambda>p. pending_bytes p = 0) (al_pc s) \<longrightarrow>
         ar_memory_used (al_arena s) = sum_list (map region_size (al_regions s)))"
proof -
  note D = alloc_invD [OF alloc_run_inv(1) [OF assms(2) alloc_start_inv [OF assms(1)]]]
  have len: "length (al_pc s) = n"
    using alloc_run_inv(2) [OF assms(2) alloc_start_inv [OF assms(1)]] by (simp add: alloc_start_def)
  have f: "fails_as_called s"
    by (rule alloc_run_fails [OF assms(2)]) (simp add: fails_as_called_def alloc_start_def)
  have "off + len \<le> length (ch_mem (ar_chunks (al_arena s) ! k))" if "region_within (al_arena s) (k, off, len)" for k off len
    using that chunks_okD [OF D(1), of k] by (simp add: region_within_def)
  then have "list_all (\<lambda>(k, off, len). k < length (ar_chunks (al_arena s))
      \<and> off + len \<le> length (ch_mem (ar_chunks (al_arena s) ! k))) (al_regions s)"
    using D(2) by (auto simp: list_all_iff region_within_def)
  moreover have "case al_pc s ! i of
        A_Return l (Inr (k, off)) \<Rightarrow> (k, off, lay_size l) \<in> set (al_regions s) \<and> off mod lay_align l = 0
      | A_Return l (Inl e) \<Rightarrow> \<not> al_raw s i \<and> refused (al_arena s) l e
      | A_Raised l e \<Rightarrow> al_raw s i \<and> refused (al_arena s) l e
      | A_Panic \<Rightarrow> False
      | _ \<Rightarrow> True" if "i < n" for i
    using D(4) [of i] that f unfolding len fails_as_called_def by (auto simp: pc_ok_def split: alloc_pc.splits sum.splits)
  moreover have "ar_memory_used (al_arena s) = sum_list (map region_size (al_regions s))"
    if "list_all (\<lambda>p. pending_bytes p = 0) (al_pc s)"
  proof -
    have "sum_list (map pending_bytes (al_pc s)) = 0" using that by (simp add: list_all_iff)
    then show ?thesis using D(8) by linarith
  qed
  moreover have "length (ar_chunks (al_arena s)) * block_size (ar_policy (al_arena s)) \<le> cap (ar_policy (al_arena s))"
    using D(6,7) by (simp add: algebra_simps)
  ultimately show ?thesis using D(3,5) len by blast
qed

text \<open>Two threads read the same offset; one exchange succeeds, the other thread retries and gets the next
  region.\<close>

definition demo_layout :: layout where
  "demo_layout = \<lparr>lay_size = 16, lay_align = 8\<rparr>"

lemma demo_layout_ok: "layout_ok demo_layout"
  unfolding layout_ok_def demo_layout_def by (rule exI [of _ 3]) simp

lemma demo_arena_new: "arena_new (\<lambda>_. 0) (ar_policy demo_arena) System = Some demo_arena"
  by (simp add: arena_new_def demo_arena_def allocator_allocate_def isize_MAX_def)

lemma demo_check:
  "alignment_check 0 demo_layout demo_arena = Some (Inr (0, 16))"
  using alignment_check_eq [OF _ demo_layout_ok, of demo_arena 0] demo_arena_holds align_offset_zero [of 3]
  by (simp add: arena_holds_def fits_def demo_layout_def demo_arena_def)

lemma demo_facts:
  "ar_current demo_arena = 0" "get_at 0 (ar_chunks demo_arena) = Some (chunk_new 0 (replicate 64 1))"
  "lay_size demo_layout = 16" "block_size (ar_policy demo_arena) = 64" "ch_bump (chunk_new 0 m) = 0"
  by (simp_all add: demo_arena_def get_at_def chunk_new_def demo_layout_def)

lemma demo_advance:
  assumes run: "alloc_run base s0 s" and i: "i < length (al_pc s)" "al_pc s ! i = A_Idle" and a: "al_arena s = demo_arena" and raw: "\<not> al_raw s i"
  shows "alloc_run base s0 (al_goto i (A_Exchange demo_layout 0 0 0 16) s)"
proof -
  let ?g = "\<lambda>p. al_goto i p s" and ?l = demo_layout
  have step: "alloc_run base s0 (?g q)" if "alloc_run base s0 (?g p)" "alloc_step base i (?g p) (al_goto i q (?g p))" for p q
    using al_more [OF that(1) _ that(2)] i(1) by (simp add: al_goto_again)
  have "s\<lparr>al_raw := (al_raw s)(i := False)\<rparr> = s" using raw by (simp add: fun_upd_idem)
  then have 0: "alloc_run base s0 (?g (A_Call ?l))"
    using al_invoke [OF run i(1), of _ _ ?l False] i(2) demo_layout_ok by simp
  have 1: "alloc_run base s0 (?g (A_Get_Chunk ?l))" by (rule step [OF 0 al_enter]) (use i(1) a demo_facts in simp_all)
  have 2: "alloc_run base s0 (?g (A_Load_Bump ?l (ar_current (al_arena s))))"
    using step [OF 1 al_chunk] i(1) by simp
  have 3: "alloc_run base s0 (?g (A_Check ?l 0 (ch_bump (chunk_new 0 (replicate 64 1)))))"
    by (rule step [OF 2 al_bump]) (use i(1) a demo_facts in simp_all)
  show ?thesis by (rule step [OF 3 al_fit]) (use i(1) a demo_facts demo_check in simp_all)
qed

lemma demo_race:
  obtains s where "alloc_run (\<lambda>_. 0) (alloc_start 2 demo_arena) s"
    and "al_pc s = [A_Count demo_layout 0 0, A_Exchange demo_layout 0 0 0 16]"
    and "al_regions s = [(0, 0, 16)]"
proof -
  let ?x = "A_Exchange demo_layout 0 0 0 16"
  have start: "al_pc (alloc_start 2 demo_arena) = [A_Idle, A_Idle]" "al_arena (alloc_start 2 demo_arena) = demo_arena"
    "al_regions (alloc_start 2 demo_arena) = []" by (simp_all add: alloc_start_def numeral_2_eq_2)
  have "alloc_run (\<lambda>_. 0) (alloc_start 2 demo_arena) (al_goto 1 ?x (al_goto 0 ?x (alloc_start 2 demo_arena)))"
    by (rule demo_advance [OF demo_advance [OF al_refl]]) (simp_all add: start alloc_start_def)
  from al_more [OF this, of 0, OF _ al_exchange] show thesis
    by (rule that) (use start demo_facts in simp_all)
qed

lemma demo_raised:
  obtains s where "alloc_run (\<lambda>_. 0) (alloc_start 2 demo_arena) s"
    and "al_pc s ! 0 = A_Raised \<lparr>lay_size = 100, lay_align = 8\<rparr> (AllocationError 100)"
proof -
  let ?l = "\<lparr>lay_size = 100, lay_align = 8\<rparr>"
  let ?s = "al_goto 0 (A_Call ?l) ((alloc_start 2 demo_arena)\<lparr>al_raw := (al_raw (alloc_start 2 demo_arena))(0 := True)\<rparr>)"
  have "layout_ok ?l" unfolding layout_ok_def by (rule exI [of _ 3]) simp
  then have "alloc_run (\<lambda>_. 0) (alloc_start 2 demo_arena) ?s"
    by (intro al_invoke [OF al_refl]) (simp_all add: alloc_start_def)
  from al_more [OF this, of 0, OF _ al_oversized [of _ _ ?l]] show thesis
    by (rule that) (simp_all add: alloc_start_def demo_arena_def)
qed

theorem arena_concurrent_safe_witness:
  "\<exists>s t. alloc_run (\<lambda>_. 0) (alloc_start 2 demo_arena) s \<and> length (al_regions s) = 1
    \<and> sorted_wrt regions_disjoint (al_regions s) \<and> ar_memory_used (al_arena s) = 0
    \<and> alloc_run (\<lambda>_. 0) (alloc_start 2 demo_arena) t
    \<and> al_pc t ! 0 = A_Raised \<lparr>lay_size = 100, lay_align = 8\<rparr> (AllocationError 100) \<and> al_raw t 0"
proof -
  obtain s where s: "alloc_run (\<lambda>_. 0) (alloc_start 2 demo_arena) s" "al_regions s = [(0, 0, 16)]"
    "al_pc s = [A_Count demo_layout 0 0, A_Exchange demo_layout 0 0 0 16]" by (rule demo_race)
  obtain t where t: "alloc_run (\<lambda>_. 0) (alloc_start 2 demo_arena) t"
    "al_pc t ! 0 = A_Raised \<lparr>lay_size = 100, lay_align = 8\<rparr> (AllocationError 100)" by (rule demo_raised)
  note inv = alloc_run_inv(1) [OF s(1) alloc_start_inv [OF demo_arena_new]]
  have "ar_memory_used (al_arena s) = 0" using alloc_invD(8) [OF inv] s(2,3) by (simp add: demo_layout_def)
  moreover have "al_raw t 0" using arena_concurrent_safe [OF demo_arena_new t(1)] t(2) by (auto dest!: spec [of _ 0])
  ultimately show ?thesis using arena_concurrent_safe [OF demo_arena_new s(1)] s t by auto
qed

section \<open>A thread that runs alone\<close>

abbreviation alone :: "(nat \<Rightarrow> nat) \<Rightarrow> nat \<Rightarrow> alloc_sys \<Rightarrow> alloc_sys \<Rightarrow> bool" where
  "alone base i \<equiv> (alloc_step base i)\<^sup>*\<^sup>*"

lemma alone_step:
  assumes "alone base i s (al_goto i p s')" and "alloc_step base i (al_goto i p s') (al_goto i q t)"
    and "al_goto i q t = t'"
  shows "alone base i s t'"
  using assms by (metis rtranclp.rtrancl_into_rtrancl)

lemma mutex_restored: "al_mutex s = None \<Longrightarrow> s\<lparr>al_mutex := None, al_pc := p\<rparr> = s\<lparr>al_pc := p\<rparr>"
  "al_mutex s = None \<Longrightarrow> s\<lparr>al_arena := a, al_mutex := None, al_pc := p\<rparr> = s\<lparr>al_arena := a, al_pc := p\<rparr>"
  by (cases s; simp)+

text \<open>The loop body when the layout fits the current chunk, and when it does not.\<close>

lemma alone_fits:
  assumes i: "i < length (al_pc s)" and c: "get_chunk (al_arena s) = Some c"
    and chk: "alignment_check (ch_bump c) l (al_arena s) = Some (Inr (al, nx))"
  shows "alone base i (al_goto i (A_Get_Chunk l) s) (al_goto i (A_Return l (Inr (ar_current (al_arena s), al)))
    (s\<lparr>al_arena := bump_chunk nx (lay_size l) (al_arena s),
       al_regions := (ar_current (al_arena s), al, lay_size l) # al_regions s\<rparr>))"
proof -
  let ?k = "ar_current (al_arena s)"
  have at: "get_at ?k (ar_chunks (al_arena s)) = Some c" using c by (simp add: get_chunk_def)
  let ?g = "\<lambda>p. al_goto i p s" and ?G = "A_Get_Chunk l"
  let ?s = "s\<lparr>al_arena := chunk_set_bump ?k nx (al_arena s), al_regions := (?k, al, lay_size l) # al_regions s\<rparr>"
  have r1: "alone base i (?g ?G) (?g (A_Load_Bump l ?k))"
    by (rule alone_step [OF rtranclp.rtrancl_refl al_chunk]) (simp_all add: i al_goto_again)
  have r2: "alone base i (?g ?G) (?g (A_Check l ?k (ch_bump c)))"
    by (rule alone_step [OF r1 al_bump]) (simp_all add: i at al_goto_again)
  have r3: "alone base i (?g ?G) (?g (A_Exchange l ?k (ch_bump c) al nx))"
    by (rule alone_step [OF r2 al_fit]) (simp_all add: i chk al_goto_again)
  have r4: "alone base i (?g ?G) (al_goto i (A_Count l ?k al) ?s)"
    by (rule alone_step [OF r3 al_exchange]) (simp_all add: i at al_goto_again)
  show ?thesis
    by (rule alone_step [OF r4 al_count])
      (simp_all add: i al_goto_again chunk_set_bump_def bump_chunk_def, simp add: al_goto_def)
qed

lemma alone_full:
  assumes i: "i < length (al_pc s)" and mu: "al_mutex s = None" and c: "get_chunk (al_arena s) = Some c"
    and chk: "alignment_check (ch_bump c) l (al_arena s) = Some (Inl e)"
  shows "alone base i (al_goto i (A_Get_Chunk l) s) (al_goto i (A_Cap l) (s\<lparr>al_mutex := Some i\<rparr>))"
proof -
  let ?k = "ar_current (al_arena s)"
  have at: "get_at ?k (ar_chunks (al_arena s)) = Some c" using c by (simp add: get_chunk_def)
  let ?g = "\<lambda>p. al_goto i p s" and ?h = "\<lambda>p. al_goto i p (s\<lparr>al_mutex := Some i\<rparr>)" and ?G = "A_Get_Chunk l"
  have r1: "alone base i (?g ?G) (?g (A_Load_Bump l ?k))"
    by (rule alone_step [OF rtranclp.rtrancl_refl al_chunk]) (simp_all add: i al_goto_again)
  have r2: "alone base i (?g ?G) (?g (A_Check l ?k (ch_bump c)))"
    by (rule alone_step [OF r1 al_bump]) (simp_all add: i at al_goto_again)
  have r3: "alone base i (?g ?G) (?g (A_Lock l))"
    by (rule alone_step [OF r2 al_no_fit [where k = ?k and b = "ch_bump c" and e = e]]) (simp_all add: i chk al_goto_again)
  have r4: "alone base i (?g ?G) (?h (A_Locked_Chunk l))"
    by (rule alone_step [OF r3 al_lock]) (simp_all add: i mu al_goto_again)
  have r5: "alone base i (?g ?G) (?h (A_Locked_Bump l ?k))"
    by (rule alone_step [OF r4 al_locked_chunk]) (simp_all add: i al_goto_again)
  have r6: "alone base i (?g ?G) (?h (A_Locked_Check l (ch_bump c)))"
    by (rule alone_step [OF r5 al_locked_bump [where k = ?k and c = c]]) (simp_all add: i at al_goto_again)
  show ?thesis
    by (rule alone_step [OF r6 al_locked_no_fit [where b = "ch_bump c" and e = e]]) (simp_all add: i chk al_goto_again)
qed

lemma alone_grow:
  assumes i: "i < length (al_pc s)" and mu: "al_mutex s = None" and "can_grow (al_arena s)"
    and sys: "ar_allocator (al_arena s) = System"
  shows "alone base i (al_goto i (A_Cap l) (s\<lparr>al_mutex := Some i\<rparr>))
    (al_goto i (A_Get_Chunk l) (s\<lparr>al_arena := grow base (al_arena s)\<rparr>))"
proof -
  let ?s = "s\<lparr>al_mutex := Some i\<rparr>" and ?a = "al_arena s" and ?n = "length (ar_chunks (al_arena s))"
  let ?a1 = "?a\<lparr>ar_allocated_bytes := ar_allocated_bytes ?a + block_size (ar_policy ?a)\<rparr>"
  let ?a2 = "?a1\<lparr>ar_chunks := ar_chunks ?a @ [chunk_new (base ?n) (replicate (block_size (ar_policy ?a)) 1)]\<rparr>"
  have r1: "alone base i (al_goto i (A_Cap l) ?s) (al_goto i (A_Reserve l) ?s)"
    by (rule alone_step [OF rtranclp.rtrancl_refl al_cap]) (simp_all add: i assms(3) al_goto_again)
  have r2: "alone base i (al_goto i (A_Cap l) ?s) (al_goto i (A_Push l) (?s\<lparr>al_arena := ?a1\<rparr>))"
    by (rule alone_step [OF r1 al_reserve]) (simp_all add: i al_goto_again)
  have r3: "alone base i (al_goto i (A_Cap l) ?s) (al_goto i (A_Store l ?n) (?s\<lparr>al_arena := ?a2\<rparr>))"
    by (rule alone_step [OF r2 al_push [where heap = "replicate (block_size (ar_policy ?a)) 1"]])
      (simp_all add: i sys allocator_allocate_def al_goto_again)
  have r4: "alone base i (al_goto i (A_Cap l) ?s) (al_goto i (A_Unlock l (Inr ())) (?s\<lparr>al_arena := grow base ?a\<rparr>))"
    by (rule alone_step [OF r3 al_store]) (simp_all add: i al_goto_again grow_def)
  show ?thesis
    by (rule alone_step [OF r4 al_unlock_ok]) (use i mu in \<open>simp_all add: al_goto_def mutex_restored\<close>)
qed

lemma alone_arena_full:
  assumes i: "i < length (al_pc s)" and mu: "al_mutex s = None" and "\<not> can_grow (al_arena s)"
  shows "alone base i (al_goto i (A_Cap l) (s\<lparr>al_mutex := Some i\<rparr>)) (al_goto i (al_result (al_raw s i) l (Inl ArenaFull)) s)"
proof -
  let ?s = "s\<lparr>al_mutex := Some i\<rparr>"
  have r1: "alone base i (al_goto i (A_Cap l) ?s) (al_goto i (A_Unlock l (Inl ArenaFull)) ?s)"
    by (rule alone_step [OF rtranclp.rtrancl_refl al_full]) (use i assms(3) in \<open>simp_all add: al_goto_again\<close>)
  show ?thesis
    by (rule alone_step [OF r1 al_unlock_err]) (use i mu in \<open>simp_all add: al_goto_def mutex_restored\<close>)
qed

text \<open>With the mutex free no block is pending, so the arena satisfies the sequential invariant.\<close>

lemma alloc_inv_quiet:
  assumes "alloc_inv s" and "al_mutex s = None"
  shows "arena_ok (al_arena s)"
proof -
  note D = alloc_invD [OF assms(1)]
  have "pending_block p = 0" if "p \<in> set (al_pc s)" for p
  proof -
    obtain j where "j < length (al_pc s)" "al_pc s ! j = p" using \<open>p \<in> set (al_pc s)\<close> by (metis in_set_conv_nth)
    then have "\<not> in_lock_section p" using D(5) assms(2) by auto
    then show ?thesis by (cases p) simp_all
  qed
  then have "sum_list (map pending_block (al_pc s)) = 0" by simp
  then show ?thesis using D(1,6,7) unfolding arena_ok_def chunks_ok_def by (metis add.right_neutral)
qed

lemma alone_loop:
  assumes inv: "alloc_inv s" and i: "i < length (al_pc s)" and mu: "al_mutex s = None" and l: "layout_ok l"
    and size: "lay_size l \<le> block_size (ar_policy (al_arena s))"
    and run: "alloc_loop base l (al_arena s) = Some (r, a')"
  shows "\<exists>rs. alone base i (al_goto i (A_Get_Chunk l) s) (al_goto i (al_result (al_raw s i) l r) (s\<lparr>al_arena := a', al_regions := rs\<rparr>))"
proof -
  let ?a = "al_arena s" and ?c = "ar_chunks (al_arena s) ! ar_current (al_arena s)"
  have ok: "arena_ok ?a" by (rule alloc_inv_quiet [OF inv mu])
  have c: "get_chunk ?a = Some ?c" by (rule get_chunk_ok [OF ok])
  have b: "ch_bump ?c \<le> block_size (ar_policy ?a)" using arena_chunk(2) [OF ok] ok by (simp add: arena_ok_def)
  note chk = alignment_check_eq [OF ok l b size] and loop = alloc_loop_eq [OF ok l size, of base]
  consider (here) "fits l (ch_bump ?c) ?a" | (new) "\<not> fits l (ch_bump ?c) ?a" "can_grow ?a"
    | (full) "\<not> fits l (ch_bump ?c) ?a" "\<not> can_grow ?a" by blast
  then show ?thesis
  proof cases
    case here
    let ?off = "align_offset (ch_bump ?c) (lay_align l)"
    have "r = Inr (ar_current ?a, ?off)" "a' = bump_chunk (?off + lay_size l) (lay_size l) ?a"
      using here loop run by simp_all
    moreover have "alignment_check (ch_bump ?c) l ?a = Some (Inr (?off, ?off + lay_size l))" using chk here by simp
    ultimately show ?thesis using alone_fits [OF i c, of l ?off "?off + lay_size l" base]
      by (intro exI [of _ "(ar_current ?a, ?off, lay_size l) # al_regions s"]) simp
  next
    case full
    have "alignment_check (ch_bump ?c) l ?a = Some (Inl Overflow)" using chk full(1) by simp
    from rtranclp_trans [OF alone_full [OF i mu c this] alone_arena_full [OF i mu full(2)]]
    have "alone base i (al_goto i (A_Get_Chunk l) s) (al_goto i (al_result (al_raw s i) l (Inl ArenaFull)) s)" .
    moreover have "s\<lparr>al_arena := a', al_regions := al_regions s\<rparr> = s" using loop run full by simp
    ultimately show ?thesis using loop run full by (intro exI [of _ "al_regions s"]) auto
  next
    case new
    let ?g = "grow base ?a" and ?s = "s\<lparr>al_arena := grow base (al_arena s)\<rparr>"
    have g: "arena_ok ?g" by (rule arena_ok_grow [OF ok new(2)])
    have c': "get_chunk ?g = Some (chunk_new (base (length (ar_chunks ?a))) (replicate (block_size (ar_policy ?a)) 1))"
      using get_chunk_ok [OF g] by (simp add: grow_def)
    have pol: "ar_policy ?g = ar_policy ?a" "ar_current ?g = length (ar_chunks ?a)" by (simp_all add: grow_def)
    have "align_offset 0 (lay_align l) = 0" using l align_offset_zero by (auto simp: layout_ok_def)
    then have "alignment_check 0 l ?g = Some (Inr (0, lay_size l))"
      using alignment_check_eq [OF g l, of 0] fits_fresh [OF l, of ?g] size pol by simp
    then have "alone base i (al_goto i (A_Get_Chunk l) ?s)
        (al_goto i (A_Return l (Inr (length (ar_chunks ?a), 0))) (?s\<lparr>al_arena := bump_chunk (lay_size l) (lay_size l) ?g,
          al_regions := (length (ar_chunks ?a), 0, lay_size l) # al_regions s\<rparr>))"
      using alone_fits [of i ?s _ l 0 "lay_size l" base] i c' pol by (simp add: chunk_new_def)
    moreover have "alignment_check (ch_bump ?c) l ?a = Some (Inl Overflow)" using chk new(1) by simp
    from alone_full [OF i mu c this] have "alone base i (al_goto i (A_Get_Chunk l) s) (al_goto i (A_Get_Chunk l) ?s)"
      by (rule rtranclp_trans) (rule alone_grow [OF i mu new(2)], use ok in \<open>simp add: arena_ok_def\<close>)
    ultimately have "alone base i (al_goto i (A_Get_Chunk l) s)
        (al_goto i (A_Return l (Inr (length (ar_chunks ?a), 0))) (?s\<lparr>al_arena := bump_chunk (lay_size l) (lay_size l) ?g,
          al_regions := (length (ar_chunks ?a), 0, lay_size l) # al_regions s\<rparr>))" by (rule rtranclp_trans [rotated])
    then show ?thesis using loop run new by auto
  qed
qed

text \<open>
  Also:  A thread that runs without interference does what the sequential allocator does: from any state
  the threads can reach with the mutex free, if one thread calls \<open>alloc_raw\<close> or \<open>alloc_raw_fallback\<close> and then runs alone,
  it returns, or panics with the error in the case of \<open>alloc_raw\<close>, and the result, the arena and the released mutex are those of
  the sequential definition, while no other thread is disturbed.
\<close>

theorem alloc_alone_sequential:
  assumes "arena_new base pol System = Some a0" and "alloc_run base (alloc_start n a0) s" and "i < n"
    and "al_pc s ! i = A_Call l" and "al_mutex s = None"
  shows "\<exists>r a' rs. alloc_raw_fallback base l (al_arena s) = Some (r, a')
    \<and> alone base i s (al_goto i (al_result (al_raw s i) l r) (s\<lparr>al_arena := a', al_regions := rs\<rparr>))"
proof -
  note start = alloc_start_inv [OF assms(1), of n]
  note inv = alloc_run_inv(1) [OF assms(2) start]
  have i: "i < length (al_pc s)" using alloc_run_inv(2) [OF assms(2) start] assms(3) by (simp add: alloc_start_def)
  have l: "layout_ok l" using alloc_invD(4) [OF inv i] assms(4) by (simp add: pc_ok_def)
  show ?thesis
  proof (cases "lay_size l \<le> block_size (ar_policy (al_arena s))")
    case True
    have "\<exists>r a'. alloc_loop base l (al_arena s) = Some (r, a')"
      using alloc_loop_eq [OF alloc_inv_quiet [OF inv assms(5)] l True, of base] by auto
    then obtain r a' where run: "alloc_loop base l (al_arena s) = Some (r, a')" by blast
    obtain rs where "alone base i (al_goto i (A_Get_Chunk l) s) (al_goto i (al_result (al_raw s i) l r) (s\<lparr>al_arena := a', al_regions := rs\<rparr>))"
      using alone_loop [OF inv i assms(5) l True run] by blast
    moreover have "alloc_step base i s (al_goto i (A_Get_Chunk l) s)" using assms(4) True by (rule al_enter)
    ultimately have "alone base i s (al_goto i (al_result (al_raw s i) l r) (s\<lparr>al_arena := a', al_regions := rs\<rparr>))"
      by (rule converse_rtranclp_into_rtranclp [rotated])
    then show ?thesis using run True by (auto simp: alloc_raw_fallback_def)
  next
    case False
    then have "alloc_step base i s (al_goto i (al_result (al_raw s i) l (Inl (AllocationError (lay_size l)))) s)"
      by (intro al_oversized [OF assms(4)]) simp
    moreover have "s\<lparr>al_arena := al_arena s, al_regions := al_regions s\<rparr> = s" by simp
    ultimately show ?thesis using False
      by (intro exI [of _ "Inl (AllocationError (lay_size l))"] exI [of _ "al_arena s"] exI [of _ "al_regions s"])
        (auto simp: alloc_raw_fallback_def)
  qed
qed

theorem alloc_alone_sequential_witness:
  "\<exists>s r a' rs. alloc_run (\<lambda>_. 0) (alloc_start 2 demo_arena) s
    \<and> alloc_raw_fallback (\<lambda>_. 0) demo_layout demo_arena = Some (r, a')
    \<and> alone (\<lambda>_. 0) 0 s (al_goto 0 (al_result True demo_layout r) (s\<lparr>al_arena := a', al_regions := rs\<rparr>))"
proof -
  let ?s = "al_goto 0 (A_Call demo_layout) ((alloc_start 2 demo_arena)\<lparr>al_raw := (al_raw (alloc_start 2 demo_arena))(0 := True)\<rparr>)"
  have "alloc_run (\<lambda>_. 0) (alloc_start 2 demo_arena) ?s"
    by (rule al_invoke [OF al_refl]) (simp_all add: alloc_start_def demo_layout_ok)
  moreover have "al_pc ?s ! 0 = A_Call demo_layout" "al_mutex ?s = None" "al_arena ?s = demo_arena" "al_raw ?s 0"
    by (simp_all add: alloc_start_def)
  ultimately show ?thesis
    using alloc_alone_sequential [OF demo_arena_new, of 2 ?s 0 demo_layout] by auto
qed

end
