(* ===== verification/Var_Int.thy ===== *)
theory Var_Int
  imports Ord_Prelude
begin

text \<open>
  The variable-length integers of \<open>crates/engine/src/utils/var_int.rs\<close>: seven payload
  bits per byte, least significant group first, the high bit set on every byte but the
  last.  \<open>VarInt::new\<close> is the loop over its five-byte buffer, \<open>VarInt::decode\<close> the
  loop over the input slice; an index outside the buffer and a shift of 32 or more are
  panics.
\<close>

unbundle bit_operations_syntax

section \<open>Definitions\<close>

record var_int =
  vi_buf :: bytes
  vi_len :: byte

definition MAX_VARINT :: nat where
  "MAX_VARINT = 5"

function varint_new_loop :: "bytes \<Rightarrow> u32 \<Rightarrow> nat \<Rightarrow> var_int option" where
  "varint_new_loop buf v i =
     (if v > 127
      then set_at i (ucast (v AND 0x7F) OR 0x80) buf \<bind>
           (\<lambda>buf'. varint_new_loop buf' (drop_bit 7 v) (i + 1))
      else map_option (\<lambda>buf'. \<lparr>vi_buf = buf', vi_len = of_nat (i + 1)\<rparr>)
             (set_at i (ucast v) buf))"
  by pat_completeness auto
termination
proof (relation "measure (\<lambda>(buf, v, i). unat v)")
  show "wf (measure (\<lambda>(buf :: bytes, v :: u32, i :: nat). unat v))" by simp
next
  fix buf buf' :: bytes and v :: u32 and i :: nat
  assume "v > 127"
  then have "0 < unat v" by (simp add: word_less_nat_alt)
  moreover have "unat (drop_bit 7 v) = unat v div 128"
    unfolding unat_drop_bit_eq by (simp add: drop_bit_eq_div)
  ultimately show "((buf', drop_bit 7 v, i + 1), (buf, v, i)) \<in> measure (\<lambda>(buf, v, i). unat v)"
    by simp
qed

declare varint_new_loop.simps [simp del]

definition varint_new :: "u32 \<Rightarrow> var_int option" where
  "varint_new v = varint_new_loop (replicate MAX_VARINT 0) v 0"

fun varint_decode_loop :: "bytes \<Rightarrow> u32 \<Rightarrow> nat \<Rightarrow> nat \<Rightarrow> (u32 \<times> nat) option" where
  "varint_decode_loop [] result shift bytes_read = Some (result, bytes_read)"
| "varint_decode_loop (b # bs) result shift bytes_read =
     (if 32 \<le> shift then None
      else let result' = result OR push_bit shift (ucast (b AND 0x7F))
           in if b AND 0x80 = 0 then Some (result', bytes_read + 1)
              else varint_decode_loop bs result' (shift + 7) (bytes_read + 1))"

definition varint_decode :: "bytes \<Rightarrow> (u32 \<times> nat) option" where
  "varint_decode buf = varint_decode_loop buf 0 0 0"

definition varint_size :: "var_int \<Rightarrow> nat" where
  "varint_size vi = unat (vi_len vi)"

definition varint_as_slice :: "var_int \<Rightarrow> bytes option" where
  "varint_as_slice vi = slice_at 0 (varint_size vi) (vi_buf vi)"

section \<open>The byte groups of a value\<close>

text \<open>The encoding as a list, without the buffer it is written into.\<close>

function varint_bytes :: "u32 \<Rightarrow> bytes" where
  "varint_bytes v =
     (if v > 127 then (ucast (v AND 0x7F) OR 0x80) # varint_bytes (drop_bit 7 v) else [ucast v])"
  by pat_completeness auto
termination
proof (relation "measure unat")
  fix v :: u32
  assume "v > 127"
  then have "0 < unat v" by (simp add: word_less_nat_alt)
  moreover have "unat (drop_bit 7 v) = unat v div 128"
    unfolding unat_drop_bit_eq by (simp add: drop_bit_eq_div)
  ultimately show "(drop_bit 7 v, v) \<in> measure unat" by simp
qed simp

declare varint_bytes.simps [simp del]

lemma varint_bytes_neq_Nil [simp]: "varint_bytes v \<noteq> []"
  by (subst varint_bytes.simps) simp

lemma varint_bytes_length_le:
  "unat v < 2 ^ (7 * k) \<Longrightarrow> 0 < k \<Longrightarrow> length (varint_bytes v) \<le> k"
proof (induction k arbitrary: v)
  case 0
  then show ?case by simp
next
  case (Suc k)
  show ?case
  proof (cases "v > 127")
    case True
    have d: "unat (drop_bit 7 v) = unat v div 128"
      unfolding unat_drop_bit_eq by (simp add: drop_bit_eq_div)
    have "unat v \<ge> 128" using True by (simp add: word_less_nat_alt)
    then have "0 < k" using Suc.prems by (cases k) auto
    moreover have "unat v div 128 < 2 ^ (7 * k)"
      using Suc.prems(1) by (simp add: less_mult_imp_div_less mult.commute power_add)
    ultimately show ?thesis using Suc.IH [of "drop_bit 7 v"] True d
      by (subst varint_bytes.simps) simp
  next
    case False
    then show ?thesis by (subst varint_bytes.simps) simp
  qed
qed

lemma varint_bytes_length_max: "length (varint_bytes v) \<le> 5"
  using unsigned_less [of v, where 'a = nat] by (intro varint_bytes_length_le) simp_all

lemma varint_bytes_length_pos: "0 < length (varint_bytes v)"
  by simp

section \<open>The writing loop\<close>

lemma varint_new_loop_eq:
  "i + length (varint_bytes v) \<le> length buf \<Longrightarrow>
   varint_new_loop buf v i =
     Some \<lparr>vi_buf = take i buf @ varint_bytes v @ drop (i + length (varint_bytes v)) buf,
           vi_len = of_nat (i + length (varint_bytes v))\<rparr>"
proof (induction buf v i rule: varint_new_loop.induct)
  case (1 buf v i)
  have i: "i < length buf" using 1 varint_bytes_length_pos [of v] by linarith
  show ?case
  proof (cases "v > 127")
    case True
    let ?b = "ucast (v AND 0x7F) OR 0x80 :: byte"
    have vb: "varint_bytes v = ?b # varint_bytes (drop_bit 7 v)"
      by (subst varint_bytes.simps) (simp add: True)
    have set: "set_at i ?b buf = Some (buf[i := ?b])" using i by (simp add: set_at_def)
    have "varint_new_loop buf v i = varint_new_loop (buf[i := ?b]) (drop_bit 7 v) (i + 1)"
      by (subst varint_new_loop.simps) (simp add: True set)
    also have "\<dots> = Some \<lparr>vi_buf = take (i + 1) (buf[i := ?b]) @ varint_bytes (drop_bit 7 v)
          @ drop (i + 1 + length (varint_bytes (drop_bit 7 v))) (buf[i := ?b]),
        vi_len = of_nat (i + 1 + length (varint_bytes (drop_bit 7 v)))\<rparr>"
      using 1 True set vb by simp
    finally show ?thesis using i by (simp add: vb take_Suc_conv_app_nth algebra_simps)
  next
    case False
    then have vb: "varint_bytes v = [ucast v]"
      by (subst varint_bytes.simps) simp
    have "varint_new_loop buf v i
        = Some \<lparr>vi_buf = buf[i := ucast v], vi_len = of_nat (i + 1)\<rparr>"
      by (subst varint_new_loop.simps) (simp add: False set_at_def i)
    then show ?thesis using i by (simp add: vb upd_conv_take_nth_drop)
  qed
qed

lemma varint_new_eq:
  "varint_new v = Some \<lparr>vi_buf = varint_bytes v @ replicate (5 - length (varint_bytes v)) 0,
                        vi_len = of_nat (length (varint_bytes v))\<rparr>"
  using varint_new_loop_eq [of 0 v "replicate 5 0"] varint_bytes_length_max [of v]
  by (simp add: varint_new_def MAX_VARINT_def)

lemma varint_new_slice:
  assumes "varint_new v = Some vi"
  shows "varint_size vi = length (varint_bytes v)" and "varint_as_slice vi = Some (varint_bytes v)"
proof -
  have "unat (of_nat (length (varint_bytes v)) :: byte) = length (varint_bytes v)"
    using varint_bytes_length_max [of v] by (simp add: unat_of_nat)
  with assms show "varint_size vi = length (varint_bytes v)"
    by (auto simp: varint_new_eq varint_size_def)
  with assms show "varint_as_slice vi = Some (varint_bytes v)"
    by (auto simp: varint_new_eq varint_as_slice_def slice_at_def)
qed

lemma varint_new_defined: obtains vi where "varint_new v = Some vi"
  by (simp add: varint_new_eq)

section \<open>The reading loop\<close>

lemma low7_take_bit: "w AND 0x7F = take_bit 7 (w :: 'a::len word)"
  by (simp add: take_bit_eq_mask mask_eq_exp_minus_1)

lemma high_bit_iff: "bit (0x80 :: byte) n \<longleftrightarrow> n = 7"
proof -
  have "(0x80 :: byte) = 2 ^ 7" by simp
  then show ?thesis by (simp only: bit_exp_iff possible_bit_word) auto
qed

lemma and_high_bit_eq_0: "(b :: byte) AND 0x80 = 0 \<longleftrightarrow> \<not> bit b 7"
proof
  assume "b AND 0x80 = 0"
  then have "bit (b AND 0x80) 7 = bit (0 :: byte) 7" by simp
  then show "\<not> bit b 7" by (simp add: bit_and_iff high_bit_iff)
next
  assume "\<not> bit b 7"
  then show "b AND 0x80 = 0"
    by (intro bit_word_eqI) (simp only: bit_and_iff high_bit_iff, auto)
qed

lemma varint_group_low:
  "ucast ((ucast (v AND 0x7F) OR 0x80 :: byte) AND 0x7F) = (take_bit 7 v :: u32)"
  unfolding low7_take_bit by (rule bit_word_eqI) (auto simp: bit_simps high_bit_iff)

lemma varint_group_high: "(ucast (v AND 0x7F) OR 0x80 :: byte) AND 0x80 \<noteq> 0"
  unfolding and_high_bit_eq_0 by (simp add: bit_or_iff high_bit_iff)

lemma varint_split_groups:
  "(r OR push_bit s (take_bit 7 v)) OR push_bit (s + 7) (drop_bit 7 v) = r OR push_bit s (v :: u32)"
proof (rule bit_word_eqI)
  fix n
  have "s + 7 \<le> n \<Longrightarrow> 7 + (n - (s + 7)) = n - s" by simp
  then show "bit ((r OR push_bit s (take_bit 7 v)) OR push_bit (s + 7) (drop_bit 7 v)) n
      = bit (r OR push_bit s v) n"
    by (cases "s + 7 \<le> n") (auto simp: bit_simps)
qed

lemma varint_small_byte:
  assumes "\<not> 127 < (v :: u32)"
  shows "ucast ((ucast v :: byte) AND 0x7F) = v" and "(ucast v :: byte) AND 0x80 = 0"
proof -
  have "unat v div 128 = 0" using assms by (simp add: word_less_nat_alt)
  moreover have "unat (drop_bit 7 v) = unat v div 128"
    unfolding unat_drop_bit_eq by (simp add: drop_bit_eq_div)
  ultimately have "drop_bit 7 v = 0" by (simp only: unat_eq_0 [symmetric])
  then have v: "take_bit 7 v = v"
    by (simp only: take_bit_eq_self_iff_drop_bit_eq_0)
  then have "bit v n \<Longrightarrow> n < 7" for n
    by (metis bit_take_bit_iff)
  then show "ucast ((ucast v :: byte) AND 0x7F) = v" and "(ucast v :: byte) AND 0x80 = 0"
    unfolding low7_take_bit and_high_bit_eq_0
    by (auto intro!: bit_word_eqI simp: bit_simps) fastforce+
qed

lemma varint_decode_loop_bytes:
  "s + 7 * (length (varint_bytes v) - 1) < 32 \<Longrightarrow>
   varint_decode_loop (varint_bytes v @ rest) r s n
     = Some (r OR push_bit s v, n + length (varint_bytes v))"
proof (induction v arbitrary: r s n rule: varint_bytes.induct)
  case (1 v)
  show ?case
  proof (cases "v > 127")
    case True
    let ?b = "ucast (v AND 0x7F) OR 0x80 :: byte"
    have vb: "varint_bytes v = ?b # varint_bytes (drop_bit 7 v)"
      by (subst varint_bytes.simps) (simp add: True)
    have len: "0 < length (varint_bytes (drop_bit 7 v))" by simp
    have s: "s + 7 + 7 * (length (varint_bytes (drop_bit 7 v)) - 1) < 32"
      using "1.prems" len unfolding vb list.size by linarith
    have "varint_decode_loop (varint_bytes v @ rest) r s n
        = varint_decode_loop (varint_bytes (drop_bit 7 v) @ rest)
            (r OR push_bit s (take_bit 7 v)) (s + 7) (n + 1)"
      using s varint_group_high [of v] by (simp add: vb Let_def varint_group_low)
    also have "\<dots> = Some ((r OR push_bit s (take_bit 7 v)) OR push_bit (s + 7) (drop_bit 7 v),
        n + 1 + length (varint_bytes (drop_bit 7 v)))"
      by (rule "1.IH" [OF True s])
    finally show ?thesis by (simp add: vb varint_split_groups)
  next
    case False
    then have "varint_bytes v = [ucast v]" by (subst varint_bytes.simps) simp
    then show ?thesis using "1.prems" varint_small_byte [OF False] by (simp add: Let_def)
  qed
qed

lemma varint_decode_bytes:
  "varint_decode (varint_bytes v @ rest) = Some (v, length (varint_bytes v))"
proof -
  have "0 + 7 * (length (varint_bytes v) - 1) < 32"
    using varint_bytes_length_max [of v] by linarith
  then show ?thesis by (simp add: varint_decode_def varint_decode_loop_bytes)
qed

lemma varint_bytes_inject_append:
  "varint_bytes v @ xs = varint_bytes w @ ys \<longleftrightarrow> v = w \<and> xs = ys"
  by (metis varint_decode_bytes append_same_eq append_eq_append_conv fst_conv option.inject)

section \<open>Properties\<close>

text \<open>
  C34.  \<open>VarInt::new\<close> never indexes past its five-byte buffer, uses between one and
  \<open>MAX_VARINT\<close> bytes, and \<open>VarInt::decode\<close> on the encoded slice followed by arbitrary
  further bytes returns the value and the number of bytes it occupies.
\<close>

theorem varint_roundtrip:
  "\<exists>vi bs. varint_new v = Some vi \<and> varint_as_slice vi = Some bs
     \<and> length bs = varint_size vi \<and> 1 \<le> varint_size vi \<and> varint_size vi \<le> MAX_VARINT
     \<and> varint_decode (bs @ rest) = Some (v, varint_size vi)"
proof -
  obtain vi where vi: "varint_new v = Some vi" by (rule varint_new_defined)
  show ?thesis
    using vi varint_new_slice [OF vi] varint_bytes_length_max [of v] varint_bytes_length_pos [of v]
    by (auto simp: varint_decode_bytes MAX_VARINT_def Suc_le_eq)
qed

end
