(* ===== verification/Utils_Mod.thy ===== *)
theory Utils_Mod
  imports Ord_Prelude
begin

text \<open>
  The raw integer accessors of \<open>crates/engine/src/utils/mod.rs\<close>.  A raw pointer into a
  buffer is the pair of the buffer and an offset; an access that does not stay inside the
  buffer is \<open>None\<close>.  The target is little-endian (the sources name x86-64), so a native
  unaligned read is a little-endian read, \<open>to_le\<close> is the identity and \<open>to_be\<close> swaps.
\<close>

section \<open>Definitions\<close>

definition native_read :: "nat \<Rightarrow> bytes \<Rightarrow> nat \<Rightarrow> 'a::len word option" where
  "native_read n buf p = map_option from_le_bytes (slice_at p n buf)"

definition swap_bytes :: "nat \<Rightarrow> 'a::len word \<Rightarrow> 'a word" where
  "swap_bytes n w = from_le_bytes (rev (to_le_bytes n w))"

definition read_u16_le_unsafe :: "bytes \<Rightarrow> nat \<Rightarrow> u16 option" where
  "read_u16_le_unsafe buf p = native_read 2 buf p"

definition write_u16_le_unsafe :: "bytes \<Rightarrow> nat \<Rightarrow> u16 \<Rightarrow> bytes option" where
  "write_u16_le_unsafe buf p v = copy_at p (to_le_bytes 2 v) buf"

definition read_u32_le_unsafe :: "bytes \<Rightarrow> nat \<Rightarrow> u32 option" where
  "read_u32_le_unsafe buf p = native_read 4 buf p"

definition write_u32_le_unsafe :: "bytes \<Rightarrow> nat \<Rightarrow> u32 \<Rightarrow> bytes option" where
  "write_u32_le_unsafe buf p v = copy_at p (to_le_bytes 4 v) buf"

definition read_u32_be_unsafe :: "bytes \<Rightarrow> nat \<Rightarrow> u32 option" where
  "read_u32_be_unsafe buf p = map_option (swap_bytes 4) (native_read 4 buf p)"

definition write_u32_be_unsafe :: "bytes \<Rightarrow> nat \<Rightarrow> u32 \<Rightarrow> bytes option" where
  "write_u32_be_unsafe buf p v = copy_at p (to_be_bytes 4 v) buf"

definition read_u64_unsafe :: "bytes \<Rightarrow> nat \<Rightarrow> u64 option" where
  "read_u64_unsafe buf p = native_read 8 buf p"

definition write_u64_unsafe :: "bytes \<Rightarrow> nat \<Rightarrow> u64 \<Rightarrow> bytes option" where
  "write_u64_unsafe buf p v = copy_at p (to_le_bytes 8 v) buf"

section \<open>Reads after writes\<close>

lemma native_read_copy_at:
  assumes "copy_at p (to_le_bytes n w) buf = Some buf'" and "LENGTH('a) \<le> 8 * n"
  shows "native_read n buf' p = Some (w :: 'a::len word)"
  using slice_at_copy_at [OF assms(1)] assms(2)
  by (simp add: native_read_def from_le_to_le_bytes_full)

lemma native_read_frame:
  assumes "copy_at p src buf = Some buf'" and "q + n \<le> p \<or> p + length src \<le> q"
  shows "native_read n buf' q = native_read n buf q"
  using assms(2) slice_at_copy_at_before [OF assms(1)] slice_at_copy_at_after [OF assms(1)]
  by (auto simp: native_read_def)

lemma swap_bytes_from_le:
  "length bs = n \<Longrightarrow> 8 * n = LENGTH('a) \<Longrightarrow>
   swap_bytes n (from_le_bytes bs) = (from_be_bytes bs :: 'a::len word)"
  by (simp add: swap_bytes_def from_be_bytes_def to_le_from_le_bytes_full)

lemma read_u32_be_eq:
  "read_u32_be_unsafe buf p = map_option from_be_bytes (slice_at p 4 buf)"
  by (auto simp: read_u32_be_unsafe_def native_read_def slice_at_def swap_bytes_from_le)

text \<open>
  Also:  Each accessor pair is a round trip: a successful write of a value at an offset is
  read back unchanged by the matching read, for the little-endian 16-, 32- and 64-bit pairs
  and for the big-endian 32-bit pair.
\<close>

theorem raw_int_roundtrip:
  "(write_u16_le_unsafe buf p v16 = Some b1 \<longrightarrow> read_u16_le_unsafe b1 p = Some v16) \<and>
   (write_u32_le_unsafe buf p v32 = Some b2 \<longrightarrow> read_u32_le_unsafe b2 p = Some v32) \<and>
   (write_u32_be_unsafe buf p v32 = Some b3 \<longrightarrow> read_u32_be_unsafe b3 p = Some v32) \<and>
   (write_u64_unsafe buf p v64 = Some b4 \<longrightarrow> read_u64_unsafe b4 p = Some v64)"
proof (intro conjI impI)
  assume "write_u16_le_unsafe buf p v16 = Some b1"
  then show "read_u16_le_unsafe b1 p = Some v16"
    by (simp add: write_u16_le_unsafe_def read_u16_le_unsafe_def native_read_copy_at)
next
  assume "write_u32_le_unsafe buf p v32 = Some b2"
  then show "read_u32_le_unsafe b2 p = Some v32"
    by (simp add: write_u32_le_unsafe_def read_u32_le_unsafe_def native_read_copy_at)
next
  assume "write_u32_be_unsafe buf p v32 = Some b3"
  then show "read_u32_be_unsafe b3 p = Some v32"
    using slice_at_copy_at [of p "to_be_bytes 4 v32" buf b3]
    by (simp add: write_u32_be_unsafe_def read_u32_be_eq from_be_to_be_bytes_full)
next
  assume "write_u64_unsafe buf p v64 = Some b4"
  then show "read_u64_unsafe b4 p = Some v64"
    by (simp add: write_u64_unsafe_def read_u64_unsafe_def native_read_copy_at)
qed

theorem raw_int_roundtrip_witness:
  "write_u32_be_unsafe [0, 0, 0, 0, 0] 1 0x01020304 = Some [0, 1, 2, 3, 4] \<and>
   read_u32_be_unsafe [0, 1, 2, 3, 4] 1 = Some 0x01020304"
proof -
  have w: "write_u32_be_unsafe [0, 0, 0, 0, 0] 1 0x01020304 = Some [0, 1, 2, 3, 4]"
    by code_simp
  then show ?thesis using raw_int_roundtrip by blast
qed

end
