(* ===== verification/Wal_Sync.thy ===== *)
theory Wal_Sync
  imports Ord_Prelude
begin

text \<open>
  The per-batch WAL completion signal of \<open>crates/engine/src/wal/mod.rs\<close>.  The first part
  is the state byte with its conversions and the operations \<open>state\<close>, \<open>prime\<close>,
  \<open>signal\<close> and \<open>to_result\<close>.  The second part is the protocol between threads: one
  rule of \<open>sync_step\<close> per atomic access, mutex operation or condition-variable operation
  of \<open>wait\<close>, \<open>signal\<close> and \<open>prime\<close>, with spurious wake-ups.
\<close>

section \<open>The state byte\<close>

datatype wal_sync_state = WS_Init | WS_Primed | WS_SyncDone | WS_IoError | WS_WalError

primrec wal_sync_u8 :: "wal_sync_state \<Rightarrow> byte" where
  "wal_sync_u8 WS_Init = 0"
| "wal_sync_u8 WS_Primed = 1"
| "wal_sync_u8 WS_SyncDone = 2"
| "wal_sync_u8 WS_IoError = 3"
| "wal_sync_u8 WS_WalError = 4"

definition wal_sync_from_u8 :: "byte \<Rightarrow> wal_sync_state option" where
  "wal_sync_from_u8 value =
     (if value = 0 then Some WS_Init
      else if value = 1 then Some WS_Primed
      else if value = 2 then Some WS_SyncDone
      else if value = 3 then Some WS_IoError
      else if value = 4 then Some WS_WalError
      else None)"

primrec wal_sync_display :: "wal_sync_state \<Rightarrow> string" where
  "wal_sync_display WS_Init = ''Init''"
| "wal_sync_display WS_Primed = ''Primed''"
| "wal_sync_display WS_SyncDone = ''SyncDone''"
| "wal_sync_display WS_IoError = ''IoError''"
| "wal_sync_display WS_WalError = ''WalError''"

section \<open>The waiter\<close>

text \<open>The outcome of a wait: \<open>Ok(())\<close> or the error state.\<close>

type_synonym wait_result = "wal_sync_state + unit"

record sync_log_waiter =
  sw_state :: byte

definition sync_waiter_default :: sync_log_waiter where
  "sync_waiter_default = \<lparr>sw_state = wal_sync_u8 WS_Init\<rparr>"

definition is_terminal :: "wal_sync_state \<Rightarrow> bool" where
  "is_terminal s \<longleftrightarrow> s = WS_SyncDone \<or> s = WS_IoError \<or> s = WS_WalError"

primrec to_result :: "wal_sync_state \<Rightarrow> wait_result option" where
  "to_result WS_Init = None"
| "to_result WS_Primed = None"
| "to_result WS_SyncDone = Some (Inr ())"
| "to_result WS_IoError = Some (Inl WS_IoError)"
| "to_result WS_WalError = Some (Inl WS_WalError)"

definition sync_waiter_state :: "sync_log_waiter \<Rightarrow> wal_sync_state option" where
  "sync_waiter_state w = wal_sync_from_u8 (sw_state w)"

definition sync_waiter_prime :: "sync_log_waiter \<Rightarrow> sync_log_waiter option" where
  "sync_waiter_prime w =
     do {
       state \<leftarrow> wal_sync_from_u8 (sw_state w);
       if state = WS_Primed then Some w
       else do {
         assert_that (state = WS_Init);
         Some (w\<lparr>sw_state := wal_sync_u8 WS_Primed\<rparr>)
       }
     }"

definition sync_waiter_signal :: "wal_sync_state \<Rightarrow> sync_log_waiter \<Rightarrow> sync_log_waiter option" where
  "sync_waiter_signal state w =
     do {
       assert_that (state \<noteq> WS_Primed);
       Some (w\<lparr>sw_state := wal_sync_u8 state\<rparr>)
     }"

section \<open>The protocol between threads\<close>

text \<open>
  Program counters.  \<open>WSpin n\<close> is the fast path after \<open>n\<close> loads, \<open>WLock\<close> before the
  mutex, \<open>WCheck\<close> the test of the while loop under the mutex, \<open>WSleep\<close> inside
  \<open>cv.wait\<close>, \<open>WWake\<close> notified and waiting for the mutex, \<open>WRead\<close> after the loop;
  \<open>SLock\<close>, \<open>SStore\<close> and \<open>SNotify\<close> are the three points of \<open>signal\<close>;
  \<open>PLoad\<close>, \<open>PLock\<close> and \<open>PStore\<close> those of \<open>prime\<close>; \<open>Crashed\<close> is a panic.
\<close>

datatype sync_pc =
    Quiet
  | WSpin nat | WLock | WCheck | WSleep | WWake | WRead | WDone wait_result
  | SLock wal_sync_state | SStore wal_sync_state | SNotify
  | PLoad | PLock | PStore
  | Crashed

record sync_sys =
  ss_state :: wal_sync_state
  ss_mu :: "nat option"
  ss_pc :: "nat \<Rightarrow> sync_pc"

definition goto :: "nat \<Rightarrow> sync_pc \<Rightarrow> sync_sys \<Rightarrow> sync_sys" where
  "goto i p s = s\<lparr>ss_pc := (ss_pc s)(i := p)\<rparr>"

definition SPIN_LIMIT :: nat where
  "SPIN_LIMIT = 200"

definition notify_all :: "(nat \<Rightarrow> sync_pc) \<Rightarrow> (nat \<Rightarrow> sync_pc)" where
  "notify_all pc j = (if pc j = WSleep then WWake else pc j)"

inductive sync_step :: "nat \<Rightarrow> sync_sys \<Rightarrow> sync_sys \<Rightarrow> bool" where
  spin_primed: "ss_pc s i = WSpin n \<Longrightarrow> n < SPIN_LIMIT \<Longrightarrow> ss_state s = WS_Primed \<Longrightarrow>
     sync_step i s (goto i (WSpin (Suc n)) s)"
| spin_done: "ss_pc s i = WSpin n \<Longrightarrow> n < SPIN_LIMIT \<Longrightarrow> to_result (ss_state s) = Some r \<Longrightarrow>
     sync_step i s (goto i (WDone r) s)"
| spin_crash: "ss_pc s i = WSpin n \<Longrightarrow> n < SPIN_LIMIT \<Longrightarrow> ss_state s \<noteq> WS_Primed \<Longrightarrow>
     to_result (ss_state s) = None \<Longrightarrow> sync_step i s (goto i Crashed s)"
| spin_end: "ss_pc s i = WSpin n \<Longrightarrow> SPIN_LIMIT \<le> n \<Longrightarrow> sync_step i s (goto i WLock s)"
| wait_lock: "ss_pc s i = WLock \<or> ss_pc s i = WWake \<Longrightarrow> ss_mu s = None \<Longrightarrow>
     sync_step i s (goto i WCheck (s\<lparr>ss_mu := Some i\<rparr>))"
| wait_sleep: "ss_pc s i = WCheck \<Longrightarrow> ss_state s = WS_Primed \<Longrightarrow>
     sync_step i s (goto i WSleep (s\<lparr>ss_mu := None\<rparr>))"
| wait_exit: "ss_pc s i = WCheck \<Longrightarrow> ss_state s \<noteq> WS_Primed \<Longrightarrow> sync_step i s (goto i WRead s)"
| wait_read: "ss_pc s i = WRead \<Longrightarrow>
     r = (case to_result (ss_state s) of Some r \<Rightarrow> r | None \<Rightarrow> Inl WS_WalError) \<Longrightarrow>
     sync_step i s (goto i (WDone r) (s\<lparr>ss_mu := None\<rparr>))"
| spurious: "ss_pc s i = WSleep \<Longrightarrow> sync_step i s (goto i WWake s)"
| signal_crash: "ss_pc s i = SLock WS_Primed \<Longrightarrow> sync_step i s (goto i Crashed s)"
| signal_lock: "ss_pc s i = SLock v \<Longrightarrow> v \<noteq> WS_Primed \<Longrightarrow> ss_mu s = None \<Longrightarrow>
     sync_step i s (goto i (SStore v) (s\<lparr>ss_mu := Some i\<rparr>))"
| signal_store: "ss_pc s i = SStore v \<Longrightarrow> sync_step i s (goto i SNotify (s\<lparr>ss_state := v\<rparr>))"
| signal_notify: "ss_pc s i = SNotify \<Longrightarrow>
     sync_step i s (goto i Quiet (s\<lparr>ss_pc := notify_all (ss_pc s), ss_mu := None\<rparr>))"
| prime_again: "ss_pc s i = PLoad \<Longrightarrow> ss_state s = WS_Primed \<Longrightarrow> sync_step i s (goto i Quiet s)"
| prime_init: "ss_pc s i = PLoad \<Longrightarrow> ss_state s = WS_Init \<Longrightarrow> sync_step i s (goto i PLock s)"
| prime_crash: "ss_pc s i = PLoad \<Longrightarrow> is_terminal (ss_state s) \<Longrightarrow> sync_step i s (goto i Crashed s)"
| prime_lock: "ss_pc s i = PLock \<Longrightarrow> ss_mu s = None \<Longrightarrow>
     sync_step i s (goto i PStore (s\<lparr>ss_mu := Some i\<rparr>))"
| prime_store: "ss_pc s i = PStore \<Longrightarrow>
     sync_step i s (goto i Quiet (s\<lparr>ss_state := WS_Primed, ss_mu := None\<rparr>))"

text \<open>A run from a given state.\<close>

inductive sync_run :: "sync_sys \<Rightarrow> sync_sys \<Rightarrow> bool" for s0 where
  run_refl: "sync_run s0 s0"
| run_step: "sync_run s0 s \<Longrightarrow> sync_step i s t \<Longrightarrow> sync_run s0 t"

text \<open>A primed waiter: the mutex is free, some threads are about to wait, and the WAL worker
  may be about to signal \<open>v\<close>.\<close>

definition primed_start :: "wal_sync_state \<Rightarrow> sync_sys \<Rightarrow> bool" where
  "primed_start v s \<longleftrightarrow> ss_state s = WS_Primed \<and> ss_mu s = None
     \<and> (\<forall>i. ss_pc s i \<in> {Quiet, WSpin 0, SLock v})"

definition holds_mutex :: "sync_pc \<Rightarrow> bool" where
  "holds_mutex p \<longleftrightarrow> (case p of WCheck \<Rightarrow> True | WRead \<Rightarrow> True | SStore _ \<Rightarrow> True
     | SNotify \<Rightarrow> True | PStore \<Rightarrow> True | _ \<Rightarrow> False)"

definition sync_finished :: "sync_pc \<Rightarrow> bool" where
  "sync_finished p \<longleftrightarrow> (case p of Quiet \<Rightarrow> True | WDone _ \<Rightarrow> True | _ \<Rightarrow> False)"

section \<open>Lemmas on the operations\<close>

lemma wal_sync_from_u8_u8 [simp]: "wal_sync_from_u8 (wal_sync_u8 s) = Some s"
  by (cases s) (simp_all add: wal_sync_from_u8_def)

lemma to_result_None_iff: "to_result s = None \<longleftrightarrow> s = WS_Init \<or> s = WS_Primed"
  by (cases s) simp_all

lemma to_result_terminal: "(\<exists>r. to_result s = Some r) \<longleftrightarrow> is_terminal s"
  by (cases s) (simp_all add: is_terminal_def)

lemma is_terminal_not_Primed [simp]: "\<not> is_terminal WS_Primed"
  by (simp add: is_terminal_def)

section \<open>Invariants of the protocol\<close>

text \<open>The mutex is held exactly by the thread at a point inside a critical section.\<close>

definition mutex_inv :: "sync_sys \<Rightarrow> bool" where
  "mutex_inv s \<longleftrightarrow> (\<forall>i. holds_mutex (ss_pc s i) \<longleftrightarrow> ss_mu s = Some i)"

text \<open>No wake-up is lost: a sleeper's condition still holds, or a notification is coming.\<close>

definition sleep_inv :: "sync_sys \<Rightarrow> bool" where
  "sleep_inv s \<longleftrightarrow>
     (\<forall>i. ss_pc s i = WSleep \<longrightarrow> ss_state s = WS_Primed \<or> (\<exists>j. ss_pc s j = SNotify))"

text \<open>Only \<open>v\<close> is ever signalled, and every outcome is that of \<open>v\<close>: what each program
  point knows of the shared state.\<close>

primrec knows :: "wal_sync_state \<Rightarrow> wal_sync_state \<Rightarrow> sync_pc \<Rightarrow> bool" where
  "knows v st Quiet = True"
| "knows v st (WSpin n) = True"
| "knows v st WLock = True"
| "knows v st WCheck = True"
| "knows v st WSleep = True"
| "knows v st WWake = True"
| "knows v st WRead = (st = v)"
| "knows v st (WDone r) = (to_result v = Some r \<and> st = v)"
| "knows v st (SLock w) = (w = v)"
| "knows v st (SStore w) = (w = v)"
| "knows v st SNotify = (st = v)"
| "knows v st PLoad = False"
| "knows v st PLock = False"
| "knows v st PStore = False"
| "knows v st Crashed = False"

definition outcome_inv :: "wal_sync_state \<Rightarrow> sync_sys \<Rightarrow> bool" where
  "outcome_inv v s \<longleftrightarrow> ss_state s \<in> {WS_Primed, v} \<and> (\<forall>i. knows v (ss_state s) (ss_pc s i))"

lemma goto_simps [simp]:
  "ss_pc (goto i p s) = (ss_pc s)(i := p)" "ss_state (goto i p s) = ss_state s"
  "ss_mu (goto i p s) = ss_mu s"
  by (simp_all add: goto_def)

lemma holds_mutex_simps [simp]:
  "\<not> holds_mutex Quiet" "\<not> holds_mutex (WSpin n)" "\<not> holds_mutex WLock" "holds_mutex WCheck"
  "\<not> holds_mutex WSleep" "\<not> holds_mutex WWake" "holds_mutex WRead" "\<not> holds_mutex (WDone r)"
  "\<not> holds_mutex (SLock v)" "holds_mutex (SStore v)" "holds_mutex SNotify"
  "\<not> holds_mutex PLoad" "\<not> holds_mutex PLock" "holds_mutex PStore" "\<not> holds_mutex Crashed"
  by (simp_all add: holds_mutex_def)

lemma holds_mutex_notify [simp]: "holds_mutex (notify_all pc j) = holds_mutex (pc j)"
  by (simp add: notify_all_def)

lemma knows_notify [simp]: "knows v st (notify_all pc j) = knows v st (pc j)"
  by (simp add: notify_all_def)

lemma notify_all_sleep [simp]: "notify_all pc j \<noteq> WSleep"
  by (simp add: notify_all_def)

text \<open>How a step of thread \<open>i\<close> to a new program point keeps the mutex invariant: the thread
  stays on its side of the critical section, enters it, or leaves it.\<close>

lemma mutex_inv_stay:
  "mutex_inv s \<Longrightarrow> holds_mutex p = holds_mutex (ss_pc s i) \<Longrightarrow> mutex_inv (goto i p s)"
  by (simp add: mutex_inv_def)

lemma mutex_inv_state [simp]: "mutex_inv (s\<lparr>ss_state := v\<rparr>) = mutex_inv s"
  by (simp add: mutex_inv_def)

lemma mutex_inv_lock:
  assumes "mutex_inv s" and "ss_mu s = None" and "ss_mu t = Some i"
    and "ss_pc t = (ss_pc s)(i := p)" and "holds_mutex p"
  shows "mutex_inv t"
  using assms by (simp add: mutex_inv_def)

lemma mutex_inv_unlock:
  assumes "mutex_inv s" and "holds_mutex (ss_pc s i)" and "ss_mu t = None"
    and "\<forall>j. j \<noteq> i \<longrightarrow> holds_mutex (ss_pc t j) = holds_mutex (ss_pc s j)"
    and "\<not> holds_mutex (ss_pc t i)"
  shows "mutex_inv t"
proof -
  have "ss_mu s = Some i"
    using assms(1,2) by (simp add: mutex_inv_def)
  then have "\<not> holds_mutex (ss_pc s j)" if "j \<noteq> i" for j
    using assms(1) that by (auto simp: mutex_inv_def)
  then have "\<not> holds_mutex (ss_pc t j)" for j
    using assms(4,5) by (cases "j = i") auto
  then show ?thesis
    using assms(3) by (simp add: mutex_inv_def)
qed

lemma sync_step_mutex_inv:
  assumes "sync_step i s t" and "mutex_inv s"
  shows "mutex_inv t"
  using assms
proof (cases rule: sync_step.cases)
  case (wait_sleep)
  then show ?thesis using assms(2) by - (rule mutex_inv_unlock [of s i], simp_all)
next
  case (wait_read r)
  then show ?thesis using assms(2) by - (rule mutex_inv_unlock [of s i], simp_all)
next
  case (signal_notify)
  then show ?thesis using assms(2) by - (rule mutex_inv_unlock [of s i], simp_all)
next
  case (prime_store)
  then show ?thesis using assms(2) by - (rule mutex_inv_unlock [of s i], simp_all)
next
  case (wait_lock)
  then show ?thesis using assms(2) by - (rule mutex_inv_lock [of s t i WCheck], simp_all)
next
  case (signal_lock v)
  then show ?thesis using assms(2) by - (rule mutex_inv_lock [of s t i "SStore v"], simp_all)
next
  case (prime_lock)
  then show ?thesis using assms(2) by - (rule mutex_inv_lock [of s t i PStore], simp_all)
qed (use assms(2) in \<open>auto intro: mutex_inv_stay\<close>)

lemma mutex_inv_unique:
  "mutex_inv s \<Longrightarrow> holds_mutex (ss_pc s i) \<Longrightarrow> holds_mutex (ss_pc s j) \<Longrightarrow> i = j"
  unfolding mutex_inv_def by (metis option.inject)

lemma sleep_inv_stay:
  assumes "sleep_inv s" and "ss_pc s i \<noteq> SNotify" and "p = WSleep \<longrightarrow> ss_state s = WS_Primed"
  shows "sleep_inv (goto i p s)"
  using assms unfolding sleep_inv_def goto_simps by (metis fun_upd_apply)

lemma sleep_inv_mu [simp]: "sleep_inv (s\<lparr>ss_mu := m\<rparr>) = sleep_inv s"
  by (simp add: sleep_inv_def)

lemma sync_step_sleep_inv:
  assumes "sync_step i s t" and "sleep_inv s"
  shows "sleep_inv t"
  using assms
proof (cases rule: sync_step.cases)
  case (signal_store v)
  then have "ss_pc t i = SNotify" by simp
  then show ?thesis unfolding sleep_inv_def by blast
next
  case (signal_notify)
  then show ?thesis by (simp add: sleep_inv_def)
next
  case (prime_store)
  then show ?thesis by (simp add: sleep_inv_def)
qed (use assms(2) in \<open>auto intro: sleep_inv_stay\<close>)

lemma outcome_inv_stay:
  "outcome_inv v s \<Longrightarrow> knows v (ss_state s) p \<Longrightarrow> outcome_inv v (goto i p s)"
  by (simp add: outcome_inv_def)

lemma outcome_inv_mu [simp]: "outcome_inv v (s\<lparr>ss_mu := m\<rparr>) = outcome_inv v s"
  by (simp add: outcome_inv_def)

lemma knows_store: "is_terminal v \<Longrightarrow> st \<in> {WS_Primed, v} \<Longrightarrow> knows v st p \<Longrightarrow> knows v v p"
  by (cases p) auto

lemma outcome_inv_knows: "outcome_inv v s \<Longrightarrow> knows v (ss_state s) (ss_pc s i)"
  by (simp add: outcome_inv_def)

lemma sync_step_outcome_inv:
  assumes "is_terminal v" and "sync_step i s t" and "outcome_inv v s"
  shows "outcome_inv v t"
proof -
  note k = outcome_inv_knows [OF assms(3), of i]
  have st: "ss_state s = WS_Primed \<or> ss_state s = v"
    using assms(3) by (simp add: outcome_inv_def)
  obtain r where r: "to_result v = Some r"
    using assms(1) to_result_terminal by blast
  show ?thesis
    using assms(2)
  proof (cases rule: sync_step.cases)
    case (signal_store w)
    then show ?thesis
      using k assms(3) knows_store [OF assms(1)] by (auto simp: outcome_inv_def)
  next
    case (signal_notify)
    then show ?thesis
      using assms(3) by (simp add: outcome_inv_def)
  next
    case (wait_exit)
    then show ?thesis
      using st assms(3) by (auto intro: outcome_inv_stay)
  next
    case (wait_read q)
    then show ?thesis
      using k r assms(3) by (auto intro: outcome_inv_stay)
  next
    case (spin_done n q)
    then show ?thesis
      using st r assms(3) by (auto intro: outcome_inv_stay)
  next
    case (spin_crash n)
    then show ?thesis
      using st r by auto
  next
    case (signal_crash)
    then show ?thesis
      using k assms(1) by auto
  next
    case (signal_lock w)
    then show ?thesis
      using k assms(3) by (auto intro: outcome_inv_stay)
  qed (use k assms(3) in \<open>auto intro: outcome_inv_stay\<close>)
qed

lemma sync_run_invs:
  assumes "sync_run s0 s" and "primed_start v s0" and "is_terminal v"
  shows "mutex_inv s \<and> sleep_inv s \<and> outcome_inv v s"
  using assms(1)
proof induction
  case run_refl
  have "knows v WS_Primed (ss_pc s0 i) \<and> \<not> holds_mutex (ss_pc s0 i) \<and> ss_pc s0 i \<noteq> WSleep" for i
  proof -
    have "ss_pc s0 i \<in> {Quiet, WSpin 0, SLock v}"
      using assms(2) by (simp add: primed_start_def)
    then show ?thesis by auto
  qed
  then show ?case
    using assms(2) by (simp add: primed_start_def mutex_inv_def sleep_inv_def outcome_inv_def)
next
  case (run_step s i t)
  then show ?case
    using sync_step_mutex_inv sync_step_sleep_inv sync_step_outcome_inv [OF assms(3)] by blast
qed

section \<open>Safety, progress and the waiter's contract\<close>

text \<open>A thread that is inside \<open>wait\<close>, or has returned from it.\<close>

primrec in_wait :: "sync_pc \<Rightarrow> bool" where
  "in_wait Quiet = False"
| "in_wait (WSpin n) = True"
| "in_wait WLock = True"
| "in_wait WCheck = True"
| "in_wait WSleep = True"
| "in_wait WWake = True"
| "in_wait WRead = True"
| "in_wait (WDone r) = False"
| "in_wait (SLock v) = False"
| "in_wait (SStore v) = False"
| "in_wait SNotify = False"
| "in_wait PLoad = False"
| "in_wait PLock = False"
| "in_wait PStore = False"
| "in_wait Crashed = False"

text \<open>A run in which no thread wakes up spuriously: the only step of a sleeping thread is the
  spurious wake-up.\<close>

inductive awake_run :: "sync_sys \<Rightarrow> sync_sys \<Rightarrow> bool" for s0 where
  awake_refl: "awake_run s0 s0"
| awake_step: "awake_run s0 s \<Longrightarrow> sync_step i s t \<Longrightarrow> ss_pc s i \<noteq> WSleep \<Longrightarrow> awake_run s0 t"

lemma awake_run_trans: "awake_run a b \<Longrightarrow> awake_run b c \<Longrightarrow> awake_run a c"
  by (rotate_tac, induction rule: awake_run.induct) (auto intro: awake_step)

lemma awake_run_one: "sync_step i s t \<Longrightarrow> ss_pc s i \<noteq> WSleep \<Longrightarrow> awake_run s t"
  by (blast intro: awake_run.intros)

text \<open>What holds of a waiting thread once the worker has stored \<open>v\<close>.\<close>

definition signalled :: "wal_sync_state \<Rightarrow> nat \<Rightarrow> sync_sys \<Rightarrow> bool" where
  "signalled v i s \<longleftrightarrow> mutex_inv s \<and> sleep_inv s \<and> outcome_inv v s \<and> ss_state s = v
     \<and> (in_wait (ss_pc s i) \<or> (\<exists>r. ss_pc s i = WDone r))"

lemma sync_step_state_kept:
  assumes "sync_step j s t" and "outcome_inv v s" and "ss_state s = v"
  shows "ss_state t = v"
  using assms(1)
proof (cases rule: sync_step.cases)
  case (signal_store w)
  then show ?thesis using outcome_inv_knows [OF assms(2), of j] by simp
next
  case (prime_store)
  then show ?thesis using outcome_inv_knows [OF assms(2), of j] by simp
qed (use assms(3) in simp_all)

lemma in_wait_notify: "in_wait (notify_all pc j) = in_wait (pc j)"
  by (simp add: notify_all_def)

lemma notify_WDone: "notify_all pc j = WDone r \<longleftrightarrow> pc j = WDone r"
  by (simp add: notify_all_def)

definition waits :: "sync_pc \<Rightarrow> bool" where
  "waits p \<longleftrightarrow> in_wait p \<or> (\<exists>r. p = WDone r)"

lemma sync_step_waits:
  assumes "sync_step j s t" and "waits (ss_pc s i)" and "ss_pc t j \<noteq> Crashed"
  shows "waits (ss_pc t i)"
  using assms
  by (cases rule: sync_step.cases)
    (auto simp: waits_def in_wait_notify notify_WDone split: if_splits)

lemma signalled_step:
  assumes "is_terminal v" and "sync_step j s t" and "signalled v i s"
  shows "signalled v i t"
proof -
  have inv: "mutex_inv t" "sleep_inv t" "outcome_inv v t" "ss_state t = v"
    using assms sync_step_mutex_inv sync_step_sleep_inv sync_step_outcome_inv sync_step_state_kept
    unfolding signalled_def by blast+
  then have "ss_pc t j \<noteq> Crashed"
    using outcome_inv_knows [of v t j] by auto
  then show ?thesis
    using inv assms(2,3) sync_step_waits unfolding signalled_def waits_def by blast
qed

lemma signalled_awake_run:
  "awake_run s t \<Longrightarrow> is_terminal v \<Longrightarrow> signalled v i s \<Longrightarrow> signalled v i t"
  by (induction rule: awake_run.induct) (auto intro: signalled_step)

text \<open>The holder of the mutex reaches the end of its critical section.\<close>

lemma awake_wait_read:
  assumes "ss_pc s j = WRead"
  obtains t r where "awake_run s t" and "ss_mu t = None" and "ss_pc t j = WDone r"
proof
  let ?r = "case to_result (ss_state s) of Some r \<Rightarrow> r | None \<Rightarrow> Inl WS_WalError"
  show "awake_run s (goto j (WDone ?r) (s\<lparr>ss_mu := None\<rparr>))"
    using assms by (intro awake_run_one [OF wait_read]) auto
qed simp_all

lemma awake_wait_check:
  assumes "ss_pc s j = WCheck" and "ss_state s \<noteq> WS_Primed"
  obtains t r where "awake_run s t" and "ss_mu t = None" and "ss_pc t j = WDone r"
proof -
  have "awake_run s (goto j WRead s)"
    using assms by (intro awake_run_one [OF wait_exit]) auto
  moreover obtain t r where "awake_run (goto j WRead s) t" "ss_mu t = None" "ss_pc t j = WDone r"
    by (rule awake_wait_read [of "goto j WRead s" j]) simp_all
  ultimately show thesis
    using that awake_run_trans by blast
qed

lemma awake_notify:
  assumes "ss_pc s j = SNotify"
  obtains t where "awake_run s t" and "ss_mu t = None"
proof
  show "awake_run s (goto j Quiet (s\<lparr>ss_pc := notify_all (ss_pc s), ss_mu := None\<rparr>))"
    using assms by (intro awake_run_one [OF signal_notify]) auto
qed simp

lemma awake_release:
  assumes "mutex_inv s" and "outcome_inv v s" and "ss_state s = v" and "is_terminal v"
  obtains t where "awake_run s t" and "ss_mu t = None"
proof (cases "ss_mu s")
  case None
  then show ?thesis using that awake_refl by blast
next
  case (Some j)
  then have "holds_mutex (ss_pc s j)"
    using assms(1) by (simp add: mutex_inv_def)
  moreover have "knows v v (ss_pc s j)"
    using outcome_inv_knows [OF assms(2)] assms(3) by blast
  ultimately consider "ss_pc s j = WCheck" | "ss_pc s j = WRead" | "ss_pc s j = SStore v"
    | "ss_pc s j = SNotify"
    by (cases "ss_pc s j") simp_all
  then show ?thesis
  proof cases
    case 1
    then show ?thesis using awake_wait_check assms(3,4) that is_terminal_not_Primed by metis
  next
    case 2
    then show ?thesis using awake_wait_read that by metis
  next
    case 3
    then have "awake_run s (goto j SNotify (s\<lparr>ss_state := v\<rparr>))"
      by (intro awake_run_one [OF signal_store]) auto
    moreover obtain t where "awake_run (goto j SNotify (s\<lparr>ss_state := v\<rparr>)) t" "ss_mu t = None"
      by (rule awake_notify [of "goto j SNotify (s\<lparr>ss_state := v\<rparr>)" j]) simp_all
    ultimately show ?thesis using that awake_run_trans by blast
  next
    case 4
    then show ?thesis using awake_notify that by metis
  qed
qed

lemma awake_lock_finish:
  assumes "ss_pc s i = WLock \<or> ss_pc s i = WWake" and "ss_mu s = None" and "ss_state s \<noteq> WS_Primed"
  obtains t r where "awake_run s t" and "ss_pc t i = WDone r"
proof -
  let ?u = "goto i WCheck (s\<lparr>ss_mu := Some i\<rparr>)"
  have "awake_run s ?u"
    using assms by (intro awake_run_one [OF wait_lock]) auto
  moreover obtain t r where "awake_run ?u t" "ss_pc t i = WDone r"
    using assms(3) by (auto intro: awake_wait_check [of ?u i])
  ultimately show thesis using that awake_run_trans by blast
qed

lemma awake_finish:
  assumes "signalled v i s" and "ss_mu s = None" and "is_terminal v"
  obtains t r where "awake_run s t" and "ss_pc t i = WDone r"
proof -
  have st: "ss_state s = v" "ss_state s \<noteq> WS_Primed" and free: "\<not> holds_mutex (ss_pc s j)" for j
    using assms by (auto simp: signalled_def mutex_inv_def)
  obtain r where r: "to_result v = Some r"
    using assms(3) to_result_terminal by blast
  have "ss_pc s i \<noteq> WSleep"
    using assms(1) st(2) free holds_mutex_simps(11) unfolding signalled_def sleep_inv_def by metis
  then consider n where "ss_pc s i = WSpin n" | "ss_pc s i = WLock \<or> ss_pc s i = WWake"
    | r' where "ss_pc s i = WDone r'"
    using assms(1) free [of i] by (cases "ss_pc s i") (auto simp: signalled_def)
  then show thesis
  proof cases
    case (1 n)
    show thesis
    proof (cases "n < SPIN_LIMIT")
      case True
      then have "awake_run s (goto i (WDone r) s)"
        using 1 r st by (intro awake_run_one [OF spin_done]) auto
      then show thesis using that by simp
    next
      case False
      then have "awake_run s (goto i WLock s)"
        using 1 by (intro awake_run_one [OF spin_end]) auto
      moreover obtain t q where "awake_run (goto i WLock s) t" "ss_pc t i = WDone q"
        using assms(2) st(2) by (auto intro: awake_lock_finish [of "goto i WLock s" i])
      ultimately show thesis using that awake_run_trans by blast
    qed
  next
    case 2
    then show thesis using awake_lock_finish assms(2) st(2) that by metis
  next
    case 3
    then show thesis using that awake_refl by blast
  qed
qed

section \<open>Properties\<close>

text \<open>A concrete system for the witnesses: two waiters and the WAL worker.\<close>

definition demo_system :: sync_sys where
  "demo_system = \<lparr>ss_state = WS_Primed, ss_mu = None,
     ss_pc = (\<lambda>_. Quiet)(0 := WSpin 0, 1 := WSpin 0, 2 := SLock WS_IoError)\<rparr>"

definition demo_stored :: sync_sys where
  "demo_stored = goto 2 SNotify ((goto 2 (SStore WS_IoError) (demo_system\<lparr>ss_mu := Some 2\<rparr>))
     \<lparr>ss_state := WS_IoError\<rparr>)"

lemma demo_start: "primed_start WS_IoError demo_system"
  by (simp add: primed_start_def demo_system_def)

lemma demo_run: "sync_run demo_system demo_stored"
  unfolding demo_stored_def
  by (rule run_step [OF run_step [OF run_refl signal_lock] signal_store])
    (simp_all add: demo_system_def)

text \<open>
  C21.  Safety of the waiter between threads: when a primed waiter is signalled with a terminal
  state \<open>v\<close>, then whatever the interleaving of waiters and signallers (spurious wake-ups
  included) no thread reaches a panic, at most one thread is in a critical section, and every
  \<open>wait\<close> that has returned has returned exactly the result \<open>to_result\<close> gives for
  \<open>v\<close>.
\<close>

theorem wait_outcome_correct:
  assumes "is_terminal v" and "primed_start v s0" and "sync_run s0 s"
  shows "ss_pc s i \<noteq> Crashed
    \<and> (ss_pc s i = WDone r \<longrightarrow> to_result v = Some r)
    \<and> (holds_mutex (ss_pc s i) \<and> holds_mutex (ss_pc s j) \<longrightarrow> i = j)"
proof -
  have "mutex_inv s" "knows v (ss_state s) (ss_pc s i)"
    using sync_run_invs [OF assms(3,2,1)] by (auto simp: outcome_inv_def)
  then show ?thesis
    using mutex_inv_unique [of s i j] by auto
qed

theorem wait_outcome_correct_witness:
  "\<exists>r. sync_run demo_system (goto 0 (WDone r) demo_stored)
    \<and> ss_pc (goto 0 (WDone r) demo_stored) 0 \<noteq> Crashed \<and> to_result WS_IoError = Some r"
proof -
  obtain r where r: "to_result WS_IoError = Some r" by simp
  then have run: "sync_run demo_system (goto 0 (WDone r) demo_stored)"
    by - (rule run_step [OF demo_run], rule spin_done [of _ _ 0],
      simp_all add: demo_stored_def demo_system_def SPIN_LIMIT_def)
  then show ?thesis
    using wait_outcome_correct [OF _ demo_start run, of 0 r 0] by (auto simp: is_terminal_def)
qed

text \<open>
  C22.  No lost wake-up: as soon as the worker has stored a terminal state, a thread still asleep in
  the condition variable has a notification coming from a thread inside \<open>signal\<close>, and
  every thread inside \<open>wait\<close> can run to its return with the result of \<open>v\<close> without any
  spurious wake-up and without a further \<open>signal\<close> being started.
\<close>

theorem wait_no_lost_wakeup:
  assumes "is_terminal v" and "primed_start v s0" and "sync_run s0 s" and "ss_state s \<noteq> WS_Primed"
    and "in_wait (ss_pc s i)"
  shows "(ss_pc s i = WSleep \<longrightarrow> (\<exists>j. ss_pc s j = SNotify))
    \<and> (\<exists>t r. awake_run s t \<and> ss_pc t i = WDone r \<and> to_result v = Some r)"
proof -
  have inv: "mutex_inv s" "sleep_inv s" "outcome_inv v s"
    using sync_run_invs [OF assms(3,2,1)] by blast+
  then have st: "ss_state s = v"
    using assms(4) by (simp add: outcome_inv_def)
  then have sig: "signalled v i s"
    using inv assms(5) by (simp add: signalled_def)
  obtain u where u: "awake_run s u" "ss_mu u = None"
    using awake_release inv(1,3) st assms(1) by metis
  then have sigu: "signalled v i u"
    using signalled_awake_run sig assms(1) by blast
  then obtain t r where t: "awake_run u t" "ss_pc t i = WDone r"
    using awake_finish u(2) assms(1) by metis
  then have "outcome_inv v t"
    using signalled_awake_run [OF t(1) assms(1) sigu] by (simp add: signalled_def)
  then have "to_result v = Some r"
    using outcome_inv_knows [of v t i] t(2) by simp
  then show ?thesis
    using awake_run_trans [OF u(1) t(1)] t(2) inv(2) assms(4) by (auto simp: sleep_inv_def)
qed

theorem wait_no_lost_wakeup_witness:
  "\<exists>t r. awake_run demo_stored t \<and> ss_pc t 0 = WDone r \<and> to_result WS_IoError = Some r"
proof -
  have "is_terminal WS_IoError" "ss_state demo_stored \<noteq> WS_Primed" "in_wait (ss_pc demo_stored 0)"
    by (simp_all add: is_terminal_def demo_stored_def demo_system_def)
  then show ?thesis
    using wait_no_lost_wakeup [OF _ demo_start demo_run, of 0] by blast
qed

text \<open>
  Also:  The sequential contract of the waiter: a new waiter is \<open>Init\<close>; \<open>prime\<close> takes
  \<open>Init\<close> or \<open>Primed\<close> to \<open>Primed\<close> and panics exactly on a waiter that already
  reached a terminal state (so a waiter is good for one round only); \<open>signal\<close> panics exactly
  on \<open>Primed\<close> and otherwise makes its argument the state.
\<close>

theorem sync_waiter_contract:
  "sync_waiter_state sync_waiter_default = Some WS_Init
   \<and> (sw_state w = wal_sync_u8 st \<longrightarrow>
        (sync_waiter_prime w = None \<longleftrightarrow> is_terminal st)
      \<and> (\<forall>w'. sync_waiter_prime w = Some w' \<longrightarrow> sync_waiter_state w' = Some WS_Primed))
   \<and> (sync_waiter_signal v w = None \<longleftrightarrow> v = WS_Primed)
   \<and> (\<forall>w'. sync_waiter_signal v w = Some w' \<longrightarrow> sync_waiter_state w' = Some v)"
  by (cases st)
    (auto simp: sync_waiter_state_def sync_waiter_default_def sync_waiter_prime_def
      sync_waiter_signal_def is_terminal_def assert_that_def simp flip: wal_sync_u8.simps
      split: if_splits)

theorem sync_waiter_contract_witness:
  "sw_state \<lparr>sw_state = 2\<rparr> = wal_sync_u8 WS_SyncDone \<and> sync_waiter_prime \<lparr>sw_state = 2\<rparr> = None"
  using sync_waiter_contract [of "\<lparr>sw_state = 2\<rparr>" WS_SyncDone WS_Init]
  by (simp add: is_terminal_def)

end
