(* ===== verification/Batch.thy ===== *)
theory Batch
  imports Var_Int Utils_Mod Record_Kinds Wal_Sync Key_Buffers
begin

text \<open>
  The encoded write batch of \<open>crates/engine/src/db/batch.rs\<close>: \<open>BatchInner\<close> with its
  byte buffer, the header of sequence number and count, the record encoder behind
  \<open>put\<close>, deferred operations with their rollback (\<open>DeferredOp\<close>, \<open>put_with\<close>), and
  \<open>clear\<close>; with the error type of \<open>crates/engine/src/error.rs\<close>.  The specification is the
  list of records a buffer encodes.
\<close>

section \<open>Errors and constants\<close>

datatype engine_error =
    Err_Io
  | Err_Shutdown
  | Err_Corruption string
  | Err_ColumnFamilyNotFound u32
  | Err_WalError
  | KeyTooLarge nat nat
  | ValueTooLarge nat nat
  | RecordTooLarge nat nat
  | BatchFull nat nat nat

definition DEFAULT_MAX_WRITE_BATCH_BYTES :: nat where
  "DEFAULT_MAX_WRITE_BATCH_BYTES = 1024 * 1024"

definition MAX_BATCH_SIZE :: nat where
  "MAX_BATCH_SIZE = DEFAULT_MAX_WRITE_BATCH_BYTES"

definition DEFAULT_BATCH_INIT_SIZE :: nat where
  "DEFAULT_BATCH_INIT_SIZE = 1024"

definition DEFAULT_CF_ID :: u64 where
  "DEFAULT_CF_ID = 0"

definition u32_MAX :: nat where
  "u32_MAX = 2 ^ 32 - 1"

section \<open>Runtime state\<close>

datatype batch_runtime_state = BS_Idle | BS_Acquired | BS_InQueue | BS_WaitingSync | BS_Applied

primrec batch_state_u8 :: "batch_runtime_state \<Rightarrow> byte" where
  "batch_state_u8 BS_Idle = 0"
| "batch_state_u8 BS_Acquired = 1"
| "batch_state_u8 BS_InQueue = 2"
| "batch_state_u8 BS_WaitingSync = 3"
| "batch_state_u8 BS_Applied = 4"

primrec batch_state_display :: "batch_runtime_state \<Rightarrow> string" where
  "batch_state_display BS_Idle = ''Idle''"
| "batch_state_display BS_Acquired = ''Acquired''"
| "batch_state_display BS_InQueue = ''InQueue''"
| "batch_state_display BS_WaitingSync = ''WaitingSync''"
| "batch_state_display BS_Applied = ''Applied''"

definition batch_state_from_u8 :: "byte \<Rightarrow> batch_runtime_state option" where
  "batch_state_from_u8 value =
     (if value = 0 then Some BS_Idle
      else if value = 1 then Some BS_Acquired
      else if value = 2 then Some BS_InQueue
      else if value = 3 then Some BS_WaitingSync
      else if value = 4 then Some BS_Applied
      else None)"

definition RESET_SAFE_STATES :: "batch_runtime_state list" where
  "RESET_SAFE_STATES = [BS_Acquired, BS_Applied]"

definition is_reset_safe :: "batch_runtime_state \<Rightarrow> bool" where
  "is_reset_safe s = (s \<in> set RESET_SAFE_STATES)"

section \<open>Batch metadata and the column-family table\<close>

record batch_meta =
  first_seen_cf_id :: u64
  multiple_cf_ids :: bool

definition batch_meta_clear :: "batch_meta \<Rightarrow> batch_meta" where
  "batch_meta_clear m = m\<lparr>first_seen_cf_id := 0, multiple_cf_ids := False\<rparr>"

record cf_table =
  cft_len :: nat
  cft_vec :: "(u64 \<times> nat) list"

definition cf_table_new :: cf_table where
  "cf_table_new = \<lparr>cft_len = 0, cft_vec = []\<rparr>"

definition cf_table_clear :: "cf_table \<Rightarrow> cf_table" where
  "cf_table_clear t = t\<lparr>cft_len := 0, cft_vec := []\<rparr>"

section \<open>BatchInner\<close>

text \<open>
  The buffer \<open>data\<close> is its contents and its capacity.  The waiter is an \<open>Arc\<close>; the
  number of clones handed to the WAL is \<open>bi_waiter_clones\<close>.
\<close>

record batch_inner =
  bi_data :: bytes
  bi_capacity :: nat
  bi_max :: nat
  bi_count :: u32
  bi_state :: byte
  bi_meta :: batch_meta
  bi_cf_table :: cf_table
  bi_waiter :: sync_log_waiter
  bi_waiter_clones :: nat

definition BATCH_COUNT_OFFSET :: nat where
  "BATCH_COUNT_OFFSET = 8"

definition HEADER_SIZE :: nat where
  "HEADER_SIZE = 8 + 4"

text \<open>The capacity after \<open>Vec::reserve\<close> (amortised growth) and \<open>Vec::shrink_to\<close>.\<close>

definition cap_reserve :: "nat \<Rightarrow> nat \<Rightarrow> nat \<Rightarrow> nat" where
  "cap_reserve cap len additional =
     (if len + additional \<le> cap then cap else max 8 (max (2 * cap) (len + additional)))"

definition cap_shrink :: "nat \<Rightarrow> nat \<Rightarrow> nat \<Rightarrow> nat" where
  "cap_shrink cap len n = min cap (max len n)"

definition data_resize :: "nat \<Rightarrow> batch_inner \<Rightarrow> batch_inner" where
  "data_resize n b = b\<lparr>bi_data := vec_resize n 0 (bi_data b),
     bi_capacity := cap_reserve (bi_capacity b) (length (bi_data b)) (n - length (bi_data b))\<rparr>"

definition batch_inner_new :: batch_inner where
  "batch_inner_new =
     data_resize HEADER_SIZE
       \<lparr>bi_data = [], bi_capacity = DEFAULT_BATCH_INIT_SIZE, bi_max = MAX_BATCH_SIZE, bi_count = 0,
        bi_state = batch_state_u8 BS_Acquired,
        bi_meta = \<lparr>first_seen_cf_id = 0, multiple_cf_ids = False\<rparr>,
        bi_cf_table = cf_table_new, bi_waiter = sync_waiter_default, bi_waiter_clones = 0\<rparr>"

definition batch_inner_new_with_capacity :: "nat \<Rightarrow> batch_inner option" where
  "batch_inner_new_with_capacity cap =
     do {
       capacity \<leftarrow> usize_checked_add cap HEADER_SIZE;
       assert_that (capacity \<le> MAX_BATCH_SIZE);
       Some (data_resize HEADER_SIZE
         \<lparr>bi_data = [], bi_capacity = capacity, bi_max = MAX_BATCH_SIZE, bi_count = 0,
          bi_state = batch_state_u8 BS_Acquired,
          bi_meta = \<lparr>first_seen_cf_id = 0, multiple_cf_ids = False\<rparr>,
          bi_cf_table = cf_table_new, bi_waiter = sync_waiter_default, bi_waiter_clones = 0\<rparr>)
     }"

definition init_buffer :: "nat \<Rightarrow> batch_inner \<Rightarrow> batch_inner option" where
  "init_buffer capacity_hint b =
     do {
       assert_that (length (bi_data b) = 0);
       let desired_capacity = HEADER_SIZE + capacity_hint;
       assert_that (desired_capacity \<le> bi_max b);
       let b = b\<lparr>bi_capacity := cap_reserve (bi_capacity b) (length (bi_data b)) desired_capacity\<rparr>;
       Some (data_resize HEADER_SIZE b)
     }"

definition batch_seq_num :: "batch_inner \<Rightarrow> u64 option" where
  "batch_seq_num b =
     do {
       assert_that (length (bi_data b) > BATCH_COUNT_OFFSET);
       read_u64_unsafe (bi_data b) 0
     }"

definition assign_seq_num_once :: "u64 \<Rightarrow> batch_inner \<Rightarrow> batch_inner option" where
  "assign_seq_num_once seq_num b =
     do {
       assert_that (length (bi_data b) > BATCH_COUNT_OFFSET);
       d \<leftarrow> write_u64_unsafe (bi_data b) 0 seq_num;
       Some (b\<lparr>bi_data := d\<rparr>)
     }"

definition batch_set_runtime_state :: "batch_runtime_state \<Rightarrow> batch_inner \<Rightarrow> batch_inner" where
  "batch_set_runtime_state s b = b\<lparr>bi_state := batch_state_u8 s\<rparr>"

definition batch_is_applied :: "batch_inner \<Rightarrow> bool option" where
  "batch_is_applied b = map_option (\<lambda>s. s = BS_Applied) (batch_state_from_u8 (bi_state b))"

definition batch_mark_applied :: "batch_inner \<Rightarrow> batch_inner" where
  "batch_mark_applied b = b\<lparr>bi_state := batch_state_u8 BS_Applied\<rparr>"

definition get_batch_count :: "batch_inner \<Rightarrow> u32" where
  "get_batch_count b = bi_count b"

definition get_batch_size :: "batch_inner \<Rightarrow> nat" where
  "get_batch_size b = length (bi_data b)"

definition shrink_batch_to :: "nat \<Rightarrow> batch_inner \<Rightarrow> batch_inner" where
  "shrink_batch_to new_size b =
     b\<lparr>bi_capacity := cap_shrink (bi_capacity b) (length (bi_data b)) new_size\<rparr>"

definition reserve_operation ::
  "nat \<Rightarrow> batch_inner \<Rightarrow> ((engine_error + nat \<times> nat) \<times> batch_inner) option" where
  "reserve_operation record_size b =
     (case usize_checked_add HEADER_SIZE record_size of
        None \<Rightarrow> Some (Inl (RecordTooLarge usize_MAX (bi_max b)), b)
      | Some empty_batch_size \<Rightarrow>
          if bi_max b < empty_batch_size
          then Some (Inl (RecordTooLarge empty_batch_size (bi_max b)), b)
          else do {
            (current_size, b) \<leftarrow>
              (if bi_data b = [] then map_option (Pair HEADER_SIZE) (init_buffer record_size b)
               else Some (length (bi_data b), b));
            case usize_checked_add current_size record_size of
              None \<Rightarrow> Some (Inl (BatchFull record_size current_size (bi_max b)), b)
            | Some end' \<Rightarrow>
                if bi_max b < end'
                then Some (Inl (BatchFull record_size current_size (bi_max b)), b)
                else let start = length (bi_data b)
                     in Some (Inr (start, end'), data_resize end' b)
          })"

definition send_sync_waiter :: "batch_inner \<Rightarrow> (sync_log_waiter \<times> batch_inner) option" where
  "send_sync_waiter b =
     do {
       assert_that (bi_waiter_clones b = 0);
       Some (bi_waiter b, b\<lparr>bi_waiter_clones := Suc (bi_waiter_clones b)\<rparr>)
     }"

definition prime_sync_waiter :: "batch_inner \<Rightarrow> batch_inner option" where
  "prime_sync_waiter b = map_option (\<lambda>w. b\<lparr>bi_waiter := w\<rparr>) (sync_waiter_prime (bi_waiter b))"

definition batch_sync_waiter_state :: "batch_inner \<Rightarrow> wal_sync_state option" where
  "batch_sync_waiter_state b = sync_waiter_state (bi_waiter b)"

definition adjust_count_in_header :: "u32 \<Rightarrow> batch_inner \<Rightarrow> (u32 \<times> batch_inner) option" where
  "adjust_count_in_header count b =
     do {
       assert_that (HEADER_SIZE \<le> length (bi_data b));
       count_bytes \<leftarrow> slice_at BATCH_COUNT_OFFSET (HEADER_SIZE - BATCH_COUNT_OFFSET) (bi_data b);
       let old = from_le_bytes count_bytes;
       d \<leftarrow> copy_at BATCH_COUNT_OFFSET (to_le_bytes 4 count) (bi_data b);
       Some (old, b\<lparr>bi_data := d\<rparr>)
     }"

definition key_value_record_layout ::
  "nat \<Rightarrow> nat \<Rightarrow> batch_inner \<Rightarrow> (engine_error + var_int \<times> var_int \<times> nat) option" where
  "key_value_record_layout key_len value_len b =
     (if MAX_USER_KEY_BYTES < key_len then Some (Inl (KeyTooLarge key_len MAX_USER_KEY_BYTES))
      else if u32_MAX < key_len then Some (Inl (KeyTooLarge key_len u32_MAX))
      else do {
        key_varint \<leftarrow> varint_new (of_nat key_len);
        if u32_MAX < value_len then Some (Inl (ValueTooLarge value_len u32_MAX))
        else do {
          value_varint \<leftarrow> varint_new (of_nat value_len);
          case do {
              size \<leftarrow> usize_checked_add 1 8;
              size \<leftarrow> usize_checked_add size (varint_size key_varint);
              size \<leftarrow> usize_checked_add size key_len;
              size \<leftarrow> usize_checked_add size (varint_size value_varint);
              usize_checked_add size value_len
            } of
            None \<Rightarrow> Some (Inl (RecordTooLarge usize_MAX (bi_max b)))
          | Some record_size \<Rightarrow> Some (Inr (key_varint, value_varint, record_size))
        }
      })"

definition batch_put ::
  "u64 \<Rightarrow> bytes \<Rightarrow> bytes \<Rightarrow> batch_inner \<Rightarrow> ((engine_error + unit) \<times> batch_inner) option" where
  "batch_put cf_id key value b =
     do {
       let k_len = length key;
       let v_len = length value;
       layout \<leftarrow> key_value_record_layout k_len v_len b;
       case layout of
         Inl e \<Rightarrow> Some (Inl e, b)
       | Inr (key_varint, value_varint, record_size) \<Rightarrow>
           do {
             (reservation, b) \<leftarrow> reserve_operation record_size b;
             case reservation of
               Inl e \<Rightarrow> Some (Inl e, b)
             | Inr (start, end') \<Rightarrow>
                 do {
                   let index = start;
                   d \<leftarrow> set_at index (record_kind_u8 RK_Put) (bi_data b);
                   let index = index + 1;
                   d \<leftarrow> copy_at index (to_le_bytes 8 cf_id) d;
                   let index = index + 8;
                   k_slice \<leftarrow> varint_as_slice key_varint;
                   d \<leftarrow> copy_at index k_slice d;
                   let index = index + varint_size key_varint;
                   d \<leftarrow> copy_at index key d;
                   let index = index + k_len;
                   v_slice \<leftarrow> varint_as_slice value_varint;
                   d \<leftarrow> copy_at index v_slice d;
                   let index = index + varint_size value_varint;
                   d \<leftarrow> copy_at index value d;
                   let index = index + v_len;
                   assert_that (index = end');
                   assert_that (unat (bi_count b) < u32_MAX);
                   let count = bi_count b + 1;
                   (old, b) \<leftarrow> adjust_count_in_header count (b\<lparr>bi_data := d, bi_count := count\<rparr>);
                   Some (Inr (), b)
                 }
           }
     }"

definition batch_clear :: "batch_inner \<Rightarrow> batch_inner option" where
  "batch_clear b =
     do {
       s \<leftarrow> batch_state_from_u8 (bi_state b);
       assert_that (is_reset_safe s);
       Some (b\<lparr>bi_count := 0, bi_data := [], bi_meta := batch_meta_clear (bi_meta b),
               bi_cf_table := cf_table_clear (bi_cf_table b)\<rparr>)
     }"

section \<open>Deferred operations\<close>

text \<open>
  \<open>DeferredOp\<close> borrows the batch: \<open>do_live\<close> says that its \<open>Option\<close> is still
  \<open>Some\<close>, and \<open>do_batch\<close> is the batch itself.
\<close>

record deferred_op =
  do_live :: bool
  do_batch :: batch_inner
  reservation_start :: nat
  reservation_end :: nat
  key_offset :: nat
  key_len :: nat
  value_offset :: nat
  value_len :: nat

definition deferred_new ::
  "batch_inner \<Rightarrow> nat \<Rightarrow> nat \<Rightarrow> nat \<Rightarrow> nat \<Rightarrow> nat \<Rightarrow> nat \<Rightarrow> deferred_op option" where
  "deferred_new b rs re ko kl vo vl =
     do {
       assert_that (rs \<le> re);
       Some \<lparr>do_live = True, do_batch = b, reservation_start = rs, reservation_end = re,
             key_offset = ko, key_len = kl, value_offset = vo, value_len = vl\<rparr>
     }"

text \<open>The mutable views, as what writing \<open>src\<close> into the whole view does: \<open>copy_from_slice\<close>
  panics when the lengths differ.\<close>

definition write_view :: "nat \<Rightarrow> nat \<Rightarrow> bytes \<Rightarrow> bytes \<Rightarrow> bytes option" where
  "write_view off n src buf =
     do {
       view \<leftarrow> slice_at off n buf;
       assert_that (length src = length view);
       copy_at off src buf
     }"

definition key_mut_write :: "bytes \<Rightarrow> deferred_op \<Rightarrow> deferred_op option" where
  "key_mut_write src op =
     do {
       assert_that (do_live op);
       d \<leftarrow> write_view (key_offset op) (key_len op) src (bi_data (do_batch op));
       Some (op\<lparr>do_batch := (do_batch op)\<lparr>bi_data := d\<rparr>\<rparr>)
     }"

definition value_mut_write :: "bytes \<Rightarrow> deferred_op \<Rightarrow> deferred_op option" where
  "value_mut_write src op =
     do {
       assert_that (do_live op);
       d \<leftarrow> write_view (value_offset op) (value_len op) src (bi_data (do_batch op));
       Some (op\<lparr>do_batch := (do_batch op)\<lparr>bi_data := d\<rparr>\<rparr>)
     }"

definition key_value_mut_write :: "bytes \<Rightarrow> bytes \<Rightarrow> deferred_op \<Rightarrow> deferred_op option" where
  "key_value_mut_write ksrc vsrc op =
     do {
       assert_that (do_live op);
       region \<leftarrow> slice_at (key_offset op) (value_offset op + value_len op - key_offset op)
                   (bi_data (do_batch op));
       assert_that (key_len op \<le> length region);
       assert_that (key_offset op + key_len op \<le> value_offset op);
       let value_varint_len = value_offset op - (key_offset op + key_len op);
       assert_that (key_len op + value_varint_len \<le> length region);
       let key = take (key_len op) region;
       let gap = take value_varint_len (drop (key_len op) region);
       let value = drop (key_len op + value_varint_len) region;
       assert_that (value_len op \<le> length value);
       assert_that (length ksrc = length key);
       assert_that (length vsrc = value_len op);
       d \<leftarrow> copy_at (key_offset op) (ksrc @ gap @ vsrc @ drop (value_len op) value)
              (bi_data (do_batch op));
       Some (op\<lparr>do_batch := (do_batch op)\<lparr>bi_data := d\<rparr>\<rparr>)
     }"

definition deferred_finish :: "deferred_op \<Rightarrow> deferred_op" where
  "deferred_finish op = op\<lparr>do_live := False\<rparr>"

definition deferred_rollback :: "deferred_op \<Rightarrow> deferred_op option" where
  "deferred_rollback op =
     do {
       assert_that (do_live op);
       let op = op\<lparr>reservation_end := reservation_start op\<rparr>;
       let op = op\<lparr>do_batch := data_resize (reservation_start op) (do_batch op)\<rparr>;
       assert_that (length (bi_data (do_batch op)) = reservation_start op);
       Some op
     }"

definition deferred_drop :: "deferred_op \<Rightarrow> batch_inner option" where
  "deferred_drop op =
     (if do_live op then map_option do_batch (deferred_rollback op) else Some (do_batch op))"

definition prepare_with_key_value_impl ::
  "u64 \<Rightarrow> nat \<Rightarrow> nat \<Rightarrow> record_kind \<Rightarrow> batch_inner
   \<Rightarrow> ((engine_error + deferred_op) \<times> batch_inner) option" where
  "prepare_with_key_value_impl cf_id k_len v_len kind b =
     do {
       assert_that (bi_state b \<noteq> batch_state_u8 BS_InQueue);
       layout \<leftarrow> key_value_record_layout k_len v_len b;
       case layout of
         Inl e \<Rightarrow> Some (Inl e, b)
       | Inr (key_varint, value_varint, record_size) \<Rightarrow>
           do {
             (reservation, b) \<leftarrow> reserve_operation record_size b;
             case reservation of
               Inl e \<Rightarrow> Some (Inl e, b)
             | Inr (start, end') \<Rightarrow>
                 do {
                   let index = start;
                   d \<leftarrow> set_at index (record_kind_u8 kind) (bi_data b);
                   let index = index + 1;
                   d \<leftarrow> copy_at index (to_le_bytes 8 cf_id) d;
                   let index = index + 8;
                   k_slice \<leftarrow> varint_as_slice key_varint;
                   d \<leftarrow> copy_at index k_slice d;
                   let index = index + varint_size key_varint;
                   let key_offset = index;
                   let index = index + k_len;
                   v_slice \<leftarrow> varint_as_slice value_varint;
                   d \<leftarrow> copy_at index v_slice d;
                   let index = index + varint_size value_varint;
                   let value_offset = index;
                   assert_that (end' = index + v_len);
                   let b = b\<lparr>bi_data := d\<rparr>;
                   op \<leftarrow> deferred_new b start end' key_offset k_len value_offset v_len;
                   Some (Inr op, b)
                 }
           }
     }"

text \<open>What the closure of \<open>put_with\<close> can do to the operation it is handed; a panic inside
  it unwinds with the operation as it is at that point.\<close>

datatype closure_act = WriteKey bytes | WriteValue bytes | WriteKeyValue bytes bytes | CallFinish

fun closure_act_step :: "closure_act \<Rightarrow> deferred_op \<Rightarrow> deferred_op option" where
  "closure_act_step (WriteKey k) op = key_mut_write k op"
| "closure_act_step (WriteValue v) op = value_mut_write v op"
| "closure_act_step (WriteKeyValue k v) op = key_value_mut_write k v op"
| "closure_act_step CallFinish op = Some (deferred_finish op)"

fun run_closure :: "closure_act list \<Rightarrow> deferred_op \<Rightarrow> bool \<times> deferred_op" where
  "run_closure [] op = (True, op)"
| "run_closure (a # as) op =
     (case closure_act_step a op of None \<Rightarrow> (False, op) | Some op' \<Rightarrow> run_closure as op')"

text \<open>\<open>put_with\<close>: the first component is \<open>None\<close> when the closure panicked; the batch is
  the one left behind in every case.\<close>

definition batch_put_with ::
  "u64 \<Rightarrow> nat \<Rightarrow> nat \<Rightarrow> record_kind \<Rightarrow> closure_act list \<Rightarrow> batch_inner
   \<Rightarrow> ((engine_error + unit) option \<times> batch_inner) option" where
  "batch_put_with cf_id k_len v_len kind f b =
     do {
       (prepared, b) \<leftarrow> prepare_with_key_value_impl cf_id k_len v_len kind b;
       case prepared of
         Inl e \<Rightarrow> Some (Some (Inl e), b)
       | Inr op \<Rightarrow>
           (case run_closure f op of
              (True, op') \<Rightarrow>
                map_option (Pair (Some (Inr ()))) (deferred_drop (deferred_finish op'))
            | (False, op') \<Rightarrow> map_option (Pair None) (deferred_drop op'))
     }"

section \<open>The records a buffer encodes\<close>

record kv_record =
  rec_kind :: record_kind
  rec_cf :: u64
  rec_key :: bytes
  rec_value :: bytes

definition record_head :: "record_kind \<Rightarrow> u64 \<Rightarrow> nat \<Rightarrow> bytes" where
  "record_head kind cf kl = record_kind_u8 kind # to_le_bytes 8 cf @ varint_bytes (of_nat kl)"

definition encode_kv :: "kv_record \<Rightarrow> bytes" where
  "encode_kv r = record_head (rec_kind r) (rec_cf r) (length (rec_key r)) @ rec_key r
     @ varint_bytes (of_nat (length (rec_value r))) @ rec_value r"

definition encode_kvs :: "kv_record list \<Rightarrow> bytes" where
  "encode_kvs rs = concat (map encode_kv rs)"

definition kv_ok :: "kv_record \<Rightarrow> bool" where
  "kv_ok r \<longleftrightarrow> length (rec_key r) \<le> MAX_USER_KEY_BYTES \<and> length (rec_value r) \<le> u32_MAX"

definition kv_size :: "nat \<Rightarrow> nat \<Rightarrow> nat" where
  "kv_size kl vl = 9 + length (varint_bytes (of_nat kl)) + kl + length (varint_bytes (of_nat vl)) + vl"

definition batch_header :: "u64 \<Rightarrow> u32 \<Rightarrow> bytes" where
  "batch_header seq count = to_le_bytes 8 seq @ to_le_bytes 4 count"

text \<open>A cleared batch has no buffer yet; its first reservation writes a zero header.\<close>

definition batch_base :: "batch_inner \<Rightarrow> bytes" where
  "batch_base b = (if bi_data b = [] then replicate HEADER_SIZE 0 else bi_data b)"

definition batch_sized :: "batch_inner \<Rightarrow> bool" where
  "batch_sized b \<longleftrightarrow> length (bi_data b) \<le> bi_max b \<and> bi_max b \<le> u32_MAX"

definition batch_holds :: "u64 \<Rightarrow> kv_record list \<Rightarrow> batch_inner \<Rightarrow> bool" where
  "batch_holds seq rs b \<longleftrightarrow> batch_sized b \<and> list_all kv_ok rs \<and> bi_count b = of_nat (length rs)
     \<and> batch_base b = batch_header seq (of_nat (length rs)) @ encode_kvs rs"

lemma length_encode_kv: "length (encode_kv r) = kv_size (length (rec_key r)) (length (rec_value r))"
  by (simp add: encode_kv_def record_head_def kv_size_def)

lemma encode_kvs_simps [simp]:
  "encode_kvs [] = []" "encode_kvs (r # rs) = encode_kv r @ encode_kvs rs"
  "encode_kvs (rs @ qs) = encode_kvs rs @ encode_kvs qs"
  by (simp_all add: encode_kvs_def)

lemma kv_size_ge: "11 \<le> kv_size kl vl"
  using varint_bytes_length_pos [of "of_nat kl"] varint_bytes_length_pos [of "of_nat vl"]
  unfolding kv_size_def by linarith

lemma length_encode_kvs: "11 * length rs \<le> length (encode_kvs rs)"
  by (induction rs) (use kv_size_ge in \<open>auto simp: length_encode_kv add_le_mono\<close>)

lemma length_batch_header [simp]: "length (batch_header s c) = 12"
  by (simp add: batch_header_def)

lemma HEADER_SIZE_eq [simp]: "HEADER_SIZE = 12"
  by (simp add: HEADER_SIZE_def)

section \<open>Layout and reservation\<close>

lemma MAX_USER_KEY_u32 [simp]:
  "kl \<le> MAX_USER_KEY_BYTES \<Longrightarrow> kl \<le> u32_MAX" "kl \<le> MAX_USER_KEY_BYTES \<Longrightarrow> \<not> u32_MAX < kl"
  by (simp_all add: MAX_USER_KEY_BYTES_def u32_MAX_def)

lemma kv_size_fits: "kl \<le> u32_MAX \<Longrightarrow> vl \<le> u32_MAX \<Longrightarrow> kv_size kl vl + 100 \<le> usize_MAX"
  using varint_bytes_length_max [of "of_nat kl"] varint_bytes_length_max [of "of_nat vl"]
  unfolding kv_size_def u32_MAX_def usize_MAX_def by simp

lemma key_value_record_layout_ok:
  assumes "kl \<le> MAX_USER_KEY_BYTES" and "vl \<le> u32_MAX"
  obtains kv vv where "key_value_record_layout kl vl b = Some (Inr (kv, vv, kv_size kl vl))"
    and "varint_size kv = length (varint_bytes (of_nat kl))"
    and "varint_as_slice kv = Some (varint_bytes (of_nat kl))"
    and "varint_size vv = length (varint_bytes (of_nat vl))"
    and "varint_as_slice vv = Some (varint_bytes (of_nat vl))"
proof -
  obtain kv where kv: "varint_new (of_nat kl) = Some kv" by (rule varint_new_defined)
  obtain vv where vv: "varint_new (of_nat vl) = Some vv" by (rule varint_new_defined)
  note k = varint_new_slice [OF kv] and v = varint_new_slice [OF vv]
  have fits: "kv_size kl vl \<le> usize_MAX"
    using kv_size_fits [of kl vl] assms by simp
  have "key_value_record_layout kl vl b = Some (Inr (kv, vv, kv_size kl vl))"
    using assms fits
    by (simp add: key_value_record_layout_def kv vv k(1) v(1) usize_checked_add_def kv_size_def)
  then show thesis using that k v by blast
qed

lemma key_value_record_layout_errors:
  "MAX_USER_KEY_BYTES < kl \<Longrightarrow>
     key_value_record_layout kl vl b = Some (Inl (KeyTooLarge kl MAX_USER_KEY_BYTES))"
  "kl \<le> MAX_USER_KEY_BYTES \<Longrightarrow> u32_MAX < vl \<Longrightarrow>
     key_value_record_layout kl vl b = Some (Inl (ValueTooLarge vl u32_MAX))"
proof -
  obtain kv where kv: "varint_new (of_nat kl) = Some kv" by (rule varint_new_defined)
  show "kl \<le> MAX_USER_KEY_BYTES \<Longrightarrow> u32_MAX < vl \<Longrightarrow>
     key_value_record_layout kl vl b = Some (Inl (ValueTooLarge vl u32_MAX))"
    by (simp add: key_value_record_layout_def kv)
qed (simp add: key_value_record_layout_def)

lemma reserve_operation_ok:
  assumes "batch_sized b" and "12 + n \<le> bi_max b" and "length (batch_base b) + n \<le> bi_max b"
  obtains c where "reserve_operation n b = Some (Inr (length (batch_base b), length (batch_base b) + n),
      b\<lparr>bi_data := batch_base b @ replicate n 0, bi_capacity := c\<rparr>)"
proof -
  have fits: "12 + n \<le> usize_MAX" "length (batch_base b) + n \<le> usize_MAX"
    using assms unfolding batch_sized_def u32_MAX_def usize_MAX_def by simp_all
  have "\<exists>c. reserve_operation n b = Some (Inr (length (batch_base b), length (batch_base b) + n),
      b\<lparr>bi_data := batch_base b @ replicate n 0, bi_capacity := c\<rparr>)"
  proof (cases "bi_data b = []")
    case True
    have "reserve_operation n b = Some (Inr (12, 12 + n),
        data_resize (12 + n) (data_resize 12 (b\<lparr>bi_capacity := cap_reserve (bi_capacity b) 0 (12 + n)\<rparr>)))"
      using True assms(2) fits by (simp add: reserve_operation_def init_buffer_def usize_checked_add_def
          batch_base_def data_resize_def)
    then show ?thesis
      using True by (simp add: data_resize_def batch_base_def vec_resize_def) blast
  next
    case False
    then show ?thesis
      using assms fits by (simp add: reserve_operation_def usize_checked_add_def batch_base_def
          data_resize_def vec_resize_grow) blast
  qed
  then show thesis using that by blast
qed

lemma reserve_operation_errors:
  assumes "batch_sized b" and "n + 100 \<le> usize_MAX"
  shows "bi_max b < 12 + n \<Longrightarrow>
      reserve_operation n b = Some (Inl (RecordTooLarge (12 + n) (bi_max b)), b)"
    and "12 + n \<le> bi_max b \<Longrightarrow> bi_max b < length (batch_base b) + n \<Longrightarrow>
      reserve_operation n b = Some (Inl (BatchFull n (length (bi_data b)) (bi_max b)), b)"
proof -
  have fits: "12 + n \<le> usize_MAX" using assms(2) by simp
  show "reserve_operation n b = Some (Inl (RecordTooLarge (12 + n) (bi_max b)), b)"
    if "bi_max b < 12 + n"
    using that fits by (simp add: reserve_operation_def usize_checked_add_def)
  show "reserve_operation n b = Some (Inl (BatchFull n (length (bi_data b)) (bi_max b)), b)"
    if "12 + n \<le> bi_max b" and "bi_max b < length (batch_base b) + n"
  proof -
    have "bi_data b \<noteq> []" using that by (auto simp: batch_base_def)
    then show ?thesis
      using that fits by (auto simp: reserve_operation_def usize_checked_add_def batch_base_def)
  qed
qed

section \<open>Writing into the reserved region\<close>

lemma set_at_fill:
  "0 < n \<Longrightarrow> set_at (length p) x (p @ replicate n z) = Some ((p @ [x]) @ replicate (n - 1) z)"
  by (cases n) (simp_all add: set_at_def)

lemma copy_at_fill:
  "off = length p \<Longrightarrow> length src \<le> n \<Longrightarrow>
   copy_at off src (p @ replicate n z) = Some ((p @ src) @ replicate (n - length src) z)"
  by (simp add: copy_at_def)

lemma adjust_count_in_header_eq:
  assumes "bi_data b = batch_header seq old @ rest"
  shows "adjust_count_in_header count b = Some (old, b\<lparr>bi_data := batch_header seq count @ rest\<rparr>)"
  using assms
  by (simp add: adjust_count_in_header_def BATCH_COUNT_OFFSET_def batch_header_def slice_at_def
      copy_at_def byte_simps)

text \<open>The write sequence of \<open>put\<close> fills the reserved zeros with the encoded record, field by
  field; \<open>i\<close> is the start of the reservation.\<close>

lemma record_writes:
  fixes kl vl :: nat and kb vb :: bytes
  defines "kb \<equiv> varint_bytes (of_nat kl)" and "vb \<equiv> varint_bytes (of_nat vl)"
  assumes "n = kv_size kl vl" and "i = length pre"
  shows "set_at i k (pre @ replicate n 0) = Some ((pre @ [k]) @ replicate (n - 1) 0)"
    and "copy_at (i + 1) (to_le_bytes 8 (cf :: u64)) ((pre @ [k]) @ replicate (n - 1) 0)
      = Some ((pre @ [k] @ to_le_bytes 8 cf) @ replicate (n - 9) 0)"
    and "copy_at (i + 1 + 8) kb ((pre @ [k] @ to_le_bytes 8 cf) @ replicate (n - 9) 0)
      = Some ((pre @ [k] @ to_le_bytes 8 cf @ kb) @ replicate (kl + length vb + vl) 0)"
proof -
  have n: "n = 9 + length kb + kl + length vb + vl"
    using assms by (simp add: kv_size_def)
  show "set_at i k (pre @ replicate n 0) = Some ((pre @ [k]) @ replicate (n - 1) 0)"
    using assms(4) n set_at_fill [of n pre k 0] by simp
  show "copy_at (i + 1) (to_le_bytes 8 (cf :: u64)) ((pre @ [k]) @ replicate (n - 1) 0)
      = Some ((pre @ [k] @ to_le_bytes 8 cf) @ replicate (n - 9) 0)"
    using assms(4) n copy_at_fill [of "i + 1" "pre @ [k]" "to_le_bytes 8 cf" "n - 1" 0] by simp
  show "copy_at (i + 1 + 8) kb ((pre @ [k] @ to_le_bytes 8 cf) @ replicate (n - 9) 0)
      = Some ((pre @ [k] @ to_le_bytes 8 cf @ kb) @ replicate (kl + length vb + vl) 0)"
    using assms(4) n copy_at_fill [of "i + 1 + 8" "pre @ [k] @ to_le_bytes 8 cf" kb "n - 9" 0]
    by (simp add: algebra_simps)
qed

lemma payload_writes:
  fixes pre :: bytes
  assumes "i = length pre"
  shows "copy_at i key (pre @ replicate (length key + length vb + length value) 0)
      = Some ((pre @ key) @ replicate (length vb + length value) 0)"
    and "copy_at (i + length key) vb ((pre @ key) @ replicate (length vb + length value) 0)
      = Some ((pre @ key @ vb) @ replicate (length value) 0)"
    and "copy_at (i + length key + length vb) value ((pre @ key @ vb) @ replicate (length value) 0)
      = Some (pre @ key @ vb @ value)"
  using assms by (simp_all add: copy_at_def)

lemma batch_holds_base: "batch_holds seq rs b \<Longrightarrow> 12 \<le> length (batch_base b)"
  by (simp add: batch_holds_def)

lemma batch_holds_count:
  assumes "batch_holds seq rs b" and "length (batch_base b) \<le> bi_max b"
  shows "length rs < u32_MAX"
proof -
  have "12 + 11 * length rs \<le> u32_MAX"
    using assms length_encode_kvs [of rs] by (simp add: batch_holds_def batch_sized_def)
  then show ?thesis by linarith
qed

lemma batch_put_ok:
  assumes "batch_holds seq rs b" and "kv_ok r" and "rec_kind r = RK_Put"
    and "length (batch_base b) + length (encode_kv r) \<le> bi_max b"
  obtains c where "batch_put (rec_cf r) (rec_key r) (rec_value r) b = Some (Inr (),
      b\<lparr>bi_data := batch_header seq (of_nat (Suc (length rs))) @ encode_kvs rs @ encode_kv r,
        bi_capacity := c, bi_count := of_nat (Suc (length rs))\<rparr>)"
proof -
  let ?kl = "length (rec_key r)" and ?vl = "length (rec_value r)"
  let ?kb = "varint_bytes (of_nat ?kl)" and ?vb = "varint_bytes (of_nat ?vl)"
  let ?n = "kv_size ?kl ?vl" and ?pre = "batch_base b"
  let ?p = "?pre @ [record_kind_u8 RK_Put] @ to_le_bytes 8 (rec_cf r) @ ?kb"
  have lens: "?kl \<le> MAX_USER_KEY_BYTES" "?vl \<le> u32_MAX"
    using assms(2) by (simp_all add: kv_ok_def)
  obtain kv vv where layout: "key_value_record_layout ?kl ?vl b = Some (Inr (kv, vv, ?n))"
      and kv: "varint_size kv = length ?kb" "varint_as_slice kv = Some ?kb"
      and vv: "varint_size vv = length ?vb" "varint_as_slice vv = Some ?vb"
    by (rule key_value_record_layout_ok [OF lens])
  have fit: "length ?pre + ?n \<le> bi_max b"
    using assms(4) by (simp add: length_encode_kv)
  have "batch_sized b" using assms(1) by (simp add: batch_holds_def)
  moreover have "12 + ?n \<le> bi_max b" using fit batch_holds_base [OF assms(1)] by linarith
  ultimately obtain c where c: "reserve_operation ?n b = Some (Inr (length ?pre, length ?pre + ?n),
      b\<lparr>bi_data := ?pre @ replicate ?n 0, bi_capacity := c\<rparr>)"
    using fit by (rule reserve_operation_ok)
  define b1 where "b1 = b\<lparr>bi_data := ?pre @ replicate ?n 0, bi_capacity := c\<rparr>"
  have res: "reserve_operation ?n b = Some (Inr (length ?pre, length ?pre + ?n), b1)"
    by (simp only: c b1_def)
  have b1: "bi_data b1 = ?pre @ replicate ?n 0" "bi_count b1 = bi_count b"
    by (simp_all add: b1_def)
  have i: "length ?pre + 1 + 8 + length ?kb = length ?p" by simp
  note w = record_writes [OF refl refl] payload_writes [of "length ?p" ?p "rec_key r" ?vb "rec_value r", OF refl]
  have last: "length ?p + ?kl + length ?vb + ?vl = length ?pre + ?n"
    by (simp add: kv_size_def)
  have enc: "?p @ rec_key r @ ?vb @ rec_value r
      = batch_header seq (of_nat (length rs)) @ encode_kvs rs @ encode_kv r"
    using assms(1,3) by (simp add: encode_kv_def record_head_def batch_holds_def)
  have cnt: "bi_count b = of_nat (length rs)" using assms(1) by (simp add: batch_holds_def)
  have small: "length rs < u32_MAX" using batch_holds_count [OF assms(1)] fit by simp
  then have ncnt: "unat (of_nat (length rs) :: u32) < u32_MAX"
    by (simp add: u32_MAX_def unat_of_nat)
  have "batch_put (rec_cf r) (rec_key r) (rec_value r) b =
      do {
        (old, b') \<leftarrow> adjust_count_in_header (of_nat (length rs) + 1)
          (b1\<lparr>bi_data := ?p @ rec_key r @ ?vb @ rec_value r, bi_count := of_nat (length rs) + 1\<rparr>);
        Some (Inr (), b')
      }"
    unfolding batch_put_def Let_def layout
    by (simp only: bind.bind_lunit sum.case prod.case res b1 kv vv w i last
        assert_that_bind if_True simp_thms cnt ncnt)
  also have "\<dots> = Some (Inr (), b\<lparr>bi_data := batch_header seq (of_nat (length rs) + 1) @ encode_kvs rs @ encode_kv r,
      bi_capacity := c, bi_count := of_nat (length rs) + 1\<rparr>)"
    unfolding enc by (simp add: adjust_count_in_header_eq b1_def)
  finally show thesis by (intro that) (simp add: add.commute)
qed

lemma batch_holds_put:
  assumes "batch_holds seq rs b" and "kv_ok r"
    and "length (batch_base b) + length (encode_kv r) \<le> bi_max b"
  shows "batch_holds seq (rs @ [r])
      (b\<lparr>bi_data := batch_header seq (of_nat (Suc (length rs))) @ encode_kvs rs @ encode_kv r,
        bi_capacity := c, bi_count := of_nat (Suc (length rs))\<rparr>)"
proof -
  have "encode_kv r \<noteq> []" by (simp add: encode_kv_def record_head_def)
  moreover have "length (batch_base b) = 12 + length (encode_kvs rs)"
    using assms(1) by (simp add: batch_holds_def)
  ultimately show ?thesis
    using assms by (auto simp: batch_holds_def batch_sized_def batch_base_def)
qed

text \<open>Rejections leave the batch as it was.\<close>

lemma batch_put_layout_errors:
  "MAX_USER_KEY_BYTES < length key \<Longrightarrow>
     batch_put cf key val b = Some (Inl (KeyTooLarge (length key) MAX_USER_KEY_BYTES), b)"
  "length key \<le> MAX_USER_KEY_BYTES \<Longrightarrow> u32_MAX < length val \<Longrightarrow>
     batch_put cf key val b = Some (Inl (ValueTooLarge (length val) u32_MAX), b)"
  by (simp_all add: batch_put_def key_value_record_layout_errors)

lemma batch_put_reserve_error:
  assumes "length key \<le> MAX_USER_KEY_BYTES" and "length val \<le> u32_MAX"
    and "reserve_operation (kv_size (length key) (length val)) b = Some (Inl e, b)"
  shows "batch_put cf key val b = Some (Inl e, b)"
proof -
  obtain kv vv where "key_value_record_layout (length key) (length val) b
      = Some (Inr (kv, vv, kv_size (length key) (length val)))"
    by (rule key_value_record_layout_ok [OF assms(1,2)])
  then show ?thesis using assms(3) by (simp add: batch_put_def)
qed

lemma batch_put_rejects:
  assumes "batch_holds seq rs b"
    and "\<not> (length key \<le> MAX_USER_KEY_BYTES \<and> length val \<le> u32_MAX
      \<and> length (batch_base b) + kv_size (length key) (length val) \<le> bi_max b)"
  shows "\<exists>e. batch_put cf key val b = Some (Inl e, b)"
proof -
  let ?n = "kv_size (length key) (length val)"
  have s: "batch_sized b" using assms(1) by (simp add: batch_holds_def)
  have "\<exists>e. reserve_operation ?n b = Some (Inl e, b)"
    if l: "length key \<le> MAX_USER_KEY_BYTES" "length val \<le> u32_MAX"
  proof -
    have "?n + 100 \<le> usize_MAX" using kv_size_fits l by simp
    note err = reserve_operation_errors [OF s this]
    have "bi_max b < length (batch_base b) + ?n" using assms(2) l by simp
    then show ?thesis using err by (cases "bi_max b < 12 + ?n") auto
  qed
  then show ?thesis
    using batch_put_layout_errors batch_put_reserve_error by (meson not_le)
qed

section \<open>Unique decoding\<close>

lemma of_nat_u32_inject:
  "m \<le> u32_MAX \<Longrightarrow> n \<le> u32_MAX \<Longrightarrow> (of_nat m :: u32) = of_nat n \<Longrightarrow> m = n"
  by (simp add: u32_MAX_def word_of_nat_eq_iff take_bit_nat_eq_self_iff) (simp add: take_bit_eq_mod)

lemma varint_len_cancel:
  assumes "varint_bytes (of_nat (length a)) @ a @ xs = varint_bytes (of_nat (length b)) @ b @ ys"
    and "length a \<le> u32_MAX" and "length b \<le> u32_MAX"
  shows "a = b \<and> xs = ys"
proof -
  have "(of_nat (length a) :: u32) = of_nat (length b)" "a @ xs = b @ ys"
    using assms(1) by (simp_all add: varint_bytes_inject_append)
  then show ?thesis
    using of_nat_u32_inject assms(2,3) by auto
qed

lemma encode_kv_cancel:
  assumes "encode_kv r @ xs = encode_kv q @ ys" and "kv_ok r" and "kv_ok q"
  shows "r = q \<and> xs = ys"
proof -
  have head: "record_kind_u8 (rec_kind r) = record_kind_u8 (rec_kind q)"
    "to_le_bytes 8 (rec_cf r) = to_le_bytes 8 (rec_cf q)"
    "varint_bytes (of_nat (length (rec_key r))) @ rec_key r
       @ varint_bytes (of_nat (length (rec_value r))) @ rec_value r @ xs
     = varint_bytes (of_nat (length (rec_key q))) @ rec_key q
       @ varint_bytes (of_nat (length (rec_value q))) @ rec_value q @ ys"
    using assms(1) by (simp_all add: encode_kv_def record_head_def append_eq_append_conv)
  have cf: "rec_cf r = rec_cf q"
    using head(2) by (simp add: to_le_bytes_inject)
  have kv: "rec_key r = rec_key q" "rec_value r = rec_value q" "xs = ys"
    using varint_len_cancel [OF head(3)] varint_len_cancel [of "rec_value r" xs "rec_value q" ys]
      assms(2,3) by (simp_all add: kv_ok_def)
  show ?thesis
    using head(1) cf kv by simp
qed

lemma encode_kvs_inject:
  "list_all kv_ok rs \<Longrightarrow> list_all kv_ok qs \<Longrightarrow> encode_kvs rs = encode_kvs qs \<Longrightarrow> rs = qs"
proof (induction rs arbitrary: qs)
  case Nil
  then show ?case
    by (cases qs) (auto simp: encode_kv_def record_head_def)
next
  case (Cons r rs)
  then obtain q qs' where qs: "qs = q # qs'"
    by (cases qs) (auto simp: encode_kv_def record_head_def)
  have "r = q \<and> encode_kvs rs = encode_kvs qs'"
    using Cons.prems by (intro encode_kv_cancel) (simp_all add: qs)
  moreover have "list_all kv_ok rs" "list_all kv_ok qs'"
    using Cons.prems by (simp_all add: qs)
  ultimately show ?case using Cons.IH [of qs'] by (simp add: qs)
qed

section \<open>Deferred operations\<close>

definition deferred_layout :: "record_kind \<Rightarrow> u64 \<Rightarrow> nat \<Rightarrow> nat \<Rightarrow> batch_inner \<Rightarrow> bytes" where
  "deferred_layout kind cf kl vl b = batch_base b @ record_head kind cf kl @ replicate kl 0
     @ varint_bytes (of_nat vl) @ replicate vl 0"

lemma copy_at_skip:
  "i = length pre \<Longrightarrow> copy_at (i + kl) vb (pre @ replicate (kl + length vb + vl) z)
     = Some (pre @ replicate kl z @ vb @ replicate vl z)"
  by (simp add: copy_at_def replicate_add)

lemma prepare_with_key_value_impl_ok:
  assumes "batch_holds seq rs b" and "kl \<le> MAX_USER_KEY_BYTES" and "vl \<le> u32_MAX"
    and "bi_state b \<noteq> batch_state_u8 BS_InQueue"
    and "length (batch_base b) + kv_size kl vl \<le> bi_max b"
  obtains c b' ko vo where
    "prepare_with_key_value_impl cf kl vl kind b = Some (Inr
       \<lparr>do_live = True, do_batch = b', reservation_start = length (batch_base b),
        reservation_end = length (batch_base b) + kv_size kl vl, key_offset = ko, key_len = kl,
        value_offset = vo, value_len = vl\<rparr>, b')"
    and "b' = b\<lparr>bi_data := deferred_layout kind cf kl vl b, bi_capacity := c\<rparr>"
    and "ko = length (batch_base b @ record_head kind cf kl)"
    and "vo = ko + kl + length (varint_bytes (of_nat vl))"
proof -
  let ?kb = "varint_bytes (of_nat kl)" and ?vb = "varint_bytes (of_nat vl)"
  let ?n = "kv_size kl vl" and ?pre = "batch_base b"
  let ?p = "?pre @ [record_kind_u8 kind] @ to_le_bytes 8 cf @ ?kb"
  obtain kv vv where layout: "key_value_record_layout kl vl b = Some (Inr (kv, vv, ?n))"
      and kv: "varint_size kv = length ?kb" "varint_as_slice kv = Some ?kb"
      and vv: "varint_size vv = length ?vb" "varint_as_slice vv = Some ?vb"
    by (rule key_value_record_layout_ok [OF assms(2,3)])
  have "batch_sized b" using assms(1) by (simp add: batch_holds_def)
  moreover have "12 + ?n \<le> bi_max b" using assms(5) batch_holds_base [OF assms(1)] by linarith
  ultimately obtain c where c: "reserve_operation ?n b = Some (Inr (length ?pre, length ?pre + ?n),
      b\<lparr>bi_data := ?pre @ replicate ?n 0, bi_capacity := c\<rparr>)"
    using assms(5) by (rule reserve_operation_ok)
  define b1 where "b1 = b\<lparr>bi_data := ?pre @ replicate ?n 0, bi_capacity := c\<rparr>"
  have res: "reserve_operation ?n b = Some (Inr (length ?pre, length ?pre + ?n), b1)"
    by (simp only: c b1_def)
  have b1: "bi_data b1 = ?pre @ replicate ?n 0"
    by (simp add: b1_def)
  have i: "length ?pre + 1 + 8 + length ?kb = length ?p" by simp
  have last: "(length ?pre + ?n = length ?p + kl + length ?vb + vl) = True"
    "(length ?pre \<le> length ?pre + ?n) = True"
    by (simp_all add: kv_size_def)
  have st: "(bi_state b \<noteq> batch_state_u8 BS_InQueue) = True" using assms(4) by simp
  have d: "?p @ replicate kl 0 @ ?vb @ replicate vl 0 = deferred_layout kind cf kl vl b"
    by (simp add: deferred_layout_def record_head_def)
  have "prepare_with_key_value_impl cf kl vl kind b = Some (Inr
       \<lparr>do_live = True, do_batch = b1\<lparr>bi_data := deferred_layout kind cf kl vl b\<rparr>,
        reservation_start = length ?pre, reservation_end = length ?pre + ?n,
        key_offset = length ?p, key_len = kl, value_offset = length ?p + kl + length ?vb,
        value_len = vl\<rparr>, b1\<lparr>bi_data := deferred_layout kind cf kl vl b\<rparr>)"
    unfolding prepare_with_key_value_impl_def Let_def layout deferred_new_def
    by (simp only: bind.bind_lunit sum.case prod.case res b1 kv vv record_writes [OF refl refl]
        copy_at_skip [OF refl] i last assert_that_bind if_True st d)
  then show thesis
    by (rule that [where c = c]) (simp_all add: b1_def record_head_def)
qed

text \<open>The closure writes only inside the reservation.\<close>

definition op_frame :: "bytes \<Rightarrow> nat \<Rightarrow> batch_inner \<Rightarrow> deferred_op \<Rightarrow> bool" where
  "op_frame pre n b op \<longleftrightarrow> reservation_start op = length pre
     \<and> length pre \<le> key_offset op \<and> key_offset op + key_len op \<le> value_offset op
     \<and> (\<exists>region. do_batch op = b\<lparr>bi_data := pre @ region\<rparr> \<and> length region = n)"

lemma copy_at_region:
  assumes "copy_at off src (pre @ region) = Some d" and "length pre \<le> off"
  obtains region' where "d = pre @ region'" and "length region' = length region"
proof
  have d: "d = take off (pre @ region) @ src @ drop (off + length src) (pre @ region)"
    and fit: "off + length src \<le> length pre + length region"
    using assms(1) by (simp_all add: copy_at_def split: if_splits)
  show "d = pre @ take (off - length pre) region @ src @ drop (off + length src - length pre) region"
    using assms(2) by (simp add: d)
  show "length (take (off - length pre) region @ src @ drop (off + length src - length pre) region)
      = length region"
    using fit assms(2) by simp
qed

lemma op_frame_write:
  assumes "op_frame pre n b op" and "copy_at off src (bi_data (do_batch op)) = Some d"
    and "length pre \<le> off"
  shows "op_frame pre n b (op\<lparr>do_batch := (do_batch op)\<lparr>bi_data := d\<rparr>\<rparr>)"
proof -
  obtain region where r: "do_batch op = b\<lparr>bi_data := pre @ region\<rparr>" "length region = n"
    using assms(1) by (auto simp: op_frame_def)
  then obtain region' where "d = pre @ region'" "length region' = n"
    using copy_at_region [of off src pre region d] assms(2,3) by auto
  with r assms(1) show ?thesis by (auto simp: op_frame_def)
qed

lemma closure_act_frame:
  assumes "closure_act_step a op = Some op'" and "op_frame pre n b op"
  shows "op_frame pre n b op' \<and> (a \<noteq> CallFinish \<longrightarrow> do_live op' = do_live op)"
proof (cases a)
  case (WriteKey k)
  then obtain d where d: "copy_at (key_offset op) k (bi_data (do_batch op)) = Some d"
      "op' = op\<lparr>do_batch := (do_batch op)\<lparr>bi_data := d\<rparr>\<rparr>"
    using assms(1)
    by (auto simp: key_mut_write_def write_view_def Let_def split: if_splits bind_splits)
  moreover have "length pre \<le> key_offset op" using assms(2) by (simp add: op_frame_def)
  ultimately show ?thesis using op_frame_write [OF assms(2)] by simp
next
  case (WriteValue v)
  then obtain d where d: "copy_at (value_offset op) v (bi_data (do_batch op)) = Some d"
      "op' = op\<lparr>do_batch := (do_batch op)\<lparr>bi_data := d\<rparr>\<rparr>"
    using assms(1)
    by (auto simp: value_mut_write_def write_view_def Let_def split: if_splits bind_splits)
  moreover have "length pre \<le> value_offset op" using assms(2) by (simp add: op_frame_def)
  ultimately show ?thesis using op_frame_write [OF assms(2)] by simp
next
  case (WriteKeyValue k v)
  then obtain src d where d: "copy_at (key_offset op) src (bi_data (do_batch op)) = Some d"
      "op' = op\<lparr>do_batch := (do_batch op)\<lparr>bi_data := d\<rparr>\<rparr>"
    using assms(1)
    by (auto simp: key_value_mut_write_def Let_def split: if_splits bind_splits)
  moreover have "length pre \<le> key_offset op" using assms(2) by (simp add: op_frame_def)
  ultimately show ?thesis using op_frame_write [OF assms(2)] by simp
next
  case CallFinish
  then show ?thesis
    using assms by (auto simp: deferred_finish_def op_frame_def)
qed

lemma run_closure_frame:
  "run_closure f op = (ok, op') \<Longrightarrow> op_frame pre n b op \<Longrightarrow>
   op_frame pre n b op' \<and> (CallFinish \<notin> set f \<longrightarrow> do_live op' = do_live op)"
proof (induction f arbitrary: op)
  case (Cons a f)
  show ?case
  proof (cases "closure_act_step a op")
    case None
    then show ?thesis using Cons.prems by auto
  next
    case (Some op1)
    then have "op_frame pre n b op1 \<and> (a \<noteq> CallFinish \<longrightarrow> do_live op1 = do_live op)"
      using closure_act_frame Cons.prems(2) by blast
    moreover have "run_closure f op1 = (ok, op')" using Some Cons.prems(1) by simp
    ultimately show ?thesis using Cons.IH [of op1] by auto
  qed
qed simp

lemma deferred_drop_rollback:
  assumes "op_frame pre n b op" and "do_live op"
  obtains c where "deferred_drop op = Some (b\<lparr>bi_data := pre, bi_capacity := c\<rparr>)"
proof -
  obtain region where r: "do_batch op = b\<lparr>bi_data := pre @ region\<rparr>" "length region = n"
    using assms(1) by (auto simp: op_frame_def)
  have "reservation_start op = length pre" using assms(1) by (simp add: op_frame_def)
  then show thesis
    using that assms(2) r
    by (simp add: deferred_drop_def deferred_rollback_def Let_def data_resize_def vec_resize_shrink)
qed

lemma op_frame_deferred:
  "op_frame (batch_base b) (kv_size kl vl) (b\<lparr>bi_data := deferred_layout kind cf kl vl b, bi_capacity := c\<rparr>)
     \<lparr>do_live = True, do_batch = b\<lparr>bi_data := deferred_layout kind cf kl vl b, bi_capacity := c\<rparr>,
      reservation_start = length (batch_base b), reservation_end = re,
      key_offset = length (batch_base b @ record_head kind cf kl), key_len = kl,
      value_offset = length (batch_base b @ record_head kind cf kl) + kl
        + length (varint_bytes (of_nat vl)),
      value_len = vl\<rparr>"
proof -
  have "length (record_head kind cf kl @ replicate kl 0 @ varint_bytes (of_nat vl) @ replicate vl 0)
      = kv_size kl vl"
    by (simp add: kv_size_def record_head_def)
  then show ?thesis
    unfolding op_frame_def deferred_layout_def
    by (auto intro!: exI [of _ "record_head kind cf kl @ replicate kl 0 @ varint_bytes (of_nat vl)
      @ replicate vl 0"])
qed

text \<open>A closure that writes key and value of the announced lengths completes the record.\<close>

lemma key_value_mut_write_deferred:
  fixes key val :: bytes
  assumes "kl = length key" and "vl = length val" and "do_live op"
    and "bi_data (do_batch op) = deferred_layout kind cf kl vl b"
    and "key_offset op = length (batch_base b @ record_head kind cf kl)" and "key_len op = kl"
    and "value_offset op = key_offset op + kl + length (varint_bytes (of_nat vl))"
    and "value_len op = vl"
  shows "key_value_mut_write key val op = Some (op\<lparr>do_batch := (do_batch op)\<lparr>bi_data := batch_base b
    @ encode_kv \<lparr>rec_kind = kind, rec_cf = cf, rec_key = key, rec_value = val\<rparr>\<rparr>\<rparr>)"
proof -
  let ?pre = "batch_base b @ record_head kind cf kl" and ?vb = "varint_bytes (of_nat vl)"
  have data: "bi_data (do_batch op) = ?pre @ replicate kl 0 @ ?vb @ replicate vl 0"
    using assms(4) by (simp add: deferred_layout_def)
  have region: "slice_at (key_offset op) (value_offset op + value_len op - key_offset op)
      (bi_data (do_batch op)) = Some (replicate kl 0 @ ?vb @ replicate vl 0)"
    using assms(5-8) by (simp add: data slice_at_def)
  have copy: "copy_at (length ?pre) (key @ ?vb @ val) (?pre @ replicate kl 0 @ ?vb @ replicate vl 0)
      = Some (?pre @ key @ ?vb @ val)"
    using assms(1,2) by (simp add: copy_at_def)
  show ?thesis
    unfolding key_value_mut_write_def region
    using assms(1-3,5-8) copy by (simp add: data encode_kv_def)
qed

lemma record_update_holds:
  assumes "batch_holds seq rs b" and "bi_data b' = batch_base b" and "bi_count b' = bi_count b"
    and "bi_max b' = bi_max b" and "length (batch_base b) \<le> bi_max b"
  shows "batch_holds seq rs b'"
  using assms batch_holds_base [OF assms(1)]
  by (auto simp: batch_holds_def batch_sized_def batch_base_def split: if_splits)

section \<open>Properties\<close>

lemma zero_header: "batch_header 0 0 = replicate 12 0"
  by (simp add: batch_header_def numeral_eq_Suc)

lemma batch_inner_new_simps [simp]:
  "bi_data batch_inner_new = replicate 12 0" "bi_max batch_inner_new = MAX_BATCH_SIZE"
  "bi_count batch_inner_new = 0" "bi_state batch_inner_new = 1"
  "bi_waiter batch_inner_new = sync_waiter_default" "bi_waiter_clones batch_inner_new = 0"
  by (simp_all add: batch_inner_new_def data_resize_def vec_resize_def)

lemma batch_base_zeros [simp]: "bi_data b = replicate 12 0 \<Longrightarrow> batch_base b = replicate 12 0"
  by (simp add: batch_base_def)

lemma batch_holds_zeros:
  "bi_data b = [] \<or> bi_data b = replicate 12 0 \<Longrightarrow> bi_count b = 0 \<Longrightarrow> length (bi_data b) \<le> bi_max b \<Longrightarrow>
   bi_max b \<le> u32_MAX \<Longrightarrow> batch_holds 0 [] b"
  by (auto simp: batch_holds_def batch_sized_def batch_base_def zero_header)

lemma MAX_BATCH_SIZE_eq: "MAX_BATCH_SIZE = 1048576"
  by (simp add: MAX_BATCH_SIZE_def DEFAULT_MAX_WRITE_BATCH_BYTES_def)

lemma batch_inner_new_holds: "batch_holds 0 [] batch_inner_new"
  by (rule batch_holds_zeros) (simp_all add: MAX_BATCH_SIZE_eq u32_MAX_def)

text \<open>
  C23.  A put that fits: when a buffer encodes the records \<open>rs\<close> under the header
  \<open>(seq, count)\<close> and the new record keeps it within \<open>max_batch_size\<close>, \<open>put\<close>
  succeeds without any index leaving the buffer or the count overflowing, and the buffer then
  encodes \<open>rs\<close> followed by the new record, with the count of the header and of the struct
  advanced by one and every other field as before.
\<close>

theorem batch_put_appends:
  assumes "batch_holds seq rs b"
    and "length key \<le> MAX_USER_KEY_BYTES" and "length value \<le> u32_MAX"
    and "length (batch_base b) + kv_size (length key) (length value) \<le> bi_max b"
  shows "\<exists>b'. batch_put cf key value b = Some (Inr (), b')
    \<and> batch_holds seq (rs @ [\<lparr>rec_kind = RK_Put, rec_cf = cf, rec_key = key, rec_value = value\<rparr>]) b'
    \<and> bi_data b' = batch_header seq (bi_count b') @ drop 12 (batch_base b)
        @ encode_kv \<lparr>rec_kind = RK_Put, rec_cf = cf, rec_key = key, rec_value = value\<rparr>
    \<and> bi_state b' = bi_state b \<and> bi_max b' = bi_max b \<and> bi_waiter b' = bi_waiter b"
proof -
  define r where "r = \<lparr>rec_kind = RK_Put, rec_cf = cf, rec_key = key, rec_value = value\<rparr>"
  have r: "kv_ok r" "rec_kind r = RK_Put" "rec_cf r = cf" "rec_key r = key" "rec_value r = value"
    using assms(2,3) by (simp_all add: r_def kv_ok_def)
  have fit: "length (batch_base b) + length (encode_kv r) \<le> bi_max b"
    using assms(4) by (simp add: length_encode_kv r)
  obtain c where put: "batch_put cf key value b = Some (Inr (),
      b\<lparr>bi_data := batch_header seq (of_nat (Suc (length rs))) @ encode_kvs rs @ encode_kv r,
        bi_capacity := c, bi_count := of_nat (Suc (length rs))\<rparr>)"
    using batch_put_ok [OF assms(1) r(1,2) fit] r(3-5) by metis
  have base: "drop 12 (batch_base b) = encode_kvs rs"
    "length (batch_base b) = 12 + length (encode_kvs rs)"
    using assms(1) by (simp_all add: batch_holds_def)
  have "batch_holds seq (rs @ [r])
      (b\<lparr>bi_data := batch_header seq (of_nat (Suc (length rs))) @ encode_kvs rs @ encode_kv r,
        bi_capacity := c, bi_count := of_nat (Suc (length rs))\<rparr>)"
    by (rule batch_holds_put [OF assms(1) r(1) fit])
  then show ?thesis
    unfolding r_def [symmetric] put by (simp add: base(1))
qed

theorem batch_put_appends_witness:
  "\<exists>b'. batch_put 7 [1, 2] [3] batch_inner_new = Some (Inr (), b')
    \<and> batch_holds 0 ([] @ [\<lparr>rec_kind = RK_Put, rec_cf = 7, rec_key = [1, 2], rec_value = [3]\<rparr>]) b'
    \<and> bi_data b' = batch_header 0 (bi_count b') @ drop 12 (batch_base batch_inner_new)
        @ encode_kv \<lparr>rec_kind = RK_Put, rec_cf = 7, rec_key = [1, 2], rec_value = [3]\<rparr>
    \<and> bi_state b' = bi_state batch_inner_new \<and> bi_max b' = bi_max batch_inner_new
    \<and> bi_waiter b' = bi_waiter batch_inner_new"
  by (rule batch_put_appends [OF batch_inner_new_holds])
    (simp_all add: MAX_USER_KEY_BYTES_def u32_MAX_def kv_size_def MAX_BATCH_SIZE_eq varint_bytes.simps)

text \<open>
  C27.  A put that is rejected: the error names the limit that failed, in the order the code
  documents (key length, value length, a record too large for any batch, a batch too full for
  this record), and the batch is exactly what it was, even when it had been cleared and had no
  buffer yet.
\<close>

theorem batch_put_errors:
  fixes key val :: bytes
  assumes "batch_holds seq rs b"
  defines "n \<equiv> kv_size (length key) (length val)"
  shows "(MAX_USER_KEY_BYTES < length key \<longrightarrow>
       batch_put cf key val b = Some (Inl (KeyTooLarge (length key) MAX_USER_KEY_BYTES), b))
    \<and> (length key \<le> MAX_USER_KEY_BYTES \<and> u32_MAX < length val \<longrightarrow>
       batch_put cf key val b = Some (Inl (ValueTooLarge (length val) u32_MAX), b))
    \<and> (length key \<le> MAX_USER_KEY_BYTES \<and> length val \<le> u32_MAX \<and> bi_max b < 12 + n \<longrightarrow>
       batch_put cf key val b = Some (Inl (RecordTooLarge (12 + n) (bi_max b)), b))
    \<and> (length key \<le> MAX_USER_KEY_BYTES \<and> length val \<le> u32_MAX \<and> 12 + n \<le> bi_max b
         \<and> bi_max b < length (batch_base b) + n \<longrightarrow>
       batch_put cf key val b = Some (Inl (BatchFull n (length (bi_data b)) (bi_max b)), b))"
proof -
  have s: "batch_sized b" using assms(1) by (simp add: batch_holds_def)
  have "n + 100 \<le> usize_MAX" if "length key \<le> MAX_USER_KEY_BYTES" "length val \<le> u32_MAX"
    using kv_size_fits [of "length key" "length val"] that by (simp add: n_def)
  then show ?thesis
    using batch_put_layout_errors batch_put_reserve_error reserve_operation_errors [OF s]
    unfolding n_def by blast
qed

theorem batch_put_errors_witness:
  "batch_put 0 [1] [2] (batch_inner_new\<lparr>bi_max := 24\<rparr>)
     = Some (Inl (RecordTooLarge 25 24), batch_inner_new\<lparr>bi_max := 24\<rparr>)"
proof -
  have "batch_holds 0 [] (batch_inner_new\<lparr>bi_max := 24\<rparr>)"
    by (rule batch_holds_zeros) (simp_all add: u32_MAX_def)
  from batch_put_errors [OF this, where cf = 0 and key = "[1]" and val = "[2]"] show ?thesis
    by (simp add: MAX_USER_KEY_BYTES_def u32_MAX_def kv_size_def varint_bytes.simps)
qed

lemma batch_holds_data:
  "batch_holds seq rs b \<Longrightarrow> bi_data b \<noteq> [] \<Longrightarrow>
   bi_data b = to_le_bytes 8 seq @ to_le_bytes 4 (of_nat (length rs) :: u32) @ encode_kvs rs"
  by (simp add: batch_holds_def batch_base_def batch_header_def)

lemma batch_seq_num_ok: "batch_holds seq rs b \<Longrightarrow> bi_data b \<noteq> [] \<Longrightarrow> batch_seq_num b = Some seq"
  by (simp add: batch_holds_data batch_seq_num_def BATCH_COUNT_OFFSET_def read_u64_unsafe_def
      native_read_def slice_at_def byte_simps)

lemma assign_seq_num_once_ok:
  assumes "batch_holds seq rs b" and "bi_data b \<noteq> []"
  shows "\<exists>b'. assign_seq_num_once s b = Some b' \<and> batch_holds s rs b' \<and> bi_data b' \<noteq> []
    \<and> bi_state b' = bi_state b"
proof -
  let ?d = "to_le_bytes 8 s @ to_le_bytes 4 (of_nat (length rs) :: u32) @ encode_kvs rs"
  have "assign_seq_num_once s b = Some (b\<lparr>bi_data := ?d\<rparr>)"
    using batch_holds_data [OF assms]
    by (simp add: assign_seq_num_once_def BATCH_COUNT_OFFSET_def write_u64_unsafe_def copy_at_def)
  moreover have "batch_holds s rs (b\<lparr>bi_data := ?d\<rparr>)"
    using assms(1) batch_holds_data [OF assms]
    by (simp add: batch_holds_def batch_sized_def batch_base_def batch_header_def)
  ultimately show ?thesis by simp
qed

lemma batch_holds_state [simp]: "batch_holds seq rs (b\<lparr>bi_state := st\<rparr>) = batch_holds seq rs b"
  by (simp add: batch_holds_def batch_sized_def batch_base_def)

text \<open>A writer's calls of \<open>put_cf\<close> one after the other, with the results they return, and the records of the
  calls that were accepted.\<close>

fun put_calls ::
  "(u64 \<times> bytes \<times> bytes) list \<Rightarrow> batch_inner \<Rightarrow> ((engine_error + unit) list \<times> batch_inner) option" where
  "put_calls [] b = Some ([], b)"
| "put_calls ((cf, key, val) # xs) b =
     do {
       (r, b) \<leftarrow> batch_put cf key val b;
       (rs, b) \<leftarrow> put_calls xs b;
       Some (r # rs, b)
     }"

fun accepted :: "(u64 \<times> bytes \<times> bytes) list \<Rightarrow> (engine_error + unit) list \<Rightarrow> kv_record list" where
  "accepted ((cf, key, val) # xs) (Inr _ # rs) =
     \<lparr>rec_kind = RK_Put, rec_cf = cf, rec_key = key, rec_value = val\<rparr> # accepted xs rs"
| "accepted (_ # xs) (Inl _ # rs) = accepted xs rs"
| "accepted _ _ = []"

lemma batch_put_accepts:
  assumes "batch_holds seq rs b" and "length key \<le> MAX_USER_KEY_BYTES" and "length val \<le> u32_MAX"
    and "12 + length (encode_kvs rs) + kv_size (length key) (length val) \<le> bi_max b"
  shows "\<exists>b'. batch_put cf key val b = Some (Inr (), b')
    \<and> batch_holds seq (rs @ [\<lparr>rec_kind = RK_Put, rec_cf = cf, rec_key = key, rec_value = val\<rparr>]) b' \<and> bi_data b' \<noteq> []
    \<and> bi_max b' = bi_max b"
proof -
  let ?r = "\<lparr>rec_kind = RK_Put, rec_cf = cf, rec_key = key, rec_value = val\<rparr>"
  have ok: "kv_ok ?r" and fit: "length (batch_base b) + length (encode_kv ?r) \<le> bi_max b"
    using assms by (simp_all add: kv_ok_def length_encode_kv batch_holds_def)
  obtain c where "batch_put cf key val b = Some (Inr (), b
      \<lparr>bi_data := batch_header seq (of_nat (Suc (length rs))) @ encode_kvs rs @ encode_kv ?r,
        bi_capacity := c, bi_count := of_nat (Suc (length rs))\<rparr>)"
    using batch_put_ok [OF assms(1) ok _ fit] by auto
  moreover have "batch_header s n @ xs \<noteq> []" for s n xs
    using length_batch_header [of s n] by (metis append_is_Nil_conv list.size(3) zero_neq_numeral)
  ultimately show ?thesis using batch_holds_put [OF assms(1) ok fit, of c] by auto
qed

lemma put_calls_outcome:
  assumes "batch_holds seq rs b" and "bi_data b \<noteq> []"
  shows "\<exists>r b'. put_calls xs b = Some (r, b') \<and> batch_holds seq (rs @ accepted xs r) b' \<and> bi_data b' \<noteq> []"
  using assms
proof (induction xs arbitrary: rs b)
  case (Cons x xs)
  obtain cf key val where x: "x = (cf, key, val)" by (cases x)
  have "12 + length (encode_kvs rs) = length (batch_base b)" using Cons.prems(1) by (simp add: batch_holds_def)
  then consider b' where "batch_put cf key val b = Some (Inr (), b')"
      "batch_holds seq (rs @ [\<lparr>rec_kind = RK_Put, rec_cf = cf, rec_key = key, rec_value = val\<rparr>]) b'" "bi_data b' \<noteq> []"
    | e where "batch_put cf key val b = Some (Inl e, b)"
    using batch_put_accepts [OF Cons.prems(1)] batch_put_rejects [OF Cons.prems(1)] by metis
  then show ?case
  proof cases
    case (1 b')
    then show ?thesis using Cons.IH [of _ b'] by (fastforce simp: x)
  next
    case (2 e)
    then show ?thesis using Cons.IH [OF Cons.prems] by (fastforce simp: x)
  qed
qed simp

text \<open>
  C26.  The bytes a batch hands to the write-ahead log determine its operations.  Take any two sequences of
  \<open>put\<close> calls on new batches, whatever keys and values they have, and stamp each batch with a sequence number:
  no call panics, and the two buffers are equal exactly when the sequence numbers are equal and the same
  records were accepted in the same order.  Calls that were rejected leave no trace in the bytes.
\<close>

theorem batch_puts_determine_bytes:
  "\<exists>r b r' b' c c'. put_calls xs batch_inner_new = Some (r, b) \<and> put_calls ys batch_inner_new = Some (r', b')
    \<and> assign_seq_num_once s b = Some c \<and> assign_seq_num_once s' b' = Some c'
    \<and> (bi_data c = bi_data c' \<longleftrightarrow> s = s' \<and> accepted xs r = accepted ys r')"
proof -
  have ne: "bi_data batch_inner_new \<noteq> []" by simp
  obtain r b where b: "put_calls xs batch_inner_new = Some (r, b)" "batch_holds 0 (accepted xs r) b" "bi_data b \<noteq> []"
    using put_calls_outcome [OF batch_inner_new_holds ne, of xs] by auto
  obtain r' b' where b': "put_calls ys batch_inner_new = Some (r', b')" "batch_holds 0 (accepted ys r') b'" "bi_data b' \<noteq> []"
    using put_calls_outcome [OF batch_inner_new_holds ne, of ys] by auto
  obtain c where c: "assign_seq_num_once s b = Some c" "batch_holds s (accepted xs r) c" "bi_data c \<noteq> []"
    using assign_seq_num_once_ok [OF b(2,3)] by blast
  obtain c' where c': "assign_seq_num_once s' b' = Some c'" "batch_holds s' (accepted ys r') c'" "bi_data c' \<noteq> []"
    using assign_seq_num_once_ok [OF b'(2,3)] by blast
  have "s = s' \<and> accepted xs r = accepted ys r'" if eq: "bi_data c = bi_data c'"
  proof -
    have "to_le_bytes 8 s = to_le_bytes 8 s'" "encode_kvs (accepted xs r) = encode_kvs (accepted ys r')"
      using eq batch_holds_data [OF c(2,3)] batch_holds_data [OF c'(2,3)] by simp_all
    moreover from this(1) have "s = s'" by (simp add: to_le_bytes_inject)
    ultimately show ?thesis using encode_kvs_inject c(2) c'(2) by (simp add: batch_holds_def)
  qed
  moreover have "bi_data c = bi_data c'" if "s = s' \<and> accepted xs r = accepted ys r'"
    using that batch_holds_data [OF c(2,3)] batch_holds_data [OF c'(2,3)] by simp
  ultimately show ?thesis using b(1) b'(1) c(1) c'(1) by blast
qed

text \<open>Swapping two puts changes the bytes, and a put that is rejected does not.\<close>

lemma demo_puts:
  assumes "kvs = [(0, [x], [y]), (0, [z], [w])]"
  shows "map_option fst (put_calls kvs batch_inner_new) = Some [Inr (), Inr ()]"
proof -
  let ?r = "\<lambda>x y. \<lparr>rec_kind = RK_Put, rec_cf = 0, rec_key = [x :: byte], rec_value = [y]\<rparr>"
  obtain b where b: "batch_put 0 [x] [y] batch_inner_new = Some (Inr (), b)" "batch_holds 0 [?r x y] b" "bi_max b = MAX_BATCH_SIZE"
    using batch_put_accepts [OF batch_inner_new_holds, of "[x]" "[y]" 0]
    by (auto simp: MAX_USER_KEY_BYTES_def u32_MAX_def kv_size_def MAX_BATCH_SIZE_eq varint_bytes.simps)
  obtain b' where "batch_put 0 [z] [w] b = Some (Inr (), b')"
    using batch_put_accepts [OF b(2), of "[z]" "[w]" 0]
    by (auto simp: MAX_USER_KEY_BYTES_def u32_MAX_def kv_size_def MAX_BATCH_SIZE_eq varint_bytes.simps b(3) length_encode_kv)
  then show ?thesis using b(1) by (simp add: assms)
qed

theorem batch_puts_determine_bytes_witness:
  "\<exists>b b' c c'. put_calls [(0, [1], [2]), (0, [3], [4])] batch_inner_new = Some ([Inr (), Inr ()], b)
    \<and> put_calls [(0, [3], [4]), (0, [1], [2])] batch_inner_new = Some ([Inr (), Inr ()], b')
    \<and> assign_seq_num_once 7 b = Some c \<and> assign_seq_num_once 7 b' = Some c' \<and> bi_data c \<noteq> bi_data c'"
proof -
  let ?xs = "[(0, [1], [2]), (0, [3], [4])] :: (u64 \<times> bytes \<times> bytes) list" and ?ys = "[(0, [3], [4]), (0, [1], [2])] :: (u64 \<times> bytes \<times> bytes) list"
  obtain r b r' b' c c' where b: "put_calls ?xs batch_inner_new = Some (r, b)" "put_calls ?ys batch_inner_new = Some (r', b')"
    "assign_seq_num_once 7 b = Some c" "assign_seq_num_once 7 b' = Some c'"
    and eq: "bi_data c = bi_data c' \<longleftrightarrow> (7 :: u64) = 7 \<and> accepted ?xs r = accepted ?ys r'"
    using batch_puts_determine_bytes [of ?xs ?ys 7 7] by blast
  have r: "r = [Inr (), Inr ()]" "r' = [Inr (), Inr ()]"
    using demo_puts [OF refl, of 1 2 3 4] demo_puts [OF refl, of 3 4 1 2] b(1,2) by (simp_all del: put_calls.simps)
  have "bi_data c \<noteq> bi_data c'" using eq by (simp add: r)
  then show ?thesis using b unfolding r by blast
qed

text \<open>
  Also:  The header's sequence number: on a batch with a buffer \<open>assign_seq_num_once\<close> replaces the
  sequence number and nothing else, and \<open>seq_num\<close> reads it back; on a batch that was cleared
  and has no record yet both panic (\<open>new\<close> writes the header, \<open>clear\<close> removes it).
\<close>

theorem batch_seq_num_assign:
  assumes "batch_holds seq rs b"
  shows "(bi_data b \<noteq> [] \<longrightarrow> batch_seq_num b = Some seq
      \<and> (\<exists>b'. assign_seq_num_once s b = Some b' \<and> batch_holds s rs b' \<and> batch_seq_num b' = Some s))
    \<and> (bi_data b = [] \<longrightarrow> batch_seq_num b = None \<and> assign_seq_num_once s b = None)"
proof (cases "bi_data b = []")
  case True
  then show ?thesis
    by (simp add: batch_seq_num_def assign_seq_num_once_def BATCH_COUNT_OFFSET_def)
next
  case False
  then show ?thesis
    using assign_seq_num_once_ok [OF assms False, of s] batch_seq_num_ok [OF assms False]
      batch_seq_num_ok [of s rs] by blast
qed

theorem batch_seq_num_assign_witness:
  "bi_data batch_inner_new \<noteq> [] \<and> batch_seq_num batch_inner_new = Some 0
    \<and> (\<exists>b'. assign_seq_num_once 10 batch_inner_new = Some b' \<and> batch_seq_num b' = Some 10)"
  using batch_seq_num_assign [OF batch_inner_new_holds, of 10] by auto

text \<open>
  Also:  \<open>clear\<close> gives back an empty batch exactly in the reset-safe states \<open>Acquired\<close> and
  \<open>Applied\<close> (it panics in the others): no records, count zero, the size limit kept.  It keeps
  the completion waiter as it is, so a batch whose waiter reached a terminal state can never be
  primed again: \<open>prime_sync_waiter\<close> panics on it.
\<close>

theorem batch_clear_contract:
  assumes "batch_holds seq rs b" and "bi_state b = batch_state_u8 st"
    and "sw_state (bi_waiter b) = wal_sync_u8 ws"
  shows "(batch_clear b = None \<longleftrightarrow> \<not> is_reset_safe st)
    \<and> (is_reset_safe st \<longrightarrow> (\<exists>b'. batch_clear b = Some b' \<and> batch_holds 0 [] b' \<and> bi_data b' = []
         \<and> bi_max b' = bi_max b \<and> bi_state b' = bi_state b \<and> bi_waiter b' = bi_waiter b
         \<and> (is_terminal ws \<longrightarrow> prime_sync_waiter b' = None)))"
proof -
  have "batch_state_from_u8 (bi_state b) = Some st"
    unfolding assms(2) by (cases st) (simp_all add: batch_state_from_u8_def)
  moreover have "is_terminal ws \<Longrightarrow> sync_waiter_prime (bi_waiter b) = None"
    unfolding sync_waiter_prime_def assms(3) wal_sync_from_u8_u8
    by (cases ws) (simp_all add: is_terminal_def)
  moreover have "bi_max b \<le> u32_MAX"
    using assms(1) by (simp add: batch_holds_def batch_sized_def)
  ultimately show ?thesis
    by (auto simp: batch_clear_def prime_sync_waiter_def intro: batch_holds_zeros)
qed

theorem batch_clear_contract_witness:
  "\<exists>b'. batch_clear batch_inner_new = Some b' \<and> batch_holds 0 [] b' \<and> bi_data b' = []"
proof -
  have "bi_state batch_inner_new = batch_state_u8 BS_Acquired"
    and "sw_state (bi_waiter batch_inner_new) = wal_sync_u8 WS_Init"
    by (simp_all add: sync_waiter_default_def)
  from batch_clear_contract [OF batch_inner_new_holds this] show ?thesis
    by (auto simp: is_reset_safe_def RESET_SAFE_STATES_def)
qed

text \<open>
  C40.  Rollback of a deferred operation: on a batch that is not in the queue and has room for the record, when
  the closure of \<open>put_with\<close> panics before it called \<open>finish\<close>, whatever it wrote before, dropping the
  operation gives the reserved space back and the batch encodes exactly the records it encoded before.
\<close>

theorem put_with_rollback:
  assumes "batch_holds seq rs b" and "kl \<le> MAX_USER_KEY_BYTES" and "vl \<le> u32_MAX"
    and "bi_state b \<noteq> batch_state_u8 BS_InQueue"
    and "length (batch_base b) + kv_size kl vl \<le> bi_max b"
    and "CallFinish \<notin> set f"
    and "\<forall>op. prepare_with_key_value_impl cf kl vl kind b = Some (Inr op, do_batch op) \<longrightarrow>
           \<not> fst (run_closure f op)"
  shows "\<exists>b'. batch_put_with cf kl vl kind f b = Some (None, b') \<and> batch_holds seq rs b'
    \<and> bi_data b' = batch_base b"
proof -
  obtain c b1 ko vo where prep: "prepare_with_key_value_impl cf kl vl kind b = Some (Inr
       \<lparr>do_live = True, do_batch = b1, reservation_start = length (batch_base b),
        reservation_end = length (batch_base b) + kv_size kl vl, key_offset = ko, key_len = kl,
        value_offset = vo, value_len = vl\<rparr>, b1)" (is "_ = Some (Inr ?op, b1)")
    and b1: "b1 = b\<lparr>bi_data := deferred_layout kind cf kl vl b, bi_capacity := c\<rparr>"
    and ko: "ko = length (batch_base b @ record_head kind cf kl)"
    and vo: "vo = ko + kl + length (varint_bytes (of_nat vl))"
    by (rule prepare_with_key_value_impl_ok [OF assms(1-5)])
  have frame: "op_frame (batch_base b) (kv_size kl vl) b1 ?op"
    unfolding b1 ko vo by (rule op_frame_deferred)
  obtain op' where run: "run_closure f ?op = (False, op')"
    using assms(7) prep by (cases "run_closure f ?op") auto
  then have "op_frame (batch_base b) (kv_size kl vl) b1 op'" "do_live op'"
    using run_closure_frame [OF run frame] assms(6) by simp_all
  then obtain c' where drop: "deferred_drop op' = Some (b1\<lparr>bi_data := batch_base b, bi_capacity := c'\<rparr>)"
    by (rule deferred_drop_rollback)
  let ?b' = "b1\<lparr>bi_data := batch_base b, bi_capacity := c'\<rparr>"
  have "batch_put_with cf kl vl kind f b = Some (None, ?b')"
    by (simp add: batch_put_with_def prep run drop)
  moreover have "batch_holds seq rs ?b'"
    using assms(5) by (intro record_update_holds [OF assms(1)]) (simp_all add: b1)
  ultimately show ?thesis by auto
qed

theorem put_with_rollback_witness:
  "\<exists>b'. batch_put_with 0 1 1 RK_Put [WriteKey [5], WriteValue [6, 7]] batch_inner_new = Some (None, b')
    \<and> batch_holds 0 [] b' \<and> bi_data b' = batch_base batch_inner_new"
proof (rule put_with_rollback [OF batch_inner_new_holds])
  obtain c b1 ko vo where prep: "prepare_with_key_value_impl 0 1 1 RK_Put batch_inner_new = Some (Inr
       \<lparr>do_live = True, do_batch = b1, reservation_start = length (batch_base batch_inner_new),
        reservation_end = length (batch_base batch_inner_new) + kv_size 1 1, key_offset = ko, key_len = 1,
        value_offset = vo, value_len = 1\<rparr>, b1)"
    by (rule prepare_with_key_value_impl_ok [OF batch_inner_new_holds, of 1 1])
      (auto simp: MAX_USER_KEY_BYTES_def u32_MAX_def kv_size_def MAX_BATCH_SIZE_eq varint_bytes.simps)
  show "\<forall>op. prepare_with_key_value_impl 0 1 1 RK_Put batch_inner_new = Some (Inr op, do_batch op) \<longrightarrow>
      \<not> fst (run_closure [WriteKey [5], WriteValue [6, 7]] op)"
    using prep by (auto simp: value_mut_write_def key_mut_write_def write_view_def slice_at_def
        split: option.splits if_splits bind_splits)
qed (simp_all add: MAX_USER_KEY_BYTES_def u32_MAX_def kv_size_def MAX_BATCH_SIZE_eq varint_bytes.simps)

text \<open>
  Also:  A deferred put that completes: the closure's key and value are in the buffer as the next
  record, but neither the count of the struct nor the count of the header is advanced, so the
  header announces one record fewer than the buffer holds.
\<close>

theorem put_with_count_not_advanced:
  fixes key val :: bytes
  assumes "batch_holds seq rs b" and "length key \<le> MAX_USER_KEY_BYTES" and "length val \<le> u32_MAX"
    and "bi_state b \<noteq> batch_state_u8 BS_InQueue"
    and "length (batch_base b) + kv_size (length key) (length val) \<le> bi_max b"
  shows "\<exists>b'. batch_put_with cf (length key) (length val) kind [WriteKeyValue key val] b
      = Some (Some (Inr ()), b')
    \<and> bi_data b' = batch_header seq (of_nat (length rs))
        @ encode_kvs (rs @ [\<lparr>rec_kind = kind, rec_cf = cf, rec_key = key, rec_value = val\<rparr>])
    \<and> get_batch_count b' = of_nat (length rs)"
proof -
  let ?kl = "length key" and ?vl = "length val"
  obtain c b1 ko vo where prep: "prepare_with_key_value_impl cf ?kl ?vl kind b = Some (Inr
       \<lparr>do_live = True, do_batch = b1, reservation_start = length (batch_base b),
        reservation_end = length (batch_base b) + kv_size ?kl ?vl, key_offset = ko, key_len = ?kl,
        value_offset = vo, value_len = ?vl\<rparr>, b1)" (is "_ = Some (Inr ?op, b1)")
    and b1: "b1 = b\<lparr>bi_data := deferred_layout kind cf ?kl ?vl b, bi_capacity := c\<rparr>"
    and ko: "ko = length (batch_base b @ record_head kind cf ?kl)"
    and vo: "vo = ko + ?kl + length (varint_bytes (of_nat ?vl))"
    by (rule prepare_with_key_value_impl_ok [OF assms])
  let ?r = "\<lparr>rec_kind = kind, rec_cf = cf, rec_key = key, rec_value = val\<rparr>"
  have "key_value_mut_write key val ?op
      = Some (?op\<lparr>do_batch := b1\<lparr>bi_data := batch_base b @ encode_kv ?r\<rparr>\<rparr>)"
    using key_value_mut_write_deferred [of ?kl key ?vl val ?op kind cf b] by (simp add: b1 ko vo)
  then have "batch_put_with cf ?kl ?vl kind [WriteKeyValue key val] b
      = Some (Some (Inr ()), b1\<lparr>bi_data := batch_base b @ encode_kv ?r\<rparr>)"
    by (simp add: batch_put_with_def prep deferred_finish_def deferred_drop_def)
  then show ?thesis
    using assms(1) by (simp add: batch_holds_def get_batch_count_def b1)
qed

theorem put_with_count_not_advanced_witness:
  "\<exists>b'. batch_put_with 0 (length [1::byte]) (length [2::byte]) RK_Put [WriteKeyValue [1] [2]] batch_inner_new
      = Some (Some (Inr ()), b')
    \<and> bi_data b' = batch_header 0 (of_nat (length ([] :: kv_record list)))
        @ encode_kvs ([] @ [\<lparr>rec_kind = RK_Put, rec_cf = 0, rec_key = [1], rec_value = [2]\<rparr>])
    \<and> get_batch_count b' = of_nat (length ([] :: kv_record list))"
  by (rule put_with_count_not_advanced [OF batch_inner_new_holds])
    (simp_all add: MAX_USER_KEY_BYTES_def u32_MAX_def kv_size_def MAX_BATCH_SIZE_eq varint_bytes.simps)

end
