(* ===== verification/Batch_Object.thy ===== *)
theory Batch_Object
  imports Batch
begin

text \<open>
  The owning handles around a \<open>BatchInner\<close> in \<open>crates/engine/src/db/batch.rs\<close>: the heap
  allocation \<open>OwnedBatchPtr\<close> (its address and the batch it owns), the type-state handle
  \<open>BatchObject\<close>, the user-facing \<open>Batch\<close>, and \<open>OwnedBatchFactory\<close>.  The outcome of
  blocking in \<open>sync_waiter.wait()\<close> is an argument: it is what the protocol of
  \<open>Wal_Sync\<close> makes it.
\<close>

section \<open>Definitions\<close>

record owned_batch_ptr =
  ob_addr :: nat
  ob_batch :: batch_inner

datatype commit_state = UnCommitted | Sealed

record batch_object =
  bo_commit :: commit_state
  bo_inner :: owned_batch_ptr

definition reset_for_reuse :: "owned_batch_ptr \<Rightarrow> owned_batch_ptr option" where
  "reset_for_reuse a = map_option (\<lambda>b. a\<lparr>ob_batch := b\<rparr>) (batch_clear (ob_batch a))"

definition object_transition :: "commit_state \<Rightarrow> batch_object \<Rightarrow> batch_object" where
  "object_transition s o' = \<lparr>bo_commit = s, bo_inner = bo_inner o'\<rparr>"

definition alloc_set_runtime_state :: "batch_runtime_state \<Rightarrow> owned_batch_ptr \<Rightarrow> owned_batch_ptr" where
  "alloc_set_runtime_state s a = a\<lparr>ob_batch := batch_set_runtime_state s (ob_batch a)\<rparr>"

definition object_set_runtime_state :: "batch_runtime_state \<Rightarrow> batch_object \<Rightarrow> batch_object" where
  "object_set_runtime_state s o' = o'\<lparr>bo_inner := alloc_set_runtime_state s (bo_inner o')\<rparr>"

definition object_state :: "batch_object \<Rightarrow> batch_runtime_state option" where
  "object_state o' = batch_state_from_u8 (bi_state (ob_batch (bo_inner o')))"

definition object_is_state :: "batch_runtime_state \<Rightarrow> batch_object \<Rightarrow> bool" where
  "object_is_state s o' \<longleftrightarrow> bi_state (ob_batch (bo_inner o')) = batch_state_u8 s"

definition wait_until_reusable :: "wait_result \<Rightarrow> batch_object \<Rightarrow> (engine_error + unit) option" where
  "wait_until_reusable waited o' =
     do {
       s \<leftarrow> sync_waiter_state (bi_waiter (ob_batch (bo_inner o')));
       case s of
         WS_Init \<Rightarrow> Some (Inr ())
       | WS_Primed \<Rightarrow> Some (case waited of Inr _ \<Rightarrow> Inr () | Inl _ \<Rightarrow> Inl Err_WalError)
       | WS_SyncDone \<Rightarrow> Some (Inr ())
       | WS_IoError \<Rightarrow> Some (Inl Err_WalError)
       | WS_WalError \<Rightarrow> Some (Inl Err_WalError)
     }"

definition object_can_reset :: "batch_object \<Rightarrow> bool option" where
  "object_can_reset o' = map_option is_reset_safe (object_state o')"

definition reset_batch :: "batch_object \<Rightarrow> batch_object option" where
  "reset_batch o' =
     do {
       s \<leftarrow> object_state o';
       assert_that (is_reset_safe s);
       a \<leftarrow> reset_for_reuse (bo_inner o');
       let o' = object_set_runtime_state BS_Acquired (o'\<lparr>bo_inner := a\<rparr>);
       Some (object_transition UnCommitted o')
     }"

definition object_new :: "nat \<Rightarrow> batch_object" where
  "object_new addr = \<lparr>bo_commit = UnCommitted, bo_inner = \<lparr>ob_addr = addr, ob_batch = batch_inner_new\<rparr>\<rparr>"

definition object_new_with_capacity :: "nat \<Rightarrow> nat \<Rightarrow> batch_object option" where
  "object_new_with_capacity addr cap =
     map_option (\<lambda>b. \<lparr>bo_commit = UnCommitted, bo_inner = \<lparr>ob_addr = addr, ob_batch = b\<rparr>\<rparr>)
       (batch_inner_new_with_capacity cap)"

definition default_cf :: u64 where
  "default_cf = DEFAULT_CF_ID"

text \<open>The \<open>Result\<close> of the inner put is bound to an unused variable and dropped.\<close>

definition object_put_cf :: "u64 \<Rightarrow> bytes \<Rightarrow> bytes \<Rightarrow> batch_object \<Rightarrow> batch_object option" where
  "object_put_cf cf_id key value o' =
     do {
       (r, b) \<leftarrow> batch_put cf_id key value (ob_batch (bo_inner o'));
       Some (o'\<lparr>bo_inner := (bo_inner o')\<lparr>ob_batch := b\<rparr>\<rparr>)
     }"

definition object_put :: "bytes \<Rightarrow> bytes \<Rightarrow> batch_object \<Rightarrow> batch_object option" where
  "object_put key value o' = object_put_cf default_cf key value o'"

definition object_acquire :: "owned_batch_ptr \<Rightarrow> batch_object" where
  "object_acquire inner =
     object_set_runtime_state BS_Acquired \<lparr>bo_commit = UnCommitted, bo_inner = inner\<rparr>"

definition object_into_inner :: "batch_object \<Rightarrow> owned_batch_ptr" where
  "object_into_inner o' = bo_inner o'"

definition object_set_acquired_state :: "batch_object \<Rightarrow> batch_object" where
  "object_set_acquired_state o' = object_set_runtime_state BS_Acquired o'"

definition object_seal :: "batch_object \<Rightarrow> batch_object" where
  "object_seal o' = \<lparr>bo_commit = Sealed, bo_inner = bo_inner o'\<rparr>"

definition object_resize_to :: "nat \<Rightarrow> batch_object \<Rightarrow> batch_object" where
  "object_resize_to new_size o' =
     (let b = ob_batch (bo_inner o')
      in o'\<lparr>bo_inner := (bo_inner o')\<lparr>ob_batch :=
           b\<lparr>bi_capacity := cap_reserve (bi_capacity b) (length (bi_data b)) new_size\<rparr>\<rparr>\<rparr>)"

definition object_shrink_to :: "nat \<Rightarrow> batch_object \<Rightarrow> batch_object" where
  "object_shrink_to new_size o' =
     o'\<lparr>bo_inner := (bo_inner o')\<lparr>ob_batch := shrink_batch_to new_size (ob_batch (bo_inner o'))\<rparr>\<rparr>"

text \<open>\<open>OwnedBatchFactory\<close>: the byte count reported with a fresh allocation is the length of its
  buffer.  The address is the allocator's.\<close>

definition factory_allocate :: "nat \<Rightarrow> nat \<times> owned_batch_ptr" where
  "factory_allocate addr =
     (length (bi_data batch_inner_new), \<lparr>ob_addr = addr, ob_batch = batch_inner_new\<rparr>)"

definition factory_allocate_with_capacity :: "nat \<Rightarrow> nat \<Rightarrow> (nat \<times> owned_batch_ptr) option" where
  "factory_allocate_with_capacity addr cap =
     map_option (\<lambda>b. (length (bi_data b), \<lparr>ob_addr = addr, ob_batch = b\<rparr>))
       (batch_inner_new_with_capacity cap)"

text \<open>\<open>Batch\<close> pairs the object with its pool; the pool does not take part in \<open>reset\<close>,
  \<open>put\<close> and \<open>seal\<close>.  \<open>close\<close> is in the pool's theory.\<close>

definition batch_reset :: "wait_result \<Rightarrow> batch_object \<Rightarrow> batch_object option" where
  "batch_reset waited o' =
     do {
       ok \<leftarrow> object_can_reset o';
       assert_that ok;
       r \<leftarrow> wait_until_reusable waited o';
       assert_that (r = Inr ());
       reset_batch o'
     }"

definition sealed_batch_ptr :: "batch_object \<Rightarrow> nat" where
  "sealed_batch_ptr o' = ob_addr (bo_inner o')"

section \<open>Lemmas\<close>

lemma batch_state_from_u8_Some: "batch_state_from_u8 x = Some st \<Longrightarrow> x = batch_state_u8 st"
  by (auto simp: batch_state_from_u8_def split: if_splits)

lemma batch_state_from_u8_u8 [simp]: "batch_state_from_u8 (batch_state_u8 s) = Some s"
  by (cases s) (simp_all add: batch_state_from_u8_def)

abbreviation bo_batch :: "batch_object \<Rightarrow> batch_inner" where
  "bo_batch o' \<equiv> ob_batch (bo_inner o')"

lemma batch_clear_eq:
  assumes "bi_state b = batch_state_u8 st"
  shows "batch_clear b = (if is_reset_safe st then
      Some (b\<lparr>bi_count := 0, bi_data := [], bi_meta := batch_meta_clear (bi_meta b),
              bi_cf_table := cf_table_clear (bi_cf_table b)\<rparr>) else None)"
  by (simp add: batch_clear_def assms)

lemma reset_batch_eq:
  assumes "bi_state (bo_batch o') = batch_state_u8 st"
  shows "reset_batch o' = (if is_reset_safe st then
      Some \<lparr>bo_commit = UnCommitted, bo_inner = (bo_inner o')\<lparr>ob_batch :=
        (bo_batch o')\<lparr>bi_count := 0, bi_data := [], bi_meta := batch_meta_clear (bi_meta (bo_batch o')),
          bi_cf_table := cf_table_clear (bi_cf_table (bo_batch o')),
          bi_state := batch_state_u8 BS_Acquired\<rparr>\<rparr>\<rparr> else None)"
  using assms
  by (simp add: reset_batch_def object_state_def reset_for_reuse_def batch_clear_eq
      object_set_runtime_state_def alloc_set_runtime_state_def batch_set_runtime_state_def
      object_transition_def del: batch_state_u8.simps)

lemma sync_waiter_state_u8:
  "sw_state w = wal_sync_u8 ws \<Longrightarrow> sync_waiter_state w = Some ws"
  by (simp add: sync_waiter_state_def)

text \<open>A put appends its record or leaves the object alone.\<close>

lemma object_put_outcome:
  assumes "batch_holds seq rs (bo_batch o')"
  shows "\<exists>q. object_put key value o' = Some q \<and> ob_addr (bo_inner q) = ob_addr (bo_inner o') \<and> bo_commit q = bo_commit o'
    \<and> (if length key \<le> MAX_USER_KEY_BYTES \<and> length value \<le> u32_MAX
          \<and> length (batch_base (bo_batch o')) + kv_size (length key) (length value) \<le> bi_max (bo_batch o')
        then batch_holds seq (rs @ [\<lparr>rec_kind = RK_Put, rec_cf = DEFAULT_CF_ID, rec_key = key, rec_value = value\<rparr>]) (bo_batch q)
          \<and> bi_max (bo_batch q) = bi_max (bo_batch o')
        else (\<exists>e. batch_put DEFAULT_CF_ID key value (bo_batch o') = Some (Inl e, bo_batch o')) \<and> q = o')"
proof (cases "length key \<le> MAX_USER_KEY_BYTES \<and> length value \<le> u32_MAX
    \<and> length (batch_base (bo_batch o')) + kv_size (length key) (length value) \<le> bi_max (bo_batch o')")
  case True
  let ?r = "\<lparr>rec_kind = RK_Put, rec_cf = DEFAULT_CF_ID, rec_key = key, rec_value = value\<rparr>"
  have ok: "kv_ok ?r" and fit: "length (batch_base (bo_batch o')) + length (encode_kv ?r) \<le> bi_max (bo_batch o')"
    using True by (simp_all add: kv_ok_def length_encode_kv)
  obtain c where "batch_put DEFAULT_CF_ID key value (bo_batch o') = Some (Inr (), (bo_batch o')
      \<lparr>bi_data := batch_header seq (of_nat (Suc (length rs))) @ encode_kvs rs @ encode_kv ?r,
        bi_capacity := c, bi_count := of_nat (Suc (length rs))\<rparr>)"
    using batch_put_ok [OF assms ok _ fit] by auto
  then show ?thesis
    using batch_holds_put [OF assms ok fit, of c] True by (simp add: object_put_def object_put_cf_def default_cf_def)
next
  case False
  then obtain e where "batch_put DEFAULT_CF_ID key value (bo_batch o') = Some (Inl e, bo_batch o')"
    using batch_put_rejects [OF assms] by blast
  then show ?thesis
    using False by (auto simp: object_put_def object_put_cf_def default_cf_def)
qed

section \<open>Properties\<close>

text \<open>
  Also:  Resetting a batch handle: \<open>Batch::reset\<close> goes through exactly when the runtime state
  is \<open>Acquired\<close> or \<open>Applied\<close> and the completion waiter was never primed, reached
  \<open>SyncDone\<close>, or is primed and the wait returns \<open>Ok\<close>; otherwise it panics.  The
  result is an uncommitted, acquired, empty batch in the same allocation.
\<close>

theorem batch_reset_correct:
  assumes "bi_state (bo_batch o') = batch_state_u8 st" and "sw_state (bi_waiter (bo_batch o')) = wal_sync_u8 ws"
    and "batch_sized (bo_batch o')"
  shows "(batch_reset waited o' \<noteq> None \<longleftrightarrow>
       is_reset_safe st \<and> (ws = WS_Init \<or> ws = WS_SyncDone \<or> (ws = WS_Primed \<and> waited = Inr ())))
    \<and> (\<forall>q. batch_reset waited o' = Some q \<longrightarrow>
         bo_commit q = UnCommitted \<and> object_state q = Some BS_Acquired \<and> batch_holds 0 [] (bo_batch q)
         \<and> ob_addr (bo_inner q) = ob_addr (bo_inner o') \<and> bi_waiter (bo_batch q) = bi_waiter (bo_batch o'))"
proof -
  have w: "wait_until_reusable waited o' = Some (Inr ()) \<longleftrightarrow>
      (ws = WS_Init \<or> ws = WS_SyncDone \<or> (ws = WS_Primed \<and> waited = Inr ()))"
    unfolding wait_until_reusable_def sync_waiter_state_u8 [OF assms(2)]
    by (cases ws) (simp_all split: sum.splits)
  have wd: "\<exists>r. wait_until_reusable waited o' = Some r"
    unfolding wait_until_reusable_def sync_waiter_state_u8 [OF assms(2)]
    by (cases ws) simp_all
  have can: "object_can_reset o' = Some (is_reset_safe st)"
    by (simp add: object_can_reset_def object_state_def assms(1) del: batch_state_u8.simps)
  have reset: "batch_reset waited o' = (if is_reset_safe st \<and> wait_until_reusable waited o' = Some (Inr ())
      then reset_batch o' else None)"
    using wd by (elim exE) (simp add: batch_reset_def can)
  have holds: "batch_holds 0 [] q" if "bi_data q = []" "bi_count q = 0" "bi_max q = bi_max (bo_batch o')" for q
    using that assms(3) by (intro batch_holds_zeros) (simp_all add: batch_sized_def)
  show ?thesis
    unfolding reset reset_batch_eq [OF assms(1)] w
    by (auto simp: object_state_def intro!: holds simp del: batch_state_u8.simps)
qed

theorem batch_reset_correct_witness:
  "batch_reset (Inr ()) (object_new 3) \<noteq> None"
proof -
  have "bi_state (bo_batch (object_new 3)) = batch_state_u8 BS_Acquired"
    and "sw_state (bi_waiter (bo_batch (object_new 3))) = wal_sync_u8 WS_Init"
    and "batch_sized (bo_batch (object_new 3))"
    by (simp_all add: object_new_def sync_waiter_default_def batch_sized_def MAX_BATCH_SIZE_eq u32_MAX_def)
  from batch_reset_correct [OF this, of "Inr ()"] show ?thesis
    by (simp add: is_reset_safe_def RESET_SAFE_STATES_def)
qed

text \<open>
  Also:  The user-facing put gives no sign of a rejected write: \<open>BatchObject::put\<close> returns
  normally for every key and value; the record is appended when the inner put accepts it, and
  when the inner put returns an error (oversized key, value or record, or a full batch) the
  object is unchanged and the error is lost.
\<close>

theorem object_put_drops_errors:
  assumes "batch_holds seq rs (bo_batch o')"
  shows "\<exists>q. object_put key value o' = Some q
    \<and> ((\<exists>e. batch_put DEFAULT_CF_ID key value (bo_batch o') = Some (Inl e, bo_batch o')) \<and> q = o'
      \<or> batch_holds seq (rs @ [\<lparr>rec_kind = RK_Put, rec_cf = DEFAULT_CF_ID, rec_key = key, rec_value = value\<rparr>])
          (bo_batch q))"
  using object_put_outcome [OF assms, of key "value"] by (metis (no_types, lifting))

theorem object_put_drops_errors_witness:
  "\<exists>q. object_put [1] [2] (object_new 0) = Some q
    \<and> ((\<exists>e. batch_put DEFAULT_CF_ID [1] [2] (bo_batch (object_new 0)) = Some (Inl e, bo_batch (object_new 0)))
        \<and> q = object_new 0
      \<or> batch_holds 0 ([] @ [\<lparr>rec_kind = RK_Put, rec_cf = DEFAULT_CF_ID, rec_key = [1], rec_value = [2]\<rparr>])
          (bo_batch q))"
  by (rule object_put_drops_errors) (simp add: object_new_def batch_inner_new_holds)

end
