(* ===== verification/Batch_Pool.thy ===== *)
theory Batch_Pool
  imports Batch_Object "HOL-Library.Multiset"
begin

text \<open>
  The batch pool of \<open>crates/engine/src/db/batch_pool.rs\<close>: the per-thread cache, the shards
  and the pool with \<open>acquire_object\<close> and \<open>release\<close>.  A \<open>MaybeUninit\<close> array is a list of
  optional allocations; reading a slot that is not initialised is \<open>None\<close>.  The const
  parameters are the lengths of the arrays and the argument \<open>target\<close>.  A pool operation of
  one thread uses its own cache and takes each shard's mutex for one shard operation.
\<close>

section \<open>The thread cache\<close>

record thread_batch_cache =
  tc_shard_idx :: "nat option"
  tc_len :: byte
  tc_batches :: "owned_batch_ptr option list"

definition cache_new :: "nat \<Rightarrow> nat \<Rightarrow> thread_batch_cache option" where
  "cache_new cap target =
     do {
       assert_that (cap > 0);
       assert_that (cap \<le> 255);
       assert_that (target > 0);
       assert_that (target \<le> cap);
       Some \<lparr>tc_shard_idx = None, tc_len = 0, tc_batches = replicate cap None\<rparr>
     }"

definition cache_len :: "thread_batch_cache \<Rightarrow> nat" where
  "cache_len c = unat (tc_len c)"

definition cache_push ::
  "owned_batch_ptr \<Rightarrow> thread_batch_cache \<Rightarrow> ((owned_batch_ptr + unit) \<times> thread_batch_cache) option" where
  "cache_push entry c =
     do {
       assert_that (unat (tc_len c) \<le> length (tc_batches c));
       if unat (tc_len c) = length (tc_batches c) then Some (Inl entry, c)
       else do {
         let entry = alloc_set_runtime_state BS_Idle entry;
         bs \<leftarrow> set_at (unat (tc_len c)) (Some entry) (tc_batches c);
         assert_that (unat (tc_len c) < 255);
         Some (Inr (), c\<lparr>tc_batches := bs, tc_len := tc_len c + 1\<rparr>)
       }
     }"

definition cache_pop ::
  "thread_batch_cache \<Rightarrow> (owned_batch_ptr option \<times> thread_batch_cache) option" where
  "cache_pop c =
     do {
       assert_that (unat (tc_len c) \<le> length (tc_batches c));
       if tc_len c = 0 then Some (None, c)
       else do {
         let idx = unat (tc_len c) - 1;
         slot \<leftarrow> get_at idx (tc_batches c);
         bs \<leftarrow> set_at idx None (tc_batches c);
         entry \<leftarrow> slot;
         Some (Some entry, c\<lparr>tc_batches := bs, tc_len := tc_len c - 1\<rparr>)
       }
     }"

text \<open>\<open>unref\<close>: the initialised prefix is read out and dropped with the cache.\<close>

definition cache_unref :: "thread_batch_cache \<Rightarrow> owned_batch_ptr list option" where
  "cache_unref c = those (take (unat (tc_len c)) (tc_batches c))"

section \<open>The shards\<close>

record shard_inner =
  sh_len :: byte
  sh_batches :: "owned_batch_ptr option list"

definition shard_new :: "nat \<Rightarrow> shard_inner option" where
  "shard_new cap =
     do {
       assert_that (cap > 0);
       assert_that (cap \<le> 255);
       Some \<lparr>sh_len = 0, sh_batches = replicate cap None\<rparr>
     }"

definition shard_pop :: "shard_inner \<Rightarrow> (owned_batch_ptr option \<times> shard_inner) option" where
  "shard_pop s =
     do {
       assert_that (unat (sh_len s) \<le> length (sh_batches s));
       if sh_len s = 0 then Some (None, s)
       else do {
         let len = sh_len s - 1;
         let idx = unat len;
         slot \<leftarrow> get_at idx (sh_batches s);
         bs \<leftarrow> set_at idx None (sh_batches s);
         entry \<leftarrow> slot;
         Some (Some entry, s\<lparr>sh_batches := bs, sh_len := len\<rparr>)
       }
     }"

definition shard_push ::
  "owned_batch_ptr \<Rightarrow> shard_inner \<Rightarrow> ((owned_batch_ptr + unit) \<times> shard_inner) option" where
  "shard_push batch s =
     do {
       assert_that (unat (sh_len s) \<le> length (sh_batches s));
       if unat (sh_len s) = length (sh_batches s) then Some (Inl batch, s)
       else do {
         let batch = alloc_set_runtime_state BS_Idle batch;
         let idx = unat (sh_len s);
         bs \<leftarrow> set_at idx (Some batch) (sh_batches s);
         assert_that (unat (sh_len s) < 255);
         Some (Inr (), s\<lparr>sh_batches := bs, sh_len := sh_len s + 1\<rparr>)
       }
     }"

text \<open>\<open>Drop\<close>: the entries are dropped from the last to the first.\<close>

function shard_drop :: "shard_inner \<Rightarrow> owned_batch_ptr list \<Rightarrow> owned_batch_ptr list option" where
  "shard_drop s dropped =
     (if sh_len s > 0
      then do {
        let s = s\<lparr>sh_len := sh_len s - 1\<rparr>;
        let index = unat (sh_len s);
        slot \<leftarrow> get_at index (sh_batches s);
        entry \<leftarrow> slot;
        shard_drop s (dropped @ [entry])
      }
      else Some dropped)"
  by pat_completeness auto
termination
proof (relation "measure (\<lambda>(s, d). unat (sh_len s))", goal_cases)
  case 1
  then show ?case by simp
next
  case (2 s d)
  then have "sh_len s \<noteq> 0" by auto
  then show ?case using 2 by (simp add: unat_minus_one unat_gt_0)
qed

declare shard_drop.simps [simp del]

section \<open>Pool state and statistics\<close>

record pool_stats =
  tls_misses :: nat
  global_batches_reused :: nat
  allocations :: nat
  allocated_bytes :: nat
  batches_dropped :: nat

definition stats_new :: pool_stats where
  "stats_new = \<lparr>tls_misses = 0, global_batches_reused = 0, allocations = 0, allocated_bytes = 0,
     batches_dropped = 0\<rparr>"

text \<open>
  \<open>bp_caches\<close> is the TLS column: one optional cache per thread.  \<open>bp_next_addr\<close> is the next
  address the allocator returns and \<open>bp_freed\<close> lists the addresses of dropped allocations.
\<close>

record batch_pool =
  bp_caches :: "thread_batch_cache option list"
  bp_shards :: "shard_inner list"
  bp_tls_cap :: nat
  bp_target :: nat
  bp_next_shard :: nat
  bp_stats :: pool_stats
  bp_next_addr :: nat
  bp_freed :: "nat list"

definition pool_with_factory :: "nat \<Rightarrow> nat \<Rightarrow> nat \<Rightarrow> nat \<Rightarrow> nat \<Rightarrow> batch_pool option" where
  "pool_with_factory threads shards shard_cap tls_cap target =
     do {
       s \<leftarrow> shard_new shard_cap;
       Some \<lparr>bp_caches = replicate threads None, bp_shards = replicate shards s, bp_tls_cap = tls_cap,
             bp_target = target, bp_next_shard = 0, bp_stats = stats_new, bp_next_addr = 0,
             bp_freed = []\<rparr>
     }"

definition stats_snapshot :: "batch_pool \<Rightarrow> pool_stats" where
  "stats_snapshot p = bp_stats p"

text \<open>The caller's cache, created on first use; the other rows are not touched.\<close>

definition thread_cache :: "nat \<Rightarrow> batch_pool \<Rightarrow> thread_batch_cache option" where
  "thread_cache t p =
     do {
       cell \<leftarrow> get_at t (bp_caches p);
       case cell of Some c \<Rightarrow> Some c | None \<Rightarrow> cache_new (bp_tls_cap p) (bp_target p)
     }"

definition put_cache :: "nat \<Rightarrow> thread_batch_cache \<Rightarrow> batch_pool \<Rightarrow> batch_pool" where
  "put_cache t c p = p\<lparr>bp_caches := (bp_caches p)[t := Some c]\<rparr>"

definition assign_shard_idx :: "thread_batch_cache \<Rightarrow> batch_pool \<Rightarrow> (nat \<times> thread_batch_cache \<times> batch_pool) option" where
  "assign_shard_idx c p =
     do {
       assert_that (bp_shards p \<noteq> []);
       let id' = bp_next_shard p mod length (bp_shards p);
       Some (id', c\<lparr>tc_shard_idx := Some id'\<rparr>,
             p\<lparr>bp_next_shard := (bp_next_shard p + 1) mod 2 ^ 64\<rparr>)
     }"

definition shard_idx_for_cache :: "thread_batch_cache \<Rightarrow> batch_pool \<Rightarrow> (nat \<times> thread_batch_cache \<times> batch_pool) option" where
  "shard_idx_for_cache c p =
     (case tc_shard_idx c of Some i \<Rightarrow> Some (i, c, p) | None \<Rightarrow> assign_shard_idx c p)"

definition push_to_global :: "nat \<Rightarrow> owned_batch_ptr \<Rightarrow> batch_pool \<Rightarrow> ((owned_batch_ptr + unit) \<times> batch_pool) option" where
  "push_to_global shard_idx batch p =
     do {
       s \<leftarrow> get_at shard_idx (bp_shards p);
       (r, s) \<leftarrow> shard_push batch s;
       Some (r, p\<lparr>bp_shards := (bp_shards p)[shard_idx := s]\<rparr>)
     }"

definition pop_global :: "nat \<Rightarrow> batch_pool \<Rightarrow> (owned_batch_ptr option \<times> batch_pool) option" where
  "pop_global shard_idx p =
     do {
       s \<leftarrow> get_at shard_idx (bp_shards p);
       (r, s) \<leftarrow> shard_pop s;
       Some (r, p\<lparr>bp_shards := (bp_shards p)[shard_idx := s]\<rparr>)
     }"

definition free_batch :: "owned_batch_ptr \<Rightarrow> batch_pool \<Rightarrow> batch_pool" where
  "free_batch a p = p\<lparr>bp_freed := ob_addr a # bp_freed p\<rparr>"

section \<open>Acquire\<close>

definition try_acquire_from_tls :: "thread_batch_cache \<Rightarrow> (batch_object option \<times> thread_batch_cache) option" where
  "try_acquire_from_tls c =
     do {
       (e, c) \<leftarrow> cache_pop c;
       Some (map_option object_acquire e, c)
     }"

text \<open>The hydrate loop runs while the cache is below half of its capacity, so a push finds room and
  lengthens the cache; that the other branches of the push are never taken is part of
  \<open>refill_loop_ok\<close> below.\<close>

function refill_loop ::
  "nat \<Rightarrow> nat \<Rightarrow> thread_batch_cache \<Rightarrow> batch_pool \<Rightarrow> (nat \<times> thread_batch_cache \<times> batch_pool) option" where
  "refill_loop i reused c p =
     (if unat (tc_len c) < length (tc_batches c) div 2
      then do {
        (b, p) \<leftarrow> pop_global i p;
        case b of
          None \<Rightarrow> Some (reused, c, p)
        | Some batch \<Rightarrow>
            (case cache_push batch c of
               None \<Rightarrow> None
             | Some (Inl _, c') \<Rightarrow> None
             | Some (Inr _, c') \<Rightarrow>
                 if unat (tc_len c) < unat (tc_len c') \<and> length (tc_batches c') = length (tc_batches c)
                 then refill_loop i (reused + 1) c' p else None)
      }
      else Some (reused, c, p))"
  by pat_completeness auto
termination
  by (relation "measure (\<lambda>(i, r, c, p). length (tc_batches c) div 2 - unat (tc_len c))") auto

declare refill_loop.simps [simp del]

definition refill_tls_cache :: "thread_batch_cache \<Rightarrow> batch_pool \<Rightarrow> (batch_object \<times> thread_batch_cache \<times> batch_pool) option" where
  "refill_tls_cache c p =
     do {
       (i, c, p) \<leftarrow> shard_idx_for_cache c p;
       (popped, p) \<leftarrow> pop_global i p;
       let (reused, allocated, bytes_allocated, returnable, p) =
         (case popped of
            Some batch \<Rightarrow> (1, 0, 0, batch, p)
          | None \<Rightarrow>
              let (bytes, a) = factory_allocate (bp_next_addr p)
              in (0, 1, bytes, a, p\<lparr>bp_next_addr := bp_next_addr p + 1\<rparr>));
       (reused, c, p) \<leftarrow> refill_loop i reused c p;
       let st = bp_stats p;
       let st = st\<lparr>tls_misses := tls_misses st + 1\<rparr>;
       let st = (if allocated \<noteq> 0 then st\<lparr>allocations := allocations st + allocated,
                   allocated_bytes := allocated_bytes st + bytes_allocated\<rparr> else st);
       let st = (if reused \<noteq> 0 then st\<lparr>global_batches_reused := global_batches_reused st + reused\<rparr> else st);
       Some (object_acquire returnable, c, p\<lparr>bp_stats := st\<rparr>)
     }"

definition acquire_object :: "nat \<Rightarrow> batch_pool \<Rightarrow> (batch_object \<times> batch_pool) option" where
  "acquire_object t p =
     do {
       c \<leftarrow> thread_cache t p;
       (o', c) \<leftarrow> try_acquire_from_tls c;
       case o' of
         Some o' \<Rightarrow> Some (o', put_cache t c p)
       | None \<Rightarrow> do {
           (o', c, p) \<leftarrow> refill_tls_cache c p;
           Some (o', put_cache t c p)
         }
     }"

section \<open>Release\<close>

definition try_return_to_cache ::
  "batch_object \<Rightarrow> thread_batch_cache \<Rightarrow> ((batch_object + unit) \<times> thread_batch_cache) option" where
  "try_return_to_cache o' c =
     do {
       (r, c) \<leftarrow> cache_push (object_into_inner o') c;
       Some (case r of Inl a \<Rightarrow> Inl (object_acquire a) | Inr u \<Rightarrow> Inr u, c)
     }"

text \<open>\<open>spill_cache_to_target_retained\<close> with the handler \<open>release\<close> passes to it.\<close>

function spill_cache :: "nat \<Rightarrow> nat \<Rightarrow> thread_batch_cache \<Rightarrow> batch_pool \<Rightarrow> (thread_batch_cache \<times> batch_pool) option" where
  "spill_cache target i c p =
     (if target \<le> unat (tc_len c)
      then do {
        (b, c') \<leftarrow> cache_pop c;
        case b of
          None \<Rightarrow> None
        | Some b \<Rightarrow>
            if unat (tc_len c') < unat (tc_len c)
            then do {
              (r, p) \<leftarrow> push_to_global i b p;
              spill_cache target i c' (case r of Inl b \<Rightarrow> free_batch b p | Inr _ \<Rightarrow> p)
            }
            else None
      }
      else Some (c, p))"
  by pat_completeness auto
termination
  by (relation "measure (\<lambda>(target, i, c, p). unat (tc_len c))") auto

declare spill_cache.simps [simp del]

definition pool_release :: "nat \<Rightarrow> batch_object \<Rightarrow> batch_pool \<Rightarrow> batch_pool option" where
  "pool_release t o' p =
     do {
       o' \<leftarrow> reset_batch o';
       let len = get_batch_size (ob_batch (bo_inner o'));
       let o' = (if DEFAULT_BATCH_INIT_SIZE * 2 \<le> len then object_shrink_to DEFAULT_BATCH_INIT_SIZE o' else o');
       c \<leftarrow> thread_cache t p;
       (r, c) \<leftarrow> cache_push (object_into_inner o') c;
       case r of
         Inr _ \<Rightarrow> Some (put_cache t c p)
       | Inl batch \<Rightarrow> do {
           (i, c, p) \<leftarrow> shard_idx_for_cache c p;
           (c, p) \<leftarrow> spill_cache (bp_target p) i c p;
           (r, c) \<leftarrow> cache_push batch c;
           assert_that (r = Inr ());
           Some (put_cache t c p)
         }
     }"

definition batch_close :: "wait_result \<Rightarrow> nat \<Rightarrow> batch_object \<Rightarrow> batch_pool \<Rightarrow> ((engine_error + unit) \<times> batch_pool) option" where
  "batch_close waited t o' p =
     do {
       r \<leftarrow> wait_until_reusable waited o';
       case r of
         Inl e \<Rightarrow> Some (Inl e, p)
       | Inr _ \<Rightarrow> map_option (Pair (Inr ())) (pool_release t o' p)
     }"

section \<open>The contract of a bounded stack\<close>

text \<open>What the pool relies on in both storage tiers.\<close>

locale bounded_stack =
  fixes push :: "'a \<Rightarrow> 's \<Rightarrow> (('a + unit) \<times> 's) option"
    and pop :: "'s \<Rightarrow> ('a option \<times> 's) option"
    and ok :: "'s \<Rightarrow> bool" and contents :: "'s \<Rightarrow> 'a list" and cap :: "'s \<Rightarrow> nat"
    and mark :: "'a \<Rightarrow> 'a"
  assumes within: "ok s \<Longrightarrow> length (contents s) \<le> cap s"
    and push_full: "ok s \<Longrightarrow> length (contents s) = cap s \<Longrightarrow> push x s = Some (Inl x, s)"
    and push_room: "ok s \<Longrightarrow> length (contents s) < cap s \<Longrightarrow>
      \<exists>s'. push x s = Some (Inr (), s') \<and> ok s' \<and> contents s' = contents s @ [mark x] \<and> cap s' = cap s"
    and pop_empty: "ok s \<Longrightarrow> contents s = [] \<Longrightarrow> pop s = Some (None, s)"
    and pop_last: "ok s \<Longrightarrow> contents s = xs @ [x] \<Longrightarrow>
      \<exists>s'. pop s = Some (Some x, s') \<and> ok s' \<and> contents s' = xs \<and> cap s' = cap s"
begin

lemma push_cases:
  assumes "ok s"
  obtains (full) "length (contents s) = cap s" "push x s = Some (Inl x, s)"
  | (room) s' where "length (contents s) < cap s" "push x s = Some (Inr (), s')" "ok s'"
      "contents s' = contents s @ [mark x]" "cap s' = cap s"
proof (cases "length (contents s) = cap s")
  case True
  then show ?thesis using full push_full [OF assms] by blast
next
  case False
  then have "length (contents s) < cap s" using within [OF assms] by simp
  then show ?thesis using room push_room [OF assms] by blast
qed

lemma pop_cases:
  assumes "ok s"
  obtains (empty) "contents s = []" "pop s = Some (None, s)"
  | (last) x s' where "contents s = contents s' @ [x]" "pop s = Some (Some x, s')" "ok s'"
      "cap s' = cap s"
proof (cases "contents s" rule: rev_cases)
  case Nil
  then show ?thesis using empty pop_empty [OF assms] by blast
next
  case (snoc xs x)
  then show ?thesis using last pop_last [OF assms snoc] by metis
qed

lemma push_pop:
  assumes "ok s" and "length (contents s) < cap s"
  shows "\<exists>s' s''. push x s = Some (Inr (), s') \<and> pop s' = Some (Some (mark x), s'')
    \<and> ok s'' \<and> contents s'' = contents s \<and> cap s'' = cap s"
proof -
  obtain s' where s': "push x s = Some (Inr (), s')" "ok s'" "contents s' = contents s @ [mark x]" "cap s' = cap s"
    using push_room [OF assms] by blast
  then show ?thesis using pop_last [OF s'(2,3)] by auto
qed

end

section \<open>Both tiers meet it\<close>

definition slots_ok :: "byte \<Rightarrow> 'a option list \<Rightarrow> bool" where
  "slots_ok len slots \<longleftrightarrow> unat len \<le> length slots \<and> length slots \<le> 255
     \<and> (\<forall>i < unat len. slots ! i \<noteq> None)"

definition slots_contents :: "byte \<Rightarrow> 'a option list \<Rightarrow> 'a list" where
  "slots_contents len slots = map the (take (unat len) slots)"

lemma unat_byte_plus_one: "unat (len :: byte) < 255 \<Longrightarrow> unat (len + 1) = unat len + 1"
  by (simp add: unat_word_ariths)

lemma unat_byte_minus_one: "(len :: byte) \<noteq> 0 \<Longrightarrow> unat (len - 1) = unat len - 1"
  by (simp add: unat_minus_one)

lemma slots_push:
  assumes "slots_ok len slots" and "unat len < length slots"
  shows "unat len < 255" and "slots_ok (len + 1) (slots[unat len := Some x])"
    and "slots_contents (len + 1) (slots[unat len := Some x]) = slots_contents len slots @ [x]"
proof -
  show l: "unat len < 255" using assms by (simp add: slots_ok_def)
  show "slots_ok (len + 1) (slots[unat len := Some x])"
    using assms unfolding slots_ok_def unat_byte_plus_one [OF l]
    by (auto simp: nth_list_update less_Suc_eq)
  show "slots_contents (len + 1) (slots[unat len := Some x]) = slots_contents len slots @ [x]"
    using assms unfolding slots_contents_def unat_byte_plus_one [OF l]
    by (simp add: take_Suc_conv_app_nth)
qed

lemma slots_pop:
  assumes "slots_ok len slots" and "len \<noteq> 0"
  obtains x where "unat len - 1 < length slots" "slots ! (unat len - 1) = Some x"
    "slots_ok (len - 1) (slots[unat len - 1 := None])"
    "slots_contents len slots = slots_contents (len - 1) (slots[unat len - 1 := None]) @ [x]"
proof -
  have pos: "0 < unat len" using assms(2) by (simp add: unat_gt_0)
  then obtain n where n: "unat len = Suc n" by (cases "unat len") simp_all
  have m: "unat (len - 1) = n" using unat_byte_minus_one [OF assms(2)] n by simp
  have nl: "n < length slots" using assms(1) n by (simp add: slots_ok_def)
  obtain x where x: "slots ! n = Some x" using assms(1) n by (auto simp: slots_ok_def)
  show thesis
    using that [of x] assms(1) n m nl x
    by (simp add: slots_ok_def slots_contents_def take_Suc_conv_app_nth nth_list_update)
qed

abbreviation idle_mark :: "owned_batch_ptr \<Rightarrow> owned_batch_ptr" where
  "idle_mark \<equiv> alloc_set_runtime_state BS_Idle"

definition cache_ok :: "thread_batch_cache \<Rightarrow> bool" where
  "cache_ok c = slots_ok (tc_len c) (tc_batches c)"

definition cache_contents :: "thread_batch_cache \<Rightarrow> owned_batch_ptr list" where
  "cache_contents c = slots_contents (tc_len c) (tc_batches c)"

definition cache_cap :: "thread_batch_cache \<Rightarrow> nat" where
  "cache_cap c = length (tc_batches c)"

definition shard_ok :: "shard_inner \<Rightarrow> bool" where
  "shard_ok s = slots_ok (sh_len s) (sh_batches s)"

definition shard_contents :: "shard_inner \<Rightarrow> owned_batch_ptr list" where
  "shard_contents s = slots_contents (sh_len s) (sh_batches s)"

definition shard_cap :: "shard_inner \<Rightarrow> nat" where
  "shard_cap s = length (sh_batches s)"

lemma length_slots_contents: "slots_ok len slots \<Longrightarrow> length (slots_contents len slots) = unat len"
  by (simp add: slots_ok_def slots_contents_def)

lemma length_cache_contents: "cache_ok c \<Longrightarrow> length (cache_contents c) = unat (tc_len c)"
  by (simp add: cache_ok_def cache_contents_def length_slots_contents)

lemma unat_len_eq_0: "slots_ok len slots \<Longrightarrow> slots_contents len slots = [] \<longleftrightarrow> len = 0"
  by (auto simp: length_slots_contents unat_eq_0 simp flip: length_0_conv)

interpretation cache_stack: bounded_stack cache_push cache_pop cache_ok cache_contents cache_cap idle_mark
proof (unfold_locales, goal_cases)
  case (1 s)
  then show ?case by (simp add: length_cache_contents cache_cap_def cache_ok_def slots_ok_def)
next
  case (2 s x)
  then show ?case
    by (simp add: length_cache_contents cache_cap_def cache_push_def)
next
  case (3 s x)
  then have "slots_ok (tc_len s) (tc_batches s)" "unat (tc_len s) < length (tc_batches s)"
    by (simp_all add: length_cache_contents cache_cap_def, simp add: cache_ok_def)
  note p = slots_push(1) [OF this] slots_push(2,3) [OF this, of "idle_mark x"] and l = this(2)
  show ?case
    using l p by (simp add: cache_push_def set_at_def cache_ok_def cache_contents_def cache_cap_def)
next
  case (4 s)
  then show ?case
    by (simp add: cache_pop_def cache_ok_def cache_contents_def unat_len_eq_0)
next
  case (5 s xs x)
  then have ok: "slots_ok (tc_len s) (tc_batches s)" and nz: "tc_len s \<noteq> 0"
    using unat_len_eq_0 [of "tc_len s" "tc_batches s"] by (auto simp: cache_ok_def cache_contents_def)
  obtain y where y: "unat (tc_len s) - 1 < length (tc_batches s)" "tc_batches s ! (unat (tc_len s) - 1) = Some y"
      "slots_ok (tc_len s - 1) ((tc_batches s)[unat (tc_len s) - 1 := None])"
      "slots_contents (tc_len s) (tc_batches s)
        = slots_contents (tc_len s - 1) ((tc_batches s)[unat (tc_len s) - 1 := None]) @ [y]"
    by (rule slots_pop [OF ok nz])
  have bound: "unat (tc_len s) \<le> length (tc_batches s)" using ok by (simp add: slots_ok_def)
  have "cache_pop s = Some (Some y, s\<lparr>tc_batches := (tc_batches s)[unat (tc_len s) - 1 := None],
      tc_len := tc_len s - 1\<rparr>)"
    using bound nz y(1,2) by (simp add: cache_pop_def get_at_def set_at_def)
  then show ?case
    using 5(2) y(3,4) by (simp add: cache_ok_def cache_contents_def cache_cap_def)
qed

interpretation shard_stack: bounded_stack shard_push shard_pop shard_ok shard_contents shard_cap idle_mark
proof (unfold_locales, goal_cases)
  case (1 s)
  then show ?case by (simp add: shard_contents_def shard_cap_def shard_ok_def slots_ok_def slots_contents_def)
next
  case (2 s x)
  then show ?case
    by (simp add: shard_ok_def shard_contents_def length_slots_contents shard_cap_def shard_push_def)
next
  case (3 s x)
  then have "slots_ok (sh_len s) (sh_batches s)" "unat (sh_len s) < length (sh_batches s)"
    by (simp_all add: shard_contents_def length_slots_contents shard_cap_def shard_ok_def)
  note p = slots_push(1) [OF this] slots_push(2,3) [OF this, of "idle_mark x"] and l = this(2)
  show ?case
    using l p by (simp add: shard_push_def set_at_def shard_ok_def shard_contents_def shard_cap_def)
next
  case (4 s)
  then show ?case
    by (simp add: shard_pop_def shard_ok_def shard_contents_def unat_len_eq_0)
next
  case (5 s xs x)
  then have ok: "slots_ok (sh_len s) (sh_batches s)" and nz: "sh_len s \<noteq> 0"
    using unat_len_eq_0 [of "sh_len s" "sh_batches s"] by (auto simp: shard_ok_def shard_contents_def)
  obtain y where y: "unat (sh_len s) - 1 < length (sh_batches s)" "sh_batches s ! (unat (sh_len s) - 1) = Some y"
      "slots_ok (sh_len s - 1) ((sh_batches s)[unat (sh_len s) - 1 := None])"
      "slots_contents (sh_len s) (sh_batches s)
        = slots_contents (sh_len s - 1) ((sh_batches s)[unat (sh_len s) - 1 := None]) @ [y]"
    by (rule slots_pop [OF ok nz])
  have bound: "unat (sh_len s) \<le> length (sh_batches s)" using ok by (simp add: slots_ok_def)
  have "shard_pop s = Some (Some y, s\<lparr>sh_batches := (sh_batches s)[unat (sh_len s) - 1 := None],
      sh_len := sh_len s - 1\<rparr>)"
    using bound nz y(1,2) by (simp add: shard_pop_def get_at_def set_at_def unat_byte_minus_one [OF nz])
  then show ?case
    using 5(2) y(3,4) by (simp add: shard_ok_def shard_contents_def shard_cap_def)
qed

section \<open>The pool invariant\<close>

text \<open>A retained allocation is idle and holds an empty batch.\<close>

definition alloc_clean :: "owned_batch_ptr \<Rightarrow> bool" where
  "alloc_clean a \<longleftrightarrow> bi_data (ob_batch a) = [] \<and> bi_count (ob_batch a) = 0
     \<and> bi_max (ob_batch a) \<le> u32_MAX"

definition alloc_idle :: "owned_batch_ptr \<Rightarrow> bool" where
  "alloc_idle a \<longleftrightarrow> alloc_clean a \<and> bi_state (ob_batch a) = batch_state_u8 BS_Idle"

definition addrs :: "owned_batch_ptr list \<Rightarrow> nat multiset" where
  "addrs as = mset (map ob_addr as)"

definition cache_good :: "batch_pool \<Rightarrow> thread_batch_cache \<Rightarrow> bool" where
  "cache_good p c \<longleftrightarrow> cache_ok c \<and> cache_cap c = bp_tls_cap p \<and> list_all alloc_idle (cache_contents c)
     \<and> (\<forall>i. tc_shard_idx c = Some i \<longrightarrow> i < length (bp_shards p))"

definition shards_good :: "batch_pool \<Rightarrow> bool" where
  "shards_good p \<longleftrightarrow> bp_shards p \<noteq> []
     \<and> list_all (\<lambda>s. shard_ok s \<and> list_all alloc_idle (shard_contents s)) (bp_shards p)"

definition pool_ok :: "batch_pool \<Rightarrow> bool" where
  "pool_ok p \<longleftrightarrow> shards_good p \<and> 0 < bp_target p \<and> bp_target p \<le> bp_tls_cap p \<and> bp_tls_cap p \<le> 255
     \<and> list_all (\<lambda>cell. case cell of None \<Rightarrow> True | Some c \<Rightarrow> cache_good p c) (bp_caches p)"

definition cell_addrs :: "thread_batch_cache option \<Rightarrow> nat multiset" where
  "cell_addrs cell = (case cell of None \<Rightarrow> {#} | Some c \<Rightarrow> addrs (cache_contents c))"

definition global_addrs :: "batch_pool \<Rightarrow> nat multiset" where
  "global_addrs p = sum_list (map (\<lambda>s. addrs (shard_contents s)) (bp_shards p))"

definition pool_addrs :: "batch_pool \<Rightarrow> nat multiset" where
  "pool_addrs p = global_addrs p + sum_list (map cell_addrs (bp_caches p))"

lemma addrs_simps [simp]:
  "addrs [] = {#}" "addrs (xs @ [x]) = add_mset (ob_addr x) (addrs xs)"
  by (simp_all add: addrs_def)

lemma idle_mark_simps [simp]:
  "ob_addr (idle_mark a) = ob_addr a" "alloc_idle (idle_mark a) = alloc_clean a"
  by (simp_all add: alloc_set_runtime_state_def batch_set_runtime_state_def alloc_idle_def alloc_clean_def)

lemma alloc_idle_clean: "alloc_idle a \<Longrightarrow> alloc_clean a"
  by (simp add: alloc_idle_def)

lemma msum_update:
  fixes f :: "'a \<Rightarrow> 'b :: comm_monoid_add"
  shows "i < length xs \<Longrightarrow> sum_list (map f (xs[i := y])) + f (xs ! i) = sum_list (map f xs) + f y"
proof (induction xs arbitrary: i)
  case (Cons x xs)
  then show ?case by (cases i) (auto simp: ac_simps)
qed simp

text \<open>What a step on the shards keeps of the rest of the pool.\<close>

definition same_frame :: "batch_pool \<Rightarrow> batch_pool \<Rightarrow> bool" where
  "same_frame p p' \<longleftrightarrow> bp_caches p' = bp_caches p \<and> bp_tls_cap p' = bp_tls_cap p
     \<and> bp_target p' = bp_target p \<and> length (bp_shards p') = length (bp_shards p)"

lemma same_frame_refl [simp]: "same_frame p p"
  by (simp add: same_frame_def)

lemma same_frame_trans: "same_frame p q \<Longrightarrow> same_frame q r \<Longrightarrow> same_frame p r"
  by (simp add: same_frame_def)

lemma same_frame_cache_good: "same_frame p q \<Longrightarrow> cache_good q c = cache_good p c"
  by (simp add: same_frame_def cache_good_def)

lemma shards_good_nth:
  "shards_good p \<Longrightarrow> i < length (bp_shards p) \<Longrightarrow>
   shard_ok (bp_shards p ! i) \<and> list_all alloc_idle (shard_contents (bp_shards p ! i))"
  by (simp add: shards_good_def list_all_length)

lemma shards_good_update:
  assumes "shards_good p" and "i < length (bp_shards p)" and "shard_ok s" and "list_all alloc_idle (shard_contents s)"
  shows "shards_good (p\<lparr>bp_shards := (bp_shards p)[i := s]\<rparr>)"
    and "global_addrs (p\<lparr>bp_shards := (bp_shards p)[i := s]\<rparr>) + addrs (shard_contents (bp_shards p ! i))
      = global_addrs p + addrs (shard_contents s)"
  using assms msum_update [of i "bp_shards p" "\<lambda>s. addrs (shard_contents s)" s]
  by (auto simp: shards_good_def global_addrs_def list_all_length nth_list_update)

lemma pop_global_cases:
  assumes "shards_good p" and "i < length (bp_shards p)"
  obtains (empty) "pop_global i p = Some (None, p)"
  | (last) a p' where "pop_global i p = Some (Some a, p')" "alloc_idle a" "shards_good p'" "same_frame p p'"
      "bp_next_addr p' = bp_next_addr p" "bp_freed p' = bp_freed p"
      "global_addrs p = add_mset (ob_addr a) (global_addrs p')"
proof -
  let ?s = "bp_shards p ! i"
  note s = shards_good_nth [OF assms]
  have get: "get_at i (bp_shards p) = Some ?s" using assms(2) by (simp add: get_at_def)
  from s have ok: "shard_ok ?s" by simp
  then show thesis
  proof (cases rule: shard_stack.pop_cases)
    case empty
    then have "pop_global i p = Some (None, p)" by (simp add: pop_global_def get)
    then show thesis by (rule that(1))
  next
    case (last x s')
    let ?p' = "p\<lparr>bp_shards := (bp_shards p)[i := s']\<rparr>"
    have idle: "alloc_idle x" "list_all alloc_idle (shard_contents s')"
      using s last(1) by simp_all
    note u = shards_good_update [OF assms last(3) idle(2)]
    have "pop_global i p = Some (Some x, ?p')" by (simp add: pop_global_def get last(2))
    moreover have "global_addrs p = add_mset (ob_addr x) (global_addrs ?p')"
      using u(2) last(1) by (simp add: union_ac)
    ultimately show thesis using that(2) idle(1) u(1) by (simp add: same_frame_def)
  qed
qed

lemma push_to_global_cases:
  assumes "shards_good p" and "i < length (bp_shards p)" and "alloc_idle a"
  obtains (full) "push_to_global i a p = Some (Inl a, p)"
  | (room) p' where "push_to_global i a p = Some (Inr (), p')" "shards_good p'" "same_frame p p'"
      "bp_next_addr p' = bp_next_addr p" "bp_freed p' = bp_freed p"
      "global_addrs p' = add_mset (ob_addr a) (global_addrs p)"
proof -
  let ?s = "bp_shards p ! i"
  note s = shards_good_nth [OF assms(1,2)]
  have get: "get_at i (bp_shards p) = Some ?s" using assms(2) by (simp add: get_at_def)
  from s have ok: "shard_ok ?s" by simp
  then show thesis
  proof (cases rule: shard_stack.push_cases [where x = a])
    case full
    then have "push_to_global i a p = Some (Inl a, p)" by (simp add: push_to_global_def get)
    then show thesis by (rule that(1))
  next
    case (room s')
    let ?p' = "p\<lparr>bp_shards := (bp_shards p)[i := s']\<rparr>"
    have idle: "list_all alloc_idle (shard_contents s')"
      using s assms(3) room(4) by (simp add: alloc_idle_clean)
    note u = shards_good_update [OF assms(1,2) room(3) idle]
    have "push_to_global i a p = Some (Inr (), ?p')" by (simp add: push_to_global_def get room(2))
    moreover have "global_addrs ?p' = add_mset (ob_addr a) (global_addrs p)"
      using u(2) room(4) by (simp add: union_ac)
    ultimately show thesis using that(2) u(1) by (simp add: same_frame_def)
  qed
qed

lemma cache_pop_shard_idx: "cache_pop c = Some (e, c') \<Longrightarrow> tc_shard_idx c' = tc_shard_idx c"
  by (auto simp: cache_pop_def Let_def split: if_splits bind_splits)

lemma cache_push_shard_idx: "cache_push a c = Some (r, c') \<Longrightarrow> tc_shard_idx c' = tc_shard_idx c"
  by (auto simp: cache_push_def Let_def split: if_splits bind_splits)

lemma cache_pop_good:
  assumes "cache_good p c"
  obtains (empty) "cache_contents c = []" "cache_pop c = Some (None, c)"
  | (last) a c' where "cache_contents c = cache_contents c' @ [a]" "cache_pop c = Some (Some a, c')"
      "cache_good p c'" "alloc_idle a"
proof -
  have "cache_ok c" using assms by (simp add: cache_good_def)
  then show thesis
  proof (cases rule: cache_stack.pop_cases)
    case empty
    then show thesis by (rule that(1))
  next
    case (last x c')
    have "cache_good p c' \<and> alloc_idle x"
      using assms last cache_pop_shard_idx [OF last(2)] by (simp add: cache_good_def)
    then show thesis using that(2) last(1,2) by blast
  qed
qed

lemma cache_push_good:
  assumes "cache_good p c" and "alloc_clean a"
  obtains (full) "length (cache_contents c) = bp_tls_cap p" "cache_push a c = Some (Inl a, c)"
  | (room) c' where "length (cache_contents c) < bp_tls_cap p" "cache_push a c = Some (Inr (), c')"
      "cache_good p c'" "cache_contents c' = cache_contents c @ [idle_mark a]"
proof -
  have ok: "cache_ok c" and cap: "cache_cap c = bp_tls_cap p" using assms by (simp_all add: cache_good_def)
  from ok show thesis
  proof (cases rule: cache_stack.push_cases [where x = a])
    case full
    then show thesis using that(1) cap by simp
  next
    case (room c')
    have "cache_good p c'"
      using assms room cache_push_shard_idx [OF room(2)] by (simp add: cache_good_def)
    then show thesis using that(2) room cap by simp
  qed
qed

section \<open>The loops\<close>

definition tiers_step :: "batch_pool \<Rightarrow> thread_batch_cache \<Rightarrow> batch_pool \<Rightarrow> thread_batch_cache \<Rightarrow> bool" where
  "tiers_step p c p' c' \<longleftrightarrow> shards_good p' \<and> same_frame p p' \<and> cache_good p c'
     \<and> bp_next_addr p' = bp_next_addr p
     \<and> addrs (cache_contents c') + global_addrs p' + mset (bp_freed p')
       = addrs (cache_contents c) + global_addrs p + mset (bp_freed p)"

lemma tiers_step_trans:
  "tiers_step p c q d \<Longrightarrow> tiers_step q d r e \<Longrightarrow> tiers_step p c r e"
  by (auto simp: tiers_step_def same_frame_cache_good dest: same_frame_trans)

lemma tiers_step_pre:
  assumes "tiers_step p c q d"
  shows "shards_good q" and "cache_good q d" and "i < length (bp_shards p) \<Longrightarrow> i < length (bp_shards q)"
proof -
  have frame: "same_frame p q" "cache_good p d" "shards_good q"
    using assms by (simp_all add: tiers_step_def)
  then show "shards_good q" and "cache_good q d"
    by (simp_all add: same_frame_cache_good [OF frame(1)])
  show "i < length (bp_shards p) \<Longrightarrow> i < length (bp_shards q)"
    using frame(1) by (simp add: same_frame_def)
qed

lemma tc_len_contents: "cache_good p c \<Longrightarrow> unat (tc_len c) = length (cache_contents c)"
  by (simp add: cache_good_def length_cache_contents)

lemma tc_batches_cap: "cache_good p c \<Longrightarrow> length (tc_batches c) = bp_tls_cap p"
  by (simp add: cache_good_def cache_cap_def)

lemma refill_loop_ok:
  assumes "shards_good p" and "i < length (bp_shards p)" and "cache_good p c"
  shows "\<exists>n c' p'. refill_loop i r c p = Some (n, c', p') \<and> tiers_step p c p' c' \<and> bp_freed p' = bp_freed p"
  using assms
proof (induction i r c p rule: refill_loop.induct)
  case (1 i r c p)
  note prems = "1.prems"
  show ?case
  proof (cases "unat (tc_len c) < length (tc_batches c) div 2")
    case False
    then show ?thesis using prems by (subst refill_loop.simps) (simp add: tiers_step_def)
  next
    case True
    then have room: "length (cache_contents c) < bp_tls_cap p"
      using prems(3) tc_len_contents tc_batches_cap by fastforce
    show ?thesis
    proof (cases rule: pop_global_cases [OF prems(1,2)])
      case 1
      then show ?thesis using prems by (subst refill_loop.simps) (simp add: tiers_step_def)
    next
      case (2 a q)
      obtain d where d: "cache_push a c = Some (Inr (), d)" "cache_good p d"
          "cache_contents d = cache_contents c @ [idle_mark a]"
        using cache_push_good [OF prems(3) alloc_idle_clean [OF 2(2)]] room by (metis nat_neq_iff)
      have len: "unat (tc_len c) < unat (tc_len d)" "length (tc_batches d) = length (tc_batches c)"
        using d prems(3) by (simp_all add: tc_len_contents tc_batches_cap)
      have step: "tiers_step p c q d"
        using 2 d by (simp add: tiers_step_def)
      note ih = tiers_step_pre(1) [OF step] tiers_step_pre(3) [OF step prems(2)] tiers_step_pre(2) [OF step]
      have eq: "refill_loop i r c p = refill_loop i (r + 1) d q"
        using True 2(1) d(1) len by (subst refill_loop.simps) simp
      obtain n c' p' where "refill_loop i (r + 1) d q = Some (n, c', p')" "tiers_step q d p' c'"
          "bp_freed p' = bp_freed q"
        using "1.IH" [OF True 2(1) refl refl d(1) refl refl _ ih] len by auto
      then show ?thesis
        using tiers_step_trans [OF step] 2(6) unfolding eq by auto
    qed
  qed
qed

lemma spill_cache_ok:
  assumes "shards_good p" and "i < length (bp_shards p)" and "cache_good p c" and "0 < target"
  shows "\<exists>c' p'. spill_cache target i c p = Some (c', p') \<and> tiers_step p c p' c'
    \<and> length (cache_contents c') < target"
  using assms
proof (induction target i c p rule: spill_cache.induct)
  case (1 target i c p)
  note prems = "1.prems"
  show ?case
  proof (cases "target \<le> unat (tc_len c)")
    case False
    then show ?thesis
      using prems by (subst spill_cache.simps) (simp add: tiers_step_def tc_len_contents)
  next
    case True
    then have "cache_contents c \<noteq> []"
      using prems(3,4) tc_len_contents by fastforce
    then obtain a d where d: "cache_contents c = cache_contents d @ [a]" "cache_pop c = Some (Some a, d)"
        "cache_good p d" "alloc_idle a"
      using cache_pop_good [OF prems(3)] by metis
    have len: "unat (tc_len d) < unat (tc_len c)"
      using d(1,3) prems(3) by (simp add: tc_len_contents)
    obtain r q where push: "push_to_global i a p = Some (r, q)"
      and step: "tiers_step p c (case r of Inl b \<Rightarrow> free_batch b q | Inr _ \<Rightarrow> q) d"
    proof (cases rule: push_to_global_cases [OF prems(1,2) d(4)])
      case 1
      have "shards_good (free_batch a p)" "global_addrs (free_batch a p) = global_addrs p"
        using prems(1) by (simp_all add: free_batch_def shards_good_def global_addrs_def)
      then show thesis
        using that [OF 1] d by (simp add: tiers_step_def free_batch_def same_frame_def)
    next
      case (2 q)
      then show thesis using that [OF 2(1)] d by (simp add: tiers_step_def)
    qed
    let ?q = "case r of Inl b \<Rightarrow> free_batch b q | Inr _ \<Rightarrow> q"
    note ih = tiers_step_pre(1) [OF step] tiers_step_pre(3) [OF step prems(2)] tiers_step_pre(2) [OF step]
    have eq: "spill_cache target i c p = spill_cache target i d ?q"
      using True d(2) len push by (subst spill_cache.simps) simp
    obtain c' p' where "spill_cache target i d ?q = Some (c', p')" "tiers_step ?q d p' c'"
        "length (cache_contents c') < target"
      using "1.IH" [OF True d(2) refl refl len push refl ih prems(4)] by auto
    then show ?thesis
      using tiers_step_trans [OF step] unfolding eq by auto
  qed
qed

section \<open>Acquire and release\<close>

lemma thread_cache_good:
  assumes "pool_ok p" and "t < length (bp_caches p)"
  obtains c where "thread_cache t p = Some c" and "cache_good p c"
    and "addrs (cache_contents c) = cell_addrs (bp_caches p ! t)"
proof (cases "bp_caches p ! t")
  case None
  let ?c = "\<lparr>tc_shard_idx = None, tc_len = 0, tc_batches = replicate (bp_tls_cap p) None\<rparr>"
  have "thread_cache t p = Some ?c"
    using assms None by (simp add: thread_cache_def get_at_def cache_new_def pool_ok_def)
  moreover have "cache_good p ?c" "cache_contents ?c = []"
    using assms(1) by (simp_all add: cache_good_def cache_ok_def slots_ok_def cache_cap_def
        cache_contents_def slots_contents_def pool_ok_def)
  ultimately show thesis using that None by (simp add: cell_addrs_def)
next
  case (Some c)
  then have "thread_cache t p = Some c"
    using assms(2) by (simp add: thread_cache_def get_at_def)
  moreover have "cache_good p c"
    using assms Some unfolding pool_ok_def list_all_length by (metis option.simps(5))
  ultimately show thesis using that Some by (simp add: cell_addrs_def)
qed

lemma put_cache_ok:
  assumes "pool_ok p" and "t < length (bp_caches p)" and "same_frame p q" and "shards_good q"
    and "cache_good p c"
  shows "pool_ok (put_cache t c q)"
    and "pool_addrs (put_cache t c q) + cell_addrs (bp_caches p ! t) + global_addrs p
      = pool_addrs p + addrs (cache_contents c) + global_addrs q"
proof -
  have cg: "cache_good (put_cache t c q) d = cache_good p d" for d
    using assms(3) by (simp add: cache_good_def put_cache_def same_frame_def)
  have sg: "shards_good (put_cache t c q)"
    using assms(4) by (simp add: shards_good_def put_cache_def)
  have caches: "bp_caches (put_cache t c q) = (bp_caches p)[t := Some c]"
    using assms(3) by (simp add: put_cache_def same_frame_def)
  have "list_all (\<lambda>cell. case cell of None \<Rightarrow> True | Some d \<Rightarrow> cache_good p d) ((bp_caches p)[t := Some c])"
    using assms(1,2,5) by (auto simp: pool_ok_def list_all_length nth_list_update)
  then show "pool_ok (put_cache t c q)"
    using assms(1,3) sg unfolding pool_ok_def cg caches
    by (simp add: put_cache_def same_frame_def)
  have "sum_list (map cell_addrs ((bp_caches p)[t := Some c])) + cell_addrs (bp_caches p ! t)
      = sum_list (map cell_addrs (bp_caches p)) + addrs (cache_contents c)"
    using msum_update [OF assms(2), of cell_addrs "Some c"] by (simp add: cell_addrs_def)
  then show "pool_addrs (put_cache t c q) + cell_addrs (bp_caches p ! t) + global_addrs p
      = pool_addrs p + addrs (cache_contents c) + global_addrs q"
    unfolding pool_addrs_def caches by (simp add: global_addrs_def put_cache_def union_ac)
qed

lemma shard_idx_for_cache_ok:
  assumes "shards_good p" and "cache_good p c"
  obtains i d q where "shard_idx_for_cache c p = Some (i, d, q)" and "i < length (bp_shards p)"
    and "tiers_step p c q d" and "cache_contents d = cache_contents c"
    and "global_addrs q = global_addrs p" and "bp_freed q = bp_freed p" and "bp_target q = bp_target p"
proof (cases "tc_shard_idx c")
  case (Some i)
  then show thesis
    using that [of i c p] assms by (simp add: shard_idx_for_cache_def tiers_step_def cache_good_def)
next
  case None
  let ?i = "bp_next_shard p mod length (bp_shards p)"
  let ?d = "c\<lparr>tc_shard_idx := Some ?i\<rparr>" and ?q = "p\<lparr>bp_next_shard := (bp_next_shard p + 1) mod 2 ^ 64\<rparr>"
  have ne: "bp_shards p \<noteq> []" using assms(1) by (simp add: shards_good_def)
  then have i: "?i < length (bp_shards p)" by simp
  have d: "cache_contents ?d = cache_contents c" "cache_good p ?d"
    using assms(2) i by (simp_all add: cache_good_def cache_ok_def cache_contents_def cache_cap_def)
  have "shards_good ?q" "global_addrs ?q = global_addrs p"
    using assms(1) by (simp_all add: shards_good_def global_addrs_def)
  then show thesis
    using that [of ?i ?d ?q] None ne i d
    by (simp add: shard_idx_for_cache_def assign_shard_idx_def tiers_step_def same_frame_def Let_def)
qed

text \<open>An acquired object is uncommitted, in state \<open>Acquired\<close> and empty.\<close>

definition fresh_object :: "batch_object \<Rightarrow> bool" where
  "fresh_object o' \<longleftrightarrow> bo_commit o' = UnCommitted \<and> object_state o' = Some BS_Acquired
     \<and> batch_holds 0 [] (bo_batch o')"

lemma object_acquire_simps [simp]:
  "bo_commit (object_acquire a) = UnCommitted" "object_state (object_acquire a) = Some BS_Acquired"
  "ob_addr (bo_inner (object_acquire a)) = ob_addr a"
  by (simp_all add: object_acquire_def object_set_runtime_state_def alloc_set_runtime_state_def
      batch_set_runtime_state_def object_state_def del: batch_state_u8.simps)

lemma object_acquire_holds: "batch_holds 0 [] (ob_batch a) \<Longrightarrow> fresh_object (object_acquire a)"
  unfolding fresh_object_def
  by (simp add: object_acquire_def object_set_runtime_state_def alloc_set_runtime_state_def
      batch_set_runtime_state_def object_state_def del: batch_state_u8.simps)

lemma alloc_clean_holds: "alloc_clean a \<Longrightarrow> batch_holds 0 [] (ob_batch a)"
  by (rule batch_holds_zeros) (simp_all add: alloc_clean_def)

text \<open>The batch that goes to the caller: popped from the shard, or a new allocation.\<close>

definition take_returnable :: "nat \<Rightarrow> batch_pool \<Rightarrow> (nat \<times> nat \<times> nat \<times> owned_batch_ptr \<times> batch_pool) option" where
  "take_returnable i p =
     do {
       (popped, p) \<leftarrow> pop_global i p;
       Some (case popped of
            Some batch \<Rightarrow> (1, 0, 0, batch, p)
          | None \<Rightarrow>
              let (bytes, a) = factory_allocate (bp_next_addr p)
              in (0, 1, bytes, a, p\<lparr>bp_next_addr := bp_next_addr p + 1\<rparr>))
     }"

lemma take_returnable_ok:
  assumes "shards_good p" and "i < length (bp_shards p)"
  obtains r al n a q where "take_returnable i p = Some (r, al, n, a, q)" and "batch_holds 0 [] (ob_batch a)"
    and "shards_good q" and "same_frame p q" and "bp_freed q = bp_freed p"
    and "(bp_next_addr q = bp_next_addr p \<and> global_addrs p = add_mset (ob_addr a) (global_addrs q))
      \<or> (bp_next_addr q = Suc (bp_next_addr p) \<and> ob_addr a = bp_next_addr p \<and> global_addrs q = global_addrs p)"
proof (cases rule: pop_global_cases [OF assms])
  case 1
  let ?q = "p\<lparr>bp_next_addr := bp_next_addr p + 1\<rparr>"
  have "take_returnable i p = Some (0, 1, 12, \<lparr>ob_addr = bp_next_addr p, ob_batch = batch_inner_new\<rparr>, ?q)"
    using 1 by (simp add: take_returnable_def factory_allocate_def)
  moreover have "shards_good ?q" "global_addrs ?q = global_addrs p"
    using assms(1) by (simp_all add: shards_good_def global_addrs_def)
  ultimately show thesis
    using that by (simp add: batch_inner_new_holds same_frame_def)
next
  case (2 a q)
  then show thesis
    using that [of 1 0 0 a q] alloc_clean_holds [OF alloc_idle_clean [OF 2(2)]]
    by (simp add: take_returnable_def)
qed

lemma refill_tls_cache_ok:
  assumes "shards_good p" and "cache_good p c"
  obtains o' d q where "refill_tls_cache c p = Some (o', d, q)" and "fresh_object o'"
    and "same_frame p q" and "shards_good q" and "cache_good p d" and "bp_freed q = bp_freed p"
    and "(bp_next_addr q = bp_next_addr p
        \<and> add_mset (ob_addr (bo_inner o')) (addrs (cache_contents d) + global_addrs q)
          = addrs (cache_contents c) + global_addrs p)
      \<or> (bp_next_addr q = Suc (bp_next_addr p) \<and> ob_addr (bo_inner o') = bp_next_addr p
        \<and> addrs (cache_contents d) + global_addrs q = addrs (cache_contents c) + global_addrs p)"
proof -
  obtain i c1 p1 where idx: "shard_idx_for_cache c p = Some (i, c1, p1)" "i < length (bp_shards p)"
      "tiers_step p c p1 c1" "cache_contents c1 = cache_contents c" "global_addrs p1 = global_addrs p"
      "bp_freed p1 = bp_freed p"
    using shard_idx_for_cache_ok [OF assms] by metis
  note pre = tiers_step_pre [OF idx(3)]
  obtain r al nb a p2 where ret: "take_returnable i p1 = Some (r, al, nb, a, p2)"
      "batch_holds 0 [] (ob_batch a)" "shards_good p2" "same_frame p1 p2" "bp_freed p2 = bp_freed p1"
      "(bp_next_addr p2 = bp_next_addr p1 \<and> global_addrs p1 = add_mset (ob_addr a) (global_addrs p2))
      \<or> (bp_next_addr p2 = Suc (bp_next_addr p1) \<and> ob_addr a = bp_next_addr p1 \<and> global_addrs p2 = global_addrs p1)"
    using take_returnable_ok [OF pre(1) pre(3) [OF idx(2)]] by metis
  have i2: "i < length (bp_shards p2)" "cache_good p2 c1"
    using ret(4) pre(2) pre(3) [OF idx(2)]
    by (simp_all add: same_frame_cache_good [OF ret(4)]) (simp add: same_frame_def)
  obtain n d p3 where loop: "refill_loop i r c1 p2 = Some (n, d, p3)" "tiers_step p2 c1 p3 d"
      "bp_freed p3 = bp_freed p2"
    using refill_loop_ok [OF ret(3) i2(1,2)] by blast
  obtain st where run: "refill_tls_cache c p = Some (object_acquire a, d, p3\<lparr>bp_stats := st\<rparr>)"
    using ret(1) loop(1) unfolding refill_tls_cache_def take_returnable_def Let_def
    by (auto simp: idx(1) split: bind_splits prod.splits option.splits)
  have frame: "same_frame p p3"
    using idx(3) ret(4) loop(2) by (simp add: tiers_step_def same_frame_def)
  then have d: "cache_good p d"
    using loop(2) same_frame_cache_good idx(3) ret(4) unfolding tiers_step_def by blast
  have sum: "addrs (cache_contents d) + global_addrs p3 = addrs (cache_contents c) + global_addrs p2"
    using loop(2,3) idx(4) by (simp add: tiers_step_def)
  have nx: "bp_next_addr p1 = bp_next_addr p" "bp_next_addr p3 = bp_next_addr p2"
    using idx(3) loop(2) by (simp_all add: tiers_step_def)
  show thesis
  proof (rule that [OF run])
    show "fresh_object (object_acquire a)" by (rule object_acquire_holds [OF ret(2)])
    show "same_frame p (p3\<lparr>bp_stats := st\<rparr>)" using frame by (simp add: same_frame_def)
    show "shards_good (p3\<lparr>bp_stats := st\<rparr>)" using loop(2) by (simp add: tiers_step_def shards_good_def)
    show "cache_good p d" by (rule d)
    show "bp_freed (p3\<lparr>bp_stats := st\<rparr>) = bp_freed p" using loop(3) ret(5) idx(6) by simp
    have "global_addrs (p3\<lparr>bp_stats := st\<rparr>) = global_addrs p3" by (simp add: global_addrs_def)
    then show "(bp_next_addr (p3\<lparr>bp_stats := st\<rparr>) = bp_next_addr p
        \<and> add_mset (ob_addr (bo_inner (object_acquire a))) (addrs (cache_contents d) + global_addrs (p3\<lparr>bp_stats := st\<rparr>))
          = addrs (cache_contents c) + global_addrs p)
      \<or> (bp_next_addr (p3\<lparr>bp_stats := st\<rparr>) = Suc (bp_next_addr p)
        \<and> ob_addr (bo_inner (object_acquire a)) = bp_next_addr p
        \<and> addrs (cache_contents d) + global_addrs (p3\<lparr>bp_stats := st\<rparr>) = addrs (cache_contents c) + global_addrs p)"
      using ret(6) nx sum idx(5) by auto
  qed
qed

lemma mset_put_cancel:
  fixes P P' C D G H :: "nat multiset"
  assumes "P' + C + G = P + D + H"
  shows "add_mset x (D + H) = C + G \<Longrightarrow> add_mset x P' = P" and "D + H = C + G \<Longrightarrow> P' = P"
proof -
  have e: "P' + (C + G) = P + (D + H)" using assms by (simp add: union_ac)
  show "D + H = C + G \<Longrightarrow> P' = P" using e by simp
  assume "add_mset x (D + H) = C + G"
  then have "add_mset x P' + (D + H) = P + (D + H)" using e by (metis add_mset_add_single union_assoc union_commute)
  then show "add_mset x P' = P" by (simp only: add_right_cancel)
qed

lemma acquire_object_ok:
  assumes "pool_ok p" and "t < length (bp_caches p)"
  obtains o' p' where "acquire_object t p = Some (o', p')" and "pool_ok p'" and "fresh_object o'"
    and "bp_freed p' = bp_freed p"
    and "(bp_next_addr p' = bp_next_addr p \<and> add_mset (ob_addr (bo_inner o')) (pool_addrs p') = pool_addrs p)
      \<or> (bp_next_addr p' = Suc (bp_next_addr p) \<and> ob_addr (bo_inner o') = bp_next_addr p
        \<and> pool_addrs p' = pool_addrs p)"
    and "length (bp_caches p') = length (bp_caches p)"
proof -
  have sg: "shards_good p" using assms(1) by (simp add: pool_ok_def)
  obtain c where c: "thread_cache t p = Some c" "cache_good p c"
      "addrs (cache_contents c) = cell_addrs (bp_caches p ! t)"
    by (rule thread_cache_good [OF assms])
  show thesis
  proof (cases rule: cache_pop_good [OF c(2)])
    case 1
    obtain o' d q where r: "refill_tls_cache c p = Some (o', d, q)" "fresh_object o'"
      "same_frame p q" "shards_good q" "cache_good p d" "bp_freed q = bp_freed p"
      "(bp_next_addr q = bp_next_addr p
        \<and> add_mset (ob_addr (bo_inner o')) (addrs (cache_contents d) + global_addrs q)
          = addrs (cache_contents c) + global_addrs p)
      \<or> (bp_next_addr q = Suc (bp_next_addr p) \<and> ob_addr (bo_inner o') = bp_next_addr p
        \<and> addrs (cache_contents d) + global_addrs q = addrs (cache_contents c) + global_addrs p)"
      by (rule refill_tls_cache_ok [OF sg c(2)])
    have run: "acquire_object t p = Some (o', put_cache t d q)"
      by (simp add: acquire_object_def c(1) try_acquire_from_tls_def 1 r(1))
    note put = put_cache_ok [OF assms r(3,4,5)]
    have "bp_next_addr (put_cache t d q) = bp_next_addr q" "bp_freed (put_cache t d q) = bp_freed q"
      "length (bp_caches (put_cache t d q)) = length (bp_caches p)"
      using r(3) by (simp_all add: put_cache_def same_frame_def)
    then show thesis
      using that [OF run put(1) r(2)] r(6,7) mset_put_cancel [OF put(2)] unfolding c(3) by auto
  next
    case (2 a d)
    have run: "acquire_object t p = Some (object_acquire a, put_cache t d p)"
      by (simp add: acquire_object_def c(1) try_acquire_from_tls_def 2(2))
    note put = put_cache_ok [OF assms same_frame_refl sg 2(3)]
    have "add_mset (ob_addr a) (pool_addrs (put_cache t d p)) = pool_addrs p"
      using put(2) 2(1) by (simp flip: c(3))
    then show thesis
      using that [OF run put(1) object_acquire_holds [OF alloc_clean_holds [OF alloc_idle_clean [OF 2(4)]]]]
      by (simp add: put_cache_def)
  qed
qed

lemma reset_batch_clean:
  assumes "bi_state (bo_batch o') = batch_state_u8 st" and "is_reset_safe st" and "batch_sized (bo_batch o')"
  obtains q where "reset_batch o' = Some q" and "alloc_clean (bo_inner q)"
    and "ob_addr (bo_inner q) = ob_addr (bo_inner o')" and "get_batch_size (bo_batch q) = 0"
    and "bi_capacity (bo_batch q) = bi_capacity (bo_batch o')"
proof -
  have "bi_max (bo_batch o') \<le> u32_MAX" using assms(3) by (simp add: batch_sized_def)
  then show thesis
    using that assms(2) unfolding reset_batch_eq [OF assms(1)]
    by (simp add: alloc_clean_def get_batch_size_def)
qed

lemma DEFAULT_BATCH_INIT_SIZE_pos: "DEFAULT_BATCH_INIT_SIZE \<noteq> 0"
  by (simp add: DEFAULT_BATCH_INIT_SIZE_def)

lemma pool_release_ok:
  assumes "pool_ok p" and "t < length (bp_caches p)"
    and "bi_state (bo_batch o') = batch_state_u8 st" and "is_reset_safe st" and "batch_sized (bo_batch o')"
  obtains c p' a where "pool_release t o' p = Some p'" and "pool_ok p'"
    and "bp_caches p' ! t = Some c" and "t < length (bp_caches p')"
    and "\<exists>as. cache_contents c = as @ [a]" and "ob_addr a = ob_addr (bo_inner o')"
    and "bi_capacity (ob_batch a) = bi_capacity (bo_batch o')"
    and "bp_next_addr p' = bp_next_addr p"
    and "pool_addrs p' + mset (bp_freed p') = add_mset (ob_addr (bo_inner o')) (pool_addrs p + mset (bp_freed p))"
proof -
  have sg: "shards_good p" and tgt: "0 < bp_target p" "bp_target p \<le> bp_tls_cap p"
    using assms(1) by (simp_all add: pool_ok_def)
  obtain c where c: "thread_cache t p = Some c" "cache_good p c"
      "addrs (cache_contents c) = cell_addrs (bp_caches p ! t)"
    by (rule thread_cache_good [OF assms(1,2)])
  obtain q where q: "reset_batch o' = Some q" "alloc_clean (bo_inner q)"
      "ob_addr (bo_inner q) = ob_addr (bo_inner o')" "get_batch_size (bo_batch q) = 0"
      "bi_capacity (bo_batch q) = bi_capacity (bo_batch o')"
    by (rule reset_batch_clean [OF assms(3-5)])
  let ?a = "idle_mark (bo_inner q)"
  have a: "ob_addr ?a = ob_addr (bo_inner o')" "bi_capacity (ob_batch ?a) = bi_capacity (bo_batch o')"
    using q(3,5) by (simp_all add: alloc_set_runtime_state_def batch_set_runtime_state_def)
  have cell: "bp_caches (put_cache t d r) ! t = Some d \<and> t < length (bp_caches (put_cache t d r))"
    if "same_frame p r" for d r
    using that assms(2) by (simp add: put_cache_def same_frame_def)
  show thesis
  proof (cases rule: cache_push_good [OF c(2) q(2)])
    case (2 d)
    have run: "pool_release t o' p = Some (put_cache t d p)"
      by (simp add: pool_release_def q(1,4) DEFAULT_BATCH_INIT_SIZE_pos c(1) object_into_inner_def 2(2))
    note put = put_cache_ok [OF assms(1,2) same_frame_refl sg 2(3)]
    have "pool_addrs (put_cache t d p) = add_mset (ob_addr (bo_inner o')) (pool_addrs p)"
      using put(2) 2(4) q(3) by (simp flip: c(3))
    then show thesis
      using that [OF run put(1) _ _ _ a] cell [OF same_frame_refl, of d] 2(4)
      by (simp add: put_cache_def)
  next
    case 1
    obtain i c1 p1 where idx: "shard_idx_for_cache c p = Some (i, c1, p1)" "i < length (bp_shards p)"
        "tiers_step p c p1 c1" "bp_target p1 = bp_target p"
      using shard_idx_for_cache_ok [OF sg c(2)] by metis
    note pre = tiers_step_pre [OF idx(3)]
    obtain c2 p2 where spill: "spill_cache (bp_target p) i c1 p1 = Some (c2, p2)" "tiers_step p1 c1 p2 c2"
        "length (cache_contents c2) < bp_target p"
      using spill_cache_ok [OF pre(1) pre(3) [OF idx(2)] pre(2) tgt(1)] by blast
    have st: "tiers_step p c p2 c2" by (rule tiers_step_trans [OF idx(3) spill(2)])
    then have g: "cache_good p c2" "same_frame p p2" "shards_good p2"
      by (simp_all add: tiers_step_def)
    obtain d where d: "cache_push (bo_inner q) c2 = Some (Inr (), d)" "cache_good p d"
        "cache_contents d = cache_contents c2 @ [?a]"
      using cache_push_good [OF g(1) q(2)] spill(3) tgt(2) by (metis not_le order_less_le_trans order_less_irrefl)
    have run: "pool_release t o' p = Some (put_cache t d p2)"
      by (simp add: pool_release_def q(1,4) DEFAULT_BATCH_INIT_SIZE_pos c(1) object_into_inner_def 1(2)
          idx(1,4) spill(1) d(1))
    note put = put_cache_ok [OF assms(1,2) g(2,3) d(2)]
    have sum: "addrs (cache_contents c2) + global_addrs p2 + mset (bp_freed p2)
        = addrs (cache_contents c) + global_addrs p + mset (bp_freed p)"
      and nx: "bp_next_addr p2 = bp_next_addr p"
      using st by (simp_all add: tiers_step_def)
    have e: "pool_addrs (put_cache t d p2) + addrs (cache_contents c) + global_addrs p
        = add_mset (ob_addr (bo_inner o')) (pool_addrs p + addrs (cache_contents c2) + global_addrs p2)"
      using put(2) d(3) q(3) by (simp add: c(3))
    have "pool_addrs (put_cache t d p2) + mset (bp_freed p2) + (addrs (cache_contents c) + global_addrs p)
        = add_mset (ob_addr (bo_inner o')) (pool_addrs p + (addrs (cache_contents c2) + global_addrs p2 + mset (bp_freed p2)))"
      using arg_cong [OF e, of "\<lambda>m. m + mset (bp_freed p2)"] by (simp add: union_ac)
    then have "pool_addrs (put_cache t d p2) + mset (bp_freed p2)
        = add_mset (ob_addr (bo_inner o')) (pool_addrs p + mset (bp_freed p))"
      unfolding sum by (simp add: union_ac)
    then show thesis
      using that [OF run put(1) _ _ _ a] cell [OF g(2), of d] d(3) nx by (simp add: put_cache_def)
  qed
qed

section \<open>Properties\<close>

lemma pool_new_ok:
  assumes "0 < shards" and "0 < scap" and "scap \<le> 255" and "0 < target" and "target \<le> tls_cap"
    and "tls_cap \<le> 255"
  obtains p where "pool_with_factory threads shards scap tls_cap target = Some p" and "pool_ok p"
    and "length (bp_caches p) = threads" and "pool_addrs p = {#}"
proof -
  let ?s = "\<lparr>sh_len = 0, sh_batches = replicate scap None\<rparr>"
  have s: "shard_new scap = Some ?s" using assms by (simp add: shard_new_def)
  have good: "shard_ok ?s" "shard_contents ?s = []"
    using assms by (simp_all add: shard_ok_def slots_ok_def shard_contents_def slots_contents_def)
  have z: "sum_list (replicate n ({#} :: nat multiset)) = {#}" for n by (induction n) simp_all
  show thesis
  proof (rule that)
    show "pool_with_factory threads shards scap tls_cap target = Some \<lparr>bp_caches = replicate threads None,
        bp_shards = replicate shards ?s, bp_tls_cap = tls_cap, bp_target = target, bp_next_shard = 0,
        bp_stats = stats_new, bp_next_addr = 0, bp_freed = []\<rparr>" (is "_ = Some ?p")
      by (simp add: pool_with_factory_def s)
    show "pool_ok ?p" using assms good
      by (simp add: pool_ok_def shards_good_def list_all_length)
    show "length (bp_caches ?p) = threads" by simp
    show "pool_addrs ?p = {#}"
      using good(2) by (simp add: pool_addrs_def global_addrs_def cell_addrs_def z map_replicate_const)
  qed
qed

definition demo_pool :: batch_pool where
  "demo_pool = the (pool_with_factory 2 4 16 8 4)"

lemma demo_pool_ok: "pool_ok demo_pool" "length (bp_caches demo_pool) = 2" "pool_addrs demo_pool = {#}"
  by (rule pool_new_ok [of 4 16 4 8 2]; simp add: demo_pool_def)+

text \<open>
  C4.  Acquiring from the pool never fails and hands out an allocation exclusively: the object is
  uncommitted, in state \<open>Acquired\<close> and empty; it is either one of the retained
  allocations, which leaves the pool, or a new one; nothing else leaves, enters or is freed, the
  pool invariant (initialised prefixes, capacities, idle and empty retained batches, shard
  indices in range) is kept, and if no address was retained twice then the handed out
  address is not retained any more.
\<close>

theorem acquire_object_correct:
  assumes "pool_ok p" and "t < length (bp_caches p)"
  shows "\<exists>o' p'. acquire_object t p = Some (o', p') \<and> pool_ok p' \<and> fresh_object o'
    \<and> bp_freed p' = bp_freed p
    \<and> (add_mset (ob_addr (bo_inner o')) (pool_addrs p') = pool_addrs p \<and> bp_next_addr p' = bp_next_addr p
       \<or> pool_addrs p' = pool_addrs p \<and> ob_addr (bo_inner o') = bp_next_addr p
         \<and> bp_next_addr p' = Suc (bp_next_addr p))
    \<and> ((\<forall>a. count (pool_addrs p) a \<le> 1) \<and> (\<forall>a \<in># pool_addrs p. a < bp_next_addr p) \<longrightarrow>
         ob_addr (bo_inner o') \<notin># pool_addrs p')"
proof -
  obtain o' p' where run: "acquire_object t p = Some (o', p')" "pool_ok p'" "fresh_object o'"
      "bp_freed p' = bp_freed p"
    and eq: "(bp_next_addr p' = bp_next_addr p \<and> add_mset (ob_addr (bo_inner o')) (pool_addrs p') = pool_addrs p)
      \<or> (bp_next_addr p' = Suc (bp_next_addr p) \<and> ob_addr (bo_inner o') = bp_next_addr p
        \<and> pool_addrs p' = pool_addrs p)"
    by (rule acquire_object_ok [OF assms])
  have "ob_addr (bo_inner o') \<notin># pool_addrs p'"
    if once: "\<forall>a. count (pool_addrs p) a \<le> 1" and below: "\<forall>a \<in># pool_addrs p. a < bp_next_addr p"
    using eq
  proof
    assume "bp_next_addr p' = bp_next_addr p \<and> add_mset (ob_addr (bo_inner o')) (pool_addrs p') = pool_addrs p"
    then have "Suc (count (pool_addrs p') (ob_addr (bo_inner o'))) \<le> 1"
      using spec [OF once, of "ob_addr (bo_inner o')"] by (metis count_add_mset)
    then show ?thesis by (simp add: not_in_iff)
  qed (use below in auto)
  then show ?thesis using run eq by blast
qed

theorem acquire_object_correct_witness:
  "\<exists>o' p'. acquire_object 1 demo_pool = Some (o', p') \<and> pool_ok p' \<and> fresh_object o'"
  using acquire_object_correct [OF demo_pool_ok(1), of 1] by (auto simp: demo_pool_ok)

text \<open>
  C5.  Releasing a batch in a reset-safe state never fails (the cache spill always leaves room for
  it, so the \<open>unreachable!\<close> is unreachable) and loses nothing: every allocation that was
  retained, and the released one, is afterwards retained or freed exactly once, and the pool
  invariant is kept; in every other state release panics.
\<close>

theorem pool_release_correct:
  assumes "pool_ok p" and "t < length (bp_caches p)" and "batch_sized (bo_batch o')"
    and "bi_state (bo_batch o') = batch_state_u8 st"
  shows "(is_reset_safe st \<longrightarrow> (\<exists>p'. pool_release t o' p = Some p' \<and> pool_ok p'
       \<and> pool_addrs p' + mset (bp_freed p')
         = add_mset (ob_addr (bo_inner o')) (pool_addrs p + mset (bp_freed p))
       \<and> bp_next_addr p' = bp_next_addr p))
    \<and> (\<not> is_reset_safe st \<longrightarrow> pool_release t o' p = None)"
proof -
  have "pool_release t o' p = None" if "\<not> is_reset_safe st"
    using that by (simp add: pool_release_def reset_batch_eq [OF assms(4)])
  moreover have "\<exists>p'. pool_release t o' p = Some p' \<and> pool_ok p'
       \<and> pool_addrs p' + mset (bp_freed p')
         = add_mset (ob_addr (bo_inner o')) (pool_addrs p + mset (bp_freed p))
       \<and> bp_next_addr p' = bp_next_addr p" if "is_reset_safe st"
    by (rule pool_release_ok [OF assms(1,2,4) that assms(3)]) blast
  ultimately show ?thesis by blast
qed

theorem pool_release_correct_witness:
  "\<exists>p'. pool_release 0 (object_new 5) demo_pool = Some p' \<and> pool_ok p'"
proof -
  have "batch_sized (bo_batch (object_new 5))" "bi_state (bo_batch (object_new 5)) = batch_state_u8 BS_Acquired"
    by (simp_all add: object_new_def batch_sized_def MAX_BATCH_SIZE_eq u32_MAX_def)
  from pool_release_correct [OF demo_pool_ok(1) _ this, of 0] show ?thesis
    by (auto simp: demo_pool_ok is_reset_safe_def RESET_SAFE_STATES_def)
qed

text \<open>
  Also:  The released batch is the next one its thread acquires, empty, and with the buffer
  capacity it had when it was released: the size that release tests against the retention
  threshold is read after the reset and is always zero, so no buffer is ever shrunk or
  destroyed for its size, whatever its capacity.
\<close>

theorem release_acquire_reuse:
  assumes "pool_ok p" and "t < length (bp_caches p)" and "batch_sized (bo_batch o')"
    and "bi_state (bo_batch o') = batch_state_u8 st" and "is_reset_safe st"
  shows "\<exists>p' q p''. pool_release t o' p = Some p' \<and> acquire_object t p' = Some (q, p'')
    \<and> ob_addr (bo_inner q) = ob_addr (bo_inner o')
    \<and> bi_capacity (bo_batch q) = bi_capacity (bo_batch o') \<and> bi_data (bo_batch q) = []"
proof -
  obtain c p' a where r: "pool_release t o' p = Some p'" "pool_ok p'"
    "bp_caches p' ! t = Some c" "t < length (bp_caches p')"
    "\<exists>as. cache_contents c = as @ [a]" "ob_addr a = ob_addr (bo_inner o')"
    "bi_capacity (ob_batch a) = bi_capacity (bo_batch o')"
    by (rule pool_release_ok [OF assms(1,2,4,5,3)])
  have cell: "thread_cache t p' = Some c" using r(3,4) by (simp add: thread_cache_def get_at_def)
  have good: "cache_good p' c"
    using r(2-4) unfolding pool_ok_def list_all_length by (metis option.simps(5))
  obtain d where d: "cache_pop c = Some (Some a, d)" "alloc_idle a"
    using r(5) by (auto intro: cache_pop_good [OF good])
  have "acquire_object t p' = Some (object_acquire a, put_cache t d p')"
    by (simp add: acquire_object_def cell try_acquire_from_tls_def d(1))
  moreover have "bi_capacity (bo_batch (object_acquire a)) = bi_capacity (ob_batch a)"
    "bi_data (bo_batch (object_acquire a)) = bi_data (ob_batch a)"
    by (simp_all add: object_acquire_def object_set_runtime_state_def alloc_set_runtime_state_def
        batch_set_runtime_state_def)
  moreover have "bi_data (ob_batch a) = []"
    using d(2) by (simp add: alloc_idle_def alloc_clean_def)
  ultimately show ?thesis using r(1,6,7) by auto
qed

theorem release_acquire_reuse_witness:
  "\<exists>p' q p''. pool_release 0 (object_new 5) demo_pool = Some p' \<and> acquire_object 0 p' = Some (q, p'')
    \<and> ob_addr (bo_inner q) = ob_addr (bo_inner (object_new 5))
    \<and> bi_capacity (bo_batch q) = bi_capacity (bo_batch (object_new 5)) \<and> bi_data (bo_batch q) = []"
  by (rule release_acquire_reuse [OF demo_pool_ok(1), where st = BS_Acquired])
    (simp_all add: demo_pool_ok object_new_def batch_sized_def MAX_BATCH_SIZE_eq u32_MAX_def
      is_reset_safe_def RESET_SAFE_STATES_def)

end
