(* ===== verification/Batch_Queue.thy ===== *)
theory Batch_Queue
  imports Ord_Prelude
begin

text \<open>
  The commit queue of \<open>crates/engine/src/db/write_pipeline.rs\<close>: the packed head and tail
  (\<open>HeadTail\<close>) and the ring buffer \<open>BatchQueue\<close>.  A slot is the address of a batch or
  null; whether a batch is applied is an argument of \<open>try_dequeue\<close>.  The first part treats
  the operations one at a time and refines them to a list; the second part has one
  step per atomic access, for one producer and any number of consumers.
\<close>

unbundle bit_operations_syntax

section \<open>HeadTail\<close>

definition DEQUEUE_BITS :: nat where
  "DEQUEUE_BITS = 32"

definition HT_MASK :: u64 where
  "HT_MASK = push_bit DEQUEUE_BITS 1 - 1"

definition head_tail_pack :: "u32 \<Rightarrow> u32 \<Rightarrow> u64" where
  "head_tail_pack head tail = push_bit DEQUEUE_BITS (ucast head) OR (ucast tail AND HT_MASK)"

definition head_tail_unpack :: "u64 \<Rightarrow> u32 \<times> u32" where
  "head_tail_unpack packed =
     (let head = ucast (drop_bit DEQUEUE_BITS packed AND HT_MASK);
          tail = ucast (packed AND HT_MASK)
      in (head, tail))"

section \<open>BatchQueue\<close>

record batch_queue =
  bq_head_tail :: u64
  bq_slots :: "nat option list"

definition is_power_of_two :: "nat \<Rightarrow> bool" where
  "is_power_of_two n \<longleftrightarrow> (\<exists>m \<in> {0..<64}. n = 2 ^ m)"

definition batch_queue_new :: "nat \<Rightarrow> batch_queue option" where
  "batch_queue_new N =
     do {
       assert_that (is_power_of_two N);
       assert_that (N \<le> 1024);
       Some \<lparr>bq_head_tail = 0, bq_slots = replicate N None\<rparr>
     }"

abbreviation bq_size :: "batch_queue \<Rightarrow> nat" where
  "bq_size q \<equiv> length (bq_slots q)"

definition slot_index :: "nat \<Rightarrow> u32 \<Rightarrow> nat" where
  "slot_index N pos = unat (pos AND (of_nat N - 1))"

text \<open>A slot that is not null makes the producer spin once; then it stores all the same.\<close>

definition enqueue :: "nat \<Rightarrow> batch_queue \<Rightarrow> batch_queue option" where
  "enqueue batch q =
     (let (head, tail) = head_tail_unpack (bq_head_tail q);
          N = bq_size q
      in if tail + of_nat N = head then None
         else do {
           slots \<leftarrow> set_at (slot_index N head) (Some batch) (bq_slots q);
           Some (q\<lparr>bq_slots := slots, bq_head_tail := bq_head_tail q + push_bit DEQUEUE_BITS 1\<rparr>)
         })"

text \<open>Without interference the compare-exchange succeeds at the first attempt.\<close>

definition try_dequeue :: "(nat \<Rightarrow> bool) \<Rightarrow> batch_queue \<Rightarrow> (nat option \<times> batch_queue) option" where
  "try_dequeue applied q =
     (let (head, tail) = head_tail_unpack (bq_head_tail q);
          N = bq_size q
      in if tail = head then Some (None, q)
         else do {
           slot \<leftarrow> get_at (slot_index N tail) (bq_slots q);
           case slot of
             None \<Rightarrow> Some (None, q)
           | Some batch \<Rightarrow>
               if \<not> applied batch then Some (None, q)
               else do {
                 let new_ht = head_tail_pack head (tail + 1);
                 slots \<leftarrow> set_at (slot_index N tail) None (bq_slots q);
                 Some (Some batch, \<lparr>bq_head_tail = new_ht, bq_slots = slots\<rparr>)
               }
         })"

section \<open>Interleaved producer and consumers\<close>

text \<open>
  The producer's program points: idle, before its load of the packed word with a batch, before the slot
  store with the head it read (the test of the slot in between changes nothing), between the store
  and the advance of the head, and the panic.  A consumer's: idle, having loaded the packed word,
  having loaded the slot, having won the compare-exchange, and done.
\<close>

datatype prod_pc = PIdle | PStart nat | PSlot nat u32 | PPublish | PPanic

datatype cons_pc =
    CIdle | CLoop u64 | CCas u64 nat | CClear nat nat | CGot nat | CNone

record queue_sys =
  qs_queue :: batch_queue
  qs_prod :: prod_pc
  qs_cons :: "nat \<Rightarrow> cons_pc"

definition set_cons :: "nat \<Rightarrow> cons_pc \<Rightarrow> queue_sys \<Rightarrow> queue_sys" where
  "set_cons i c s = s\<lparr>qs_cons := (qs_cons s)(i := c)\<rparr>"

inductive queue_step :: "(nat \<Rightarrow> bool) \<Rightarrow> queue_sys \<Rightarrow> queue_sys \<Rightarrow> bool" for applied where
  prod_begin: "qs_prod s = PIdle \<Longrightarrow> queue_step applied s (s\<lparr>qs_prod := PStart b\<rparr>)"
| prod_full: "qs_prod s = PStart b \<Longrightarrow> head_tail_unpack (bq_head_tail (qs_queue s)) = (head, tail) \<Longrightarrow>
    tail + of_nat (bq_size (qs_queue s)) = head \<Longrightarrow>
    queue_step applied s (s\<lparr>qs_prod := PPanic\<rparr>)"
| prod_room: "qs_prod s = PStart b \<Longrightarrow> head_tail_unpack (bq_head_tail (qs_queue s)) = (head, tail) \<Longrightarrow>
    tail + of_nat (bq_size (qs_queue s)) \<noteq> head \<Longrightarrow>
    queue_step applied s (s\<lparr>qs_prod := PSlot b head\<rparr>)"
| prod_store: "qs_prod s = PSlot b head \<Longrightarrow>
    queue_step applied s (s\<lparr>qs_prod := PPublish,
      qs_queue := (qs_queue s)\<lparr>bq_slots := (bq_slots (qs_queue s))
        [slot_index (bq_size (qs_queue s)) head := Some b]\<rparr>\<rparr>)"
| prod_publish: "qs_prod s = PPublish \<Longrightarrow>
    queue_step applied s (s\<lparr>qs_prod := PIdle,
      qs_queue := (qs_queue s)\<lparr>bq_head_tail := bq_head_tail (qs_queue s) + push_bit DEQUEUE_BITS 1\<rparr>\<rparr>)"
| cons_load: "qs_cons s i = CIdle \<Longrightarrow>
    queue_step applied s (set_cons i (CLoop (bq_head_tail (qs_queue s))) s)"
| cons_empty: "qs_cons s i = CLoop ht \<Longrightarrow> head_tail_unpack ht = (h, h) \<Longrightarrow>
    queue_step applied s (set_cons i CNone s)"
| cons_not_ready: "qs_cons s i = CLoop ht \<Longrightarrow> head_tail_unpack ht = (head, tail) \<Longrightarrow> tail \<noteq> head \<Longrightarrow>
    (case bq_slots (qs_queue s) ! slot_index (bq_size (qs_queue s)) tail of
       None \<Rightarrow> True | Some b \<Rightarrow> \<not> applied b) \<Longrightarrow>
    queue_step applied s (set_cons i CNone s)"
| cons_ready: "qs_cons s i = CLoop ht \<Longrightarrow> head_tail_unpack ht = (head, tail) \<Longrightarrow> tail \<noteq> head \<Longrightarrow>
    bq_slots (qs_queue s) ! slot_index (bq_size (qs_queue s)) tail = Some b \<Longrightarrow> applied b \<Longrightarrow>
    queue_step applied s (set_cons i (CCas ht b) s)"
| cons_cas_ok: "qs_cons s i = CCas ht b \<Longrightarrow> bq_head_tail (qs_queue s) = ht \<Longrightarrow>
    head_tail_unpack ht = (head, tail) \<Longrightarrow>
    queue_step applied s (set_cons i (CClear (slot_index (bq_size (qs_queue s)) tail) b)
      (s\<lparr>qs_queue := (qs_queue s)\<lparr>bq_head_tail := head_tail_pack head (tail + 1)\<rparr>\<rparr>))"
| cons_cas_fail: "qs_cons s i = CCas ht b \<Longrightarrow> bq_head_tail (qs_queue s) \<noteq> ht \<Longrightarrow>
    queue_step applied s (set_cons i (CLoop (bq_head_tail (qs_queue s))) s)"
| cons_clear: "qs_cons s i = CClear k b \<Longrightarrow>
    queue_step applied s (set_cons i (CGot b)
      (s\<lparr>qs_queue := (qs_queue s)\<lparr>bq_slots := (bq_slots (qs_queue s))[k := None]\<rparr>\<rparr>))"
| cons_again: "qs_cons s i = CGot b \<or> qs_cons s i = CNone \<Longrightarrow>
    queue_step applied s (set_cons i CIdle s)"

section \<open>Lemmas on the packed word\<close>

lemma HT_MASK_eq: "HT_MASK = mask 32"
  by (simp add: HT_MASK_def DEQUEUE_BITS_def mask_eq_exp_minus_1)

lemma and_HT_MASK: "w AND HT_MASK = take_bit 32 w"
  by (simp add: HT_MASK_eq take_bit_eq_mask)

lemma bit_u32_less: "bit (w :: u32) n \<Longrightarrow> n < 32"
  using bit_imp_le_length [of w n] by simp

lemma head_tail_unpack_pack [simp]: "head_tail_unpack (head_tail_pack h t) = (h, t)"
proof -
  have "ucast (take_bit 32 (drop_bit 32 (push_bit 32 (ucast h) OR take_bit 32 (ucast t :: u64)))) = h"
    by (rule bit_word_eqI) (auto simp: bit_simps dest: bit_u32_less)
  moreover have "ucast (take_bit 32 (push_bit 32 (ucast h) OR take_bit 32 (ucast t :: u64))) = t"
    by (rule bit_word_eqI) (auto simp: bit_simps dest: bit_u32_less)
  ultimately show ?thesis
    by (simp add: head_tail_unpack_def head_tail_pack_def and_HT_MASK DEQUEUE_BITS_def Let_def)
qed

lemma head_tail_pack_unpack: "head_tail_unpack w = (h, t) \<Longrightarrow> w = head_tail_pack h t"
proof -
  assume "head_tail_unpack w = (h, t)"
  then have h: "h = ucast (take_bit 32 (drop_bit 32 w))" and t: "t = ucast (take_bit 32 w)"
    by (simp_all add: head_tail_unpack_def and_HT_MASK DEQUEUE_BITS_def Let_def)
  have "push_bit 32 (ucast h) OR take_bit 32 (ucast t :: u64) = w"
  proof (rule bit_word_eqI)
    fix n assume n: "n < LENGTH(64)"
    then have "\<not> n < 32 \<Longrightarrow> 32 + (n - 32) = n \<and> n - 32 < 32" by auto
    then show "bit (push_bit 32 (ucast h) OR take_bit 32 (ucast t :: u64)) n = bit w n"
      using n unfolding h t by (auto simp: bit_simps)
  qed
  then show ?thesis
    by (simp add: head_tail_pack_def and_HT_MASK DEQUEUE_BITS_def)
qed

text \<open>As a number the packed word is \<open>2 ^ 32 * head + tail\<close>.\<close>

lemma unat_head_tail_pack: "unat (head_tail_pack h t) = unat h * 2 ^ 32 + unat t"
proof -
  have disj: "push_bit 32 (ucast h) AND take_bit 32 (ucast t :: u64) = 0"
    by (rule bit_word_eqI) (auto simp: bit_simps)
  have "head_tail_pack h t = push_bit 32 (ucast h) + take_bit 32 (ucast t)"
    unfolding head_tail_pack_def and_HT_MASK DEQUEUE_BITS_def by (rule disjunctive_add_eq_or [OF disj, symmetric])
  also have "\<dots> = of_nat (unat h * 2 ^ 32 + unat t)"
  proof -
    have "push_bit 32 (ucast h :: u64) = of_nat (unat h * 2 ^ 32)"
      by (simp add: push_bit_eq_mult)
    moreover have "take_bit 32 (ucast t :: u64) = of_nat (unat t)"
      by (rule bit_word_eqI) (auto simp: bit_simps dest: bit_u32_less)
    ultimately show ?thesis by simp
  qed
  finally have "unat (head_tail_pack h t) = (unat h * 2 ^ 32 + unat t) mod 2 ^ 64"
    by (simp only: unat_of_nat) simp
  moreover have "unat h * 2 ^ 32 + unat t < 2 ^ 64"
    using unsigned_less [of h, where 'a = nat] unsigned_less [of t, where 'a = nat] by simp
  ultimately show ?thesis by (simp only: mod_less)
qed

lemma digit_carry:
  fixes x t M :: nat
  assumes "t < M"
  shows "((x + 1) mod M) * M + t = (x * M + t + M) mod (M * M)"
proof -
  let ?a = "(x + 1) * M + t"
  have d: "?a div M = x + 1" using assms by (subst div_mult_self3) simp_all
  have m: "?a mod M = t" using assms by (subst mod_mult_self3) simp
  have "?a mod (M * M) = M * (?a div M mod M) + ?a mod M" by (rule mod_mult2_eq)
  then have "?a mod (M * M) = M * ((x + 1) mod M) + t" unfolding d m .
  moreover have "x * M + t + M = ?a" by simp
  ultimately show ?thesis by (simp only: mult.commute)
qed

lemma head_tail_pack_advance:
  "head_tail_pack h t + push_bit DEQUEUE_BITS 1 = head_tail_pack (h + 1) t"
proof (rule unsigned_word_eqI [where ?'a = nat])
  have "unat (h + 1) = (unat h + 1) mod 2 ^ 32"
    by (simp add: unat_word_ariths)
  then have "unat (h + 1) * 2 ^ 32 + unat t = ((unat h + 1) mod 2 ^ 32) * 2 ^ 32 + unat t"
    by simp
  also have "\<dots> = (unat h * 2 ^ 32 + unat t + 2 ^ 32) mod 2 ^ 64"
    using digit_carry [of "unat t" "2 ^ 32" "unat h"] unsigned_less [of t, where 'a = nat] by simp
  also have "\<dots> = unat (head_tail_pack h t + push_bit DEQUEUE_BITS 1)"
    by (simp add: unat_word_ariths unat_head_tail_pack DEQUEUE_BITS_def push_bit_eq_mult)
  finally show "unat (head_tail_pack h t + push_bit DEQUEUE_BITS 1) = unat (head_tail_pack (h + 1) t)"
    by (simp only: unat_head_tail_pack)
qed

section \<open>The contract of a bounded FIFO queue\<close>

text \<open>\<open>ready\<close> says which elements may leave; the oldest element blocks the others.\<close>

locale bounded_fifo =
  fixes enq :: "'a \<Rightarrow> 'q \<Rightarrow> 'q option" and deq :: "('a \<Rightarrow> bool) \<Rightarrow> 'q \<Rightarrow> ('a option \<times> 'q) option"
    and ok :: "'q \<Rightarrow> bool" and contents :: "'q \<Rightarrow> 'a list" and cap :: "'q \<Rightarrow> nat"
  assumes within: "ok q \<Longrightarrow> length (contents q) \<le> cap q"
    and enq_full: "ok q \<Longrightarrow> length (contents q) = cap q \<Longrightarrow> enq x q = None"
    and enq_room: "ok q \<Longrightarrow> length (contents q) < cap q \<Longrightarrow>
      \<exists>q'. enq x q = Some q' \<and> ok q' \<and> contents q' = contents q @ [x] \<and> cap q' = cap q"
    and deq_empty: "ok q \<Longrightarrow> contents q = [] \<Longrightarrow> deq ready q = Some (None, q)"
    and deq_blocked: "ok q \<Longrightarrow> contents q = x # xs \<Longrightarrow> \<not> ready x \<Longrightarrow> deq ready q = Some (None, q)"
    and deq_head: "ok q \<Longrightarrow> contents q = x # xs \<Longrightarrow> ready x \<Longrightarrow>
      \<exists>q'. deq ready q = Some (Some x, q') \<and> ok q' \<and> contents q' = xs \<and> cap q' = cap q"
begin

primrec enq_all :: "'a list \<Rightarrow> 'q \<Rightarrow> 'q option" where
  "enq_all [] q = Some q"
| "enq_all (x # xs) q = enq x q \<bind> enq_all xs"

primrec drain :: "nat \<Rightarrow> ('a \<Rightarrow> bool) \<Rightarrow> 'q \<Rightarrow> ('a list \<times> 'q) option" where
  "drain 0 ready q = Some ([], q)"
| "drain (Suc n) ready q =
     do {
       (x, q) \<leftarrow> deq ready q;
       case x of
         None \<Rightarrow> Some ([], q)
       | Some x \<Rightarrow> do { (xs, q) \<leftarrow> drain n ready q; Some (x # xs, q) }
     }"

lemma enq_all_ok:
  "ok q \<Longrightarrow> length (contents q) + length xs \<le> cap q \<Longrightarrow>
   \<exists>q'. enq_all xs q = Some q' \<and> ok q' \<and> contents q' = contents q @ xs \<and> cap q' = cap q"
proof (induction xs arbitrary: q)
  case (Cons x xs)
  then obtain q1 where q1: "enq x q = Some q1" "ok q1" "contents q1 = contents q @ [x]" "cap q1 = cap q"
    using enq_room [of q x] by auto
  then show ?case using Cons.IH [of q1] Cons.prems by auto
qed simp

lemma drain_ok:
  "ok q \<Longrightarrow> length (contents q) \<le> n \<Longrightarrow>
   \<exists>q'. drain n ready q = Some (takeWhile ready (contents q), q') \<and> ok q'
     \<and> contents q' = dropWhile ready (contents q) \<and> cap q' = cap q"
proof (induction n arbitrary: q)
  case 0
  then show ?case by simp
next
  case (Suc n)
  show ?case
  proof (cases "contents q")
    case Nil
    then show ?thesis using deq_empty [OF Suc.prems(1) Nil] Suc.prems(1) by simp
  next
    case (Cons x xs)
    show ?thesis
    proof (cases "ready x")
      case False
      then show ?thesis using deq_blocked [OF Suc.prems(1) Cons] Suc.prems(1) Cons by simp
    next
      case True
      then obtain q1 where q1: "deq ready q = Some (Some x, q1)" "ok q1" "contents q1 = xs" "cap q1 = cap q"
        using deq_head [OF Suc.prems(1) Cons] by blast
      then obtain q' where "drain n ready q1 = Some (takeWhile ready xs, q')" "ok q'"
          "contents q' = dropWhile ready xs" "cap q' = cap q"
        using Suc.IH [of q1] Suc.prems(2) Cons by auto
      then show ?thesis using q1(1) Cons True by auto
    qed
  qed
qed

lemma fifo_order:
  assumes "ok q" and "contents q = []" and "length xs \<le> cap q"
  shows "\<exists>q1 q2. enq_all xs q = Some q1 \<and> drain (length xs) ready q1 = Some (takeWhile ready xs, q2)
    \<and> contents q2 = dropWhile ready xs \<and> ok q2"
proof -
  obtain q1 where q1: "enq_all xs q = Some q1" "ok q1" "contents q1 = xs"
    using enq_all_ok [of q xs] assms by auto
  then show ?thesis using drain_ok [of q1 "length xs" ready] by auto
qed

end

section \<open>The ring buffer meets it\<close>

definition ring_ok :: "nat option list \<Rightarrow> nat \<Rightarrow> nat \<Rightarrow> bool" where
  "ring_ok slots t n \<longleftrightarrow> n \<le> length slots
     \<and> (\<forall>k < length slots. (slots ! ((t + k) mod length slots) \<noteq> None) = (k < n))"

definition ring_list :: "nat option list \<Rightarrow> nat \<Rightarrow> nat \<Rightarrow> nat list" where
  "ring_list slots t n = map (\<lambda>k. the (slots ! ((t + k) mod length slots))) [0..<n]"

definition queue_ok :: "batch_queue \<Rightarrow> bool" where
  "queue_ok q \<longleftrightarrow> (\<exists>m \<le> 10. bq_size q = 2 ^ m)
     \<and> (let (h, t) = head_tail_unpack (bq_head_tail q) in ring_ok (bq_slots q) (unat t) (unat (h - t)))"

definition queue_contents :: "batch_queue \<Rightarrow> nat list" where
  "queue_contents q =
     (let (h, t) = head_tail_unpack (bq_head_tail q) in ring_list (bq_slots q) (unat t) (unat (h - t)))"

lemma slot_index_eq:
  assumes "N = 2 ^ m" and "m \<le> 10"
  shows "slot_index N w = unat w mod N"
proof -
  have "(of_nat N - 1 :: u32) = mask m"
    using assms by (simp add: mask_eq_exp_minus_1)
  then have "slot_index N w = unat (take_bit m w)"
    by (simp add: slot_index_def take_bit_eq_mask)
  also have "\<dots> = take_bit m (unat w)" by (simp add: unsigned_take_bit_eq)
  finally show ?thesis using assms(1) by (simp add: take_bit_eq_mod)
qed

lemma unat_add_mod:
  assumes "N = 2 ^ m" and "m \<le> 10"
  shows "(unat (w + of_nat k :: u32) + j) mod N = (unat w + k + j) mod N"
proof -
  have dvd: "N dvd 2 ^ 32" unfolding assms(1) by (rule le_imp_power_dvd) (use assms(2) in simp)
  have "unat (w + of_nat k) = (unat w + k) mod 2 ^ 32"
    by (simp add: unat_word_ariths unat_of_nat mod_simps)
  then have "unat (w + of_nat k) mod N = (unat w + k) mod N"
    by (simp only: mod_mod_cancel [OF dvd])
  then show ?thesis by (rule mod_add_cong) (rule refl)
qed

lemma ring_index_inj:
  assumes "i < N" and "j < N"
  shows "(t + i) mod N = (t + j) mod N \<longleftrightarrow> i = (j :: nat)"
proof -
  have aux: "a = b" if "a \<le> b" "b < N" "(t + a) mod N = (t + b) mod N" for a b
  proof -
    have "N dvd (t + b) - (t + a)"
      using that mod_eq_dvd_iff_nat [of "t + a" "t + b" N] by simp
    then have "N dvd b - a" by simp
    then show ?thesis using that(1,2) dvd_imp_le [of N "b - a"] by (cases "a = b") auto
  qed
  then show ?thesis
    using assms by (metis linorder_le_cases)
qed

lemma ring_cong:
  assumes "t mod length slots = t' mod length slots"
  shows "ring_ok slots t n = ring_ok slots t' n" and "ring_list slots t n = ring_list slots t' n"
proof -
  have "(t + k) mod length slots = (t' + k) mod length slots" for k
    using assms by (metis mod_add_left_eq)
  then show "ring_ok slots t n = ring_ok slots t' n" and "ring_list slots t n = ring_list slots t' n"
    by (simp_all add: ring_ok_def ring_list_def)
qed

lemma ring_push:
  assumes "ring_ok slots t n" and "n < length slots"
  defines "i \<equiv> (t + n) mod length slots"
  shows "ring_ok (slots[i := Some x]) t (Suc n)"
    and "ring_list (slots[i := Some x]) t (Suc n) = ring_list slots t n @ [x]"
proof -
  have i: "i < length slots" unfolding i_def using assms(2) by (intro mod_less_divisor) linarith
  have nth: "slots[i := Some x] ! ((t + k) mod length slots)
      = (if k = n then Some x else slots ! ((t + k) mod length slots))" if "k < length slots" for k
    using that assms(2) ring_index_inj [of k "length slots" n t] i
    by (auto simp: nth_list_update i_def)
  then show "ring_ok (slots[i := Some x]) t (Suc n)"
    using assms(1,2) by (auto simp: ring_ok_def less_Suc_eq)
  show "ring_list (slots[i := Some x]) t (Suc n) = ring_list slots t n @ [x]"
    using assms(2) nth by (simp add: ring_list_def)
qed

lemma ring_pop:
  assumes "ring_ok slots t (Suc n)"
  defines "i \<equiv> t mod length slots"
  shows "\<exists>x. slots ! i = Some x \<and> ring_list slots t (Suc n) = x # ring_list (slots[i := None]) (Suc t) n"
    and "ring_ok (slots[i := None]) (Suc t) n" and "i < length slots"
proof -
  have n: "n < length slots" using assms(1) by (simp add: ring_ok_def)
  then show i: "i < length slots" unfolding i_def by (intro mod_less_divisor) linarith
  have ne: "slots ! i \<noteq> None"
    using assms(1) n unfolding ring_ok_def i_def by (metis add_0_right gr_zeroI not_less_zero zero_less_Suc)
  have wrap: "(Suc t + k) mod length slots = (if Suc k = length slots then i else (t + Suc k) mod length slots)"
    for k
  proof (cases "Suc k = length slots")
    case True
    then have "Suc t + k = t + length slots" by simp
    then show ?thesis using True by (simp only: i_def mod_add_self2) simp
  qed simp
  have nth: "slots[i := None] ! ((Suc t + k) mod length slots)
      = (if Suc k = length slots then None else slots ! ((t + Suc k) mod length slots))"
    if "k < length slots" for k
  proof (cases "Suc k = length slots")
    case True
    then show ?thesis using wrap [of k] i by simp
  next
    case False
    then have "Suc k < length slots" using that by simp
    then have "(t + Suc k) mod length slots \<noteq> i"
      using ring_index_inj [of "Suc k" "length slots" 0 t] n by (cases slots) (auto simp: i_def)
    then show ?thesis using False wrap [of k] by simp
  qed
  show "ring_ok (slots[i := None]) (Suc t) n"
  proof -
    have "(slots[i := None] ! ((Suc t + k) mod length slots) \<noteq> None) = (k < n)" if k: "k < length slots" for k
    proof (cases "Suc k = length slots")
      case True
      then show ?thesis using nth [OF k] n by simp
    next
      case False
      then have "(slots ! ((t + Suc k) mod length slots) \<noteq> None) = (Suc k < Suc n)"
        using assms(1) k unfolding ring_ok_def by (metis Suc_lessI)
      then show ?thesis using nth [OF k] False by simp
    qed
    then show ?thesis using n by (simp add: ring_ok_def)
  qed
  have "map (\<lambda>k. the (slots ! ((t + Suc k) mod length slots))) [0..<n] = ring_list (slots[i := None]) (Suc t) n"
    using nth n by (simp add: ring_list_def)
  moreover have "ring_list slots t (Suc n)
      = the (slots ! i) # map (\<lambda>k. the (slots ! ((t + Suc k) mod length slots))) [0..<n]"
    unfolding ring_list_def i_def by (simp add: upt_conv_Cons map_Suc_upt [symmetric] del: upt_Suc)
  ultimately show "\<exists>x. slots ! i = Some x \<and> ring_list slots t (Suc n) = x # ring_list (slots[i := None]) (Suc t) n"
    using ne by auto
qed

lemma queue_okE:
  assumes "queue_ok q"
  obtains m h t n where "bq_size q = 2 ^ m" "m \<le> 10" "bq_head_tail q = head_tail_pack h t"
    "h = t + of_nat n" "n = unat (h - t)" "n \<le> bq_size q" "ring_ok (bq_slots q) (unat t) n"
    "queue_contents q = ring_list (bq_slots q) (unat t) n"
proof -
  obtain h t where ht: "head_tail_unpack (bq_head_tail q) = (h, t)" by (cases "head_tail_unpack (bq_head_tail q)")
  obtain m where m: "bq_size q = 2 ^ m" "m \<le> 10" using assms by (auto simp: queue_ok_def)
  have "ring_ok (bq_slots q) (unat t) (unat (h - t))" using assms by (simp add: queue_ok_def ht)
  then show thesis
    using that [OF m head_tail_pack_unpack [OF ht], of "unat (h - t)"]
    by (simp add: queue_contents_def ht ring_ok_def)
qed

lemma length_ring_list [simp]: "length (ring_list slots t n) = n"
  by (simp add: ring_list_def)

lemma unat_diff_small: "n \<le> 1024 \<Longrightarrow> unat (of_nat n :: u32) = n"
  by (simp add: unat_of_nat)

lemma queue_size_bound: "N = 2 ^ m \<Longrightarrow> m \<le> 10 \<Longrightarrow> N \<le> (1024 :: nat)"
  using power_increasing [of m 10 "2 :: nat"] by simp

lemma queue_okI:
  assumes "length slots = 2 ^ m" "m \<le> 10" "h = t + of_nat n" "ring_ok slots (unat t) n"
  shows "queue_ok \<lparr>bq_head_tail = head_tail_pack h t, bq_slots = slots\<rparr>"
    and "queue_contents \<lparr>bq_head_tail = head_tail_pack h t, bq_slots = slots\<rparr> = ring_list slots (unat t) n"
proof -
  have "n \<le> 1024" using assms(4) queue_size_bound [OF assms(1,2)] by (simp add: ring_ok_def)
  then have "unat (h - t) = n" using assms(3) by (simp add: unat_diff_small)
  then show "queue_ok \<lparr>bq_head_tail = head_tail_pack h t, bq_slots = slots\<rparr>"
    and "queue_contents \<lparr>bq_head_tail = head_tail_pack h t, bq_slots = slots\<rparr> = ring_list slots (unat t) n"
    using assms by (auto simp: queue_ok_def queue_contents_def)
qed

lemma enqueue_eq:
  assumes "bq_size q = 2 ^ m" "m \<le> 10" "bq_head_tail q = head_tail_pack h t" "h = t + of_nat n" "n \<le> bq_size q"
  shows "enqueue x q = (if n = bq_size q then None else
    Some \<lparr>bq_head_tail = head_tail_pack (t + of_nat (Suc n)) t,
          bq_slots = (bq_slots q)[(unat t + n) mod bq_size q := Some x]\<rparr>)"
proof -
  have N: "bq_size q \<le> 1024" by (rule queue_size_bound [OF assms(1,2)])
  have full: "t + of_nat (bq_size q) = h \<longleftrightarrow> n = bq_size q"
  proof
    assume "t + of_nat (bq_size q) = h"
    then have "(of_nat (bq_size q) :: u32) = of_nat n" using assms(4) by simp
    then have "unat (of_nat (bq_size q) :: u32) = unat (of_nat n :: u32)" by simp
    then show "n = bq_size q" using N assms(5) by (simp add: unat_diff_small)
  qed (use assms(4) in simp)
  have idx: "slot_index (bq_size q) h = (unat t + n) mod bq_size q"
    using slot_index_eq [OF assms(1,2), of h] unat_add_mod [OF assms(1,2), of t n 0] assms(4) by simp
  have "0 < bq_size q" using assms(1) by simp
  then have lt: "(unat t + n) mod bq_size q < bq_size q" by (rule mod_less_divisor)
  have adv: "bq_head_tail q + push_bit DEQUEUE_BITS 1 = head_tail_pack (t + of_nat (Suc n)) t"
    using head_tail_pack_advance [of h t] assms(3,4) by (simp add: add.commute add.left_commute)
  show ?thesis
    using full lt adv by (simp add: enqueue_def assms(3) idx set_at_def Let_def)
qed

lemma queue_within:
  assumes "queue_ok q"
  shows "length (queue_contents q) \<le> bq_size q"
proof -
  obtain t n where "n \<le> bq_size q" "queue_contents q = ring_list (bq_slots q) t n"
    by (rule queue_okE [OF assms])
  then show ?thesis by simp
qed

lemma enqueue_full:
  assumes "queue_ok q" and "length (queue_contents q) = bq_size q"
  shows "enqueue x q = None"
proof -
  obtain m h t n where q: "bq_size q = 2 ^ m" "m \<le> 10" "bq_head_tail q = head_tail_pack h t"
    "h = t + of_nat n" "n = unat (h - t)" "n \<le> bq_size q" "ring_ok (bq_slots q) (unat t) n"
    "queue_contents q = ring_list (bq_slots q) (unat t) n"
    by (rule queue_okE [OF assms(1)])
  show ?thesis using enqueue_eq [OF q(1-4,6)] assms(2) q(8) by simp
qed

lemma enqueue_room:
  assumes "queue_ok q" and "length (queue_contents q) < bq_size q"
  shows "\<exists>q'. enqueue x q = Some q' \<and> queue_ok q' \<and> queue_contents q' = queue_contents q @ [x]
    \<and> bq_size q' = bq_size q"
proof -
  obtain m h t n where q: "bq_size q = 2 ^ m" "m \<le> 10" "bq_head_tail q = head_tail_pack h t"
    "h = t + of_nat n" "n = unat (h - t)" "n \<le> bq_size q" "ring_ok (bq_slots q) (unat t) n"
    "queue_contents q = ring_list (bq_slots q) (unat t) n"
    by (rule queue_okE [OF assms(1)])
  have n: "n < bq_size q" using assms(2) q(8) by simp
  let ?slots = "(bq_slots q)[(unat t + n) mod bq_size q := Some x]"
  note push = ring_push [OF q(7) n, of x]
  have len: "length ?slots = 2 ^ m" using q(1) by simp
  note ok = queue_okI [OF len q(2) refl push(1)]
  have "enqueue x q = Some \<lparr>bq_head_tail = head_tail_pack (t + of_nat (Suc n)) t, bq_slots = ?slots\<rparr>"
    using enqueue_eq [OF q(1-4,6)] n by simp
  then show ?thesis using ok push(2) q(8) by simp
qed

lemma try_dequeue_eq:
  assumes "bq_size q = 2 ^ m" "m \<le> 10" "bq_head_tail q = head_tail_pack h t" "h = t + of_nat (Suc n)"
    and "ring_ok (bq_slots q) (unat t) (Suc n)" "bq_slots q ! (unat t mod bq_size q) = Some x"
  shows "try_dequeue applied q = Some (if applied x then
    (Some x, \<lparr>bq_head_tail = head_tail_pack h (t + 1), bq_slots = (bq_slots q)[unat t mod bq_size q := None]\<rparr>)
    else (None, q))"
proof -
  have "Suc n \<le> 1024" using queue_size_bound [OF assms(1,2)] assms(5) by (simp add: ring_ok_def)
  then have "unat (of_nat (Suc n) :: u32) = Suc n" by (rule unat_diff_small)
  then have ne: "t \<noteq> h" using assms(4) by auto
  have idx: "slot_index (bq_size q) t = unat t mod bq_size q" by (rule slot_index_eq [OF assms(1,2)])
  have lt: "unat t mod bq_size q < bq_size q" using ring_pop(3) [OF assms(5)] .
  show ?thesis
    using ne lt assms(6) by (simp add: try_dequeue_def assms(3) idx get_at_def set_at_def Let_def)
qed

lemma dequeue_empty:
  assumes "queue_ok q" and "queue_contents q = []"
  shows "try_dequeue applied q = Some (None, q)"
proof -
  obtain m h t n where q: "bq_size q = 2 ^ m" "m \<le> 10" "bq_head_tail q = head_tail_pack h t"
    "h = t + of_nat n" "n = unat (h - t)" "n \<le> bq_size q" "ring_ok (bq_slots q) (unat t) n"
    "queue_contents q = ring_list (bq_slots q) (unat t) n"
    by (rule queue_okE [OF assms(1)])
  then have "n = 0" using assms(2) by (metis length_ring_list list.size(3))
  then show ?thesis using q(3,4) by (simp add: try_dequeue_def)
qed

lemma dequeue_head:
  assumes "queue_ok q" and "queue_contents q = x # xs"
  shows "\<not> applied x \<Longrightarrow> try_dequeue applied q = Some (None, q)"
    and "applied x \<Longrightarrow> \<exists>q'. try_dequeue applied q = Some (Some x, q') \<and> queue_ok q'
      \<and> queue_contents q' = xs \<and> bq_size q' = bq_size q"
proof -
  obtain m h t n where q: "bq_size q = 2 ^ m" "m \<le> 10" "bq_head_tail q = head_tail_pack h t"
    "h = t + of_nat n" "n = unat (h - t)" "n \<le> bq_size q" "ring_ok (bq_slots q) (unat t) n"
    "queue_contents q = ring_list (bq_slots q) (unat t) n"
    by (rule queue_okE [OF assms(1)])
  obtain k where n: "n = Suc k" using assms(2) q(8) by (metis length_Cons length_ring_list)
  let ?slots = "(bq_slots q)[unat t mod bq_size q := None]"
  note pop = ring_pop [OF q(7) [unfolded n]]
  have x: "bq_slots q ! (unat t mod bq_size q) = Some x" "ring_list ?slots (Suc (unat t)) k = xs"
    using pop(1) assms(2) q(8) n by auto
  note deq = try_dequeue_eq [OF q(1-3) q(4) [unfolded n] q(7) [unfolded n] x(1), of applied]
  show "\<not> applied x \<Longrightarrow> try_dequeue applied q = Some (None, q)" using deq by simp
  have len: "length ?slots = 2 ^ m" using q(1) by simp
  have mod: "unat (t + 1) mod length ?slots = Suc (unat t) mod length ?slots"
    using unat_add_mod [OF len q(2), of t 1 0] by simp
  have h: "h = t + 1 + of_nat k" using q(4) n by simp
  note ok = queue_okI [OF len q(2) h]
  show "applied x \<Longrightarrow> \<exists>q'. try_dequeue applied q = Some (Some x, q') \<and> queue_ok q'
      \<and> queue_contents q' = xs \<and> bq_size q' = bq_size q"
    using deq ok pop(2) x(2) ring_cong [OF mod, of k] by simp
qed

interpretation commit_queue: bounded_fifo enqueue try_dequeue queue_ok queue_contents bq_size
  by (unfold_locales)
    (simp_all add: queue_within enqueue_full enqueue_room dequeue_empty dequeue_head)

section \<open>Properties\<close>

lemma head_tail_zero: "head_tail_pack 0 0 = 0"
  by (simp add: head_tail_pack_def)

lemma batch_queue_new_ok:
  assumes "m \<le> 10"
  shows "queue_ok \<lparr>bq_head_tail = 0, bq_slots = replicate (2 ^ m) None\<rparr>"
    and "queue_contents \<lparr>bq_head_tail = 0, bq_slots = replicate (2 ^ m) None\<rparr> = []"
proof -
  have "ring_ok (replicate (2 ^ m) None) (unat (0 :: u32)) 0" by (simp add: ring_ok_def)
  note q = queue_okI [OF length_replicate assms, of 0 0 0, OF _ this]
  show "queue_ok \<lparr>bq_head_tail = 0, bq_slots = replicate (2 ^ m) None\<rparr>"
    and "queue_contents \<lparr>bq_head_tail = 0, bq_slots = replicate (2 ^ m) None\<rparr> = []"
    using q by (simp_all add: head_tail_zero ring_list_def)
qed

lemma batch_queue_new_cases:
  assumes "batch_queue_new N = Some q"
  shows "queue_ok q \<and> queue_contents q = [] \<and> bq_size q = N"
proof -
  obtain m where m: "N = 2 ^ m" "N \<le> 1024" "q = \<lparr>bq_head_tail = 0, bq_slots = replicate N None\<rparr>"
    using assms by (auto simp: batch_queue_new_def is_power_of_two_def split: if_splits)
  then have "(2::nat) ^ m \<le> 2 ^ 10" by simp
  then have "m \<le> 10" by (rule power_le_imp_le_exp [rotated]) simp
  then show ?thesis using batch_queue_new_ok m by simp
qed

text \<open>
  Also:  The packed head and tail: unpacking a packed pair gives the pair back, every 64-bit word is
  the packing of its halves, and adding \<open>1 << 32\<close> (the producer's \<open>fetch_add\<close>) advances the
  head modulo \<open>2 ^ 32\<close> without touching the tail, also when the head wraps around.
\<close>

theorem head_tail_roundtrip:
  "head_tail_unpack (head_tail_pack h t) = (h, t)
   \<and> head_tail_pack (fst (head_tail_unpack w)) (snd (head_tail_unpack w)) = w
   \<and> head_tail_unpack (head_tail_pack h t + push_bit DEQUEUE_BITS 1) = (h + 1, t)"
  using head_tail_pack_unpack [of w "fst (head_tail_unpack w)" "snd (head_tail_unpack w)"]
  by (simp add: head_tail_pack_advance del: push_bit_of_1)

text \<open>
  C31.  The ring buffer implements a bounded FIFO queue: for operations that do not overlap,
  \<open>enqueue\<close> appends when there is room and panics exactly when the queue holds \<open>N\<close>
  batches, \<open>try_dequeue\<close> removes the oldest batch exactly when it is applied and
  otherwise changes nothing; the invariant is kept for every position of head and tail,
  wrap-around of the 32-bit counters and of the slots included.
\<close>

theorem batch_queue_refines_fifo:
  assumes "queue_ok q"
  shows "(length (queue_contents q) = bq_size q \<longrightarrow> enqueue b q = None)
    \<and> (length (queue_contents q) < bq_size q \<longrightarrow>
        (\<exists>q'. enqueue b q = Some q' \<and> queue_ok q' \<and> queue_contents q' = queue_contents q @ [b]))
    \<and> (\<exists>r q'. try_dequeue applied q = Some (r, q') \<and> queue_ok q'
        \<and> (case queue_contents q of
             [] \<Rightarrow> r = None \<and> q' = q
           | x # xs \<Rightarrow> if applied x then r = Some x \<and> queue_contents q' = xs else r = None \<and> q' = q))"
proof (cases "queue_contents q")
  case Nil
  then show ?thesis
    using assms commit_queue.enq_full commit_queue.enq_room commit_queue.deq_empty [OF assms Nil, of applied]
    by fastforce
next
  case (Cons x xs)
  have "\<exists>r q'. try_dequeue applied q = Some (r, q') \<and> queue_ok q'
      \<and> (if applied x then r = Some x \<and> queue_contents q' = xs else r = None \<and> q' = q)"
    using commit_queue.deq_head [OF assms Cons, of applied] commit_queue.deq_blocked [OF assms Cons, of applied] assms
    by (cases "applied x") auto
  then show ?thesis
    using Cons assms commit_queue.enq_full commit_queue.enq_room by fastforce
qed

theorem batch_queue_refines_fifo_witness:
  "\<exists>q'. enqueue 7 \<lparr>bq_head_tail = 0, bq_slots = [None, None]\<rparr> = Some q' \<and> queue_contents q' = [7]"
proof -
  have "queue_ok \<lparr>bq_head_tail = 0, bq_slots = [None, None]\<rparr>"
    "queue_contents \<lparr>bq_head_tail = 0, bq_slots = [None, None]\<rparr> = []"
    using batch_queue_new_ok [of 1] by (simp_all add: numeral_2_eq_2)
  then show ?thesis using batch_queue_refines_fifo [of _ 7] by fastforce
qed

text \<open>
  Also:  Publication order: batches that were enqueued into a new queue come out in exactly that
  order, and a batch that is not yet applied holds back every later one, applied or not.
\<close>

theorem batch_queue_publication_order:
  assumes "batch_queue_new N = Some q" and "length xs \<le> N"
  shows "\<exists>q1 q2. commit_queue.enq_all xs q = Some q1
    \<and> commit_queue.drain (length xs) applied q1 = Some (takeWhile applied xs, q2)
    \<and> queue_contents q2 = dropWhile applied xs"
  using commit_queue.fifo_order [of q xs applied] batch_queue_new_cases [OF assms(1)] assms(2) by blast

theorem batch_queue_publication_order_witness:
  "\<exists>q1 q2. commit_queue.enq_all [3, 5, 4] \<lparr>bq_head_tail = 0, bq_slots = replicate 4 None\<rparr> = Some q1
    \<and> commit_queue.drain (length [3, 5, 4::nat]) odd q1 = Some (takeWhile odd [3, 5, 4], q2)
    \<and> queue_contents q2 = dropWhile odd [3, 5, 4]"
proof (rule batch_queue_publication_order)
  have "is_power_of_two 4" unfolding is_power_of_two_def by (rule bexI [of _ 2]) simp_all
  then show "batch_queue_new 4 = Some \<lparr>bq_head_tail = 0, bq_slots = replicate 4 None\<rparr>"
    by (simp add: batch_queue_new_def)
qed simp

text \<open>The queue of one slot before any operation.\<close>

definition race_start :: queue_sys where
  "race_start = \<lparr>qs_queue = \<lparr>bq_head_tail = 0, bq_slots = [None]\<rparr>, qs_prod = PIdle,
     qs_cons = (\<lambda>_. CIdle)\<rparr>"

definition race_state :: "u32 \<Rightarrow> u32 \<Rightarrow> nat option \<Rightarrow> prod_pc \<Rightarrow> cons_pc \<Rightarrow> queue_sys" where
  "race_state h t slot p c = \<lparr>qs_queue = \<lparr>bq_head_tail = head_tail_pack h t, bq_slots = [slot]\<rparr>,
     qs_prod = p, qs_cons = (\<lambda>_. CIdle)(0 := c)\<rparr>"

lemma race_start_eq: "race_start = race_state 0 0 None PIdle CIdle"
  by (simp add: race_start_def race_state_def head_tail_zero fun_eq_iff)

lemma slot_index_one [simp]: "slot_index (Suc 0) w = 0"
  by (simp add: slot_index_def)

lemma race_enqueue:
  assumes "t + 1 \<noteq> h"
  shows "(queue_step applied)\<^sup>*\<^sup>* (race_state h t slot PIdle c) (race_state (h + 1) t (Some b) PIdle c)"
proof -
  let ?s = "race_state h t slot PIdle c"
  have "queue_step applied ?s (race_state h t slot (PStart b) c)"
    using prod_begin [of ?s applied b] by (simp add: race_state_def)
  moreover have "queue_step applied (race_state h t slot (PStart b) c) (race_state h t slot (PSlot b h) c)"
    using prod_room [of "race_state h t slot (PStart b) c" b h t applied] assms
    by (simp add: race_state_def)
  moreover have "queue_step applied (race_state h t slot (PSlot b h) c) (race_state h t (Some b) PPublish c)"
    using prod_store [of "race_state h t slot (PSlot b h) c" b h applied]
    by (simp add: race_state_def)
  moreover have "queue_step applied (race_state h t (Some b) PPublish c) (race_state (h + 1) t (Some b) PIdle c)"
    using prod_publish [of "race_state h t (Some b) PPublish c" applied]
    by (simp add: race_state_def head_tail_pack_advance del: push_bit_of_1)
  ultimately show ?thesis by (meson converse_rtranclp_into_rtranclp rtranclp.rtrancl_refl)
qed

lemma race_claim:
  assumes "t \<noteq> h" and "applied b"
  shows "(queue_step applied)\<^sup>*\<^sup>* (race_state h t (Some b) PIdle CIdle)
    (race_state h (t + 1) (Some b) PIdle (CClear 0 b))"
proof -
  let ?w = "head_tail_pack h t"
  have "queue_step applied (race_state h t (Some b) PIdle CIdle) (race_state h t (Some b) PIdle (CLoop ?w))"
    using cons_load [of "race_state h t (Some b) PIdle CIdle" 0 applied]
    by (simp add: race_state_def set_cons_def)
  moreover have "queue_step applied (race_state h t (Some b) PIdle (CLoop ?w))
      (race_state h t (Some b) PIdle (CCas ?w b))"
    using cons_ready [of "race_state h t (Some b) PIdle (CLoop ?w)" 0 ?w h t b applied] assms
    by (simp add: race_state_def set_cons_def)
  moreover have "queue_step applied (race_state h t (Some b) PIdle (CCas ?w b))
      (race_state h (t + 1) (Some b) PIdle (CClear 0 b))"
    using cons_cas_ok [of "race_state h t (Some b) PIdle (CCas ?w b)" 0 ?w b h t applied]
    by (simp add: race_state_def set_cons_def)
  ultimately show ?thesis by (meson converse_rtranclp_into_rtranclp rtranclp.rtrancl_refl)
qed

text \<open>
  Also:  Producer and consumer do interfere: on a queue with one slot there is an interleaving after
  which a batch that was enqueued and is applied has been wiped out of its slot by the consumer
  of the previous batch.  The queue then holds no batch but counts one: every
  \<open>try_dequeue\<close> returns nothing and every \<open>enqueue\<close> panics as full.  (The producer tests
  the slot with \<open>if\<close> and stores anyway; its comment says it must wait.)
\<close>

theorem enqueue_race_loses_batch:
  "\<exists>s. (queue_step (\<lambda>_. True))\<^sup>*\<^sup>* race_start s \<and> qs_cons s 0 = CGot 1 \<and> qs_prod s = PIdle
    \<and> head_tail_unpack (bq_head_tail (qs_queue s)) = (2, 1) \<and> bq_slots (qs_queue s) = [None]
    \<and> try_dequeue (\<lambda>_. True) (qs_queue s) = Some (None, qs_queue s) \<and> enqueue b (qs_queue s) = None"
proof -
  let ?A = "\<lambda>_ :: nat. True"
  have "(queue_step ?A)\<^sup>*\<^sup>* race_start (race_state 1 0 (Some 1) PIdle CIdle)"
    using race_enqueue [of 0 0 ?A None CIdle 1] by (simp add: race_start_eq)
  also have "(queue_step ?A)\<^sup>*\<^sup>* (race_state 1 0 (Some 1) PIdle CIdle)
      (race_state 1 1 (Some 1) PIdle (CClear 0 1))"
    using race_claim [of 0 1 ?A 1] by simp
  also have "(queue_step ?A)\<^sup>*\<^sup>* (race_state 1 1 (Some 1) PIdle (CClear 0 1))
      (race_state 2 1 (Some 2) PIdle (CClear 0 1))"
    using race_enqueue [of 1 1 ?A "Some 1" "CClear 0 1" 2] by simp
  also have "queue_step ?A (race_state 2 1 (Some 2) PIdle (CClear 0 1)) (race_state 2 1 None PIdle (CGot 1))"
    using cons_clear [of "race_state 2 1 (Some 2) PIdle (CClear 0 1)" 0 0 1 ?A]
    by (simp add: race_state_def set_cons_def)
  finally have "(queue_step ?A)\<^sup>*\<^sup>* race_start (race_state 2 1 None PIdle (CGot 1))" .
  then show ?thesis
    by (intro exI [of _ "race_state 2 1 None PIdle (CGot 1)"])
      (simp add: race_state_def try_dequeue_def enqueue_def get_at_def)
qed

end
