(* ===== verification/Write_Pipeline.thy ===== *)
theory Write_Pipeline
  imports Batch_Object Batch_Queue
begin

text \<open>
  The write pipeline of \<open>crates/engine/src/db/write_pipeline.rs\<close> on top of the commit queue:
  the admission semaphore \<open>PipelineAdmission\<close>, \<open>reserve_space\<close>, \<open>prepare\<close>, \<open>commit\<close>,
  \<open>commit_sync\<close>, and the sequence-number state of \<open>crates/engine/src/version/mod.rs\<close>.
  Batches live at addresses of a store.  The storage engine behind \<open>WriterEnv\<close> is an
  argument.  Operations that block on the semaphore return \<open>None\<close> when no permit is left.
\<close>

section \<open>Sequence numbers\<close>

record seq_num_state =
  visible_seq_num :: u64
  log_seq_num :: u64

definition seq_num_state_new :: seq_num_state where
  "seq_num_state_new = \<lparr>visible_seq_num = 0, log_seq_num = 0\<rparr>"

definition load_log_seq_num :: "seq_num_state \<Rightarrow> u64" where
  "load_log_seq_num s = log_seq_num s"

section \<open>Admission\<close>

record pipeline_admission =
  pa_limit :: nat
  pa_count :: u16

definition admission_new :: "nat \<Rightarrow> pipeline_admission option" where
  "admission_new limit =
     do {
       assert_that (limit \<le> 65535);
       Some \<lparr>pa_limit = limit, pa_count = of_nat limit\<rparr>
     }"

definition try_acquire :: "pipeline_admission \<Rightarrow> bool \<times> pipeline_admission" where
  "try_acquire a = (if pa_count a = 0 then (False, a) else (True, a\<lparr>pa_count := pa_count a - 1\<rparr>))"

definition admission_acquire :: "pipeline_admission \<Rightarrow> pipeline_admission option" where
  "admission_acquire a = (case try_acquire a of (True, a') \<Rightarrow> Some a' | (False, _) \<Rightarrow> None)"

definition admission_release :: "pipeline_admission \<Rightarrow> pipeline_admission option" where
  "admission_release a =
     do {
       let prev = pa_count a;
       let a = a\<lparr>pa_count := prev + 1\<rparr>;
       assert_that (unat prev < pa_limit a);
       Some a
     }"

section \<open>The pipeline\<close>

record write_pipeline =
  wp_queue :: batch_queue
  wp_commit_sem :: pipeline_admission
  wp_seq_state :: seq_num_state
  wp_store :: "nat \<Rightarrow> batch_inner option"

definition pipeline_new_with_size :: "nat \<Rightarrow> seq_num_state \<Rightarrow> write_pipeline option" where
  "pipeline_new_with_size N seq_state =
     do {
       q \<leftarrow> batch_queue_new N;
       a \<leftarrow> admission_new N;
       Some \<lparr>wp_queue = q, wp_commit_sem = a, wp_seq_state = seq_state, wp_store = (\<lambda>_. None)\<rparr>
     }"

definition try_reserve_space :: "write_pipeline \<Rightarrow> bool \<times> write_pipeline" where
  "try_reserve_space p =
     (let (ok, a) = try_acquire (wp_commit_sem p) in (ok, p\<lparr>wp_commit_sem := a\<rparr>))"

fun reserve_spin :: "nat \<Rightarrow> write_pipeline \<Rightarrow> bool \<times> write_pipeline" where
  "reserve_spin 0 p = (False, p)"
| "reserve_spin (Suc n) p =
     (case try_reserve_space p of (True, p') \<Rightarrow> (True, p') | (False, p') \<Rightarrow> reserve_spin n p')"

definition reserve_space :: "write_pipeline \<Rightarrow> write_pipeline option" where
  "reserve_space p =
     (case reserve_spin 200 p of
        (True, p) \<Rightarrow> Some p
      | (False, p) \<Rightarrow> map_option (\<lambda>a. p\<lparr>wp_commit_sem := a\<rparr>) (admission_acquire (wp_commit_sem p)))"

definition release_queue_space :: "write_pipeline \<Rightarrow> write_pipeline option" where
  "release_queue_space p =
     map_option (\<lambda>a. p\<lparr>wp_commit_sem := a\<rparr>) (admission_release (wp_commit_sem p))"

definition commit_sync :: "nat \<Rightarrow> write_pipeline \<Rightarrow> ((engine_error + unit) \<times> write_pipeline) option" where
  "commit_sync batch p = Some (Inr (), p)"

definition commit :: "nat \<Rightarrow> write_pipeline \<Rightarrow> ((engine_error + unit) \<times> write_pipeline) option" where
  "commit batch p =
     do {
       b \<leftarrow> wp_store p batch;
       p \<leftarrow> reserve_space p;
       w \<leftarrow> sync_waiter_signal WS_SyncDone (bi_waiter b);
       Some (Inr (), p\<lparr>wp_store := (wp_store p)(batch \<mapsto> b\<lparr>bi_waiter := w\<rparr>)\<rparr>)
     }"

definition prepare ::
  "(batch_inner \<Rightarrow> engine_error + unit) \<Rightarrow> nat \<Rightarrow> write_pipeline
   \<Rightarrow> ((engine_error + unit) \<times> write_pipeline) option" where
  "prepare env_prepare_commit batch p =
     do {
       b \<leftarrow> wp_store p batch;
       q \<leftarrow> enqueue batch (wp_queue p);
       let p = p\<lparr>wp_queue := q\<rparr>;
       let b = batch_set_runtime_state BS_InQueue b;
       let count = ucast (get_batch_count b);
       let old = log_seq_num (wp_seq_state p);
       let p = p\<lparr>wp_seq_state := (wp_seq_state p)\<lparr>log_seq_num := old + count\<rparr>\<rparr>;
       assert_that (count \<le> old);
       b \<leftarrow> assign_seq_num_once (old - count) b;
       let p = p\<lparr>wp_store := (wp_store p)(batch \<mapsto> b)\<rparr>;
       Some (env_prepare_commit b, p)
     }"

text \<open>How consumers take published batches out: \<open>try_dequeue\<close> reads the state of the batch at
  the tail.\<close>

definition pipeline_dequeue :: "write_pipeline \<Rightarrow> (nat option \<times> write_pipeline) option" where
  "pipeline_dequeue p =
     do {
       (r, q) \<leftarrow> try_dequeue (\<lambda>a. case wp_store p a of Some b \<Rightarrow> batch_is_applied b = Some True | None \<Rightarrow> False)
                   (wp_queue p);
       Some (r, p\<lparr>wp_queue := q\<rparr>)
     }"

section \<open>Lemmas\<close>

lemma try_acquire_simps:
  "try_acquire a = (unat (pa_count a) \<noteq> 0, a\<lparr>pa_count := if pa_count a = 0 then 0 else pa_count a - 1\<rparr>)"
  by (simp add: try_acquire_def unat_eq_0)

lemma reserve_spin_empty: "pa_count (wp_commit_sem p) = 0 \<Longrightarrow> reserve_spin n p = (False, p)"
  by (induction n) (simp_all add: try_reserve_space_def try_acquire_def)

lemma reserve_spin_room:
  "pa_count (wp_commit_sem p) \<noteq> 0 \<Longrightarrow> reserve_spin (Suc n) p
     = (True, p\<lparr>wp_commit_sem := (wp_commit_sem p)\<lparr>pa_count := pa_count (wp_commit_sem p) - 1\<rparr>\<rparr>)"
  by (simp add: try_reserve_space_def try_acquire_def)

lemma reserve_space_eq:
  "reserve_space p = (if pa_count (wp_commit_sem p) = 0 then None
     else Some (p\<lparr>wp_commit_sem := (wp_commit_sem p)\<lparr>pa_count := pa_count (wp_commit_sem p) - 1\<rparr>\<rparr>))"
proof (cases "pa_count (wp_commit_sem p) = 0")
  case True
  then show ?thesis by (simp add: reserve_space_def reserve_spin_empty admission_acquire_def try_acquire_def)
next
  case False
  then show ?thesis using reserve_spin_room [of p 199] by (simp add: reserve_space_def numeral_eq_Suc)
qed

section \<open>The admission discipline\<close>

text \<open>
  A writer takes a permit before it enqueues, and the permit goes back after the batch was
  dequeued.  \<open>r\<close> counts the permits of writers between \<open>reserve_space\<close> and \<open>prepare\<close>
  and \<open>d\<close> those of batches already dequeued.
\<close>

definition admission_inv :: "nat \<Rightarrow> nat \<Rightarrow> write_pipeline \<Rightarrow> bool" where
  "admission_inv r d p \<longleftrightarrow> queue_ok (wp_queue p) \<and> pa_limit (wp_commit_sem p) = bq_size (wp_queue p)
     \<and> unat (pa_count (wp_commit_sem p)) + r + length (queue_contents (wp_queue p)) + d
       = bq_size (wp_queue p)"

lemma unat_u16_minus_one: "(w :: u16) \<noteq> 0 \<Longrightarrow> unat (w - 1) = unat w - 1"
  by (simp add: unat_minus_one)

lemma admission_reserve:
  assumes "admission_inv r d p" and "reserve_space p = Some p'"
  shows "admission_inv (Suc r) d p'"
proof -
  have nz: "pa_count (wp_commit_sem p) \<noteq> 0"
    and p': "p' = p\<lparr>wp_commit_sem := (wp_commit_sem p)\<lparr>pa_count := pa_count (wp_commit_sem p) - 1\<rparr>\<rparr>"
    using assms(2) by (simp_all add: reserve_space_eq split: if_splits)
  have "0 < unat (pa_count (wp_commit_sem p))" using nz by (simp add: unat_gt_0)
  then show ?thesis
    using assms(1) unat_u16_minus_one [OF nz] by (simp add: admission_inv_def p')
qed

lemma queue_size_le: "queue_ok q \<Longrightarrow> bq_size q \<le> 1024"
  unfolding queue_ok_def using queue_size_bound by metis

lemma admission_release_inv:
  assumes "admission_inv r (Suc d) p"
  shows "\<exists>p'. release_queue_space p = Some p' \<and> admission_inv r d p'"
proof -
  let ?a = "wp_commit_sem p"
  have lt: "unat (pa_count ?a) < pa_limit ?a" "pa_limit ?a \<le> 1024"
    using assms queue_size_le by (auto simp: admission_inv_def)
  then have "unat (pa_count ?a + 1) = unat (pa_count ?a) + 1"
    by (simp add: unat_word_ariths)
  then show ?thesis
    using lt assms by (simp add: release_queue_space_def admission_release_def admission_inv_def Let_def)
qed

lemma admission_enqueue:
  assumes "admission_inv (Suc r) d p"
  obtains q where "enqueue b (wp_queue p) = Some q" and "queue_ok q"
    and "queue_contents q = queue_contents (wp_queue p) @ [b]" and "bq_size q = bq_size (wp_queue p)"
  using commit_queue.enq_room [of "wp_queue p" b] assms by (auto simp: admission_inv_def)

lemma admission_dequeue:
  assumes "admission_inv r d p" and "pipeline_dequeue p = Some (Some b, p')"
  shows "admission_inv r (Suc d) p'"
proof -
  let ?ap = "\<lambda>a. case wp_store p a of Some b \<Rightarrow> batch_is_applied b = Some True | None \<Rightarrow> False"
  obtain q where q: "try_dequeue ?ap (wp_queue p) = Some (Some b, q)" "p' = p\<lparr>wp_queue := q\<rparr>"
    using assms(2) by (auto simp: pipeline_dequeue_def split: bind_splits)
  have ok: "queue_ok (wp_queue p)" using assms(1) by (simp add: admission_inv_def)
  obtain x xs where c: "queue_contents (wp_queue p) = x # xs"
    using commit_queue.deq_empty [OF ok, of ?ap] q(1) by (cases "queue_contents (wp_queue p)") auto
  then have "?ap x" using commit_queue.deq_blocked [OF ok c, of ?ap] q(1) by auto
  then show ?thesis
    using commit_queue.deq_head [OF ok c, of ?ap] q assms(1) c by (auto simp: admission_inv_def)
qed

text \<open>\<open>prepare\<close> of a stored batch when the queue has room.\<close>

lemma prepare_outcome:
  assumes "wp_store p a = Some b" and "enqueue a (wp_queue p) = Some q" and "batch_holds s rs b"
    and "bi_data b \<noteq> []"
  defines "old \<equiv> log_seq_num (wp_seq_state p)" and "count \<equiv> ucast (bi_count b) :: u64"
  shows "(old < count \<longrightarrow> prepare env a p = None)
    \<and> (count \<le> old \<longrightarrow> (\<exists>p' b'. prepare env a p = Some (env b', p') \<and> wp_store p' a = Some b'
         \<and> batch_holds (old - count) rs b' \<and> bi_state b' = batch_state_u8 BS_InQueue
         \<and> log_seq_num (wp_seq_state p') = old + count \<and> wp_queue p' = q))"
proof -
  let ?b = "batch_set_runtime_state BS_InQueue b"
  have holds: "batch_holds s rs ?b" "bi_data ?b \<noteq> []" "bi_count ?b = bi_count b"
    using assms(3,4) by (simp_all add: batch_set_runtime_state_def)
  obtain b' where b': "assign_seq_num_once (old - count) ?b = Some b'" "batch_holds (old - count) rs b'"
      "bi_state b' = bi_state ?b"
    using assign_seq_num_once_ok [OF holds(1,2)] by blast
  have st: "bi_state ?b = batch_state_u8 BS_InQueue" by (simp add: batch_set_runtime_state_def)
  have "prepare env a p = (if count \<le> old then Some (env b', p\<lparr>wp_queue := q,
      wp_seq_state := (wp_seq_state p)\<lparr>log_seq_num := old + count\<rparr>,
      wp_store := (wp_store p)(a \<mapsto> b')\<rparr>) else None)"
    using assms(1,2) b'(1) holds(3)
    by (simp add: prepare_def Let_def get_batch_count_def old_def count_def)
  then show ?thesis using b'(2,3) st by auto
qed

section \<open>Properties\<close>

text \<open>
  Also:  Admission control keeps the queue from overflowing: as long as a permit is taken before each
  enqueue and returned after each dequeue, permits, reserved writers, queued and dequeued batches
  always add up to the capacity, an enqueue under a permit never hits the panic for a full queue,
  and returning a permit never hits the panic of the semaphore.
\<close>

theorem admission_prevents_overflow:
  assumes "admission_inv r d p"
  shows "(\<forall>p'. reserve_space p = Some p' \<longrightarrow> admission_inv (Suc r) d p')
    \<and> (0 < r \<longrightarrow> (\<exists>q. enqueue b (wp_queue p) = Some q \<and> admission_inv (r - 1) d (p\<lparr>wp_queue := q\<rparr>)))
    \<and> (\<forall>a p'. pipeline_dequeue p = Some (Some a, p') \<longrightarrow> admission_inv r (Suc d) p')
    \<and> (0 < d \<longrightarrow> (\<exists>p'. release_queue_space p = Some p' \<and> admission_inv r (d - 1) p'))"
proof -
  have "\<exists>q. enqueue b (wp_queue p) = Some q \<and> admission_inv (r - 1) d (p\<lparr>wp_queue := q\<rparr>)" if "0 < r"
  proof -
    have r: "admission_inv (Suc (r - 1)) d p" using assms that by simp
    obtain q where "enqueue b (wp_queue p) = Some q" "queue_ok q"
        "queue_contents q = queue_contents (wp_queue p) @ [b]" "bq_size q = bq_size (wp_queue p)"
      by (rule admission_enqueue [OF r])
    then show ?thesis using r by (simp add: admission_inv_def)
  qed
  moreover have "\<exists>p'. release_queue_space p = Some p' \<and> admission_inv r (d - 1) p'" if "0 < d"
    using admission_release_inv [of r "d - 1" p] assms that by simp
  ultimately show ?thesis
    using admission_reserve [OF assms] admission_dequeue [OF assms] by blast
qed

definition demo_pipeline :: write_pipeline where
  "demo_pipeline = \<lparr>wp_queue = \<lparr>bq_head_tail = 0, bq_slots = [None, None]\<rparr>,
     wp_commit_sem = \<lparr>pa_limit = 2, pa_count = 1\<rparr>, wp_seq_state = seq_num_state_new,
     wp_store = [7 \<mapsto> batch_inner_new]\<rparr>"

theorem admission_prevents_overflow_witness:
  "admission_inv 1 0 demo_pipeline \<and> (\<exists>q. enqueue 7 (wp_queue demo_pipeline) = Some q)"
proof -
  have "queue_ok \<lparr>bq_head_tail = 0, bq_slots = [None, None]\<rparr>"
    "queue_contents \<lparr>bq_head_tail = 0, bq_slots = [None, None]\<rparr> = []"
    using batch_queue_new_ok [of 1] by (simp_all add: numeral_2_eq_2)
  then have inv: "admission_inv 1 0 demo_pipeline" by (simp add: admission_inv_def demo_pipeline_def)
  show ?thesis using inv admission_prevents_overflow [OF inv, of 7] by auto
qed

text \<open>
  Also:  Sequence numbers in \<open>prepare\<close>: the batch is stamped with the value \<open>fetch_add\<close> returns,
  which is the counter before the addition, minus the count.  So the very first non-empty batch
  of a database panics on the subtraction, and otherwise the batch gets the numbers
  \<open>[old - count, old)\<close>, which were below the counter, while the counter moves to
  \<open>old + count\<close>.
\<close>

theorem prepare_sequence_numbers:
  assumes "wp_store p a = Some b" and "enqueue a (wp_queue p) = Some q" and "batch_holds s rs b"
    and "bi_data b \<noteq> []"
  defines "old \<equiv> log_seq_num (wp_seq_state p)" and "count \<equiv> ucast (bi_count b) :: u64"
  shows "(old < count \<longrightarrow> prepare env a p = None)
    \<and> (count \<le> old \<longrightarrow> (\<exists>p' b'. prepare env a p = Some (env b', p') \<and> wp_store p' a = Some b'
         \<and> batch_holds (old - count) rs b' \<and> bi_state b' = batch_state_u8 BS_InQueue
         \<and> log_seq_num (wp_seq_state p') = old + count \<and> wp_queue p' = q))"
  unfolding old_def count_def by (rule prepare_outcome [OF assms(1-4)])

theorem prepare_sequence_numbers_witness:
  "\<exists>p' b'. prepare (\<lambda>_. Inr ()) 7 demo_pipeline = Some (Inr (), p') \<and> wp_store p' 7 = Some b'
    \<and> bi_state b' = batch_state_u8 BS_InQueue"
proof -
  have store: "wp_store demo_pipeline 7 = Some batch_inner_new" and ne: "bi_data batch_inner_new \<noteq> []"
    by (simp_all add: demo_pipeline_def)
  have "queue_ok (wp_queue demo_pipeline)" "length (queue_contents (wp_queue demo_pipeline)) < bq_size (wp_queue demo_pipeline)"
    using batch_queue_new_ok [of 1] by (simp_all add: numeral_2_eq_2 demo_pipeline_def)
  then obtain q where q: "enqueue 7 (wp_queue demo_pipeline) = Some q"
    using commit_queue.enq_room by blast
  show ?thesis
    using prepare_sequence_numbers [OF store q batch_inner_new_holds ne, of "\<lambda>_. Inr ()"]
    by (auto simp: demo_pipeline_def seq_num_state_new_def)
qed

text \<open>
  Also:  What \<open>commit\<close> does today: with a permit left it takes one, marks the batch's waiter
  \<open>SyncDone\<close> and reports success, without enqueueing, numbering or applying the batch and
  without returning the permit; with no permit left it never returns.  So a pipeline of
  capacity \<open>N\<close> accepts \<open>N\<close> commits in its lifetime.
\<close>

theorem commit_consumes_permit:
  assumes "wp_store p a = Some b"
  shows "(pa_count (wp_commit_sem p) = 0 \<longrightarrow> commit a p = None)
    \<and> (pa_count (wp_commit_sem p) \<noteq> 0 \<longrightarrow> (\<exists>p' w. commit a p = Some (Inr (), p')
         \<and> unat (pa_count (wp_commit_sem p')) = unat (pa_count (wp_commit_sem p)) - 1
         \<and> wp_queue p' = wp_queue p \<and> wp_seq_state p' = wp_seq_state p
         \<and> wp_store p' a = Some (b\<lparr>bi_waiter := w\<rparr>) \<and> sync_waiter_state w = Some WS_SyncDone))"
  using assms
  by (auto simp: commit_def reserve_space_eq sync_waiter_signal_def unat_u16_minus_one sync_waiter_state_def
      simp flip: wal_sync_u8.simps)

theorem commit_consumes_permit_witness:
  "\<exists>p'. commit 7 demo_pipeline = Some (Inr (), p') \<and> unat (pa_count (wp_commit_sem p')) = 0"
  using commit_consumes_permit [of demo_pipeline 7 batch_inner_new] by (auto simp: demo_pipeline_def)

end
