(* ===== verification/Batch_Lifecycle.thy ===== *)
theory Batch_Lifecycle
  imports Batch_Pool Write_Pipeline
begin

text \<open>
  The life of write batches across components: \<open>Batch\<close> handles (\<open>batch.rs\<close>), each with an \<open>Arc\<close> of its
  pool, from \<open>acquire_batch\<close> over \<open>put\<close>, \<open>seal\<close>, the write pipeline, \<open>reset\<close> and \<open>close\<close> to the drop of the
  pool (\<open>batch_pool.rs\<close>) with its last \<open>Arc\<close>.  The list \<open>bp_freed\<close> records every address given back to the
  allocator.
\<close>

section \<open>Dropping the pool\<close>

text \<open>The TLS column goes first: \<open>unref\<close> of every thread's cache; then each shard is drained.\<close>

definition pool_drop :: "batch_pool \<Rightarrow> batch_pool option" where
  "pool_drop p =
     do {
       cached \<leftarrow> those (map (\<lambda>cell. case cell of None \<Rightarrow> Some [] | Some c \<Rightarrow> cache_unref c) (bp_caches p));
       sharded \<leftarrow> those (map (\<lambda>s. shard_drop s []) (bp_shards p));
       Some (p\<lparr>bp_caches := [], bp_shards := [],
               bp_freed := rev (map ob_addr (concat cached @ concat sharded)) @ bp_freed p\<rparr>)
     }"

section \<open>Handles\<close>

text \<open>\<open>Arc<BatchPool>\<close>: the pool and the number of owners.  The pool is dropped with the last one.\<close>

record shared_pool =
  sp_pool :: batch_pool
  sp_strong :: nat

definition arc_clone :: "shared_pool \<Rightarrow> shared_pool" where
  "arc_clone s = s\<lparr>sp_strong := sp_strong s + 1\<rparr>"

definition arc_drop :: "shared_pool \<Rightarrow> shared_pool option" where
  "arc_drop s =
     do {
       assert_that (sp_strong s > 0);
       let s = s\<lparr>sp_strong := sp_strong s - 1\<rparr>;
       if sp_strong s = 0 then map_option (\<lambda>p. s\<lparr>sp_pool := p\<rparr>) (pool_drop (sp_pool s)) else Some s
     }"

text \<open>A handle is a \<open>batch_object\<close> that counts as one owner of the pool.\<close>

definition acquire_batch :: "nat \<Rightarrow> shared_pool \<Rightarrow> (batch_object \<times> shared_pool) option" where
  "acquire_batch t s =
     do {
       let s = arc_clone s;
       (o', p) \<leftarrow> acquire_object t (sp_pool s);
       Some (o', s\<lparr>sp_pool := p\<rparr>)
     }"

definition handle_put :: "bytes \<Rightarrow> bytes \<Rightarrow> batch_object \<Rightarrow> batch_object option" where
  "handle_put key value h = object_put key value h"

definition handle_seal :: "batch_object \<Rightarrow> batch_object" where
  "handle_seal h = object_seal h"

text \<open>Dropping a handle drops its \<open>pool\<close> and then its \<open>batch\<close>, whose box is freed.\<close>

definition handle_drop :: "batch_object \<Rightarrow> shared_pool \<Rightarrow> shared_pool option" where
  "handle_drop h s =
     do {
       s \<leftarrow> arc_drop s;
       Some (s\<lparr>sp_pool := free_batch (object_into_inner h) (sp_pool s)\<rparr>)
     }"

text \<open>\<open>close\<close>: when the wait fails the handle is dropped; otherwise the batch goes back to the pool and the
  handle's \<open>Arc\<close> is dropped.\<close>

definition handle_close ::
  "wait_result \<Rightarrow> nat \<Rightarrow> batch_object \<Rightarrow> shared_pool \<Rightarrow> ((engine_error + unit) \<times> shared_pool) option" where
  "handle_close waited t h s =
     do {
       r \<leftarrow> wait_until_reusable waited h;
       case r of
         Inl e \<Rightarrow> map_option (Pair (Inl e)) (handle_drop h s)
       | Inr _ \<Rightarrow> do {
           p \<leftarrow> pool_release t h (sp_pool s);
           map_option (Pair (Inr ())) (arc_drop (s\<lparr>sp_pool := p\<rparr>))
         }
     }"

section \<open>The system\<close>

text \<open>The pool, whether its container still owns it, and the live handles.\<close>

record life =
  lf_shared :: shared_pool
  lf_owned :: bool
  lf_handles :: "batch_object list"

definition remove_at :: "nat \<Rightarrow> 'a list \<Rightarrow> 'a list" where
  "remove_at i xs = take i xs @ drop (Suc i) xs"

text \<open>The steps; \<open>li_pipeline\<close> is whatever the pipeline does to a sealed batch through its pointer.\<close>

inductive life_step :: "life \<Rightarrow> life \<Rightarrow> bool" for s where
  li_acquire: "lf_owned s \<Longrightarrow> t < length (bp_caches (sp_pool (lf_shared s))) \<Longrightarrow>
     acquire_batch t (lf_shared s) = Some (h, sp) \<Longrightarrow>
     life_step s (s\<lparr>lf_shared := sp, lf_handles := h # lf_handles s\<rparr>)"
| li_put: "i < length (lf_handles s) \<Longrightarrow> bo_commit (lf_handles s ! i) = UnCommitted \<Longrightarrow>
     handle_put key val (lf_handles s ! i) = Some h \<Longrightarrow>
     life_step s (s\<lparr>lf_handles := (lf_handles s)[i := h]\<rparr>)"
| li_seal: "i < length (lf_handles s) \<Longrightarrow>
     life_step s (s\<lparr>lf_handles := (lf_handles s)[i := handle_seal (lf_handles s ! i)]\<rparr>)"
| li_pipeline: "i < length (lf_handles s) \<Longrightarrow> bo_commit (lf_handles s ! i) = Sealed \<Longrightarrow> batch_holds seq rs b \<Longrightarrow>
     life_step s (s\<lparr>lf_handles := (lf_handles s)[i := (lf_handles s ! i)\<lparr>bo_inner :=
       (bo_inner (lf_handles s ! i))\<lparr>ob_batch := b\<rparr>\<rparr>]\<rparr>)"
| li_reset: "i < length (lf_handles s) \<Longrightarrow> batch_reset waited (lf_handles s ! i) = Some h \<Longrightarrow>
     life_step s (s\<lparr>lf_handles := (lf_handles s)[i := h]\<rparr>)"
| li_close: "i < length (lf_handles s) \<Longrightarrow> t < length (bp_caches (sp_pool (lf_shared s))) \<Longrightarrow>
     handle_close waited t (lf_handles s ! i) (lf_shared s) = Some (r, sp) \<Longrightarrow>
     life_step s (s\<lparr>lf_shared := sp, lf_handles := remove_at i (lf_handles s)\<rparr>)"
| li_drop: "i < length (lf_handles s) \<Longrightarrow> handle_drop (lf_handles s ! i) (lf_shared s) = Some sp \<Longrightarrow>
     life_step s (s\<lparr>lf_shared := sp, lf_handles := remove_at i (lf_handles s)\<rparr>)"
| li_owner: "lf_owned s \<Longrightarrow> arc_drop (lf_shared s) = Some sp \<Longrightarrow>
     life_step s (s\<lparr>lf_shared := sp, lf_owned := False\<rparr>)"

inductive life_run :: "life \<Rightarrow> life \<Rightarrow> bool" for s0 where
  li_refl: "life_run s0 s0"
| li_more: "life_run s0 s \<Longrightarrow> life_step s t \<Longrightarrow> life_run s0 t"

definition life_start :: "batch_pool \<Rightarrow> life" where
  "life_start p = \<lparr>lf_shared = \<lparr>sp_pool = p, sp_strong = 1\<rparr>, lf_owned = True, lf_handles = []\<rparr>"

section \<open>Lemmas\<close>

lemma those_map_Some: "(\<forall>x \<in> set xs. f x = Some (g x)) \<Longrightarrow> those (map f xs) = Some (map g xs)"
  by (induction xs) simp_all

lemma cache_unref_ok: "cache_ok c \<Longrightarrow> cache_unref c = Some (cache_contents c)"
proof -
  assume "cache_ok c"
  then have "\<forall>x \<in> set (take (unat (tc_len c)) (tc_batches c)). id x = Some (the x)"
    by (auto simp: cache_ok_def slots_ok_def in_set_conv_nth)
  from those_map_Some [OF this] show ?thesis by (simp add: cache_unref_def cache_contents_def slots_contents_def)
qed

lemma shard_drop_ok:
  assumes "slots_ok (sh_len s) (sh_batches s)"
  shows "shard_drop s d = Some (d @ rev (shard_contents s))"
  using assms
proof (induction "unat (sh_len s)" arbitrary: s d)
  case 0
  then have "sh_len s = 0" by (simp add: unat_eq_0)
  then show ?case by (simp add: shard_drop.simps shard_contents_def slots_contents_def)
next
  case (Suc n)
  then have nz: "sh_len s \<noteq> 0" by auto
  let ?s = "s\<lparr>sh_len := sh_len s - 1\<rparr>"
  have n: "unat (sh_len s - 1) = n" using unat_byte_minus_one [OF nz] Suc(2) by simp
  have nl: "n < length (sh_batches s)" using Suc(2,3) by (simp add: slots_ok_def)
  have "n < unat (sh_len s)" using Suc(2) by simp
  then obtain x where x: "sh_batches s ! n = Some x" using Suc(3) by (auto simp: slots_ok_def)
  have ok: "slots_ok (sh_len ?s) (sh_batches ?s)" using Suc(2,3) n by (simp add: slots_ok_def)
  have c: "shard_contents s = shard_contents ?s @ [x]"
    using Suc(2) n nl x by (simp add: shard_contents_def slots_contents_def take_Suc_conv_app_nth flip: Suc(2))
  have "0 < sh_len s" using nz by (simp add: word_gt_0)
  then have "shard_drop s d = shard_drop ?s (d @ [x])"
    using n nl x by (subst shard_drop.simps) (simp add: get_at_def)
  also have "\<dots> = Some (d @ rev (shard_contents s))" using Suc(1) [OF _ ok] n c by simp
  finally show ?case .
qed

lemma mset_concat_addrs:
  "mset (map ob_addr (concat xss)) = sum_list (map addrs xss)"
  by (induction xss) (simp_all add: addrs_def)

text \<open>Dropping the pool frees exactly what it retains.\<close>

lemma pool_drop_ok:
  assumes "pool_ok p"
  obtains p' where "pool_drop p = Some p'" and "bp_next_addr p' = bp_next_addr p" and "pool_addrs p' = {#}"
    and "mset (bp_freed p') = pool_addrs p + mset (bp_freed p)"
proof -
  let ?cell = "\<lambda>cell. case cell of None \<Rightarrow> [] | Some c \<Rightarrow> cache_contents c"
  let ?sh = "\<lambda>s. rev (shard_contents s)"
  have "\<forall>x \<in> set (bp_caches p). (case x of None \<Rightarrow> Some [] | Some c \<Rightarrow> cache_unref c) = Some (?cell x)"
    using assms cache_unref_ok by (auto simp: pool_ok_def list_all_iff cache_good_def split: option.splits)
  note c = those_map_Some [OF this]
  have "\<forall>s \<in> set (bp_shards p). shard_drop s [] = Some (?sh s)"
    using assms shard_drop_ok by (auto simp: pool_ok_def shards_good_def list_all_iff shard_ok_def)
  note s = those_map_Some [OF this]
  have cells: "sum_list (map (\<lambda>x. addrs (?cell x)) cs) = sum_list (map cell_addrs cs)" for cs
    by (induction cs) (simp_all add: cell_addrs_def split: option.splits)
  have shards: "sum_list (map (\<lambda>s. addrs (?sh s)) ss) = sum_list (map (\<lambda>s. addrs (shard_contents s)) ss)" for ss
    by (simp add: addrs_def)
  have "mset (map ob_addr (concat (map ?cell (bp_caches p)) @ concat (map ?sh (bp_shards p)))) = pool_addrs p"
    unfolding map_append mset_append mset_concat_addrs
    using cells [of "bp_caches p"] shards [of "bp_shards p"] by (simp add: pool_addrs_def global_addrs_def comp_def union_ac)
  then show thesis
    using that by (simp add: pool_drop_def c s pool_addrs_def global_addrs_def del: map_append map_concat)
qed

lemma arc_drop_ok:
  assumes "pool_ok (sp_pool s)" and "0 < sp_strong s"
  obtains s' where "arc_drop s = Some s'" and "sp_strong s' = sp_strong s - 1" and "if sp_strong s' = 0 then pool_addrs (sp_pool s') = {#} else pool_ok (sp_pool s')"
    and "bp_next_addr (sp_pool s') = bp_next_addr (sp_pool s)"
    and "pool_addrs (sp_pool s') + mset (bp_freed (sp_pool s')) = pool_addrs (sp_pool s) + mset (bp_freed (sp_pool s))"
proof (cases "sp_strong s = 1")
  case True
  obtain p' where "pool_drop (sp_pool s) = Some p'" "bp_next_addr p' = bp_next_addr (sp_pool s)" "pool_addrs p' = {#}"
    "mset (bp_freed p') = pool_addrs (sp_pool s) + mset (bp_freed (sp_pool s))" by (rule pool_drop_ok [OF assms(1)])
  then show thesis using that [of "s\<lparr>sp_strong := 0, sp_pool := p'\<rparr>"] True by (simp add: arc_drop_def)
next
  case False
  then show thesis using that [of "s\<lparr>sp_strong := sp_strong s - 1\<rparr>"] assms by (simp add: arc_drop_def)
qed

lemma handle_drop_ok:
  assumes "pool_ok (sp_pool s)" and "0 < sp_strong s"
  obtains s' where "handle_drop h s = Some s'" and "sp_strong s' = sp_strong s - 1" and "if sp_strong s' = 0 then pool_addrs (sp_pool s') = {#} else pool_ok (sp_pool s')"
    and "bp_next_addr (sp_pool s') = bp_next_addr (sp_pool s)"
    and "pool_addrs (sp_pool s') + mset (bp_freed (sp_pool s'))
      = add_mset (ob_addr (bo_inner h)) (pool_addrs (sp_pool s) + mset (bp_freed (sp_pool s)))"
proof -
  obtain s' where s': "arc_drop s = Some s'" "sp_strong s' = sp_strong s - 1" "if sp_strong s' = 0 then pool_addrs (sp_pool s') = {#} else pool_ok (sp_pool s')"
    "bp_next_addr (sp_pool s') = bp_next_addr (sp_pool s)"
    "pool_addrs (sp_pool s') + mset (bp_freed (sp_pool s')) = pool_addrs (sp_pool s) + mset (bp_freed (sp_pool s))"
    by (rule arc_drop_ok [OF assms])
  have f: "pool_ok (free_batch a p) = pool_ok p" "pool_addrs (free_batch a p) = pool_addrs p"
    "bp_next_addr (free_batch a p) = bp_next_addr p" "bp_freed (free_batch a p) = ob_addr a # bp_freed p" for a p
    by (simp_all add: free_batch_def pool_ok_def shards_good_def cache_good_def pool_addrs_def global_addrs_def cong: option.case_cong)
  show thesis
    using that [of "s'\<lparr>sp_pool := free_batch (bo_inner h) (sp_pool s')\<rparr>"] s'
    by (simp add: handle_drop_def object_into_inner_def f)
qed

lemma reset_batch_state:
  assumes "reset_batch h = Some q"
  obtains st where "bi_state (bo_batch h) = batch_state_u8 st" and "is_reset_safe st"
  using assms batch_state_from_u8_Some by (auto simp: reset_batch_def object_state_def split: bind_splits if_splits)

section \<open>Every allocation is freed exactly once\<close>

definition held :: "batch_object list \<Rightarrow> nat multiset" where
  "held hs = mset (map (\<lambda>h. ob_addr (bo_inner h)) hs)"

definition life_inv :: "life \<Rightarrow> bool" where
  "life_inv s \<longleftrightarrow>
     sp_strong (lf_shared s) = (if lf_owned s then 1 else 0) + length (lf_handles s)
     \<and> (if sp_strong (lf_shared s) = 0 then pool_addrs (sp_pool (lf_shared s)) = {#} else pool_ok (sp_pool (lf_shared s)))
     \<and> (\<forall>h \<in> set (lf_handles s). \<exists>seq rs. batch_holds seq rs (bo_batch h))
     \<and> held (lf_handles s) + (pool_addrs (sp_pool (lf_shared s)) + mset (bp_freed (sp_pool (lf_shared s))))
         = mset [0..<bp_next_addr (sp_pool (lf_shared s))]"

lemma held_remove: "i < length hs \<Longrightarrow> add_mset (ob_addr (bo_inner (hs ! i))) (held (remove_at i hs)) = held hs"
  by (subst (3) id_take_nth_drop [of i hs]) (simp_all add: held_def remove_at_def)

lemma held_update: "i < length hs \<Longrightarrow> ob_addr (bo_inner h) = ob_addr (bo_inner (hs ! i)) \<Longrightarrow> held (hs[i := h]) = held hs"
  unfolding held_def map_update by (metis (no_types, lifting) length_map list_update_id nth_map)

lemma set_remove_at: "set (remove_at i hs) \<subseteq> set hs"
  unfolding remove_at_def using set_take_subset set_drop_subset by (metis Un_least set_append)

lemma length_remove_at: "i < length hs \<Longrightarrow> length (remove_at i hs) = length hs - 1"
  by (simp add: remove_at_def)

lemma life_inv_handle:
  assumes "life_inv s" and "i < length (lf_handles s)"
  obtains seq rs where "batch_holds seq rs (bo_batch (lf_handles s ! i))"
  using assms nth_mem [OF assms(2)] unfolding life_inv_def by blast

lemma life_inv_alive:
  assumes "life_inv s" and "lf_owned s \<or> i < length (lf_handles s)"
  shows "pool_ok (sp_pool (lf_shared s))" and "0 < sp_strong (lf_shared s)"
proof -
  show "0 < sp_strong (lf_shared s)" using assms by (auto simp: life_inv_def)
  then show "pool_ok (sp_pool (lf_shared s))" using assms(1) by (simp add: life_inv_def split: if_splits)
qed

text \<open>A handle changes in place, or goes.\<close>

lemma life_inv_update:
  assumes "life_inv s" and "i < length (lf_handles s)" and "ob_addr (bo_inner h) = ob_addr (bo_inner (lf_handles s ! i))"
    and "batch_holds seq rs (bo_batch h)"
  shows "life_inv (s\<lparr>lf_handles := (lf_handles s)[i := h]\<rparr>)"
proof -
  have "set ((lf_handles s)[i := h]) \<subseteq> insert h (set (lf_handles s))" by (rule set_update_subset_insert)
  then have "\<forall>h \<in> set ((lf_handles s)[i := h]). \<exists>seq rs. batch_holds seq rs (bo_batch h)"
    using assms(1,4) unfolding life_inv_def by blast
  then show ?thesis using assms(1) held_update [OF assms(2,3)] by (simp add: life_inv_def)
qed

lemma life_inv_remove:
  assumes inv: "life_inv s" and i: "i < length (lf_handles s)" and n: "sp_strong sp = sp_strong (lf_shared s) - 1"
    and ok: "if sp_strong sp = 0 then pool_addrs (sp_pool sp) = {#} else pool_ok (sp_pool sp)" and a: "bp_next_addr (sp_pool sp) = bp_next_addr (sp_pool (lf_shared s))"
    and sum: "pool_addrs (sp_pool sp) + mset (bp_freed (sp_pool sp)) = add_mset (ob_addr (bo_inner (lf_handles s ! i)))
      (pool_addrs (sp_pool (lf_shared s)) + mset (bp_freed (sp_pool (lf_shared s))))"
  shows "life_inv (s\<lparr>lf_shared := sp, lf_handles := remove_at i (lf_handles s)\<rparr>)"
proof -
  have "held (remove_at i (lf_handles s)) + (pool_addrs (sp_pool sp) + mset (bp_freed (sp_pool sp)))
      = held (lf_handles s) + (pool_addrs (sp_pool (lf_shared s)) + mset (bp_freed (sp_pool (lf_shared s))))"
    unfolding sum held_remove [OF i, symmetric] by simp
  then show ?thesis
    using inv i n ok a set_remove_at [of i "lf_handles s"] by (auto simp: life_inv_def length_remove_at)
qed

lemma acquire_batch_inv:
  assumes inv: "life_inv s" and own: "lf_owned s" and t: "t < length (bp_caches (sp_pool (lf_shared s)))"
    and acq: "acquire_batch t (lf_shared s) = Some (h, sp)"
  shows "life_inv (s\<lparr>lf_shared := sp, lf_handles := h # lf_handles s\<rparr>)"
proof -
  let ?p = "sp_pool (lf_shared s)"
  have ok: "pool_ok ?p" using inv own by (simp add: life_inv_def)
  obtain o' p' where a: "acquire_object t ?p = Some (o', p')" "pool_ok p'" "fresh_object o'" "bp_freed p' = bp_freed ?p"
    and eq: "(bp_next_addr p' = bp_next_addr ?p \<and> add_mset (ob_addr (bo_inner o')) (pool_addrs p') = pool_addrs ?p)
      \<or> (bp_next_addr p' = Suc (bp_next_addr ?p) \<and> ob_addr (bo_inner o') = bp_next_addr ?p \<and> pool_addrs p' = pool_addrs ?p)"
    by (rule acquire_object_ok [OF ok t])
  have h: "h = o'" "sp = (lf_shared s)\<lparr>sp_strong := sp_strong (lf_shared s) + 1, sp_pool := p'\<rparr>"
    using acq a(1) by (auto simp: acquire_batch_def arc_clone_def)
  have sum: "held (lf_handles s) + (pool_addrs ?p + mset (bp_freed ?p)) = mset [0..<bp_next_addr ?p]"
    using inv by (simp add: life_inv_def)
  have "held (o' # lf_handles s) + (pool_addrs p' + mset (bp_freed p')) = mset [0..<bp_next_addr p']"
    using eq
  proof
    assume e: "bp_next_addr p' = bp_next_addr ?p \<and> add_mset (ob_addr (bo_inner o')) (pool_addrs p') = pool_addrs ?p"
    then have "held (o' # lf_handles s) + (pool_addrs p' + mset (bp_freed p')) = held (lf_handles s) + (pool_addrs ?p + mset (bp_freed ?p))"
      using a(4) by (simp add: held_def flip: conjunct2 [OF e])
    then show ?thesis using sum e by simp
  next
    assume e: "bp_next_addr p' = Suc (bp_next_addr ?p) \<and> ob_addr (bo_inner o') = bp_next_addr ?p \<and> pool_addrs p' = pool_addrs ?p"
    have "held (o' # lf_handles s) + (pool_addrs p' + mset (bp_freed p'))
        = add_mset (bp_next_addr ?p) (held (lf_handles s) + (pool_addrs ?p + mset (bp_freed ?p)))"
      using e a(4) by (simp add: held_def)
    then show ?thesis unfolding sum using e by simp
  qed
  then show ?thesis using inv own a(2,3) unfolding h by (auto simp: life_inv_def fresh_object_def)
qed

lemma close_inv:
  assumes inv: "life_inv s" and i: "i < length (lf_handles s)" and t: "t < length (bp_caches (sp_pool (lf_shared s)))"
    and run: "handle_close waited t (lf_handles s ! i) (lf_shared s) = Some (r, sp)"
  shows "life_inv (s\<lparr>lf_shared := sp, lf_handles := remove_at i (lf_handles s)\<rparr>)"
proof -
  let ?p = "sp_pool (lf_shared s)" and ?h = "lf_handles s ! i"
  note ok = life_inv_alive(1) [OF inv disjI2 [OF i]] and n = life_inv_alive(2) [OF inv disjI2 [OF i]]
  obtain seq rs where hold: "batch_holds seq rs (bo_batch ?h)" by (rule life_inv_handle [OF inv i])
  then have sized: "batch_sized (bo_batch ?h)" by (simp add: batch_holds_def)
  obtain w where w: "wait_until_reusable waited ?h = Some w" using run by (auto simp: handle_close_def split: bind_splits)
  show ?thesis
  proof (cases w)
    case (Inl e)
    obtain s' where s': "handle_drop ?h (lf_shared s) = Some s'" "sp_strong s' = sp_strong (lf_shared s) - 1"
      "if sp_strong s' = 0 then pool_addrs (sp_pool s') = {#} else pool_ok (sp_pool s')" "bp_next_addr (sp_pool s') = bp_next_addr ?p"
      "pool_addrs (sp_pool s') + mset (bp_freed (sp_pool s')) = add_mset (ob_addr (bo_inner ?h)) (pool_addrs ?p + mset (bp_freed ?p))"
      by (rule handle_drop_ok [OF ok n])
    have "sp = s'" using run w Inl s'(1) by (simp add: handle_close_def)
    then show ?thesis using life_inv_remove [OF inv i s'(2-5)] by simp
  next
    case (Inr u)
    obtain p' where rel: "pool_release t ?h ?p = Some p'" and arc: "arc_drop ((lf_shared s)\<lparr>sp_pool := p'\<rparr>) = Some sp"
      using run w Inr by (auto simp: handle_close_def split: bind_splits)
    obtain q where "reset_batch ?h = Some q" using rel by (auto simp: pool_release_def split: bind_splits)
    then obtain st where st: "bi_state (bo_batch ?h) = batch_state_u8 st" "is_reset_safe st" by (rule reset_batch_state)
    obtain p'' where p'': "pool_release t ?h ?p = Some p''" "pool_ok p''" "bp_next_addr p'' = bp_next_addr ?p"
      "pool_addrs p'' + mset (bp_freed p'') = add_mset (ob_addr (bo_inner ?h)) (pool_addrs ?p + mset (bp_freed ?p))"
      by (rule pool_release_ok [OF ok t st sized])
    have p': "pool_ok (sp_pool ((lf_shared s)\<lparr>sp_pool := p'\<rparr>))" "0 < sp_strong ((lf_shared s)\<lparr>sp_pool := p'\<rparr>)"
      using p''(1,2) rel n by simp_all
    obtain s' where s': "arc_drop ((lf_shared s)\<lparr>sp_pool := p'\<rparr>) = Some s'" "sp_strong s' = sp_strong (lf_shared s) - 1"
      "if sp_strong s' = 0 then pool_addrs (sp_pool s') = {#} else pool_ok (sp_pool s')" "bp_next_addr (sp_pool s') = bp_next_addr p'"
      "pool_addrs (sp_pool s') + mset (bp_freed (sp_pool s')) = pool_addrs p' + mset (bp_freed p')"
      by (rule arc_drop_ok [OF p']) simp
    have "sp = s'" using arc s'(1) by simp
    then show ?thesis using life_inv_remove [OF inv i s'(2,3)] s'(4,5) p''(1,3,4) rel by simp
  qed
qed

lemma life_step_inv:
  assumes inv: "life_inv s" and step: "life_step s t"
  shows "life_inv t"
  using step
proof cases
  case (li_acquire th h sp)
  then show ?thesis using acquire_batch_inv [OF inv] by simp
next
  case (li_put i key val h)
  obtain seq rs where "batch_holds seq rs (bo_batch (lf_handles s ! i))" by (rule life_inv_handle [OF inv li_put(2)])
  note out = this object_put_outcome [OF this, of key val]
  have "\<exists>rs. batch_holds seq rs (bo_batch h)" "ob_addr (bo_inner h) = ob_addr (bo_inner (lf_handles s ! i))"
    using out li_put(4) by (auto simp: handle_put_def split: if_splits)
  then show ?thesis using life_inv_update [OF inv li_put(2)] li_put(1) by blast
next
  case (li_seal i)
  obtain seq rs where "batch_holds seq rs (bo_batch (lf_handles s ! i))" by (rule life_inv_handle [OF inv li_seal(2)])
  then show ?thesis unfolding li_seal(1)
    by (intro life_inv_update [OF inv li_seal(2)]) (simp_all add: handle_seal_def object_seal_def)
next
  case (li_pipeline i seq rs b)
  show ?thesis unfolding li_pipeline(1)
    by (rule life_inv_update [OF inv li_pipeline(2)]) (use li_pipeline(4) in simp_all)
next
  case (li_reset i waited h)
  let ?h = "lf_handles s ! i"
  have r: "reset_batch ?h = Some h" using li_reset(3) by (auto simp: batch_reset_def split: bind_splits if_splits)
  obtain seq rs where "batch_holds seq rs (bo_batch ?h)" by (rule life_inv_handle [OF inv li_reset(2)])
  then have sized: "batch_sized (bo_batch ?h)" by (simp add: batch_holds_def)
  obtain st where st: "bi_state (bo_batch ?h) = batch_state_u8 st" "is_reset_safe st" by (rule reset_batch_state [OF r])
  obtain q where q: "reset_batch ?h = Some q" "alloc_clean (bo_inner q)" "ob_addr (bo_inner q) = ob_addr (bo_inner ?h)"
    by (rule reset_batch_clean [OF st sized])
  show ?thesis unfolding li_reset(1)
    by (rule life_inv_update [OF inv li_reset(2)]) (use r q alloc_clean_holds [OF q(2)] in simp_all)
next
  case (li_close i th waited r sp)
  then show ?thesis using close_inv [OF inv] by simp
next
  case (li_drop i sp)
  note ok = life_inv_alive [OF inv disjI2 [OF li_drop(2)]]
  show ?thesis unfolding li_drop(1)
    by (rule handle_drop_ok [OF ok, of "lf_handles s ! i"], rule life_inv_remove [OF inv li_drop(2)]) (use li_drop(3) in simp_all)
next
  case (li_owner sp)
  note ok = life_inv_alive [OF inv disjI1 [OF li_owner(2)]]
  show ?thesis unfolding li_owner(1)
    by (rule arc_drop_ok [OF ok]) (use li_owner(2,3) inv in \<open>simp add: life_inv_def\<close>)
qed

lemma life_run_inv: "life_run s0 s \<Longrightarrow> life_inv s0 \<Longrightarrow> life_inv s"
  by (induction rule: life_run.induct) (auto intro: life_step_inv)

section \<open>A write session\<close>

text \<open>What a writer does with its handle: the puts, one after the other.\<close>

fun put_all :: "(bytes \<times> bytes) list \<Rightarrow> batch_object \<Rightarrow> batch_object option" where
  "put_all [] h = Some h"
| "put_all ((key, val) # kvs) h = do { h \<leftarrow> handle_put key val h; put_all kvs h }"

definition put_record :: "bytes \<times> bytes \<Rightarrow> kv_record" where
  "put_record kv = \<lparr>rec_kind = RK_Put, rec_cf = DEFAULT_CF_ID, rec_key = fst kv, rec_value = snd kv\<rparr>"

definition puts_size :: "(bytes \<times> bytes) list \<Rightarrow> nat" where
  "puts_size kvs = sum_list (map (\<lambda>kv. kv_size (length (fst kv)) (length (snd kv))) kvs)"

lemma batch_holds_length:
  "batch_holds seq rs b \<Longrightarrow> length (batch_base b) = 12 + length (encode_kvs rs)"
  by (simp add: batch_holds_def)

lemma put_all_ok:
  assumes "batch_holds seq rs (bo_batch h)" and "list_all kv_ok (map put_record kvs)"
    and "length (batch_base (bo_batch h)) + puts_size kvs \<le> bi_max (bo_batch h)"
  shows "\<exists>h'. put_all kvs h = Some h' \<and> batch_holds seq (rs @ map put_record kvs) (bo_batch h')
    \<and> ob_addr (bo_inner h') = ob_addr (bo_inner h) \<and> bo_commit h' = bo_commit h"
  using assms
proof (induction kvs arbitrary: rs h)
  case (Cons kv kvs)
  obtain key val where kv: "kv = (key, val)" by (cases kv)
  have fit: "length key \<le> MAX_USER_KEY_BYTES \<and> length val \<le> u32_MAX
      \<and> length (batch_base (bo_batch h)) + kv_size (length key) (length val) \<le> bi_max (bo_batch h)"
    using Cons.prems(2,3) by (simp add: kv put_record_def kv_ok_def puts_size_def)
  obtain h1 where h1: "handle_put key val h = Some h1" "ob_addr (bo_inner h1) = ob_addr (bo_inner h)" "bo_commit h1 = bo_commit h"
    "batch_holds seq (rs @ [put_record kv]) (bo_batch h1)" "bi_max (bo_batch h1) = bi_max (bo_batch h)"
    using object_put_outcome [OF Cons.prems(1), of key val] fit by (auto simp: handle_put_def put_record_def kv)
  have "length (batch_base (bo_batch h1)) + puts_size kvs \<le> bi_max (bo_batch h1)"
    using Cons.prems(3) batch_holds_length [OF h1(4)] batch_holds_length [OF Cons.prems(1)] h1(5)
    by (simp add: length_encode_kv put_record_def puts_size_def)
  then show ?case using Cons.IH [OF h1(4)] Cons.prems(2) h1(1-3) by (simp add: kv)
qed simp

lemma batch_holds_nonempty: "batch_holds seq rs b \<Longrightarrow> rs \<noteq> [] \<Longrightarrow> bi_data b \<noteq> []"
proof
  assume h: "batch_holds seq rs b" "rs \<noteq> []" "bi_data b = []"
  have "0 < length rs" using h(2) by simp
  then show False using batch_holds_length [OF h(1)] length_encode_kvs [of rs] h(3) by (simp add: batch_base_def HEADER_SIZE_def)
qed

lemma ucast_count: "n < 2 ^ 32 \<Longrightarrow> (ucast (of_nat n :: u32) :: u64) = of_nat n"
  by (simp add: word_unat_eq_iff unsigned_ucast_eq unat_of_nat take_bit_eq_mod)

text \<open>Closing an applied and synced batch gives its allocation back to the pool.\<close>

lemma handle_close_applied:
  assumes pool: "pool_ok (sp_pool s)" and t: "t < length (bp_caches (sp_pool s))" and strong: "1 < sp_strong s"
    and b: "bi_state (bo_batch g) = batch_state_u8 BS_Applied" "sw_state (bi_waiter (bo_batch g)) = wal_sync_u8 WS_SyncDone"
      "batch_sized (bo_batch g)"
  obtains s' where "handle_close waited t g s = Some (Inr (), s')" and "pool_ok (sp_pool s')" and "sp_strong s' = sp_strong s - 1"
    and "pool_addrs (sp_pool s') + mset (bp_freed (sp_pool s'))
      = add_mset (ob_addr (bo_inner g)) (pool_addrs (sp_pool s) + mset (bp_freed (sp_pool s)))"
proof -
  have w: "wait_until_reusable waited g = Some (Inr ())"
    unfolding wait_until_reusable_def sync_waiter_state_u8 [OF b(2)] by simp
  have safe: "is_reset_safe BS_Applied" by (simp add: is_reset_safe_def RESET_SAFE_STATES_def)
  obtain p' where p': "pool_release t g (sp_pool s) = Some p'" "pool_ok p'"
    "pool_addrs p' + mset (bp_freed p') = add_mset (ob_addr (bo_inner g)) (pool_addrs (sp_pool s) + mset (bp_freed (sp_pool s)))"
    by (rule pool_release_ok [OF pool t b(1) safe b(3)])
  have "arc_drop (s\<lparr>sp_pool := p'\<rparr>) = Some (s\<lparr>sp_pool := p', sp_strong := sp_strong s - 1\<rparr>)"
    using strong by (simp add: arc_drop_def)
  then show thesis using that w p' by (simp add: handle_close_def)
qed

text \<open>Preparing a batch, marking it applied and taking it from a queue that was empty before.\<close>

lemma prepare_then_dequeue:
  assumes ok: "queue_ok (wp_queue w)" and room: "length (queue_contents (wp_queue w)) < bq_size (wp_queue w)"
    and b: "wp_store w a = Some b" "batch_holds seq rs b" "rs \<noteq> []" "length rs < 2 ^ 32"
  defines "old \<equiv> log_seq_num (wp_seq_state w)"
  shows "(old < of_nat (length rs) \<longrightarrow> prepare env a w = None)
    \<and> (of_nat (length rs) \<le> old \<longrightarrow> (\<exists>w' b'. prepare env a w = Some (env b', w') \<and> wp_store w' a = Some b'
        \<and> batch_holds (old - of_nat (length rs)) rs b' \<and> log_seq_num (wp_seq_state w') = old + of_nat (length rs)
        \<and> queue_contents (wp_queue w') = queue_contents (wp_queue w) @ [a]
        \<and> (queue_contents (wp_queue w) = [] \<longrightarrow>
            (\<exists>w''. pipeline_dequeue (w'\<lparr>wp_store := (wp_store w')(a \<mapsto> batch_mark_applied b')\<rparr>) = Some (Some a, w'')
              \<and> queue_contents (wp_queue w'') = []))))"
proof -
  obtain q where q: "enqueue a (wp_queue w) = Some q" "queue_ok q" "queue_contents q = queue_contents (wp_queue w) @ [a]"
    using commit_queue.enq_room [OF ok room, of a] by blast
  have c: "(ucast (bi_count b) :: u64) = of_nat (length rs)"
    using b(2) ucast_count [OF b(4)] by (simp add: batch_holds_def)
  note out = prepare_outcome [OF b(1) q(1) b(2) batch_holds_nonempty [OF b(2,3)], of env, unfolded c, folded old_def]
  have deq: "\<exists>w''. pipeline_dequeue (w'\<lparr>wp_store := (wp_store w')(a \<mapsto> batch_mark_applied b')\<rparr>) = Some (Some a, w'')
      \<and> queue_contents (wp_queue w'') = []" if w': "wp_queue w' = q" and empty: "queue_contents (wp_queue w) = []" for w' b'
  proof -
    let ?w = "w'\<lparr>wp_store := (wp_store w')(a \<mapsto> batch_mark_applied b')\<rparr>"
    let ?ap = "\<lambda>a. case wp_store ?w a of Some b \<Rightarrow> batch_is_applied b = Some True | None \<Rightarrow> False"
    have "?ap a" by (simp add: batch_mark_applied_def batch_is_applied_def batch_state_from_u8_def)
    then obtain q' where "try_dequeue ?ap q = Some (Some a, q')" "queue_contents q' = []"
      using commit_queue.deq_head [OF q(2), of a "[]" ?ap] q(3) empty by auto
    then show ?thesis using w' by (simp add: pipeline_dequeue_def)
  qed
  show ?thesis using out q(3) deq by blast
qed

lemma batch_count_bound:
  assumes "batch_holds seq rs b" and "rs \<noteq> []"
  shows "length rs < 2 ^ 32"
proof -
  have "batch_base b = bi_data b" using batch_holds_nonempty [OF assms] by (simp add: batch_base_def)
  moreover have "length (bi_data b) \<le> bi_max b" using assms(1) unfolding batch_holds_def batch_sized_def by blast
  ultimately have "length rs < u32_MAX" using batch_holds_count [OF assms(1)] by argo
  then show ?thesis by (simp add: u32_MAX_def)
qed

section \<open>Properties\<close>

text \<open>
  C8.  No write batch is leaked, freed twice or used after it was freed, over the whole life of a pool and in
  any order of the calls of any number of threads: at every moment each allocation ever made is in
  exactly one place (held by one handle, retained once by the pool, or freed once), and when the container
  and every handle have let go of the pool, each has been freed exactly once.
\<close>

theorem batch_allocations_freed_once:
  assumes "pool_with_factory threads shards scap tls_cap target = Some p"
    and "0 < shards" and "scap \<le> 255" and "0 < target" and "target \<le> tls_cap" and "tls_cap \<le> 255"
    and "life_run (life_start p) s"
  shows "held (lf_handles s) + pool_addrs (sp_pool (lf_shared s)) + mset (bp_freed (sp_pool (lf_shared s)))
      = mset [0..<bp_next_addr (sp_pool (lf_shared s))]
    \<and> (\<not> lf_owned s \<and> lf_handles s = [] \<longrightarrow>
        mset (bp_freed (sp_pool (lf_shared s))) = mset [0..<bp_next_addr (sp_pool (lf_shared s))])"
proof -
  have "0 < scap" using assms(1) by (simp add: pool_with_factory_def shard_new_def split: bind_splits if_splits)
  then obtain q where "pool_with_factory threads shards scap tls_cap target = Some q" "pool_ok q" "pool_addrs q = {#}"
    using pool_new_ok [OF assms(2) _ assms(3-6)] by metis
  then have p: "pool_ok p" "pool_addrs p = {#}" "bp_freed p = []" "bp_next_addr p = 0"
    using assms(1) by (auto simp: pool_with_factory_def split: bind_splits)
  then have "life_inv (life_start p)" by (simp add: life_inv_def life_start_def held_def)
  from life_run_inv [OF assms(7) this] show ?thesis by (auto simp: life_inv_def held_def union_assoc)
qed

theorem batch_allocations_freed_once_witness:
  "\<exists>h sp sp' sp''. acquire_batch 0 (lf_shared (life_start demo_pool)) = Some (h, sp)
    \<and> handle_drop h sp = Some sp' \<and> arc_drop sp' = Some sp'' \<and> mset (bp_freed (sp_pool sp'')) = mset [0..<bp_next_addr (sp_pool sp'')]"
proof -
  let ?s = "life_start demo_pool"
  obtain q where q: "pool_with_factory 2 4 16 8 4 = Some q" "pool_ok q" "length (bp_caches q) = 2" "pool_addrs q = {#}"
    by (rule pool_new_ok [of 4 16 4 8 2]) simp_all
  then have pool: "pool_with_factory 2 4 16 8 4 = Some demo_pool" by (simp add: demo_pool_def)
  have t: "0 < length (bp_caches demo_pool)" by (simp add: demo_pool_ok)
  obtain h p where h: "acquire_object 0 demo_pool = Some (h, p)" "pool_ok p" by (rule acquire_object_ok [OF demo_pool_ok(1) t])
  let ?sp = "\<lparr>sp_pool = p, sp_strong = 2\<rparr>"
  have a: "acquire_batch 0 (lf_shared ?s) = Some (h, ?sp)"
    using h(1) by (simp add: acquire_batch_def arc_clone_def life_start_def numeral_2_eq_2)
  obtain sp' where d: "handle_drop h ?sp = Some sp'" "sp_strong sp' = 1" "pool_ok (sp_pool sp')"
    by (rule handle_drop_ok [of ?sp h]) (use h(2) in simp_all)
  obtain sp'' where o: "arc_drop sp' = Some sp''" by (rule arc_drop_ok [of sp']) (use d in simp_all)
  have "life_run ?s (?s\<lparr>lf_shared := ?sp, lf_handles := [h]\<rparr>)"
    using li_more [OF li_refl li_acquire [OF _ _ a]] t by (simp add: life_start_def)
  then have "life_run ?s (?s\<lparr>lf_shared := sp', lf_handles := []\<rparr>)"
    by (rule li_more) (use li_drop [of 0 "?s\<lparr>lf_shared := ?sp, lf_handles := [h]\<rparr>" sp'] d(1) in \<open>simp add: remove_at_def\<close>)
  then have "life_run ?s (?s\<lparr>lf_shared := sp'', lf_handles := [], lf_owned := False\<rparr>)"
    by (rule li_more) (use li_owner [of "?s\<lparr>lf_shared := sp', lf_handles := []\<rparr>" sp''] o in \<open>simp add: life_start_def\<close>)
  from batch_allocations_freed_once [OF pool _ _ _ _ _ this] show ?thesis using a d(1) o by auto
qed

text \<open>
  C9.  A write session as one run across pool, batch and pipeline.  The handle acquired from the pool takes every
  put that fits.  The sealed batch is prepared by a pipeline whose queue has room: when the log sequence counter
  is below the number of records, as it is for the first batch of a database, \<open>prepare\<close> panics.  Otherwise
  the batch given to the storage engine holds exactly the records put, in order, stamped with the sequence
  number that lies as many below the counter as there are records, and it is the last in the queue; once marked
  applied it is dequeued from a queue that was empty before; and when in addition its waiter is signalled
  \<open>SyncDone\<close>, closing the handle succeeds and gives the allocation back to the pool.
\<close>

theorem write_session:
  assumes "pool_ok (sp_pool s)" and "t < length (bp_caches (sp_pool s))" and "0 < sp_strong s"
    and "acquire_batch t s = Some (h, s1)" and "kvs \<noteq> []" and "list_all kv_ok (map put_record kvs)"
    and "12 + puts_size kvs \<le> bi_max (bo_batch h)"
    and "queue_ok (wp_queue w)" and "length (queue_contents (wp_queue w)) < bq_size (wp_queue w)"
  defines "a \<equiv> ob_addr (bo_inner h)" and "n \<equiv> of_nat (length kvs)" and "old \<equiv> log_seq_num (wp_seq_state w)"
  shows "\<exists>h' w0. put_all kvs h = Some h' \<and> sealed_batch_ptr (handle_seal h') = a
    \<and> w0 = w\<lparr>wp_store := (wp_store w)(a \<mapsto> bo_batch (handle_seal h'))\<rparr>
    \<and> (old < n \<longrightarrow> prepare env a w0 = None)
    \<and> (n \<le> old \<longrightarrow> (\<exists>w1 b b' x s2. prepare env a w0 = Some (env b, w1) \<and> wp_store w1 a = Some b
        \<and> batch_holds (old - n) (map put_record kvs) b \<and> log_seq_num (wp_seq_state w1) = old + n
        \<and> queue_contents (wp_queue w1) = queue_contents (wp_queue w) @ [a] \<and> b' = batch_mark_applied b
        \<and> (queue_contents (wp_queue w) = [] \<longrightarrow>
            (\<exists>w2. pipeline_dequeue (w1\<lparr>wp_store := (wp_store w1)(a \<mapsto> b')\<rparr>) = Some (Some a, w2) \<and> queue_contents (wp_queue w2) = []))
        \<and> sync_waiter_signal WS_SyncDone (bi_waiter b') = Some x
        \<and> handle_close waited t ((handle_seal h')\<lparr>bo_inner := (bo_inner h')\<lparr>ob_batch := b'\<lparr>bi_waiter := x\<rparr>\<rparr>\<rparr>) s1 = Some (Inr (), s2)
        \<and> pool_ok (sp_pool s2) \<and> sp_strong s2 = sp_strong s
        \<and> pool_addrs (sp_pool s2) + mset (bp_freed (sp_pool s2))
          = add_mset a (pool_addrs (sp_pool s1) + mset (bp_freed (sp_pool s1)))))"
proof -
  obtain p' where a: "acquire_object t (sp_pool s) = Some (h, p')" "pool_ok p'" "fresh_object h" "length (bp_caches p') = length (bp_caches (sp_pool s))"
    and s1: "s1 = s\<lparr>sp_strong := sp_strong s + 1, sp_pool := p'\<rparr>"
    by (rule acquire_object_ok [OF assms(1,2)]) (use assms(4) in \<open>auto simp: acquire_batch_def arc_clone_def\<close>)
  have hold: "batch_holds 0 [] (bo_batch h)" using a(3) by (simp add: fresh_object_def)
  obtain h' where h': "put_all kvs h = Some h'" "batch_holds 0 (map put_record kvs) (bo_batch h')" "ob_addr (bo_inner h') = a"
    using put_all_ok [OF hold assms(6)] assms(7) batch_holds_length [OF hold] by (auto simp: a_def)
  have seal: "bo_inner (handle_seal h') = bo_inner h'" by (simp add: handle_seal_def object_seal_def)
  let ?w0 = "w\<lparr>wp_store := (wp_store w)(a \<mapsto> bo_batch (handle_seal h'))\<rparr>"
  have ne: "map put_record kvs \<noteq> []" using assms(5) by simp
  have prep: "(old < n \<longrightarrow> prepare env a ?w0 = None) \<and> (n \<le> old \<longrightarrow> (\<exists>w1 b. prepare env a ?w0 = Some (env b, w1) \<and> wp_store w1 a = Some b
      \<and> batch_holds (old - n) (map put_record kvs) b \<and> log_seq_num (wp_seq_state w1) = old + n
      \<and> queue_contents (wp_queue w1) = queue_contents (wp_queue w) @ [a]
      \<and> (queue_contents (wp_queue w) = [] \<longrightarrow> (\<exists>w2. pipeline_dequeue (w1\<lparr>wp_store := (wp_store w1)(a \<mapsto> batch_mark_applied b)\<rparr>)
          = Some (Some a, w2) \<and> queue_contents (wp_queue w2) = []))))"
    using prepare_then_dequeue [of ?w0 a "bo_batch h'" 0 "map put_record kvs" env] assms(8,9) h'(2) ne batch_count_bound [OF h'(2) ne]
    by (simp add: seal n_def old_def)
  have t: "t < length (bp_caches (sp_pool s1))" "pool_ok (sp_pool s1)" "1 < sp_strong s1" using assms(2,3) a(2,4) by (simp_all add: s1)
  have close: "\<exists>x s2. sync_waiter_signal WS_SyncDone (bi_waiter (batch_mark_applied b)) = Some x
      \<and> handle_close waited t ((handle_seal h')\<lparr>bo_inner := (bo_inner h')\<lparr>ob_batch := (batch_mark_applied b)\<lparr>bi_waiter := x\<rparr>\<rparr>\<rparr>) s1 = Some (Inr (), s2)
      \<and> pool_ok (sp_pool s2) \<and> sp_strong s2 = sp_strong s
      \<and> pool_addrs (sp_pool s2) + mset (bp_freed (sp_pool s2)) = add_mset a (pool_addrs (sp_pool s1) + mset (bp_freed (sp_pool s1)))"
    if b: "batch_holds (old - n) (map put_record kvs) b" for b
  proof -
    let ?x = "(bi_waiter (batch_mark_applied b))\<lparr>sw_state := wal_sync_u8 WS_SyncDone\<rparr>"
    obtain x where x: "sync_waiter_signal WS_SyncDone (bi_waiter (batch_mark_applied b)) = Some x" "sw_state x = wal_sync_u8 WS_SyncDone"
      by (rule that [of ?x]) (simp_all add: sync_waiter_signal_def)
    let ?g = "(handle_seal h')\<lparr>bo_inner := (bo_inner h')\<lparr>ob_batch := (batch_mark_applied b)\<lparr>bi_waiter := x\<rparr>\<rparr>\<rparr>"
    have "batch_sized b" using b by (simp add: batch_holds_def)
    then have g: "bi_state (bo_batch ?g) = batch_state_u8 BS_Applied" "sw_state (bi_waiter (bo_batch ?g)) = wal_sync_u8 WS_SyncDone"
      "batch_sized (bo_batch ?g)" using x(2) by (simp_all add: batch_mark_applied_def batch_sized_def)
    obtain s2 where "handle_close waited t ?g s1 = Some (Inr (), s2)" "pool_ok (sp_pool s2)" "sp_strong s2 = sp_strong s1 - 1"
      "pool_addrs (sp_pool s2) + mset (bp_freed (sp_pool s2)) = add_mset (ob_addr (bo_inner ?g)) (pool_addrs (sp_pool s1) + mset (bp_freed (sp_pool s1)))"
      by (rule handle_close_applied [OF t(2,1,3) g])
    then show ?thesis using x(1) h'(3) by (auto simp: s1)
  qed
  show ?thesis using h'(1,3) prep close by (simp add: sealed_batch_ptr_def seal) blast
qed

text \<open>Two puts into a batch of the pool, and a pipeline whose counter stands at 5.\<close>

theorem write_session_witness:
  "\<exists>h s1 h' w0 w1 w2 b g s2. acquire_batch 0 \<lparr>sp_pool = demo_pool, sp_strong = 1\<rparr> = Some (h, s1)
    \<and> put_all [([1], [2]), ([3], [4])] h = Some h'
    \<and> prepare (\<lambda>_. Inr ()) (ob_addr (bo_inner h)) w0 = Some (Inr (), w1) \<and> wp_store w1 (ob_addr (bo_inner h)) = Some b
    \<and> batch_holds 3 [put_record ([1], [2]), put_record ([3], [4])] b
    \<and> pipeline_dequeue (w1\<lparr>wp_store := (wp_store w1)(ob_addr (bo_inner h) \<mapsto> batch_mark_applied b)\<rparr>) = Some (Some (ob_addr (bo_inner h)), w2)
    \<and> handle_close (Inr ()) 0 g s1 = Some (Inr (), s2) \<and> sp_strong s2 = 1"
proof -
  let ?s = "\<lparr>sp_pool = demo_pool, sp_strong = 1\<rparr>"
  let ?kvs = "[([1], [2]), ([3], [4])] :: (bytes \<times> bytes) list"
  let ?w = "demo_pipeline\<lparr>wp_seq_state := \<lparr>visible_seq_num = 0, log_seq_num = 5\<rparr>\<rparr>"
  have t: "0 < length (bp_caches demo_pool)" by (simp add: demo_pool_ok)
  obtain h p where h: "acquire_object 0 demo_pool = Some (h, p)" by (rule acquire_object_ok [OF demo_pool_ok(1) t])
  then have a: "acquire_batch 0 ?s = Some (h, \<lparr>sp_pool = p, sp_strong = 2\<rparr>)"
    by (simp add: acquire_batch_def arc_clone_def numeral_2_eq_2)
  have "acquire_object 0 demo_pool = Some (object_acquire \<lparr>ob_addr = 0, ob_batch = batch_inner_new\<rparr>, p)"
    using h by (auto simp: acquire_object_def demo_pool_def pool_with_factory_def shard_new_def thread_cache_def get_at_def cache_new_def
        try_acquire_from_tls_def cache_pop_def refill_tls_cache_def shard_idx_for_cache_def assign_shard_idx_def pop_global_def
        shard_pop_def factory_allocate_def refill_loop.simps)
  then have b: "bi_max (bo_batch h) = MAX_BATCH_SIZE" using h
    by (simp add: object_acquire_def object_set_runtime_state_def alloc_set_runtime_state_def batch_set_runtime_state_def)
  have "puts_size ?kvs \<le> 100" by (simp add: puts_size_def kv_size_def varint_bytes.simps)
  then have fit: "12 + puts_size ?kvs \<le> bi_max (bo_batch h)" unfolding b MAX_BATCH_SIZE_eq by simp
  have ok: "list_all kv_ok (map put_record ?kvs)"
    by (simp add: put_record_def kv_ok_def MAX_USER_KEY_BYTES_def u32_MAX_def)
  have q: "queue_ok (wp_queue ?w)" "queue_contents (wp_queue ?w) = []" "bq_size (wp_queue ?w) = 2"
    using batch_queue_new_ok [of 1] by (simp_all add: numeral_2_eq_2 demo_pipeline_def)
  have "length (queue_contents (wp_queue ?w)) < bq_size (wp_queue ?w)" using q by simp
  from write_session [OF _ _ _ a _ ok fit q(1) this, of "\<lambda>_. Inr ()" "Inr ()"] t demo_pool_ok(1) q(2)
  obtain h' w0 w1 w2 b g s2 where "put_all ?kvs h = Some h'" "prepare (\<lambda>_. Inr ()) (ob_addr (bo_inner h)) w0 = Some (Inr (), w1)"
    "wp_store w1 (ob_addr (bo_inner h)) = Some b" "batch_holds 3 [put_record ([1], [2]), put_record ([3], [4])] b"
    "pipeline_dequeue (w1\<lparr>wp_store := (wp_store w1)(ob_addr (bo_inner h) \<mapsto> batch_mark_applied b)\<rparr>) = Some (Some (ob_addr (bo_inner h)), w2)"
    "handle_close (Inr ()) 0 g \<lparr>sp_pool = p, sp_strong = 2\<rparr> = Some (Inr (), s2)" "sp_strong s2 = 1"
    by auto
  then show ?thesis using a by blast
qed

end
