(* ===== verification/Indexed_Batch.thy ===== *)
theory Indexed_Batch
  imports Batch_Object Arena
begin

text \<open>
  Indexed batches (\<open>batch.rs\<close>, \<open>batch_index.rs\<close>): a batch with an arena for an index over its records.  The
  index type has no fields yet and the constructors are \<open>todo!()\<close>, so an indexed batch cannot be made; the
  operations on one that exists are modelled as written.
\<close>

section \<open>Definitions\<close>

datatype batch_skip_list = BatchSkipList

record indexed_batch_inner =
  ib_batch :: batch_inner
  ib_arena :: arena
  ib_index :: batch_skip_list
  ib_range_del_index :: "batch_skip_list option"

text \<open>\<open>todo!()\<close> panics.\<close>

definition indexed_batch_inner_new :: "indexed_batch_inner option" where
  "indexed_batch_inner_new = None"

record owned_indexed_ptr =
  oi_addr :: nat
  oi_inner :: indexed_batch_inner

definition indexed_factory_allocate :: "nat \<Rightarrow> (nat \<times> owned_indexed_ptr) option" where
  "indexed_factory_allocate addr = None"

definition indexed_factory_allocate_with_capacity :: "nat \<Rightarrow> nat \<Rightarrow> (nat \<times> owned_indexed_ptr) option" where
  "indexed_factory_allocate_with_capacity addr capacity = None"

text \<open>The arena is rewound before the batch is cleared; neither index is touched.\<close>

definition indexed_reset_for_reuse :: "owned_indexed_ptr \<Rightarrow> owned_indexed_ptr option" where
  "indexed_reset_for_reuse a =
     do {
       arena \<leftarrow> arena_reset (ib_arena (oi_inner a));
       b \<leftarrow> batch_clear (ib_batch (oi_inner a));
       Some (a\<lparr>oi_inner := (oi_inner a)\<lparr>ib_arena := arena, ib_batch := b\<rparr>\<rparr>)
     }"

record indexed_object =
  io_commit :: commit_state
  io_inner :: owned_indexed_ptr

definition indexed_object_new :: "nat \<Rightarrow> indexed_object option" where
  "indexed_object_new addr =
     do {
       inner \<leftarrow> indexed_batch_inner_new;
       Some \<lparr>io_commit = UnCommitted, io_inner = \<lparr>oi_addr = addr, oi_inner = inner\<rparr>\<rparr>
     }"

abbreviation io_batch :: "indexed_object \<Rightarrow> batch_inner" where
  "io_batch x \<equiv> ib_batch (oi_inner (io_inner x))"

text \<open>\<open>put_cf\<close> has an empty body.\<close>

definition indexed_put_cf :: "u64 \<Rightarrow> bytes \<Rightarrow> bytes \<Rightarrow> indexed_object \<Rightarrow> indexed_object" where
  "indexed_put_cf cf_id key val x = x"

definition indexed_put :: "bytes \<Rightarrow> bytes \<Rightarrow> indexed_object \<Rightarrow> indexed_object" where
  "indexed_put key val x = indexed_put_cf default_cf key val x"

text \<open>The generic part of \<open>BatchObject\<close>, at the indexed allocation.\<close>

definition indexed_set_runtime_state :: "batch_runtime_state \<Rightarrow> indexed_object \<Rightarrow> indexed_object" where
  "indexed_set_runtime_state st x = x\<lparr>io_inner := (io_inner x)\<lparr>oi_inner := (oi_inner (io_inner x))\<lparr>ib_batch :=
     batch_set_runtime_state st (io_batch x)\<rparr>\<rparr>\<rparr>"

definition indexed_state :: "indexed_object \<Rightarrow> batch_runtime_state option" where
  "indexed_state x = batch_state_from_u8 (bi_state (io_batch x))"

definition indexed_wait :: "wait_result \<Rightarrow> indexed_object \<Rightarrow> (engine_error + unit) option" where
  "indexed_wait waited x =
     do {
       s \<leftarrow> sync_waiter_state (bi_waiter (io_batch x));
       case s of
         WS_Init \<Rightarrow> Some (Inr ())
       | WS_Primed \<Rightarrow> Some (case waited of Inr _ \<Rightarrow> Inr () | Inl _ \<Rightarrow> Inl Err_WalError)
       | WS_SyncDone \<Rightarrow> Some (Inr ())
       | WS_IoError \<Rightarrow> Some (Inl Err_WalError)
       | WS_WalError \<Rightarrow> Some (Inl Err_WalError)
     }"

definition indexed_reset_batch :: "indexed_object \<Rightarrow> indexed_object option" where
  "indexed_reset_batch x =
     do {
       st \<leftarrow> indexed_state x;
       assert_that (is_reset_safe st);
       a \<leftarrow> indexed_reset_for_reuse (io_inner x);
       let x = indexed_set_runtime_state BS_Acquired (x\<lparr>io_inner := a\<rparr>);
       Some (x\<lparr>io_commit := UnCommitted\<rparr>)
     }"

text \<open>\<open>IndexedBatch::reset\<close>: unlike \<open>Batch::reset\<close> it does not ask \<open>can_reset\<close> first, and it rewinds the arena
  twice.\<close>

definition indexed_batch_reset :: "wait_result \<Rightarrow> indexed_object \<Rightarrow> indexed_object option" where
  "indexed_batch_reset waited x =
     do {
       r \<leftarrow> indexed_wait waited x;
       assert_that (r = Inr ());
       arena \<leftarrow> arena_reset (ib_arena (oi_inner (io_inner x)));
       let x = x\<lparr>io_inner := (io_inner x)\<lparr>oi_inner := (oi_inner (io_inner x))\<lparr>ib_arena := arena\<rparr>\<rparr>\<rparr>;
       indexed_reset_batch x
     }"

definition indexed_sealed_batch_ptr :: "indexed_object \<Rightarrow> nat" where
  "indexed_sealed_batch_ptr x = oi_addr (io_inner x)"

section \<open>Properties\<close>

lemma indexed_wait_ok:
  assumes "sw_state (bi_waiter (io_batch x)) = wal_sync_u8 ws"
  shows "\<exists>r. indexed_wait waited x = Some r \<and>
    (r = Inr () \<longleftrightarrow> ws = WS_Init \<or> ws = WS_SyncDone \<or> (ws = WS_Primed \<and> waited = Inr ()))"
  unfolding indexed_wait_def sync_waiter_state_u8 [OF assms] by (cases ws) (simp_all split: sum.splits)

lemma arena_reset_ok:
  assumes "arena_holds a rs"
  obtains a' where "arena_reset a = Some a'" and "arena_holds a' []" and "arena_reset a' = Some a'"
proof -
  have ne: "ar_chunks a \<noteq> []" and ok: "arena_ok a" using assms by (auto simp: arena_holds_def arena_ok_def)
  let ?a = "a\<lparr>ar_chunks := map (\<lambda>c. c\<lparr>ch_bump := 0\<rparr>) (ar_chunks a), ar_current := 0, ar_memory_used := 0\<rparr>"
  have "arena_holds ?a []" using ok ne by (auto simp: arena_holds_def arena_ok_def)
  moreover have "arena_reset ?a = Some ?a" using ne by (simp add: arena_reset_def comp_def)
  ultimately show thesis using that ne by (simp add: arena_reset_def)
qed

text \<open>
  Also:  Resetting an indexed batch goes through exactly when its waiter allows it and its runtime state is
  reset-safe; the result is an uncommitted, acquired, empty batch whose arena has no live allocation, so
  the second rewind of the arena changes nothing.  Putting a record into an indexed batch leaves it
  unchanged, and making one panics.
\<close>

theorem indexed_batch_contract:
  assumes "bi_state (io_batch x) = batch_state_u8 st" and "sw_state (bi_waiter (io_batch x)) = wal_sync_u8 ws"
    and "batch_sized (io_batch x)" and "arena_holds (ib_arena (oi_inner (io_inner x))) rs"
  shows "(indexed_batch_reset waited x \<noteq> None \<longleftrightarrow>
       is_reset_safe st \<and> (ws = WS_Init \<or> ws = WS_SyncDone \<or> (ws = WS_Primed \<and> waited = Inr ())))
    \<and> (\<forall>y. indexed_batch_reset waited x = Some y \<longrightarrow> io_commit y = UnCommitted \<and> indexed_state y = Some BS_Acquired
         \<and> batch_holds 0 [] (io_batch y) \<and> arena_holds (ib_arena (oi_inner (io_inner y))) []
         \<and> indexed_sealed_batch_ptr y = indexed_sealed_batch_ptr x)
    \<and> indexed_put key val x = x \<and> indexed_object_new addr = None"
proof -
  obtain r where r: "indexed_wait waited x = Some r"
    "r = Inr () \<longleftrightarrow> ws = WS_Init \<or> ws = WS_SyncDone \<or> (ws = WS_Primed \<and> waited = Inr ())"
    using indexed_wait_ok [OF assms(2)] by blast
  obtain a where a: "arena_reset (ib_arena (oi_inner (io_inner x))) = Some a" "arena_holds a []" "arena_reset a = Some a"
    by (rule arena_reset_ok [OF assms(4)])
  let ?b = "(io_batch x)\<lparr>bi_count := 0, bi_data := [], bi_meta := batch_meta_clear (bi_meta (io_batch x)),
    bi_cf_table := cf_table_clear (bi_cf_table (io_batch x)), bi_state := batch_state_u8 BS_Acquired\<rparr>"
  let ?y = "\<lparr>io_commit = UnCommitted, io_inner = (io_inner x)\<lparr>oi_inner := (oi_inner (io_inner x))\<lparr>ib_arena := a, ib_batch := ?b\<rparr>\<rparr>\<rparr>"
  have run: "indexed_batch_reset waited x = (if r = Inr () \<and> is_reset_safe st then Some ?y else None)"
    using r(1) a(1,3) assms(1)
    by (simp add: indexed_batch_reset_def indexed_reset_batch_def indexed_state_def indexed_reset_for_reuse_def batch_clear_eq
        indexed_set_runtime_state_def batch_set_runtime_state_def del: batch_state_u8.simps)
  have "batch_holds 0 [] ?b" using assms(3) by (intro batch_holds_zeros) (simp_all add: batch_sized_def)
  then show ?thesis
    unfolding run r(2) using a(2)
    by (auto simp: indexed_state_def indexed_sealed_batch_ptr_def indexed_put_def indexed_put_cf_def indexed_object_new_def
        indexed_batch_inner_new_def simp del: batch_state_u8.simps)
qed

theorem indexed_batch_contract_witness:
  "indexed_batch_reset (Inr ()) \<lparr>io_commit = Sealed, io_inner = \<lparr>oi_addr = 0, oi_inner = \<lparr>ib_batch = batch_inner_new,
    ib_arena = demo_arena, ib_index = BatchSkipList, ib_range_del_index = None\<rparr>\<rparr>\<rparr> \<noteq> None"
proof -
  let ?x = "\<lparr>io_commit = Sealed, io_inner = \<lparr>oi_addr = 0, oi_inner = \<lparr>ib_batch = batch_inner_new,
    ib_arena = demo_arena, ib_index = BatchSkipList, ib_range_del_index = None\<rparr>\<rparr>\<rparr>"
  have "bi_state (io_batch ?x) = batch_state_u8 BS_Acquired" "sw_state (bi_waiter (io_batch ?x)) = wal_sync_u8 WS_Init"
    "batch_sized (io_batch ?x)"
    by (simp_all add: sync_waiter_default_def batch_sized_def MAX_BATCH_SIZE_eq u32_MAX_def)
  from indexed_batch_contract [OF this, of "[]" "Inr ()" "[]" "[]" 0] demo_arena_holds show ?thesis
    by (auto simp: is_reset_safe_def RESET_SAFE_STATES_def)
qed

end
