(* ===== verification/Batch_Queue_Conc.thy ===== *)
theory Batch_Queue_Conc
  imports Batch_Queue
begin

text \<open>
  The commit queue of \<open>write_pipeline.rs\<close> with its producer and consumers interleaved at every access to the
  packed word and the slots (a consumer tests the batch in the step that reads its slot), for runs in which the producer finds the slot of the head null, as the comment in
  \<open>enqueue\<close> asks.  Batches are applied by their writers at any time.
\<close>

section \<open>Runs and what they log\<close>

text \<open>The batch a step of the producer stores, and the batch a step of consumer \<open>i\<close> claims with its
  compare-exchange, with whether it is applied then.\<close>

definition stored :: "queue_sys \<Rightarrow> queue_sys \<Rightarrow> nat list" where
  "stored s t = (case qs_prod s of PSlot b h \<Rightarrow> if qs_prod t = PPublish then [b] else [] | _ \<Rightarrow> [])"

definition claimed :: "(nat \<Rightarrow> bool) \<Rightarrow> nat \<Rightarrow> queue_sys \<Rightarrow> queue_sys \<Rightarrow> (nat \<times> nat \<times> bool) list" where
  "claimed ap i s t = (case (qs_cons s i, qs_cons t i) of (CCas ht b, CClear k c) \<Rightarrow> [(i, b, ap b)] | _ \<Rightarrow> [])"

text \<open>The slot the producer is about to store into.\<close>

definition head_slot :: "queue_sys \<Rightarrow> nat option" where
  "head_slot s = bq_slots (qs_queue s) ! slot_index (bq_size (qs_queue s)) (fst (head_tail_unpack (bq_head_tail (qs_queue s))))"

text \<open>A run with the batches stored and claimed so far.  A batch may be applied at any time and does not
  lose that state while it is in the queue.\<close>

inductive queue_run ::
  "queue_sys \<Rightarrow> (nat \<Rightarrow> bool) \<Rightarrow> nat list \<Rightarrow> (nat \<times> nat \<times> bool) list \<Rightarrow> queue_sys \<Rightarrow> bool" for s0 where
  qr_refl: "queue_run s0 ap [] [] s0"
| qr_apply: "queue_run s0 ap es cs s \<Longrightarrow> \<forall>b \<in> set (drop (length cs) es). ap b \<longrightarrow> ap' b \<Longrightarrow> queue_run s0 ap' es cs s"
| qr_step: "queue_run s0 ap es cs s \<Longrightarrow> queue_step ap s t \<Longrightarrow> \<forall>j. j \<noteq> i \<longrightarrow> qs_cons t j = qs_cons s j \<Longrightarrow>
     stored s t \<noteq> [] \<longrightarrow> head_slot s = None \<Longrightarrow>
     queue_run s0 ap (es @ stored s t) (cs @ claimed ap i s t) t"

definition queue_start :: "batch_queue \<Rightarrow> queue_sys" where
  "queue_start q = \<lparr>qs_queue = q, qs_prod = PIdle, qs_cons = (\<lambda>_. CIdle)\<rparr>"

section \<open>The invariant\<close>

text \<open>\<open>es\<close> are the batches stored, \<open>cs\<close> the claims; the last batch stored may not be published yet.\<close>

definition published :: "queue_sys \<Rightarrow> nat list \<Rightarrow> nat" where
  "published s es = (if qs_prod s = PPublish then length es - 1 else length es)"

abbreviation packed :: "nat \<Rightarrow> nat \<Rightarrow> u64" where
  "packed h t \<equiv> head_tail_pack (of_nat h) (of_nat t)"

text \<open>What a consumer knows: the word it read is an earlier head and tail; when the tail has not moved, the
  batch it read is the oldest one and applied; a claimed slot still holds the batch until it is cleared.\<close>

fun cons_ok :: "nat \<Rightarrow> (nat \<Rightarrow> bool) \<Rightarrow> nat list \<Rightarrow> (nat \<times> nat \<times> bool) list \<Rightarrow> nat \<Rightarrow> nat option list \<Rightarrow> nat \<Rightarrow> cons_pc \<Rightarrow> bool" where
  "cons_ok N ap es cs H slots i (CLoop ht) \<longleftrightarrow> (\<exists>h t. ht = packed h t \<and> t \<le> h \<and> h \<le> H \<and> t \<le> length cs)"
| "cons_ok N ap es cs H slots i (CCas ht b) \<longleftrightarrow> (\<exists>h t. ht = packed h t \<and> t < h \<and> h \<le> H \<and> t \<le> length cs
     \<and> (t = length cs \<longrightarrow> b = es ! t \<and> ap b))"
| "cons_ok N ap es cs H slots i (CClear k b) \<longleftrightarrow> (\<exists>p < length cs. k = p mod N \<and> slots ! k = Some b \<and> length es \<le> p + N)
     \<and> (i, b, True) \<in> set cs"
| "cons_ok N ap es cs H slots i (CGot b) \<longleftrightarrow> (i, b, True) \<in> set cs"
| "cons_ok N ap es cs H slots i _ \<longleftrightarrow> True"

text \<open>The producer that is about to store read the head, and there is room.\<close>

fun prod_ok :: "nat \<Rightarrow> nat list \<Rightarrow> (nat \<times> nat \<times> bool) list \<Rightarrow> prod_pc \<Rightarrow> bool" where
  "prod_ok N es cs (PSlot b h) \<longleftrightarrow> h = of_nat (length es) \<and> length es < length cs + N"
| "prod_ok N es cs _ \<longleftrightarrow> True"

lemma prod_ok_claim: "prod_ok N es cs pc \<Longrightarrow> prod_ok N es (cs @ [c]) pc"
  by (cases pc) auto

definition clearing :: "queue_sys \<Rightarrow> nat \<Rightarrow> nat \<Rightarrow> bool" where
  "clearing s i k \<longleftrightarrow> (\<exists>b. qs_cons s i = CClear k b)"

definition clear_once :: "queue_sys \<Rightarrow> bool" where
  "clear_once s \<longleftrightarrow> (\<forall>i j k. clearing s i k \<longrightarrow> clearing s j k \<longrightarrow> i = j)"

definition ring_inv :: "(nat \<Rightarrow> bool) \<Rightarrow> nat list \<Rightarrow> (nat \<times> nat \<times> bool) list \<Rightarrow> queue_sys \<Rightarrow> bool" where
  "ring_inv ap es cs s \<longleftrightarrow>
     (let N = bq_size (qs_queue s); T = length cs; H = published s es; slots = bq_slots (qs_queue s) in
       bq_head_tail (qs_queue s) = packed H T \<and> T \<le> H \<and> length es \<le> T + N \<and> (qs_prod s = PPublish \<longrightarrow> es \<noteq> [])
       \<and> (\<forall>p. T \<le> p \<and> p < length es \<longrightarrow> slots ! (p mod N) = Some (es ! p))
       \<and> (\<forall>k < N. slots ! k \<noteq> None \<longrightarrow> (\<exists>p. T \<le> p \<and> p < length es \<and> p mod N = k) \<or> (\<exists>i. clearing s i k))
       \<and> (\<forall>i. cons_ok N ap es cs H slots i (qs_cons s i))
       \<and> clear_once s
       \<and> map (\<lambda>(i, b, a). b) cs = take T es \<and> (\<forall>(i, b, a) \<in> set cs. a)
       \<and> prod_ok N es cs (qs_prod s))"

lemma ring_invD:
  assumes "ring_inv ap es cs s"
  shows "bq_head_tail (qs_queue s) = packed (published s es) (length cs)" and "length cs \<le> published s es"
    and "length es \<le> length cs + bq_size (qs_queue s)" and "qs_prod s = PPublish \<Longrightarrow> es \<noteq> []"
    and "length cs \<le> p \<Longrightarrow> p < length es \<Longrightarrow> bq_slots (qs_queue s) ! (p mod bq_size (qs_queue s)) = Some (es ! p)"
    and "k < bq_size (qs_queue s) \<Longrightarrow> bq_slots (qs_queue s) ! k \<noteq> None \<Longrightarrow>
      (\<exists>p. length cs \<le> p \<and> p < length es \<and> p mod bq_size (qs_queue s) = k) \<or> (\<exists>i. clearing s i k)"
    and "cons_ok (bq_size (qs_queue s)) ap es cs (published s es) (bq_slots (qs_queue s)) i (qs_cons s i)"
    and "clear_once s"
    and "map (\<lambda>(i, b, a). b) cs = take (length cs) es" and "\<forall>(i, b, a) \<in> set cs. a"
    and "prod_ok (bq_size (qs_queue s)) es cs (qs_prod s)"
  using assms unfolding ring_inv_def Let_def by blast+

lemma published_le: "published s es \<le> length es"
  by (simp add: published_def)

lemma packed_inject:
  assumes "h < 2 ^ 32" "t < 2 ^ 32" "h' < 2 ^ 32" "t' < 2 ^ 32"
  shows "packed h t = packed h' t' \<longleftrightarrow> h = h' \<and> t = t'"
proof
  assume "packed h t = packed h' t'"
  then have "(of_nat h :: u32, of_nat t :: u32) = (of_nat h', of_nat t')" by (metis head_tail_unpack_pack)
  then have "unat (of_nat h :: u32) = unat (of_nat h' :: u32)" "unat (of_nat t :: u32) = unat (of_nat t' :: u32)" by auto
  then show "h = h' \<and> t = t'" using assms by (simp add: unat_of_nat)
qed simp

text \<open>What a consumer knows stays true while the others move on.\<close>

lemma cons_ok_mono:
  assumes "cons_ok N ap es cs H slots i c" and "H \<le> H'" and "H \<le> length es"
    and "\<forall>b \<in> set (drop (length cs) es). ap b \<longrightarrow> ap' b"
    and "\<And>k b. c = CClear k b \<Longrightarrow> slots' ! k = slots ! k"
    and "\<And>k b p. c = CClear k b \<Longrightarrow> p < length cs \<Longrightarrow> k = p mod N \<Longrightarrow> length es \<le> p + N \<Longrightarrow> length (es @ fs) \<le> p + N"
  shows "cons_ok N ap' (es @ fs) (cs @ ds) H' slots' i c"
proof (cases c)
  case (CLoop ht)
  then show ?thesis using assms(1,2) by (auto intro: order_trans trans_le_add1)
next
  case (CCas ht b)
  then obtain h t where t: "ht = packed h t" "t < h" "h \<le> H" "t \<le> length cs" "t = length cs \<longrightarrow> b = es ! t \<and> ap b"
    using assms(1) by auto
  have "b = (es @ fs) ! t \<and> ap' b" if "t = length (cs @ ds)"
  proof -
    have e: "t = length cs" using that t(4) by simp
    then have "t < length es" using t(2,3) assms(3) by simp
    moreover from this have "es ! t \<in> set (drop (length cs) es)" using e by (metis Cons_nth_drop_Suc list.set_intros(1))
    ultimately show ?thesis using t(5) e assms(4) by (auto simp: nth_append)
  qed
  then show ?thesis using t(1-4) assms(2) CCas by (auto intro: order_trans trans_le_add1)
next
  case (CClear k b)
  then obtain p where "p < length cs" "k = p mod N" "slots ! k = Some b" "length es \<le> p + N" "(i, b, True) \<in> set cs"
    using assms(1) by auto
  then show ?thesis using assms(5,6) [OF CClear] CClear by (auto intro!: exI [of _ p])
qed (use assms(1) in auto)

section \<open>Preservation\<close>

abbreviation sys_ok :: "(nat \<Rightarrow> bool) \<Rightarrow> nat list \<Rightarrow> (nat \<times> nat \<times> bool) list \<Rightarrow> queue_sys \<Rightarrow> bool" where
  "sys_ok ap es cs s \<equiv> ring_inv ap es cs s \<and> length es < 2 ^ 32 \<and> (\<exists>m \<le> 10. bq_size (qs_queue s) = 2 ^ m)"

lemma slot_index_packed:
  assumes "\<exists>m \<le> 10. N = 2 ^ m" and "p < 2 ^ 32"
  shows "slot_index N (of_nat p) = p mod N"
  using assms slot_index_eq [of N _ "of_nat p"] by (auto simp: unat_of_nat)

lemma ring_inv_apply:
  assumes "ring_inv ap es cs s" and "\<forall>b \<in> set (drop (length cs) es). ap b \<longrightarrow> ap' b"
  shows "ring_inv ap' es cs s"
proof -
  have "cons_ok (bq_size (qs_queue s)) ap' es cs (published s es) (bq_slots (qs_queue s)) i (qs_cons s i)" for i
    using cons_ok_mono [OF ring_invD(7) [OF assms(1)] order_refl published_le assms(2), where fs = "[]" and ds = "[]"] by simp
  then show ?thesis using assms(1) unfolding ring_inv_def Let_def by blast
qed

text \<open>A step of a consumer that neither claims nor clears, and one of the producer outside its store and
  publication.\<close>

lemma ring_inv_cons:
  assumes inv: "ring_inv ap es cs s" and old: "\<nexists>k. clearing s i k" and new: "\<nexists>k b. c = CClear k b"
    and ok: "cons_ok (bq_size (qs_queue s)) ap es cs (published s es) (bq_slots (qs_queue s)) i c"
  shows "ring_inv ap es cs (set_cons i c s)"
proof -
  have "clearing (set_cons i c s) j k = clearing s j k" for j k
    using old new by (auto simp: clearing_def set_cons_def)
  moreover have "cons_ok (bq_size (qs_queue s)) ap es cs (published s es) (bq_slots (qs_queue s)) j (qs_cons (set_cons i c s) j)" for j
    using ok ring_invD(7) [OF inv] by (simp add: set_cons_def)
  moreover from calculation(1) have "clear_once (set_cons i c s) = clear_once s" by (simp add: clear_once_def)
  moreover have "published (set_cons i c s) es = published s es" "qs_queue (set_cons i c s) = qs_queue s" "qs_prod (set_cons i c s) = qs_prod s"
    by (simp_all add: published_def set_cons_def)
  ultimately show ?thesis using inv unfolding ring_inv_def Let_def by simp
qed

lemma ring_inv_prod:
  assumes "ring_inv ap es cs s" and "qs_prod s \<noteq> PPublish" and "pc \<noteq> PPublish"
    and "prod_ok (bq_size (qs_queue s)) es cs pc"
  shows "ring_inv ap es cs (s\<lparr>qs_prod := pc\<rparr>)"
  using assms by (simp add: ring_inv_def published_def clearing_def clear_once_def Let_def)

lemma ring_inv_store:
  assumes inv: "ring_inv ap es cs s" and pc: "qs_prod s = PSlot b h" and room: "length es < length cs + bq_size (qs_queue s)"
    and null: "bq_slots (qs_queue s) ! (length es mod bq_size (qs_queue s)) = None"
  shows "ring_inv ap (es @ [b]) cs (s\<lparr>qs_prod := PPublish, qs_queue := (qs_queue s)\<lparr>bq_slots :=
    (bq_slots (qs_queue s))[length es mod bq_size (qs_queue s) := Some b]\<rparr>\<rparr>)" (is "ring_inv ap ?es cs ?t")
proof -
  let ?N = "bq_size (qs_queue s)" and ?slots = "bq_slots (qs_queue s)" and ?x = "length es mod bq_size (qs_queue s)"
  note I = ring_invD [OF inv]
  have N: "0 < ?N" "?x < ?N" using I(2) published_le [of s es] room by (auto intro: mod_less_divisor)
  have H: "published ?t ?es = length es" "published s es = length es" using pc by (simp_all add: published_def)
  have cl: "clearing ?t = clearing s" "clear_once ?t = clear_once s" by (simp_all add: clearing_def clear_once_def fun_eq_iff)
  have other: "p mod ?N \<noteq> ?x" if "length cs \<le> p" "p < length es" for p
  proof
    assume "p mod ?N = ?x"
    then show False using I(5) [OF that] null by simp
  qed
  have "cons_ok ?N ap ?es (cs @ []) (length es) (?slots[?x := Some b]) i (qs_cons s i)" for i
  proof (rule cons_ok_mono)
    show "cons_ok ?N ap es cs (length es) ?slots i (qs_cons s i)" using I(7) H(2) by simp
    fix k c assume c: "qs_cons s i = CClear k c"
    then have "?slots ! k = Some c" using I(7) [of i] by auto
    then have "k \<noteq> ?x" using null by auto
    then show "?slots[?x := Some b] ! k = ?slots ! k" by simp
    fix p assume p: "k = p mod ?N" "length es \<le> p + ?N"
    have "length es \<noteq> p + ?N" using \<open>k \<noteq> ?x\<close> p(1) by auto
    then show "length ?es \<le> p + ?N" using p(2) by simp
  qed simp_all
  then have "cons_ok ?N ap ?es cs (length es) (?slots[?x := Some b]) i (qs_cons s i)" for i by simp
  moreover have "?slots[?x := Some b] ! (p mod ?N) = Some (?es ! p)" if "length cs \<le> p" "p < Suc (length es)" for p
    using that other [of p] I(5) [of p] N by (cases "p = length es") (auto simp: nth_append)
  moreover have "(\<exists>p. length cs \<le> p \<and> p < Suc (length es) \<and> p mod ?N = k) \<or> (\<exists>i. clearing s i k)"
    if k: "k < ?N" "?slots[?x := Some b] ! k \<noteq> None" for k
  proof (cases "k = ?x")
    case True
    then show ?thesis using I(2) H(2) by auto
  next
    case False
    then show ?thesis using I(6) [OF k(1)] k(2) by (auto intro: less_SucI)
  qed
  ultimately show ?thesis
    using I(1,2,8,9,10) room H unfolding ring_inv_def Let_def cl by simp
qed

lemma ring_inv_publish:
  assumes inv: "ring_inv ap es cs s" and pc: "qs_prod s = PPublish"
  shows "ring_inv ap es cs (s\<lparr>qs_prod := PIdle, qs_queue := (qs_queue s)\<lparr>bq_head_tail :=
    bq_head_tail (qs_queue s) + push_bit DEQUEUE_BITS 1\<rparr>\<rparr>)" (is "ring_inv ap es cs ?t")
proof -
  note I = ring_invD [OF inv]
  have H: "published s es = length es - 1" "published ?t es = length es" "es \<noteq> []"
    using pc I(4) [OF pc] by (simp_all add: published_def)
  have "(of_nat (length es - 1) :: u32) + 1 = of_nat (length es)"
    using H(3) by (cases es) (simp_all add: add.commute)
  then have "bq_head_tail (qs_queue ?t) = packed (length es) (length cs)"
    using I(1) H(1) by (simp add: head_tail_pack_advance del: push_bit_of_1)
  moreover have "clearing ?t = clearing s" "clear_once ?t = clear_once s" by (simp_all add: clearing_def clear_once_def fun_eq_iff)
  moreover have "cons_ok (bq_size (qs_queue s)) ap es cs (length es) (bq_slots (qs_queue s)) i (qs_cons s i)" for i
    using cons_ok_mono [OF I(7) _ published_le, where fs = "[]" and ds = "[]" and H' = "length es"] published_le [of s es] by simp
  ultimately show ?thesis using I(2,3,5,6,8-10) H unfolding ring_inv_def Let_def by (simp del: push_bit_of_1)
qed

lemma mod_apart: "p < q \<Longrightarrow> q < p + N \<Longrightarrow> p mod N \<noteq> q mod (N :: nat)"
proof
  assume "p < q" "q < p + N" "p mod N = q mod N"
  then have "N dvd q - p" by (metis less_imp_le_nat mod_eq_dvd_iff_nat)
  then show False using \<open>p < q\<close> \<open>q < p + N\<close> by (auto dest: dvd_imp_le)
qed

lemma clearing_apart:
  assumes inv: "ring_inv ap es cs s" and c: "clearing s i k" and q: "length cs \<le> q" "q < length es"
  shows "q mod bq_size (qs_queue s) \<noteq> k"
proof -
  obtain p where "p < length cs" "k = p mod bq_size (qs_queue s)" "length es \<le> p + bq_size (qs_queue s)"
    using ring_invD(7) [OF inv, of i] c by (auto simp: clearing_def)
  then show ?thesis using mod_apart [of p q "bq_size (qs_queue s)"] q by auto
qed

lemma ring_inv_claim:
  assumes ok: "sys_ok ap es cs s" and c: "qs_cons s i = CCas ht b" and ht: "bq_head_tail (qs_queue s) = ht"
    and u: "head_tail_unpack ht = (head, tail)"
  shows "ap b" and "length cs < published s es"
    and "ring_inv ap es (cs @ [(i, b, ap b)]) (set_cons i (CClear (slot_index (bq_size (qs_queue s)) tail) b)
      (s\<lparr>qs_queue := (qs_queue s)\<lparr>bq_head_tail := head_tail_pack head (tail + 1)\<rparr>\<rparr>))" (is "ring_inv ap es ?cs ?t")
proof -
  let ?N = "bq_size (qs_queue s)" and ?T = "length cs" and ?H = "published s es" and ?slots = "bq_slots (qs_queue s)"
  have inv: "ring_inv ap es cs s" using ok by blast
  note I = ring_invD [OF inv]
  have small: "length es < 2 ^ 32" "?H < 2 ^ 32" "?T < 2 ^ 32" using ok I(2) published_le [of s es] by auto
  obtain h t where t: "ht = packed h t" "t < h" "h \<le> ?H" "t \<le> ?T" "t = ?T \<longrightarrow> b = es ! t \<and> ap b"
    using I(7) [of i] c by auto
  have "packed h t = packed ?H ?T" using I(1) ht t(1) by simp
  then have e: "h = ?H" "t = ?T" using packed_inject [of h t ?H ?T] t small by simp_all
  then show b: "ap b" and T: "?T < ?H" using t by auto
  have bT: "b = es ! ?T" "?T < length es" using t(5) e T published_le [of s es] by simp_all
  have tl: "head = of_nat ?H" "tail = of_nat ?T" using u t(1) e by auto
  have k: "slot_index ?N tail = ?T mod ?N" unfolding tl(2) by (rule slot_index_packed) (use ok small in auto)
  have cl: "clearing ?t j x \<longleftrightarrow> (if j = i then x = ?T mod ?N else clearing s j x)" for j x
    using c k by (auto simp: clearing_def set_cons_def)
  have fr: "published ?t es = ?H" "bq_slots (qs_queue ?t) = ?slots" "qs_prod ?t = qs_prod s" by (simp_all add: published_def set_cons_def)
  have word: "bq_head_tail (qs_queue ?t) = packed ?H (length ?cs)" by (simp add: set_cons_def tl add.commute)
  have once: "clear_once ?t"
    using I(8) clearing_apart [OF inv _ order_refl bT(2)] unfolding clear_once_def cl by (metis (full_types))
  have others: "cons_ok ?N ap (es @ []) ?cs ?H ?slots j (qs_cons s j)" for j
    by (rule cons_ok_mono [OF I(7) order_refl published_le]) simp_all
  have slotT: "?slots ! (?T mod ?N) = Some b" using I(5) [of ?T] bT by simp
  have "cons_ok ?N ap es ?cs ?H ?slots j (qs_cons ?t j)" for j
    using others [of j] slotT I(3) b k by (auto simp: set_cons_def intro!: exI [of _ ?T])
  moreover have "(\<exists>p. length ?cs \<le> p \<and> p < length es \<and> p mod ?N = x) \<or> (\<exists>j. clearing ?t j x)" if x: "x < ?N" "?slots ! x \<noteq> None" for x
  proof -
    consider p where "?T \<le> p" "p < length es" "p mod ?N = x" | j where "clearing s j x" using I(6) [OF x] by blast
    then show ?thesis
    proof cases
      case (1 p)
      show ?thesis
      proof (cases "p = ?T")
        case True
        then have "clearing ?t i x" using cl [of i x] 1 by simp
        then show ?thesis by blast
      next
        case False
        then show ?thesis using 1 by (intro disjI1 exI [of _ p]) simp
      qed
    next
      case (2 j)
      then have "j \<noteq> i" using c by (auto simp: clearing_def)
      then show ?thesis using 2 cl by metis
    qed
  qed
  moreover have "map (\<lambda>(i, b, a). b) ?cs = take (length ?cs) es"
    using I(9) bT by (simp add: take_Suc_conv_app_nth)
  moreover have "\<forall>(i, b, a) \<in> set ?cs. a" using I(10) b by auto
  ultimately show "ring_inv ap es ?cs ?t"
    using I(3-5) prod_ok_claim [OF I(11)] T word once fr unfolding ring_inv_def Let_def by simp
qed

lemma ring_inv_clear:
  assumes inv: "ring_inv ap es cs s" and c: "qs_cons s i = CClear k b"
  shows "ring_inv ap es cs (set_cons i (CGot b) (s\<lparr>qs_queue := (qs_queue s)\<lparr>bq_slots := (bq_slots (qs_queue s))[k := None]\<rparr>\<rparr>))"
    (is "ring_inv ap es cs ?t")
proof -
  let ?N = "bq_size (qs_queue s)" and ?slots = "bq_slots (qs_queue s)"
  note I = ring_invD [OF inv]
  have ck: "clearing s i k" using c by (simp add: clearing_def)
  have cl: "clearing ?t j x \<longleftrightarrow> j \<noteq> i \<and> clearing s j x" for j x by (auto simp: clearing_def set_cons_def)
  have own: "x = k" if "clearing s i x" for x using that c by (auto simp: clearing_def)
  have other: "x \<noteq> k" if "j \<noteq> i" "clearing s j x" for j x using I(8) that ck unfolding clear_once_def by blast
  have fr: "published ?t es = published s es" "bq_slots (qs_queue ?t) = ?slots[k := None]" "qs_prod ?t = qs_prod s"
    "bq_head_tail (qs_queue ?t) = bq_head_tail (qs_queue s)" by (simp_all add: published_def set_cons_def)
  have once: "clear_once ?t" using I(8) unfolding clear_once_def cl by blast
  have "cons_ok ?N ap (es @ []) (cs @ []) (published s es) (?slots[k := None]) j (qs_cons s j)" if "j \<noteq> i" for j
    by (rule cons_ok_mono [OF I(7) order_refl published_le]) (use other [OF that] in \<open>auto simp: clearing_def\<close>)
  moreover have "(i, b, True) \<in> set cs" using I(7) [of i] c by simp
  ultimately have "cons_ok ?N ap es cs (published s es) (?slots[k := None]) j (qs_cons ?t j)" for j
    by (cases "j = i") (simp_all add: set_cons_def)
  moreover have "?slots[k := None] ! (p mod ?N) = Some (es ! p)" if "length cs \<le> p" "p < length es" for p
    using I(5) [OF that] clearing_apart [OF inv ck that] by simp
  moreover have "(\<exists>p. length cs \<le> p \<and> p < length es \<and> p mod ?N = x) \<or> (\<exists>j. clearing ?t j x)"
    if x: "x < ?N" "?slots[k := None] ! x \<noteq> None" for x
  proof -
    have "x \<noteq> k" using x by auto
    then show ?thesis using I(6) [OF x(1)] x own unfolding cl by (metis nth_list_update_neq)
  qed
  ultimately show ?thesis
    using I(1-4,9,10,11) once fr unfolding ring_inv_def Let_def by simp
qed

lemma packed_full:
  assumes "sys_ok ap es cs s" and "head_tail_unpack (bq_head_tail (qs_queue s)) = (head, tail)"
  shows "tail + of_nat (bq_size (qs_queue s)) = head \<longleftrightarrow> published s es = length cs + bq_size (qs_queue s)"
proof -
  let ?N = "bq_size (qs_queue s)" and ?n = "published s es - length cs"
  note I = ring_invD [of ap es cs s]
  have T: "length cs \<le> published s es" "published s es \<le> length cs + ?N"
    using assms(1) I(2,3) published_le [of s es] by auto
  have N: "?N \<le> 1024" using assms(1) queue_size_bound by blast
  have ht: "head = of_nat (published s es)" "tail = of_nat (length cs)" using assms I(1) by auto
  have "(of_nat (published s es) :: u32) = of_nat (length cs) + of_nat ?n" using T(1) by (simp flip: of_nat_add)
  then have "tail + of_nat ?N = head \<longleftrightarrow> (of_nat ?N :: u32) = of_nat ?n" unfolding ht by simp
  also have "\<dots> \<longleftrightarrow> unat (of_nat ?N :: u32) = unat (of_nat ?n :: u32)" by (simp add: word_unat_eq_iff)
  also have "\<dots> \<longleftrightarrow> ?N = ?n" using N T(2) by (simp add: unat_diff_small)
  finally show ?thesis using T(1) by auto
qed

lemma queue_step_inv:
  assumes ok: "sys_ok ap es cs s" and step: "queue_step ap s t" and only: "\<forall>j. j \<noteq> i \<longrightarrow> qs_cons t j = qs_cons s j"
    and null: "stored s t \<noteq> [] \<longrightarrow> head_slot s = None"
  shows "ring_inv ap (es @ stored s t) (cs @ claimed ap i s t) t \<and> bq_size (qs_queue t) = bq_size (qs_queue s)"
proof -
  have inv: "ring_inv ap es cs s" and pow: "\<exists>m \<le> 10. bq_size (qs_queue s) = 2 ^ m" using ok by blast+
  note I = ring_invD [OF inv]
  have quiet: ?thesis if "ring_inv ap es cs t" "stored s t = []" "claimed ap i s t = []" "bq_size (qs_queue t) = bq_size (qs_queue s)"
    using that by simp
  have local_step: ?thesis if t: "t = set_cons j c s" and old: "\<nexists>k. clearing s j k" and new: "\<nexists>k b. c = CClear k b"
      and c: "cons_ok (bq_size (qs_queue s)) ap es cs (published s es) (bq_slots (qs_queue s)) j c" for j c
  proof (rule quiet)
    show "ring_inv ap es cs t" unfolding t by (rule ring_inv_cons [OF inv old new c])
    show "stored s t = []" by (simp add: stored_def t set_cons_def split: prod_pc.splits)
    show "claimed ap i s t = []"
      using old new by (auto simp: claimed_def clearing_def t set_cons_def split: cons_pc.splits)
  qed (simp add: t set_cons_def)
  have now: "\<exists>h t. bq_head_tail (qs_queue s) = packed h t \<and> t \<le> h \<and> h \<le> published s es \<and> t \<le> length cs"
    using I(1,2) by auto
  have loop: "cons_ok (bq_size (qs_queue s)) ap es cs (published s es) (bq_slots (qs_queue s)) j (CLoop (bq_head_tail (qs_queue s)))" for j
    unfolding cons_ok.simps by (rule now)
  from step show ?thesis
  proof cases
    case (prod_begin b)
    then show ?thesis
      using ring_inv_prod [OF inv, of "PStart b"] by (intro quiet) (simp_all add: stored_def claimed_def split: cons_pc.splits)
  next
    case (prod_full b head tail)
    then show ?thesis
      using ring_inv_prod [OF inv, of PPanic] by (intro quiet) (simp_all add: stored_def claimed_def split: cons_pc.splits)
  next
    case (prod_room b head tail)
    have H: "published s es = length es" using prod_room(2) by (simp add: published_def)
    have "length es \<noteq> length cs + bq_size (qs_queue s)" using packed_full [OF ok prod_room(3)] prod_room(4) H by simp
    then have "length es < length cs + bq_size (qs_queue s)" using I(3) by simp
    moreover have "head = of_nat (length es)" using prod_room(3) I(1) H by simp
    ultimately show ?thesis
      using ring_inv_prod [OF inv, of "PSlot b head"] prod_room(1,2) by (intro quiet) (simp_all add: stored_def claimed_def split: cons_pc.splits)
  next
    case (prod_store b head)
    have H: "published s es = length es" using prod_store(2) by (simp add: published_def)
    have hd: "head = of_nat (length es)" and room: "length es < length cs + bq_size (qs_queue s)" using I(11) prod_store(2) by simp_all
    have k: "slot_index (bq_size (qs_queue s)) head = length es mod bq_size (qs_queue s)"
      unfolding hd by (rule slot_index_packed [OF pow]) (use ok in simp)
    have st: "stored s t = [b]" using prod_store(1,2) by (simp add: stored_def)
    then have "bq_slots (qs_queue s) ! (length es mod bq_size (qs_queue s)) = None"
      using null I(1) H hd k by (simp add: head_slot_def)
    moreover have "claimed ap i s t = []" using prod_store(1) by (simp add: claimed_def split: cons_pc.splits)
    ultimately show ?thesis using ring_inv_store [OF inv prod_store(2) room] st prod_store(1) k by simp
  next
    case prod_publish
    then show ?thesis
      using ring_inv_publish [OF inv] by (intro quiet) (simp_all add: stored_def claimed_def split: cons_pc.splits)
  next
    case (cons_load j)
    show ?thesis by (rule local_step [OF cons_load(1) _ _ loop]) (simp_all add: clearing_def cons_load(2))
  next
    case (cons_empty j ht h)
    then show ?thesis by (intro local_step) (auto simp: clearing_def)
  next
    case (cons_not_ready j ht head tail)
    then show ?thesis by (intro local_step [of j CNone]) (auto simp: clearing_def)
  next
    case (cons_ready j ht head tail b)
    obtain h u where u: "ht = packed h u" "u \<le> h" "h \<le> published s es" "u \<le> length cs" using I(7) [of j] cons_ready(2) by auto
    have tl: "tail = of_nat u" "u \<noteq> h" using cons_ready(3,4) u(1) by auto
    have "b = es ! u" if e: "u = length cs"
    proof -
      have "u < length es" using u(2,3) tl(2) published_le [of s es] by simp
      moreover have "slot_index (bq_size (qs_queue s)) tail = u mod bq_size (qs_queue s)"
        unfolding tl(1) by (rule slot_index_packed [OF pow]) (use ok calculation in simp)
      ultimately show ?thesis using cons_ready(5) I(5) [of u] e by simp
    qed
    moreover have "u < h" using u(2) tl(2) by simp
    ultimately have "cons_ok (bq_size (qs_queue s)) ap es cs (published s es) (bq_slots (qs_queue s)) j (CCas ht b)"
      using u cons_ready(6) unfolding cons_ok.simps by blast
    from local_step [OF cons_ready(1) _ _ this] show ?thesis by (simp add: clearing_def cons_ready(2))
  next
    case (cons_cas_ok j ht b head tail)
    have "j = i"
    proof (rule ccontr)
      assume "j \<noteq> i"
      then have "qs_cons t j = qs_cons s j" using only by simp
      then show False using cons_cas_ok(1,2) by (simp add: set_cons_def)
    qed
    then have "claimed ap i s t = [(j, b, ap b)]" using cons_cas_ok(1,2) by (simp add: claimed_def set_cons_def)
    moreover have "stored s t = []" using cons_cas_ok(1) by (simp add: stored_def set_cons_def split: prod_pc.splits)
    ultimately show ?thesis
      using ring_inv_claim(3) [OF ok cons_cas_ok(2-4)] cons_cas_ok(1) by (simp add: set_cons_def)
  next
    case (cons_cas_fail j ht b)
    show ?thesis by (rule local_step [OF cons_cas_fail(1) _ _ loop]) (simp_all add: clearing_def cons_cas_fail(2))
  next
    case (cons_clear j k b)
    then show ?thesis
      using ring_inv_clear [OF inv cons_clear(2)]
      by (intro quiet) (auto simp: stored_def claimed_def set_cons_def split: cons_pc.splits prod_pc.splits)
  next
    case (cons_again j b)
    then show ?thesis by (intro local_step) (auto simp: clearing_def)
  qed
qed

lemma queue_start_inv:
  assumes "batch_queue_new N = Some q"
  shows "ring_inv ap [] [] (queue_start q)" and "\<exists>m \<le> 10. N = 2 ^ m" and "bq_size q = N"
proof -
  have q: "q = \<lparr>bq_head_tail = 0, bq_slots = replicate N None\<rparr>" "queue_ok q"
    using assms batch_queue_new_cases [OF assms] by (auto simp: batch_queue_new_def split: if_splits)
  show "ring_inv ap [] [] (queue_start q)"
    by (simp add: q(1) ring_inv_def queue_start_def published_def clear_once_def clearing_def head_tail_zero)
  show "\<exists>m \<le> 10. N = 2 ^ m" "bq_size q = N" using q by (auto simp: queue_ok_def)
qed

lemma queue_run_inv:
  assumes "queue_run (queue_start q) ap es cs s" and "batch_queue_new N = Some q" and "length es < 2 ^ 32"
  shows "sys_ok ap es cs s \<and> bq_size (qs_queue s) = N"
  using assms
proof (induction rule: queue_run.induct)
  case (qr_refl ap)
  then show ?case using queue_start_inv by (simp add: queue_start_def)
next
  case (qr_apply ap es cs s ap')
  then show ?case using ring_inv_apply by blast
next
  case (qr_step ap es cs s t i)
  have "length es < 2 ^ 32" using qr_step.prems(2) by simp
  then have ok: "sys_ok ap es cs s" "bq_size (qs_queue s) = N" using qr_step.IH [OF qr_step.prems(1)] by blast+
  show ?case using queue_step_inv [OF ok(1) qr_step.hyps(2-4)] ok(2) ok(1) qr_step.prems by auto
qed

text \<open>At rest the ring holds exactly the batches not claimed.\<close>

lemma ring_inv_rest:
  assumes ok: "sys_ok ap es cs s" and rest: "qs_prod s \<noteq> PPublish" "\<And>i k. \<not> clearing s i k"
  shows "queue_ok (qs_queue s) \<and> queue_contents (qs_queue s) = drop (length cs) es"
proof -
  let ?N = "bq_size (qs_queue s)" and ?T = "length cs" and ?slots = "bq_slots (qs_queue s)" and ?n = "length es - length cs"
  have inv: "ring_inv ap es cs s" using ok by blast
  note I = ring_invD [OF inv]
  have H: "published s es = length es" using rest(1) by (simp add: published_def)
  obtain m where m: "?N = 2 ^ m" "m \<le> 10" using ok by blast
  have N: "0 < ?N" using m(1) by simp
  have T: "?T \<le> length es" using I(2) H by simp
  then have small: "unat (of_nat ?T :: u32) = ?T" using ok by (simp add: unat_of_nat)
  have w: "(of_nat (length es) :: u32) = of_nat ?T + of_nat ?n" using T by (simp flip: of_nat_add)
  have "(?slots ! ((?T + k) mod ?N) \<noteq> None) = (k < ?n)" if k: "k < ?N" for k
  proof
    assume "?slots ! ((?T + k) mod ?N) \<noteq> None"
    then obtain p where p: "?T \<le> p" "p < length es" "p mod ?N = (?T + k) mod ?N"
      using I(6) [of "(?T + k) mod ?N"] rest(2) N by auto
    have "p - ?T < ?N" using p(1,2) I(3) by simp
    then have "p - ?T = k" using ring_index_inj [of "p - ?T" ?N k ?T] k p by simp
    then show "k < ?n" using p by simp
  next
    assume "k < ?n"
    then show "?slots ! ((?T + k) mod ?N) \<noteq> None" using I(5) [of "?T + k"] by simp
  qed
  then have ring: "ring_ok ?slots (unat (of_nat ?T :: u32)) ?n" using I(3) small by (simp add: ring_ok_def)
  have q: "qs_queue s = \<lparr>bq_head_tail = head_tail_pack (of_nat (length es)) (of_nat ?T), bq_slots = ?slots\<rparr>" using I(1) H by simp
  have "ring_list ?slots ?T ?n = drop ?T es"
    by (rule nth_equalityI) (use I(5) T in \<open>auto simp: ring_list_def\<close>)
  then show ?thesis using queue_okI [OF m(1,2) w ring] small q by metis
qed

section \<open>Properties\<close>

text \<open>
  C17.  The commit queue with one producer and any number of consumers, interleaved at every access to the packed
  word and the slots, hands out the batches in the order they were enqueued, each to exactly one consumer, none skipped,
  and each only when it is applied, for up to \<open>2 ^ 32\<close> batches, provided the producer finds the slot of the
  head null when it stores (which \<open>enqueue\<close> does not wait for).  A consumer
  that returns a batch is the one that claimed it; the producer finds the queue full only when \<open>N\<close>
  batches are unclaimed; and whenever nobody is between two accesses the ring holds exactly the
  batches enqueued and not yet claimed.
\<close>

theorem queue_concurrent_fifo:
  assumes "batch_queue_new N = Some q" and "queue_run (queue_start q) ap es cs s" and "length es < 2 ^ 32"
  shows "map (\<lambda>(i, b, a). b) cs = take (length cs) es \<and> (\<forall>(i, b, a) \<in> set cs. a)
    \<and> (\<forall>i b. qs_cons s i = CGot b \<longrightarrow> (i, b, True) \<in> set cs)
    \<and> (\<forall>b head tail. qs_prod s = PStart b \<and> head_tail_unpack (bq_head_tail (qs_queue s)) = (head, tail)
        \<and> tail + of_nat N = head \<longrightarrow> length es = length cs + N)
    \<and> (qs_prod s \<noteq> PPublish \<and> (\<forall>i k b. qs_cons s i \<noteq> CClear k b) \<longrightarrow>
        queue_ok (qs_queue s) \<and> queue_contents (qs_queue s) = drop (length cs) es)"
proof -
  have ok: "sys_ok ap es cs s" and N: "bq_size (qs_queue s) = N" using queue_run_inv [OF assms(2,1,3)] by blast+
  have inv: "ring_inv ap es cs s" using ok by blast
  note I = ring_invD [OF inv]
  have got: "(i, b, True) \<in> set cs" if "qs_cons s i = CGot b" for i b using I(7) [of i] that by simp
  have full: "length es = length cs + N"
    if "qs_prod s = PStart b" "head_tail_unpack (bq_head_tail (qs_queue s)) = (head, tail)" "tail + of_nat N = head" for b head tail
    using packed_full [OF ok that(2)] that N by (simp add: published_def)
  have rest: "queue_ok (qs_queue s) \<and> queue_contents (qs_queue s) = drop (length cs) es"
    if "qs_prod s \<noteq> PPublish" "\<forall>i k b. qs_cons s i \<noteq> CClear k b"
    by (rule ring_inv_rest [OF ok that(1)]) (use that(2) in \<open>simp add: clearing_def\<close>)
  show ?thesis using I(9,10) got full rest by blast
qed

text \<open>One batch through a queue of one slot.\<close>

lemma race_run_step:
  assumes "queue_run s0 ap es cs (race_state h t x p c)" and "queue_step ap (race_state h t x p c) (race_state h' t' x' p' c')"
    and "x = None \<or> p' \<noteq> PPublish"
  shows "queue_run s0 ap (es @ stored (race_state h t x p c) (race_state h' t' x' p' c'))
    (cs @ claimed ap 0 (race_state h t x p c) (race_state h' t' x' p' c')) (race_state h' t' x' p' c')"
  by (rule qr_step [OF assms(1,2)])
    (use assms(3) in \<open>auto simp: race_state_def stored_def head_slot_def split: prod_pc.splits\<close>)

lemma demo_queue_run:
  "queue_run (queue_start \<lparr>bq_head_tail = 0, bq_slots = [None]\<rparr>) (\<lambda>_. True) [7] [(0, 7, True)]
     (race_state 1 1 (Some 7) PIdle (CClear 0 7))"
proof -
  let ?A = "\<lambda>_ :: nat. True" and ?q = "queue_start \<lparr>bq_head_tail = 0, bq_slots = [None]\<rparr>"
  have "queue_run ?q ?A [] [] (race_state 0 0 None PIdle CIdle)"
    using qr_refl [of ?q ?A] by (simp add: queue_start_def race_start_def flip: race_start_eq)
  from race_run_step [OF this, of 0 0 None "PStart 7" CIdle] prod_begin [of "race_state 0 0 None PIdle CIdle" ?A 7]
  have "queue_run ?q ?A [] [] (race_state 0 0 None (PStart 7) CIdle)" by (simp add: race_state_def stored_def claimed_def)
  from race_run_step [OF this, of 0 0 None "PSlot 7 0" CIdle] prod_room [of "race_state 0 0 None (PStart 7) CIdle" 7 0 0 ?A]
  have "queue_run ?q ?A [] [] (race_state 0 0 None (PSlot 7 0) CIdle)" by (simp add: race_state_def stored_def claimed_def)
  from race_run_step [OF this, of 0 0 "Some 7" PPublish CIdle] prod_store [of "race_state 0 0 None (PSlot 7 0) CIdle" 7 0 ?A]
  have "queue_run ?q ?A [7] [] (race_state 0 0 (Some 7) PPublish CIdle)" by (simp add: race_state_def stored_def claimed_def)
  from race_run_step [OF this, of 1 0 "Some 7" PIdle CIdle] prod_publish [of "race_state 0 0 (Some 7) PPublish CIdle" ?A]
  have "queue_run ?q ?A [7] [] (race_state 1 0 (Some 7) PIdle CIdle)"
    using head_tail_pack_advance [of 0 0] by (simp add: race_state_def stored_def claimed_def del: push_bit_of_1)
  from race_run_step [OF this, of 1 0 "Some 7" PIdle "CLoop (head_tail_pack 1 0)"] cons_load [of "race_state 1 0 (Some 7) PIdle CIdle" 0 ?A]
  have "queue_run ?q ?A [7] [] (race_state 1 0 (Some 7) PIdle (CLoop (head_tail_pack 1 0)))"
    by (simp add: race_state_def stored_def claimed_def set_cons_def)
  from race_run_step [OF this, of 1 0 "Some 7" PIdle "CCas (head_tail_pack 1 0) 7"]
    cons_ready [of "race_state 1 0 (Some 7) PIdle (CLoop (head_tail_pack 1 0))" 0 "head_tail_pack 1 0" 1 0 7 ?A]
  have "queue_run ?q ?A [7] [] (race_state 1 0 (Some 7) PIdle (CCas (head_tail_pack 1 0) 7))"
    by (simp add: race_state_def stored_def claimed_def set_cons_def)
  from race_run_step [OF this, of 1 1 "Some 7" PIdle "CClear 0 7"]
    cons_cas_ok [of "race_state 1 0 (Some 7) PIdle (CCas (head_tail_pack 1 0) 7)" 0 "head_tail_pack 1 0" 7 1 0 ?A]
  show ?thesis by (simp add: race_state_def stored_def claimed_def set_cons_def)
qed

theorem queue_concurrent_fifo_witness:
  "queue_run (queue_start \<lparr>bq_head_tail = 0, bq_slots = [None]\<rparr>) (\<lambda>_. True) [7] [(0, 7, True)]
     (race_state 1 1 (Some 7) PIdle (CClear 0 7))
   \<and> map (\<lambda>(i, b, a). b) [(0 :: nat, 7, True)] = take (length [(0 :: nat, 7 :: nat, True)]) [7 :: nat]"
proof -
  have "is_power_of_two 1" unfolding is_power_of_two_def by (rule bexI [of _ 0]) simp_all
  then have "batch_queue_new 1 = Some \<lparr>bq_head_tail = 0, bq_slots = [None]\<rparr>" by (simp add: batch_queue_new_def)
  from queue_concurrent_fifo [OF this demo_queue_run] demo_queue_run show ?thesis by simp
qed

end
