(* ===== verification/Admission_Conc.thy ===== *)
theory Admission_Conc
  imports Write_Pipeline
begin

text \<open>
  The admission semaphore of \<open>write_pipeline.rs\<close> shared by threads: \<open>reserve_space\<close> with its 200 attempts and
  the slow path of \<open>acquire\<close>, and \<open>release\<close>, one step per access to the counter, the mutex or the condition
  variable.  A waiter may wake up without a notification.  Any thread may call \<open>release\<close>, whether it was given
  a permit or not: the code does not check it.  A run names the calls it allows, so that what holds for runs in
  which only permits that were granted are given back is told apart from what holds for all.
\<close>

section \<open>Definitions\<close>

text \<open>Where \<open>try_acquire\<close> was called: in the spin loop with so many attempts to go, at the beginning of
  \<open>acquire\<close>, or in its loop under the mutex.\<close>

datatype try_from = From_Spin nat | From_Fast | From_Slow

text \<open>\<open>Sem_Held\<close> is a thread outside every call to which a permit was granted, \<open>Sem_Out\<close> one without.  The flag of
  \<open>Rel_Lock\<close> and \<open>Rel_Add\<close> notes whether the call gives back a granted permit; the code does not look at it.\<close>

datatype sem_pc =
    Sem_Out
  | Sem_Load try_from
  | Sem_Try try_from u16
  | Sem_Lock
  | Sem_Check
  | Sem_Sleep
  | Sem_Woken
  | Sem_Leave
  | Sem_Held
  | Rel_Lock bool
  | Rel_Add bool
  | Rel_Notify
  | Rel_Unlock
  | Sem_Panic

fun after_failed :: "try_from \<Rightarrow> sem_pc" where
  "after_failed (From_Spin (Suc n)) = Sem_Load (From_Spin n)"
| "after_failed (From_Spin 0) = Sem_Load From_Fast"
| "after_failed From_Fast = Sem_Lock"
| "after_failed From_Slow = Sem_Check"

fun after_won :: "try_from \<Rightarrow> sem_pc" where
  "after_won From_Slow = Sem_Leave"
| "after_won _ = Sem_Held"

record sem_sys =
  sy_sem :: pipeline_admission
  sy_mu :: "nat option"
  sy_poisoned :: bool
  sy_pc :: "sem_pc list"

abbreviation sy_count :: "sem_sys \<Rightarrow> u16" where
  "sy_count s \<equiv> pa_count (sy_sem s)"

definition set_pc :: "nat \<Rightarrow> sem_pc \<Rightarrow> sem_sys \<Rightarrow> sem_sys" where
  "set_pc i c s = s\<lparr>sy_pc := (sy_pc s)[i := c]\<rparr>"

definition set_count :: "u16 \<Rightarrow> sem_sys \<Rightarrow> sem_sys" where
  "set_count n s = s\<lparr>sy_sem := (sy_sem s)\<lparr>pa_count := n\<rparr>\<rparr>"

text \<open>A permit is not tied to the thread that reserved it: \<open>se_hand_over\<close> moves it to another idle thread, which
  then releases it.  A failed assertion in \<open>release\<close> drops the guard while it unwinds, which frees the mutex and
  poisons it; a later \<open>lock().unwrap()\<close> or \<open>wait(guard).unwrap()\<close> panics (\<open>se_poisoned\<close>).\<close>

inductive sem_step :: "nat \<Rightarrow> sem_sys \<Rightarrow> sem_sys \<Rightarrow> bool" for i s where
  se_call: "sy_pc s ! i = Sem_Out \<Longrightarrow> sem_step i s (set_pc i (Sem_Load (From_Spin 199)) s)"
| se_load: "sy_pc s ! i = Sem_Load k \<Longrightarrow> sem_step i s (set_pc i (Sem_Try k (sy_count s)) s)"
| se_empty: "sy_pc s ! i = Sem_Try k 0 \<Longrightarrow> sem_step i s (set_pc i (after_failed k) s)"
| se_win: "sy_pc s ! i = Sem_Try k cur \<Longrightarrow> cur \<noteq> 0 \<Longrightarrow> sy_count s = cur \<Longrightarrow>
     sem_step i s (set_pc i (after_won k) (set_count (cur - 1) s))"
| se_lose: "sy_pc s ! i = Sem_Try k cur \<Longrightarrow> cur \<noteq> 0 \<Longrightarrow> sy_count s \<noteq> cur \<Longrightarrow>
     sem_step i s (set_pc i (Sem_Try k (sy_count s)) s)"
| se_lock: "sy_pc s ! i = Sem_Lock \<Longrightarrow> sy_mu s = None \<Longrightarrow> \<not> sy_poisoned s \<Longrightarrow>
     sem_step i s (set_pc i Sem_Check (s\<lparr>sy_mu := Some i\<rparr>))"
| se_wait: "sy_pc s ! i = Sem_Check \<Longrightarrow> sy_count s = 0 \<Longrightarrow> sem_step i s (set_pc i Sem_Sleep (s\<lparr>sy_mu := None\<rparr>))"
| se_again: "sy_pc s ! i = Sem_Check \<Longrightarrow> sy_count s \<noteq> 0 \<Longrightarrow> sem_step i s (set_pc i (Sem_Load From_Slow) s)"
| se_spurious: "sy_pc s ! i = Sem_Sleep \<Longrightarrow> sem_step i s (set_pc i Sem_Woken s)"
| se_relock: "sy_pc s ! i = Sem_Woken \<Longrightarrow> sy_mu s = None \<Longrightarrow> \<not> sy_poisoned s \<Longrightarrow>
     sem_step i s (set_pc i Sem_Check (s\<lparr>sy_mu := Some i\<rparr>))"
| se_leave: "sy_pc s ! i = Sem_Leave \<Longrightarrow> sem_step i s (set_pc i Sem_Held (s\<lparr>sy_mu := None\<rparr>))"
| se_hand_over: "sy_pc s ! i = Sem_Held \<Longrightarrow> j < length (sy_pc s) \<Longrightarrow> sy_pc s ! j = Sem_Out \<Longrightarrow>
     sem_step i s (set_pc i Sem_Out (set_pc j Sem_Held s))"
| se_release: "sy_pc s ! i = Sem_Held \<Longrightarrow> sem_step i s (set_pc i (Rel_Lock True) s)"
| se_release_unpaid: "sy_pc s ! i = Sem_Out \<Longrightarrow> sem_step i s (set_pc i (Rel_Lock False) s)"
| se_rel_lock: "sy_pc s ! i = Rel_Lock b \<Longrightarrow> sy_mu s = None \<Longrightarrow> \<not> sy_poisoned s \<Longrightarrow>
     sem_step i s (set_pc i (Rel_Add b) (s\<lparr>sy_mu := Some i\<rparr>))"
| se_poisoned: "sy_pc s ! i \<in> {Sem_Lock, Sem_Woken, Rel_Lock b} \<Longrightarrow> sy_mu s = None \<Longrightarrow> sy_poisoned s \<Longrightarrow>
     sem_step i s (set_pc i Sem_Panic s)"
| se_rel_add: "sy_pc s ! i = Rel_Add b \<Longrightarrow> unat (sy_count s) < pa_limit (sy_sem s) \<Longrightarrow>
     sem_step i s (set_pc i Rel_Notify (set_count (sy_count s + 1) s))"
| se_rel_panic: "sy_pc s ! i = Rel_Add b \<Longrightarrow> \<not> unat (sy_count s) < pa_limit (sy_sem s) \<Longrightarrow>
     sem_step i s (set_pc i Sem_Panic (set_count (sy_count s + 1) (s\<lparr>sy_mu := None, sy_poisoned := True\<rparr>)))"
| se_notify: "sy_pc s ! i = Rel_Notify \<Longrightarrow> j < length (sy_pc s) \<Longrightarrow> sy_pc s ! j = Sem_Sleep \<Longrightarrow>
     sem_step i s (set_pc i Rel_Unlock (set_pc j Sem_Woken s))"
| se_notify_none: "sy_pc s ! i = Rel_Notify \<Longrightarrow> Sem_Sleep \<notin> set (sy_pc s) \<Longrightarrow> sem_step i s (set_pc i Rel_Unlock s)"
| se_rel_unlock: "sy_pc s ! i = Rel_Unlock \<Longrightarrow> sem_step i s (set_pc i Sem_Out (s\<lparr>sy_mu := None\<rparr>))"

text \<open>Runs in which the thread that moves goes from \<open>c\<close> to \<open>d\<close> only where \<open>ok c d\<close>.\<close>

inductive sem_run :: "(sem_pc \<Rightarrow> sem_pc \<Rightarrow> bool) \<Rightarrow> sem_sys \<Rightarrow> sem_sys \<Rightarrow> bool" for ok s0 where
  sr_refl: "sem_run ok s0 s0"
| sr_more: "sem_run ok s0 s \<Longrightarrow> i < length (sy_pc s) \<Longrightarrow> sem_step i s t \<Longrightarrow> ok (sy_pc s ! i) (sy_pc t ! i) \<Longrightarrow> sem_run ok s0 t"

definition any_call :: "sem_pc \<Rightarrow> sem_pc \<Rightarrow> bool" where
  "any_call c d \<longleftrightarrow> True"

definition own_permit :: "sem_pc \<Rightarrow> sem_pc \<Rightarrow> bool" where
  "own_permit c d \<longleftrightarrow> d \<noteq> Rel_Lock False"

definition sem_start :: "nat \<Rightarrow> pipeline_admission \<Rightarrow> sem_sys" where
  "sem_start n a = \<lparr>sy_sem = a, sy_mu = None, sy_poisoned = False, sy_pc = replicate n Sem_Out\<rparr>"

section \<open>The invariant\<close>

fun holds_permit :: "sem_pc \<Rightarrow> bool" where
  "holds_permit Sem_Leave = True"
| "holds_permit Sem_Held = True"
| "holds_permit (Rel_Lock b) = b"
| "holds_permit (Rel_Add b) = b"
| "holds_permit _ = False"

fun in_mutex :: "sem_pc \<Rightarrow> bool" where
  "in_mutex (Sem_Load k) = (k = From_Slow)"
| "in_mutex (Sem_Try k c) = (k = From_Slow)"
| "in_mutex Sem_Check = True"
| "in_mutex Sem_Leave = True"
| "in_mutex (Rel_Add b) = True"
| "in_mutex Rel_Notify = True"
| "in_mutex Rel_Unlock = True"
| "in_mutex _ = False"

text \<open>Threads on their way to take a permit or to wake a sleeper.\<close>

fun on_its_way :: "sem_pc \<Rightarrow> bool" where
  "on_its_way (Sem_Load k) = (k = From_Slow)"
| "on_its_way (Sem_Try k c) = (k = From_Slow)"
| "on_its_way Sem_Check = True"
| "on_its_way Sem_Woken = True"
| "on_its_way Rel_Notify = True"
| "on_its_way _ = False"

fun unpaid :: "sem_pc \<Rightarrow> bool" where
  "unpaid (Rel_Lock b) = (\<not> b)"
| "unpaid (Rel_Add b) = (\<not> b)"
| "unpaid _ = False"

definition number :: "(sem_pc \<Rightarrow> bool) \<Rightarrow> sem_sys \<Rightarrow> nat" where
  "number P s = length (filter P (sy_pc s))"

definition sem_inv :: "sem_sys \<Rightarrow> bool" where
  "sem_inv s \<longleftrightarrow> unat (sy_count s) + number holds_permit s = pa_limit (sy_sem s) \<and> pa_limit (sy_sem s) \<le> 65535
     \<and> (\<forall>i < length (sy_pc s). in_mutex (sy_pc s ! i) \<longleftrightarrow> sy_mu s = Some i)
     \<and> (\<forall>i. sy_mu s = Some i \<longrightarrow> i < length (sy_pc s))
     \<and> (Sem_Sleep \<in> set (sy_pc s) \<longrightarrow> unat (sy_count s) \<le> number on_its_way s)
     \<and> Sem_Panic \<notin> set (sy_pc s) \<and> (\<forall>c \<in> set (sy_pc s). \<not> unpaid c) \<and> \<not> sy_poisoned s"

text \<open>What holds whoever calls \<open>release\<close>.\<close>

definition sem_lock_inv :: "sem_sys \<Rightarrow> bool" where
  "sem_lock_inv s \<longleftrightarrow> (\<forall>i < length (sy_pc s). in_mutex (sy_pc s ! i) \<longleftrightarrow> sy_mu s = Some i)
     \<and> (\<forall>i. sy_mu s = Some i \<longrightarrow> i < length (sy_pc s)) \<and> pa_limit (sy_sem s) \<le> 65535
     \<and> (\<not> sy_poisoned s \<longrightarrow> unat (sy_count s) \<le> pa_limit (sy_sem s) \<and> Sem_Panic \<notin> set (sy_pc s))"

lemma filter_update:
  assumes "i < length xs"
  shows "length (filter P (xs[i := x])) + (if P (xs ! i) then 1 else 0) = length (filter P xs) + (if P x then 1 else 0)"
  using assms
proof (induction xs arbitrary: i)
  case (Cons y ys)
  then show ?case by (cases i) auto
qed simp

lemma number_set_pc:
  "i < length (sy_pc s) \<Longrightarrow>
     number P (set_pc i c s) + (if P (sy_pc s ! i) then 1 else 0) = number P s + (if P c then 1 else 0)"
  unfolding number_def set_pc_def using filter_update [of i "sy_pc s" P c] by simp

lemma number_other [simp]: "number P (set_count n s) = number P s" "number P (s\<lparr>sy_mu := m\<rparr>) = number P s"
  "number P (s\<lparr>sy_mu := m, sy_poisoned := b\<rparr>) = number P s"
  by (simp_all add: number_def set_count_def)

lemma set_pc_simps [simp]:
  "sy_sem (set_pc i c s) = sy_sem s" "sy_mu (set_pc i c s) = sy_mu s" "sy_pc (set_pc i c s) = (sy_pc s)[i := c]"
  "sy_mu (set_count n s) = sy_mu s" "sy_pc (set_count n s) = sy_pc s" "sy_count (set_count n s) = n"
  "pa_limit (sy_sem (set_count n s)) = pa_limit (sy_sem s)" "sy_poisoned (set_pc i c s) = sy_poisoned s"
  "sy_poisoned (set_count n s) = sy_poisoned s"
  by (simp_all add: set_pc_def set_count_def)

lemma sem_invD:
  assumes "sem_inv s"
  shows "unat (sy_count s) + number holds_permit s = pa_limit (sy_sem s)" and "pa_limit (sy_sem s) \<le> 65535"
    and "i < length (sy_pc s) \<Longrightarrow> in_mutex (sy_pc s ! i) \<longleftrightarrow> sy_mu s = Some i"
    and "Sem_Sleep \<in> set (sy_pc s) \<Longrightarrow> unat (sy_count s) \<le> number on_its_way s"
    and "Sem_Panic \<notin> set (sy_pc s)" and "sy_mu s = Some i \<Longrightarrow> i < length (sy_pc s)"
    and "c \<in> set (sy_pc s) \<Longrightarrow> \<not> unpaid c" and "\<not> sy_poisoned s"
  using assms unfolding sem_inv_def by blast+

text \<open>A step of thread \<open>i\<close> to a new program point \<open>c\<close>, with the counter and the mutex as \<open>u\<close> has them.\<close>

lemma sem_inv_move:
  assumes inv: "sem_inv s" and i: "i < length (sy_pc s)" and u: "sy_pc u = sy_pc s" "pa_limit (sy_sem u) = pa_limit (sy_sem s)"
    and permit: "unat (sy_count u) + (if holds_permit c then 1 else 0) = unat (sy_count s) + (if holds_permit (sy_pc s ! i) then 1 else 0)"
    and mine: "in_mutex c \<longleftrightarrow> sy_mu u = Some i" and others: "\<forall>j. j \<noteq> i \<longrightarrow> (sy_mu u = Some j \<longleftrightarrow> sy_mu s = Some j)"
    and wake: "c = Sem_Sleep \<and> sy_count u = 0 \<or> c \<noteq> Sem_Sleep \<and> (Sem_Sleep \<notin> set (sy_pc s)
      \<or> unat (sy_count u) + (if on_its_way (sy_pc s ! i) then 1 else 0) \<le> unat (sy_count s) + (if on_its_way c then 1 else 0))"
    and c: "c \<noteq> Sem_Panic" "\<not> unpaid c" and po: "sy_poisoned u = sy_poisoned s"
  shows "sem_inv (set_pc i c u)"
proof -
  note I = sem_invD [OF inv]
  have n: "number P (set_pc i c u) + (if P (sy_pc s ! i) then 1 else 0) = number P s + (if P c then 1 else 0)" for P
    using number_set_pc [of i u P c] i u(1) by (simp add: number_def)
  have "unat (sy_count u) + number holds_permit (set_pc i c u) = pa_limit (sy_sem s)"
    using n [of holds_permit] permit I(1) by (auto split: if_splits)
  moreover have "in_mutex ((sy_pc s)[i := c] ! j) \<longleftrightarrow> sy_mu u = Some j" if "j < length (sy_pc s)" for j
    using mine others I(3) [OF that] that by (cases "j = i") simp_all
  moreover have "unat (sy_count u) \<le> number on_its_way (set_pc i c u)" if sl: "Sem_Sleep \<in> set ((sy_pc s)[i := c])"
  proof (cases "c = Sem_Sleep")
    case False
    then have "Sem_Sleep \<in> set (sy_pc s)" using sl set_update_subset_insert [of "sy_pc s" i c] by auto
    then show ?thesis using wake False I(4) n [of on_its_way] by (auto split: if_splits)
  qed (use wake in auto)
  moreover have "Sem_Panic \<notin> set ((sy_pc s)[i := c])" "\<forall>d \<in> set ((sy_pc s)[i := c]). \<not> unpaid d"
    using I(5,7) c set_update_subset_insert [of "sy_pc s" i c] by auto
  moreover have "j < length (sy_pc s)" if "sy_mu u = Some j" for j using that others i I(6) [of j] by (cases "j = i") simp_all
  ultimately show ?thesis using u I(2,8) po unfolding sem_inv_def by simp
qed

lemma number_pos: "i < length (sy_pc s) \<Longrightarrow> P (sy_pc s ! i) \<Longrightarrow> 0 < number P s"
  unfolding number_def by (auto simp: filter_empty_conv)

lemma after_failed_simps [simp]:
  "holds_permit (after_failed k) = False" "in_mutex (after_failed k) = (k = From_Slow)"
  "on_its_way (after_failed k) = (k = From_Slow)" "after_failed k \<noteq> Sem_Sleep" "after_failed k \<noteq> Sem_Panic" "\<not> unpaid (after_failed k)"
  by (cases k rule: after_failed.cases; simp)+

lemma after_won_simps [simp]:
  "holds_permit (after_won k)" "in_mutex (after_won k) = (k = From_Slow)"
  "on_its_way (after_won k) = False" "after_won k \<noteq> Sem_Sleep" "after_won k \<noteq> Sem_Panic" "\<not> unpaid (after_won k)"
  by (cases k; simp)+

lemma sem_step_inv:
  assumes inv: "sem_inv s" and i: "i < length (sy_pc s)" and step: "sem_step i s t"
    and own: "own_permit (sy_pc s ! i) (sy_pc t ! i)"
  shows "sem_inv t"
proof -
  note I = sem_invD [OF inv] and mv = sem_inv_move [OF inv i]
  have mine: "in_mutex (sy_pc s ! i) \<longleftrightarrow> sy_mu s = Some i" by (rule I(3) [OF i])
  from step show ?thesis
  proof cases
    case se_call
    then show ?thesis using mine by (auto intro!: mv)
  next
    case (se_load k)
    then show ?thesis using mine by (auto intro!: mv)
  next
    case (se_empty k)
    then show ?thesis using mine by (auto intro!: mv)
  next
    case (se_win k cur)
    have "unat (cur - 1) + 1 = unat cur" using unat_u16_minus_one [OF se_win(3)] se_win(3) by (simp add: unat_gt_0)
    then show ?thesis unfolding se_win(1) using mine se_win(2,4) by (intro mv) auto
  next
    case (se_lose k cur)
    then show ?thesis using mine by (auto intro!: mv)
  next
    case se_lock
    then show ?thesis using mine by (auto intro!: mv)
  next
    case se_wait
    then show ?thesis using mine by (auto intro!: mv)
  next
    case se_again
    then show ?thesis using mine by (auto intro!: mv)
  next
    case se_spurious
    then show ?thesis using mine by (auto intro!: mv)
  next
    case se_relock
    then show ?thesis using mine by (auto intro!: mv)
  next
    case se_leave
    then show ?thesis using mine by (auto intro!: mv)
  next
    case (se_hand_over j)
    have ji: "j \<noteq> i" using se_hand_over(2,4) by auto
    have n: "number P t + (if P Sem_Held then 1 else 0) + (if P Sem_Out then 1 else 0)
        = number P s + (if P Sem_Held then 1 else 0) + (if P Sem_Out then 1 else 0)" for P
      using number_set_pc [of i "set_pc j Sem_Held s" P Sem_Out] number_set_pc [OF se_hand_over(3), of P Sem_Held] ji i se_hand_over(1,2,4)
      by (auto split: if_splits)
    have sub: "set (sy_pc t) \<subseteq> insert Sem_Out (insert Sem_Held (set (sy_pc s)))"
      using set_update_subset_insert [of "(sy_pc s)[j := Sem_Held]" i Sem_Out] set_update_subset_insert [of "sy_pc s" j Sem_Held]
        se_hand_over(1) by auto
    have "in_mutex (sy_pc t ! k) = in_mutex (sy_pc s ! k)" for k
      using se_hand_over ji i by (cases "k = i"; cases "k = j") simp_all
    then show ?thesis using n [of holds_permit] n [of on_its_way] sub inv se_hand_over(1) unfolding sem_inv_def by auto
  next
    case se_release
    then show ?thesis using mine by (auto intro!: mv)
  next
    case se_release_unpaid
    then show ?thesis using own i by (simp add: own_permit_def)
  next
    case (se_rel_lock b)
    then show ?thesis using mine I(7) [OF nth_mem [OF i]] by (auto intro!: mv)
  next
    case (se_poisoned b)
    then show ?thesis using I(8) by simp
  next
    case (se_rel_add b)
    have "unat (sy_count s + 1) = unat (sy_count s) + 1"
      using se_rel_add(3) I(2) by (simp add: unat_word_ariths)
    moreover have b using I(7) [OF nth_mem [OF i]] se_rel_add(2) by simp
    ultimately show ?thesis unfolding se_rel_add(1) using mine se_rel_add(2) by (intro mv) auto
  next
    case (se_rel_panic b)
    then have b using I(7) [OF nth_mem [OF i]] by simp
    then have "0 < number holds_permit s" using number_pos [OF i, of holds_permit] se_rel_panic(2) by simp
    then show ?thesis using se_rel_panic(3) I(1) by simp
  next
    case (se_notify j)
    have ji: "j \<noteq> i" using se_notify(2,4) by auto
    have woken: "sem_inv (set_pc j Sem_Woken s)"
      using sem_inv_move [OF inv se_notify(3), of s Sem_Woken] se_notify(4) I(3) [OF se_notify(3)] by auto
    have n: "number on_its_way (set_pc j Sem_Woken s) = number on_its_way s + 1"
      using number_set_pc [OF se_notify(3), of on_its_way Sem_Woken] se_notify(4) by simp
    have "number on_its_way t + 1 = number on_its_way (set_pc j Sem_Woken s)"
      using number_set_pc [of i "set_pc j Sem_Woken s" on_its_way Rel_Unlock] i ji se_notify(1,2) by simp
    then have cnt: "unat (sy_count s) \<le> number on_its_way t"
      using n I(4) se_notify(3,4) by (metis add_right_cancel nth_mem)
    show ?thesis
      using woken cnt number_set_pc [of i "set_pc j Sem_Woken s" holds_permit Rel_Unlock] i ji se_notify(1,2) mine
        set_update_subset_insert [of "(sy_pc s)[j := Sem_Woken]" i Rel_Unlock]
      by (auto simp: sem_inv_def nth_list_update)
  next
    case se_notify_none
    then show ?thesis using mine by (auto intro!: mv)
  next
    case se_rel_unlock
    then show ?thesis using mine by (auto intro!: mv)
  qed
qed

lemma sem_step_length: "sem_step i s t \<Longrightarrow> length (sy_pc t) = length (sy_pc s) \<and> pa_limit (sy_sem t) = pa_limit (sy_sem s)"
  by (induction rule: sem_step.induct) simp_all

lemma sem_run_inv: "sem_run own_permit s0 s \<Longrightarrow> sem_inv s0 \<Longrightarrow> sem_inv s \<and> pa_limit (sy_sem s) = pa_limit (sy_sem s0)"
  by (induction rule: sem_run.induct) (auto intro: sem_step_inv dest: sem_step_length)

lemma sem_run_any: "sem_run ok s0 s \<Longrightarrow> sem_run any_call s0 s"
  by (induction rule: sem_run.induct) (auto intro: sem_run.intros simp: any_call_def)

lemma sem_lock_invD:
  assumes "sem_lock_inv s"
  shows "i < length (sy_pc s) \<Longrightarrow> in_mutex (sy_pc s ! i) \<longleftrightarrow> sy_mu s = Some i" and "sy_mu s = Some i \<Longrightarrow> i < length (sy_pc s)"
    and "pa_limit (sy_sem s) \<le> 65535" and "\<not> sy_poisoned s \<Longrightarrow> unat (sy_count s) \<le> pa_limit (sy_sem s)"
    and "\<not> sy_poisoned s \<Longrightarrow> Sem_Panic \<notin> set (sy_pc s)"
  using assms unfolding sem_lock_inv_def by blast+

lemma sem_lock_inv_move:
  assumes inv: "sem_lock_inv s" and i: "i < length (sy_pc s)" and u: "sy_pc u = sy_pc s" "pa_limit (sy_sem u) = pa_limit (sy_sem s)"
    and mine: "in_mutex c \<longleftrightarrow> sy_mu u = Some i" and others: "\<forall>j. j \<noteq> i \<longrightarrow> (sy_mu u = Some j \<longleftrightarrow> sy_mu s = Some j)"
    and po: "\<not> sy_poisoned u \<Longrightarrow> \<not> sy_poisoned s \<and> c \<noteq> Sem_Panic \<and> unat (sy_count u) \<le> pa_limit (sy_sem s)"
  shows "sem_lock_inv (set_pc i c u)"
proof -
  note I = sem_lock_invD [OF inv]
  have "in_mutex ((sy_pc s)[i := c] ! j) \<longleftrightarrow> sy_mu u = Some j" if "j < length (sy_pc s)" for j
    using mine others I(1) [OF that] that by (cases "j = i") simp_all
  moreover have "j < length (sy_pc s)" if "sy_mu u = Some j" for j using that others i I(2) [of j] by (cases "j = i") simp_all
  moreover have "Sem_Panic \<notin> set ((sy_pc s)[i := c])" if "\<not> sy_poisoned u"
    using po [OF that] I(5) set_update_subset_insert [of "sy_pc s" i c] by auto
  ultimately show ?thesis using u I(3) po unfolding sem_lock_inv_def by simp
qed

lemma sem_step_lock:
  assumes inv: "sem_lock_inv s" and i: "i < length (sy_pc s)" and step: "sem_step i s t"
  shows "sem_lock_inv t"
proof -
  note I = sem_lock_invD [OF inv] and mv = sem_lock_inv_move [OF inv i]
  have mine: "in_mutex (sy_pc s ! i) \<longleftrightarrow> sy_mu s = Some i" by (rule I(1) [OF i])
  from step show ?thesis
  proof cases
    case (se_win k cur)
    have "unat (cur - 1) \<le> unat cur" using unat_u16_minus_one [OF se_win(3)] by simp
    then show ?thesis unfolding se_win(1) using mine se_win(2,4) I(4) by (intro mv) auto
  next
    case (se_hand_over j)
    have "sem_lock_inv (set_pc j Sem_Held s)"
      using sem_lock_inv_move [OF inv se_hand_over(3), of s Sem_Held] I(1) [OF se_hand_over(3)] I(4) se_hand_over(4) by auto
    then show ?thesis unfolding se_hand_over(1)
      by (rule sem_lock_inv_move) (use i mine se_hand_over I(4) in auto)
  next
    case (se_notify j)
    have "sem_lock_inv (set_pc j Sem_Woken s)"
      using sem_lock_inv_move [OF inv se_notify(3), of s Sem_Woken] I(1) [OF se_notify(3)] I(4) se_notify(4) by auto
    then show ?thesis unfolding se_notify(1)
      by (rule sem_lock_inv_move) (use i mine se_notify I(4) in auto)
  next
    case (se_rel_add b)
    have "unat (sy_count s + 1) = unat (sy_count s) + 1"
      using se_rel_add(3) I(3) by (simp add: unat_word_ariths)
    then show ?thesis unfolding se_rel_add(1) using mine se_rel_add(2,3) by (intro mv) auto
  next
    case (se_poisoned b)
    then have "\<not> in_mutex (sy_pc s ! i)" by auto
    then show ?thesis unfolding se_poisoned(1) using se_poisoned(2-4) mine by (intro mv) auto
  qed (use mine I(4) in \<open>auto intro!: mv\<close>)
qed

lemma sem_run_lock: "sem_run ok s0 s \<Longrightarrow> sem_lock_inv s0 \<Longrightarrow> sem_lock_inv s \<and> pa_limit (sy_sem s) = pa_limit (sy_sem s0)"
  by (induction rule: sem_run.induct) (auto intro: sem_step_lock dest: sem_step_length)

lemma sem_start_inv:
  assumes "admission_new limit = Some a"
  shows "sem_inv (sem_start n a)" and "pa_limit a = limit" and "sem_lock_inv (sem_start n a)"
proof -
  have a: "a = \<lparr>pa_limit = limit, pa_count = of_nat limit\<rparr>" "limit \<le> 65535"
    using assms by (auto simp: admission_new_def split: if_splits)
  have "number holds_permit (sem_start n a) = 0" by (simp add: number_def sem_start_def filter_False)
  then show "sem_inv (sem_start n a)"
    using a by (simp add: sem_inv_def sem_start_def unat_of_nat)
  show "sem_lock_inv (sem_start n a)"
    using a by (simp add: sem_lock_inv_def sem_start_def unat_of_nat)
  show "pa_limit a = limit" using a by simp
qed

section \<open>Progress\<close>

text \<open>Waiting in the slow path, and steps of threads that are awake and in the middle of an operation.\<close>

fun waiting :: "sem_pc \<Rightarrow> bool" where
  "waiting (Sem_Load k) = (k = From_Slow)"
| "waiting (Sem_Try k c) = (k = From_Slow)"
| "waiting Sem_Check = True"
| "waiting Sem_Sleep = True"
| "waiting Sem_Woken = True"
| "waiting _ = False"

definition busy_step :: "sem_sys \<Rightarrow> sem_sys \<Rightarrow> bool" where
  "busy_step s t \<longleftrightarrow> (\<exists>i < length (sy_pc s). sem_step i s t \<and> sy_pc s ! i \<notin> {Sem_Out, Sem_Held, Sem_Sleep})"

lemma busyI: "i < length (sy_pc s) \<Longrightarrow> sem_step i s t \<Longrightarrow> sy_pc s ! i \<notin> {Sem_Out, Sem_Held, Sem_Sleep} \<Longrightarrow> busy_step s t"
  unfolding busy_step_def by blast

lemma wins_at_once:
  assumes "i < length (sy_pc s)" and "sy_pc s ! i = Sem_Try From_Slow (sy_count s)" and "sy_count s \<noteq> 0"
  shows "\<exists>t. busy_step\<^sup>*\<^sup>* s t \<and> sy_pc t ! i = Sem_Leave"
proof -
  have "busy_step s (set_pc i (after_won From_Slow) (set_count (sy_count s - 1) s))"
    by (rule busyI [OF assms(1) se_win [OF assms(2,3) refl]]) (simp add: assms(2))
  then have "busy_step\<^sup>*\<^sup>* s (set_pc i (after_won From_Slow) (set_count (sy_count s - 1) s))" by (rule r_into_rtranclp)
  then show ?thesis using assms(1) by (intro exI [of _ "set_pc i (after_won From_Slow) (set_count (sy_count s - 1) s)"]) simp
qed

lemma loads_and_wins:
  assumes "i < length (sy_pc s)" and "sy_pc s ! i = Sem_Load From_Slow" and "sy_count s \<noteq> 0"
  shows "\<exists>t. busy_step\<^sup>*\<^sup>* s t \<and> sy_pc t ! i = Sem_Leave"
proof -
  let ?u = "set_pc i (Sem_Try From_Slow (sy_count s)) s"
  have "busy_step s ?u" by (rule busyI [OF assms(1) se_load [OF assms(2)]]) (simp add: assms(2))
  moreover have "\<exists>t. busy_step\<^sup>*\<^sup>* ?u t \<and> sy_pc t ! i = Sem_Leave" by (rule wins_at_once) (use assms in simp_all)
  ultimately show ?thesis by (blast intro: converse_rtranclp_into_rtranclp)
qed

lemma checks_and_wins:
  assumes "i < length (sy_pc s)" and "sy_pc s ! i = Sem_Check" and "sy_count s \<noteq> 0"
  shows "\<exists>t. busy_step\<^sup>*\<^sup>* s t \<and> sy_pc t ! i = Sem_Leave"
proof -
  let ?u = "set_pc i (Sem_Load From_Slow) s"
  have "busy_step s ?u" by (rule busyI [OF assms(1) se_again [OF assms(2,3)]]) (simp add: assms(2))
  moreover have "\<exists>t. busy_step\<^sup>*\<^sup>* ?u t \<and> sy_pc t ! i = Sem_Leave" by (rule loads_and_wins) (use assms in simp_all)
  ultimately show ?thesis by (blast intro: converse_rtranclp_into_rtranclp)
qed

lemma tries_and_wins:
  assumes i: "i < length (sy_pc s)" and pc: "sy_pc s ! i = Sem_Try From_Slow c" and n: "sy_count s \<noteq> 0"
  shows "\<exists>t. busy_step\<^sup>*\<^sup>* s t \<and> sy_pc t ! i = Sem_Leave"
proof -
  consider "c = sy_count s" | "c = 0" | "c \<noteq> 0" "c \<noteq> sy_count s" by blast
  then show ?thesis
  proof cases
    case 1
    then show ?thesis using wins_at_once [OF i _ n] pc by simp
  next
    case 2
    let ?u = "set_pc i (after_failed From_Slow) s"
    have "busy_step s ?u" by (rule busyI [OF i se_empty [OF pc [unfolded 2]]]) (simp add: pc)
    moreover have "\<exists>t. busy_step\<^sup>*\<^sup>* ?u t \<and> sy_pc t ! i = Sem_Leave" by (rule checks_and_wins) (use i n in simp_all)
    ultimately show ?thesis by (blast intro: converse_rtranclp_into_rtranclp)
  next
    case 3
    let ?u = "set_pc i (Sem_Try From_Slow (sy_count s)) s"
    have "busy_step s ?u" by (rule busyI [OF i se_lose [OF pc 3(1) 3(2) [symmetric]]]) (simp add: pc)
    moreover have "\<exists>t. busy_step\<^sup>*\<^sup>* ?u t \<and> sy_pc t ! i = Sem_Leave" by (rule wins_at_once) (use i n in simp_all)
    ultimately show ?thesis by (blast intro: converse_rtranclp_into_rtranclp)
  qed
qed

lemma woken_wins:
  assumes "i < length (sy_pc s)" and "sy_pc s ! i = Sem_Woken" and "sy_mu s = None" and "sy_count s \<noteq> 0"
    and "\<not> sy_poisoned s"
  shows "\<exists>t. busy_step\<^sup>*\<^sup>* s t \<and> sy_pc t ! i = Sem_Leave"
proof -
  let ?u = "set_pc i Sem_Check (s\<lparr>sy_mu := Some i\<rparr>)"
  have "busy_step s ?u" by (rule busyI [OF assms(1) se_relock [OF assms(2,3,5)]]) (simp add: assms(2))
  moreover have "\<exists>t. busy_step\<^sup>*\<^sup>* ?u t \<and> sy_pc t ! i = Sem_Leave" by (rule checks_and_wins) (use assms in simp_all)
  ultimately show ?thesis by (blast intro: converse_rtranclp_into_rtranclp)
qed

text \<open>With the mutex free, a thread that has been woken is there.\<close>

lemma free_wins:
  assumes inv: "sem_inv s" and mu: "sy_mu s = None" and n: "sy_count s \<noteq> 0" and sl: "Sem_Sleep \<in> set (sy_pc s)"
  shows "\<exists>i < length (sy_pc s). sy_pc s ! i = Sem_Woken \<and> (\<exists>t. busy_step\<^sup>*\<^sup>* s t \<and> sy_pc t ! i = Sem_Leave)"
proof -
  have "0 < number on_its_way s" using sem_invD(4) [OF inv sl] n by (cases "number on_its_way s") (auto simp: unat_eq_0)
  then obtain x where "x \<in> set (sy_pc s)" "on_its_way x" by (auto simp: number_def filter_empty_conv)
  then obtain i where i: "i < length (sy_pc s)" "on_its_way (sy_pc s ! i)" by (auto simp: in_set_conv_nth)
  have "\<not> in_mutex (sy_pc s ! i)" using sem_invD(3) [OF inv i(1)] mu by simp
  then have "sy_pc s ! i = Sem_Woken" using i(2) by (cases "sy_pc s ! i") simp_all
  then show ?thesis using woken_wins [OF i(1) _ mu n sem_invD(8) [OF inv]] i(1) by blast
qed

text \<open>A releaser about to notify wakes a sleeper, who then gets the permit.\<close>

lemma notify_wins:
  assumes i: "i < length (sy_pc s)" and pc: "sy_pc s ! i = Rel_Notify" and n: "sy_count s \<noteq> 0" and po: "\<not> sy_poisoned s"
    and j: "j < length (sy_pc s)" "sy_pc s ! j = Sem_Sleep"
  shows "\<exists>t. busy_step\<^sup>*\<^sup>* s t \<and> sy_pc t ! j = Sem_Leave"
proof -
  let ?u = "set_pc i Rel_Unlock (set_pc j Sem_Woken s)"
  let ?v = "set_pc i Sem_Out (?u\<lparr>sy_mu := None\<rparr>)"
  have ij: "i \<noteq> j" using pc j by auto
  have "busy_step s ?u" by (rule busyI [OF i se_notify [OF pc j]]) (simp add: pc)
  moreover have "busy_step ?u ?v" by (rule busyI [of i, OF _ se_rel_unlock]) (use i in simp_all)
  moreover have "\<exists>t. busy_step\<^sup>*\<^sup>* ?v t \<and> sy_pc t ! j = Sem_Leave" by (rule woken_wins) (use i j n ij po in simp_all)
  ultimately show ?thesis by (blast intro: converse_rtranclp_into_rtranclp)
qed

lemma release_wins:
  assumes inv: "sem_inv s" and i: "i < length (sy_pc s)" and pc: "sy_pc s ! i = Rel_Add b"
    and j: "j < length (sy_pc s)" "sy_pc s ! j = Sem_Sleep"
  shows "\<exists>t. busy_step\<^sup>*\<^sup>* s t \<and> sy_pc t ! j = Sem_Leave"
proof -
  let ?u = "set_pc i Rel_Notify (set_count (sy_count s + 1) s)"
  have ij: "i \<noteq> j" using pc j by auto
  have b using sem_invD(7) [OF inv nth_mem [OF i]] pc by simp
  then have "0 < number holds_permit s" using number_pos [OF i, of holds_permit] pc by simp
  then have lt: "unat (sy_count s) < pa_limit (sy_sem s)" using sem_invD(1) [OF inv] by simp
  then have "unat (sy_count s + 1) = unat (sy_count s) + 1" using sem_invD(2) [OF inv] by (simp add: unat_word_ariths)
  then have n: "sy_count s + 1 \<noteq> 0" by auto
  have "busy_step s ?u" by (rule busyI [OF i se_rel_add [OF pc lt]]) (simp add: pc)
  moreover have "\<exists>t. busy_step\<^sup>*\<^sup>* ?u t \<and> sy_pc t ! j = Sem_Leave" by (rule notify_wins [of i]) (use i j ij n sem_invD(8) [OF inv] in simp_all)
  ultimately show ?thesis by (blast intro: converse_rtranclp_into_rtranclp)
qed

text \<open>A thread that leaves the mutex makes room for one that has been woken.\<close>

lemma leave_wins:
  assumes inv: "sem_inv s" and i: "i < length (sy_pc s)" and step: "sem_step i s (set_pc i c (s\<lparr>sy_mu := None\<rparr>))"
    and pc: "sy_pc s ! i \<in> {Sem_Leave, Rel_Unlock}" and c: "c \<noteq> Sem_Woken" "c \<noteq> Rel_Lock False"
    and n: "sy_count s \<noteq> 0" and sl: "Sem_Sleep \<in> set (sy_pc s)"
  shows "\<exists>j < length (sy_pc s). waiting (sy_pc s ! j) \<and> (\<exists>t. busy_step\<^sup>*\<^sup>* s t \<and> sy_pc t ! j = Sem_Leave)"
proof -
  let ?u = "set_pc i c (s\<lparr>sy_mu := None\<rparr>)"
  have b: "busy_step s ?u" by (rule busyI [OF i step]) (use pc in auto)
  obtain k where k: "k < length (sy_pc s)" "sy_pc s ! k = Sem_Sleep" using sl by (auto simp: in_set_conv_nth)
  then have "k \<noteq> i" using pc by auto
  then have "(sy_pc ?u) ! k = Sem_Sleep" using k by simp
  then have "Sem_Sleep \<in> set (sy_pc ?u)" using k(1) by (metis length_list_update nth_mem set_pc_simps(3) sem_step_length [OF step])
  then obtain j where j: "j < length (sy_pc ?u)" "sy_pc ?u ! j = Sem_Woken" "\<exists>t. busy_step\<^sup>*\<^sup>* ?u t \<and> sy_pc t ! j = Sem_Leave"
    using free_wins [OF sem_step_inv [OF inv i step]] n c i by (auto simp: own_permit_def)
  have "j \<noteq> i" using j(2) c i by auto
  then have "sy_pc s ! j = Sem_Woken" using j(2) by simp
  then have "waiting (sy_pc s ! j)" by simp
  then show ?thesis using j(1,3) b sem_step_length [OF step] converse_rtranclp_into_rtranclp [of busy_step, OF b] by auto
qed

lemma permit_taken:
  assumes inv: "sem_inv s" and n: "sy_count s \<noteq> 0" and sl: "Sem_Sleep \<in> set (sy_pc s)"
  shows "\<exists>j < length (sy_pc s). waiting (sy_pc s ! j) \<and> (\<exists>t. busy_step\<^sup>*\<^sup>* s t \<and> sy_pc t ! j = Sem_Leave)"
proof (cases "sy_mu s")
  case None
  then show ?thesis using free_wins [OF inv None n sl] by fastforce
next
  case (Some i)
  have i: "i < length (sy_pc s)" by (rule sem_invD(6) [OF inv Some])
  then have "in_mutex (sy_pc s ! i)" using sem_invD(3) [OF inv] Some by simp
  then consider "sy_pc s ! i = Sem_Check" | "sy_pc s ! i = Sem_Load From_Slow" | c where "sy_pc s ! i = Sem_Try From_Slow c"
    | "sy_pc s ! i = Sem_Leave" | b where "sy_pc s ! i = Rel_Add b" | "sy_pc s ! i = Rel_Notify" | "sy_pc s ! i = Rel_Unlock"
    by (cases "sy_pc s ! i") auto
  note cs = this
  obtain k where k: "k < length (sy_pc s)" "sy_pc s ! k = Sem_Sleep" using sl by (auto simp: in_set_conv_nth)
  from cs show ?thesis
  proof cases
    case 1
    then show ?thesis using checks_and_wins [OF i 1 n] i by fastforce
  next
    case 2
    then show ?thesis using loads_and_wins [OF i 2 n] i by fastforce
  next
    case (3 c)
    then show ?thesis using tries_and_wins [OF i 3 n] i by fastforce
  next
    case 4
    show ?thesis by (rule leave_wins [OF inv i se_leave [OF 4] _ _ _ n sl]) (simp_all add: 4)
  next
    case (5 b)
    then show ?thesis using release_wins [OF inv i 5 k] k by fastforce
  next
    case 6
    then show ?thesis using notify_wins [OF i 6 n sem_invD(8) [OF inv] k] k by fastforce
  next
    case 7
    show ?thesis by (rule leave_wins [OF inv i se_rel_unlock [OF 7] _ _ _ n sl]) (simp_all add: 7)
  qed
qed

section \<open>Properties\<close>

text \<open>An idle thread that releases with the counter at the limit fails the assertion, which poisons the mutex.\<close>

lemma release_at_limit:
  assumes i: "i < length (sy_pc s)" and pc: "sy_pc s ! i = Sem_Out" and mu: "sy_mu s = None" "\<not> sy_poisoned s"
    and full: "unat (sy_count s) = pa_limit (sy_sem s)"
  shows "\<exists>t. sem_run any_call s t \<and> sy_pc t ! i = Sem_Panic \<and> sy_poisoned t"
proof -
  let ?u = "set_pc i (Rel_Lock False) s"
  let ?v = "set_pc i (Rel_Add False) (?u\<lparr>sy_mu := Some i\<rparr>)"
  let ?t = "set_pc i Sem_Panic (set_count (sy_count ?v + 1) (?v\<lparr>sy_mu := None, sy_poisoned := True\<rparr>))"
  have "sem_run any_call s ?u" by (rule sr_more [OF sr_refl i se_release_unpaid [of s i]]) (use pc in \<open>simp_all add: any_call_def\<close>)
  then have "sem_run any_call s ?v"
    by (rule sr_more [of _ _ _ i, OF _ _ se_rel_lock [of ?u i False]]) (use i mu in \<open>simp_all add: any_call_def\<close>)
  then have "sem_run any_call s ?t"
    by (rule sr_more [of _ _ _ i, OF _ _ se_rel_panic [of ?v i False]]) (use i full in \<open>simp_all add: any_call_def\<close>)
  moreover have "sy_pc ?t ! i = Sem_Panic" "sy_poisoned ?t" using i by simp_all
  ultimately show ?thesis by blast
qed

text \<open>
  C18.  The admission semaphore, in every interleaving of threads that reserve and release.  As long as only
  permits that were granted are given back, by whichever thread, the counter and the permits held always add
  up to the limit, the assertion in \<open>release\<close> never fails and the mutex is never poisoned.  The code does not
  check that condition: a thread that releases while all permits are free fails the assertion, and the mutex is
  poisoned.  Whoever calls \<open>release\<close>, at most one thread is inside the mutex, the counter is at most the limit
  and nothing panics until that assertion fails.
\<close>

theorem admission_concurrent_safe:
  assumes "admission_new limit = Some a"
  shows "(sem_run own_permit (sem_start n a) s \<longrightarrow>
      unat (sy_count s) + number holds_permit s = limit \<and> Sem_Panic \<notin> set (sy_pc s) \<and> \<not> sy_poisoned s
      \<and> (\<forall>i < length (sy_pc s). sy_pc s ! i = Sem_Out \<and> number holds_permit s = 0 \<and> sy_mu s = None
           \<longrightarrow> (\<exists>t. sem_run any_call s t \<and> sy_pc t ! i = Sem_Panic \<and> sy_poisoned t)))
    \<and> (sem_run any_call (sem_start n a) s \<longrightarrow>
      (\<forall>i j. i < length (sy_pc s) \<and> j < length (sy_pc s) \<and> in_mutex (sy_pc s ! i) \<and> in_mutex (sy_pc s ! j) \<longrightarrow> i = j)
      \<and> (\<not> sy_poisoned s \<longrightarrow> unat (sy_count s) \<le> limit \<and> Sem_Panic \<notin> set (sy_pc s)))"
proof (intro conjI impI)
  note st = sem_start_inv [OF assms]
  have lim: "pa_limit (sy_sem (sem_start n a)) = limit" using st(2) by (simp add: sem_start_def)
  show "unat (sy_count s) + number holds_permit s = limit" "Sem_Panic \<notin> set (sy_pc s)" "\<not> sy_poisoned s"
    "\<forall>i < length (sy_pc s). sy_pc s ! i = Sem_Out \<and> number holds_permit s = 0 \<and> sy_mu s = None
       \<longrightarrow> (\<exists>t. sem_run any_call s t \<and> sy_pc t ! i = Sem_Panic \<and> sy_poisoned t)"
    if run: "sem_run own_permit (sem_start n a) s"
  proof -
    have inv: "sem_inv s" "pa_limit (sy_sem s) = limit" using sem_run_inv [OF run st(1)] lim by auto
    note I = sem_invD [OF inv(1)]
    show "unat (sy_count s) + number holds_permit s = limit" "Sem_Panic \<notin> set (sy_pc s)" "\<not> sy_poisoned s"
      using I(1,5,8) inv(2) by simp_all
    show "\<forall>i < length (sy_pc s). sy_pc s ! i = Sem_Out \<and> number holds_permit s = 0 \<and> sy_mu s = None
       \<longrightarrow> (\<exists>t. sem_run any_call s t \<and> sy_pc t ! i = Sem_Panic \<and> sy_poisoned t)"
      using I(1,8) release_at_limit [of _ s] by auto
  qed
  assume run: "sem_run any_call (sem_start n a) s"
  have inv: "sem_lock_inv s" "pa_limit (sy_sem s) = limit" using sem_run_lock [OF run st(3)] lim by auto
  note I = sem_lock_invD [OF inv(1)]
  have "i = j" if "i < length (sy_pc s)" "j < length (sy_pc s)" "in_mutex (sy_pc s ! i)" "in_mutex (sy_pc s ! j)" for i j
    using I(1) [OF that(1)] I(1) [OF that(2)] that(3,4) by simp
  then show "\<forall>i j. i < length (sy_pc s) \<and> j < length (sy_pc s) \<and> in_mutex (sy_pc s ! i) \<and> in_mutex (sy_pc s ! j) \<longrightarrow> i = j"
    by blast
  show "unat (sy_count s) \<le> limit" "Sem_Panic \<notin> set (sy_pc s)" if "\<not> sy_poisoned s"
    using I(4,5) inv(2) that by simp_all
qed

text \<open>
  C19.  No wake-up is lost, as long as only permits that were granted are given back: whenever a permit is free
  while threads sleep on the condition variable, the threads that are awake and in the middle of an operation
  can go on, without new calls and without a spurious wake-up, until one of those waiting has the permit.
\<close>

theorem admission_no_lost_wakeup:
  assumes "admission_new limit = Some a" and "sem_run own_permit (sem_start n a) s" and "Sem_Sleep \<in> set (sy_pc s)" and "0 < sy_count s"
  shows "\<exists>i t. i < length (sy_pc s) \<and> waiting (sy_pc s ! i) \<and> busy_step\<^sup>*\<^sup>* s t \<and> holds_permit (sy_pc t ! i)"
proof -
  have inv: "sem_inv s" using sem_run_inv [OF assms(2) sem_start_inv(1) [OF assms(1)]] by blast
  have "sy_count s \<noteq> 0" using assms(4) by auto
  from permit_taken [OF inv this assms(3)] show ?thesis by fastforce
qed

text \<open>Two threads and one permit: thread 0 takes it, thread 1 falls asleep, thread 0 gives it back.\<close>

definition demo_sem :: "u16 \<Rightarrow> nat option \<Rightarrow> sem_pc \<Rightarrow> sem_pc \<Rightarrow> sem_sys" where
  "demo_sem n m c d = \<lparr>sy_sem = \<lparr>pa_limit = 1, pa_count = n\<rparr>, sy_mu = m, sy_poisoned = False, sy_pc = [c, d]\<rparr>"

lemma demo_sem_simps [simp]:
  "sy_pc (demo_sem n m c d) = [c, d]" "sy_count (demo_sem n m c d) = n" "sy_mu (demo_sem n m c d) = m"
  "pa_limit (sy_sem (demo_sem n m c d)) = 1" "\<not> sy_poisoned (demo_sem n m c d)"
  "set_pc 0 x (demo_sem n m c d) = demo_sem n m x d" "set_pc (Suc 0) x (demo_sem n m c d) = demo_sem n m c x"
  "set_count k (demo_sem n m c d) = demo_sem k m c d" "demo_sem n m c d\<lparr>sy_mu := m'\<rparr> = demo_sem n m' c d"
  by (simp_all add: demo_sem_def set_pc_def set_count_def)

lemma demo_sem_step:
  assumes "sem_run own_permit s0 (demo_sem n m c d)" and "i < 2" and "sem_step i (demo_sem n m c d) t" and "sy_pc t ! i \<noteq> Rel_Lock False"
  shows "sem_run own_permit s0 t"
  by (rule sr_more [OF assms(1) _ assms(3)]) (use assms(2,4) in \<open>simp_all add: own_permit_def\<close>)

lemma demo_spin:
  assumes "sem_run own_permit s0 (demo_sem 0 m c (Sem_Load (From_Spin k)))"
  shows "sem_run own_permit s0 (demo_sem 0 m c (Sem_Load From_Fast))"
  using assms
proof (induction k)
  case 0
  have "sem_run own_permit s0 (demo_sem 0 m c (Sem_Try (From_Spin 0) 0))"
    using demo_sem_step [OF 0, of 1] se_load [of "demo_sem 0 m c (Sem_Load (From_Spin 0))" 1] by simp
  from demo_sem_step [OF this, of 1] se_empty [of "demo_sem 0 m c (Sem_Try (From_Spin 0) 0)" 1]
  show ?case by simp
next
  case (Suc k)
  have "sem_run own_permit s0 (demo_sem 0 m c (Sem_Try (From_Spin (Suc k)) 0))"
    using demo_sem_step [OF Suc.prems, of 1] se_load [of "demo_sem 0 m c (Sem_Load (From_Spin (Suc k)))" 1] by simp
  from demo_sem_step [OF this, of 1] se_empty [of "demo_sem 0 m c (Sem_Try (From_Spin (Suc k)) 0)" 1]
  have "sem_run own_permit s0 (demo_sem 0 m c (Sem_Load (From_Spin k)))" by simp
  then show ?case by (rule Suc.IH)
qed

lemma demo_asleep: "sem_run own_permit (demo_sem 1 None Sem_Out Sem_Out) (demo_sem 0 None Sem_Held Sem_Sleep)"
proof -
  let ?run = "sem_run own_permit (demo_sem 1 None Sem_Out Sem_Out)"
  have "?run (demo_sem 1 None (Sem_Load (From_Spin 199)) Sem_Out)"
    using demo_sem_step [OF sr_refl, of 0 1 None Sem_Out Sem_Out] se_call [of "demo_sem 1 None Sem_Out Sem_Out" 0] by simp
  then have "?run (demo_sem 1 None (Sem_Try (From_Spin 199) 1) Sem_Out)"
    using demo_sem_step [of _ _ _ _ _ 0] se_load [of "demo_sem 1 None (Sem_Load (From_Spin 199)) Sem_Out" 0] by simp
  then have "?run (demo_sem 0 None Sem_Held Sem_Out)"
    using demo_sem_step [of _ _ _ _ _ 0] se_win [of "demo_sem 1 None (Sem_Try (From_Spin 199) 1) Sem_Out" 0 "From_Spin 199" 1] by simp
  then have "?run (demo_sem 0 None Sem_Held (Sem_Load (From_Spin 199)))"
    using demo_sem_step [of _ _ _ _ _ 1] se_call [of "demo_sem 0 None Sem_Held Sem_Out" 1] by simp
  then have "?run (demo_sem 0 None Sem_Held (Sem_Load From_Fast))" by (rule demo_spin)
  then have "?run (demo_sem 0 None Sem_Held (Sem_Try From_Fast 0))"
    using demo_sem_step [of _ _ _ _ _ 1] se_load [of "demo_sem 0 None Sem_Held (Sem_Load From_Fast)" 1] by simp
  then have "?run (demo_sem 0 None Sem_Held Sem_Lock)"
    using demo_sem_step [of _ _ _ _ _ 1] se_empty [of "demo_sem 0 None Sem_Held (Sem_Try From_Fast 0)" 1] by simp
  then have "?run (demo_sem 0 (Some 1) Sem_Held Sem_Check)"
    using demo_sem_step [of _ _ _ _ _ 1] se_lock [of "demo_sem 0 None Sem_Held Sem_Lock" 1] by simp
  then show ?thesis
    using demo_sem_step [of _ _ _ _ _ 1] se_wait [of "demo_sem 0 (Some 1) Sem_Held Sem_Check" 1] by simp
qed

lemma demo_freed: "sem_run own_permit (demo_sem 1 None Sem_Out Sem_Out) (demo_sem 1 (Some 0) Rel_Notify Sem_Sleep)"
proof -
  let ?run = "sem_run own_permit (demo_sem 1 None Sem_Out Sem_Out)"
  have "?run (demo_sem 0 None (Rel_Lock True) Sem_Sleep)"
    using demo_sem_step [OF demo_asleep, of 0] se_release [of "demo_sem 0 None Sem_Held Sem_Sleep" 0] by simp
  then have "?run (demo_sem 0 (Some 0) (Rel_Add True) Sem_Sleep)"
    using demo_sem_step [of _ _ _ _ _ 0] se_rel_lock [of "demo_sem 0 None (Rel_Lock True) Sem_Sleep" 0] by simp
  then show ?thesis
    using demo_sem_step [of _ _ _ _ _ 0] se_rel_add [of "demo_sem 0 (Some 0) (Rel_Add True) Sem_Sleep" 0] by simp
qed

lemma demo_sem_start: "admission_new 1 = Some \<lparr>pa_limit = 1, pa_count = 1\<rparr>"
  "sem_start 2 \<lparr>pa_limit = 1, pa_count = 1\<rparr> = demo_sem 1 None Sem_Out Sem_Out"
  by (simp_all add: admission_new_def sem_start_def demo_sem_def numeral_2_eq_2)

theorem admission_concurrent_safe_witness:
  "sem_run own_permit (demo_sem 1 None Sem_Out Sem_Out) (demo_sem 0 None Sem_Held Sem_Sleep)
   \<and> unat (sy_count (demo_sem 0 None Sem_Held Sem_Sleep)) + number holds_permit (demo_sem 0 None Sem_Held Sem_Sleep) = 1
   \<and> (\<exists>t. sem_run any_call (demo_sem 1 None Sem_Out Sem_Out) t \<and> sy_pc t ! 0 = Sem_Panic)"
proof -
  have "number holds_permit (demo_sem 1 None Sem_Out Sem_Out) = 0" by (simp add: number_def)
  then have "\<exists>t. sem_run any_call (demo_sem 1 None Sem_Out Sem_Out) t \<and> sy_pc t ! 0 = Sem_Panic"
    using admission_concurrent_safe [OF demo_sem_start(1), of 2, unfolded demo_sem_start(2)] sr_refl by fastforce
  then show ?thesis
    using admission_concurrent_safe [OF demo_sem_start(1), of 2 "demo_sem 0 None Sem_Held Sem_Sleep"] demo_asleep
    unfolding demo_sem_start(2) by blast
qed

theorem admission_no_lost_wakeup_witness:
  "\<exists>i t. waiting (sy_pc (demo_sem 1 (Some 0) Rel_Notify Sem_Sleep) ! i)
    \<and> busy_step\<^sup>*\<^sup>* (demo_sem 1 (Some 0) Rel_Notify Sem_Sleep) t \<and> holds_permit (sy_pc t ! i)"
proof -
  have "Sem_Sleep \<in> set (sy_pc (demo_sem 1 (Some 0) Rel_Notify Sem_Sleep))" "0 < sy_count (demo_sem 1 (Some 0) Rel_Notify Sem_Sleep)"
    by simp_all
  from admission_no_lost_wakeup [OF demo_sem_start(1), of 2, unfolded demo_sem_start(2), OF demo_freed this] show ?thesis by blast
qed

end
