(* ===== verification/Pipeline_Conc.thy ===== *)
theory Pipeline_Conc
  imports Batch_Queue_Conc Write_Pipeline
begin

text \<open>
  The commit queue under the admission protocol of \<open>write_pipeline.rs\<close>: a writer takes a permit
  (\<open>reserve_space\<close>) before it enqueues and the permit is given back (\<open>release_queue_space\<close>) after its batch was dequeued.
  The steps of the queue are those of \<open>Batch_Queue\<close>, the permits are taken and returned atomically.  The order
  of the four calls is the protocol the documentation of the pipeline asks of its callers; the code has no
  function that makes them in this order, and \<open>release_queue_space\<close> is called in tests only.
\<close>

section \<open>Definitions\<close>

text \<open>\<open>pi_reserved\<close> counts the writers that hold a permit and have not begun to enqueue.\<close>

record pipe_sys =
  pi_queue :: queue_sys
  pi_sem :: pipeline_admission
  pi_reserved :: nat

definition dequeuing :: "queue_sys \<Rightarrow> nat \<Rightarrow> bool" where
  "dequeuing q i \<longleftrightarrow> (\<exists>k b. qs_cons q i = CClear k b) \<or> (\<exists>b. qs_cons q i = CGot b)"

text \<open>A run with the batches stored, the batches claimed and the number of permits returned.  In a serial
  run a consumer claims a batch only when no other one is between its claim and the return of the permit.\<close>

inductive pipe_run ::
  "bool \<Rightarrow> pipe_sys \<Rightarrow> (nat \<Rightarrow> bool) \<Rightarrow> nat list \<Rightarrow> (nat \<times> nat \<times> bool) list \<Rightarrow> nat \<Rightarrow> pipe_sys \<Rightarrow> bool" for serial s0 where
  pp_refl: "pipe_run serial s0 ap [] [] 0 s0"
| pp_apply: "pipe_run serial s0 ap es cs n s \<Longrightarrow> \<forall>b \<in> set (drop (length cs) es). ap b \<longrightarrow> ap' b \<Longrightarrow> pipe_run serial s0 ap' es cs n s"
| pp_reserve: "pipe_run serial s0 ap es cs n s \<Longrightarrow> try_acquire (pi_sem s) = (True, a) \<Longrightarrow>
     pipe_run serial s0 ap es cs n (s\<lparr>pi_sem := a, pi_reserved := pi_reserved s + 1\<rparr>)"
| pp_begin: "pipe_run serial s0 ap es cs n s \<Longrightarrow> 0 < pi_reserved s \<Longrightarrow> qs_prod (pi_queue s) = PIdle \<Longrightarrow>
     pipe_run serial s0 ap es cs n (s\<lparr>pi_queue := (pi_queue s)\<lparr>qs_prod := PStart b\<rparr>, pi_reserved := pi_reserved s - 1\<rparr>)"
| pp_queue: "pipe_run serial s0 ap es cs n s \<Longrightarrow> queue_step ap (pi_queue s) q \<Longrightarrow>
     \<forall>j. j \<noteq> i \<longrightarrow> qs_cons q j = qs_cons (pi_queue s) j \<Longrightarrow>
     qs_prod (pi_queue s) = PIdle \<longrightarrow> qs_prod q = PIdle \<Longrightarrow>
     \<forall>b. qs_cons (pi_queue s) i = CGot b \<longrightarrow> qs_cons q i = CGot b \<Longrightarrow>
     serial \<and> claimed ap i (pi_queue s) q \<noteq> [] \<longrightarrow> (\<forall>j. \<not> dequeuing (pi_queue s) j) \<Longrightarrow>
     pipe_run serial s0 ap (es @ stored (pi_queue s) q) (cs @ claimed ap i (pi_queue s) q) n (s\<lparr>pi_queue := q\<rparr>)"
| pp_release: "pipe_run serial s0 ap es cs n s \<Longrightarrow> qs_cons (pi_queue s) i = CGot b \<Longrightarrow> admission_release (pi_sem s) = Some a \<Longrightarrow>
     pipe_run serial s0 ap es cs (Suc n) (s\<lparr>pi_queue := set_cons i CIdle (pi_queue s), pi_sem := a\<rparr>)"

definition pipe_start :: "batch_queue \<Rightarrow> pipeline_admission \<Rightarrow> pipe_sys" where
  "pipe_start q a = \<lparr>pi_queue = queue_start q, pi_sem = a, pi_reserved = 0\<rparr>"

section \<open>Serial runs\<close>

definition storing :: "queue_sys \<Rightarrow> nat" where
  "storing q = (case qs_prod q of PStart _ \<Rightarrow> 1 | PSlot _ _ \<Rightarrow> 1 | _ \<Rightarrow> 0)"

text \<open>At most one consumer is dequeuing, and its slot is that of the last claim.\<close>

definition serial_ok :: "nat \<Rightarrow> nat \<Rightarrow> nat \<Rightarrow> queue_sys \<Rightarrow> bool" where
  "serial_ok N n c q \<longleftrightarrow> c = n \<and> (\<forall>j. \<not> dequeuing q j)
     \<or> c = Suc n \<and> (\<exists>i. dequeuing q i \<and> (\<forall>j. dequeuing q j \<longrightarrow> j = i) \<and> (\<forall>k. clearing q i k \<longrightarrow> k = n mod N))"

definition permits_ok :: "nat \<Rightarrow> nat list \<Rightarrow> nat \<Rightarrow> pipe_sys \<Rightarrow> bool" where
  "permits_ok N es n s \<longleftrightarrow> pa_limit (pi_sem s) = N
     \<and> unat (pa_count (pi_sem s)) + pi_reserved s + storing (pi_queue s) + length es = N + n"

lemma serial_ok_cases:
  assumes "serial_ok N n c q"
  obtains (idle) "c = n" "\<And>j. \<not> dequeuing q j"
  | (one) i where "c = Suc n" "dequeuing q i" "\<And>j. dequeuing q j \<Longrightarrow> j = i" "\<And>k. clearing q i k \<Longrightarrow> k = n mod N"
  using assms unfolding serial_ok_def by blast

lemma serial_ok_le: "serial_ok N n c q \<Longrightarrow> n \<le> c"
  unfolding serial_ok_def by (metis le_SucI order_refl)

lemma serial_ok_same:
  assumes "serial_ok N n c q" and "\<And>j. dequeuing q' j = dequeuing q j" and "\<And>j k. clearing q' j k \<Longrightarrow> clearing q j k"
  shows "serial_ok N n c q'"
proof -
  have "dequeuing q' = dequeuing q" using assms(2) by blast
  then show ?thesis using assms(1,3) unfolding serial_ok_def by metis
qed

lemma clearing_dequeuing: "clearing q i k \<Longrightarrow> dequeuing q i"
  by (auto simp: clearing_def dequeuing_def)

lemma serial_ok_cons:
  assumes "serial_ok N n c q" and "\<not> dequeuing q i" and "\<nexists>k b. x = CClear k b" "\<nexists>b. x = CGot b"
  shows "serial_ok N n c (set_cons i x q)"
  by (rule serial_ok_same [OF assms(1)]) (use assms(2-4) in \<open>auto simp: dequeuing_def clearing_def set_cons_def split: if_splits\<close>)

lemma serial_ok_prod: "serial_ok N n c (q\<lparr>qs_prod := x\<rparr>) = serial_ok N n c q" "serial_ok N n c (q\<lparr>qs_queue := y\<rparr>) = serial_ok N n c q"
  "serial_ok N n c (q\<lparr>qs_prod := x, qs_queue := y\<rparr>) = serial_ok N n c q"
  by (simp_all add: serial_ok_def dequeuing_def clearing_def)

text \<open>With the permits accounted for and serial dequeues the slot of the head is free.\<close>

lemma serial_head_slot:
  assumes ok: "sys_ok ap es cs q" and N: "bq_size (qs_queue q) = N" and pc: "qs_prod q = PSlot b h"
    and ser: "serial_ok N n (length cs) q" and room: "length es < N + n"
  shows "head_slot q = None"
proof (rule ccontr)
  assume non: "head_slot q \<noteq> None"
  note I = ring_invD [of ap es cs q]
  have inv: "ring_inv ap es cs q" and pow: "\<exists>m \<le> 10. N = 2 ^ m" using ok N by auto
  have H: "published q es = length es" using pc by (simp add: published_def)
  have "slot_index N (of_nat (length es)) = length es mod N" by (rule slot_index_packed [OF pow]) (use ok in simp)
  then have slot: "bq_slots (qs_queue q) ! (length es mod N) \<noteq> None"
    using non I(1) [OF inv] H N by (simp add: head_slot_def)
  have pos: "length es mod N < N" using pow by auto
  have nc: "n \<le> length cs" by (rule serial_ok_le [OF ser])
  from I(6) [OF inv _ slot] N pos
  consider p where "length cs \<le> p" "p < length es" "p mod N = length es mod N" | i where "clearing q i (length es mod N)" by auto
  then show False
  proof cases
    case (1 p)
    then show False using mod_apart [of p "length es" N] room nc by simp
  next
    case (2 i)
    from ser have "length cs = Suc n \<and> length es mod N = n mod N"
    proof (cases rule: serial_ok_cases)
      case idle
      then show ?thesis using clearing_dequeuing [OF 2] by blast
    next
      case (one j)
      then show ?thesis using clearing_dequeuing [OF 2] 2 by blast
    qed
    then show False using mod_apart [of n "length es" N] room I(2) [OF inv] H by simp
  qed
qed

lemma stored_set_cons:
  "stored q (set_cons j x q) = []" "storing (set_cons j x q) = storing q" "qs_prod (set_cons j x q) = qs_prod q"
  by (simp_all add: stored_def storing_def set_cons_def split: prod_pc.splits)

lemma claimed_none: "(\<nexists>k b. qs_cons q' i = CClear k b) \<or> qs_cons q' i = qs_cons q i \<Longrightarrow> claimed ap i q q' = []"
  by (auto simp: claimed_def split: cons_pc.splits)

lemma pipe_queue_step:
  assumes ok: "sys_ok ap es cs q" and N: "bq_size (qs_queue q) = N" and step: "queue_step ap q q'"
    and only: "\<forall>j. j \<noteq> i \<longrightarrow> qs_cons q' j = qs_cons q j"
    and idle: "qs_prod q = PIdle \<longrightarrow> qs_prod q' = PIdle" and got: "\<forall>b. qs_cons q i = CGot b \<longrightarrow> qs_cons q' i = CGot b"
    and serial: "claimed ap i q q' \<noteq> [] \<longrightarrow> (\<forall>j. \<not> dequeuing q j)" and sok: "serial_ok N n (length cs) q"
    and room: "storing q + length es \<le> N + n" and np: "qs_prod q \<noteq> PPanic"
  shows "serial_ok N n (length cs + length (claimed ap i q q')) q' \<and> storing q' + length (stored q q') = storing q
    \<and> qs_prod q' \<noteq> PPanic \<and> (stored q q' \<noteq> [] \<longrightarrow> head_slot q = None)"
proof -
  have inv: "ring_inv ap es cs q" and pow: "\<exists>m \<le> 10. N = 2 ^ m" using ok N by auto
  note I = ring_invD [OF inv]
  have local_step: ?thesis if t: "q' = set_cons j x q" and old: "\<not> dequeuing q j" and new: "\<nexists>k b. x = CClear k b" "\<nexists>b. x = CGot b" for j x
  proof -
    have "claimed ap i q q' = []" using new(1) by (intro claimed_none) (auto simp: t set_cons_def)
    then show ?thesis using serial_ok_cons [OF sok old new] np by (simp add: t stored_set_cons)
  qed
  have prod_step: ?thesis if "claimed ap i q q' = []" "serial_ok N n (length cs) q'" "storing q' = storing q" "stored q q' = []" "qs_prod q' \<noteq> PPanic"
    using that by simp
  from step show ?thesis
  proof cases
    case (prod_begin b)
    then show ?thesis using idle by simp
  next
    case (prod_full b head tail)
    have "published q es = length es" using prod_full(2) by (simp add: published_def)
    then have "length es = length cs + N" using packed_full [OF ok prod_full(3)] prod_full(4) N by simp
    moreover have "Suc (length es) \<le> N + n" using room prod_full(2) by (simp add: storing_def)
    ultimately show ?thesis using serial_ok_le [OF sok] by simp
  next
    case (prod_room b head tail)
    show ?thesis
      by (rule prod_step) (simp_all add: prod_room(1,2) claimed_none serial_ok_prod sok storing_def stored_def)
  next
    case (prod_store b head)
    have "length es < N + n" using room prod_store(2) by (simp add: storing_def)
    then have "head_slot q = None" by (rule serial_head_slot [OF ok N prod_store(2) sok])
    moreover have "claimed ap i q q' = []" by (rule claimed_none) (simp add: prod_store(1))
    ultimately show ?thesis using sok by (simp add: prod_store(1,2) serial_ok_prod storing_def stored_def)
  next
    case prod_publish
    show ?thesis
      by (rule prod_step) (simp_all add: prod_publish claimed_none serial_ok_prod sok storing_def stored_def)
  next
    case (cons_load j)
    then show ?thesis by (intro local_step) (auto simp: dequeuing_def)
  next
    case (cons_empty j ht h)
    then show ?thesis by (intro local_step) (auto simp: dequeuing_def)
  next
    case (cons_not_ready j ht head tail)
    then show ?thesis by (intro local_step [of j CNone]) (auto simp: dequeuing_def)
  next
    case (cons_ready j ht head tail b)
    then show ?thesis by (intro local_step) (auto simp: dequeuing_def)
  next
    case (cons_cas_ok j ht b head tail)
    have ji: "j = i"
    proof (rule ccontr)
      assume "j \<noteq> i"
      then have "qs_cons q' j = qs_cons q j" using only by simp
      then show False using cons_cas_ok(1,2) by (simp add: set_cons_def)
    qed
    have cl: "claimed ap i q q' = [(i, b, ap b)]" using cons_cas_ok(1,2) ji by (simp add: claimed_def set_cons_def)
    then have none: "\<And>j. \<not> dequeuing q j" using serial by simp
    from sok have n: "length cs = n" by (cases rule: serial_ok_cases) (use none in blast)+
    have "tail = of_nat (length cs)" using cons_cas_ok(3,4) I(1) by auto
    then have k: "slot_index N tail = n mod N"
      using slot_index_packed [OF pow, of n] n I(2) published_le [of q es] ok by simp
    have deq: "dequeuing q' l \<longleftrightarrow> l = i" for l
      using none [of l] by (auto simp: cons_cas_ok(1) ji dequeuing_def set_cons_def)
    have "x = n mod N" if "clearing q' i x" for x
      using that k N by (simp add: cons_cas_ok(1) ji clearing_def set_cons_def)
    then have "serial_ok N n (Suc n) q'" unfolding serial_ok_def using deq by blast
    moreover have "stored q q' = []" "storing q' = storing q" "qs_prod q' = qs_prod q"
      by (simp_all add: cons_cas_ok(1) stored_def storing_def set_cons_def split: prod_pc.splits)
    ultimately show ?thesis using cl n np by simp
  next
    case (cons_cas_fail j ht b)
    then show ?thesis by (intro local_step) (auto simp: dequeuing_def)
  next
    case (cons_clear j k b)
    have "serial_ok N n (length cs) q'"
      by (rule serial_ok_same [OF sok]) (use cons_clear in \<open>auto simp: dequeuing_def clearing_def set_cons_def split: if_splits\<close>)
    moreover have "claimed ap i q q' = []"
      by (rule claimed_none) (simp add: cons_clear(1) set_cons_def)
    moreover have "stored q q' = []" "storing q' = storing q" "qs_prod q' = qs_prod q"
      by (simp_all add: cons_clear(1) stored_def storing_def set_cons_def split: prod_pc.splits)
    ultimately show ?thesis using np by simp
  next
    case (cons_again j b)
    have "qs_cons q j \<noteq> CGot c" for c
    proof
      assume c: "qs_cons q j = CGot c"
      have "j = i" using only c cons_again(1) by (auto simp: set_cons_def)
      then show False using got c cons_again(1) by (simp add: set_cons_def)
    qed
    then have "qs_cons q j = CNone" using cons_again(2) by blast
    then show ?thesis using cons_again(1) by (intro local_step) (auto simp: dequeuing_def)
  qed
qed

text \<open>A serial run is a run of the queue in which the producer finds its slot free.\<close>

definition pipe_inv :: "nat \<Rightarrow> nat list \<Rightarrow> (nat \<times> nat \<times> bool) list \<Rightarrow> nat \<Rightarrow> pipe_sys \<Rightarrow> bool" where
  "pipe_inv N es cs n s \<longleftrightarrow> permits_ok N es n s \<and> serial_ok N n (length cs) (pi_queue s) \<and> qs_prod (pi_queue s) \<noteq> PPanic"

lemma queue_run_quiet:
  assumes "queue_run s0 ap es cs q" and "queue_step ap q q'" and "\<forall>j. j \<noteq> i \<longrightarrow> qs_cons q' j = qs_cons q j"
    and "stored q q' = []" and "claimed ap i q q' = []"
  shows "queue_run s0 ap es cs q'"
  using qr_step [OF assms(1-3)] assms(4,5) by simp

lemma pipe_inv_reserve:
  assumes inv: "pipe_inv N es cs n s" and acq: "try_acquire (pi_sem s) = (True, a)"
  shows "pipe_inv N es cs n (s\<lparr>pi_sem := a, pi_reserved := pi_reserved s + 1\<rparr>)"
proof -
  have "pa_count (pi_sem s) \<noteq> 0" "a = (pi_sem s)\<lparr>pa_count := pa_count (pi_sem s) - 1\<rparr>"
    using acq by (auto simp: try_acquire_def split: if_splits)
  moreover from this have "unat (pa_count (pi_sem s) - 1) + 1 = unat (pa_count (pi_sem s))"
    using unat_u16_minus_one by (simp add: unat_gt_0)
  ultimately show ?thesis using inv by (simp add: pipe_inv_def permits_ok_def)
qed

lemma pipe_inv_begin:
  assumes "pipe_inv N es cs n s" and "0 < pi_reserved s" and "qs_prod (pi_queue s) = PIdle"
  shows "pipe_inv N es cs n (s\<lparr>pi_queue := (pi_queue s)\<lparr>qs_prod := PStart b\<rparr>, pi_reserved := pi_reserved s - 1\<rparr>)"
  using assms by (simp add: pipe_inv_def permits_ok_def serial_ok_prod storing_def)

lemma permit_returnable:
  assumes inv: "pipe_inv N es cs n s" and c: "qs_cons (pi_queue s) i = CGot b" and T: "length cs \<le> length es"
  shows "unat (pa_count (pi_sem s)) < N" and "length cs = Suc n" and "dequeuing (pi_queue s) j \<Longrightarrow> j = i"
proof -
  have d: "dequeuing (pi_queue s) i" using c by (simp add: dequeuing_def)
  have "serial_ok N n (length cs) (pi_queue s)" using inv by (simp add: pipe_inv_def)
  then show l: "length cs = Suc n" and "dequeuing (pi_queue s) j \<Longrightarrow> j = i"
    by (cases rule: serial_ok_cases; use d in blast)+
  show "unat (pa_count (pi_sem s)) < N" using inv l T by (simp add: pipe_inv_def permits_ok_def)
qed

lemma pipe_inv_release:
  assumes inv: "pipe_inv N es cs n s" and c: "qs_cons (pi_queue s) i = CGot b" and T: "length cs \<le> length es" and N: "N \<le> 1024"
    and rel: "admission_release (pi_sem s) = Some a"
  shows "pipe_inv N es cs (Suc n) (s\<lparr>pi_queue := set_cons i CIdle (pi_queue s), pi_sem := a\<rparr>)"
proof -
  note p = permit_returnable [OF inv c T]
  have a: "a = (pi_sem s)\<lparr>pa_count := pa_count (pi_sem s) + 1\<rparr>" using rel by (auto simp: admission_release_def Let_def split: if_splits bind_splits)
  have "unat (pa_count (pi_sem s) + 1) = unat (pa_count (pi_sem s)) + 1" using p(1) N by (simp add: unat_word_ariths)
  then have "permits_ok N es (Suc n) (s\<lparr>pi_queue := set_cons i CIdle (pi_queue s), pi_sem := a\<rparr>)"
    using inv by (simp add: pipe_inv_def permits_ok_def a stored_set_cons)
  moreover have "\<not> dequeuing (set_cons i CIdle (pi_queue s)) j" for j
    using p(3) [of j] by (cases "j = i") (auto simp: dequeuing_def set_cons_def)
  ultimately show ?thesis using inv p(2) by (simp add: pipe_inv_def serial_ok_def stored_set_cons)
qed

lemma pipe_run_inv:
  assumes "pipe_run True (pipe_start q a) ap es cs n s" and "batch_queue_new N = Some q" and "admission_new N = Some a"
    and "length es < 2 ^ 32"
  shows "queue_run (queue_start q) ap es cs (pi_queue s) \<and> pipe_inv N es cs n s"
  using assms
proof (induction rule: pipe_run.induct)
  case (pp_refl ap)
  have "N \<le> 1024" using queue_start_inv(2) [OF pp_refl(1)] queue_size_bound by blast
  then have "unat (of_nat N :: u16) = N" by (simp add: unat_of_nat)
  moreover have "\<not> dequeuing (queue_start q) j" for j by (simp add: dequeuing_def queue_start_def)
  ultimately show ?case
    using pp_refl qr_refl [of "queue_start q" ap]
    by (auto simp: pipe_start_def pipe_inv_def permits_ok_def serial_ok_def storing_def admission_new_def queue_start_def split: if_splits)
next
  case (pp_apply ap es cs n s ap')
  then show ?case using qr_apply by blast
next
  case (pp_reserve ap es cs n s a')
  then show ?case using pipe_inv_reserve by simp
next
  case (pp_begin ap es cs n s b)
  then have IH: "queue_run (queue_start q) ap es cs (pi_queue s)" "pipe_inv N es cs n s" by blast+
  have "queue_run (queue_start q) ap es cs ((pi_queue s)\<lparr>qs_prod := PStart b\<rparr>)"
    by (rule queue_run_quiet [OF IH(1) prod_begin [OF pp_begin.hyps(3)], of 0])
      (use pp_begin.hyps(3) in \<open>simp_all add: stored_def claimed_none\<close>)
  then show ?case using pipe_inv_begin [OF IH(2) pp_begin.hyps(2,3)] by simp
next
  case (pp_queue ap es cs n s q' i)
  have small: "length es < 2 ^ 32" using pp_queue.prems(3) by simp
  then have IH: "queue_run (queue_start q) ap es cs (pi_queue s)" "pipe_inv N es cs n s" using pp_queue.IH pp_queue.prems by blast+
  have ok: "sys_ok ap es cs (pi_queue s)" "bq_size (qs_queue (pi_queue s)) = N"
    using queue_run_inv [OF IH(1) pp_queue.prems(1) small] by blast+
  have p: "serial_ok N n (length cs) (pi_queue s)" "storing (pi_queue s) + length es \<le> N + n" "qs_prod (pi_queue s) \<noteq> PPanic"
    using IH(2) by (simp_all add: pipe_inv_def permits_ok_def)
  have st: "serial_ok N n (length cs + length (claimed ap i (pi_queue s) q')) q'"
    "storing q' + length (stored (pi_queue s) q') = storing (pi_queue s)" "qs_prod q' \<noteq> PPanic"
    "stored (pi_queue s) q' \<noteq> [] \<longrightarrow> head_slot (pi_queue s) = None"
    using pipe_queue_step [OF ok pp_queue.hyps(2-5) _ p] pp_queue.hyps(6) by blast+
  show ?case
    using qr_step [OF IH(1) pp_queue.hyps(2,3) st(4)] st(1-3) IH(2) by (simp add: pipe_inv_def permits_ok_def)
next
  case (pp_release ap es cs n s i b a')
  then have IH: "queue_run (queue_start q) ap es cs (pi_queue s)" "pipe_inv N es cs n s" by blast+
  have N: "N \<le> 1024" using queue_start_inv(2) [OF pp_release.prems(1)] queue_size_bound by blast
  have "ring_inv ap es cs (pi_queue s)" using queue_run_inv [OF IH(1) pp_release.prems(1,3)] by blast
  then have T: "length cs \<le> length es" using ring_invD(2) published_le order_trans by blast
  have "queue_run (queue_start q) ap es cs (set_cons i CIdle (pi_queue s))"
    by (rule queue_run_quiet [OF IH(1) cons_again, of i b i])
      (use pp_release.hyps(2) in \<open>auto simp: stored_def set_cons_def split: prod_pc.splits intro!: claimed_none\<close>)
  then show ?case using pipe_inv_release [OF IH(2) pp_release.hyps(2) T N pp_release.hyps(3)] by simp
qed

section \<open>Properties\<close>

text \<open>
  C20.  The commit queue and the admission semaphore together: when every enqueue is under a permit, every
  permit is returned after the dequeue, and a consumer claims only when no other one is between its claim
  and the return of the permit, then in every interleaving the producer finds the slot of the head null,
  the queue is never full and the semaphore never overflows when a permit is returned, so nothing panics; batches leave in
  order, each once and only when applied; and permits, reserving writers and batches not yet
  returned always add up to the capacity.
\<close>

theorem pipeline_serial_dequeue:
  assumes "batch_queue_new N = Some q" and "admission_new N = Some a"
    and "pipe_run True (pipe_start q a) ap es cs n s" and "length es < 2 ^ 32"
  shows "map (\<lambda>(i, b, a). b) cs = take (length cs) es \<and> (\<forall>(i, b, a) \<in> set cs. a)
    \<and> qs_prod (pi_queue s) \<noteq> PPanic \<and> (\<forall>b h. qs_prod (pi_queue s) = PSlot b h \<longrightarrow> head_slot (pi_queue s) = None)
    \<and> (\<forall>i b. qs_cons (pi_queue s) i = CGot b \<longrightarrow> (\<exists>a'. admission_release (pi_sem s) = Some a'))
    \<and> unat (pa_count (pi_sem s)) + pi_reserved s + storing (pi_queue s) + (length es - n) = N"
proof -
  have run: "queue_run (queue_start q) ap es cs (pi_queue s)" and inv: "pipe_inv N es cs n s"
    using pipe_run_inv [OF assms(3,1,2,4)] by blast+
  have ok: "sys_ok ap es cs (pi_queue s)" "bq_size (qs_queue (pi_queue s)) = N" using queue_run_inv [OF run assms(1,4)] by blast+
  then have ring: "ring_inv ap es cs (pi_queue s)" by blast
  note I = ring_invD [OF ring]
  have T: "length cs \<le> length es" using I(2) published_le order_trans by blast
  have p: "permits_ok N es n s" "serial_ok N n (length cs) (pi_queue s)" "qs_prod (pi_queue s) \<noteq> PPanic"
    using inv by (simp_all add: pipe_inv_def)
  have "head_slot (pi_queue s) = None" if "qs_prod (pi_queue s) = PSlot b h" for b h
    by (rule serial_head_slot [OF ok that p(2)]) (use p(1) that in \<open>simp add: permits_ok_def storing_def\<close>)
  moreover have "\<exists>a'. admission_release (pi_sem s) = Some a'" if "qs_cons (pi_queue s) i = CGot b" for i b
    using permit_returnable(1) [OF inv that T] p(1) by (simp add: admission_release_def permits_ok_def Let_def)
  moreover have "unat (pa_count (pi_sem s)) + pi_reserved s + storing (pi_queue s) + (length es - n) = N"
    using p(1) serial_ok_le [OF p(2)] T by (simp add: permits_ok_def)
  ultimately show ?thesis using I(9,10) p(3) by blast
qed

section \<open>Dequeues that overlap\<close>

definition pipe_state ::
  "u32 \<Rightarrow> u32 \<Rightarrow> nat option \<Rightarrow> nat option \<Rightarrow> prod_pc \<Rightarrow> cons_pc \<Rightarrow> cons_pc \<Rightarrow> u16 \<Rightarrow> nat \<Rightarrow> pipe_sys" where
  "pipe_state h t x y p c d m r = \<lparr>pi_queue = \<lparr>qs_queue = \<lparr>bq_head_tail = head_tail_pack h t, bq_slots = [x, y]\<rparr>,
     qs_prod = p, qs_cons = (\<lambda>_. CIdle)(0 := c, 1 := d)\<rparr>, pi_sem = \<lparr>pa_limit = 2, pa_count = m\<rparr>, pi_reserved = r\<rparr>"

abbreviation all_applied :: "nat \<Rightarrow> bool" where
  "all_applied \<equiv> \<lambda>_. True"

lemma pipe_state_queue [simp]:
  "qs_prod (pi_queue (pipe_state h t x y p c d m r)) = p" "pi_sem (pipe_state h t x y p c d m r) = \<lparr>pa_limit = 2, pa_count = m\<rparr>"
  "pi_reserved (pipe_state h t x y p c d m r) = r"
  "bq_head_tail (qs_queue (pi_queue (pipe_state h t x y p c d m r))) = head_tail_pack h t"
  "bq_slots (qs_queue (pi_queue (pipe_state h t x y p c d m r))) = [x, y]"
  "bq_size (qs_queue (pi_queue (pipe_state h t x y p c d m r))) = 2"
  "qs_cons (pi_queue (pipe_state h t x y p c d m r)) 0 = c" "qs_cons (pi_queue (pipe_state h t x y p c d m r)) (Suc 0) = d"
  by (simp_all add: pipe_state_def)

lemma slot_index_two: "slot_index 2 0 = 0" "slot_index 2 1 = 1" "slot_index 2 2 = 0"
  by (simp_all add: slot_index_def)

lemma pipe_two_new:
  "batch_queue_new 2 = Some \<lparr>bq_head_tail = 0, bq_slots = [None, None]\<rparr>" "admission_new 2 = Some \<lparr>pa_limit = 2, pa_count = 2\<rparr>"
proof -
  have "is_power_of_two 2" unfolding is_power_of_two_def by (rule bexI [of _ 1]) simp_all
  then show "batch_queue_new 2 = Some \<lparr>bq_head_tail = 0, bq_slots = [None, None]\<rparr>"
    by (simp add: batch_queue_new_def numeral_2_eq_2)
qed (simp add: admission_new_def)

lemma pipe_two_start:
  "pipe_start \<lparr>bq_head_tail = 0, bq_slots = [None, None]\<rparr> \<lparr>pa_limit = 2, pa_count = 2\<rparr> = pipe_state 0 0 None None PIdle CIdle CIdle 2 0"
  by (simp add: pipe_start_def queue_start_def pipe_state_def head_tail_zero fun_eq_iff)

lemma pipe_move:
  assumes run: "pipe_run ser s0 all_applied es cs n (pipe_state h t x y p c d m r)"
    and step: "queue_step all_applied (pi_queue (pipe_state h t x y p c d m r)) (pi_queue (pipe_state h' t' x' y' p' c' d' m r))"
    and "i = 0 \<and> d' = d \<or> i = Suc 0 \<and> c' = c" and "p = PIdle \<longrightarrow> p' = PIdle"
    and "\<forall>b. c = CGot b \<longrightarrow> c' = c" "\<forall>b. d = CGot b \<longrightarrow> d' = d"
    and "\<not> ser \<or> (\<nexists>k b. c' = CClear k b) \<and> (\<nexists>k b. d' = CClear k b)"
    and "es' = es @ (case p of PSlot b h \<Rightarrow> if p' = PPublish then [b] else [] | _ \<Rightarrow> [])"
    and "cs' = cs @ (case (if i = 0 then (c, c') else (d, d')) of (CCas ht b, CClear k b') \<Rightarrow> [(i, b, True)] | _ \<Rightarrow> [])"
  shows "pipe_run ser s0 all_applied es' cs' n (pipe_state h' t' x' y' p' c' d' m r)"
proof -
  let ?s = "pipe_state h t x y p c d m r" and ?t = "pipe_state h' t' x' y' p' c' d' m r"
  have st: "stored (pi_queue ?s) (pi_queue ?t) = (case p of PSlot b h \<Rightarrow> if p' = PPublish then [b] else [] | _ \<Rightarrow> [])"
    by (cases p) (simp_all add: stored_def)
  have cl: "claimed all_applied i (pi_queue ?s) (pi_queue ?t)
      = (case (if i = 0 then (c, c') else (d, d')) of (CCas ht b, CClear k b') \<Rightarrow> [(i, b, True)] | _ \<Rightarrow> [])"
    using assms(3) by (elim disjE conjE) (simp_all add: claimed_def cong: cons_pc.case_cong)
  have ser: "ser \<and> claimed all_applied i (pi_queue ?s) (pi_queue ?t) \<noteq> [] \<longrightarrow> (\<forall>j. \<not> dequeuing (pi_queue ?s) j)"
    unfolding cl using assms(7) by (cases "i = 0"; simp split: cons_pc.split; blast)
  have eq: "?s\<lparr>pi_queue := pi_queue ?t\<rparr> = ?t" by (simp add: pipe_state_def)
  have "pipe_run ser s0 all_applied (es @ stored (pi_queue ?s) (pi_queue ?t)) (cs @ claimed all_applied i (pi_queue ?s) (pi_queue ?t)) n
      (?s\<lparr>pi_queue := pi_queue ?t\<rparr>)"
  proof (rule pp_queue [OF run step _ _ _ ser])
    show "\<forall>j. j \<noteq> i \<longrightarrow> qs_cons (pi_queue ?t) j = qs_cons (pi_queue ?s) j" using assms(3) by (auto simp: pipe_state_def)
    show "\<forall>b. qs_cons (pi_queue ?s) i = CGot b \<longrightarrow> qs_cons (pi_queue ?t) i = CGot b" using assms(3,5,6) by auto
    show "qs_prod (pi_queue ?s) = PIdle \<longrightarrow> qs_prod (pi_queue ?t) = PIdle" using assms(4) by simp
  qed
  then show ?thesis unfolding st cl eq assms(8,9) .
qed

lemma pipe_enqueue:
  assumes run: "pipe_run ser s0 all_applied es cs n (pipe_state h t x y PIdle c d m 0)" and m: "m \<noteq> 0"
    and room: "t + 2 \<noteq> h" and slots: "[x, y][slot_index 2 h := Some b] = [x', y']"
    and ser: "\<not> ser \<or> (\<nexists>k b. c = CClear k b) \<and> (\<nexists>k b. d = CClear k b)"
  shows "pipe_run ser s0 all_applied (es @ [b]) cs n (pipe_state (h + 1) t x' y' PIdle c d (m - 1) 0)"
proof -
  have none: "(case (c, c) of (CCas ht b, CClear k b') \<Rightarrow> [(0, b, True)] | _ \<Rightarrow> []) = []" by (cases c) simp_all
  note mv = pipe_move [where i = 0 and c = c and c' = c and d = d and d' = d, OF _ _ _ _ _ _ ser]
  have "pipe_run ser s0 all_applied es cs n (pipe_state h t x y PIdle c d (m - 1) 1)"
    using pp_reserve [OF run, of "\<lparr>pa_limit = 2, pa_count = m - 1\<rparr>"] m by (simp add: try_acquire_def pipe_state_def)
  from pp_begin [OF this, of b] have r1: "pipe_run ser s0 all_applied es cs n (pipe_state h t x y (PStart b) c d (m - 1) 0)"
    by (simp add: pipe_state_def)
  have "pipe_run ser s0 all_applied es cs n (pipe_state h t x y (PSlot b h) c d (m - 1) 0)"
    by (rule mv [OF r1]) (use prod_room [of "pi_queue (pipe_state h t x y (PStart b) c d (m - 1) 0)" b h t all_applied] room none in
      \<open>simp_all add: pipe_state_def\<close>)
  moreover have slots': "[x, y][slot_index (Suc (Suc 0)) h := Some b] = [x', y']" using slots by (simp only: numeral_2_eq_2)
  have "queue_step all_applied (pi_queue (pipe_state h t x y (PSlot b h) c d (m - 1) 0)) (pi_queue (pipe_state h t x' y' PPublish c d (m - 1) 0))"
    using prod_store [of "pi_queue (pipe_state h t x y (PSlot b h) c d (m - 1) 0)" b h all_applied]
    by (simp add: pipe_state_def slots' del: list_update.simps)
  ultimately have r2: "pipe_run ser s0 all_applied (es @ [b]) cs n (pipe_state h t x' y' PPublish c d (m - 1) 0)"
    by (rule mv) (use none in simp_all)
  show ?thesis
    by (rule mv [OF r2]) (use prod_publish [of "pi_queue (pipe_state h t x' y' PPublish c d (m - 1) 0)" all_applied] none in
      \<open>simp_all add: pipe_state_def head_tail_pack_advance del: push_bit_of_1\<close>)
qed

lemma pipe_claim:
  assumes run: "pipe_run False s0 all_applied es cs n (pipe_state h t x y PIdle CIdle d m r)"
    and t: "t \<noteq> h" and slot: "[x, y] ! slot_index 2 t = Some b"
  shows "pipe_run False s0 all_applied es (cs @ [(0, b, True)]) n (pipe_state h (t + 1) x y PIdle (CClear (slot_index 2 t) b) d m r)"
proof -
  let ?w = "head_tail_pack h t"
  note mv = pipe_move [where i = 0 and ser = False and p = PIdle and p' = PIdle and d = d and d' = d and es' = es]
  have slot': "[x, y] ! slot_index (Suc (Suc 0)) t = Some b" using slot by (simp only: numeral_2_eq_2)
  have "pipe_run False s0 all_applied es cs n (pipe_state h t x y PIdle (CLoop ?w) d m r)"
    by (rule mv [OF run]) (use cons_load [of "pi_queue (pipe_state h t x y PIdle CIdle d m r)" 0 all_applied] in
      \<open>simp_all add: pipe_state_def set_cons_def fun_upd_twist\<close>)
  then have r2: "pipe_run False s0 all_applied es cs n (pipe_state h t x y PIdle (CCas ?w b) d m r)"
    by (rule mv) (use cons_ready [of "pi_queue (pipe_state h t x y PIdle (CLoop ?w) d m r)" 0 ?w h t b all_applied] t slot' in
      \<open>simp_all add: pipe_state_def set_cons_def fun_upd_twist\<close>)
  show ?thesis
    by (rule mv [OF r2]) (use cons_cas_ok [of "pi_queue (pipe_state h t x y PIdle (CCas ?w b) d m r)" 0 ?w b h t all_applied] in
      \<open>simp_all add: pipe_state_def set_cons_def fun_upd_twist numeral_2_eq_2\<close>)
qed

lemma pipe_claim_other:
  assumes run: "pipe_run False s0 all_applied es cs n (pipe_state h t x y PIdle c CIdle m r)"
    and t: "t \<noteq> h" and slot: "[x, y] ! slot_index 2 t = Some b"
  shows "pipe_run False s0 all_applied es (cs @ [(Suc 0, b, True)]) n (pipe_state h (t + 1) x y PIdle c (CClear (slot_index 2 t) b) m r)"
proof -
  let ?w = "head_tail_pack h t"
  note mv = pipe_move [where i = "Suc 0" and ser = False and p = PIdle and p' = PIdle and c = c and c' = c and es' = es]
  have slot': "[x, y] ! slot_index (Suc (Suc 0)) t = Some b" using slot by (simp only: numeral_2_eq_2)
  have "pipe_run False s0 all_applied es cs n (pipe_state h t x y PIdle c (CLoop ?w) m r)"
    by (rule mv [OF run]) (use cons_load [of "pi_queue (pipe_state h t x y PIdle c CIdle m r)" "Suc 0" all_applied] in
      \<open>simp_all add: pipe_state_def set_cons_def fun_upd_twist\<close>)
  then have r2: "pipe_run False s0 all_applied es cs n (pipe_state h t x y PIdle c (CCas ?w b) m r)"
    by (rule mv) (use cons_ready [of "pi_queue (pipe_state h t x y PIdle c (CLoop ?w) m r)" "Suc 0" ?w h t b all_applied] t slot' in
      \<open>simp_all add: pipe_state_def set_cons_def fun_upd_twist\<close>)
  show ?thesis
    by (rule mv [OF r2]) (use cons_cas_ok [of "pi_queue (pipe_state h t x y PIdle c (CCas ?w b) m r)" "Suc 0" ?w b h t all_applied] in
      \<open>simp_all add: pipe_state_def set_cons_def fun_upd_twist numeral_2_eq_2\<close>)
qed

theorem pipeline_serial_dequeue_witness:
  "pipe_run True (pipe_state 0 0 None None PIdle CIdle CIdle 2 0) all_applied [1, 2] [] 0
      (pipe_state 2 0 (Some 1) (Some 2) PIdle CIdle CIdle 0 0)
    \<and> unat (0 :: u16) + 0 + storing (pi_queue (pipe_state 2 0 (Some 1) (Some 2) PIdle CIdle CIdle 0 0)) + (length [1 :: nat, 2] - 0) = 2"
proof -
  let ?R = "pipe_run True (pipe_state 0 0 None None PIdle CIdle CIdle 2 0) all_applied"
  have "?R [] [] 0 (pipe_state 0 0 None None PIdle CIdle CIdle 2 0)" by (rule pp_refl)
  from pipe_enqueue [OF this, of 1 "Some 1" None] have "?R [1] [] 0 (pipe_state 1 0 (Some 1) None PIdle CIdle CIdle 1 0)"
    by (simp add: slot_index_two)
  from pipe_enqueue [OF this, of 2 "Some 1" "Some 2"] have "?R [1, 2] [] 0 (pipe_state 2 0 (Some 1) (Some 2) PIdle CIdle CIdle 0 0)"
    by (simp add: slot_index_two)
  then show ?thesis using pipeline_serial_dequeue [OF pipe_two_new, unfolded pipe_two_start] by fastforce
qed

text \<open>
  C37.  The permits alone do not protect a slot that is being cleared: with two slots, a permit for every batch
  and all batches applied, there is an interleaving in which consumer 0 has claimed the first batch and
  not yet cleared its slot while consumer 1 dequeues the second one and returns its permit; the
  third batch is stored into the slot of the first and wiped out when consumer 0 clears it.  The queue then counts
  one batch that it does not hold, and \<open>try_dequeue\<close> returns nothing from then on.
\<close>

theorem admission_does_not_protect_slots:
  "\<exists>q a s. batch_queue_new 2 = Some q \<and> admission_new 2 = Some a
    \<and> pipe_run False (pipe_start q a) all_applied [1, 2, 3] [(0, 1, True), (1, 2, True)] 1 s
    \<and> qs_cons (pi_queue s) 0 = CGot 1 \<and> qs_cons (pi_queue s) 1 = CIdle \<and> qs_prod (pi_queue s) = PIdle
    \<and> head_tail_unpack (bq_head_tail (qs_queue (pi_queue s))) = (3, 2) \<and> bq_slots (qs_queue (pi_queue s)) = [None, None]
    \<and> try_dequeue all_applied (qs_queue (pi_queue s)) = Some (None, qs_queue (pi_queue s))"
proof -
  let ?q = "\<lparr>bq_head_tail = 0, bq_slots = [None, None]\<rparr>" and ?a = "\<lparr>pa_limit = 2, pa_count = 2\<rparr>"
  let ?R = "pipe_run False (pipe_start ?q ?a) all_applied"
  have "?R [] [] 0 (pipe_state 0 0 None None PIdle CIdle CIdle 2 0)" unfolding pipe_two_start by (rule pp_refl)
  from pipe_enqueue [OF this, of 1 "Some 1" None] have "?R [1] [] 0 (pipe_state 1 0 (Some 1) None PIdle CIdle CIdle 1 0)"
    by (simp add: slot_index_two)
  from pipe_enqueue [OF this, of 2 "Some 1" "Some 2"] have "?R [1, 2] [] 0 (pipe_state 2 0 (Some 1) (Some 2) PIdle CIdle CIdle 0 0)"
    by (simp add: slot_index_two)
  from pipe_claim [OF this, of 1] have "?R [1, 2] [(0, 1, True)] 0 (pipe_state 2 1 (Some 1) (Some 2) PIdle (CClear 0 1) CIdle 0 0)"
    by (simp add: slot_index_two)
  from pipe_claim_other [OF this, of 2]
  have "?R [1, 2] [(0, 1, True), (1, 2, True)] 0 (pipe_state 2 2 (Some 1) (Some 2) PIdle (CClear 0 1) (CClear 1 2) 0 0)"
    by (simp add: slot_index_two)
  then have "?R [1, 2] [(0, 1, True), (1, 2, True)] 0 (pipe_state 2 2 (Some 1) None PIdle (CClear 0 1) (CGot 2) 0 0)"
    by (rule pipe_move [where i = "Suc 0"])
      (use cons_clear [of "pi_queue (pipe_state 2 2 (Some 1) (Some 2) PIdle (CClear 0 1) (CClear 1 2) 0 0)" "Suc 0" 1 2 all_applied] in
        \<open>simp_all add: pipe_state_def set_cons_def\<close>)
  from pp_release [OF this, of "Suc 0" 2 "\<lparr>pa_limit = 2, pa_count = 1\<rparr>"]
  have "?R [1, 2] [(0, 1, True), (1, 2, True)] 1 (pipe_state 2 2 (Some 1) None PIdle (CClear 0 1) CIdle 1 0)"
    by (simp add: admission_release_def pipe_state_def set_cons_def)
  from pipe_enqueue [OF this, of 3 "Some 3" None]
  have "?R [1, 2, 3] [(0, 1, True), (1, 2, True)] 1 (pipe_state 3 2 (Some 3) None PIdle (CClear 0 1) CIdle 0 0)"
    by (simp add: slot_index_two)
  then have run: "?R [1, 2, 3] [(0, 1, True), (1, 2, True)] 1 (pipe_state 3 2 None None PIdle (CGot 1) CIdle 0 0)"
    by (rule pipe_move [where i = 0])
      (use cons_clear [of "pi_queue (pipe_state 3 2 (Some 3) None PIdle (CClear 0 1) CIdle 0 0)" 0 0 1 all_applied] in
        \<open>simp_all add: pipe_state_def set_cons_def fun_upd_twist\<close>)
  note new = pipe_two_new
  have "try_dequeue all_applied \<lparr>bq_head_tail = head_tail_pack 3 2, bq_slots = [None, None]\<rparr>
      = Some (None, \<lparr>bq_head_tail = head_tail_pack 3 2, bq_slots = [None, None]\<rparr>)"
    by (simp add: try_dequeue_def get_at_def slot_index_two [unfolded numeral_2_eq_2])
  then show ?thesis using run new
    by (intro exI [of _ ?q] exI [of _ ?a] exI [of _ "pipe_state 3 2 None None PIdle (CGot 1) CIdle 0 0"]) (simp add: pipe_state_def)
qed

end
