(* ===== verification/Batch_Pool_Conc.thy ===== *)
theory Batch_Pool_Conc
  imports Batch_Pool
begin

text \<open>
  The batch pool of \<open>batch_pool.rs\<close> shared by threads.  \<open>acquire_object\<close> and \<open>release\<close> are cut at every
  access to shared memory: the round-robin counter, each critical section of a shard's mutex and each
  statistics counter is a step of its own, with what the thread does alone (its own cache, the batch in
  its hand) attached to it.  A handle may be written to at any time and given back by any thread.
\<close>

section \<open>Definitions\<close>

text \<open>The counters of \<open>BatchPoolStats\<close> are added to one by one.\<close>

datatype stat_add = Add_Misses nat | Add_Allocations nat | Add_Bytes nat | Add_Reused nat

fun add_stat :: "stat_add \<Rightarrow> pool_stats \<Rightarrow> pool_stats" where
  "add_stat (Add_Misses n) st = st\<lparr>tls_misses := tls_misses st + n\<rparr>"
| "add_stat (Add_Allocations n) st = st\<lparr>allocations := allocations st + n\<rparr>"
| "add_stat (Add_Bytes n) st = st\<lparr>allocated_bytes := allocated_bytes st + n\<rparr>"
| "add_stat (Add_Reused n) st = st\<lparr>global_batches_reused := global_batches_reused st + n\<rparr>"

definition stat_adds :: "nat \<Rightarrow> nat \<Rightarrow> nat \<Rightarrow> stat_add list" where
  "stat_adds reused allocated bytes_allocated =
     [Add_Misses 1]
     @ (if allocated \<noteq> 0 then [Add_Allocations allocated, Add_Bytes bytes_allocated] else [])
     @ (if reused \<noteq> 0 then [Add_Reused reused] else [])"

text \<open>Where a thread is: outside, at the beginning of \<open>acquire_object\<close>, in \<open>refill_tls_cache\<close> before the shard
  index, before the first pop, in the loop with the batch to return (and the batches reused, allocated
  and the bytes), before the statistics; at the beginning of \<open>release\<close>, in its slow path before
  the shard index and in the spill loop with the released batch.\<close>

datatype pool_pc =
    PO_Out
  | PO_Acquire
  | PO_Refill
  | PO_First nat
  | PO_Hydrate nat owned_batch_ptr nat nat nat
  | PO_Stats owned_batch_ptr "stat_add list"
  | PO_Release batch_object
  | PO_Spill_Idx owned_batch_ptr
  | PO_Spill nat owned_batch_ptr
  | PO_Panic

text \<open>A step of thread \<open>t\<close> inside an operation: its next program point, the pool and the handle it returns
  with, if any.\<close>

fun pool_thread_step :: "nat \<Rightarrow> pool_pc \<Rightarrow> batch_pool \<Rightarrow> (pool_pc \<times> batch_pool \<times> batch_object list) option" where
  "pool_thread_step t PO_Acquire p =
     do {
       c \<leftarrow> thread_cache t p;
       (o', c) \<leftarrow> try_acquire_from_tls c;
       Some (case o' of Some o' \<Rightarrow> (PO_Out, put_cache t c p, [o']) | None \<Rightarrow> (PO_Refill, put_cache t c p, []))
     }"
| "pool_thread_step t PO_Refill p =
     do {
       c \<leftarrow> thread_cache t p;
       (i, c, p) \<leftarrow> shard_idx_for_cache c p;
       Some (PO_First i, put_cache t c p, [])
     }"
| "pool_thread_step t (PO_First i) p =
     do {
       (popped, p) \<leftarrow> pop_global i p;
       Some (case popped of
               Some batch \<Rightarrow> (PO_Hydrate i batch 1 0 0, p, [])
             | None \<Rightarrow>
                 let (bytes, a) = factory_allocate (bp_next_addr p)
                 in (PO_Hydrate i a 0 1 bytes, p\<lparr>bp_next_addr := bp_next_addr p + 1\<rparr>, []))
     }"
| "pool_thread_step t (PO_Hydrate i a reused allocated bytes) p =
     do {
       c \<leftarrow> thread_cache t p;
       if unat (tc_len c) < length (tc_batches c) div 2
       then do {
         (b, p) \<leftarrow> pop_global i p;
         case b of
           None \<Rightarrow> Some (PO_Stats a (stat_adds reused allocated bytes), p, [])
         | Some batch \<Rightarrow> do {
             (r, c) \<leftarrow> cache_push batch c;
             let p = (case r of Inl batch \<Rightarrow> free_batch batch p | Inr _ \<Rightarrow> p);
             Some (PO_Hydrate i a (reused + 1) allocated bytes, put_cache t c p, [])
           }
       }
       else Some (PO_Stats a (stat_adds reused allocated bytes), p, [])
     }"
| "pool_thread_step t (PO_Stats a (u # us)) p = Some (PO_Stats a us, p\<lparr>bp_stats := add_stat u (bp_stats p)\<rparr>, [])"
| "pool_thread_step t (PO_Stats a []) p = Some (PO_Out, p, [object_acquire a])"
| "pool_thread_step t (PO_Release o') p =
     do {
       o' \<leftarrow> reset_batch o';
       let len = get_batch_size (ob_batch (bo_inner o'));
       let o' = (if DEFAULT_BATCH_INIT_SIZE * 2 \<le> len then object_shrink_to DEFAULT_BATCH_INIT_SIZE o' else o');
       c \<leftarrow> thread_cache t p;
       (r, c) \<leftarrow> cache_push (object_into_inner o') c;
       Some (case r of Inr _ \<Rightarrow> (PO_Out, put_cache t c p, []) | Inl batch \<Rightarrow> (PO_Spill_Idx batch, put_cache t c p, []))
     }"
| "pool_thread_step t (PO_Spill_Idx batch) p =
     do {
       c \<leftarrow> thread_cache t p;
       (i, c, p) \<leftarrow> shard_idx_for_cache c p;
       Some (PO_Spill i batch, put_cache t c p, [])
     }"
| "pool_thread_step t (PO_Spill i batch) p =
     do {
       c \<leftarrow> thread_cache t p;
       if bp_target p \<le> unat (tc_len c)
       then do {
         (e, c) \<leftarrow> cache_pop c;
         b \<leftarrow> e;
         (r, p) \<leftarrow> push_to_global i b p;
         let p = (case r of Inl b \<Rightarrow> free_batch b p | Inr _ \<Rightarrow> p);
         Some (PO_Spill i batch, put_cache t c p, [])
       }
       else do {
         (r, c) \<leftarrow> cache_push batch c;
         assert_that (r = Inr ());
         Some (PO_Out, put_cache t c p, [])
       }
     }"
| "pool_thread_step t PO_Out p = None"
| "pool_thread_step t PO_Panic p = None"

record pool_sys =
  ps_pool :: batch_pool
  ps_pc :: "pool_pc list"
  ps_handles :: "batch_object list"

text \<open>A batch that \<open>release\<close> can reset: \<open>can_reset\<close> holds, and its bytes are within its limit.\<close>

definition releasable :: "batch_object \<Rightarrow> bool" where
  "releasable o' \<longleftrightarrow> object_can_reset o' = Some True \<and> batch_sized (bo_batch o')"

inductive pool_step :: "nat \<Rightarrow> pool_sys \<Rightarrow> pool_sys \<Rightarrow> bool" for t s where
  po_acquire: "ps_pc s ! t = PO_Out \<Longrightarrow> pool_step t s (s\<lparr>ps_pc := (ps_pc s)[t := PO_Acquire]\<rparr>)"
| po_release: "ps_pc s ! t = PO_Out \<Longrightarrow> ps_handles s = hs @ o' # hs' \<Longrightarrow> releasable o' \<Longrightarrow>
     pool_step t s (s\<lparr>ps_pc := (ps_pc s)[t := PO_Release o'], ps_handles := hs @ hs'\<rparr>)"
| po_write: "ps_handles s = hs @ o' # hs' \<Longrightarrow> ob_addr (bo_inner o'') = ob_addr (bo_inner o') \<Longrightarrow>
     pool_step t s (s\<lparr>ps_handles := hs @ o'' # hs'\<rparr>)"
| po_move: "ps_pc s ! t = pc \<Longrightarrow> pool_thread_step t pc (ps_pool s) = Some (pc', p', os) \<Longrightarrow>
     pool_step t s \<lparr>ps_pool = p', ps_pc = (ps_pc s)[t := pc'], ps_handles = ps_handles s @ os\<rparr>"
| po_panic: "ps_pc s ! t \<notin> {PO_Out, PO_Panic} \<Longrightarrow> pool_thread_step t (ps_pc s ! t) (ps_pool s) = None \<Longrightarrow>
     pool_step t s (s\<lparr>ps_pc := (ps_pc s)[t := PO_Panic]\<rparr>)"

inductive pool_run :: "pool_sys \<Rightarrow> pool_sys \<Rightarrow> bool" for s0 where
  por_refl: "pool_run s0 s0"
| por_more: "pool_run s0 s \<Longrightarrow> t < length (ps_pc s) \<Longrightarrow> pool_step t s s' \<Longrightarrow> pool_run s0 s'"

definition pool_start :: "batch_pool \<Rightarrow> pool_sys" where
  "pool_start p = \<lparr>ps_pool = p, ps_pc = map (\<lambda>_. PO_Out) (bp_caches p), ps_handles = []\<rparr>"

section \<open>The invariant\<close>

text \<open>The allocation in a thread's hand, and the allocations it has still to count.\<close>

fun pc_addrs :: "pool_pc \<Rightarrow> nat multiset" where
  "pc_addrs (PO_Hydrate i a r al by') = {#ob_addr a#}"
| "pc_addrs (PO_Stats a us) = {#ob_addr a#}"
| "pc_addrs (PO_Release o') = {#ob_addr (bo_inner o')#}"
| "pc_addrs (PO_Spill_Idx a) = {#ob_addr a#}"
| "pc_addrs (PO_Spill i a) = {#ob_addr a#}"
| "pc_addrs _ = {#}"

fun stat_allocs :: "stat_add \<Rightarrow> nat" where
  "stat_allocs (Add_Allocations n) = n"
| "stat_allocs _ = 0"

fun pc_uncounted :: "pool_pc \<Rightarrow> nat" where
  "pc_uncounted (PO_Hydrate i a r al by') = al"
| "pc_uncounted (PO_Stats a us) = sum_list (map stat_allocs us)"
| "pc_uncounted _ = 0"

fun pc_ok :: "nat \<Rightarrow> pool_pc \<Rightarrow> bool" where
  "pc_ok n (PO_First i) \<longleftrightarrow> i < n"
| "pc_ok n (PO_Hydrate i a r al by') \<longleftrightarrow> i < n \<and> batch_holds 0 [] (ob_batch a)"
| "pc_ok n (PO_Stats a us) \<longleftrightarrow> batch_holds 0 [] (ob_batch a) \<and> length us \<le> 4"
| "pc_ok n (PO_Release o') \<longleftrightarrow> releasable o'"
| "pc_ok n (PO_Spill_Idx a) \<longleftrightarrow> alloc_clean a"
| "pc_ok n (PO_Spill i a) \<longleftrightarrow> i < n \<and> alloc_clean a"
| "pc_ok n PO_Panic \<longleftrightarrow> False"
| "pc_ok n _ \<longleftrightarrow> True"

abbreviation handle_addrs :: "batch_object list \<Rightarrow> nat multiset" where
  "handle_addrs hs \<equiv> mset (map (\<lambda>h. ob_addr (bo_inner h)) hs)"

definition places :: "batch_pool \<Rightarrow> nat multiset" where
  "places p = pool_addrs p + mset (bp_freed p)"

definition pool_sys_inv :: "pool_sys \<Rightarrow> bool" where
  "pool_sys_inv s \<longleftrightarrow> pool_ok (ps_pool s) \<and> length (ps_pc s) = length (bp_caches (ps_pool s))
     \<and> list_all (pc_ok (length (bp_shards (ps_pool s)))) (ps_pc s)
     \<and> places (ps_pool s) + sum_list (map pc_addrs (ps_pc s)) + handle_addrs (ps_handles s)
       = mset [0 ..< bp_next_addr (ps_pool s)]
     \<and> allocations (bp_stats (ps_pool s)) + sum_list (map pc_uncounted (ps_pc s)) = bp_next_addr (ps_pool s)"

text \<open>What a step of a thread inside an operation has to keep.\<close>

definition step_keeps :: "batch_pool \<Rightarrow> pool_pc \<Rightarrow> batch_pool \<Rightarrow> pool_pc \<Rightarrow> batch_object list \<Rightarrow> bool" where
  "step_keeps p pc p' pc' os \<longleftrightarrow> pool_ok p' \<and> pc_ok (length (bp_shards p)) pc'
     \<and> length (bp_caches p') = length (bp_caches p) \<and> length (bp_shards p') = length (bp_shards p)
     \<and> list_all fresh_object os
     \<and> (bp_next_addr p' = bp_next_addr p \<and> places p' + pc_addrs pc' + handle_addrs os = places p + pc_addrs pc
        \<or> bp_next_addr p' = Suc (bp_next_addr p) \<and> pc_addrs pc = {#} \<and> os = []
          \<and> places p' + pc_addrs pc' = add_mset (bp_next_addr p) (places p))
     \<and> allocations (bp_stats p') + pc_uncounted pc' + bp_next_addr p
       = allocations (bp_stats p) + pc_uncounted pc + bp_next_addr p'"

lemma mset_balance:
  fixes P P' C D G H :: "nat multiset"
  assumes "P' + C + G = P + D + H" and "D + H + X' = C + G + X"
  shows "P' + X' = P + X"
proof -
  have "P' + X' + (C + G) = P' + C + G + X'" by (simp add: union_ac)
  also have "\<dots> = P + (D + H + X')" unfolding assms(1) by (simp add: union_ac)
  also have "\<dots> = P + X + (C + G)" unfolding assms(2) by (simp add: union_ac)
  finally show ?thesis by simp
qed

lemma put_balance:
  assumes "pool_ok p" and "t < length (bp_caches p)" and "same_frame p q" and "shards_good q" and "cache_good p d"
    and "addrs (cache_contents c) = cell_addrs (bp_caches p ! t)"
    and "addrs (cache_contents d) + global_addrs q + X' = addrs (cache_contents c) + global_addrs p + X"
  shows "pool_addrs (put_cache t d q) + X' = pool_addrs p + X"
  using mset_balance [OF put_cache_ok(2) [OF assms(1-5)]] assms(6,7) by simp

lemma put_cache_simps [simp]:
  "bp_next_addr (put_cache t c p) = bp_next_addr p" "bp_freed (put_cache t c p) = bp_freed p"
  "bp_stats (put_cache t c p) = bp_stats p" "bp_shards (put_cache t c p) = bp_shards p"
  "length (bp_caches (put_cache t c p)) = length (bp_caches p)" "bp_target (put_cache t c p) = bp_target p"
  by (simp_all add: put_cache_def)

text \<open>A step that changes the pool from \<open>p\<close> to \<open>q\<close> and the thread's cache from \<open>c\<close> to \<open>d\<close>.\<close>

lemma step_keeps_put:
  assumes "pool_ok p" and "t < length (bp_caches p)" and "addrs (cache_contents c) = cell_addrs (bp_caches p ! t)"
    and "same_frame p q" and "shards_good q" and "cache_good p d" and "pc_ok (length (bp_shards p)) pc'"
    and "bp_next_addr q = bp_next_addr p" and "list_all fresh_object os" and "bp_stats q = bp_stats p" and "pc_uncounted pc' = pc_uncounted pc"
    and "addrs (cache_contents d) + global_addrs q + (mset (bp_freed q) + pc_addrs pc' + handle_addrs os)
      = addrs (cache_contents c) + global_addrs p + (mset (bp_freed p) + pc_addrs pc)"
  shows "step_keeps p pc (put_cache t d q) pc' os"
  unfolding step_keeps_def places_def
  using put_cache_ok(1) [OF assms(1,2,4-6)] put_balance [OF assms(1,2,4-6,3,12)] assms(4,7-11)
  by (simp add: same_frame_def union_assoc)

text \<open>A step that leaves the caches alone.\<close>

lemma step_keeps_global:
  assumes "pool_ok p" and "same_frame p q" and "shards_good q" and "pc_ok (length (bp_shards p)) pc'"
    and "bp_next_addr q = bp_next_addr p" and "bp_freed q = bp_freed p"
    and "allocations (bp_stats q) + pc_uncounted pc' = allocations (bp_stats p) + pc_uncounted pc"
    and "list_all fresh_object os" and "global_addrs q + pc_addrs pc' + handle_addrs os = global_addrs p + pc_addrs pc"
  shows "step_keeps p pc q pc' os"
proof -
  have c: "cache_good q = cache_good p" using assms(2) by (simp add: fun_eq_iff same_frame_cache_good)
  have "pool_ok q" using assms(1-3) unfolding pool_ok_def c by (simp add: same_frame_def)
  moreover have "places q + pc_addrs pc' + handle_addrs os = places p + pc_addrs pc"
    using assms(2,6) arg_cong [OF assms(9), of "\<lambda>m. m + (sum_list (map cell_addrs (bp_caches p)) + mset (bp_freed p))"]
    by (simp add: places_def pool_addrs_def same_frame_def union_ac)
  ultimately show ?thesis using assms by (simp add: step_keeps_def same_frame_def)
qed

section \<open>Preservation\<close>

lemma releasableD:
  assumes "releasable o'"
  obtains q where "reset_batch o' = Some q" and "alloc_clean (bo_inner q)"
    and "ob_addr (bo_inner q) = ob_addr (bo_inner o')" and "get_batch_size (bo_batch q) = 0"
proof -
  obtain st where st: "object_state o' = Some st" "is_reset_safe st" "batch_sized (bo_batch o')"
    using assms by (auto simp: releasable_def object_can_reset_def)
  have "bi_state (bo_batch o') = batch_state_u8 st" using st(1) batch_state_from_u8_Some by (auto simp: object_state_def)
  then show thesis by (rule reset_batch_clean [OF _ st(2,3)]) (rule that)
qed

lemma stat_adds_uncounted: "sum_list (map stat_allocs (stat_adds r al by')) = al"
  by (simp add: stat_adds_def)

lemma length_stat_adds: "length (stat_adds r al n) \<le> 4"
  by (simp add: stat_adds_def)

lemma add_stat_allocations: "allocations (add_stat u st) = allocations st + stat_allocs u"
  by (cases u) simp_all

text \<open>Every step of a thread inside an operation succeeds and keeps the invariant.\<close>

lemma acquire_step_keeps:
  assumes ok: "pool_ok p" and t: "t < length (bp_caches p)"
  obtains pc' p' os where "pool_thread_step t PO_Acquire p = Some (pc', p', os)" "step_keeps p PO_Acquire p' pc' os"
proof -
  have sg: "shards_good p" using ok by (simp add: pool_ok_def)
  obtain c where c: "thread_cache t p = Some c" "cache_good p c" "addrs (cache_contents c) = cell_addrs (bp_caches p ! t)"
    by (rule thread_cache_good [OF ok t])
  note put = step_keeps_put [OF ok t c(3) same_frame_refl sg]
  show thesis
  proof (cases rule: cache_pop_good [OF c(2)])
    case 1
    have "pool_thread_step t PO_Acquire p = Some (PO_Refill, put_cache t c p, [])"
      by (simp add: c(1) try_acquire_from_tls_def 1(2))
    then show thesis by (rule that) (rule put [OF c(2)]; simp)
  next
    case (2 a d)
    have "pool_thread_step t PO_Acquire p = Some (PO_Out, put_cache t d p, [object_acquire a])"
      by (simp add: c(1) try_acquire_from_tls_def 2(2))
    moreover have "fresh_object (object_acquire a)"
      by (rule object_acquire_holds [OF alloc_clean_holds [OF alloc_idle_clean [OF 2(4)]]])
    ultimately show thesis using put [OF 2(3), of PO_Out "[object_acquire a]" PO_Acquire] 2(1) by (intro that) simp_all
  qed
qed

lemma shard_idx_stats: "shard_idx_for_cache c p = Some (i, d, q) \<Longrightarrow> bp_stats q = bp_stats p"
  by (auto simp: shard_idx_for_cache_def assign_shard_idx_def Let_def split: option.splits bind_splits if_splits)

lemma idx_step_keeps:
  assumes ok: "pool_ok p" and t: "t < length (bp_caches p)"
  obtains c i d q where "thread_cache t p = Some c" "shard_idx_for_cache c p = Some (i, d, q)"
    "\<And>pc pc'. pc_ok (length (bp_shards p)) pc' \<Longrightarrow> pc_addrs pc' = pc_addrs pc \<Longrightarrow> pc_uncounted pc' = pc_uncounted pc
      \<Longrightarrow> step_keeps p pc (put_cache t d q) pc' []" "i < length (bp_shards p)"
proof -
  have sg: "shards_good p" using ok by (simp add: pool_ok_def)
  obtain c where c: "thread_cache t p = Some c" "cache_good p c" "addrs (cache_contents c) = cell_addrs (bp_caches p ! t)"
    by (rule thread_cache_good [OF ok t])
  obtain i d q where d: "shard_idx_for_cache c p = Some (i, d, q)" "i < length (bp_shards p)" "tiers_step p c q d"
      "cache_contents d = cache_contents c" "global_addrs q = global_addrs p" "bp_freed q = bp_freed p"
    by (rule shard_idx_for_cache_ok [OF sg c(2)])
  have q: "same_frame p q" "shards_good q" "cache_good p d" "bp_next_addr q = bp_next_addr p" using d(3) by (simp_all add: tiers_step_def)
  show thesis
    by (rule that [OF c(1) d(1) _ d(2)])
      (rule step_keeps_put [OF ok t c(3) q(1-3)]; simp add: q(4) d(4-6) shard_idx_stats [OF d(1)])
qed

lemma pop_global_stats: "pop_global i p = Some (b, q) \<Longrightarrow> bp_stats q = bp_stats p"
  by (auto simp: pop_global_def split: bind_splits)

lemma push_to_global_stats: "push_to_global i a p = Some (r, q) \<Longrightarrow> bp_stats q = bp_stats p"
  by (auto simp: push_to_global_def split: bind_splits)

lemma first_step_keeps:
  assumes ok: "pool_ok p" and i: "i < length (bp_shards p)"
  obtains pc' p' os where "pool_thread_step t (PO_First i) p = Some (pc', p', os)" "step_keeps p (PO_First i) p' pc' os"
proof -
  have sg: "shards_good p" using ok by (simp add: pool_ok_def)
  show thesis
  proof (cases rule: pop_global_cases [OF sg i])
    case 1
    let ?q = "p\<lparr>bp_next_addr := bp_next_addr p + 1\<rparr>" and ?a = "\<lparr>ob_addr = bp_next_addr p, ob_batch = batch_inner_new\<rparr>"
    have run: "pool_thread_step t (PO_First i) p = Some (PO_Hydrate i ?a 0 1 12, ?q, [])"
      using 1 by (simp add: factory_allocate_def)
    have "cache_good ?q = cache_good p" "shards_good ?q = shards_good p" "places ?q = places p"
      by (simp_all add: fun_eq_iff cache_good_def shards_good_def places_def pool_addrs_def global_addrs_def)
    then have "step_keeps p (PO_First i) ?q (PO_Hydrate i ?a 0 1 12) []"
      using ok i batch_inner_new_holds unfolding step_keeps_def pool_ok_def by simp
    with run show thesis by (rule that)
  next
    case (2 a q)
    have "step_keeps p (PO_First i) q (PO_Hydrate i a 1 0 0) []"
      by (rule step_keeps_global [OF ok 2(4,3)])
        (simp_all add: 2 i pop_global_stats [OF 2(1)] alloc_clean_holds alloc_idle_clean)
    moreover have "pool_thread_step t (PO_First i) p = Some (PO_Hydrate i a 1 0 0, q, [])" by (simp add: 2(1))
    ultimately show thesis by (intro that)
  qed
qed

lemma hydrate_step_keeps:
  assumes ok: "pool_ok p" and t: "t < length (bp_caches p)" and i: "i < length (bp_shards p)" and a: "batch_holds 0 [] (ob_batch a)"
  obtains pc' p' os where "pool_thread_step t (PO_Hydrate i a r al n) p = Some (pc', p', os)"
    "step_keeps p (PO_Hydrate i a r al n) p' pc' os"
proof -
  have sg: "shards_good p" using ok by (simp add: pool_ok_def)
  obtain c where c: "thread_cache t p = Some c" "cache_good p c" "addrs (cache_contents c) = cell_addrs (bp_caches p ! t)"
    by (rule thread_cache_good [OF ok t])
  have leave: "step_keeps p (PO_Hydrate i a r al n) p (PO_Stats a (stat_adds r al n)) []"
    by (rule step_keeps_global [OF ok same_frame_refl sg]) (simp_all add: a stat_adds_uncounted length_stat_adds)
  show thesis
  proof (cases "unat (tc_len c) < length (tc_batches c) div 2")
    case False
    then show thesis using leave by (intro that) (simp_all add: c(1))
  next
    case True
    then have room: "length (cache_contents c) \<noteq> bp_tls_cap p" using c(2) tc_len_contents tc_batches_cap by fastforce
    show thesis
    proof (cases rule: pop_global_cases [OF sg i])
      case 1
      then show thesis using leave True by (intro that) (simp_all add: c(1))
    next
      case (2 b q)
      obtain d where d: "cache_push b c = Some (Inr (), d)" "cache_good p d" "cache_contents d = cache_contents c @ [idle_mark b]"
        using cache_push_good [OF c(2) alloc_idle_clean [OF 2(2)]] room by metis
      have "step_keeps p (PO_Hydrate i a r al n) (put_cache t d q) (PO_Hydrate i a (r + 1) al n) []"
        by (rule step_keeps_put [OF ok t c(3) 2(4,3) d(2)]) (simp_all add: 2 d i a pop_global_stats [OF 2(1)])
      moreover have "pool_thread_step t (PO_Hydrate i a r al n) p = Some (PO_Hydrate i a (r + 1) al n, put_cache t d q, [])"
        using True by (simp add: c(1) 2(1) d(1))
      ultimately show thesis by (intro that)
    qed
  qed
qed

lemma stats_step_keeps:
  assumes ok: "pool_ok p" and a: "batch_holds 0 [] (ob_batch a)" "length us \<le> 4"
  obtains pc' p' os where "pool_thread_step t (PO_Stats a us) p = Some (pc', p', os)" "step_keeps p (PO_Stats a us) p' pc' os"
proof (cases us)
  case Nil
  have "step_keeps p (PO_Stats a []) p PO_Out [object_acquire a]"
    using ok object_acquire_holds [OF a(1)] by (simp add: step_keeps_def)
  then show thesis using Nil by (intro that) simp_all
next
  case (Cons u vs)
  let ?q = "p\<lparr>bp_stats := add_stat u (bp_stats p)\<rparr>"
  have "cache_good ?q = cache_good p" "shards_good ?q = shards_good p" "places ?q = places p"
    by (simp_all add: fun_eq_iff cache_good_def shards_good_def places_def pool_addrs_def global_addrs_def)
  then have "step_keeps p (PO_Stats a (u # vs)) ?q (PO_Stats a vs) []"
    using ok a Cons unfolding step_keeps_def pool_ok_def by (simp add: add_stat_allocations)
  then show thesis using Cons by (intro that) simp_all
qed

lemma release_step_keeps:
  assumes ok: "pool_ok p" and t: "t < length (bp_caches p)" and o': "releasable o'"
  obtains pc' p' os where "pool_thread_step t (PO_Release o') p = Some (pc', p', os)" "step_keeps p (PO_Release o') p' pc' os"
proof -
  have sg: "shards_good p" using ok by (simp add: pool_ok_def)
  obtain c where c: "thread_cache t p = Some c" "cache_good p c" "addrs (cache_contents c) = cell_addrs (bp_caches p ! t)"
    by (rule thread_cache_good [OF ok t])
  obtain q where q: "reset_batch o' = Some q" "alloc_clean (bo_inner q)" "ob_addr (bo_inner q) = ob_addr (bo_inner o')"
      "get_batch_size (bo_batch q) = 0"
    by (rule releasableD [OF o'])
  note put = step_keeps_put [OF ok t c(3) same_frame_refl sg]
  show thesis
  proof (cases rule: cache_push_good [OF c(2) q(2)])
    case 1
    have "pool_thread_step t (PO_Release o') p = Some (PO_Spill_Idx (bo_inner q), put_cache t c p, [])"
      by (simp add: q(1,4) DEFAULT_BATCH_INIT_SIZE_pos c(1) object_into_inner_def 1(2))
    then show thesis by (rule that) (rule put [OF c(2)]; simp add: q)
  next
    case (2 d)
    have "pool_thread_step t (PO_Release o') p = Some (PO_Out, put_cache t d p, [])"
      by (simp add: q(1,4) DEFAULT_BATCH_INIT_SIZE_pos c(1) object_into_inner_def 2(2))
    then show thesis by (rule that) (rule put [OF 2(3)]; simp add: q(3) 2(4))
  qed
qed

lemma spill_step_keeps:
  assumes ok: "pool_ok p" and t: "t < length (bp_caches p)" and i: "i < length (bp_shards p)" and a: "alloc_clean a"
  obtains pc' p' os where "pool_thread_step t (PO_Spill i a) p = Some (pc', p', os)" "step_keeps p (PO_Spill i a) p' pc' os"
proof -
  have sg: "shards_good p" and tgt: "0 < bp_target p" "bp_target p \<le> bp_tls_cap p" using ok by (simp_all add: pool_ok_def)
  obtain c where c: "thread_cache t p = Some c" "cache_good p c" "addrs (cache_contents c) = cell_addrs (bp_caches p ! t)"
    by (rule thread_cache_good [OF ok t])
  show thesis
  proof (cases "bp_target p \<le> unat (tc_len c)")
    case False
    then have "length (cache_contents c) \<noteq> bp_tls_cap p" using c(2) tgt tc_len_contents by fastforce
    then obtain d where d: "cache_push a c = Some (Inr (), d)" "cache_good p d" "cache_contents d = cache_contents c @ [idle_mark a]"
      using cache_push_good [OF c(2) a] by metis
    have "pool_thread_step t (PO_Spill i a) p = Some (PO_Out, put_cache t d p, [])" using False by (simp add: c(1) d(1))
    then show thesis by (rule that) (rule step_keeps_put [OF ok t c(3) same_frame_refl sg d(2)]; simp add: d(3))
  next
    case True
    then have "cache_contents c \<noteq> []" using c(2) tgt(1) tc_len_contents by fastforce
    then obtain b d where d: "cache_contents c = cache_contents d @ [b]" "cache_pop c = Some (Some b, d)" "cache_good p d" "alloc_idle b"
      using cache_pop_good [OF c(2)] by metis
    show thesis
    proof (cases rule: push_to_global_cases [OF sg i d(4)])
      case 1
      let ?q = "free_batch b p"
      have q: "same_frame p ?q" "shards_good ?q" "global_addrs ?q = global_addrs p" "bp_freed ?q = ob_addr b # bp_freed p"
        "bp_next_addr ?q = bp_next_addr p" "bp_stats ?q = bp_stats p"
        using sg by (simp_all add: free_batch_def same_frame_def shards_good_def global_addrs_def)
      have "pool_thread_step t (PO_Spill i a) p = Some (PO_Spill i a, put_cache t d ?q, [])"
        using True by (simp add: c(1) d(2) 1)
      then show thesis by (rule that) (rule step_keeps_put [OF ok t c(3) q(1,2) d(3)]; simp add: q d(1) i a)
    next
      case (2 q)
      have "pool_thread_step t (PO_Spill i a) p = Some (PO_Spill i a, put_cache t d q, [])"
        using True by (simp add: c(1) d(2) 2(1))
      then show thesis
        by (rule that) (rule step_keeps_put [OF ok t c(3) 2(3,2) d(3)]; simp add: 2 d(1) i a push_to_global_stats [OF 2(1)])
    qed
  qed
qed

lemma thread_step_keeps:
  assumes ok: "pool_ok p" and t: "t < length (bp_caches p)" and pc: "pc_ok (length (bp_shards p)) pc" "pc \<noteq> PO_Out"
  obtains pc' p' os where "pool_thread_step t pc p = Some (pc', p', os)" "step_keeps p pc p' pc' os"
proof (cases pc)
  case PO_Acquire
  then show thesis using acquire_step_keeps [OF ok t] that by metis
next
  case PO_Refill
  obtain c i d q where c: "thread_cache t p = Some c" "shard_idx_for_cache c p = Some (i, d, q)"
    "\<And>pc pc'. pc_ok (length (bp_shards p)) pc' \<Longrightarrow> pc_addrs pc' = pc_addrs pc \<Longrightarrow> pc_uncounted pc' = pc_uncounted pc
      \<Longrightarrow> step_keeps p pc (put_cache t d q) pc' []" "i < length (bp_shards p)"
    by (rule idx_step_keeps [OF ok t]) blast
  show thesis by (rule that [of "PO_First i" "put_cache t d q" "[]"]) (use c(4) in \<open>auto simp: PO_Refill c(1,2) intro!: c(3)\<close>)
next
  case (PO_First i)
  then show thesis using first_step_keeps [OF ok, of i t] pc that by fastforce
next
  case (PO_Hydrate i a r al n)
  then show thesis using hydrate_step_keeps [OF ok t, of i a r al n] pc that by (metis pc_ok.simps(2))
next
  case (PO_Stats a us)
  then show thesis using stats_step_keeps [OF ok, of a us t] pc that by (metis pc_ok.simps(3))
next
  case (PO_Release o')
  then show thesis using release_step_keeps [OF ok t, of o'] pc that by (metis pc_ok.simps(4))
next
  case (PO_Spill_Idx a)
  obtain c i d q where c: "thread_cache t p = Some c" "shard_idx_for_cache c p = Some (i, d, q)"
    "\<And>pc pc'. pc_ok (length (bp_shards p)) pc' \<Longrightarrow> pc_addrs pc' = pc_addrs pc \<Longrightarrow> pc_uncounted pc' = pc_uncounted pc
      \<Longrightarrow> step_keeps p pc (put_cache t d q) pc' []" "i < length (bp_shards p)"
    by (rule idx_step_keeps [OF ok t]) blast
  show thesis
    by (rule that [of "PO_Spill i a" "put_cache t d q" "[]"]) (use c(4) pc(1) in \<open>auto simp: PO_Spill_Idx c(1,2) intro!: c(3)\<close>)
next
  case (PO_Spill i a)
  then show thesis using spill_step_keeps [OF ok t, of i a] pc that by (metis pc_ok.simps(6))
qed (use pc in simp_all)

section \<open>Runs\<close>

lemma pool_sys_invD:
  assumes "pool_sys_inv s"
  shows "pool_ok (ps_pool s)" and "length (ps_pc s) = length (bp_caches (ps_pool s))"
    and "t < length (ps_pc s) \<Longrightarrow> pc_ok (length (bp_shards (ps_pool s))) (ps_pc s ! t)"
    and "places (ps_pool s) + sum_list (map pc_addrs (ps_pc s)) + handle_addrs (ps_handles s) = mset [0 ..< bp_next_addr (ps_pool s)]"
    and "allocations (bp_stats (ps_pool s)) + sum_list (map pc_uncounted (ps_pc s)) = bp_next_addr (ps_pool s)"
  using assms by (simp_all add: pool_sys_inv_def list_all_length)

text \<open>A step of thread \<open>t\<close> seen from the whole system: what it adds to the sum over the threads.\<close>

lemma sum_pc_update:
  fixes f :: "pool_pc \<Rightarrow> 'b :: {comm_monoid_add, cancel_ab_semigroup_add}"
  assumes "t < length pcs" and "A' + f pc' + B' = A + f (pcs ! t) + B"
  shows "A' + sum_list (map f (pcs[t := pc'])) + B' = A + sum_list (map f pcs) + B"
proof -
  have "A' + sum_list (map f (pcs[t := pc'])) + B' + f (pcs ! t) = A' + f pc' + B' + sum_list (map f pcs)"
    using msum_update [OF assms(1), of f pc'] by (metis (no_types, lifting) add.assoc add.commute)
  also have "\<dots> = A + sum_list (map f pcs) + B + f (pcs ! t)"
    unfolding assms(2) by (metis (no_types, lifting) add.assoc add.commute)
  finally show ?thesis by simp
qed

lemma list_all_update: "list_all P xs \<Longrightarrow> P x \<Longrightarrow> list_all P (xs[t := x])"
  by (cases "t < length xs") (auto simp: list_all_length nth_list_update)

text \<open>A step that leaves the pool alone moves an allocation between a thread and the handles.\<close>

lemma pool_sys_inv_client:
  assumes inv: "pool_sys_inv s" and t: "t < length (ps_pc s)" and pc: "pc_ok (length (bp_shards (ps_pool s))) pc"
    and "pc_uncounted pc = pc_uncounted (ps_pc s ! t)"
    and "pc_addrs pc + handle_addrs hs = pc_addrs (ps_pc s ! t) + handle_addrs (ps_handles s)"
  shows "pool_sys_inv (s\<lparr>ps_pc := (ps_pc s)[t := pc], ps_handles := hs\<rparr>)"
proof -
  note I = pool_sys_invD [OF inv]
  have "places (ps_pool s) + sum_list (map pc_addrs ((ps_pc s)[t := pc])) + handle_addrs hs = mset [0 ..< bp_next_addr (ps_pool s)]"
    using sum_pc_update [OF t, of "places (ps_pool s)" pc_addrs pc "handle_addrs hs" "places (ps_pool s)" "handle_addrs (ps_handles s)"]
      assms(5) I(4) by (simp add: union_assoc)
  moreover have "sum_list (map pc_uncounted ((ps_pc s)[t := pc])) = sum_list (map pc_uncounted (ps_pc s))"
    using msum_update [OF t, of pc_uncounted pc] assms(4) by simp
  ultimately show ?thesis
    using inv list_all_update [of "pc_ok (length (bp_shards (ps_pool s)))" "ps_pc s" pc t] pc by (simp add: pool_sys_inv_def)
qed

lemma pool_sys_inv_thread:
  assumes inv: "pool_sys_inv s" and t: "t < length (ps_pc s)" and keeps: "step_keeps (ps_pool s) (ps_pc s ! t) p' pc' os"
  shows "pool_sys_inv \<lparr>ps_pool = p', ps_pc = (ps_pc s)[t := pc'], ps_handles = ps_handles s @ os\<rparr>"
proof -
  let ?p = "ps_pool s" and ?pc = "ps_pc s ! t" and ?H = "handle_addrs (ps_handles s)"
  note I = pool_sys_invD [OF inv] and K = keeps [unfolded step_keeps_def]
  have "places p' + pc_addrs pc' + (?H + handle_addrs os) + mset [0 ..< bp_next_addr ?p]
      = places ?p + pc_addrs ?pc + ?H + mset [0 ..< bp_next_addr p']"
    using K
  proof (elim conjE disjE)
    assume "bp_next_addr p' = bp_next_addr ?p" and e: "places p' + pc_addrs pc' + handle_addrs os = places ?p + pc_addrs ?pc"
    then show ?thesis using arg_cong [OF e, of "\<lambda>m. m + ?H"] by (simp add: union_ac)
  next
    assume "bp_next_addr p' = Suc (bp_next_addr ?p)" and e: "places p' + pc_addrs pc' = add_mset (bp_next_addr ?p) (places ?p)"
      and "os = []" "pc_addrs ?pc = {#}"
    then show ?thesis by simp
  qed
  then have "places p' + pc_addrs pc' + (?H + handle_addrs os + mset [0 ..< bp_next_addr ?p])
      = places ?p + pc_addrs ?pc + (?H + mset [0 ..< bp_next_addr p'])" by (simp only: union_assoc)
  from sum_pc_update [OF t this]
  have "places p' + sum_list (map pc_addrs ((ps_pc s)[t := pc'])) + (?H + handle_addrs os) + mset [0 ..< bp_next_addr ?p]
      = (places ?p + sum_list (map pc_addrs (ps_pc s)) + ?H) + mset [0 ..< bp_next_addr p']" by (simp only: union_assoc)
  then have addrs: "places p' + sum_list (map pc_addrs ((ps_pc s)[t := pc'])) + (?H + handle_addrs os) = mset [0 ..< bp_next_addr p']"
    unfolding I(4) by (metis add.commute add_right_cancel)
  have "allocations (bp_stats p') + pc_uncounted pc' + bp_next_addr ?p = allocations (bp_stats ?p) + pc_uncounted ?pc + bp_next_addr p'"
    using K by blast
  from sum_pc_update [OF t this] I(5)
  have counts: "allocations (bp_stats p') + sum_list (map pc_uncounted ((ps_pc s)[t := pc'])) = bp_next_addr p'" by simp
  show ?thesis
    using I(2) K addrs counts inv list_all_update [of "pc_ok (length (bp_shards ?p))" "ps_pc s" pc' t]
    by (simp add: pool_sys_inv_def)
qed

lemma pool_step_inv:
  assumes inv: "pool_sys_inv s" and t: "t < length (ps_pc s)" and step: "pool_step t s s'"
  shows "pool_sys_inv s'"
proof -
  note I = pool_sys_invD [OF inv]
  have tp: "t < length (bp_caches (ps_pool s))" using t I(2) by simp
  from step show ?thesis
  proof cases
    case po_acquire
    then show ?thesis using pool_sys_inv_client [OF inv t, of PO_Acquire "ps_handles s"] by simp
  next
    case (po_release hs o' hs')
    then show ?thesis using pool_sys_inv_client [OF inv t, of "PO_Release o'" "hs @ hs'"] by simp
  next
    case (po_write hs o' hs' o'')
    have "(ps_pc s)[t := ps_pc s ! t] = ps_pc s" by simp
    with po_write show ?thesis
      using pool_sys_inv_client [OF inv t I(3) [OF t] refl, of "hs @ o'' # hs'"] by simp
  next
    case (po_move pc pc' p' os)
    have "pc \<noteq> PO_Out" using po_move(3) by auto
    then obtain pc1 p1 os1 where "pool_thread_step t pc (ps_pool s) = Some (pc1, p1, os1)" "step_keeps (ps_pool s) pc p1 pc1 os1"
      using thread_step_keeps [OF I(1) tp] I(3) [OF t] po_move(2) by metis
    then show ?thesis using pool_sys_inv_thread [OF inv t] po_move by simp
  next
    case po_panic
    then show ?thesis using thread_step_keeps [OF I(1) tp I(3) [OF t]] by (metis insertI1 option.distinct(1))
  qed
qed

lemma pool_step_frame:
  assumes "pool_step t s s'" shows "length (ps_pc s') = length (ps_pc s)"
  using assms by cases simp_all

lemma pool_run_inv: "pool_run s0 s \<Longrightarrow> pool_sys_inv s0 \<Longrightarrow> pool_sys_inv s"
  by (induction rule: pool_run.induct) (auto intro: pool_step_inv)

lemma pool_start_inv:
  assumes "pool_ok p" and "pool_addrs p = {#}" and "bp_freed p = []" and "bp_next_addr p = 0" and "allocations (bp_stats p) = 0"
  shows "pool_sys_inv (pool_start p)"
proof -
  have "sum_list (map pc_addrs (map (\<lambda>_. PO_Out) xs)) = {#}" "sum_list (map pc_uncounted (map (\<lambda>_. PO_Out) xs)) = 0"
    for xs :: "thread_batch_cache option list" by (induction xs) simp_all
  then show ?thesis using assms by (simp add: pool_sys_inv_def pool_start_def places_def list_all_length)
qed

lemma pool_with_factory_start:
  assumes "pool_with_factory threads shards scap tls_cap target = Some p"
    and "0 < shards" "0 < target" "target \<le> tls_cap" "tls_cap \<le> 255"
  shows "pool_sys_inv (pool_start p)" and "bp_tls_cap p = tls_cap" and "length (bp_caches p) = threads"
proof -
  have s: "0 < scap" "scap \<le> 255" using assms(1) by (auto simp: pool_with_factory_def shard_new_def split: bind_splits if_splits)
  have e: "bp_freed p = []" "bp_next_addr p = 0" "bp_stats p = stats_new" "bp_tls_cap p = tls_cap"
    using assms(1) by (auto simp: pool_with_factory_def split: bind_splits)
  obtain q where "pool_with_factory threads shards scap tls_cap target = Some q" "pool_ok q" "length (bp_caches q) = threads" "pool_addrs q = {#}"
    by (rule pool_new_ok [OF assms(2) s assms(3-5)])
  then have p: "pool_ok p" "length (bp_caches p) = threads" "pool_addrs p = {#}" using assms(1) by simp_all
  then show "pool_sys_inv (pool_start p)" using pool_start_inv [OF p(1,3) e(1,2)] e(3) by (simp add: stats_new_def)
  show "bp_tls_cap p = tls_cap" "length (bp_caches p) = threads" using e p by simp_all
qed

section \<open>How long an operation takes\<close>

text \<open>The number of steps a thread has still to take, from its program point and the length of its own cache.\<close>

definition own_len :: "nat \<Rightarrow> batch_pool \<Rightarrow> nat" where
  "own_len t p = (case bp_caches p ! t of None \<Rightarrow> 0 | Some c \<Rightarrow> unat (tc_len c))"

fun pool_rank :: "nat \<Rightarrow> nat \<Rightarrow> pool_pc \<Rightarrow> nat" where
  "pool_rank cap l PO_Acquire = 9 + (cap div 2 - l)"
| "pool_rank cap l PO_Refill = 8 + (cap div 2 - l)"
| "pool_rank cap l (PO_First i) = 7 + (cap div 2 - l)"
| "pool_rank cap l (PO_Hydrate i a r al n) = 6 + (cap div 2 - l)"
| "pool_rank cap l (PO_Stats a us) = 1 + length us"
| "pool_rank cap l (PO_Release o') = 3 + l"
| "pool_rank cap l (PO_Spill_Idx a) = 2 + l"
| "pool_rank cap l (PO_Spill i a) = 1 + l"
| "pool_rank cap l _ = 0"

text \<open>A run in which thread \<open>t\<close> takes \<open>n\<close> steps of its operation while the others do anything.\<close>

inductive pool_busy :: "nat \<Rightarrow> pool_sys \<Rightarrow> nat \<Rightarrow> pool_sys \<Rightarrow> bool" for t s0 where
  pb_refl: "pool_busy t s0 0 s0"
| pb_other: "pool_busy t s0 n s \<Longrightarrow> u < length (ps_pc s) \<Longrightarrow> u \<noteq> t \<Longrightarrow> pool_step u s s' \<Longrightarrow> pool_busy t s0 n s'"
| pb_own: "pool_busy t s0 n s \<Longrightarrow> pool_thread_step t (ps_pc s ! t) (ps_pool s) = Some (pc', p', os) \<Longrightarrow>
     pool_busy t s0 (Suc n) \<lparr>ps_pool = p', ps_pc = (ps_pc s)[t := pc'], ps_handles = ps_handles s @ os\<rparr>"

lemma own_len_cache:
  assumes "thread_cache t p = Some c"
  shows "own_len t p = unat (tc_len c)"
  using assms by (auto simp: thread_cache_def own_len_def get_at_def cache_new_def split: if_splits option.splits bind_splits)

lemma own_len_put [simp]: "t < length (bp_caches p) \<Longrightarrow> own_len t (put_cache t c p) = unat (tc_len c)"
  by (simp add: own_len_def put_cache_def)

text \<open>The cache of another thread, and the capacity, stay as they are.\<close>

lemma pool_caches_simps:
  "shard_idx_for_cache c p = Some (i, d, q) \<Longrightarrow> bp_caches q = bp_caches p \<and> bp_tls_cap q = bp_tls_cap p \<and> tc_len d = tc_len c"
  "pop_global i p = Some (b, q) \<Longrightarrow> bp_caches q = bp_caches p \<and> bp_tls_cap q = bp_tls_cap p"
  "push_to_global i a p = Some (r, q) \<Longrightarrow> bp_caches q = bp_caches p \<and> bp_tls_cap q = bp_tls_cap p"
  by (auto simp: shard_idx_for_cache_def assign_shard_idx_def pop_global_def push_to_global_def Let_def
      split: option.splits bind_splits if_splits)

lemma put_cache_frame [simp]:
  "t \<noteq> u \<Longrightarrow> bp_caches (put_cache t c p) ! u = bp_caches p ! u" "bp_tls_cap (put_cache t c p) = bp_tls_cap p"
  "bp_caches (free_batch a p) = bp_caches p" "bp_tls_cap (free_batch a p) = bp_tls_cap p"
  by (simp_all add: put_cache_def free_batch_def)

lemma pool_thread_step_frame:
  assumes "pool_thread_step t pc p = Some (pc', p', os)"
  shows "bp_tls_cap p' = bp_tls_cap p" and "u \<noteq> t \<Longrightarrow> bp_caches p' ! u = bp_caches p ! u"
  using assms
  by (cases "(t, pc, p)" rule: pool_thread_step.cases;
      fastforce simp: Let_def dest!: pool_caches_simps split: bind_splits option.splits if_splits sum.splits prod.splits)+

lemma cache_push_len:
  assumes "cache_push a c = Some (r, d)"
  shows "case r of Inl b \<Rightarrow> d = c | Inr _ \<Rightarrow> unat (tc_len d) = Suc (unat (tc_len c)) \<and> unat (tc_len c) < length (tc_batches c)"
  using assms by (auto simp: cache_push_def Let_def unat_byte_plus_one set_at_def split: if_splits bind_splits)

lemma cache_push_full:
  assumes "cache_push a c = Some (Inl b, d)" shows "unat (tc_len c) = length (tc_batches c)"
  using assms by (auto simp: cache_push_def Let_def split: if_splits bind_splits)

lemma cache_pop_len:
  assumes "cache_pop c = Some (e, d)"
  shows "case e of None \<Rightarrow> d = c | Some b \<Rightarrow> unat (tc_len c) = Suc (unat (tc_len d))"
  using assms by (auto simp: cache_pop_def Let_def unat_byte_minus_one unat_gt_0 Suc_pred split: if_splits bind_splits)

lemma rank_acquire:
  assumes "pool_thread_step t PO_Acquire p = Some (pc', p', os)" and "t < length (bp_caches p)"
  shows "pool_rank cap (own_len t p') pc' < pool_rank cap (own_len t p) PO_Acquire"
proof -
  obtain c e d where c: "thread_cache t p = Some c" "cache_pop c = Some (e, d)"
    using assms(1) by (auto simp: try_acquire_from_tls_def split: bind_splits)
  show ?thesis using assms cache_pop_len [OF c(2)] own_len_cache [OF c(1)]
    by (auto simp: try_acquire_from_tls_def c split: option.splits)
qed

lemma rank_idx:
  assumes "pool_thread_step t pc p = Some (pc', p', os)" and "pc = PO_Refill \<or> pc = PO_Spill_Idx a" and "t < length (bp_caches p)"
  shows "pool_rank cap (own_len t p') pc' < pool_rank cap (own_len t p) pc"
proof -
  obtain c i d q where c: "thread_cache t p = Some c" "shard_idx_for_cache c p = Some (i, d, q)"
    using assms(1,2) by (auto split: bind_splits)
  show ?thesis using assms pool_caches_simps(1) [OF c(2)] own_len_cache [OF c(1)] by (auto simp: c)
qed

lemma rank_hydrate:
  assumes "pool_thread_step t (PO_Hydrate i a r al n) p = Some (pc', p', os)" and "t < length (bp_caches p)" and "pool_ok p"
  shows "pool_rank (bp_tls_cap p) (own_len t p') pc' < pool_rank (bp_tls_cap p) (own_len t p) (PO_Hydrate i a r al n)"
proof -
  obtain c where c: "thread_cache t p = Some c" "cache_good p c" by (rule thread_cache_good [OF assms(3,2)])
  note l = own_len_cache [OF c(1)] and cap = tc_batches_cap [OF c(2)]
  have leave: "pool_rank k m (PO_Stats a (stat_adds r al n)) < 6 + x" for k m x using length_stat_adds [of r al n] by simp
  show ?thesis
  proof (cases "unat (tc_len c) < length (tc_batches c) div 2")
    case False
    then show ?thesis using assms(1) leave by (auto simp: c(1))
  next
    case True
    then obtain b q where q: "pop_global i p = Some (b, q)" using assms(1) by (auto simp: c(1) split: bind_splits)
    show ?thesis
    proof (cases b)
      case None
      then show ?thesis using assms(1) True leave by (auto simp: c(1) q)
    next
      case (Some e)
      obtain x d where x: "cache_push e c = Some (x, d)" using assms(1) True Some by (auto simp: c(1) q split: bind_splits)
      have "\<exists>u. x = Inr u" using cache_push_full [of e c _ d] True x by (cases x) auto
      then show ?thesis
        using assms(1,2) True Some cache_push_len [OF x] pool_caches_simps(2) [OF q] l cap by (auto simp: c(1) q x)
    qed
  qed
qed

lemma rank_release:
  assumes "pool_thread_step t (PO_Release o') p = Some (pc', p', os)" and "t < length (bp_caches p)"
  shows "pool_rank cap (own_len t p') pc' < pool_rank cap (own_len t p) (PO_Release o')"
proof -
  obtain a c r d where c: "thread_cache t p = Some c" "cache_push a c = Some (r, d)"
    "(pc', p', os) = (case r of Inr _ \<Rightarrow> (PO_Out, put_cache t d p, []) | Inl batch \<Rightarrow> (PO_Spill_Idx batch, put_cache t d p, []))"
    using assms(1) by (auto simp: Let_def split: bind_splits)
  show ?thesis using c(3) cache_push_len [OF c(2)] own_len_cache [OF c(1)] assms(2) by (auto split: sum.splits)
qed

lemma rank_spill:
  assumes "pool_thread_step t (PO_Spill i a) p = Some (pc', p', os)" and "t < length (bp_caches p)"
  shows "pool_rank cap (own_len t p') pc' < pool_rank cap (own_len t p) (PO_Spill i a)"
proof -
  obtain c where c: "thread_cache t p = Some c" using assms(1) by (auto split: bind_splits)
  show ?thesis
  proof (cases "bp_target p \<le> unat (tc_len c)")
    case True
    then obtain b d r q where d: "cache_pop c = Some (Some b, d)" "push_to_global i b p = Some (r, q)"
      using assms(1) by (auto simp: c split: bind_splits)
    show ?thesis
      using assms True cache_pop_len [OF d(1)] own_len_cache [OF c] pool_caches_simps(3) [OF d(2)]
      by (auto simp: c d Let_def split: sum.splits)
  next
    case False
    then show ?thesis using assms(1) by (auto simp: c split: bind_splits if_splits)
  qed
qed

lemma pool_rank_step:
  assumes step: "pool_thread_step t pc p = Some (pc', p', os)" and t: "t < length (bp_caches p)" and ok: "pool_ok p"
  shows "pool_rank (bp_tls_cap p) (own_len t p') pc' < pool_rank (bp_tls_cap p) (own_len t p) pc"
proof (cases pc)
  case PO_Acquire
  then show ?thesis using rank_acquire [OF _ t] step by blast
next
  case PO_Refill
  then show ?thesis using rank_idx [OF step _ t] by blast
next
  case (PO_First i)
  obtain b q where q: "pop_global i p = Some (b, q)" using step PO_First by (auto split: bind_splits)
  then have "own_len t q = own_len t p" using pool_caches_simps(2) [OF q] by (simp add: own_len_def)
  then show ?thesis using step PO_First q by (auto simp: own_len_def split: option.splits prod.splits)
next
  case (PO_Hydrate i a r al n)
  then show ?thesis using rank_hydrate [OF _ t ok] step by blast
next
  case (PO_Stats a us)
  then show ?thesis using step by (cases us) auto
next
  case (PO_Release o')
  then show ?thesis using rank_release [OF _ t] step by blast
next
  case (PO_Spill_Idx a)
  then show ?thesis using rank_idx [OF step _ t] by blast
next
  case (PO_Spill i a)
  then show ?thesis using rank_spill [OF _ t] step by blast
qed (use step in simp_all)

lemma pool_step_other:
  assumes "pool_step u s s'" and "u \<noteq> t"
  shows "ps_pc s' ! t = ps_pc s ! t \<and> bp_tls_cap (ps_pool s') = bp_tls_cap (ps_pool s) \<and> own_len t (ps_pool s') = own_len t (ps_pool s)"
  using assms
proof cases
  case (po_move pc pc' p' os)
  then show ?thesis using pool_thread_step_frame [OF po_move(3)] assms(2) by (simp add: own_len_def)
qed simp_all

abbreviation sys_rank :: "nat \<Rightarrow> pool_sys \<Rightarrow> nat" where
  "sys_rank t s \<equiv> pool_rank (bp_tls_cap (ps_pool s)) (own_len t (ps_pool s)) (ps_pc s ! t)"

lemma pool_busy_inv:
  assumes "pool_busy t s0 n s" and "pool_sys_inv s0" and "t < length (ps_pc s0)"
  shows "pool_sys_inv s \<and> t < length (ps_pc s) \<and> n + sys_rank t s \<le> sys_rank t s0"
  using assms
proof (induction rule: pool_busy.induct)
  case pb_refl
  then show ?case by simp
next
  case (pb_other n s u s')
  then have IH: "pool_sys_inv s" "t < length (ps_pc s)" "n + sys_rank t s \<le> sys_rank t s0" by blast+
  have "pool_sys_inv s'" "length (ps_pc s') = length (ps_pc s)"
    using pool_step_inv [OF IH(1) pb_other.hyps(2,4)] pool_step_frame [OF pb_other.hyps(4)] by simp_all
  then show ?case using IH pool_step_other [OF pb_other.hyps(4,3)] by simp
next
  case (pb_own n s pc' p' os)
  then have IH: "pool_sys_inv s" "t < length (ps_pc s)" "n + sys_rank t s \<le> sys_rank t s0" by blast+
  note I = pool_sys_invD [OF IH(1)]
  have "pool_step t s \<lparr>ps_pool = p', ps_pc = (ps_pc s)[t := pc'], ps_handles = ps_handles s @ os\<rparr>"
    by (rule po_move [OF refl pb_own.hyps(2)])
  from pool_step_inv [OF IH(1,2) this] show ?case
    using pool_rank_step [OF pb_own.hyps(2) _ I(1)] pool_thread_step_frame(1) [OF pb_own.hyps(2)] IH I(2) by simp
qed

lemma own_len_bound:
  assumes "pool_ok p" and "t < length (bp_caches p)"
  shows "own_len t p \<le> bp_tls_cap p"
proof -
  obtain c where c: "thread_cache t p = Some c" "cache_good p c" by (rule thread_cache_good [OF assms])
  have "unat (tc_len c) \<le> length (tc_batches c)" using c(2) by (simp add: cache_good_def cache_ok_def slots_ok_def)
  then show ?thesis using own_len_cache [OF c(1)] tc_batches_cap [OF c(2)] by simp
qed

lemma sys_rank_bound:
  assumes "pool_sys_inv s" and "t < length (ps_pc s)"
  shows "sys_rank t s \<le> bp_tls_cap (ps_pool s) + 9"
proof -
  note I = pool_sys_invD [OF assms(1)]
  have "own_len t (ps_pool s) \<le> bp_tls_cap (ps_pool s)" by (rule own_len_bound [OF I(1)]) (use assms(2) I(2) in simp)
  then show ?thesis using I(3) [OF assms(2)] by (cases "ps_pc s ! t") auto
qed

lemma pool_run_cap: "pool_run s0 s \<Longrightarrow> bp_tls_cap (ps_pool s) = bp_tls_cap (ps_pool s0) \<and> length (ps_pc s) = length (ps_pc s0)"
proof (induction rule: pool_run.induct)
  case (por_more s t s')
  have "bp_tls_cap (ps_pool s') = bp_tls_cap (ps_pool s)"
    using por_more.hyps(3) by cases (simp_all add: pool_thread_step_frame(1))
  then show ?case using por_more.IH pool_step_frame [OF por_more.hyps(3)] by simp
qed simp

section \<open>A thread that is not interrupted\<close>

inductive pool_solo :: "nat \<Rightarrow> pool_pc \<Rightarrow> batch_pool \<Rightarrow> batch_pool \<Rightarrow> batch_object list \<Rightarrow> bool" for t where
  psolo_done: "pool_thread_step t pc p = Some (PO_Out, p', os) \<Longrightarrow> pool_solo t pc p p' os"
| psolo_more: "pool_thread_step t pc p = Some (pc', p', []) \<Longrightarrow> pc' \<noteq> PO_Out \<Longrightarrow> pool_solo t pc' p' p'' os \<Longrightarrow>
     pool_solo t pc p p'' os"

lemma put_cache_read [simp]:
  "t < length (bp_caches p) \<Longrightarrow> thread_cache t (put_cache t c p) = Some c" "put_cache t d (put_cache t c p) = put_cache t d p"
  by (simp_all add: thread_cache_def put_cache_def get_at_def)

lemma put_cache_commute:
  "pop_global i p = Some (b, q) \<Longrightarrow> pop_global i (put_cache t c p) = Some (b, put_cache t c q)"
  "push_to_global i a p = Some (r, q) \<Longrightarrow> push_to_global i a (put_cache t c p) = Some (r, put_cache t c q)"
  "shard_idx_for_cache d p = Some (j, d', q) \<Longrightarrow> shard_idx_for_cache d (put_cache t c p) = Some (j, d', put_cache t c q)"
  "free_batch a (put_cache t c p) = put_cache t c (free_batch a p)"
  by (auto simp: pop_global_def push_to_global_def shard_idx_for_cache_def assign_shard_idx_def put_cache_def free_batch_def Let_def
      split: bind_splits option.splits if_splits)

definition with_stats :: "stat_add list \<Rightarrow> batch_pool \<Rightarrow> batch_pool" where
  "with_stats us p = p\<lparr>bp_stats := fold add_stat us (bp_stats p)\<rparr>"

lemma stats_solo: "pool_solo t (PO_Stats a us) p (with_stats us p) [object_acquire a]"
proof (induction us arbitrary: p)
  case Nil
  show ?case by (rule psolo_done) (simp add: with_stats_def)
next
  case (Cons u us)
  show ?case
    by (rule psolo_more [OF pool_thread_step.simps(5)])
      (use Cons [of "p\<lparr>bp_stats := add_stat u (bp_stats p)\<rparr>"] in \<open>simp_all add: with_stats_def\<close>)
qed

lemma hydrate_solo:
  assumes "refill_loop i r c p = Some (n, d, q)" and "t < length (bp_caches p)"
  shows "pool_solo t (PO_Hydrate i a r al m) (put_cache t c p) (with_stats (stat_adds n al m) (put_cache t d q)) [object_acquire a]"
  using assms
proof (induction i r c p rule: refill_loop.induct)
  case (1 i r c p)
  note run = "1.prems"(1) [unfolded refill_loop.simps [of i r c p]]
  have leave: "pool_solo t (PO_Hydrate i a r al m) (put_cache t c p) (with_stats (stat_adds r al m) (put_cache t c p)) [object_acquire a]"
    if "pool_thread_step t (PO_Hydrate i a r al m) (put_cache t c p) = Some (PO_Stats a (stat_adds r al m), put_cache t c p, [])"
    by (rule psolo_more [OF that]) (simp_all add: stats_solo)
  show ?case
  proof (cases "unat (tc_len c) < length (tc_batches c) div 2")
    case False
    then have "n = r" "d = c" "q = p" using run by simp_all
    then show ?thesis using leave False "1.prems"(2) by simp
  next
    case True
    then obtain b p1 where p1: "pop_global i p = Some (b, p1)" using run by (auto split: bind_splits)
    have len: "t < length (bp_caches p1)" using pool_caches_simps(2) [OF p1] "1.prems"(2) by simp
    show ?thesis
    proof (cases b)
      case None
      then have "n = r" "d = c" "q = p1" using run True p1 by simp_all
      moreover have "p1 = p" using p1 None by (auto simp: pop_global_def shard_pop_def Let_def get_at_def split: bind_splits if_splits)
      ultimately show ?thesis using leave True None put_cache_commute(1) [OF p1] "1.prems"(2) by simp
    next
      case (Some e)
      obtain x c' where x: "cache_push e c = Some (x, c')" using run True p1 Some by (auto split: option.splits)
      have y: "\<exists>u. x = Inr u" using run True p1 Some x by (auto split: sum.splits)
      then obtain u where u: "x = Inr u" by blast
      have g: "unat (tc_len c) < unat (tc_len c') \<and> length (tc_batches c') = length (tc_batches c)"
        and rest: "refill_loop i (r + 1) c' p1 = Some (n, d, q)" using run True p1 Some x u by (auto split: if_splits)
      have "pool_thread_step t (PO_Hydrate i a r al m) (put_cache t c p) = Some (PO_Hydrate i a (r + 1) al m, put_cache t c' p1, [])"
        using True "1.prems"(2) put_cache_commute(1) [OF p1] Some x u by simp
      then show ?thesis
        by (rule psolo_more) (use "1.IH" [OF True p1 refl Some x refl u g rest len] in simp_all)
    qed
  qed
qed

lemma refill_stats:
  "fold add_stat (stat_adds reused allocated bytes) st =
     (let st = st\<lparr>tls_misses := tls_misses st + 1\<rparr>;
          st = (if allocated \<noteq> 0 then st\<lparr>allocations := allocations st + allocated,
                  allocated_bytes := allocated_bytes st + bytes\<rparr> else st)
      in if reused \<noteq> 0 then st\<lparr>global_batches_reused := global_batches_reused st + reused\<rparr> else st)"
  by (simp add: stat_adds_def)

lemma refill_tls_cache_cases:
  assumes "refill_tls_cache c p = Some (o', d, q)"
  obtains i c1 p1 r al n a p2 m p3 where "shard_idx_for_cache c p = Some (i, c1, p1)"
    "take_returnable i p1 = Some (r, al, n, a, p2)" "refill_loop i r c1 p2 = Some (m, d, p3)"
    "q = with_stats (stat_adds m al n) p3" "o' = object_acquire a"
proof -
  obtain i c1 p1 where i: "shard_idx_for_cache c p = Some (i, c1, p1)"
    using assms by (auto simp: refill_tls_cache_def split: bind_splits)
  obtain b q0 where "pop_global i p1 = Some (b, q0)" using assms i by (auto simp: refill_tls_cache_def split: bind_splits)
  then have "take_returnable i p1 \<noteq> None" unfolding take_returnable_def by simp
  then obtain r al n a p2 where ret: "take_returnable i p1 = Some (r, al, n, a, p2)" by (metis not_None_eq prod_cases5)
  then have "\<exists>m p3. refill_loop i r c1 p2 = Some (m, d, p3) \<and> q = with_stats (stat_adds m al n) p3 \<and> o' = object_acquire a"
    using assms unfolding refill_tls_cache_def take_returnable_def with_stats_def refill_stats Let_def
    by (auto simp: i split: bind_splits prod.splits option.splits)
  then show thesis using that [OF i ret] by blast
qed

lemma acquire_solo:
  assumes "acquire_object t p = Some (o', p')" and t: "t < length (bp_caches p)"
  shows "pool_solo t PO_Acquire p p' [o']"
proof -
  obtain c e d where c: "thread_cache t p = Some c" "cache_pop c = Some (e, d)"
    using assms(1) by (auto simp: acquire_object_def try_acquire_from_tls_def split: bind_splits)
  show ?thesis
  proof (cases e)
    case (Some a)
    then have "pool_thread_step t PO_Acquire p = Some (PO_Out, p', [o'])"
      using assms(1) by (simp add: acquire_object_def c try_acquire_from_tls_def)
    then show ?thesis by (rule psolo_done)
  next
    case None
    then have dc: "d = c" using cache_pop_len [OF c(2)] by simp
    obtain x q where q: "refill_tls_cache d p = Some (o', x, q)" "p' = put_cache t x q"
      using assms(1) None by (auto simp: acquire_object_def c try_acquire_from_tls_def split: bind_splits)
    obtain i c1 p1 r al n a p2 m p3 where f: "shard_idx_for_cache d p = Some (i, c1, p1)"
        "take_returnable i p1 = Some (r, al, n, a, p2)" "refill_loop i r c1 p2 = Some (m, x, p3)"
        "q = with_stats (stat_adds m al n) p3" "o' = object_acquire a"
      by (rule refill_tls_cache_cases [OF q(1)])
    obtain b p2' where b: "pop_global i p1 = Some (b, p2')" using f(2) by (auto simp: take_returnable_def split: bind_splits)
    have len: "t < length (bp_caches p1)" "t < length (bp_caches p2)"
      using t pool_caches_simps(1) [OF f(1)] pool_caches_simps(2) [OF b] f(2)
      by (auto simp: take_returnable_def b split: option.splits prod.splits)
    have s1: "pool_thread_step t PO_Acquire p = Some (PO_Refill, put_cache t d p, [])"
      using None by (simp add: c try_acquire_from_tls_def)
    have s2: "pool_thread_step t PO_Refill (put_cache t d p) = Some (PO_First i, put_cache t c1 p1, [])"
      using t put_cache_commute(3) [OF f(1)] by simp
    have s3: "pool_thread_step t (PO_First i) (put_cache t c1 p1) = Some (PO_Hydrate i a r al n, put_cache t c1 p2, [])"
      using f(2) put_cache_commute(1) [OF b] by (cases b) (auto simp: take_returnable_def b put_cache_def split: prod.splits)
    have "p' = with_stats (stat_adds m al n) (put_cache t x p3)" using q(2) f(4) by (simp add: with_stats_def put_cache_def)
    then have "pool_solo t (PO_Hydrate i a r al n) (put_cache t c1 p2) p' [o']" using hydrate_solo [OF f(3) len(2)] f(5) by simp
    from psolo_more [OF s3 _ this] have "pool_solo t (PO_First i) (put_cache t c1 p1) p' [o']" by simp
    from psolo_more [OF s2 _ this] have "pool_solo t PO_Refill (put_cache t d p) p' [o']" by simp
    from psolo_more [OF s1 _ this] show ?thesis by simp
  qed
qed

text \<open>An operation that is not interrupted is a run.\<close>

lemma uninterrupted_run:
  assumes "pool_solo t pc p p' os" and "t < length pcs"
    and "pool_run s0 \<lparr>ps_pool = p, ps_pc = pcs[t := pc], ps_handles = hs\<rparr>"
  shows "pool_run s0 \<lparr>ps_pool = p', ps_pc = pcs[t := PO_Out], ps_handles = hs @ os\<rparr>"
  using assms
proof (induction rule: pool_solo.induct)
  case (psolo_done pc p p' os)
  then show ?case
    using por_more [OF psolo_done.prems(2) _ po_move [of "\<lparr>ps_pool = p, ps_pc = pcs[t := pc], ps_handles = hs\<rparr>" t pc PO_Out p' os]] by simp
next
  case (psolo_more pc p pc' p' p'' os)
  then show ?case
    using por_more [OF psolo_more.prems(2) _ po_move [of "\<lparr>ps_pool = p, ps_pc = pcs[t := pc], ps_handles = hs\<rparr>" t pc pc' p' "[]"]] by simp
qed

section \<open>Properties\<close>

lemma mset_upt_apart:
  assumes "mset xs + R = mset [0 ..< n]"
  shows "distinct xs" and "x \<in> set xs \<Longrightarrow> x \<notin># R"
proof -
  have once: "count (mset xs) x + count R x \<le> 1" for x
    using arg_cong [OF assms, of "\<lambda>m. count m x"] by (simp add: count_mset_set')
  have pos: "x \<in> set xs \<Longrightarrow> 0 < count (mset xs) x" for x by simp
  have "count (mset xs) x = 1" if "x \<in> set xs" for x using once [of x] pos [OF that] by linarith
  then show "distinct xs" by (simp add: distinct_count_atmost_1)
  have "count R x = 0" if "x \<in> set xs" using once [of x] pos [OF that] by linarith
  then show "x \<in> set xs \<Longrightarrow> x \<notin># R" by (simp add: not_in_iff)
qed

text \<open>
  C6.  The batch pool under concurrency: threads acquire, write and release batches in any interleaving of
  their accesses to the shards, the round-robin counter and the statistics, and any thread may give back
  any handle.  No operation panics; every allocation ever made is in exactly one place: a handle, the
  hand of one thread, the cache of one thread, a shard, or freed once; so no two handles share a batch
  and no batch that is retained or freed is held; the pool keeps its invariant (retained batches are idle and empty);
  and once all threads are outside the counter of allocations is exact.
\<close>

theorem pool_concurrent_exclusive:
  assumes "pool_with_factory threads shards scap tls_cap target = Some p"
    and "0 < shards" "0 < target" "target \<le> tls_cap" "tls_cap \<le> 255"
    and "pool_run (pool_start p) s"
  shows "PO_Panic \<notin> set (ps_pc s) \<and> pool_ok (ps_pool s)
    \<and> handle_addrs (ps_handles s) + sum_list (map pc_addrs (ps_pc s)) + pool_addrs (ps_pool s) + mset (bp_freed (ps_pool s))
      = mset [0 ..< bp_next_addr (ps_pool s)]
    \<and> distinct (map (\<lambda>h. ob_addr (bo_inner h)) (ps_handles s))
    \<and> (\<forall>h \<in> set (ps_handles s). ob_addr (bo_inner h) \<notin># pool_addrs (ps_pool s) \<and> ob_addr (bo_inner h) \<notin> set (bp_freed (ps_pool s)))
    \<and> (set (ps_pc s) \<subseteq> {PO_Out} \<longrightarrow> allocations (stats_snapshot (ps_pool s)) = bp_next_addr (ps_pool s))"
proof -
  let ?H = "handle_addrs (ps_handles s)" and ?rest = "sum_list (map pc_addrs (ps_pc s)) + pool_addrs (ps_pool s) + mset (bp_freed (ps_pool s))"
  have inv: "pool_sys_inv s" by (rule pool_run_inv [OF assms(6) pool_with_factory_start(1) [OF assms(1-5)]])
  note I = pool_sys_invD [OF inv]
  have all: "?H + ?rest = mset [0 ..< bp_next_addr (ps_pool s)]" using I(4) by (simp add: places_def union_ac)
  note apart = mset_upt_apart [OF all]
  have "PO_Panic \<notin> set (ps_pc s)" using I(3) by (fastforce simp: in_set_conv_nth)
  moreover have "allocations (bp_stats (ps_pool s)) = bp_next_addr (ps_pool s)" if "set (ps_pc s) \<subseteq> {PO_Out}"
  proof -
    have "sum_list (map pc_uncounted (ps_pc s)) = 0" using that by (auto simp: sum_list_eq_0_iff)
    with I(5) show ?thesis by linarith
  qed
  ultimately show ?thesis using I(1) all apart by (auto simp: stats_snapshot_def union_assoc)
qed

text \<open>Two threads that acquire one after the other.\<close>

lemma acquire_run:
  assumes "pool_run s0 \<lparr>ps_pool = p, ps_pc = pcs, ps_handles = hs\<rparr>" and "t < length pcs" and "pcs ! t = PO_Out"
    and "acquire_object t p = Some (o', p')" and "t < length (bp_caches p)"
  shows "pool_run s0 \<lparr>ps_pool = p', ps_pc = pcs, ps_handles = hs @ [o']\<rparr>"
proof -
  let ?s = "\<lparr>ps_pool = p, ps_pc = pcs, ps_handles = hs\<rparr>"
  have "pool_run s0 \<lparr>ps_pool = p, ps_pc = pcs[t := PO_Acquire], ps_handles = hs\<rparr>"
    using por_more [OF assms(1) _ po_acquire [of ?s t]] assms(2,3) by simp
  from uninterrupted_run [OF acquire_solo [OF assms(4,5)] assms(2) this]
  show ?thesis using assms(2,3) list_update_id [of pcs t] by simp
qed

lemma demo_pool_run:
  obtains s h h' where "pool_run (pool_start demo_pool) s" and "ps_handles s = [h, h']"
proof -
  obtain o1 p1 where a: "acquire_object 0 demo_pool = Some (o1, p1)" "pool_ok p1" "length (bp_caches p1) = length (bp_caches demo_pool)"
    using acquire_object_ok [OF demo_pool_ok(1), of 0] demo_pool_ok(2) by (metis zero_less_numeral)
  obtain o2 p2 where b: "acquire_object 1 p1 = Some (o2, p2)"
    using acquire_object_ok [OF a(2), of 1] a(3) demo_pool_ok(2) by (metis one_less_numeral_iff semiring_norm(76))
  have st: "pool_start demo_pool = \<lparr>ps_pool = demo_pool, ps_pc = [PO_Out, PO_Out], ps_handles = []\<rparr>"
    using demo_pool_ok(2) by (cases "bp_caches demo_pool"; cases "tl (bp_caches demo_pool)") (auto simp: pool_start_def)
  have "pool_run (pool_start demo_pool) \<lparr>ps_pool = p1, ps_pc = [PO_Out, PO_Out], ps_handles = [] @ [o1]\<rparr>"
    by (rule acquire_run [OF _ _ _ a(1)]) (use demo_pool_ok(2) por_refl [of "pool_start demo_pool"] st in simp_all)
  from acquire_run [OF this _ _ b] show thesis using that a(3) demo_pool_ok(2) by simp
qed

lemma demo_pool_new: "pool_with_factory 2 4 16 8 4 = Some demo_pool"
  by (rule pool_new_ok [of 4 16 4 8 2]; simp add: demo_pool_def)

theorem pool_concurrent_exclusive_witness:
  "\<exists>s h h'. pool_run (pool_start demo_pool) s \<and> ps_handles s = [h, h'] \<and> ob_addr (bo_inner h) \<noteq> ob_addr (bo_inner h')"
proof -
  obtain s h h' where s: "pool_run (pool_start demo_pool) s" "ps_handles s = [h, h']" by (rule demo_pool_run)
  have "distinct (map (\<lambda>h. ob_addr (bo_inner h)) (ps_handles s))"
    using pool_concurrent_exclusive [OF demo_pool_new _ _ _ _ s(1)] by simp
  then show ?thesis using s by auto
qed

text \<open>
  C7.  The operations of the pool are wait-free up to the mutexes of the shards: whatever the other threads
  do, a thread that has called \<open>acquire_object\<close> or \<open>release\<close> returns after at most \<open>TLS_CAP + 9\<close> of its own
  steps, and until then its next step is always possible.
\<close>

theorem pool_operations_finish:
  assumes "pool_with_factory threads shards scap tls_cap target = Some p"
    and "0 < shards" "0 < target" "target \<le> tls_cap" "tls_cap \<le> 255"
    and "pool_run (pool_start p) s" and "t < threads" and "pool_busy t s n s'"
  shows "n \<le> tls_cap + 9 \<and> (ps_pc s' ! t \<noteq> PO_Out \<longrightarrow> (\<exists>pc' p' os. pool_thread_step t (ps_pc s' ! t) (ps_pool s') = Some (pc', p', os)))"
proof -
  note st = pool_with_factory_start [OF assms(1-5)]
  have inv: "pool_sys_inv s" by (rule pool_run_inv [OF assms(6) st(1)])
  have s: "bp_tls_cap (ps_pool s) = tls_cap" "t < length (ps_pc s)"
    using pool_run_cap [OF assms(6)] st(2,3) assms(7) by (simp_all add: pool_start_def)
  have b: "pool_sys_inv s'" "t < length (ps_pc s')" "n + sys_rank t s' \<le> sys_rank t s"
    using pool_busy_inv [OF assms(8) inv s(2)] by blast+
  note I = pool_sys_invD [OF b(1)]
  have "\<exists>pc' p' os. pool_thread_step t (ps_pc s' ! t) (ps_pool s') = Some (pc', p', os)" if "ps_pc s' ! t \<noteq> PO_Out"
    using thread_step_keeps [OF I(1) _ I(3) [OF b(2)] that] b(2) I(2) by metis
  then show ?thesis using b(3) sys_rank_bound [OF inv s(2)] s(1) by auto
qed

text \<open>The first step of an \<open>acquire_object\<close>.\<close>

lemma demo_pool_busy:
  obtains s s' where "pool_run (pool_start demo_pool) s" and "pool_busy 0 s 1 s'" and "ps_pc s ! 0 = PO_Acquire"
proof -
  let ?start = "pool_start demo_pool"
  let ?s = "?start\<lparr>ps_pc := (ps_pc ?start)[0 := PO_Acquire]\<rparr>"
  have l: "0 < length (bp_caches demo_pool)" unfolding demo_pool_ok(2) by simp
  then have len: "0 < length (ps_pc ?start)" "ps_pc ?start ! 0 = PO_Out" "ps_pool ?start = demo_pool" by (simp_all add: pool_start_def)
  have "pool_run ?start ?s" by (rule por_more [OF por_refl len(1) po_acquire [OF len(2)]])
  moreover obtain pc' p' os where "pool_thread_step 0 PO_Acquire demo_pool = Some (pc', p', os)"
    by (rule acquire_step_keeps [OF demo_pool_ok(1) l])
  then have "pool_busy 0 ?s (Suc 0) \<lparr>ps_pool = p', ps_pc = (ps_pc ?s)[0 := pc'], ps_handles = ps_handles ?s @ os\<rparr>"
    by (intro pb_own [OF pb_refl]) (use len in simp)
  ultimately show thesis using that len(1) by auto
qed

theorem pool_operations_finish_witness:
  "\<exists>s s'. pool_run (pool_start demo_pool) s \<and> pool_busy 0 s 1 s' \<and> ps_pc s ! 0 = PO_Acquire \<and> 1 \<le> (8 + 9 :: nat)
    \<and> (ps_pc s' ! 0 \<noteq> PO_Out \<longrightarrow> (\<exists>pc' p' os. pool_thread_step 0 (ps_pc s' ! 0) (ps_pool s') = Some (pc', p', os)))"
proof -
  obtain s s' where s: "pool_run (pool_start demo_pool) s" "pool_busy 0 s 1 s'" "ps_pc s ! 0 = PO_Acquire" by (rule demo_pool_busy)
  then show ?thesis
    using pool_operations_finish [OF demo_pool_new _ _ _ _ s(1) _ s(2)] by (intro exI [of _ s] exI [of _ s']) simp
qed

end
