(* ===== verification/Hazard_Domain.thy ===== *)
theory Hazard_Domain
  imports Ord_Prelude
begin

text \<open>
  Hazard-pointer records and their domain (\<open>crates/mem/src/hazard/domain.rs\<close> and
  \<open>hazard_ptr.rs\<close>).  Records are numbered in the order they are boxed and never freed; a raw
  pointer to a record is its number or \<open>None\<close> for null.  The head of the list of available
  records carries the lock bit beside the pointer.  The first part runs one thread at a time, with a
  compare-exchange that succeeds when the value is the expected one; the last part interleaves threads
  inside \<open>try_acquire_available\<close>.  Objects are addresses, and the values a shared source pointer
  has at its successive loads are a function of the load's number.
\<close>

section \<open>Definitions\<close>

type_synonym rec_ptr = "nat option"

record hzd_ptr_rec =
  hr_ptr :: "nat option"
  hr_next :: rec_ptr
  hr_available :: rec_ptr

text \<open>\<open>HazPtrRecs\<close> of a domain; \<open>dm_recs\<close> is the memory of the boxed records.\<close>

record hzd_domain =
  dm_recs :: "hzd_ptr_rec list"
  dm_head :: rec_ptr
  dm_avail_head :: rec_ptr
  dm_avail_lock :: bool
  dm_count :: nat

definition domain_new :: hzd_domain where
  "domain_new = \<lparr>dm_recs = [], dm_head = None, dm_avail_head = None, dm_avail_lock = False, dm_count = 0\<rparr>"

text \<open>Field accesses through a record pointer.\<close>

definition load_available :: "nat \<Rightarrow> hzd_domain \<Rightarrow> rec_ptr option" where
  "load_available r d = map_option hr_available (get_at r (dm_recs d))"

definition store_available :: "nat \<Rightarrow> rec_ptr \<Rightarrow> hzd_domain \<Rightarrow> hzd_domain option" where
  "store_available r v d =
     do {
       x \<leftarrow> get_at r (dm_recs d);
       Some (d\<lparr>dm_recs := (dm_recs d)[r := x\<lparr>hr_available := v\<rparr>]\<rparr>)
     }"

definition rec_protect :: "nat \<Rightarrow> nat option \<Rightarrow> hzd_domain \<Rightarrow> hzd_domain option" where
  "rec_protect r p d =
     do {
       x \<leftarrow> get_at r (dm_recs d);
       Some (d\<lparr>dm_recs := (dm_recs d)[r := x\<lparr>hr_ptr := p\<rparr>]\<rparr>)
     }"

definition rec_reset :: "nat \<Rightarrow> hzd_domain \<Rightarrow> hzd_domain option" where
  "rec_reset r d = rec_protect r None d"

definition acquire_new_rec :: "hzd_domain \<Rightarrow> nat \<times> hzd_domain" where
  "acquire_new_rec d =
     (let r = length (dm_recs d)
      in (r, d\<lparr>dm_recs := dm_recs d @ [\<lparr>hr_ptr = None, hr_next = dm_head d, hr_available = None\<rparr>],
               dm_head := Some r, dm_count := dm_count d + 1\<rparr>))"

text \<open>The walk over the stolen list: the last record taken, the one after it and the number taken.\<close>

function steal_walk :: "nat \<Rightarrow> hzd_domain \<Rightarrow> nat \<Rightarrow> rec_ptr \<Rightarrow> nat \<Rightarrow> (nat \<times> rec_ptr \<times> nat) option" where
  "steal_walk N d tail nxt n =
     (case nxt of
        None \<Rightarrow> Some (tail, None, n)
      | Some r \<Rightarrow>
          if n < N then do { nxt' \<leftarrow> load_available r d; steal_walk N d r nxt' (n + 1) }
          else Some (tail, nxt, n))"
  by pat_completeness auto
termination by (relation "measure (\<lambda>(N, d, tail, nxt, n). N - n)") auto

declare steal_walk.simps [simp del]

definition try_acquire_available_locked ::
  "nat \<Rightarrow> rec_ptr \<Rightarrow> hzd_domain \<Rightarrow> ((rec_ptr \<times> nat) \<times> hzd_domain) option" where
  "try_acquire_available_locked N stolen_head d =
     do {
       assert_that (1 \<le> N);
       h \<leftarrow> stolen_head;
       nxt \<leftarrow> load_available h d;
       (tail, nxt, n) \<leftarrow> steal_walk N d h nxt 1;
       let d = d\<lparr>dm_avail_head := nxt, dm_avail_lock := False\<rparr>;
       d \<leftarrow> store_available tail None d;
       Some ((stolen_head, n), d)
     }"

partial_function (option) try_acquire_available ::
  "nat \<Rightarrow> hzd_domain \<Rightarrow> ((rec_ptr \<times> nat) \<times> hzd_domain) option" where
  "try_acquire_available N d =
     Option.bind (assert_that (1 \<le> N)) (\<lambda>_.
       if dm_avail_head d = None \<and> \<not> dm_avail_lock d then Some ((None, 0), d)
       else if \<not> dm_avail_lock d
       then Option.bind (try_acquire_available_locked N (dm_avail_head d) (d\<lparr>dm_avail_lock := True\<rparr>)) (\<lambda>((p, n), d).
         Option.bind (assert_that (1 \<le> n \<and> n \<le> N)) (\<lambda>_. Some ((p, n), d)))
       else try_acquire_available N d)"

declare try_acquire_available.simps [code]

text \<open>The loop of \<open>acquire_many\<close>: first along the stolen list, then with new records linked behind
  the last one.\<close>

fun acquire_loop :: "nat \<Rightarrow> rec_ptr \<Rightarrow> rec_ptr \<Rightarrow> hzd_domain \<Rightarrow> (nat list \<times> hzd_domain) option" where
  "acquire_loop 0 head tail d = Some ([], d)"
| "acquire_loop (Suc k) head tail d =
     (case head of
        Some r \<Rightarrow>
          do {
            head \<leftarrow> load_available r d;
            (rs, d) \<leftarrow> acquire_loop k head (Some r) d;
            Some (r # rs, d)
          }
      | None \<Rightarrow>
          do {
            let (r, d) = acquire_new_rec d;
            d \<leftarrow> (case tail of None \<Rightarrow> Some d | Some t \<Rightarrow> store_available t (Some r) d);
            (rs, d) \<leftarrow> acquire_loop k None (Some r) d;
            Some (r # rs, d)
          })"

definition acquire_many :: "nat \<Rightarrow> hzd_domain \<Rightarrow> (nat list \<times> hzd_domain) option" where
  "acquire_many N d =
     do {
       assert_that (1 \<le> N);
       ((head, n), d) \<leftarrow> try_acquire_available N d;
       assert_that (n \<le> N);
       acquire_loop N head None d
     }"

definition hazard_acquire :: "hzd_domain \<Rightarrow> (nat \<times> hzd_domain) option" where
  "hazard_acquire d = do { (rs, d) \<leftarrow> acquire_many 1 d; r \<leftarrow> get_at 0 rs; Some (r, d) }"

partial_function (option) push_loop :: "nat \<Rightarrow> nat \<Rightarrow> hzd_domain \<Rightarrow> hzd_domain option" where
  "push_loop head tail d =
     (if dm_avail_lock d then push_loop head tail d
      else Option.bind (store_available tail (dm_avail_head d) d) (\<lambda>d. Some (d\<lparr>dm_avail_head := Some head\<rparr>)))"

declare push_loop.simps [code]

definition push_available :: "nat \<Rightarrow> nat \<Rightarrow> hzd_domain \<Rightarrow> hzd_domain option" where
  "push_available head tail d =
     do {
       a \<leftarrow> load_available tail d;
       assert_that (a = None);
       push_loop head tail d
     }"

definition hazard_release :: "nat \<Rightarrow> hzd_domain \<Rightarrow> hzd_domain option" where
  "hazard_release r d =
     do {
       a \<leftarrow> load_available r d;
       assert_that (a = None);
       push_available r r d
     }"

definition release_many :: "nat list \<Rightarrow> hzd_domain \<Rightarrow> hzd_domain option" where
  "release_many records d =
     do {
       head \<leftarrow> get_at 0 records;
       let tail = last records;
       a \<leftarrow> load_available tail d;
       assert_that (a = None);
       push_available head tail d
     }"

definition retire_ptr :: "nat \<Rightarrow> hzd_domain \<Rightarrow> nat \<times> hzd_domain" where
  "retire_ptr p d = (0, d)"

subsection \<open>Hazard pointers\<close>

text \<open>\<open>src i\<close> is the value the \<open>i\<close>-th load of the source pointer returns.\<close>

definition try_protect_ptr ::
  "nat \<Rightarrow> nat option \<Rightarrow> (nat \<Rightarrow> nat option) \<Rightarrow> nat \<Rightarrow> hzd_domain \<Rightarrow> ((nat option + nat option) \<times> hzd_domain) option" where
  "try_protect_ptr r ptr src i d =
     do {
       d \<leftarrow> rec_protect r ptr d;
       let re_check_src = src i;
       if ptr \<noteq> re_check_src then do { d \<leftarrow> rec_reset r d; Some (Inl re_check_src, d) }
       else Some (Inr ptr, d)
     }"

partial_function (option) protect_loop ::
  "nat \<Rightarrow> nat option \<Rightarrow> (nat \<Rightarrow> nat option) \<Rightarrow> nat \<Rightarrow> hzd_domain \<Rightarrow> (nat option \<times> hzd_domain) option" where
  "protect_loop r ptr src i d =
     Option.bind (try_protect_ptr r ptr src i d) (\<lambda>(res, d).
       case res of
         Inr p \<Rightarrow> Some (p, d)
       | Inl ptr2 \<Rightarrow> protect_loop r ptr2 src (Suc i) d)"

declare protect_loop.simps [code]

definition protect_ptr :: "nat \<Rightarrow> (nat \<Rightarrow> nat option) \<Rightarrow> hzd_domain \<Rightarrow> (nat option \<times> hzd_domain) option" where
  "protect_ptr r src d = protect_loop r (src 0) src 1 d"

text \<open>\<open>protect\<close> turns the pointer into a reference, none for a null pointer.\<close>

definition hzd_ptr_protect :: "nat \<Rightarrow> (nat \<Rightarrow> nat option) \<Rightarrow> hzd_domain \<Rightarrow> (nat option \<times> hzd_domain) option" where
  "hzd_ptr_protect r src d = protect_ptr r src d"

definition new_in_domain :: "hzd_domain \<Rightarrow> (nat \<times> hzd_domain) option" where
  "new_in_domain d = hazard_acquire d"

definition many_in_domain :: "nat \<Rightarrow> hzd_domain \<Rightarrow> (nat list \<times> hzd_domain) option" where
  "many_in_domain N d = acquire_many N d"

text \<open>\<open>unique_domain!\<close>: the flag \<open>USED\<close> of an expansion is set by the first execution, later ones panic.\<close>

definition unique_domain :: "bool \<Rightarrow> (hzd_domain \<times> bool) option" where
  "unique_domain used = (if \<not> used then Some (domain_new, True) else None)"

definition reset_protection :: "nat \<Rightarrow> hzd_domain \<Rightarrow> hzd_domain option" where
  "reset_protection r d = rec_reset r d"

text \<open>Dropping a single hazard pointer ends in \<open>todo!()\<close>.\<close>

definition hzd_ptr_drop :: "nat \<Rightarrow> hzd_domain \<Rightarrow> hzd_domain option" where
  "hzd_ptr_drop r d = do { d \<leftarrow> rec_reset r d; None }"

fun protect_all :: "nat list \<Rightarrow> (nat \<Rightarrow> nat option) list \<Rightarrow> hzd_domain \<Rightarrow> (nat option list \<times> hzd_domain) option" where
  "protect_all (r # rs) (src # srcs) d =
     do {
       (p, d) \<leftarrow> hzd_ptr_protect r src d;
       (ps, d) \<leftarrow> protect_all rs srcs d;
       Some (p # ps, d)
     }"
| "protect_all _ _ d = Some ([], d)"

fun array_reset_protection :: "nat list \<Rightarrow> hzd_domain \<Rightarrow> hzd_domain option" where
  "array_reset_protection [] d = Some d"
| "array_reset_protection (r # rs) d = do { d \<leftarrow> reset_protection r d; array_reset_protection rs d }"

definition hzd_ptr_array_drop :: "nat list \<Rightarrow> hzd_domain \<Rightarrow> hzd_domain option" where
  "hzd_ptr_array_drop rs d = do { d \<leftarrow> array_reset_protection rs d; release_many rs d }"

subsection \<open>Threads inside \<open>try_acquire_available\<close>\<close>

text \<open>
  Where a thread is: before the load of \<open>avail_head\<close>, between it and the \<open>fetch_or\<close>, holding
  the lock with the head it loaded, returned, or past the access through a head it loaded with the lock
  bit set, which is not the address of a record.
\<close>

datatype acq_pc = AStart | ALoaded rec_ptr bool | ALocked rec_ptr | AReturned rec_ptr nat | AInvalid

record acq_sys =
  as_dom :: hzd_domain
  as_pc :: "nat \<Rightarrow> acq_pc"

inductive acq_step :: "nat \<Rightarrow> nat \<Rightarrow> acq_sys \<Rightarrow> acq_sys \<Rightarrow> bool" for N :: nat and i :: nat where
  acq_load: "as_pc s i = AStart \<Longrightarrow>
     acq_step N i s (s\<lparr>as_pc := (as_pc s)(i := ALoaded (dm_avail_head (as_dom s)) (dm_avail_lock (as_dom s)))\<rparr>)"
| acq_empty: "as_pc s i = ALoaded None False \<Longrightarrow>
     acq_step N i s (s\<lparr>as_pc := (as_pc s)(i := AReturned None 0)\<rparr>)"
| acq_lock: "as_pc s i = ALoaded h b \<Longrightarrow> h \<noteq> None \<or> b \<Longrightarrow> \<not> dm_avail_lock (as_dom s) \<Longrightarrow>
     acq_step N i s (s\<lparr>as_dom := (as_dom s)\<lparr>dm_avail_lock := True\<rparr>,
                     as_pc := (as_pc s)(i := (if b then AInvalid else ALocked h))\<rparr>)"
| acq_busy: "as_pc s i = ALoaded h b \<Longrightarrow> h \<noteq> None \<or> b \<Longrightarrow> dm_avail_lock (as_dom s) \<Longrightarrow>
     acq_step N i s (s\<lparr>as_pc := (as_pc s)(i := AStart)\<rparr>)"
| acq_take: "as_pc s i = ALocked h \<Longrightarrow>
     try_acquire_available_locked N h (as_dom s) = Some ((p, n), d) \<Longrightarrow>
     acq_step N i s (s\<lparr>as_dom := d, as_pc := (as_pc s)(i := AReturned p n)\<rparr>)"

inductive acq_run :: "nat \<Rightarrow> acq_sys \<Rightarrow> acq_sys \<Rightarrow> bool" for N s0 where
  acq_refl: "acq_run N s0 s0"
| acq_more: "acq_run N s0 s \<Longrightarrow> acq_step N i s t \<Longrightarrow> acq_run N s0 t"

section \<open>Chains of available records\<close>

text \<open>The records reached from a pointer by the \<open>available\<close> links.\<close>

fun avail_chain :: "hzd_domain \<Rightarrow> rec_ptr \<Rightarrow> nat list \<Rightarrow> bool" where
  "avail_chain d p [] \<longleftrightarrow> p = None"
| "avail_chain d p (r # rs) \<longleftrightarrow> p = Some r \<and> r < length (dm_recs d) \<and> avail_chain d (hr_available (dm_recs d ! r)) rs"

abbreviation next_opt :: "nat list \<Rightarrow> rec_ptr" where
  "next_opt xs \<equiv> (case xs of [] \<Rightarrow> None | x # _ \<Rightarrow> Some x)"

definition slot :: "hzd_domain \<Rightarrow> nat \<Rightarrow> nat option" where
  "slot d r = hr_ptr (dm_recs d ! r)"

definition domain_ok :: "hzd_domain \<Rightarrow> nat list \<Rightarrow> bool" where
  "domain_ok d av \<longleftrightarrow> avail_chain d (dm_avail_head d) av \<and> distinct av \<and> \<not> dm_avail_lock d"

lemma avail_chain_head: "avail_chain d p rs \<Longrightarrow> p = next_opt rs"
  by (cases rs) auto

lemma avail_chain_bound: "avail_chain d p rs \<Longrightarrow> r \<in> set rs \<Longrightarrow> r < length (dm_recs d)"
  by (induction rs arbitrary: p) auto

lemma load_available_ok: "r < length (dm_recs d) \<Longrightarrow> load_available r d = Some (hr_available (dm_recs d ! r))"
  by (simp add: load_available_def get_at_def)

lemma avail_chain_cong:
  assumes "length (dm_recs d) \<le> length (dm_recs d')"
    and "\<And>r. r \<in> set rs \<Longrightarrow> hr_available (dm_recs d' ! r) = hr_available (dm_recs d ! r)"
  shows "avail_chain d p rs \<Longrightarrow> avail_chain d' p rs"
  using assms(2)
proof (induction rs arbitrary: p)
  case (Cons r rs)
  have "avail_chain d' (hr_available (dm_recs d ! r)) rs" using Cons.prems by (intro Cons.IH) auto
  then show ?case using Cons.prems assms(1) by simp
qed simp

lemma avail_chain_append:
  "avail_chain d p (xs @ ys) \<Longrightarrow> xs \<noteq> [] \<Longrightarrow> avail_chain d (hr_available (dm_recs d ! last xs)) ys"
  by (induction xs arbitrary: p) (auto split: if_splits)

text \<open>A store to the link of the last record of a chain replaces what follows it.\<close>

lemma avail_chain_set_last:
  assumes "avail_chain d p (xs @ zs)" and "xs \<noteq> []" and "distinct xs" and "length (dm_recs d) \<le> length (dm_recs d')"
    and "\<And>r. r \<in> set xs \<Longrightarrow> hr_available (dm_recs d' ! r) = (if r = last xs then v else hr_available (dm_recs d ! r))"
    and "avail_chain d' v ys"
  shows "avail_chain d' p (xs @ ys)"
  using assms(1-3,5)
proof (induction xs arbitrary: p)
  case (Cons x xs)
  show ?case
  proof (cases "xs = []")
    case True
    then show ?thesis using Cons.prems(1) Cons.prems(4) [of x] assms(4,6) by simp
  next
    case False
    have "avail_chain d' (hr_available (dm_recs d ! x)) (xs @ ys)"
      using Cons.prems False by (intro Cons.IH) auto
    moreover have "hr_available (dm_recs d' ! x) = hr_available (dm_recs d ! x)"
      using Cons.prems(3) Cons.prems(4) [of x] False last_in_set [of xs] by auto
    ultimately show ?thesis using Cons.prems(1) assms(4) by simp
  qed
qed simp

lemma store_available_ok:
  assumes "r < length (dm_recs d)"
  shows "store_available r v d = Some (d\<lparr>dm_recs := (dm_recs d)[r := (dm_recs d ! r)\<lparr>hr_available := v\<rparr>]\<rparr>)"
  using assms by (simp add: store_available_def get_at_def)

lemma steal_walk_ok:
  assumes "avail_chain d nxt rs" and "n \<le> N"
  shows "steal_walk N d tail nxt n = Some (last (tail # take (N - n) rs), next_opt (drop (N - n) rs), n + min (N - n) (length rs))"
  using assms
proof (induction rs arbitrary: tail nxt n)
  case Nil
  then show ?case by (simp add: steal_walk.simps)
next
  case (Cons r rs)
  show ?case
  proof (cases "n < N")
    case True
    have r: "r < length (dm_recs d)" "nxt = Some r" using Cons.prems(1) by simp_all
    have "steal_walk N d r (hr_available (dm_recs d ! r)) (n + 1) =
        Some (last (r # take (N - (n + 1)) rs), next_opt (drop (N - (n + 1)) rs), n + 1 + min (N - (n + 1)) (length rs))"
      using Cons.prems True by (intro Cons.IH) simp_all
    moreover have "N - n = Suc (N - (n + 1))" using True by simp
    ultimately show ?thesis
      using True r by (subst steal_walk.simps) (simp add: load_available_ok)
  next
    case False
    then show ?thesis using Cons.prems by (subst steal_walk.simps) simp
  qed
qed

lemma acquire_locked_ok:
  assumes "avail_chain d (Some h) av" and "1 \<le> N"
  shows "try_acquire_available_locked N (Some h) d = Some ((Some h, min N (length av)),
    d\<lparr>dm_avail_head := next_opt (drop N av), dm_avail_lock := False,
      dm_recs := (dm_recs d)[last (take N av) := (dm_recs d ! last (take N av))\<lparr>hr_available := None\<rparr>]\<rparr>)"
proof -
  obtain rs where av: "av = h # rs" "h < length (dm_recs d)" "avail_chain d (hr_available (dm_recs d ! h)) rs"
    using assms(1) by (cases av) auto
  obtain M where N: "N = Suc M" using assms(2) by (cases N) auto
  let ?t = "last (h # take M rs)"
  have "?t \<in> set (h # take M rs)" by (rule last_in_set) simp
  then have "?t \<in> set av" using av(1) set_take_subset [of M rs] by auto
  then have t: "?t < length (dm_recs d)" by (rule avail_chain_bound [OF assms(1)])
  have "steal_walk N d h (hr_available (dm_recs d ! h)) 1 = Some (?t, next_opt (drop M rs), 1 + min M (length rs))"
    using steal_walk_ok [OF av(3), of 1 N h] N by simp
  then show ?thesis
    using assms(2) av N t
    by (simp add: try_acquire_available_locked_def load_available_ok store_available_ok del: last.simps)
qed

text \<open>The stolen part ends in null and the rest stays available.\<close>

lemma try_acquire_available_ok:
  assumes "domain_ok d av" and "1 \<le> N"
  obtains d' where "try_acquire_available N d = Some ((next_opt av, min N (length av)), d')"
    and "avail_chain d' (next_opt av) (take N av)" and "domain_ok d' (drop N av)"
    and "length (dm_recs d') = length (dm_recs d)" and "dm_count d' = dm_count d"
proof (cases av)
  case Nil
  then have d: "dm_avail_head d = None" "\<not> dm_avail_lock d" using assms(1) by (simp_all add: domain_ok_def)
  then have "try_acquire_available N d = Some ((None, 0), d)"
    using assms(2) by (subst try_acquire_available.simps) simp
  then show thesis using that [of d] Nil assms(1) by simp
next
  case (Cons h rs)
  let ?xs = "take N av" and ?ys = "drop N av"
  have chain: "avail_chain d (Some h) av" and dist: "distinct av" and "dm_avail_head d = Some h" "\<not> dm_avail_lock d"
    using assms(1) Cons avail_chain_head by (fastforce simp: domain_ok_def)+
  let ?d = "d\<lparr>dm_avail_head := next_opt ?ys, dm_avail_lock := False,
      dm_recs := (dm_recs d)[last ?xs := (dm_recs d ! last ?xs)\<lparr>hr_available := None\<rparr>]\<rparr>"
  have ne: "?xs \<noteq> []" using Cons assms(2) by (cases N) auto
  have split: "avail_chain d (Some h) (?xs @ ?ys)" using chain by simp
  have disj: "set ?xs \<inter> set ?ys = {}" using dist by (metis append_take_drop_id distinct_append)
  have chain': "avail_chain (d\<lparr>dm_avail_lock := True\<rparr>) (Some h) av" by (rule avail_chain_cong [OF _ _ chain]) simp_all
  have run: "try_acquire_available N d = Some ((Some h, min N (length av)), ?d)"
    using assms(2) \<open>dm_avail_head d = Some h\<close> \<open>\<not> dm_avail_lock d\<close> Cons acquire_locked_ok [OF chain' assms(2)]
    by (subst try_acquire_available.simps) simp
  have last: "last ?xs < length (dm_recs d)"
    using avail_chain_bound [OF chain] in_set_takeD [OF last_in_set [OF ne]] by blast
  have "avail_chain ?d (Some h) (?xs @ [])"
    by (rule avail_chain_set_last [OF split ne]) (use dist last in \<open>auto simp: nth_list_update\<close>)
  moreover have "avail_chain d (next_opt ?ys) ?ys"
    using avail_chain_append [OF split ne] avail_chain_head by metis
  then have "avail_chain ?d (next_opt ?ys) ?ys"
  proof (rule avail_chain_cong [rotated 2])
    fix r assume "r \<in> set ?ys"
    then have "r \<noteq> last ?xs" using disj last_in_set [OF ne] by blast
    then show "hr_available (dm_recs ?d ! r) = hr_available (dm_recs d ! r)" by simp
  qed simp
  ultimately show thesis
    using that [of ?d] run Cons dist by (simp add: domain_ok_def del: take.simps drop.simps)
qed

section \<open>Acquiring records\<close>

text \<open>Along the stolen list the loop only loads; when it is exhausted the loop appends.\<close>

lemma acquire_loop_stolen:
  assumes "avail_chain d p rs" and "length rs \<le> k"
  shows "acquire_loop k p tail d =
    map_option (map_prod ((@) rs) id)
      (acquire_loop (k - length rs) None (if rs = [] then tail else Some (last rs)) d)"
  using assms
proof (induction rs arbitrary: p k tail)
  case Nil
  then show ?case by (simp add: option.map_ident map_prod_def)
next
  case (Cons r rs)
  obtain k' where k: "k = Suc k'" using Cons.prems(2) by (cases k) auto
  have "r < length (dm_recs d)" "p = Some r" using Cons.prems(1) by simp_all
  moreover have "acquire_loop k' (hr_available (dm_recs d ! r)) (Some r) d =
      map_option (map_prod ((@) rs) id)
        (acquire_loop (k' - length rs) None (if rs = [] then Some r else Some (last rs)) d)"
    using Cons.prems k by (intro Cons.IH) simp_all
  ultimately show ?case
    using k by (auto simp: load_available_ok split: option.splits bind_splits)
qed

text \<open>New records are numbered on from the records there are, each linked to the next.\<close>

lemma acquire_loop_new:
  assumes "\<And>t. tail = Some t \<Longrightarrow> t < length (dm_recs d)"
  obtains d' where "acquire_loop k None tail d = Some ([length (dm_recs d)..<length (dm_recs d) + k], d')"
    and "length (dm_recs d') = length (dm_recs d) + k" and "dm_count d' = dm_count d + k"
    and "dm_avail_head d' = dm_avail_head d" and "dm_avail_lock d' = dm_avail_lock d"
    and "\<And>r. r < length (dm_recs d) + k \<Longrightarrow> hr_available (dm_recs d' ! r) =
      (if length (dm_recs d) \<le> r then if Suc r < length (dm_recs d) + k then Some (Suc r) else None
       else if 0 < k \<and> tail = Some r then Some (length (dm_recs d)) else hr_available (dm_recs d ! r))"
  using assms
proof (induction k arbitrary: tail d thesis)
  case 0
  then show ?case by simp
next
  case (Suc k)
  let ?L = "length (dm_recs d)"
  define d1 where "d1 = snd (acquire_new_rec d)"
  define d2 where "d2 = (case tail of None \<Rightarrow> d1 | Some t \<Rightarrow> d1\<lparr>dm_recs := (dm_recs d1)[t := (dm_recs d1 ! t)\<lparr>hr_available := Some ?L\<rparr>]\<rparr>)"
  have d1: "acquire_new_rec d = (?L, d1)" "length (dm_recs d1) = Suc ?L" "dm_count d1 = dm_count d + 1"
    "dm_avail_head d1 = dm_avail_head d" "dm_avail_lock d1 = dm_avail_lock d"
    "hr_available (dm_recs d1 ! r) = (if r = ?L then None else hr_available (dm_recs d ! r))" if "r \<le> ?L" for r
    using that by (simp_all add: d1_def acquire_new_rec_def Let_def nth_append)
  have d1' [simp]: "acquire_new_rec d = (?L, d1)" "length (dm_recs d1) = Suc ?L" using d1(1,2) [of 0] by simp_all
  have step: "(case tail of None \<Rightarrow> Some d1 | Some t \<Rightarrow> store_available t (Some ?L) d1) = Some d2"
    using Suc.prems(2) by (auto simp: d2_def store_available_ok less_Suc_eq split: option.splits)
  have d2: "length (dm_recs d2) = Suc ?L" "dm_count d2 = dm_count d + 1"
    "dm_avail_head d2 = dm_avail_head d" "dm_avail_lock d2 = dm_avail_lock d"
    using d1(3-5) [of 0] by (simp_all add: d2_def split: option.splits)
  have av2: "hr_available (dm_recs d2 ! r) = (if r = ?L then None else if tail = Some r then Some ?L else hr_available (dm_recs d ! r))"
    if "r \<le> ?L" for r
    using that Suc.prems(2) d1(6) [OF that] by (auto simp: d2_def nth_list_update split: option.splits)
  obtain d' where d': "acquire_loop k None (Some ?L) d2 = Some ([Suc ?L..<Suc ?L + k], d')"
    "length (dm_recs d') = Suc ?L + k" "dm_count d' = dm_count d2 + k"
    "dm_avail_head d' = dm_avail_head d2" "dm_avail_lock d' = dm_avail_lock d2"
    and av': "\<And>r. r < Suc ?L + k \<Longrightarrow> hr_available (dm_recs d' ! r) =
      (if Suc ?L \<le> r then if Suc r < Suc ?L + k then Some (Suc r) else None
       else if 0 < k \<and> Some ?L = Some r then Some (Suc ?L) else hr_available (dm_recs d2 ! r))"
    by (rule Suc.IH [where d = d2 and tail = "Some ?L", unfolded d2(1)]) (assumption | simp)+
  show thesis
  proof (rule Suc.prems(1))
    show "acquire_loop (Suc k) None tail d = Some ([?L..<?L + Suc k], d')"
      using step d'(1) by (simp add: upt_conv_Cons del: upt_Suc split: option.splits)
  qed (use d'(2-5) d2 av' av2 in auto)
qed

lemma avail_chain_upt:
  assumes "\<And>r. n \<le> r \<Longrightarrow> r < n + k \<Longrightarrow> hr_available (dm_recs d ! r) = (if Suc r < n + k then Some (Suc r) else None)"
    and "n + k \<le> length (dm_recs d)" and "0 < k"
  shows "avail_chain d (Some n) [n..<n + k]"
  using assms
proof (induction k arbitrary: n)
  case (Suc k)
  show ?case
  proof (cases "k = 0")
    case True
    then show ?thesis using Suc.prems(1) [of n] Suc.prems(2) by simp
  next
    case False
    have "avail_chain d (Some (Suc n)) [Suc n..<Suc n + k]"
      using Suc.prems False by (intro Suc.IH) auto
    then show ?thesis
      using Suc.prems(1) [of n] Suc.prems(2) False by (simp add: upt_conv_Cons del: upt_Suc)
  qed
qed simp

definition acquired :: "nat \<Rightarrow> nat list \<Rightarrow> hzd_domain \<Rightarrow> nat list" where
  "acquired N av d = take N av @ [length (dm_recs d)..<length (dm_recs d) + (N - length av)]"

lemma length_acquired [simp]: "length (acquired N av d) = N"
  by (simp add: acquired_def min_def)

lemma acquire_many_ok:
  assumes "domain_ok d av" and "1 \<le> N"
  obtains d' where "acquire_many N d = Some (acquired N av d, d')"
    and "avail_chain d' (next_opt (acquired N av d)) (acquired N av d)"
    and "domain_ok d' (drop N av)" and "dm_count d' = dm_count d + (N - length av)"
    and "length (dm_recs d') = length (dm_recs d) + (N - length av)"
proof -
  let ?xs = "take N av" and ?k = "N - length av"
  obtain d1 where d1: "try_acquire_available N d = Some ((next_opt av, min N (length av)), d1)"
    "avail_chain d1 (next_opt av) ?xs" "domain_ok d1 (drop N av)"
    "length (dm_recs d1) = length (dm_recs d)" "dm_count d1 = dm_count d"
    using try_acquire_available_ok [OF assms] by blast
  let ?L = "length (dm_recs d)" and ?tail = "if ?xs = [] then None else Some (last ?xs)"
  have tail: "t < length (dm_recs d1)" if "?tail = Some t" for t
    using that avail_chain_bound [OF d1(2), of "last ?xs"] last_in_set [of ?xs] by (auto split: if_splits)
  obtain d' where d': "acquire_loop ?k None ?tail d1 = Some ([?L..<?L + ?k], d')"
    "length (dm_recs d') = ?L + ?k" "dm_count d' = dm_count d + ?k"
    "dm_avail_head d' = dm_avail_head d1" "dm_avail_lock d' = dm_avail_lock d1"
    and av': "\<And>r. r < ?L + ?k \<Longrightarrow> hr_available (dm_recs d' ! r) =
      (if ?L \<le> r then if Suc r < ?L + ?k then Some (Suc r) else None
       else if 0 < ?k \<and> ?tail = Some r then Some ?L else hr_available (dm_recs d1 ! r))"
    by (rule acquire_loop_new [where d = d1 and tail = ?tail and k = ?k, unfolded d1(4,5)])
      (erule tail [unfolded d1(4)], rule that)
  have "acquire_loop N (next_opt av) None d1 = Some (acquired N av d, d')"
  proof -
    have "N - length ?xs = ?k" "length ?xs \<le> N" by simp_all
    then show ?thesis
      using acquire_loop_stolen [OF d1(2), of N None] d'(1)
      by (simp add: acquired_def del: length_take take_eq_Nil)
  qed
  then have run: "acquire_many N d = Some (acquired N av d, d')"
    using d1(1) assms(2) by (simp add: acquire_many_def)
  have dist: "distinct (?xs @ drop N av)" using assms(1) by (simp add: domain_ok_def)
  have xs_less: "r < ?L" if "r \<in> set ?xs" for r using avail_chain_bound [OF d1(2) that] d1(4) by simp
  have new: "avail_chain d' (Some ?L) [?L..<?L + ?k]" if "0 < ?k"
    using av' d'(2) that by (intro avail_chain_upt) auto
  have chain: "avail_chain d' (next_opt (acquired N av d)) (acquired N av d)"
  proof (cases "?xs = []")
    case True
    then have k: "0 < ?k" using assms(2) by (cases av) auto
    then have "next_opt [?L..<?L + ?k] = Some ?L" by (simp add: upt_conv_Cons)
    then show ?thesis using new [OF k] unfolding acquired_def True by simp
  next
    case False
    let ?v = "if 0 < ?k then Some ?L else hr_available (dm_recs d1 ! last ?xs)"
    have "hr_available (dm_recs d1 ! last ?xs) = None"
      using avail_chain_append [of d1 _ ?xs "[]"] d1(2) False by simp
    then have v: "avail_chain d' ?v [?L..<?L + ?k]" using new by simp
    have "avail_chain d' (next_opt av) (?xs @ [?L..<?L + ?k])"
    proof (rule avail_chain_set_last [where zs = "[]" and d = d1, OF _ False _ _ _ v])
      show "hr_available (dm_recs d' ! r) = (if r = last ?xs then ?v else hr_available (dm_recs d1 ! r))"
        if "r \<in> set ?xs" for r
        using av' [of r] xs_less [OF that] False by auto
    qed (use d1 d'(2) dist in auto)
    then show ?thesis using avail_chain_head unfolding acquired_def by metis
  qed
  have "avail_chain d' (dm_avail_head d1) (drop N av)"
  proof (rule avail_chain_cong [where d = d1])
    fix r assume r: "r \<in> set (drop N av)"
    have "avail_chain d1 (dm_avail_head d1) (drop N av)" using d1(3) by (simp add: domain_ok_def)
    then have "r < ?L" using avail_chain_bound r d1(4) by fastforce
    moreover have "set ?xs \<inter> set (drop N av) = {}" using dist by (simp only: distinct_append)
    then have "?tail \<noteq> Some r" using r last_in_set [of ?xs] by (cases "?xs = []") (simp, force)
    ultimately show "hr_available (dm_recs d' ! r) = hr_available (dm_recs d1 ! r)" using av' [of r] by auto
  qed (use d1 d'(2) in \<open>auto simp: domain_ok_def\<close>)
  then have "domain_ok d' (drop N av)" using d1(3) d'(4,5) by (simp add: domain_ok_def)
  then show thesis using that run chain d'(2,3) by blast
qed

text \<open>Pushing a chain whose last link is null in front of the available records.\<close>

lemma push_available_ok:
  assumes "domain_ok d av" and "avail_chain d (Some h) (rs)" and "distinct (rs @ av)"
  obtains d' where "push_available h (last rs) d = Some d'" and "domain_ok d' (rs @ av)"
    and "length (dm_recs d') = length (dm_recs d)" and "slot d' = slot d"
proof -
  have ne: "rs \<noteq> []" using assms(2) by auto
  let ?t = "last rs"
  let ?d = "d\<lparr>dm_recs := (dm_recs d)[?t := (dm_recs d ! ?t)\<lparr>hr_available := dm_avail_head d\<rparr>], dm_avail_head := Some h\<rparr>"
  have t: "?t < length (dm_recs d)" "?t \<notin> set av"
    using avail_chain_bound [OF assms(2)] assms(3) last_in_set [OF ne] by auto
  have nil: "hr_available (dm_recs d ! ?t) = None" using avail_chain_append [of d _ rs "[]"] assms(2) ne by simp
  have run: "push_available h ?t d = Some ?d"
    using t nil assms(1) by (simp add: push_available_def push_loop.simps load_available_ok store_available_ok domain_ok_def)
  have "avail_chain d (dm_avail_head d) av" using assms(1) by (simp add: domain_ok_def)
  then have av: "avail_chain ?d (dm_avail_head d) av"
  proof (rule avail_chain_cong [rotated 2])
    fix r assume "r \<in> set av"
    then have "r \<noteq> ?t" using t(2) by auto
    then show "hr_available (dm_recs ?d ! r) = hr_available (dm_recs d ! r)" by simp
  qed simp
  have "avail_chain ?d (Some h) (rs @ av)"
    by (rule avail_chain_set_last [where zs = "[]" and d = d, OF _ ne _ _ _ av])
      (use assms(2,3) t in \<open>auto simp: nth_list_update\<close>)
  then have "domain_ok ?d (rs @ av)" using assms(1,3) by (simp add: domain_ok_def)
  moreover have "slot ?d r = slot d r" for r by (cases "r = ?t") (use t(1) in \<open>simp_all add: slot_def\<close>)
  ultimately show thesis using that [OF run] by auto
qed

lemma release_many_ok:
  assumes "domain_ok d av" and "avail_chain d (next_opt rs) rs" and "distinct (rs @ av)" and "rs \<noteq> []"
  obtains d' where "release_many rs d = Some d'" and "domain_ok d' (rs @ av)"
    and "length (dm_recs d') = length (dm_recs d)" and "slot d' = slot d"
proof -
  obtain h where h: "next_opt rs = Some h" "get_at 0 rs = Some h"
    using assms(4) by (cases rs) (auto simp: get_at_def)
  have "last rs < length (dm_recs d)" "hr_available (dm_recs d ! last rs) = None"
    using avail_chain_bound [OF assms(2)] last_in_set [OF assms(4)] avail_chain_append [of d _ rs "[]"] assms(2,4)
    by auto
  then have "release_many rs d = push_available h (last rs) d"
    using h by (simp add: release_many_def load_available_ok Let_def)
  then show thesis using push_available_ok [of d av h rs] assms h(1) that by metis
qed

section \<open>Protection\<close>

text \<open>Stores to the pointer field leave the lists alone.\<close>

definition same_lists :: "hzd_domain \<Rightarrow> hzd_domain \<Rightarrow> bool" where
  "same_lists d d' \<longleftrightarrow> map hr_available (dm_recs d') = map hr_available (dm_recs d) \<and>
     dm_avail_head d' = dm_avail_head d \<and> dm_avail_lock d' = dm_avail_lock d \<and> dm_count d' = dm_count d"

lemma same_lists_refl [simp]: "same_lists d d"
  by (simp add: same_lists_def)

lemma same_lists_trans [trans]: "same_lists d d' \<Longrightarrow> same_lists d' d'' \<Longrightarrow> same_lists d d''"
  by (simp add: same_lists_def)

lemma same_lists_length: "same_lists d d' \<Longrightarrow> length (dm_recs d') = length (dm_recs d)"
  unfolding same_lists_def by (metis length_map)

lemma same_lists_chain:
  assumes "same_lists d d'" and "avail_chain d p rs"
  shows "avail_chain d' p rs"
proof (rule avail_chain_cong [OF _ _ assms(2)])
  fix r assume "r \<in> set rs"
  then have "r < length (dm_recs d)" by (rule avail_chain_bound [OF assms(2)])
  then show "hr_available (dm_recs d' ! r) = hr_available (dm_recs d ! r)"
    using assms(1) same_lists_length [OF assms(1)] unfolding same_lists_def by (metis nth_map)
qed (simp add: same_lists_length [OF assms(1)])

lemma same_lists_ok: "same_lists d d' \<Longrightarrow> domain_ok d av \<Longrightarrow> domain_ok d' av"
  using same_lists_chain [of d d' "dm_avail_head d" av] by (auto simp: domain_ok_def same_lists_def)

abbreviation with_ptr :: "nat \<Rightarrow> nat option \<Rightarrow> hzd_domain \<Rightarrow> hzd_domain" where
  "with_ptr r p d \<equiv> d\<lparr>dm_recs := (dm_recs d)[r := (dm_recs d ! r)\<lparr>hr_ptr := p\<rparr>]\<rparr>"

lemma same_lists_with_ptr: "same_lists d (with_ptr r p d)"
proof (cases "r < length (dm_recs d)")
  case True
  then have "(map hr_available (dm_recs d))[r := hr_available (dm_recs d ! r)] = map hr_available (dm_recs d)"
    by (metis list_update_id nth_map)
  then show ?thesis by (simp add: same_lists_def map_update)
qed (simp add: same_lists_def list_update_beyond)

lemma rec_protect_ok: "r < length (dm_recs d) \<Longrightarrow> rec_protect r p d = Some (with_ptr r p d)"
  by (simp add: rec_protect_def get_at_def)

lemma with_ptr_twice: "with_ptr r p (with_ptr r q d) = with_ptr r p d"
  by (cases "r < length (dm_recs d)") (simp_all add: list_update_beyond)

lemma try_protect_ok:
  assumes "r < length (dm_recs d)"
  shows "try_protect_ptr r p src i d =
    Some (if p = src i then (Inr p, with_ptr r p d) else (Inl (src i), with_ptr r None d))"
  using assms with_ptr_twice [where r = r and p = None and q = p and d = d]
  by (simp add: try_protect_ptr_def rec_protect_ok rec_reset_def Let_def)

lemma protect_loop_ok:
  assumes "r < length (dm_recs d)" and "i \<le> n" and "src n = src (Suc n)"
    and "\<And>m. i \<le> m \<Longrightarrow> m < n \<Longrightarrow> src m \<noteq> src (Suc m)"
  shows "protect_loop r (src i) src (Suc i) d = Some (src n, with_ptr r (src n) d)"
  using assms
proof (induction "n - i" arbitrary: i d)
  case 0
  then show ?case by (simp add: protect_loop.simps try_protect_ok)
next
  case (Suc k)
  then have "i < n" "src i \<noteq> src (Suc i)" by auto
  moreover have "protect_loop r (src (Suc i)) src (Suc (Suc i)) (with_ptr r None d) =
      Some (src n, with_ptr r (src n) (with_ptr r None d))"
    using Suc.prems Suc.hyps(2) \<open>i < n\<close> by (intro Suc.hyps(1)) auto
  ultimately show ?case
    using Suc.prems(1) with_ptr_twice [where r = r and p = "src n" and q = None and d = d]
    by (subst protect_loop.simps) (simp add: try_protect_ok)
qed

lemma protect_loop_returns:
  assumes "protect_loop r p src i d = Some res"
  shows "\<forall>m. p = src m \<and> i = Suc m \<longrightarrow> (\<exists>n. src n = src (Suc n))"
proof (rule protect_loop.raw_induct [OF _ assms], intro allI impI, elim conjE)
  fix loop r p src i d res m
  assume IH: "\<And>r p src i d res. loop r p src i d = Some res \<Longrightarrow>
      \<forall>m. p = src m \<and> i = Suc m \<longrightarrow> (\<exists>n. (src :: nat \<Rightarrow> nat option) n = src (Suc n))"
    and run: "Option.bind (try_protect_ptr r p src i d) (\<lambda>(x, d).
      case x of Inl ptr2 \<Rightarrow> loop r ptr2 src (Suc i) d | Inr p \<Rightarrow> Some (p, d)) = Some res"
    and m: "p = src m" "i = Suc m"
  show "\<exists>n. src n = src (Suc n)"
  proof (cases "src m = src (Suc m)")
    case False
    then obtain d' where "try_protect_ptr r p src i d = Some (Inl (src i), d')"
      using run m by (auto simp: try_protect_ptr_def Let_def bind_eq_Some_conv)
    then show ?thesis using IH [of r "src i" src "Suc i" d' res] run by auto
  qed blast
qed

text \<open>
  C35.  \<open>HzdPtr::protect\<close> returns exactly when two successive loads of the source agree: it returns
  the value of the first such pair, the record's slot then holds that value and nothing else of the
  domain changes; a source that differs at every pair of loads keeps it looping.
\<close>

theorem protect_ptr_correct:
  assumes "r < length (dm_recs d)"
  shows "protect_ptr r src d =
      (if \<exists>n. src n = src (Suc n)
       then Some (src (LEAST n. src n = src (Suc n)), with_ptr r (src (LEAST n. src n = src (Suc n))) d)
       else None)"
proof (cases "\<exists>n. src n = src (Suc n)")
  case True
  let ?n = "LEAST n. src n = src (Suc n)"
  have "src ?n = src (Suc ?n)" using True by (rule LeastI_ex)
  then have "protect_loop r (src 0) src (Suc 0) d = Some (src ?n, with_ptr r (src ?n) d)"
      using assms by (intro protect_loop_ok) (auto dest: not_less_Least)
  then show ?thesis using True by (simp add: protect_ptr_def)
next
  case False
  then have "protect_loop r (src 0) src 1 d = None"
      using protect_loop_returns [of r "src 0" src 1 d] by (cases "protect_loop r (src 0) src 1 d") auto
  then show ?thesis using False by (simp add: protect_ptr_def)
qed

theorem protect_ptr_correct_witness:
  "protect_ptr 0 (\<lambda>i. if i < 2 then Some i else Some 7) (snd (acquire_new_rec domain_new)) =
     Some (Some 7, with_ptr 0 (Some 7) (snd (acquire_new_rec domain_new)))"
proof -
  let ?src = "\<lambda>i. if i < 2 then Some i else Some (7 :: nat)"
  have "(LEAST n. ?src n = ?src (Suc n)) = 2"
  proof (rule Least_equality)
    fix y assume "?src y = ?src (Suc y)"
    then show "2 \<le> y" by (cases "y < 2") (auto split: if_splits)
  qed simp
  moreover have "\<exists>n. ?src n = ?src (Suc n)" by (rule exI [of _ 2]) simp
  ultimately show ?thesis
    using protect_ptr_correct [of 0 "snd (acquire_new_rec domain_new)" ?src]
    by (simp add: acquire_new_rec_def domain_new_def Let_def)
qed

subsection \<open>Arrays of hazard pointers\<close>

lemmas hzd_ptr_wrappers [simp] = hzd_ptr_protect_def many_in_domain_def

lemma protect_ptr_stable:
  assumes "r < length (dm_recs d)" and "src n = src (Suc n)"
  obtains m where "protect_ptr r src d = Some (src m, with_ptr r (src m) d)" and "src m = src (Suc m)"
proof -
  let ?m = "LEAST n. src n = src (Suc n)"
  have "src ?m = src (Suc ?m)" using assms(2) by (rule LeastI)
  moreover from this have "protect_ptr r src d = Some (src ?m, with_ptr r (src ?m) d)"
    unfolding protect_ptr_def One_nat_def using assms by (intro protect_loop_ok) (auto dest: not_less_Least)
  ultimately show thesis using that by blast
qed

lemma slot_with_ptr: "r < length (dm_recs d) \<Longrightarrow> slot (with_ptr r p d) s = (if s = r then p else slot d s)"
  by (simp add: slot_def nth_list_update)

lemma protect_all_ok:
  assumes "\<And>r. r \<in> set rs \<Longrightarrow> r < length (dm_recs d)" and "distinct rs" and "length srcs = length rs"
    and "\<And>src. src \<in> set srcs \<Longrightarrow> \<exists>n. src n = src (Suc n)"
  obtains ps d' where "protect_all rs srcs d = Some (ps, d')" and "same_lists d d'" and "ps = map (slot d') rs"
    and "list_all2 (\<lambda>p src. \<exists>n. p = src n \<and> p = src (Suc n)) ps srcs"
    and "\<And>r. r \<notin> set rs \<Longrightarrow> slot d' r = slot d r"
  using assms
proof (induction rs srcs d arbitrary: thesis rule: protect_all.induct)
  case (1 r rs src srcs d)
  obtain n where "src n = src (Suc n)" using "1.prems"(5) by auto
  then obtain m where m: "protect_ptr r src d = Some (src m, with_ptr r (src m) d)" "src m = src (Suc m)"
    using protect_ptr_stable "1.prems"(2) by (metis list.set_intros(1))
  let ?d = "with_ptr r (src m) d"
  have r: "r < length (dm_recs d)" using "1.prems"(2) by simp
  obtain ps d' where rest: "protect_all rs srcs ?d = Some (ps, d')" "same_lists ?d d'" "ps = map (slot d') rs"
    "list_all2 (\<lambda>p src. \<exists>n. p = src n \<and> p = src (Suc n)) ps srcs" "\<And>r. r \<notin> set rs \<Longrightarrow> slot d' r = slot ?d r"
    by (rule "1.IH" [where a = "(src m, ?d)" and x = "src m" and y = ?d]) (use "1.prems"(2-5) m in auto)
  show ?case
  proof (rule "1.prems"(1))
    show "protect_all (r # rs) (src # srcs) d = Some (src m # ps, d')" using m(1) rest(1) by simp
    show "same_lists d d'" using same_lists_with_ptr rest(2) by (rule same_lists_trans)
    show "src m # ps = map (slot d') (r # rs)" using rest(3,5) "1.prems"(3) r by (simp add: slot_with_ptr)
    show "list_all2 (\<lambda>p src. \<exists>n. p = src n \<and> p = src (Suc n)) (src m # ps) (src # srcs)" using rest(4) m(2) by (auto intro: exI [of _ m])
    show "slot d' s = slot d s" if "s \<notin> set (r # rs)" for s using rest(5) [of s] that r by (simp add: slot_with_ptr)
  qed
qed auto

lemma array_reset_ok:
  assumes "\<And>r. r \<in> set rs \<Longrightarrow> r < length (dm_recs d)"
  obtains d' where "array_reset_protection rs d = Some d'" and "same_lists d d'"
    and "\<And>s. slot d' s = (if s \<in> set rs then None else slot d s)"
  using assms
proof (induction rs arbitrary: d thesis)
  case (Cons r rs)
  let ?d = "with_ptr r None d"
  have r: "r < length (dm_recs d)" using Cons.prems(2) by simp
  obtain d' where d': "array_reset_protection rs ?d = Some d'" "same_lists ?d d'"
    "\<And>s. slot d' s = (if s \<in> set rs then None else slot ?d s)"
    by (rule Cons.IH [where d = ?d]) (use Cons.prems(2) in auto)
  show ?case
  proof (rule Cons.prems(1))
    show "array_reset_protection (r # rs) d = Some d'"
      using d'(1) r by (simp add: reset_protection_def rec_reset_def rec_protect_ok)
    show "same_lists d d'" using same_lists_with_ptr d'(2) by (rule same_lists_trans)
    show "slot d' s = (if s \<in> set (r # rs) then None else slot d s)" for s
      using d'(3) [of s] r by (simp add: slot_with_ptr)
  qed
qed simp

text \<open>
  C29.  Life of an \<open>HzdPtrArray\<close>: \<open>many_in_domain\<close> hands out the first \<open>N\<close> available
  records and numbers the missing ones on as new records, all different, and leaves the rest available;
  when every source settles \<open>protect_all\<close> returns for each source a value it had at two
  successive loads, and that value is in the slot of the record at the same index; dropping the array
  clears those slots, leaves the other slots alone and puts the records in front of the available ones.
\<close>

theorem hzd_array_lifecycle:
  assumes "domain_ok d av" and "1 \<le> N" and "length srcs = N"
    and "\<And>src. src \<in> set srcs \<Longrightarrow> \<exists>n. src n = src (Suc n)"
  shows "\<exists>rs d1 ps d2 d3.
    many_in_domain N d = Some (rs, d1) \<and>
    rs = take N av @ [length (dm_recs d)..<length (dm_recs d) + (N - length av)] \<and> distinct rs \<and>
    domain_ok d1 (drop N av) \<and>
    protect_all rs srcs d1 = Some (ps, d2) \<and> ps = map (slot d2) rs \<and>
    list_all2 (\<lambda>p src. \<exists>n. p = src n \<and> p = src (Suc n)) ps srcs \<and>
    hzd_ptr_array_drop rs d2 = Some d3 \<and> domain_ok d3 (rs @ drop N av) \<and>
    slot d3 = (\<lambda>r. if r \<in> set rs then None else slot d2 r) \<and>
    length (dm_recs d3) = length (dm_recs d) + (N - length av)"
proof -
  let ?rs = "acquired N av d"
  obtain d1 where d1: "acquire_many N d = Some (?rs, d1)" "avail_chain d1 (next_opt ?rs) ?rs"
    "domain_ok d1 (drop N av)" "length (dm_recs d1) = length (dm_recs d) + (N - length av)"
    using acquire_many_ok [OF assms(1,2)] by metis
  have chain: "avail_chain d (dm_avail_head d) av" using assms(1) by (simp add: domain_ok_def)
  have dist: "distinct (?rs @ drop N av)"
  proof -
    have "distinct (take N av @ drop N av)" using assms(1) by (simp add: domain_ok_def)
    moreover have "r < length (dm_recs d)" if "r \<in> set (take N av) \<union> set (drop N av)" for r
      using that avail_chain_bound [OF chain] in_set_takeD in_set_dropD by (metis UnE)
    ultimately show ?thesis unfolding acquired_def by (fastforce simp del: append_take_drop_id)
  qed
  have bound: "r < length (dm_recs d1)" if "r \<in> set ?rs" for r using avail_chain_bound [OF d1(2) that] .
  have rs: "distinct ?rs" "length srcs = length ?rs" using dist assms(3) by simp_all
  obtain ps d2 where d2: "protect_all ?rs srcs d1 = Some (ps, d2)" "same_lists d1 d2" "ps = map (slot d2) ?rs"
    "list_all2 (\<lambda>p src. \<exists>n. p = src n \<and> p = src (Suc n)) ps srcs"
    by (rule protect_all_ok [OF bound rs assms(4)])
  obtain dr where dr: "array_reset_protection ?rs d2 = Some dr" "same_lists d2 dr"
    "\<And>s. slot dr s = (if s \<in> set ?rs then None else slot d2 s)"
    by (rule array_reset_ok [of ?rs d2]) (use bound same_lists_length [OF d2(2)] in auto)
  have l: "same_lists d1 dr" using d2(2) dr(2) by (rule same_lists_trans)
  have "?rs \<noteq> []" using assms(2) length_acquired [of N av d] by force
  then obtain d3 where d3: "release_many ?rs dr = Some d3" "domain_ok d3 (?rs @ drop N av)"
    "length (dm_recs d3) = length (dm_recs dr)" "slot d3 = slot dr"
    using release_many_ok [OF same_lists_ok [OF l d1(3)] same_lists_chain [OF l d1(2)] dist] by metis
  have "hzd_ptr_array_drop ?rs d2 = Some d3" using dr(1) d3(1) by (simp add: hzd_ptr_array_drop_def)
  then show ?thesis
    using d1 d2 d3 dr(3) dist same_lists_length [OF l] unfolding acquired_def [symmetric]
    by (intro exI [of _ ?rs] exI [of _ d1] exI [of _ ps] exI [of _ d2] exI [of _ d3]) (simp add: fun_eq_iff)
qed

theorem hzd_array_lifecycle_witness:
  "\<exists>rs d1 ps d2 d3. many_in_domain 2 domain_new = Some (rs, d1) \<and> rs = [0, 1] \<and>
     protect_all rs [\<lambda>i. Some 5, \<lambda>i. None] d1 = Some (ps, d2) \<and> hzd_ptr_array_drop rs d2 = Some d3 \<and>
     domain_ok d3 [0, 1]"
proof -
  let ?srcs = "[\<lambda>i. Some 5, \<lambda>i. None] :: (nat \<Rightarrow> nat option) list"
  have "domain_ok domain_new []" by (simp add: domain_ok_def domain_new_def)
  moreover have "\<exists>n. src n = src (Suc n)" if "src \<in> set ?srcs" for src using that by auto
  moreover have "take 2 [] @ [length (dm_recs domain_new)..<length (dm_recs domain_new) + (2 - length ([] :: nat list))] = [0, 1]"
    by (simp add: domain_new_def upt_rec)
  moreover note hzd_array_lifecycle [of domain_new "[]" 2 ?srcs]
  ultimately obtain rs d1 ps d2 d3 where "many_in_domain 2 domain_new = Some (rs, d1)" "rs = [0, 1]"
    "protect_all rs ?srcs d1 = Some (ps, d2)" "hzd_ptr_array_drop rs d2 = Some d3" "domain_ok d3 (rs @ drop 2 [])"
    by force
  then show ?thesis by (intro exI conjI) auto
qed

text \<open>
  Also:  Life of a single \<open>HzdPtr\<close>: \<open>new_in_domain\<close> takes the first available record or makes a new one, and it
  is no longer available; \<open>protect\<close> on a source that settles returns a value it had at two
  successive loads, which is then in the slot; the drop panics, so the record is never given back.
  A domain of \<open>unique_domain!\<close> is empty, and a second execution panics.
\<close>

theorem hzd_ptr_lifecycle:
  assumes "domain_ok d av" and "src n = src (Suc n)"
  shows "\<exists>r d1 p d2. new_in_domain d = Some (r, d1) \<and> r = (case av of [] \<Rightarrow> length (dm_recs d) | a # _ \<Rightarrow> a)
    \<and> domain_ok d1 (drop 1 av) \<and> hzd_ptr_protect r src d1 = Some (p, d2) \<and> slot d2 r = p \<and> (\<exists>m. p = src m \<and> p = src (Suc m))
    \<and> hzd_ptr_drop r d2 = None
    \<and> (\<exists>e. unique_domain False = Some (e, True) \<and> domain_ok e []) \<and> unique_domain True = None"
proof -
  obtain d1 where d1: "acquire_many 1 d = Some (acquired 1 av d, d1)" "avail_chain d1 (next_opt (acquired 1 av d)) (acquired 1 av d)"
    "domain_ok d1 (drop 1 av)"
    using acquire_many_ok [OF assms(1) order_refl] by metis
  let ?r = "case av of [] \<Rightarrow> length (dm_recs d) | a # _ \<Rightarrow> a"
  have acq: "acquired 1 av d = [?r]" by (cases av) (simp_all add: acquired_def)
  then have new: "new_in_domain d = Some (?r, d1)" using d1(1) by (simp add: new_in_domain_def hazard_acquire_def get_at_def)
  have r: "?r < length (dm_recs d1)" using avail_chain_bound [OF d1(2), of ?r] acq by simp
  obtain m where m: "protect_ptr ?r src d1 = Some (src m, with_ptr ?r (src m) d1)" "src m = src (Suc m)"
    by (rule protect_ptr_stable [OF r assms(2)])
  define p where "p = src m"
  have p: "\<exists>k. p = src k \<and> p = src (Suc k)" unfolding p_def using m(2) by blast
  note run = m(1) [folded p_def]
  have "slot (with_ptr ?r p d1) ?r = p" using r by (simp add: slot_with_ptr)
  moreover have "domain_ok domain_new []" by (simp add: domain_ok_def domain_new_def)
  ultimately show ?thesis using new d1(3) run p
    by (intro exI [of _ ?r] exI [of _ d1] exI [of _ p] exI [of _ "with_ptr ?r p d1"]) (simp add: hzd_ptr_drop_def unique_domain_def)
qed

theorem hzd_ptr_lifecycle_witness:
  "\<exists>r d1 p d2. new_in_domain domain_new = Some (r, d1) \<and> hzd_ptr_protect r (\<lambda>_. Some 5) d1 = Some (p, d2) \<and> slot d2 r = Some 5"
proof -
  have "domain_ok domain_new []" by (simp add: domain_ok_def domain_new_def)
  from hzd_ptr_lifecycle [OF this, of "\<lambda>_. Some 5" 0] show ?thesis by auto
qed

section \<open>Two threads\<close>

inductive_cases acq_stepE: "acq_step N i s t"

text \<open>The lock bit is set exactly while some thread is past its \<open>fetch_or\<close>, and then one only.\<close>

definition in_section :: "acq_pc \<Rightarrow> bool" where
  "in_section pc \<longleftrightarrow> (\<exists>h. pc = ALocked h) \<or> pc = AInvalid"

definition lock_inv :: "acq_sys \<Rightarrow> bool" where
  "lock_inv s \<longleftrightarrow> (dm_avail_lock (as_dom s) \<longleftrightarrow> (\<exists>i. in_section (as_pc s i))) \<and>
     (\<forall>i j. in_section (as_pc s i) \<and> in_section (as_pc s j) \<longrightarrow> i = j)"

lemma in_section_simps [simp]:
  "\<not> in_section AStart" "\<not> in_section (ALoaded h b)" "in_section (ALocked h)" "\<not> in_section (AReturned p n)"
  "in_section AInvalid"
  by (simp_all add: in_section_def)

lemma locked_part_unlocks:
  "try_acquire_available_locked N h d = Some (r, d') \<Longrightarrow> \<not> dm_avail_lock d'"
  by (auto simp: try_acquire_available_locked_def store_available_def bind_eq_Some_conv split: if_splits)

lemma lock_inv_move:
  assumes "lock_inv s" and "\<not> in_section (as_pc s i)" and "\<not> in_section pc"
  shows "lock_inv (s\<lparr>as_pc := (as_pc s)(i := pc)\<rparr>)"
  using assms unfolding lock_inv_def by auto

lemma lock_inv_step:
  assumes "acq_step N i s t" and "lock_inv s"
  shows "lock_inv t"
  using assms(1)
proof (rule acq_stepE)
  fix h b
  assume pc: "as_pc s i = ALoaded h b" and free: "\<not> dm_avail_lock (as_dom s)"
    and t: "t = s\<lparr>as_dom := (as_dom s)\<lparr>dm_avail_lock := True\<rparr>, as_pc := (as_pc s)(i := (if b then AInvalid else ALocked h))\<rparr>"
  then show ?thesis using assms(2) unfolding lock_inv_def t by auto
next
  fix h p n d
  assume pc: "as_pc s i = ALocked h" and run: "try_acquire_available_locked N h (as_dom s) = Some ((p, n), d)"
    and t: "t = s\<lparr>as_dom := d, as_pc := (as_pc s)(i := AReturned p n)\<rparr>"
  have "j = i" if "in_section (as_pc s j)" for j using assms(2) pc that unfolding lock_inv_def by fastforce
  then show ?thesis using locked_part_unlocks [OF run] unfolding lock_inv_def t by auto
qed (use lock_inv_move [OF assms(2)] in auto)

text \<open>
  Also:  The lock bit excludes: along every run of threads that start outside
  \<open>try_acquire_available\<close> with the bit clear, at most one thread is between its \<open>fetch_or\<close> and
  the store that clears the bit, and the bit is set exactly then.
\<close>

theorem acquire_lock_exclusive:
  assumes "acq_run N s t" and "\<And>i. as_pc s i = AStart" and "\<not> dm_avail_lock (as_dom s)"
  shows "(dm_avail_lock (as_dom t) \<longleftrightarrow> (\<exists>i. in_section (as_pc t i))) \<and>
    (\<forall>i j. in_section (as_pc t i) \<and> in_section (as_pc t j) \<longrightarrow> i = j)"
proof -
  have "lock_inv t"
    using assms(1)
  proof induction
    case acq_refl
    then show ?case using assms(2,3) by (simp add: lock_inv_def)
  next
    case (acq_more s i t)
    then show ?case using lock_inv_step by blast
  qed
  then show ?thesis by (simp add: lock_inv_def)
qed

theorem acquire_lock_exclusive_witness:
  "\<not> (dm_avail_lock domain_new) \<and> (\<nexists>i :: nat. in_section (as_pc \<lparr>as_dom = domain_new, as_pc = \<lambda>_. AStart\<rparr> i))"
proof -
  let ?s = "\<lparr>as_dom = domain_new, as_pc = \<lambda>_. AStart\<rparr>"
  have "\<not> dm_avail_lock (as_dom ?s)" by (simp add: domain_new_def)
  then show ?thesis using acquire_lock_exclusive [OF acq_refl [of 1 ?s]] by simp
qed

lemma take_again:
  assumes "avail_chain d (Some h) av" and "distinct av" and "1 \<le> N"
  obtains d' d'' where "try_acquire_available_locked N (Some h) d = Some ((Some h, min N (length av)), d')"
    and "\<not> dm_avail_lock d'"
    and "try_acquire_available_locked N (Some h) (d'\<lparr>dm_avail_lock := True\<rparr>) = Some ((Some h, min N (length av)), d'')"
    and "dm_avail_head d'' = None"
proof -
  let ?xs = "take N av"
  let ?d = "d\<lparr>dm_avail_head := next_opt (drop N av), dm_avail_lock := False,
      dm_recs := (dm_recs d)[last ?xs := (dm_recs d ! last ?xs)\<lparr>hr_available := None\<rparr>]\<rparr>"
  have ne: "?xs \<noteq> []" using assms by (cases av; cases N) auto
  have split: "avail_chain d (Some h) (?xs @ drop N av)" using assms(1) by simp
  have last: "last ?xs < length (dm_recs d)"
    using avail_chain_bound [OF assms(1)] in_set_takeD [OF last_in_set [OF ne]] by blast
  have "avail_chain (?d\<lparr>dm_avail_lock := True\<rparr>) (Some h) (?xs @ [])"
    by (rule avail_chain_set_last [OF split ne]) (use assms(2) last in \<open>auto simp: nth_list_update\<close>)
  then have "avail_chain (?d\<lparr>dm_avail_lock := True\<rparr>) (Some h) ?xs" by simp
  from acquire_locked_ok [OF this assms(3)]
  have again: "\<exists>d''. try_acquire_available_locked N (Some h) (?d\<lparr>dm_avail_lock := True\<rparr>) = Some ((Some h, min N (length av)), d'') \<and>
      dm_avail_head d'' = None"
    by (simp add: min_def)
  show thesis
    using again that [OF acquire_locked_ok [OF assms(1,3)]] by auto
qed

text \<open>
  C38.  \<open>try_acquire_available\<close> passes to the locked part the head it loaded before it took the lock:
  from any state with an available record there is an interleaving of two threads after which both have
  returned the same first record, and with it the same run of records, while the list of available
  records has become empty.
\<close>

theorem acquire_race_double_owner:
  assumes "domain_ok (as_dom s) (h # av)" and "1 \<le> N" and "i \<noteq> j" and "as_pc s i = AStart" and "as_pc s j = AStart"
  shows "\<exists>t. acq_run N s t \<and> as_pc t i = AReturned (Some h) (min N (length (h # av))) \<and>
    as_pc t j = AReturned (Some h) (min N (length (h # av))) \<and> dm_avail_head (as_dom t) = None"
proof -
  let ?d = "as_dom s" and ?n = "min N (length (h # av))"
  have d: "dm_avail_head ?d = Some h" "\<not> dm_avail_lock ?d" "distinct (h # av)"
    and chain: "avail_chain ?d (Some h) (h # av)" using assms(1) by (simp_all add: domain_ok_def)
  have "avail_chain (?d\<lparr>dm_avail_lock := True\<rparr>) (Some h) (h # av)"
    by (rule avail_chain_cong [OF _ _ chain]) simp_all
  then obtain d' d'' where
    d': "try_acquire_available_locked N (Some h) (?d\<lparr>dm_avail_lock := True\<rparr>) = Some ((Some h, ?n), d')" "\<not> dm_avail_lock d'"
    and d'': "try_acquire_available_locked N (Some h) (d'\<lparr>dm_avail_lock := True\<rparr>) = Some ((Some h, ?n), d'')"
      "dm_avail_head d'' = None"
    using take_again d(3) assms(2) by metis
  define s1 where "s1 = s\<lparr>as_pc := (as_pc s)(i := ALoaded (Some h) False)\<rparr>"
  define s2 where "s2 = s1\<lparr>as_pc := (as_pc s1)(j := ALoaded (Some h) False)\<rparr>"
  define s3 where "s3 = s2\<lparr>as_dom := ?d\<lparr>dm_avail_lock := True\<rparr>, as_pc := (as_pc s2)(j := ALocked (Some h))\<rparr>"
  define s4 where "s4 = s3\<lparr>as_dom := d', as_pc := (as_pc s3)(j := AReturned (Some h) ?n)\<rparr>"
  define s5 where "s5 = s4\<lparr>as_dom := d'\<lparr>dm_avail_lock := True\<rparr>, as_pc := (as_pc s4)(i := ALocked (Some h))\<rparr>"
  define s6 where "s6 = s5\<lparr>as_dom := d'', as_pc := (as_pc s5)(i := AReturned (Some h) ?n)\<rparr>"
  have "acq_step N i s s1" using acq_load [of s i N] assms(4) d by (simp add: s1_def)
  moreover have "acq_step N j s1 s2" using acq_load [of s1 j N] assms(3,5) d by (simp add: s2_def s1_def)
  moreover have "acq_step N j s2 s3"
    using acq_lock [of s2 j "Some h" False N] d by (simp add: s3_def s2_def s1_def)
  moreover have "acq_step N j s3 s4"
    using acq_take [of s3 j "Some h" N "Some h" ?n d'] d'(1) by (simp add: s4_def s3_def)
  moreover have "acq_step N i s4 s5"
    using acq_lock [of s4 i "Some h" False N] d'(2) assms(3) by (simp add: s5_def s4_def s3_def s2_def s1_def)
  moreover have "acq_step N i s5 s6"
    using acq_take [of s5 i "Some h" N "Some h" ?n d''] d''(1) by (simp add: s6_def s5_def)
  ultimately have "acq_run N s s6" by (meson acq_refl acq_more)
  then show ?thesis
    using assms(3) d''(2) by (intro exI [of _ s6]) (simp add: s6_def s5_def s4_def)
qed

theorem acquire_race_double_owner_witness:
  "\<exists>d s t. release_many [0] (snd (acquire_new_rec domain_new)) = Some d \<and> as_dom s = d \<and>
     acq_run 1 s t \<and> as_pc t 0 = AReturned (Some 0) 1 \<and> as_pc t 1 = AReturned (Some 0) 1"
proof -
  let ?d = "\<lparr>dm_recs = [\<lparr>hr_ptr = None, hr_next = None, hr_available = None\<rparr>], dm_head = Some 0,
    dm_avail_head = Some 0, dm_avail_lock = False, dm_count = 1\<rparr>"
  let ?s = "\<lparr>as_dom = ?d, as_pc = \<lambda>_. AStart\<rparr>"
  have "release_many [0] (snd (acquire_new_rec domain_new)) = Some ?d"
    by (simp add: release_many_def push_available_def push_loop.simps load_available_def store_available_def
        acquire_new_rec_def domain_new_def get_at_def Let_def)
  moreover have "\<exists>t. acq_run 1 ?s t \<and> as_pc t 0 = AReturned (Some 0) 1 \<and> as_pc t 1 = AReturned (Some 0) 1"
    using acquire_race_double_owner [of ?s 0 "[]" 1 0 1] by (auto simp: domain_ok_def)
  ultimately show ?thesis by - (rule exI [of _ ?d], rule exI [of _ ?s], simp)
qed

end
