(* ===== verification/Thread_Local.thy ===== *)
theory Thread_Local
  imports Ord_Prelude
begin

text \<open>
  The thread-local matrix (\<open>thread_local_storage/thread_local.rs\<close> and
  \<open>thread_local_ptr.rs\<close>).  A \<open>ThreadData\<close> is a row, kept in a list of rows whose index is
  its address; row 0 is the sentinel of the global list.  A \<open>ThreadLocalPtr\<close> is its column
  number.  Objects are addresses, a cell is an address or \<open>None\<close> for null.  A registered handler is
  a function pointer, named by a number, and every call of one is logged with its argument in the order
  of the calls.  Everything runs under \<open>thread_mu\<close> or on the calling thread's own row, one
  operation at a time; a dereference of null is \<open>None\<close>.  Column numbers are natural numbers: they
  are lengths of vectors and stay below the machine word.
\<close>

section \<open>Definitions\<close>

subsection \<open>Rows and the global list\<close>

type_synonym row_ptr = "nat option"
type_synonym tls_cell = "nat option"
type_synonym unref_handler = nat

record thread_data =
  td_next :: row_ptr
  td_prev :: row_ptr
  td_entries :: "tls_cell list"
  td_registered :: bool

record thread_meta_global =
  tm_rows :: "thread_data list"
  tm_handlers :: "nat \<rightharpoonup> unref_handler"
  tm_next_tls_id :: nat
  tm_free_list :: "nat list"
  tm_calls :: "(unref_handler \<times> nat) list"

definition thread_data_new :: thread_data where
  "thread_data_new = \<lparr>td_next = None, td_prev = None, td_entries = [], td_registered = False\<rparr>"

text \<open>The address of the sentinel.\<close>

abbreviation sentinel :: nat where
  "sentinel \<equiv> 0"

definition thread_meta_new :: thread_meta_global where
  "thread_meta_new =
     \<lparr>tm_rows = [thread_data_new\<lparr>td_next := Some sentinel, td_prev := Some sentinel\<rparr>],
      tm_handlers = Map.empty, tm_next_tls_id = 0, tm_free_list = [], tm_calls = []\<rparr>"

text \<open>The first use of \<open>TLS_THREAD_ROW\<close> by a thread makes its row.\<close>

definition thread_row_init :: "thread_meta_global \<Rightarrow> nat \<times> thread_meta_global" where
  "thread_row_init s = (length (tm_rows s), s\<lparr>tm_rows := tm_rows s @ [thread_data_new]\<rparr>)"

text \<open>An update through a row pointer.\<close>

definition on_row :: "row_ptr \<Rightarrow> (thread_data \<Rightarrow> thread_data) \<Rightarrow> thread_meta_global \<Rightarrow> thread_meta_global option" where
  "on_row p f s =
     do {
       r \<leftarrow> p;
       td \<leftarrow> get_at r (tm_rows s);
       Some (s\<lparr>tm_rows := (tm_rows s)[r := f td]\<rparr>)
     }"

definition ensure_registered :: "nat \<Rightarrow> thread_meta_global \<Rightarrow> thread_meta_global option" where
  "ensure_registered r s =
     do {
       td \<leftarrow> get_at r (tm_rows s);
       if td_registered td then Some s
       else do {
         head \<leftarrow> get_at sentinel (tm_rows s);
         let first = td_next head;
         s \<leftarrow> on_row (Some r) (td_prev_update (\<lambda>_. Some sentinel)) s;
         s \<leftarrow> on_row (Some r) (td_next_update (\<lambda>_. first)) s;
         s \<leftarrow> on_row first (td_prev_update (\<lambda>_. Some r)) s;
         s \<leftarrow> on_row (Some sentinel) (td_next_update (\<lambda>_. Some r)) s;
         on_row (Some r) (td_registered_update (\<lambda>_. True)) s
       }
     }"

text \<open>The loop of \<open>drop_row\<close> over the entries: the calls of the handlers, by column.\<close>

fun drop_calls :: "(nat \<rightharpoonup> unref_handler) \<Rightarrow> nat \<Rightarrow> tls_cell list \<Rightarrow> (unref_handler \<times> nat) list" where
  "drop_calls hs idx [] = []"
| "drop_calls hs idx (e # es) =
     (case e of
        None \<Rightarrow> drop_calls hs (idx + 1) es
      | Some p \<Rightarrow>
          (case hs idx of
             Some unref \<Rightarrow> (unref, p) # drop_calls hs (idx + 1) es
           | None \<Rightarrow> drop_calls hs (idx + 1) es))"

definition drop_row :: "nat \<Rightarrow> thread_meta_global \<Rightarrow> thread_meta_global option" where
  "drop_row r s =
     do {
       td \<leftarrow> get_at r (tm_rows s);
       let prv = td_prev td;
       let nxt = td_next td;
       s \<leftarrow> on_row prv (td_next_update (\<lambda>_. nxt)) s;
       s \<leftarrow> on_row nxt (td_prev_update (\<lambda>_. prv)) s;
       s \<leftarrow> on_row (Some r) (\<lambda>td. td\<lparr>td_next := None, td_prev := None\<rparr>) s;
       let calls = drop_calls (tm_handlers s) 0 (td_entries td);
       s \<leftarrow> on_row (Some r) (\<lambda>td. td\<lparr>td_entries := map (\<lambda>_. None) (td_entries td)\<rparr>) s;
       Some (s\<lparr>tm_calls := tm_calls s @ calls\<rparr>)
     }"

text \<open>\<open>f\<close> gets the content of the cell and returns its result with the new content.\<close>

definition with_tlp_ptr ::
  "nat \<Rightarrow> nat \<Rightarrow> (tls_cell \<Rightarrow> ('a \<times> tls_cell) option) \<Rightarrow> thread_meta_global \<Rightarrow> ('a \<times> thread_meta_global) option" where
  "with_tlp_ptr r tls_id f s =
     do {
       s \<leftarrow> ensure_registered r s;
       td \<leftarrow> get_at r (tm_rows s);
       let entries = (if length (td_entries td) \<le> tls_id
                      then td_entries td @ replicate (tls_id + 1 - length (td_entries td)) None
                      else td_entries td);
       cell \<leftarrow> get_at tls_id entries;
       (res, cell) \<leftarrow> f cell;
       s \<leftarrow> on_row (Some r) (td_entries_update (\<lambda>_. entries[tls_id := cell])) s;
       Some (res, s)
     }"

subsection \<open>Thread-local pointers\<close>

definition new_with_handler :: "unref_handler option \<Rightarrow> thread_meta_global \<Rightarrow> nat \<times> thread_meta_global" where
  "new_with_handler handler s =
     (let (tls_id, s) =
        (if tm_free_list s = [] then (tm_next_tls_id s, s\<lparr>tm_next_tls_id := tm_next_tls_id s + 1\<rparr>)
         else (last (tm_free_list s), s\<lparr>tm_free_list := butlast (tm_free_list s)\<rparr>))
      in (tls_id, s\<lparr>tm_handlers := (tm_handlers s)(tls_id := handler)\<rparr>))"

definition tlp_init :: "nat \<Rightarrow> nat \<Rightarrow> nat \<Rightarrow> thread_meta_global \<Rightarrow> thread_meta_global option" where
  "tlp_init r tls_id entry s =
     map_option snd (with_tlp_ptr r tls_id (\<lambda>cell. do { assert_that (cell = None); Some ((), Some entry) }) s)"

definition tlp_get :: "nat \<Rightarrow> nat \<Rightarrow> thread_meta_global \<Rightarrow> (nat option \<times> thread_meta_global) option" where
  "tlp_get r tls_id s = with_tlp_ptr r tls_id (\<lambda>cell. Some (cell, cell)) s"

text \<open>
  The closures of the caller run on a state \<open>'w\<close> of the caller's: \<open>init\<close> allocates an object there
  and \<open>f\<close> works on the object it is given.
\<close>

definition get_or_init ::
  "nat \<Rightarrow> nat \<Rightarrow> ('w \<Rightarrow> nat \<times> 'w) \<Rightarrow> 'w \<Rightarrow> thread_meta_global \<Rightarrow> ((nat \<times> 'w) \<times> thread_meta_global) option" where
  "get_or_init r tls_id init w s =
     with_tlp_ptr r tls_id
       (\<lambda>cell. case cell of
          Some ptr \<Rightarrow> Some ((ptr, w), cell)
        | None \<Rightarrow> (let (ptr, w) = init w in Some ((ptr, w), Some ptr))) s"

definition get_or_init_mut ::
  "nat \<Rightarrow> nat \<Rightarrow> ('w \<Rightarrow> nat \<times> 'w) \<Rightarrow> (nat \<Rightarrow> 'w \<Rightarrow> 'r \<times> 'w) \<Rightarrow> 'w \<Rightarrow> thread_meta_global \<Rightarrow>
   (('r \<times> 'w) \<times> thread_meta_global) option" where
  "get_or_init_mut r tls_id init f w s =
     with_tlp_ptr r tls_id
       (\<lambda>cell. case cell of
          Some ptr \<Rightarrow> Some (f ptr w, cell)
        | None \<Rightarrow> (let (ptr, w) = init w in Some (f ptr w, Some ptr))) s"

text \<open>The walk of \<open>remove_column\<close> from row to row until the sentinel.\<close>

partial_function (option) column_walk ::
  "nat \<Rightarrow> unref_handler option \<Rightarrow> row_ptr \<Rightarrow> thread_meta_global \<Rightarrow> thread_meta_global option" where
  "column_walk tls_id handler nxt s =
     (if nxt = Some sentinel then Some s
      else Option.bind nxt (\<lambda>current.
        Option.bind (get_at current (tm_rows s)) (\<lambda>td.
          if length (td_entries td) \<le> tls_id then column_walk tls_id handler (td_next td) s
          else Option.bind (on_row (Some current) (\<lambda>td. td\<lparr>td_entries := (td_entries td)[tls_id := None]\<rparr>) s) (\<lambda>s.
            column_walk tls_id handler (td_next td)
              (case (td_entries td ! tls_id, handler) of
                 (Some ptr, Some unref) \<Rightarrow> s\<lparr>tm_calls := tm_calls s @ [(unref, ptr)]\<rparr>
               | _ \<Rightarrow> s)))))"

declare column_walk.simps [code]

definition remove_column :: "nat \<Rightarrow> thread_meta_global \<Rightarrow> thread_meta_global option" where
  "remove_column tls_id s =
     do {
       let handler = tm_handlers s tls_id;
       let s = s\<lparr>tm_handlers := (tm_handlers s)(tls_id := None)\<rparr>;
       head \<leftarrow> get_at sentinel (tm_rows s);
       s \<leftarrow> column_walk tls_id handler (td_next head) s;
       Some (s\<lparr>tm_free_list := tm_free_list s @ [tls_id]\<rparr>)
     }"

definition thread_local_ptr_drop :: "nat \<Rightarrow> thread_meta_global \<Rightarrow> thread_meta_global option" where
  "thread_local_ptr_drop tls_id s = remove_column tls_id s"

subsection \<open>Runs\<close>

text \<open>
  The states reached by threads that start, end and use thread-local pointers, with the rows of the
  threads there are and the columns of the pointers there are.  An access names a live thread and a
  pointer that has not been dropped, and a pointer is dropped once.
\<close>

inductive tls_reach :: "thread_meta_global \<Rightarrow> nat set \<Rightarrow> nat list \<Rightarrow> bool" where
  tls_start: "tls_reach thread_meta_new {} []"
| tls_thread: "tls_reach s live ids \<Longrightarrow> thread_row_init s = (r, s') \<Longrightarrow> tls_reach s' (insert r live) ids"
| tls_create: "tls_reach s live ids \<Longrightarrow> new_with_handler h s = (c, s') \<Longrightarrow> tls_reach s' live (c # ids)"
| tls_init: "tls_reach s live ids \<Longrightarrow> r \<in> live \<Longrightarrow> c \<in> set ids \<Longrightarrow> tlp_init r c p s = Some s' \<Longrightarrow> tls_reach s' live ids"
| tls_get: "tls_reach s live ids \<Longrightarrow> r \<in> live \<Longrightarrow> c \<in> set ids \<Longrightarrow> tlp_get r c s = Some (p, s') \<Longrightarrow> tls_reach s' live ids"
| tls_get_or_init: "tls_reach s live ids \<Longrightarrow> r \<in> live \<Longrightarrow> c \<in> set ids \<Longrightarrow>
    get_or_init r c (\<lambda>_. (p, ())) () s = Some (res, s') \<Longrightarrow> tls_reach s' live ids"
| tls_drop: "tls_reach s live ids \<Longrightarrow> c \<in> set ids \<Longrightarrow> thread_local_ptr_drop c s = Some s' \<Longrightarrow>
    tls_reach s' live (remove1 c ids)"
| tls_exit: "tls_reach s live ids \<Longrightarrow> r \<in> live \<Longrightarrow> drop_row r s = Some s' \<Longrightarrow> tls_reach s' (live - {r}) ids"

section \<open>The ring of rows\<close>

fun ring_path :: "thread_data list \<Rightarrow> nat list \<Rightarrow> bool" where
  "ring_path rows (a # b # ys) \<longleftrightarrow> td_next (rows ! a) = Some b \<and> td_prev (rows ! b) = Some a \<and> ring_path rows (b # ys)"
| "ring_path rows _ \<longleftrightarrow> True"

lemma ring_path_Cons:
  "xs \<noteq> [] \<Longrightarrow> ring_path rows (p # xs) \<longleftrightarrow> td_next (rows ! p) = Some (hd xs) \<and> td_prev (rows ! hd xs) = Some p \<and> ring_path rows xs"
  by (cases xs) auto

lemma ring_path_append: "ring_path rows (xs @ a # ys) \<longleftrightarrow> ring_path rows (xs @ [a]) \<and> ring_path rows (a # ys)"
  by (induction rows xs rule: ring_path.induct) (auto simp: neq_Nil_conv)

lemma ring_path_cong:
  assumes "\<And>x. x \<in> set (butlast ys) \<Longrightarrow> td_next (rows' ! x) = td_next (rows ! x)"
    and "\<And>x. x \<in> set (tl ys) \<Longrightarrow> td_prev (rows' ! x) = td_prev (rows ! x)"
  shows "ring_path rows ys \<Longrightarrow> ring_path rows' ys"
  using assms by (induction rows ys rule: ring_path.induct) auto

text \<open>The list of the registered rows, as the sentinel leads around it.\<close>

definition ring :: "thread_data list \<Rightarrow> nat list \<Rightarrow> bool" where
  "ring rows xs \<longleftrightarrow> ring_path rows (sentinel # xs @ [sentinel]) \<and> distinct (sentinel # xs) \<and>
     list_all (\<lambda>x. x < length rows) (sentinel # xs)"

lemma ring_first: "ring rows xs \<Longrightarrow> td_next (rows ! sentinel) = Some (hd (xs @ [sentinel]))"
  by (cases xs) (auto simp: ring_def)

lemma on_row_ok: "r < length (tm_rows s) \<Longrightarrow> on_row (Some r) f s = Some (s\<lparr>tm_rows := (tm_rows s)[r := f (tm_rows s ! r)]\<rparr>)"
  by (simp add: on_row_def get_at_def)

lemma get_row: "r < length (tm_rows s) \<Longrightarrow> get_at r (tm_rows s) = Some (tm_rows s ! r)"
  by (simp add: get_at_def)

text \<open>Registration puts the row in front.\<close>

definition link_front :: "nat \<Rightarrow> nat \<Rightarrow> thread_data list \<Rightarrow> thread_data list" where
  "link_front r f rows =
     (let rows = rows[r := (rows ! r)\<lparr>td_prev := Some sentinel, td_next := Some f\<rparr>];
          rows = rows[f := (rows ! f)\<lparr>td_prev := Some r\<rparr>];
          rows = rows[sentinel := (rows ! sentinel)\<lparr>td_next := Some r\<rparr>]
      in rows[r := (rows ! r)\<lparr>td_registered := True\<rparr>])"

lemma link_front_nth:
  assumes "r \<noteq> sentinel" and "f \<noteq> r" and "r < length rows" and "f < length rows" and "x < length rows"
  shows "td_next (link_front r f rows ! x) = (if x = sentinel then Some r else if x = r then Some f else td_next (rows ! x))"
    and "td_prev (link_front r f rows ! x) = (if x = f then Some r else if x = r then Some sentinel else td_prev (rows ! x))"
    and "td_entries (link_front r f rows ! x) = td_entries (rows ! x)"
    and "td_registered (link_front r f rows ! x) = (x = r \<or> td_registered (rows ! x))"
proof -
  have "rows \<noteq> []" using assms(3) by auto
  then show "td_next (link_front r f rows ! x) = (if x = sentinel then Some r else if x = r then Some f else td_next (rows ! x))"
    and "td_prev (link_front r f rows ! x) = (if x = f then Some r else if x = r then Some sentinel else td_prev (rows ! x))"
    and "td_entries (link_front r f rows ! x) = td_entries (rows ! x)"
    and "td_registered (link_front r f rows ! x) = (x = r \<or> td_registered (rows ! x))"
    using assms by (auto simp: link_front_def Let_def nth_list_update)
qed

lemma length_link_front [simp]: "length (link_front r f rows) = length rows"
  by (simp add: link_front_def Let_def)

lemma ring_link_front:
  assumes "ring rows xs" and "r \<notin> set xs" and "r \<noteq> sentinel" and "r < length rows"
  shows "ring (link_front r (hd (xs @ [sentinel])) rows) (r # xs)"
proof -
  let ?f = "hd (xs @ [sentinel])" and ?rest = "tl (xs @ [sentinel])"
  let ?rows = "link_front r ?f rows"
  have f: "?f \<noteq> r" "?f < length rows" using assms by (cases xs; auto simp: ring_def)+
  have in_xs: "x < length rows" if "x \<in> set (sentinel # xs)" for x
    using assms(1) that by (auto simp: ring_def list_all_iff)
  note nth = link_front_nth [OF assms(3) f(1) assms(4) f(2)]
  have "ring_path rows (xs @ [sentinel])" using assms(1) by (cases xs) (auto simp: ring_def)
  then have "ring_path ?rows (xs @ [sentinel])"
  proof (rule ring_path_cong [rotated 2])
    fix x assume x: "x \<in> set (butlast (xs @ [sentinel]))"
    then have "x \<in> set xs" by simp
    then show "td_next (?rows ! x) = td_next (rows ! x)"
      using nth(1) [OF in_xs [of x]] assms(1,2) by (auto simp: ring_def)
  next
    fix x assume x: "x \<in> set ?rest"
    then have "x \<in> set (sentinel # xs)" by (cases xs) auto
    moreover have "x \<noteq> ?f" using x assms(1) by (cases xs) (auto simp: ring_def)
    moreover have "x \<noteq> r" using x assms(2,3) by (cases xs) auto
    ultimately show "td_prev (?rows ! x) = td_prev (rows ! x)" using nth(2) [OF in_xs] by simp
  qed
  then have "ring_path ?rows (r # xs @ [sentinel])"
    using ring_path_Cons [of "xs @ [sentinel]" ?rows r] nth(1) [OF assms(4)] nth(2) [OF f(2)] assms(3) f(1) by simp
  then have "ring_path ?rows (sentinel # (r # xs) @ [sentinel])"
    using nth(2) [OF assms(4)] nth(1) [OF in_xs [of sentinel]] f(1) by simp
  then show ?thesis using assms by (auto simp: ring_def list_all_iff)
qed

lemma ensure_registered_ok:
  assumes "ring (tm_rows s) xs" and "r < length (tm_rows s)" and "r \<notin> set xs" and "r \<noteq> sentinel"
    and "\<not> td_registered (tm_rows s ! r)"
  shows "ensure_registered r s = Some (s\<lparr>tm_rows := link_front r (hd (xs @ [sentinel])) (tm_rows s)\<rparr>)"
proof -
  have "hd (xs @ [sentinel]) < length (tm_rows s)" "sentinel < length (tm_rows s)"
    using assms(1) by (cases xs; auto simp: ring_def)+
  then show ?thesis
    using assms ring_first [OF assms(1)]
    by (simp add: ensure_registered_def get_row on_row_ok Let_def link_front_def)
qed

text \<open>Unlinking joins the neighbours.\<close>

definition unlink :: "nat \<Rightarrow> nat \<Rightarrow> nat \<Rightarrow> thread_data list \<Rightarrow> thread_data list" where
  "unlink r p n rows =
     (let rows = rows[p := (rows ! p)\<lparr>td_next := Some n\<rparr>];
          rows = rows[n := (rows ! n)\<lparr>td_prev := Some p\<rparr>]
      in rows[r := (rows ! r)\<lparr>td_next := None, td_prev := None, td_entries := map (\<lambda>_. None) (td_entries (rows ! r))\<rparr>])"

lemma length_unlink [simp]: "length (unlink r p n rows) = length rows"
  by (simp add: unlink_def Let_def)

lemma unlink_nth:
  assumes "p \<noteq> r" and "n \<noteq> r" and "r < length rows" and "p < length rows" and "n < length rows" and "x < length rows"
  shows "td_next (unlink r p n rows ! x) = (if x = r then None else if x = p then Some n else td_next (rows ! x))"
    and "td_prev (unlink r p n rows ! x) = (if x = r then None else if x = n then Some p else td_prev (rows ! x))"
    and "td_entries (unlink r p n rows ! x) = (if x = r then map (\<lambda>_. None) (td_entries (rows ! r)) else td_entries (rows ! x))"
    and "td_registered (unlink r p n rows ! x) = td_registered (rows ! x)"
  using assms by (auto simp: unlink_def Let_def nth_list_update)

text \<open>A row on the ring with its neighbours.\<close>

lemma ring_neighbours:
  assumes "ring rows (ys @ r # zs)"
  shows "td_prev (rows ! r) = Some (last (sentinel # ys))" and "td_next (rows ! r) = Some (hd (zs @ [sentinel]))"
    and "last (sentinel # ys) \<noteq> r" and "hd (zs @ [sentinel]) \<noteq> r" and "r < length rows"
    and "last (sentinel # ys) < length rows" and "hd (zs @ [sentinel]) < length rows"
proof -
  have l: "ring_path rows ((sentinel # ys) @ r # zs @ [sentinel])" and d: "distinct (sentinel # ys @ r # zs)"
    and b: "list_all (\<lambda>x. x < length rows) (sentinel # ys @ r # zs)"
    using assms by (simp_all add: ring_def)
  have "ring_path rows ((sentinel # ys) @ [r])" "ring_path rows (r # zs @ [sentinel])"
    using l ring_path_append by blast+
  moreover have "sentinel # ys = butlast (sentinel # ys) @ [last (sentinel # ys)]" by simp
  ultimately have "ring_path rows (butlast (sentinel # ys) @ last (sentinel # ys) # [r])"
    by (metis append.assoc append_Cons append_Nil)
  then have "ring_path rows [last (sentinel # ys), r]" using ring_path_append by blast
  then show "td_prev (rows ! r) = Some (last (sentinel # ys))" by simp
  show "td_next (rows ! r) = Some (hd (zs @ [sentinel]))"
    using \<open>ring_path rows (r # zs @ [sentinel])\<close> by (cases zs) auto
  show "last (sentinel # ys) \<noteq> r" using d last_in_set [of "sentinel # ys"] by auto
  show "hd (zs @ [sentinel]) \<noteq> r" using d by (cases zs) auto
  show "r < length rows" "hd (zs @ [sentinel]) < length rows" using b by (cases zs; auto)+
  show "last (sentinel # ys) < length rows" using b last_in_set [of "sentinel # ys"] by (auto simp: list_all_iff)
qed

lemma ring_unlink:
  assumes "ring rows (ys @ r # zs)"
  shows "ring (unlink r (last (sentinel # ys)) (hd (zs @ [sentinel])) rows) (ys @ zs)"
proof -
  let ?p = "last (sentinel # ys)" and ?n = "hd (zs @ [sentinel])"
  let ?rows = "unlink r ?p ?n rows"
  note nb = ring_neighbours [OF assms]
  note nth = unlink_nth [OF nb(3,4,5,6,7)]
  have l: "ring_path rows ((sentinel # ys) @ r # zs @ [sentinel])" and d: "distinct (sentinel # ys @ r # zs)"
    and b: "\<And>x. x \<in> set (sentinel # ys @ r # zs) \<Longrightarrow> x < length rows"
    using assms by (auto simp: ring_def list_all_iff)
  have pre: "sentinel # ys = butlast (sentinel # ys) @ [?p]" by simp
  have dp: "?p \<notin> set (butlast (sentinel # ys))"
    using d by (metis append_Cons distinct_append not_distinct_conv_prefix pre distinct.simps(2))
  have "ring_path rows ((sentinel # ys) @ [r])" "ring_path rows (r # zs @ [sentinel])" using l ring_path_append by blast+
  then have "ring_path rows (sentinel # ys)" "ring_path rows (zs @ [sentinel])"
    using ring_path_append [of rows "butlast (sentinel # ys)" ?p "[r]"] pre
    by (metis append.assoc append_Cons append_Nil, cases zs) auto
  have l1: "ring_path ?rows (sentinel # ys)"
  proof (rule ring_path_cong [OF _ _ \<open>ring_path rows (sentinel # ys)\<close>])
    fix x assume x: "x \<in> set (butlast (sentinel # ys))"
    then have "x \<in> set (sentinel # ys)" by (rule in_set_butlastD)
    then show "td_next (?rows ! x) = td_next (rows ! x)" using nth(1) [OF b, of x] d dp x by auto
  next
    fix x assume "x \<in> set (tl (sentinel # ys))"
    then have "x \<in> set ys" by simp
    moreover from this have "x \<noteq> ?n" using d by (cases zs) (auto intro: gr0I)
    ultimately show "td_prev (?rows ! x) = td_prev (rows ! x)" using nth(2) [OF b, of x] d by auto
  qed
  have l2: "ring_path ?rows (zs @ [sentinel])"
  proof (rule ring_path_cong [OF _ _ \<open>ring_path rows (zs @ [sentinel])\<close>])
    fix x assume "x \<in> set (butlast (zs @ [sentinel]))"
    then have "x \<in> set zs" by simp
    moreover from this have "x \<noteq> ?p" using d last_in_set [of "sentinel # ys"] by auto
    ultimately show "td_next (?rows ! x) = td_next (rows ! x)" using nth(1) [OF b, of x] d by auto
  next
    fix x assume x: "x \<in> set (tl (zs @ [sentinel]))"
    then have "x \<noteq> ?n" "x \<noteq> r" "x \<in> set (sentinel # zs)" using d by (cases zs; auto)+
    then show "td_prev (?rows ! x) = td_prev (rows ! x)" using nth(2) [OF b, of x] by auto
  qed
  have "ring_path ?rows (?p # zs @ [sentinel])"
    using ring_path_Cons [of "zs @ [sentinel]" ?rows ?p] l2 nth(1) [OF nb(6)] nth(2) [OF nb(7)] nb(3,4) by auto
  then have "ring_path ?rows (sentinel # (ys @ zs) @ [sentinel])"
    using l1 pre ring_path_append [of ?rows "butlast (sentinel # ys)" ?p "zs @ [sentinel]"]
    by (metis append.assoc append_Cons append_Nil)
  then show ?thesis using assms by (auto simp: ring_def list_all_iff)
qed

lemma drop_row_ok:
  assumes "ring (tm_rows s) (ys @ r # zs)"
  shows "drop_row r s = Some (s\<lparr>
    tm_rows := unlink r (last (sentinel # ys)) (hd (zs @ [sentinel])) (tm_rows s),
    tm_calls := tm_calls s @ drop_calls (tm_handlers s) 0 (td_entries (tm_rows s ! r))\<rparr>)"
  using ring_neighbours [OF assms]
  by (simp add: drop_row_def get_row on_row_ok Let_def unlink_def nth_list_update del: last.simps)

section \<open>The matrix\<close>

text \<open>The content of a cell; a cell that is not there is null.\<close>

definition row_cell :: "tls_cell list \<Rightarrow> nat \<Rightarrow> tls_cell" where
  "row_cell es c = (if c < length es then es ! c else None)"

definition tls_at :: "thread_meta_global \<Rightarrow> nat \<Rightarrow> nat \<Rightarrow> tls_cell" where
  "tls_at s r = (if r < length (tm_rows s) then row_cell (td_entries (tm_rows s ! r)) else (\<lambda>_. None))"

lemma tls_at_other [simp]:
  "tls_at (s\<lparr>tm_calls := cs\<rparr>) = tls_at s" "tls_at (s\<lparr>tm_handlers := hs\<rparr>) = tls_at s"
  "tls_at (s\<lparr>tm_free_list := fs\<rparr>) = tls_at s" "tls_at (s\<lparr>tm_next_tls_id := n\<rparr>) = tls_at s"
  by (simp_all add: tls_at_def fun_eq_iff)

lemma row_cell_update: "row_cell (es[c := v]) = (if c < length es then (row_cell es)(c := v) else row_cell es)"
  by (auto simp: row_cell_def fun_eq_iff)

lemma row_cell_grow: "row_cell (es @ replicate n None) = row_cell es"
  by (auto simp: row_cell_def fun_eq_iff nth_append)

lemma row_cell_cleared [simp]: "row_cell (map (\<lambda>_. None) es) = (\<lambda>_. None)" "row_cell [] = (\<lambda>_. None)"
  by (auto simp: row_cell_def fun_eq_iff)

text \<open>
  \<open>live\<close> are the rows of the running threads, \<open>ids\<close> the columns of the thread-local pointers there
  are: the registered rows are the ring, no column is both free and in use or twice free, handlers
  exist for columns in use only, and every object in the matrix is in a registered row and a column in use.
\<close>

definition tls_ok :: "thread_meta_global \<Rightarrow> nat list \<Rightarrow> nat set \<Rightarrow> nat set \<Rightarrow> bool" where
  "tls_ok s xs live ids \<longleftrightarrow>
     ring (tm_rows s) xs \<and> set xs \<subseteq> live \<and> sentinel \<notin> live \<and>
     (\<forall>r\<in>live. r < length (tm_rows s) \<and> (td_registered (tm_rows s ! r) \<longleftrightarrow> r \<in> set xs) \<and>
        (r \<notin> set xs \<longrightarrow> td_prev (tm_rows s ! r) = None)) \<and>
     distinct (tm_free_list s) \<and> set (tm_free_list s) \<inter> ids = {} \<and>
     (\<forall>c\<in>set (tm_free_list s) \<union> ids. c < tm_next_tls_id s) \<and>
     (\<forall>c. c \<notin> ids \<longrightarrow> tm_handlers s c = None) \<and>
     (\<forall>r c. tls_at s r c \<noteq> None \<longrightarrow> r \<in> set xs \<and> c \<in> ids)"

lemma tls_okD:
  assumes "tls_ok s xs live ids"
  shows "ring (tm_rows s) xs" and "set xs \<subseteq> live" and "sentinel \<notin> live"
    and "\<And>r. r \<in> live \<Longrightarrow> r < length (tm_rows s)"
    and "\<And>r. r \<in> live \<Longrightarrow> td_registered (tm_rows s ! r) \<longleftrightarrow> r \<in> set xs"
    and "distinct (tm_free_list s)" and "set (tm_free_list s) \<inter> ids = {}"
    and "\<And>c. c \<in> set (tm_free_list s) \<union> ids \<Longrightarrow> c < tm_next_tls_id s"
    and "\<And>c. c \<notin> ids \<Longrightarrow> tm_handlers s c = None"
    and "\<And>r c. tls_at s r c \<noteq> None \<Longrightarrow> r \<in> set xs" and "\<And>r c. tls_at s r c \<noteq> None \<Longrightarrow> c \<in> ids"
    and "\<And>r. r \<in> live \<Longrightarrow> r \<notin> set xs \<Longrightarrow> td_prev (tm_rows s ! r) = None"
  using assms unfolding tls_ok_def by blast+

lemma tls_ok_new: "tls_ok thread_meta_new [] {} {}"
  by (auto simp: tls_ok_def thread_meta_new_def thread_data_new_def ring_def tls_at_def)

text \<open>Registration as an operation on the matrix.\<close>

abbreviation registered_rows :: "nat \<Rightarrow> nat list \<Rightarrow> nat list" where
  "registered_rows r xs \<equiv> if r \<in> set xs then xs else r # xs"

lemma ensure_registered_matrix:
  assumes "tls_ok s xs live ids" and "r \<in> live"
  obtains s' where "ensure_registered r s = Some s'" and "tls_ok s' (registered_rows r xs) live ids"
    and "tls_at s' = tls_at s" and "tm_handlers s' = tm_handlers s" and "tm_calls s' = tm_calls s"
    and "tm_free_list s' = tm_free_list s" and "tm_next_tls_id s' = tm_next_tls_id s"
proof (cases "r \<in> set xs")
  case True
  then have "ensure_registered r s = Some s"
    using tls_okD(4,5) [OF assms] by (simp add: ensure_registered_def get_row)
  then show thesis using that [of s] assms True by simp
next
  case False
  let ?f = "hd (xs @ [sentinel])"
  let ?s = "s\<lparr>tm_rows := link_front r ?f (tm_rows s)\<rparr>"
  note ok = tls_okD [OF assms(1)]
  have r: "r \<noteq> sentinel" "r < length (tm_rows s)" "\<not> td_registered (tm_rows s ! r)"
    using ok(3) ok(4,5) [OF assms(2)] assms(2) False by metis+
  have f: "?f \<noteq> r" "?f < length (tm_rows s)" using ok(1) False r(1) by (cases xs; auto simp: ring_def)+
  note nth = link_front_nth [OF r(1) f(1) r(2) f(2)]
  have at: "tls_at ?s = tls_at s" by (auto simp: tls_at_def nth(3) fun_eq_iff)
  have "tls_ok ?s (r # xs) live ids"
    unfolding tls_ok_def at
  proof (intro conjI ballI impI)
    fix x assume x: "x \<in> live" "x \<notin> set (r # xs)"
    then have "x \<noteq> ?f" using ok(3) by (cases xs) (auto intro: gr0I)
    then show "td_prev (tm_rows ?s ! x) = None" using nth(2) [OF ok(4) [OF x(1)]] x ok(12) by simp
  qed (use ring_link_front [OF ok(1) False r(1,2)] assms(2) ok nth(4) False in auto)
  then show thesis
    using that [of ?s] ensure_registered_ok [OF ok(1) r(2) False r(1,3)] False at by simp
qed

lemma tls_at_set_row:
  assumes "r < length (tm_rows s)"
  shows "tls_at (s\<lparr>tm_rows := (tm_rows s)[r := (tm_rows s ! r)\<lparr>td_entries := es\<rparr>]\<rparr>) = (tls_at s)(r := row_cell es)"
  using assms by (auto simp: tls_at_def fun_eq_iff nth_list_update)

lemma ring_entries:
  assumes "map td_next rows' = map td_next rows" and "map td_prev rows' = map td_prev rows"
  shows "ring rows' xs \<longleftrightarrow> ring rows xs"
proof -
  have l: "length rows' = length rows" using assms(1) map_eq_imp_length_eq by blast
  have nth: "td_next (rows' ! x) = td_next (rows ! x)" "td_prev (rows' ! x) = td_prev (rows ! x)" if "x < length rows" for x
    using assms that l by (metis nth_map)+
  have "ring_path rows' ys = ring_path rows ys" if "list_all (\<lambda>x. x < length rows) ys" for ys
    using that by (induction ys rule: induct_list012) (auto simp: nth)
  then show ?thesis using l by (auto simp: ring_def)
qed

lemma tls_ok_set_row:
  assumes "tls_ok s xs live ids" and "r \<in> set xs" and "\<And>c. row_cell es c \<noteq> None \<Longrightarrow> c \<in> ids"
  shows "tls_ok (s\<lparr>tm_rows := (tm_rows s)[r := (tm_rows s ! r)\<lparr>td_entries := es\<rparr>]\<rparr>) xs live ids"
proof -
  let ?rows = "(tm_rows s)[r := (tm_rows s ! r)\<lparr>td_entries := es\<rparr>]"
  note ok = tls_okD [OF assms(1)]
  have r: "r < length (tm_rows s)" using ok(2,4) assms(2) by auto
  have "map td_next ?rows = map td_next (tm_rows s)" "map td_prev ?rows = map td_prev (tm_rows s)"
    using r by (simp_all add: map_update) (metis list_update_id nth_map)+
  then have "ring ?rows xs" using ring_entries ok(1) by blast
  then show ?thesis
    unfolding tls_ok_def tls_at_set_row [OF r]
    using ok assms(2,3) by (auto simp: nth_list_update split: if_splits)
qed

text \<open>
  Every access runs its closure on one cell of the calling thread, and the state it leaves depends on
  the closure through the new content of that cell only.
\<close>

definition cell_write :: "nat \<Rightarrow> nat \<Rightarrow> tls_cell \<Rightarrow> thread_meta_global \<Rightarrow> thread_meta_global" where
  "cell_write r c v s = (case with_tlp_ptr r c (\<lambda>_. Some ((), v)) s of Some (_, s') \<Rightarrow> s' | None \<Rightarrow> s)"

lemma with_tlp_ptr_entries:
  assumes "tls_ok s xs live ids" and "r \<in> live"
  obtains s1 es where "tls_ok s1 (registered_rows r xs) live ids" and "tls_at s1 = tls_at s"
    and "tm_handlers s1 = tm_handlers s" and "tm_calls s1 = tm_calls s" and "r < length (tm_rows s1)"
    and "c < length es" and "row_cell es = tls_at s r"
    and "ensure_registered r s = Some s1"
    and "(if length (td_entries (tm_rows s1 ! r)) \<le> c
          then td_entries (tm_rows s1 ! r) @ replicate (c + 1 - length (td_entries (tm_rows s1 ! r))) None
          else td_entries (tm_rows s1 ! r)) = es"
proof -
  obtain s1 where s1: "ensure_registered r s = Some s1" "tls_ok s1 (registered_rows r xs) live ids"
    "tls_at s1 = tls_at s" "tm_handlers s1 = tm_handlers s" "tm_calls s1 = tm_calls s"
    using ensure_registered_matrix [OF assms] by metis
  have r: "r < length (tm_rows s1)" using tls_okD(4) [OF s1(2) assms(2)] .
  show thesis
    by (rule that [OF s1(2-5) r _ _ s1(1) refl]) (use r in \<open>auto simp: tls_at_def row_cell_grow simp flip: s1(3)\<close>)
qed

lemma with_tlp_ptr_factor:
  assumes "tls_ok s xs live ids" and "r \<in> live"
  shows "with_tlp_ptr r c f s = Option.bind (f (tls_at s r c)) (\<lambda>(res, v). Some (res, cell_write r c v s))"
proof -
  obtain s1 es where r: "r < length (tm_rows s1)" and es: "c < length es" "row_cell es = tls_at s r"
    and run: "ensure_registered r s = Some s1"
      "(if length (td_entries (tm_rows s1 ! r)) \<le> c
        then td_entries (tm_rows s1 ! r) @ replicate (c + 1 - length (td_entries (tm_rows s1 ! r))) None
        else td_entries (tm_rows s1 ! r)) = es"
    by (rule with_tlp_ptr_entries [OF assms, of c])
  have "get_at c es = Some (tls_at s r c)" using es by (simp add: get_at_def row_cell_def flip: es(2))
  then show ?thesis
    unfolding cell_write_def with_tlp_ptr_def run(1) bind.bind_lunit get_row [OF r] Let_def run(2) on_row_ok [OF r]
    by (cases "f (tls_at s r c)") auto
qed

lemma cell_write_ok:
  assumes "tls_ok s xs live ids" and "r \<in> live" and "v \<noteq> None \<Longrightarrow> c \<in> ids"
  shows "tls_ok (cell_write r c v s) (registered_rows r xs) live ids"
    and "tls_at (cell_write r c v s) = (tls_at s)(r := (tls_at s r)(c := v))"
    and "tm_handlers (cell_write r c v s) = tm_handlers s" and "tm_calls (cell_write r c v s) = tm_calls s"
proof -
  obtain s1 es where s1: "tls_ok s1 (registered_rows r xs) live ids" "tls_at s1 = tls_at s"
    "tm_handlers s1 = tm_handlers s" "tm_calls s1 = tm_calls s" and r: "r < length (tm_rows s1)"
    and es: "c < length es" "row_cell es = tls_at s r"
    and run: "ensure_registered r s = Some s1"
      "(if length (td_entries (tm_rows s1 ! r)) \<le> c
        then td_entries (tm_rows s1 ! r) @ replicate (c + 1 - length (td_entries (tm_rows s1 ! r))) None
        else td_entries (tm_rows s1 ! r)) = es"
    by (rule with_tlp_ptr_entries [OF assms(1,2), of c])
  let ?s = "s1\<lparr>tm_rows := (tm_rows s1)[r := (tm_rows s1 ! r)\<lparr>td_entries := es[c := v]\<rparr>]\<rparr>"
  have w: "cell_write r c v s = ?s"
    unfolding cell_write_def with_tlp_ptr_def run(1) bind.bind_lunit get_row [OF r] Let_def run(2) on_row_ok [OF r]
    using es(1) by (simp add: get_at_def)
  have new: "row_cell (es[c := v]) = (tls_at s r)(c := v)" using es by (simp add: row_cell_update)
  show "tls_ok (cell_write r c v s) (registered_rows r xs) live ids"
    unfolding w using tls_okD(11) [OF assms(1)] assms(3)
    by (intro tls_ok_set_row [OF s1(1)]) (auto simp: new split: if_splits)
  show "tls_at (cell_write r c v s) = (tls_at s)(r := (tls_at s r)(c := v))"
    unfolding w using tls_at_set_row [OF r] s1(2) new by simp
  show "tm_handlers (cell_write r c v s) = tm_handlers s" and "tm_calls (cell_write r c v s) = tm_calls s"
    unfolding w using s1(3,4) by simp_all
qed

subsection \<open>Reclaiming a column\<close>

text \<open>The calls of a column's handler for the cells of the rows that were visited.\<close>

definition reclaim_calls :: "unref_handler option \<Rightarrow> tls_cell list \<Rightarrow> (unref_handler \<times> nat) list" where
  "reclaim_calls h ps = (case h of None \<Rightarrow> [] | Some unref \<Rightarrow> map (\<lambda>p. (unref, the p)) (filter (\<lambda>p. p \<noteq> None) ps))"

lemma reclaim_calls_Cons: "reclaim_calls h (p # ps) = reclaim_calls h [p] @ reclaim_calls h ps"
  by (simp add: reclaim_calls_def split: option.splits)

lemma reclaim_calls_Nil [simp]: "reclaim_calls h [] = []" "reclaim_calls h [None] = []"
  by (simp_all add: reclaim_calls_def split: option.splits)

text \<open>What the walk leaves alone.\<close>

definition tls_frame :: "thread_meta_global \<Rightarrow> thread_meta_global \<Rightarrow> bool" where
  "tls_frame s s' \<longleftrightarrow>
     map td_next (tm_rows s') = map td_next (tm_rows s) \<and> map td_prev (tm_rows s') = map td_prev (tm_rows s) \<and>
     map td_registered (tm_rows s') = map td_registered (tm_rows s) \<and> tm_handlers s' = tm_handlers s \<and>
     tm_next_tls_id s' = tm_next_tls_id s \<and> tm_free_list s' = tm_free_list s"

lemma tls_frame_refl [simp]: "tls_frame s s"
  by (simp add: tls_frame_def)

lemma tls_frame_trans: "tls_frame s s' \<Longrightarrow> tls_frame s' s'' \<Longrightarrow> tls_frame s s''"
  by (simp add: tls_frame_def)

lemma tls_frame_nth:
  assumes "tls_frame s s'"
  shows "length (tm_rows s') = length (tm_rows s)"
    and "x < length (tm_rows s) \<Longrightarrow> td_next (tm_rows s' ! x) = td_next (tm_rows s ! x)"
    and "x < length (tm_rows s) \<Longrightarrow> td_registered (tm_rows s' ! x) = td_registered (tm_rows s ! x)"
    and "x < length (tm_rows s) \<Longrightarrow> td_prev (tm_rows s' ! x) = td_prev (tm_rows s ! x)"
proof -
  show l: "length (tm_rows s') = length (tm_rows s)" using assms map_eq_imp_length_eq by (auto simp: tls_frame_def)
  show "x < length (tm_rows s) \<Longrightarrow> td_next (tm_rows s' ! x) = td_next (tm_rows s ! x)"
    and "x < length (tm_rows s) \<Longrightarrow> td_registered (tm_rows s' ! x) = td_registered (tm_rows s ! x)"
    and "x < length (tm_rows s) \<Longrightarrow> td_prev (tm_rows s' ! x) = td_prev (tm_rows s ! x)"
    using assms l unfolding tls_frame_def by (metis nth_map)+
qed

lemma tls_frame_ring: "tls_frame s s' \<Longrightarrow> ring (tm_rows s') xs \<longleftrightarrow> ring (tm_rows s) xs"
  by (rule ring_entries) (simp_all add: tls_frame_def)

lemma tls_frame_set_row:
  assumes "r < length (tm_rows s)"
  shows "tls_frame s (s\<lparr>tm_rows := (tm_rows s)[r := (tm_rows s ! r)\<lparr>td_entries := es\<rparr>], tm_calls := cs\<rparr>)"
  using assms by (simp add: tls_frame_def map_update) (metis list_update_id nth_map)

lemma column_walk_step:
  assumes "x < length (tm_rows s)" and "x \<noteq> sentinel"
  obtains s' where "column_walk c h (Some x) s = column_walk c h (td_next (tm_rows s ! x)) s'"
    and "tls_at s' = (tls_at s)(x := (tls_at s x)(c := None))"
    and "tm_calls s' = tm_calls s @ reclaim_calls h [tls_at s x c]" and "tls_frame s s'"
proof (cases "length (td_entries (tm_rows s ! x)) \<le> c")
  case True
  then have "tls_at s x c = None" using assms(1) by (simp add: tls_at_def row_cell_def)
  moreover from this have "(tls_at s)(x := (tls_at s x)(c := None)) = tls_at s" by (auto simp: fun_eq_iff)
  ultimately show thesis
    using that [of s] assms True by (simp add: column_walk.simps [of c h "Some x"] get_row)
next
  case False
  let ?es = "td_entries (tm_rows s ! x)" and ?cs = "tm_calls s @ reclaim_calls h [tls_at s x c]"
  let ?s = "s\<lparr>tm_rows := (tm_rows s)[x := (tm_rows s ! x)\<lparr>td_entries := ?es[c := None]\<rparr>], tm_calls := ?cs\<rparr>"
  have cell: "tls_at s x = row_cell ?es" "tls_at s x c = ?es ! c" using assms(1) False by (simp_all add: tls_at_def row_cell_def)
  have at: "tls_at ?s = (tls_at s)(x := (tls_at s x)(c := None))"
    using tls_at_set_row [OF assms(1), of "?es[c := None]"] False cell(1)
    by (simp add: row_cell_update)
  have "column_walk c h (Some x) s = column_walk c h (td_next (tm_rows s ! x)) ?s"
    using assms False
    by (simp add: column_walk.simps [of c h "Some x"] get_row on_row_ok cell(2) reclaim_calls_def split: option.splits)
  then show thesis using that [of ?s] at tls_frame_set_row [OF assms(1)] by simp
qed

lemma column_walk_ok:
  assumes "ring_path (tm_rows s) (xs @ [sentinel])" and "distinct xs" and "sentinel \<notin> set xs"
    and "\<And>x. x \<in> set xs \<Longrightarrow> x < length (tm_rows s)"
  obtains s' where "column_walk c h (Some (hd (xs @ [sentinel]))) s = Some s'"
    and "tls_at s' = (\<lambda>r. if r \<in> set xs then (tls_at s r)(c := None) else tls_at s r)"
    and "tm_calls s' = tm_calls s @ reclaim_calls h (map (\<lambda>r. tls_at s r c) xs)" and "tls_frame s s'"
  using assms
proof (induction xs arbitrary: s thesis)
  case Nil
  then show ?case by (simp add: column_walk.simps)
next
  case (Cons x xs)
  have x: "x < length (tm_rows s)" "x \<noteq> sentinel" using Cons.prems by auto
  obtain s1 where s1: "column_walk c h (Some x) s = column_walk c h (td_next (tm_rows s ! x)) s1"
    "tls_at s1 = (tls_at s)(x := (tls_at s x)(c := None))"
    "tm_calls s1 = tm_calls s @ reclaim_calls h [tls_at s x c]" "tls_frame s s1"
    using column_walk_step [OF x] by metis
  note l = ring_path_Cons [of "xs @ [sentinel]" "tm_rows s" x]
  have nx: "td_next (tm_rows s ! x) = Some (hd (xs @ [sentinel]))" and rest: "ring_path (tm_rows s) (xs @ [sentinel])"
    using l Cons.prems(2) by simp_all
  have "ring_path (tm_rows s1) (xs @ [sentinel])"
    using rest
  proof (rule ring_path_cong [rotated 2])
    show "td_next (tm_rows s1 ! y) = td_next (tm_rows s ! y)" if "y \<in> set (butlast (xs @ [sentinel]))" for y
      using that Cons.prems(5) tls_frame_nth(2) [OF s1(4)] by simp
    show "td_prev (tm_rows s1 ! y) = td_prev (tm_rows s ! y)" if "y \<in> set (tl (xs @ [sentinel]))" for y
    proof -
      have "y \<in> set (x # xs) \<or> y = sentinel" using that by (cases xs) auto
      then have "y < length (tm_rows s)" using Cons.prems(5) x(1) by fastforce
      then show ?thesis by (rule tls_frame_nth(4) [OF s1(4)])
    qed
  qed
  moreover have "distinct xs" "sentinel \<notin> set xs" "\<And>x. x \<in> set xs \<Longrightarrow> x < length (tm_rows s1)"
    using Cons.prems(3-5) tls_frame_nth(1) [OF s1(4)] by auto
  ultimately obtain s2 where s2: "column_walk c h (Some (hd (xs @ [sentinel]))) s1 = Some s2"
    "tls_at s2 = (\<lambda>r. if r \<in> set xs then (tls_at s1 r)(c := None) else tls_at s1 r)"
    "tm_calls s2 = tm_calls s1 @ reclaim_calls h (map (\<lambda>r. tls_at s1 r c) xs)" "tls_frame s1 s2"
    by (rule Cons.IH [rotated])
  have same: "map (\<lambda>r. tls_at s1 r c) xs = map (\<lambda>r. tls_at s r c) xs" using Cons.prems(3) s1(2) by auto
  show ?case
  proof (rule Cons.prems(1))
    show "column_walk c h (Some (hd ((x # xs) @ [sentinel]))) s = Some s2" using s1(1) s2(1) nx by simp
    show "tls_at s2 = (\<lambda>r. if r \<in> set (x # xs) then (tls_at s r)(c := None) else tls_at s r)"
      unfolding s2(2) s1(2) by (auto simp: fun_eq_iff)
    show "tm_calls s2 = tm_calls s @ reclaim_calls h (map (\<lambda>r. tls_at s r c) (x # xs))"
      unfolding s2(3) s1(3) same list.map
      using reclaim_calls_Cons [of h "tls_at s x c" "map (\<lambda>r. tls_at s r c) xs"] by (simp only: append_assoc)
    show "tls_frame s s2" using s1(4) s2(4) by (rule tls_frame_trans)
  qed
qed

lemma remove_column_ok:
  assumes "tls_ok s xs live ids"
  obtains s' where "remove_column c s = Some s'"
    and "tls_at s' = (\<lambda>r. (tls_at s r)(c := None))"
    and "tm_calls s' = tm_calls s @ reclaim_calls (tm_handlers s c) (map (\<lambda>r. tls_at s r c) xs)"
    and "tm_handlers s' = (tm_handlers s)(c := None)" and "tm_free_list s' = tm_free_list s @ [c]"
    and "c \<in> ids \<Longrightarrow> tls_ok s' xs live (ids - {c})"
proof -
  note ok = tls_okD [OF assms]
  let ?s = "s\<lparr>tm_handlers := (tm_handlers s)(c := None)\<rparr>"
  have xs: "ring_path (tm_rows ?s) (xs @ [sentinel])" "distinct xs" "sentinel \<notin> set xs" "\<And>x. x \<in> set xs \<Longrightarrow> x < length (tm_rows ?s)"
    and head: "sentinel < length (tm_rows s)"
    using ok(1) ring_path_Cons [of "xs @ [sentinel]" "tm_rows s" sentinel] by (auto simp: ring_def list_all_iff)
  obtain s' where s': "column_walk c (tm_handlers s c) (Some (hd (xs @ [sentinel]))) ?s = Some s'"
    "tls_at s' = (\<lambda>r. if r \<in> set xs then (tls_at ?s r)(c := None) else tls_at ?s r)"
    "tm_calls s' = tm_calls ?s @ reclaim_calls (tm_handlers s c) (map (\<lambda>r. tls_at ?s r c) xs)" "tls_frame ?s s'"
    by (rule column_walk_ok [OF xs])
  let ?s' = "s'\<lparr>tm_free_list := tm_free_list s' @ [c]\<rparr>"
  have run: "remove_column c s = Some ?s'"
    using s'(1) ring_first [OF ok(1)] head by (simp add: remove_column_def Let_def get_row)
  have clear: "tls_at ?s' = (\<lambda>r. (tls_at s r)(c := None))"
  proof -
    have "tls_at s r k = None" if "r \<notin> set xs" for r k using ok(10) that by blast
    then show ?thesis by (simp add: s'(2) fun_eq_iff)
  qed
  have fr: "tm_handlers s' = (tm_handlers s)(c := None)" "tm_free_list s' = tm_free_list s" "tm_next_tls_id s' = tm_next_tls_id s"
    using s'(4) by (simp_all add: tls_frame_def)
  have "tls_ok ?s' xs live (ids - {c})" if "c \<in> ids"
    unfolding tls_ok_def clear
    using tls_frame_ring [OF s'(4)] tls_frame_nth(1,3,4) [OF s'(4)] ok fr that by auto
  then show thesis using that [OF run] clear s'(3) fr by simp
qed

subsection \<open>Threads and columns come and go\<close>

lemma thread_row_init_ok:
  assumes "tls_ok s xs live ids" and "thread_row_init s = (r, s')"
  shows "tls_ok s' xs (insert r live) ids" and "tls_at s' = tls_at s" and "r \<notin> live"
proof -
  note ok = tls_okD [OF assms(1)]
  have s': "r = length (tm_rows s)" "s' = s\<lparr>tm_rows := tm_rows s @ [thread_data_new]\<rparr>"
    using assms(2) by (simp_all add: thread_row_init_def)
  show at: "tls_at s' = tls_at s" by (auto simp: s' tls_at_def fun_eq_iff nth_append thread_data_new_def)
  show r: "r \<notin> live" using ok(4) s'(1) by blast
  have "ring (tm_rows s') xs"
  proof -
    have b: "x < length (tm_rows s)" if "x \<in> set (sentinel # xs @ [sentinel])" for x
      using ok(1) that by (auto simp: ring_def list_all_iff)
    have "ring_path (tm_rows s) (sentinel # xs @ [sentinel])" using ok(1) by (simp add: ring_def)
    then have "ring_path (tm_rows s') (sentinel # xs @ [sentinel])"
    proof (rule ring_path_cong [rotated 2])
      show "td_next (tm_rows s' ! x) = td_next (tm_rows s ! x)" if "x \<in> set (butlast (sentinel # xs @ [sentinel]))" for x
        using b [OF in_set_butlastD [OF that]] by (simp add: s' nth_append)
      show "td_prev (tm_rows s' ! x) = td_prev (tm_rows s ! x)" if "x \<in> set (tl (sentinel # xs @ [sentinel]))" for x
        using b [of x] that by (simp add: s' nth_append)
    qed
    then show ?thesis using ok(1) by (auto simp: ring_def s' list_all_iff)
  qed
  moreover have "r \<notin> set xs" using r ok(2) by blast
  moreover have "sentinel \<noteq> r" using ok(1) s'(1) by (auto simp: ring_def)
  ultimately show "tls_ok s' xs (insert r live) ids"
    unfolding tls_ok_def at using ok by (auto simp: s' nth_append thread_data_new_def less_Suc_eq)
qed

lemma new_with_handler_ok:
  assumes "tls_ok s xs live ids" and "new_with_handler h s = (c, s')"
  shows "c \<notin> ids" and "tls_ok s' xs live (insert c ids)" and "tls_at s' = tls_at s"
    and "tm_handlers s' = (tm_handlers s)(c := h)" and "tm_calls s' = tm_calls s" and "tls_at s r c = None"
proof -
  note ok = tls_okD [OF assms(1)]
  have both: "c \<notin> ids \<and> tls_ok s' xs live (insert c ids)"
  proof (cases "tm_free_list s" rule: rev_cases)
    case Nil
    then have s': "c = tm_next_tls_id s"
      "s' = s\<lparr>tm_next_tls_id := tm_next_tls_id s + 1, tm_handlers := (tm_handlers s)(c := h)\<rparr>"
      using assms(2) by (auto simp: new_with_handler_def)
    have "c \<notin> ids" using ok(8) s'(1) by blast
    moreover have "tls_ok s' xs live (insert c ids)"
      unfolding tls_ok_def using ok Nil by (auto simp: s' less_Suc_eq)
    ultimately show ?thesis ..
  next
    case (snoc fs c')
    then have s': "c' = c" "s' = s\<lparr>tm_free_list := fs, tm_handlers := (tm_handlers s)(c := h)\<rparr>"
      using assms(2) by (auto simp: new_with_handler_def)
    have "c \<notin> ids" using ok(7) s'(1) snoc by auto
    moreover have "tls_ok s' xs live (insert c ids)"
      unfolding tls_ok_def using ok snoc by (auto simp: s')
    ultimately show ?thesis ..
  qed
  then show c: "c \<notin> ids" and "tls_ok s' xs live (insert c ids)" by simp_all
  show "tls_at s r c = None" using c ok(11) by blast
  show "tls_at s' = tls_at s" and "tm_handlers s' = (tm_handlers s)(c := h)" and "tm_calls s' = tm_calls s"
    using assms(2) by (auto simp: new_with_handler_def Let_def split: if_splits)
qed

lemma drop_calls_Cons: "drop_calls hs k (e # es) = reclaim_calls (hs k) [e] @ drop_calls hs (k + 1) es"
  by (simp add: reclaim_calls_def split: option.splits)

lemma drop_calls_eq:
  "drop_calls hs k es = concat (map (\<lambda>i. reclaim_calls (hs (k + i)) [es ! i]) [0..<length es])"
proof (induction es arbitrary: k)
  case (Cons e es)
  have "[0..<length (e # es)] = 0 # map Suc [0..<length es]" by (simp add: upt_conv_Cons map_Suc_upt del: upt_Suc)
  then show ?case
    using Cons.IH [of "k + 1"] by (simp add: drop_calls_Cons comp_def del: drop_calls.simps(2) upt_Suc)
qed simp

lemma drop_row_matrix:
  assumes "tls_ok s xs live ids" and "r \<in> set xs"
  obtains s' where "drop_row r s = Some s'" and "tls_ok s' (remove1 r xs) (live - {r}) ids"
    and "tls_at s' = (tls_at s)(r := \<lambda>_. None)" and "tm_handlers s' = tm_handlers s"
    and "tm_calls s' = tm_calls s @
      concat (map (\<lambda>c. reclaim_calls (tm_handlers s c) [tls_at s r c]) [0..<length (td_entries (tm_rows s ! r))])"
proof -
  note ok = tls_okD [OF assms(1)]
  obtain ys zs where xs: "xs = ys @ r # zs" using split_list [OF assms(2)] by blast
  define p n where pn: "p = last (sentinel # ys)" "n = hd (zs @ [sentinel])"
  let ?es = "td_entries (tm_rows s ! r)"
  let ?s = "s\<lparr>tm_rows := unlink r p n (tm_rows s), tm_calls := tm_calls s @ drop_calls (tm_handlers s) 0 ?es\<rparr>"
  have ring: "ring (tm_rows s) (ys @ r # zs)" using ok(1) xs by simp
  note nb = ring_neighbours [OF ring, folded pn]
  note nth = unlink_nth [OF nb(3-7)]
  have dist: "distinct (sentinel # ys @ r # zs)" using ring by (simp add: ring_def)
  have rm: "remove1 r xs = ys @ zs" using dist xs by (simp add: remove1_append)
  have at: "tls_at ?s = (tls_at s)(r := \<lambda>_. None)" using nb(5) by (auto simp: tls_at_def fun_eq_iff nth(3))
  have calls: "drop_calls (tm_handlers s) 0 ?es = concat (map (\<lambda>c. reclaim_calls (tm_handlers s c) [tls_at s r c]) [0..<length ?es])"
    unfolding drop_calls_eq using nb(5) by (intro arg_cong [of _ _ concat]) (simp add: tls_at_def row_cell_def)
  have "tls_ok ?s (ys @ zs) (live - {r}) ids"
    unfolding tls_ok_def at
  proof (intro conjI ballI impI)
    fix x assume x: "x \<in> live - {r}"
    then have l: "x < length (tm_rows s)" using ok(4) by simp
    then show "x < length (tm_rows ?s)" by simp
    show "td_registered (tm_rows ?s ! x) \<longleftrightarrow> x \<in> set (ys @ zs)" using nth(4) [OF l] ok(5) [of x] x xs by simp
    assume "x \<notin> set (ys @ zs)"
    moreover from this have "x \<noteq> n" using x ok(3) by (cases zs) (auto simp: pn intro: gr0I)
    ultimately show "td_prev (tm_rows ?s ! x) = None" using nth(2) [OF l] ok(12) [of x] x xs by auto
  next
    have "x \<in> set (ys @ zs) \<and> k \<in> ids" if "((tls_at s)(r := \<lambda>_. None)) x k \<noteq> None" for x k
      using that ok(10,11) [of x k] xs by (auto split: if_splits)
    then show "\<forall>x k. ((tls_at s)(r := \<lambda>_. None)) x k \<noteq> None \<longrightarrow> x \<in> set (ys @ zs) \<and> k \<in> ids" by blast
  qed (use ring_unlink [OF ring, folded pn] ok xs dist in auto)
  then show thesis
    using that [of ?s] drop_row_ok [OF ring, folded pn] at calls rm by simp
qed

lemma drop_row_unregistered:
  assumes "tls_ok s xs live ids" and "r \<in> live" and "r \<notin> set xs"
  shows "drop_row r s = None"
proof -
  have "td_prev (tm_rows s ! r) = None" using tls_okD(12) [OF assms(1)] assms(2,3) by blast
  then show ?thesis using tls_okD(4) [OF assms(1,2)] by (simp add: drop_row_def get_row on_row_def)
qed

lemma tls_reach_ok:
  assumes "tls_reach s live ids"
  shows "distinct ids \<and> (\<exists>xs. tls_ok s xs live (set ids))"
  using assms
proof induction
  case tls_start
  then show ?case using tls_ok_new by force
next
  case (tls_thread s live ids r s')
  then show ?case using thread_row_init_ok(1) by blast
next
  case (tls_create s live ids h c s')
  then obtain xs where ok: "tls_ok s xs live (set ids)" by blast
  show ?case using new_with_handler_ok(1,2) [OF ok tls_create.hyps(2)] tls_create.IH by auto
next
  case (tls_init s live ids r c p s')
  then obtain xs where ok: "tls_ok s xs live (set ids)" by blast
  have "s' = cell_write r c (Some p) s"
    using tls_init.hyps(4) by (auto simp: tlp_init_def with_tlp_ptr_factor [OF ok tls_init.hyps(2)] bind_eq_Some_conv split: if_splits)
  then show ?case using cell_write_ok(1) [OF ok tls_init.hyps(2)] tls_init by blast
next
  case (tls_get s live ids r c p s')
  then obtain xs where ok: "tls_ok s xs live (set ids)" by blast
  have "s' = cell_write r c (tls_at s r c) s"
    using tls_get.hyps(4) by (auto simp: tlp_get_def with_tlp_ptr_factor [OF ok tls_get.hyps(2)])
  then show ?case using cell_write_ok(1) [OF ok tls_get.hyps(2)] tls_get by blast
next
  case (tls_get_or_init s live ids r c p res s')
  then obtain xs where ok: "tls_ok s xs live (set ids)" by blast
  obtain v where "s' = cell_write r c v s"
    using tls_get_or_init.hyps(4)
    by (auto simp: get_or_init_def with_tlp_ptr_factor [OF ok tls_get_or_init.hyps(2)] split: option.splits)
  then show ?case using cell_write_ok(1) [OF ok tls_get_or_init.hyps(2)] tls_get_or_init by blast
next
  case (tls_drop s live ids c s')
  then obtain xs where ok: "tls_ok s xs live (set ids)" by blast
  have "tls_ok s' xs live (set ids - {c})"
    using remove_column_ok [OF ok, of c] tls_drop.hyps by (auto simp: thread_local_ptr_drop_def)
  then show ?case using tls_drop.IH by (auto simp: set_remove1_eq)
next
  case (tls_exit s live ids r s')
  then obtain xs where ok: "tls_ok s xs live (set ids)" by blast
  have "r \<in> set xs" using tls_exit.hyps(2,3) drop_row_unregistered [OF ok] by force
  then show ?case using drop_row_matrix [OF ok] tls_exit by (metis option.inject)
qed

section \<open>One object per thread\<close>

text \<open>A sequence of accesses, each by one thread.\<close>

fun run_accesses :: "('t \<Rightarrow> 'w \<Rightarrow> 's \<Rightarrow> (('v \<times> 'w) \<times> 's) option) \<Rightarrow> 't list \<Rightarrow> 'w \<Rightarrow> 's \<Rightarrow> ('v list \<times> 'w \<times> 's) option" where
  "run_accesses access [] w s = Some ([], w, s)"
| "run_accesses access (t # ts) w s =
     do {
       ((p, w), s) \<leftarrow> access t w s;
       (ps, w, s) \<leftarrow> run_accesses access ts w s;
       Some (p # ps, w, s)
     }"

text \<open>
  What the owner of a column relies on: each thread has a cell of its own, an access returns what is in
  it and fills it first when it is empty.  The owner's allocator counts addresses up.
\<close>

locale thread_cells =
  fixes holds :: "'s \<Rightarrow> ('t \<rightharpoonup> nat) \<Rightarrow> bool"
    and threads :: "'t set"
    and access :: "'t \<Rightarrow> nat \<Rightarrow> 's \<Rightarrow> ((nat \<times> nat) \<times> 's) option"
  assumes access_present: "holds s m \<Longrightarrow> t \<in> threads \<Longrightarrow> m t = Some p \<Longrightarrow> \<exists>s'. access t w s = Some ((p, w), s') \<and> holds s' m"
    and access_absent: "holds s m \<Longrightarrow> t \<in> threads \<Longrightarrow> m t = None \<Longrightarrow>
      \<exists>s'. access t w s = Some ((w, Suc w), s') \<and> holds s' (m(t \<mapsto> w))"
begin

lemma accesses_extend:
  assumes "holds s m" and "set ts \<subseteq> threads" and "inj_on m (dom m)" and "\<And>t p. m t = Some p \<Longrightarrow> p < w"
  shows "\<exists>w' s' m'. run_accesses access ts w s = Some (map (\<lambda>t. the (m' t)) ts, w', s') \<and>
    holds s' m' \<and> m \<subseteq>\<^sub>m m' \<and> inj_on m' (dom m') \<and> set ts \<subseteq> dom m'"
  using assms
proof (induction ts arbitrary: s m w)
  case Nil
  then show ?case by auto
next
  case (Cons t ts)
  have t: "t \<in> threads" and ts: "set ts \<subseteq> threads" using Cons.prems(2) by simp_all
  obtain p w1 s1 m1 where step: "access t w s = Some ((p, w1), s1)" "holds s1 m1" "m \<subseteq>\<^sub>m m1" "m1 t = Some p"
    and inv: "inj_on m1 (dom m1)" "\<And>u q. m1 u = Some q \<Longrightarrow> q < w1"
  proof (cases "m t")
    case None
    obtain s' where "access t w s = Some ((w, Suc w), s')" "holds s' (m(t \<mapsto> w))"
      using access_absent [OF Cons.prems(1) t None] by blast
    moreover have "inj_on (m(t \<mapsto> w)) (dom (m(t \<mapsto> w)))"
      using Cons.prems(3,4) by (fastforce simp: inj_on_def dom_def)
    moreover have "q < Suc w" if "(m(t \<mapsto> w)) u = Some q" for u q
      using that Cons.prems(4) [of u q] by (auto split: if_splits)
    moreover have "m \<subseteq>\<^sub>m m(t \<mapsto> w)" using None by (auto simp: map_le_def)
    ultimately show thesis using that [of w "Suc w" s' "m(t \<mapsto> w)"] by simp
  next
    case (Some p)
    then show thesis using access_present [OF Cons.prems(1) t Some, of w] that Cons.prems(1,3,4) by auto
  qed
  obtain w' s' m' where rest: "run_accesses access ts w1 s1 = Some (map (\<lambda>t. the (m' t)) ts, w', s')"
    "holds s' m'" "m1 \<subseteq>\<^sub>m m'" "inj_on m' (dom m')" "set ts \<subseteq> dom m'"
    using Cons.IH [OF step(2) ts inv(1), of w1] inv(2) by blast
  have "m' t = Some p" using step(4) rest(3) by (auto simp: map_le_def dom_def)
  then show ?case
    using step(1) rest map_le_trans [OF step(3) rest(3)] by (intro exI [of _ w'] exI [of _ s'] exI [of _ m']) auto
qed

lemma accesses_isolated:
  assumes "holds s Map.empty" and "set ts \<subseteq> threads"
  obtains ps w' s' where "run_accesses access ts w s = Some (ps, w', s')" and "length ps = length ts"
    and "\<And>i j. i < length ts \<Longrightarrow> j < length ts \<Longrightarrow> ps ! i = ps ! j \<longleftrightarrow> ts ! i = ts ! j"
proof -
  obtain w' s' m' where m': "run_accesses access ts w s = Some (map (\<lambda>t. the (m' t)) ts, w', s')"
    "inj_on m' (dom m')" "set ts \<subseteq> dom m'"
    using accesses_extend [OF assms, of w] by auto
  show thesis
  proof (rule that [OF m'(1)])
    fix i j assume "i < length ts" "j < length ts"
    then have "ts ! i \<in> dom m'" "ts ! j \<in> dom m'" using m'(3) nth_mem by blast+
    then show "map (\<lambda>t. the (m' t)) ts ! i = map (\<lambda>t. the (m' t)) ts ! j \<longleftrightarrow> ts ! i = ts ! j"
      using \<open>i < length ts\<close> \<open>j < length ts\<close> m'(2) by (auto simp: inj_on_def domIff)
  qed simp
qed

end

text \<open>The owner's allocator.\<close>

abbreviation next_address :: "nat \<Rightarrow> nat \<times> nat" where
  "next_address \<equiv> \<lambda>n. (n, Suc n)"

definition column_holds :: "nat set \<Rightarrow> nat set \<Rightarrow> nat \<Rightarrow> thread_meta_global \<Rightarrow> (nat \<rightharpoonup> nat) \<Rightarrow> bool" where
  "column_holds live ids c s m \<longleftrightarrow> c \<in> ids \<and> (\<exists>xs. tls_ok s xs live ids) \<and> m = (\<lambda>r. tls_at s r c)"

lemma column_access:
  assumes "column_holds live ids c s m" and "r \<in> live" and "(p, w') = (case m r of Some q \<Rightarrow> (q, w) | None \<Rightarrow> (w, Suc w))"
  shows "\<exists>s'. get_or_init r c next_address w s = Some ((p, w'), s') \<and> column_holds live ids c s' (m(r \<mapsto> p))"
proof -
  obtain xs where ok: "tls_ok s xs live ids" and c: "c \<in> ids" and m: "m = (\<lambda>r. tls_at s r c)"
    using assms(1) by (auto simp: column_holds_def)
  have "get_or_init r c next_address w s = Some ((p, w'), cell_write r c (Some p) s)"
    using assms(3) by (auto simp: get_or_init_def with_tlp_ptr_factor [OF ok assms(2)] m split: option.splits)
  moreover have "column_holds live ids c (cell_write r c (Some p) s) (m(r \<mapsto> p))"
    using cell_write_ok(1,2) [OF ok assms(2), of "Some p" c] c by (auto simp: column_holds_def m fun_eq_iff)
  ultimately show ?thesis by blast
qed

interpretation tls_column: thread_cells "column_holds live ids c" live "\<lambda>r. get_or_init r c next_address" for live ids c
proof
  fix s m t p w assume "column_holds live ids c s m" "t \<in> live" "m t = Some p"
  then show "\<exists>s'. get_or_init t c next_address w s = Some ((p, w), s') \<and> column_holds live ids c s' m"
    using column_access [of live ids c s m t p w w] by (simp add: map_upd_triv)
next
  fix s m t w assume "column_holds live ids c s m" "t \<in> live" "m t = None"
  then show "\<exists>s'. get_or_init t c next_address w s = Some ((w, Suc w), s') \<and> column_holds live ids c s' (m(t \<mapsto> w))"
    using column_access [of live ids c s m t w "Suc w" w] by simp
qed

section \<open>Properties\<close>

text \<open>
  Also:  \<open>get_or_init\<close> on a live thread and a live column always returns: the object the calling
  thread already has there, without running the initialiser, or the one the initialiser makes.
  Afterwards the cell holds that object, no other cell of the matrix has changed, and a later
  \<open>get\<close> of the same thread answers with it; a \<open>get_or_init_mut\<close> stores the same and applies its
  closure to that object.
\<close>

theorem tls_get_or_init_correct:
  assumes "tls_ok s xs live ids" and "r \<in> live" and "c \<in> ids"
  shows "\<exists>p w' s'. get_or_init r c init w s = Some ((p, w'), s') \<and>
    (p, w') = (case tls_at s r c of Some q \<Rightarrow> (q, w) | None \<Rightarrow> init w) \<and>
    tls_at s' = (tls_at s)(r := (tls_at s r)(c := Some p)) \<and> tls_ok s' (registered_rows r xs) live ids \<and>
    (\<exists>s''. tlp_get r c s' = Some (Some p, s'') \<and> tls_at s'' = tls_at s') \<and>
    get_or_init_mut r c init f w s = Some (f p w', s')"
proof -
  obtain p w' where pw: "(p, w') = (case tls_at s r c of Some q \<Rightarrow> (q, w) | None \<Rightarrow> init w)" by (metis surj_pair)
  note run = with_tlp_ptr_factor [OF assms(1,2)]
  let ?s = "cell_write r c (Some p) s"
  have "get_or_init r c init w s = Some ((p, w'), ?s)" "get_or_init_mut r c init f w s = Some (f p w', ?s)"
    using pw by (auto simp: get_or_init_def get_or_init_mut_def run split: option.splits prod.splits)
  moreover have s': "tls_ok ?s (registered_rows r xs) live ids" "tls_at ?s = (tls_at s)(r := (tls_at s r)(c := Some p))"
    using cell_write_ok [OF assms(1,2), of "Some p" c] assms(3) by simp_all
  moreover have "tlp_get r c ?s = Some (Some p, cell_write r c (Some p) ?s)"
    by (simp add: tlp_get_def with_tlp_ptr_factor [OF s'(1) assms(2)] s'(2))
  moreover have "tls_at (cell_write r c (Some p) ?s) = tls_at ?s"
    using cell_write_ok(2) [OF s'(1) assms(2), of "Some p" c] assms(3) s'(2) by (simp add: fun_upd_idem)
  ultimately show ?thesis using pw by blast
qed

text \<open>A small matrix for the witnesses: one thread with row 1, registered in column 0, whose handler is 7.\<close>

definition tls_example :: thread_meta_global where
  "tls_example = cell_write 1 0 (Some 40) (snd (new_with_handler (Some 7) (snd (thread_row_init thread_meta_new))))"

lemma tls_example_ok:
  shows "tls_ok tls_example [1] {1} {0}" and "tls_at tls_example = (\<lambda>_ _. None)(1 := (\<lambda>_. None)(0 := Some 40))"
    and "tm_handlers tls_example = [0 \<mapsto> 7]" and "tm_calls tls_example = []"
proof -
  let ?a = "snd (thread_row_init thread_meta_new)" let ?b = "snd (new_with_handler (Some 7) ?a)"
  have a: "thread_row_init thread_meta_new = (1, ?a)" by (simp add: thread_row_init_def thread_meta_new_def)
  have b: "new_with_handler (Some 7) ?a = (0, ?b)"
    by (simp add: new_with_handler_def thread_row_init_def thread_meta_new_def)
  note oka = thread_row_init_ok [OF tls_ok_new a] note okb = new_with_handler_ok [OF oka(1) b]
  have at: "tls_at ?b = (\<lambda>_ _. None)"
    using okb(3) oka(2) by (auto simp: tls_at_def fun_eq_iff thread_meta_new_def thread_data_new_def)
  note w = cell_write_ok [OF okb(2), of 1 "Some 40" 0, folded tls_example_def]
  show "tls_ok tls_example [1] {1} {0}" using w(1) by simp
  show "tls_at tls_example = (\<lambda>_ _. None)(1 := (\<lambda>_. None)(0 := Some 40))" using w(2) at by simp
  show "tm_handlers tls_example = [0 \<mapsto> 7]" "tm_calls tls_example = []"
    using w(3,4) okb(4,5) by (simp_all add: thread_row_init_def thread_meta_new_def)
qed

theorem tls_get_or_init_correct_witness:
  "\<exists>s'. get_or_init 1 0 (\<lambda>w. (41, w + 1)) (5 :: nat) tls_example = Some ((40, 5), s')"
  using tls_get_or_init_correct [OF tls_example_ok(1), of 1 0 "\<lambda>w. (41, w + 1)" "5 :: nat" "\<lambda>p w. (p, w)"] tls_example_ok(2)
  by auto

text \<open>
  C28.  Dropping a \<open>ThreadLocalPtr\<close> calls the handler registered for its column exactly once for
  each object in the column, row by row along the global list, empties the column in every row, removes
  the handler and returns the column number; the other columns keep their objects and handlers.
\<close>

theorem tls_remove_column_correct:
  assumes "tls_ok s xs live ids" and "c \<in> ids"
  shows "\<exists>s'. thread_local_ptr_drop c s = Some s' \<and>
    tm_calls s' = tm_calls s @ reclaim_calls (tm_handlers s c) (map (\<lambda>r. tls_at s r c) xs) \<and> distinct xs \<and>
    {r. tls_at s r c \<noteq> None} \<subseteq> set xs \<and>
    tls_at s' = (\<lambda>r. (tls_at s r)(c := None)) \<and> tm_handlers s' = (tm_handlers s)(c := None) \<and>
    tm_free_list s' = tm_free_list s @ [c] \<and> tls_ok s' xs live (ids - {c})"
proof -
  have "distinct xs" using tls_okD(1) [OF assms(1)] by (simp add: ring_def)
  moreover have "{r. tls_at s r c \<noteq> None} \<subseteq> set xs" using tls_okD(10) [OF assms(1)] by blast
  ultimately show ?thesis
    unfolding thread_local_ptr_drop_def by (rule_tac remove_column_ok [OF assms(1), of c]) (use assms(2) in auto)
qed

theorem tls_remove_column_correct_witness:
  "\<exists>s'. thread_local_ptr_drop 0 tls_example = Some s' \<and> tm_calls s' = [(7, 40)] \<and> tls_ok s' [1] {1} {}"
  using tls_remove_column_correct [OF tls_example_ok(1), of 0] tls_example_ok(2-4)
  by (auto simp: reclaim_calls_def)

text \<open>
  C36.  The end of a thread: a registered row is taken off the list, for each of its objects whose column
  has a handler the handler is called exactly once, in the order of the columns, and its cells are
  emptied, while the other rows keep theirs; a row that was never registered has null neighbours, and
  dropping it dereferences null.
\<close>

theorem tls_drop_row_correct:
  assumes "tls_ok s xs live ids" and "r \<in> live"
  shows "if r \<in> set xs
    then \<exists>s'. drop_row r s = Some s' \<and> tls_ok s' (remove1 r xs) (live - {r}) ids \<and>
      tls_at s' = (tls_at s)(r := \<lambda>_. None) \<and> tm_handlers s' = tm_handlers s \<and>
      tm_calls s' = tm_calls s @
        concat (map (\<lambda>c. reclaim_calls (tm_handlers s c) [tls_at s r c]) [0..<length (td_entries (tm_rows s ! r))])
    else drop_row r s = None"
proof (cases "r \<in> set xs")
  case True
  show ?thesis using True by simp (rule drop_row_matrix [OF assms(1) True], blast)
next
  case False
  then show ?thesis using drop_row_unregistered [OF assms] by simp
qed

theorem tls_drop_row_correct_witness:
  "\<exists>s'. drop_row 1 tls_example = Some s' \<and> tls_ok s' [] {} {0}"
  using tls_drop_row_correct [OF tls_example_ok(1), of 1] by auto

text \<open>
  Also:  A column number is never shared: in every reachable state the pointers there are have different
  columns, a column handed out next is not one of theirs, and no cell of it holds an object yet; the
  invariant of the matrix holds throughout.
\<close>

theorem tls_ids_unique:
  assumes "tls_reach s live ids"
  shows "distinct ids \<and> (\<exists>xs. tls_ok s xs live (set ids)) \<and>
    fst (new_with_handler h s) \<notin> set ids \<and> (\<forall>r. tls_at s r (fst (new_with_handler h s)) = None)"
proof -
  have inv: "distinct ids \<and> (\<exists>xs. tls_ok s xs live (set ids))" by (rule tls_reach_ok [OF assms])
  then obtain xs where "tls_ok s xs live (set ids)" by blast
  from new_with_handler_ok(1,6) [OF this surjective_pairing] inv show ?thesis by blast
qed

theorem tls_ids_unique_witness:
  "fst (new_with_handler None (snd (new_with_handler (Some 7) thread_meta_new))) \<notin> {0}"
proof -
  have "tls_reach (snd (new_with_handler (Some 7) thread_meta_new)) {} [0]"
    by (rule tls_create [OF tls_start]) (simp add: new_with_handler_def thread_meta_new_def)
  from tls_ids_unique [OF this, of None] show ?thesis by simp
qed

text \<open>
  Also:  \<open>remove_column\<close> is an explicit lifecycle operation and is called again by \<open>Drop\<close>: a column
  removed and then dropped is put on the free list twice, and the next two pointers created share it.
\<close>

theorem tls_double_removal_shares_id:
  assumes "tls_ok s xs live ids" and "c \<in> ids"
  shows "\<exists>s1 s2 s3 s4. remove_column c s = Some s1 \<and> thread_local_ptr_drop c s1 = Some s2 \<and>
    new_with_handler h s2 = (c, s3) \<and> new_with_handler h' s3 = (c, s4)"
proof -
  obtain s1 where s1: "remove_column c s = Some s1" "tm_free_list s1 = tm_free_list s @ [c]" "tls_ok s1 xs live (ids - {c})"
    using remove_column_ok [OF assms(1), of c] assms(2) by metis
  obtain s2 where s2: "remove_column c s1 = Some s2" "tm_free_list s2 = tm_free_list s @ [c, c]"
    using remove_column_ok [OF s1(3), of c] s1(2) by (metis append.assoc append_Cons append_Nil)
  show ?thesis
    unfolding thread_local_ptr_drop_def using s1(1) s2
    by (simp add: new_with_handler_def butlast_append)
qed

theorem tls_double_removal_shares_id_witness:
  "\<exists>s1 s2 s3 s4. remove_column 0 tls_example = Some s1 \<and> thread_local_ptr_drop 0 s1 = Some s2 \<and>
    new_with_handler None s2 = (0, s3) \<and> new_with_handler None s3 = (0, s4)"
  using tls_double_removal_shares_id [OF tls_example_ok(1), of 0] by simp

text \<open>
  C30.  Isolation of threads: along any sequence of accesses to a column no thread has used yet, by any live
  threads in any order, two accesses get the same object exactly when the same thread made them.
\<close>

theorem tls_thread_isolation:
  assumes "tls_ok s xs live ids" and "c \<in> ids" and "set ts \<subseteq> live" and "\<And>r. tls_at s r c = None"
  shows "\<exists>ps w' s'. run_accesses (\<lambda>r. get_or_init r c next_address) ts w s = Some (ps, w', s') \<and> length ps = length ts \<and>
    (\<forall>i<length ts. \<forall>j<length ts. ps ! i = ps ! j \<longleftrightarrow> ts ! i = ts ! j)"
proof -
  have "column_holds live ids c s Map.empty" using assms by (auto simp: column_holds_def fun_eq_iff)
  then obtain ps w' s' where "run_accesses (\<lambda>r. get_or_init r c next_address) ts w s = Some (ps, w', s')"
    "length ps = length ts" "\<And>i j. i < length ts \<Longrightarrow> j < length ts \<Longrightarrow> ps ! i = ps ! j \<longleftrightarrow> ts ! i = ts ! j"
    using tls_column.accesses_isolated [OF _ assms(3)] by blast
  then show ?thesis by blast
qed

theorem tls_thread_isolation_witness:
  "\<exists>p q w' s'. run_accesses (\<lambda>r. get_or_init r 0 next_address) [1, 2, 1] 0
     (snd (new_with_handler None (snd (thread_row_init (snd (thread_row_init thread_meta_new)))))) = Some ([p, q, p], w', s') \<and> p \<noteq> q"
proof -
  let ?a = "snd (thread_row_init thread_meta_new)" let ?b = "snd (thread_row_init ?a)" let ?s = "snd (new_with_handler None ?b)"
  have rows: "thread_row_init thread_meta_new = (1, ?a)" "thread_row_init ?a = (2, ?b)" "new_with_handler None ?b = (0, ?s)"
    by (simp_all add: thread_row_init_def thread_meta_new_def new_with_handler_def)
  note oka = thread_row_init_ok [OF tls_ok_new rows(1)] note okb = thread_row_init_ok [OF oka(1) rows(2)]
  note ok = new_with_handler_ok [OF okb(1) rows(3)]
  have empty: "tls_at ?s r 0 = None" for r using ok(6) [of r] ok(3) by simp
  have "\<exists>ps w' s'. run_accesses (\<lambda>r. get_or_init r 0 next_address) [1, 2, 1] 0 ?s = Some (ps, w', s') \<and> length ps = 3 \<and>
    (\<forall>i<3. \<forall>j<3. ps ! i = ps ! j \<longleftrightarrow> [1, 2, 1 :: nat] ! i = [1, 2, 1] ! j)"
    using tls_thread_isolation [OF ok(2), of 0 "[1, 2, 1]" 0] empty by (simp add: numeral_3_eq_3)
  then obtain ps w' s' where run: "run_accesses (\<lambda>r. get_or_init r 0 next_address) [1, 2, 1] 0 ?s = Some (ps, w', s')"
    and len: "length ps = 3" and eq: "\<And>i j. i < 3 \<Longrightarrow> j < 3 \<Longrightarrow> ps ! i = ps ! j \<longleftrightarrow> [1, 2, 1 :: nat] ! i = [1, 2, 1] ! j"
    by blast
  obtain p q p' where ps: "ps = [p, q, p']" using len by (auto simp: numeral_3_eq_3 length_Suc_conv)
  have "p = p'" "p \<noteq> q" using eq [of 0 2] eq [of 0 1] by (simp_all add: ps)
  then show ?thesis using run ps by blast
qed

end
