(* ===== verification/Tls_Scratch.thy ===== *)
theory Tls_Scratch
  imports Ord_Prelude
begin

text \<open>
  The registration experiment of \<open>thread_local_storage/scratch.rs\<close>: a global state built once that keeps a
  handle on the \<open>Local\<close> of every thread.  A \<open>Local\<close> is a cell of \<open>gs_locals\<close>, its address the index; \<open>gs_test\<close> holds
  the threads' values of the lazy thread-local \<open>TEST\<close>.
\<close>

section \<open>Definitions\<close>

record gs =
  gs_cell :: "nat list"
  gs_g_count :: nat

record scratch_world =
  sw_gs :: "gs option"
  sw_locals :: "nat list"
  sw_test :: "nat \<rightharpoonup> nat"

definition gs_build :: "scratch_world \<Rightarrow> gs \<times> scratch_world" where
  "gs_build w =
     (case sw_gs w of
        Some g \<Rightarrow> (g, w)
      | None \<Rightarrow> let g = \<lparr>gs_cell = [], gs_g_count = 0\<rparr> in (g, w\<lparr>sw_gs := Some g\<rparr>))"

definition local_register :: "gs \<Rightarrow> scratch_world \<Rightarrow> nat \<times> scratch_world" where
  "local_register g w =
     (let local = length (sw_locals w);
          w = w\<lparr>sw_locals := sw_locals w @ [0]\<rparr>
      in (local, w\<lparr>sw_gs := Some (g\<lparr>gs_cell := gs_cell g @ [local]\<rparr>)\<rparr>))"

definition gs_register :: "gs \<Rightarrow> scratch_world \<Rightarrow> nat \<times> scratch_world" where
  "gs_register g w = local_register g w"

text \<open>An access to \<open>TEST\<close> by thread \<open>t\<close>, with the initialiser on the first one.\<close>

definition test_handle :: "nat \<Rightarrow> scratch_world \<Rightarrow> nat \<times> scratch_world" where
  "test_handle t w =
     (case sw_test w t of
        Some h \<Rightarrow> (h, w)
      | None \<Rightarrow> let (g, w) = gs_build w; (h, w) = gs_register g w in (h, w\<lparr>sw_test := (sw_test w)(t \<mapsto> h)\<rparr>))"

definition local_set :: "nat \<Rightarrow> nat \<Rightarrow> scratch_world \<Rightarrow> scratch_world" where
  "local_set h n w = w\<lparr>sw_locals := (sw_locals w)[h := n]\<rparr>"

text \<open>Threads that set their own count, in any order.\<close>

fun set_counts :: "(nat \<times> nat) list \<Rightarrow> scratch_world \<Rightarrow> scratch_world" where
  "set_counts [] w = w"
| "set_counts ((t, n) # ops) w = (let (h, w) = test_handle t w in set_counts ops (local_set h n w))"

definition scratch_start :: scratch_world where
  "scratch_start = \<lparr>sw_gs = None, sw_locals = [], sw_test = (\<lambda>_. None)\<rparr>"

section \<open>The invariant\<close>

definition cells :: "scratch_world \<Rightarrow> nat list" where
  "cells w = (case sw_gs w of None \<Rightarrow> [] | Some g \<Rightarrow> gs_cell g)"

definition scratch_inv :: "scratch_world \<Rightarrow> bool" where
  "scratch_inv w \<longleftrightarrow> cells w = [0 ..< length (sw_locals w)] \<and> ran (sw_test w) = {0 ..< length (sw_locals w)} \<and> inj_on (sw_test w) (dom (sw_test w))"

lemma test_handle_first:
  assumes "sw_test w t = None"
  shows "test_handle t w = (length (sw_locals w), w\<lparr>sw_gs := Some (case sw_gs w of None \<Rightarrow> \<lparr>gs_cell = [length (sw_locals w)], gs_g_count = 0\<rparr>
      | Some g \<Rightarrow> g\<lparr>gs_cell := gs_cell g @ [length (sw_locals w)]\<rparr>), sw_locals := sw_locals w @ [0], sw_test := (sw_test w)(t \<mapsto> length (sw_locals w))\<rparr>)"
  using assms by (simp add: test_handle_def gs_build_def gs_register_def local_register_def Let_def split: option.split)

lemma test_handle_inv:
  assumes inv: "scratch_inv w" and run: "test_handle t w = (h, w')"
  shows "scratch_inv w' \<and> sw_test w' t = Some h \<and> h < length (sw_locals w')
    \<and> (\<forall>u. u \<noteq> t \<longrightarrow> sw_test w' u = sw_test w u) \<and> (\<forall>k < length (sw_locals w). sw_locals w' ! k = sw_locals w ! k)"
proof (cases "sw_test w t")
  case (Some k)
  then have "k \<in> ran (sw_test w)" by (auto simp: ran_def)
  then show ?thesis using inv run Some by (auto simp: test_handle_def scratch_inv_def)
next
  case None
  let ?n = "length (sw_locals w)"
  have ran: "ran (sw_test w) = {0 ..< ?n}" "inj_on (sw_test w) (dom (sw_test w))" "cells w = [0 ..< ?n]" using inv by (simp_all add: scratch_inv_def)
  have w: "h = ?n" "sw_test w' = (sw_test w)(t \<mapsto> ?n)" "sw_locals w' = sw_locals w @ [0]" "cells w' = cells w @ [?n]"
    using run unfolding test_handle_first [OF None] by (auto simp: cells_def split: option.splits)
  have fresh: "sw_test w u \<noteq> Some ?n" for u using ran(1) by (auto simp: ran_def)
  have "inj_on ((sw_test w)(t \<mapsto> ?n)) (dom ((sw_test w)(t \<mapsto> ?n)))"
    using ran(2) None fresh by (auto simp: inj_on_def dom_def dest: sym)
  moreover have "ran ((sw_test w)(t \<mapsto> ?n)) = {0 ..< Suc ?n}" using None ran(1) by (simp add: atLeast0_lessThan_Suc)
  ultimately show ?thesis using w ran(3) by (simp add: scratch_inv_def nth_append)
qed

text \<open>
  Also:  The global list of the experiment always names exactly the locals of the threads that used
  \<open>TEST\<close>, each once, so every count a thread sets is read back through the global list, and a thread's
  count is the last value that thread set, whatever the other threads do.
\<close>

theorem scratch_counts:
  "cells (set_counts ops scratch_start) = [0 ..< length (sw_locals (set_counts ops scratch_start))]
   \<and> (\<forall>t. map_option (\<lambda>h. sw_locals (set_counts ops scratch_start) ! h) (sw_test (set_counts ops scratch_start) t) = map_of (rev ops) t)"
proof -
  have run: "scratch_inv (set_counts ops w)
      \<and> (\<forall>t. map_option (\<lambda>h. sw_locals (set_counts ops w) ! h) (sw_test (set_counts ops w) t)
          = (case map_of (rev ops) t of Some n \<Rightarrow> Some n | None \<Rightarrow> map_option (\<lambda>h. sw_locals w ! h) (sw_test w t)))"
    if "scratch_inv w" for w
    using that
  proof (induction ops arbitrary: w)
    case (Cons op ops)
    obtain t n where op: "op = (t, n)" by (cases op)
    obtain h w1 where h: "test_handle t w = (h, w1)" by (cases "test_handle t w")
    note H = test_handle_inv [OF Cons.prems h]
    let ?w = "local_set h n w1"
    have inv: "scratch_inv ?w" using H by (simp add: scratch_inv_def local_set_def cells_def)
    have "map_option (\<lambda>h. sw_locals ?w ! h) (sw_test ?w u)
        = (if u = t then Some n else map_option (\<lambda>h. sw_locals w ! h) (sw_test w u))" for u
    proof (cases "u = t")
      case False
      show ?thesis
      proof (cases "sw_test w u")
        case (Some k)
        have k: "sw_test w1 u = Some k" "k < length (sw_locals w)"
          using H False Some Cons.prems by (auto simp: scratch_inv_def ran_def)
        have "k \<noteq> h"
        proof
          assume "k = h"
          moreover have "inj_on (sw_test w1) (dom (sw_test w1))" using H by (simp add: scratch_inv_def)
          ultimately show False using k(1) H False by (metis domI inj_on_def)
        qed
        then show ?thesis using False Some k H by (simp add: local_set_def)
      qed (use H False in \<open>simp add: local_set_def\<close>)
    qed (use H in \<open>simp add: local_set_def\<close>)
    then show ?case using Cons.IH [OF inv] by (auto simp: op h map_add_def split: option.splits)
  qed (simp add: option.map_ident split: option.split)
  have start: "scratch_inv scratch_start" "sw_test scratch_start = (\<lambda>_. None)" by (simp_all add: scratch_inv_def scratch_start_def cells_def)
  have "map_option (\<lambda>h. sw_locals (set_counts ops scratch_start) ! h) (sw_test (set_counts ops scratch_start) t) = map_of (rev ops) t" for t
    using run [OF start(1)] start(2) by (cases "map_of (rev ops) t") simp_all
  then show ?thesis using run [OF start(1)] by (simp add: scratch_inv_def)
qed

end
