(* ===== verification/Write_Batch.thy ===== *)
theory Write_Batch
  imports Var_Int Utils_Mod
begin

text \<open>
  The growing write batch \<open>WBatch\<close> of \<open>crates/engine/src/db/write_batch.rs\<close>: a header of
  the sequence number and the record count, then the records.  The capacity a vector is created with
  changes nothing that can be observed and is left out; the additions of the code are checked, so a count
  that does not fit is \<open>None\<close>.
\<close>

section \<open>Definitions\<close>

definition WB_COUNT_OFFSET :: nat where
  "WB_COUNT_OFFSET = 8"

definition WB_HEADER_SIZE :: nat where
  "WB_HEADER_SIZE = 8 + 4"

datatype batch_op_type = BO_Put | BO_Delete | BO_Merge

fun batch_op_type_display :: "batch_op_type \<Rightarrow> string" where
  "batch_op_type_display BO_Put = ''Put''"
| "batch_op_type_display BO_Delete = ''Delete''"
| "batch_op_type_display BO_Merge = ''Merge''"

fun batch_op_type_into :: "batch_op_type \<Rightarrow> byte" where
  "batch_op_type_into BO_Put = 1"
| "batch_op_type_into BO_Delete = 2"
| "batch_op_type_into BO_Merge = 3"

record wbatch =
  wb_data :: bytes
  wb_max_bytes :: nat

definition WB_MAX_BATCH_SIZE :: nat where
  "WB_MAX_BATCH_SIZE = 2 ^ 20"

definition wbatch_new :: wbatch where
  "wbatch_new = \<lparr>wb_data = replicate WB_HEADER_SIZE 0, wb_max_bytes = WB_MAX_BATCH_SIZE\<rparr>"

definition wbatch_new_with_capacity :: "nat \<Rightarrow> wbatch option" where
  "wbatch_new_with_capacity cap =
     do {
       assert_that (cap \<le> WB_MAX_BATCH_SIZE);
       Some \<lparr>wb_data = replicate WB_HEADER_SIZE 0, wb_max_bytes = WB_MAX_BATCH_SIZE\<rparr>
     }"

definition put_bytes :: "bytes \<Rightarrow> bytes \<Rightarrow> wbatch \<Rightarrow> wbatch option" where
  "put_bytes key val b =
     do {
       let data = wb_data b @ [batch_op_type_into BO_Put];
       let data = data @ to_le_bytes 4 (0 :: u32);
       key_len \<leftarrow> varint_new (of_nat (length key));
       key_slice \<leftarrow> varint_as_slice key_len;
       let data = data @ key_slice;
       let data = data @ key;
       val_len \<leftarrow> varint_new (of_nat (length val));
       val_slice \<leftarrow> varint_as_slice val_len;
       let data = data @ val_slice;
       let data = data @ val;
       count_slice \<leftarrow> slice_at WB_COUNT_OFFSET 4 data;
       count \<leftarrow> read_u32_le_unsafe count_slice 0;
       assert_that (unat count < 2 ^ 32 - 1);
       count_slice \<leftarrow> write_u32_le_unsafe count_slice 0 (count + 1);
       data \<leftarrow> copy_at WB_COUNT_OFFSET count_slice data;
       Some (b\<lparr>wb_data := data\<rparr>)
     }"

definition wbatch_put :: "bytes \<Rightarrow> bytes \<Rightarrow> wbatch \<Rightarrow> wbatch option" where
  "wbatch_put key val b = put_bytes key val b"

definition wbatch_count :: "wbatch \<Rightarrow> u32 option" where
  "wbatch_count b =
     do {
       count_slice \<leftarrow> slice_at WB_COUNT_OFFSET 4 (wb_data b);
       read_u32_le_unsafe count_slice 0
     }"

definition wbatch_size :: "wbatch \<Rightarrow> nat" where
  "wbatch_size b = length (wb_data b)"

definition wbatch_is_empty :: "wbatch \<Rightarrow> bool" where
  "wbatch_is_empty b \<longleftrightarrow> length (wb_data b) = 0"

definition wbatch_apply_batch :: "wbatch \<Rightarrow> unit" where
  "wbatch_apply_batch b = ()"

section \<open>The contents of a batch\<close>

definition wb_encode :: "bytes \<times> bytes \<Rightarrow> bytes" where
  "wb_encode r = 1 # replicate 4 0 @ varint_bytes (of_nat (length (fst r))) @ fst r
     @ varint_bytes (of_nat (length (snd r))) @ snd r"

definition wbatch_holds :: "(bytes \<times> bytes) list \<Rightarrow> wbatch \<Rightarrow> bool" where
  "wbatch_holds rs b \<longleftrightarrow> length rs < 2 ^ 32 \<and>
     wb_data b = replicate 8 0 @ to_le_bytes 4 (of_nat (length rs) :: u32) @ concat (map wb_encode rs)"

lemma to_le_bytes_zero: "to_le_bytes n (0 :: 'a::len word) = replicate n 0"
  by (induction n) simp_all

lemma wbatch_new_holds: "wbatch_holds [] wbatch_new"
  by (simp add: wbatch_holds_def wbatch_new_def WB_HEADER_SIZE_def to_le_bytes_zero flip: replicate_add)

lemma varint_slice: "Option.bind (varint_new v) varint_as_slice = Some (varint_bytes v)"
proof -
  obtain vi where "varint_new v = Some vi" by (rule varint_new_defined)
  then show ?thesis using varint_new_slice(2) by simp
qed

lemma put_bytes_data:
  "put_bytes key val b =
     do {
       let data = wb_data b @ wb_encode (key, val);
       count_slice \<leftarrow> slice_at WB_COUNT_OFFSET 4 data;
       count \<leftarrow> read_u32_le_unsafe count_slice 0;
       assert_that (unat count < 2 ^ 32 - 1);
       count_slice \<leftarrow> write_u32_le_unsafe count_slice 0 (count + 1);
       data \<leftarrow> copy_at WB_COUNT_OFFSET count_slice data;
       Some (b\<lparr>wb_data := data\<rparr>)
     }"
proof -
  obtain k v where kv: "varint_new (of_nat (length key)) = Some k" "varint_new (of_nat (length val)) = Some v"
    using varint_new_defined by metis
  then show ?thesis
    using varint_new_slice(2) [OF kv(1)] varint_new_slice(2) [OF kv(2)]
    by (simp add: put_bytes_def wb_encode_def to_le_bytes_zero cong: if_cong)
qed

lemma count_slice_read: "read_u32_le_unsafe (to_le_bytes 4 (n :: u32)) 0 = Some n"
  by (simp add: read_u32_le_unsafe_def native_read_def slice_at_def from_le_to_le_bytes_full)

lemma header_slice:
  assumes "length bs = 4"
  shows "slice_at WB_COUNT_OFFSET 4 (replicate 8 0 @ bs @ rest) = Some bs"
    and "length cs = 4 \<Longrightarrow> copy_at WB_COUNT_OFFSET cs (replicate 8 0 @ bs @ rest) = Some (replicate 8 0 @ cs @ rest)"
  using assms by (simp_all add: WB_COUNT_OFFSET_def slice_at_prefix copy_at_prefix)

lemma wbatch_count_holds: "wbatch_holds rs b \<Longrightarrow> wbatch_count b = Some (of_nat (length rs))"
  by (simp add: wbatch_holds_def wbatch_count_def header_slice count_slice_read)

text \<open>
  Also:  \<open>WBatch::put\<close> appends exactly the record of its key and value behind those the batch holds
  and counts it: the batch then holds one record more, its size grows by the record's encoding, and
  \<open>batch_count\<close> is the number of records.  No batch that holds records, and no new batch, is ever
  empty according to \<open>is_empty\<close>.
\<close>

theorem wbatch_put_refines:
  assumes "wbatch_holds rs b" and "length rs < 2 ^ 32 - 1"
  shows "\<exists>b'. wbatch_put key val b = Some b' \<and> wbatch_holds (rs @ [(key, val)]) b' \<and>
    wbatch_count b' = Some (of_nat (length rs + 1)) \<and> wbatch_size b' = wbatch_size b + length (wb_encode (key, val)) \<and>
    \<not> wbatch_is_empty b \<and> \<not> wbatch_is_empty b'"
proof -
  let ?n = "of_nat (length rs) :: u32"
  let ?body = "concat (map wb_encode rs) @ wb_encode (key, val)"
  let ?b = "b\<lparr>wb_data := replicate 8 0 @ to_le_bytes 4 (?n + 1) @ ?body\<rparr>"
  have data: "wb_data b @ wb_encode (key, val) = replicate 8 0 @ to_le_bytes 4 ?n @ ?body"
    using assms(1) by (simp add: wbatch_holds_def)
  have n: "unat ?n = length rs" using assms(2) by (simp add: unat_of_nat)
  have "write_u32_le_unsafe (to_le_bytes 4 ?n) 0 (?n + 1) = Some (to_le_bytes 4 (?n + 1))"
    by (simp add: write_u32_le_unsafe_def copy_at_def)
  then have run: "wbatch_put key val b = Some ?b"
    unfolding wbatch_put_def put_bytes_data data
    using assms(2) n by (simp add: header_slice count_slice_read Let_def)
  have holds: "wbatch_holds (rs @ [(key, val)]) ?b"
    using assms(2) by (simp add: wbatch_holds_def add.commute)
  moreover have "wbatch_count ?b = Some (of_nat (length rs + 1))" using wbatch_count_holds [OF holds] by simp
  moreover have "wbatch_size ?b = wbatch_size b + length (wb_encode (key, val))"
    using assms(1) by (simp add: wbatch_size_def wbatch_holds_def)
  moreover have "\<not> wbatch_is_empty b" "\<not> wbatch_is_empty ?b"
    using assms(1) by (simp_all add: wbatch_is_empty_def wbatch_holds_def)
  ultimately show ?thesis using run by blast
qed

theorem wbatch_put_refines_witness:
  "\<exists>b'. wbatch_put [1, 2] [3] wbatch_new = Some b' \<and> wbatch_holds [([1, 2], [3])] b' \<and> wbatch_count b' = Some 1"
  using wbatch_put_refines [OF wbatch_new_holds, of "[1, 2]" "[3]"] by auto

end
