(* ===== verification/Engine_Options.thy ===== *)
theory Engine_Options
  imports Arena
begin

text \<open>
  The memtable size presets of \<open>crates/engine/src/options.rs\<close> and the compile-time checks for
  pointer tagging of \<open>crates/engine/src/utils/tagged_pointer.rs\<close>.  An assertion that fails at
  compile time, and \<open>unreachable!()\<close>, are \<open>None\<close>; \<open>align_of\<close> and the addresses of objects
  are numbers.
\<close>

section \<open>Write buffer presets\<close>

definition KIB :: nat where "KIB = 1024"

definition MIB :: nat where "MIB = KIB * 1024"

definition SMALL_16MB :: nat where "SMALL_16MB = 16 * MIB"

definition MEDIUM_32MB :: nat where "MEDIUM_32MB = 32 * MIB"

definition DEFAULT_64MB :: nat where "DEFAULT_64MB = 64 * MIB"

definition LARGE_128MB :: nat where "LARGE_128MB = 128 * MIB"

definition SMALL_BLOCK :: nat where "SMALL_BLOCK = 2 * MIB"

definition MEDIUM_BLOCK :: nat where "MEDIUM_BLOCK = 4 * MIB"

definition DEFAULT_BLOCK :: nat where "DEFAULT_BLOCK = 4 * MIB"

definition LARGE_BLOCK :: nat where "LARGE_BLOCK = 8 * MIB"

datatype write_buffer_size = WB_Small | WB_Medium | WB_Default | WB_Large

fun wbs_as_bytes :: "write_buffer_size \<Rightarrow> nat" where
  "wbs_as_bytes WB_Small = SMALL_16MB"
| "wbs_as_bytes WB_Medium = MEDIUM_32MB"
| "wbs_as_bytes WB_Default = DEFAULT_64MB"
| "wbs_as_bytes WB_Large = LARGE_128MB"

fun wbs_arena_policy :: "write_buffer_size \<Rightarrow> arena_policy" where
  "wbs_arena_policy WB_Small = \<lparr>block_size = SMALL_BLOCK, cap = SMALL_16MB\<rparr>"
| "wbs_arena_policy WB_Medium = \<lparr>block_size = MEDIUM_BLOCK, cap = MEDIUM_32MB\<rparr>"
| "wbs_arena_policy WB_Default = \<lparr>block_size = DEFAULT_BLOCK, cap = DEFAULT_64MB\<rparr>"
| "wbs_arena_policy WB_Large = \<lparr>block_size = LARGE_BLOCK, cap = LARGE_128MB\<rparr>"

lemmas preset_defs =
  KIB_def MIB_def SMALL_16MB_def MEDIUM_32MB_def DEFAULT_64MB_def LARGE_128MB_def
  SMALL_BLOCK_def MEDIUM_BLOCK_def DEFAULT_BLOCK_def LARGE_BLOCK_def

text \<open>
  Also:  Every preset is accepted by \<open>Arena::new\<close>, which never panics on one: the arena it makes is
  empty, its limit is the preset's size in bytes and a whole number of blocks, between 8 and 16 of them.
\<close>

theorem write_buffer_presets_valid:
  "\<exists>a. arena_new base (wbs_arena_policy w) System = Some a \<and> arena_holds a [] \<and>
     cap (ar_policy a) = wbs_as_bytes w \<and> wbs_as_bytes w mod block_size (ar_policy a) = 0 \<and>
     wbs_as_bytes w div block_size (ar_policy a) \<in> {8..16}"
proof -
  have pol: "0 < block_size (wbs_arena_policy w)" "block_size (wbs_arena_policy w) \<le> cap (wbs_arena_policy w)"
    "cap (wbs_arena_policy w) mod block_size (wbs_arena_policy w) = 0" "cap (wbs_arena_policy w) \<le> isize_MAX"
    "cap (wbs_arena_policy w) = wbs_as_bytes w"
    "wbs_as_bytes w div block_size (wbs_arena_policy w) \<in> {8..16}"
    by (cases w; simp add: preset_defs isize_MAX_def)+
  obtain a where "arena_new base (wbs_arena_policy w) System = Some a" "arena_holds a []" "ar_policy a = wbs_arena_policy w"
    by (rule arena_new_holds [OF pol(1-4)])
  then show ?thesis using pol(3,5,6) by auto
qed

section \<open>Taggable pointers\<close>

datatype taggable_bits = TAG_16 | TAG_32 | TAG_64 | TAG_128

fun taggable_bits_u32 :: "taggable_bits \<Rightarrow> u32" where
  "taggable_bits_u32 TAG_16 = 1"
| "taggable_bits_u32 TAG_32 = 2"
| "taggable_bits_u32 TAG_64 = 3"
| "taggable_bits_u32 TAG_128 = 4"

definition is_taggable :: "u32 \<Rightarrow> bool" where
  "is_taggable tagging = (if tagging = 1 then True else if tagging = 2 then True
     else if tagging = 3 then True else if tagging = 4 then True else False)"

text \<open>\<open>align.trailing_zeros()\<close> for an alignment, which is a power of two: 64 stands for none set.\<close>

fun trailing_zeros_from :: "nat \<Rightarrow> nat \<Rightarrow> nat \<Rightarrow> nat" where
  "trailing_zeros_from 0 i a = i"
| "trailing_zeros_from (Suc k) i a = (if odd a then i else trailing_zeros_from k (i + 1) (a div 2))"

definition align_trailing_zeros :: "nat \<Rightarrow> u32" where
  "align_trailing_zeros a = of_nat (trailing_zeros_from 64 0 a)"

definition from_alignment :: "nat \<Rightarrow> u32 option" where
  "from_alignment align =
     (let trail = align_trailing_zeros align
      in if trail = 1 then Some (taggable_bits_u32 TAG_16)
         else if trail = 2 then Some (taggable_bits_u32 TAG_32)
         else if trail = 3 then Some (taggable_bits_u32 TAG_64)
         else if trail = 4 then Some (taggable_bits_u32 TAG_128)
         else None)"

definition verify_alignment :: "nat \<Rightarrow> u32 \<Rightarrow> unit option" where
  "verify_alignment align TAG_BITS =
     do {
       assert_that (is_taggable TAG_BITS);
       assert_that (align_trailing_zeros align = TAG_BITS);
       assert_that (TAG_BITS < 64)
     }"

definition verify_taggable :: "nat \<Rightarrow> u32 \<Rightarrow> u32 \<Rightarrow> unit option" where
  "verify_taggable align TAG_BITS REQUIRED_BITS =
     do {
       verify_alignment align TAG_BITS;
       assert_that (REQUIRED_BITS > 0);
       assert_that (REQUIRED_BITS < 64);
       assert_that (TAG_BITS \<ge> REQUIRED_BITS)
     }"

text \<open>The inner pointer is the object's address.\<close>

definition tagged_pointer_new :: "nat \<Rightarrow> u32 \<Rightarrow> u32 \<Rightarrow> nat \<Rightarrow> nat option" where
  "tagged_pointer_new align T_TAG_BITS TAG_BITS object =
     do {
       verify_taggable align T_TAG_BITS TAG_BITS;
       Some object
     }"

definition available_bits :: "u32 \<Rightarrow> nat" where
  "available_bits TAG_BITS = unat TAG_BITS"

lemma trailing_zeros_from_power: "n < k \<Longrightarrow> trailing_zeros_from k i (2 ^ n) = i + n"
proof (induction n arbitrary: k i)
  case 0
  then show ?case by (cases k) simp_all
next
  case (Suc n)
  then obtain k' where "k = Suc k'" "n < k'" by (cases k) auto
  then show ?case using Suc.IH [of k' "i + 1"] by simp
qed

lemma align_trailing_zeros_power: "n < 64 \<Longrightarrow> align_trailing_zeros (2 ^ n) = of_nat n"
  by (simp add: align_trailing_zeros_def trailing_zeros_from_power)

lemma unat_small: "n < 64 \<Longrightarrow> unat (of_nat n :: u32) = n"
  by (simp add: unat_of_nat)

lemma is_taggable_of_nat: "n < 64 \<Longrightarrow> is_taggable (of_nat n) \<longleftrightarrow> 1 \<le> n \<and> n \<le> 4"
  by (auto simp: is_taggable_def word_unat_eq_iff unat_small)

text \<open>
  Also:  A tagged pointer that passes the compile-time checks really has room for its tag: for a type
  aligned to a power of two, creation succeeds exactly when the declared tag bits are the alignment's
  trailing zeros, between one and four, and cover the bits required; then a tag of that many bits added
  to any address the alignment allows can be read off, and masked out to give the address back.
\<close>

theorem tagged_pointer_room:
  assumes "n < 64" and "2 ^ n dvd object" and "tag < 2 ^ unat bits"
  shows "tagged_pointer_new (2 ^ n) t bits object =
      (if t = of_nat n \<and> 1 \<le> n \<and> n \<le> 4 \<and> 0 < bits \<and> unat bits \<le> n then Some object else None) \<and>
    (unat bits \<le> n \<longrightarrow>
      (object + tag) mod 2 ^ unat bits = tag \<and> (object + tag) div 2 ^ unat bits * 2 ^ unat bits = object)"
proof (intro conjI impI)
  have le: "bits \<le> of_nat n \<longleftrightarrow> unat bits \<le> n" using unat_small [OF assms(1)] by (simp add: word_le_nat_alt)
  have "bits < 64" "of_nat n < (64 :: u32)" if "unat bits \<le> n"
    using that assms(1) unat_small [OF assms(1)] by (simp_all add: word_less_nat_alt)
  then show "tagged_pointer_new (2 ^ n) t bits object =
      (if t = of_nat n \<and> 1 \<le> n \<and> n \<le> 4 \<and> 0 < bits \<and> unat bits \<le> n then Some object else None)"
    using le is_taggable_of_nat [OF assms(1)] align_trailing_zeros_power [OF assms(1)]
    by (auto simp: tagged_pointer_new_def verify_taggable_def verify_alignment_def assert_that_def word_greater_zero_iff)
next
  assume "unat bits \<le> n"
  then have "2 ^ unat bits dvd object" using assms(2) by (meson dvd_trans le_imp_power_dvd)
  then obtain q where "object = 2 ^ unat bits * q" by blast
  then show "(object + tag) mod 2 ^ unat bits = tag" "(object + tag) div 2 ^ unat bits * 2 ^ unat bits = object"
    using assms(3) by simp_all
qed

theorem tagged_pointer_room_witness:
  "tagged_pointer_new 4 2 1 24 = Some 24 \<and> (24 + 1) div 2 ^ unat (1 :: u32) * 2 ^ unat (1 :: u32) = (24 :: nat)"
  using tagged_pointer_room [of 2 24 1 1 2] by (simp add: dvd_def)

end
