(* ===== verification/Radix_Store.thy ===== *)
theory Radix_Store
  imports Ord_Prelude
begin

text \<open>
  The node store of the radix tree in \<open>crates/engine/src/utils/radix.rs\<close>: slabs of slots, the four inner node
  layouts, leaves, and the empty tree.  Searching and inserting are not written in the source.  Const
  parameters are arguments; a node pointer is an address; memory maps the addresses of live slots to
  their contents.
\<close>

section \<open>Slabs\<close>

text \<open>\<open>MaybeUninit\<close> is an option that is \<open>None\<close> while uninitialised.\<close>

record 'a slab_slot =
  slot_value :: "'a option"
  slot_occupied :: bool
  slot_next_free :: "nat option"

definition slot_new :: "'a slab_slot" where
  "slot_new = \<lparr>slot_value = None, slot_occupied = False, slot_next_free = None\<rparr>"

record 'a chunk_slab =
  slab_chunks :: "'a slab_slot list list"
  slab_free :: "nat list"

type_synonym 'a slot_memory = "nat \<rightharpoonup> 'a slab_slot"

definition chunk_slab_new :: "'a chunk_slab" where
  "chunk_slab_new = \<lparr>slab_chunks = [], slab_free = []\<rparr>"

text \<open>
  \<open>chunk.map(|i| self.free.push(NonNull::from(&i)))\<close>: each slot is moved out of the box into the parameter of
  the closure, at the address \<open>local k\<close> of call \<open>k\<close>; the closure pushes that address and drops the slot.
\<close>

fun map_push ::
  "(nat \<Rightarrow> nat) \<Rightarrow> nat \<Rightarrow> 'a slab_slot list \<Rightarrow> 'a chunk_slab \<Rightarrow> 'a slot_memory \<Rightarrow> 'a chunk_slab \<times> 'a slot_memory" where
  "map_push local k [] s m = (s, m)"
| "map_push local k (i # rest) s m =
     (let m = m(local k \<mapsto> i);
          s = s\<lparr>slab_free := slab_free s @ [local k]\<rparr>;
          m = m(local k := None)
      in map_push local (k + 1) rest s m)"

definition allocate_chunk ::
  "(nat \<Rightarrow> nat) \<Rightarrow> nat \<Rightarrow> 'a chunk_slab \<Rightarrow> 'a slot_memory \<Rightarrow> 'a chunk_slab \<times> 'a slot_memory" where
  "allocate_chunk local chunk_size s m = map_push local 0 (replicate chunk_size slot_new) s m"

section \<open>Nodes\<close>

type_synonym node_address = nat

record node_header =
  nh_label :: bytes
  nh_children :: "16 word"
  nh_terminal :: "node_address option"

record linear_child =
  lc_edges :: bytes
  lc_children :: "node_address option list"

definition linear_child_new :: "nat \<Rightarrow> linear_child" where
  "linear_child_new indexes = \<lparr>lc_edges = replicate indexes 0, lc_children = replicate indexes None\<rparr>"

record indexed_child =
  ic_edges :: bytes
  ic_children :: "node_address option list"

definition indexed_child_new :: "nat \<Rightarrow> nat \<Rightarrow> indexed_child" where
  "indexed_child_new indexes children = \<lparr>ic_edges = replicate indexes 0, ic_children = replicate children None\<rparr>"

record direct_child =
  dc_children :: "node_address option list"

definition direct_child_new :: "nat \<Rightarrow> direct_child" where
  "direct_child_new child_len = \<lparr>dc_children = replicate child_len None\<rparr>"

record 'a radix_leaf =
  leaf_key :: bytes
  leaf_value :: 'a

record 'c radix_node =
  rn_header :: node_header
  rn_children :: 'c

definition radix_node_new :: "'c \<Rightarrow> 'c radix_node" where
  "radix_node_new children = \<lparr>rn_header = \<lparr>nh_label = [], nh_children = 0, nh_terminal = None\<rparr>, rn_children = children\<rparr>"

definition node4_default :: "linear_child radix_node" where
  "node4_default = radix_node_new (linear_child_new 4)"

definition node16_default :: "linear_child radix_node" where
  "node16_default = radix_node_new (linear_child_new 16)"

definition node48_default :: "indexed_child radix_node" where
  "node48_default = radix_node_new (indexed_child_new 48 256)"

definition node256_default :: "direct_child radix_node" where
  "node256_default = radix_node_new (direct_child_new 256)"

datatype node_kind = NK_Node4 | NK_Node16 | NK_Node48 | NK_Node256 | NK_Leaf

section \<open>The tree\<close>

record 'a node_store =
  ns_node4 :: "linear_child radix_node chunk_slab"
  ns_node16 :: "linear_child radix_node chunk_slab"
  ns_node48 :: "indexed_child radix_node chunk_slab"
  ns_node256 :: "direct_child radix_node chunk_slab"
  ns_leaf :: "'a radix_leaf chunk_slab"

definition node_store_new :: "'a node_store" where
  "node_store_new = \<lparr>ns_node4 = chunk_slab_new, ns_node16 = chunk_slab_new, ns_node48 = chunk_slab_new,
     ns_node256 = chunk_slab_new, ns_leaf = chunk_slab_new\<rparr>"

text \<open>The root of a new tree is \<open>NonNull::dangling()\<close>, an address of no node.\<close>

record 'a radix_tree =
  rt_root :: node_address
  rt_store :: "'a node_store"

definition radix_tree_new :: "node_address \<Rightarrow> 'a radix_tree" where
  "radix_tree_new dangling = \<lparr>rt_root = dangling, rt_store = node_store_new\<rparr>"

section \<open>Properties\<close>

lemma map_push_ok:
  assumes "map_push local k slots s m = (s', m')"
  shows "slab_chunks s' = slab_chunks s \<and> slab_free s' = slab_free s @ map local [k..<k + length slots]
    \<and> m' = m |` (- local ` {k..<k + length slots})"
  using assms
proof (induction slots arbitrary: k s m)
  case (Cons i slots)
  let ?s = "s\<lparr>slab_free := slab_free s @ [local k]\<rparr>" and ?m = "m(local k := None)"
  have "map_push local (Suc k) slots ?s ?m = (s', m')" using Cons.prems by (simp add: Let_def)
  note IH = Cons.IH [OF this]
  have r: "{k..<k + length (i # slots)} = insert k {Suc k..<Suc k + length slots}" by auto
  have "m' = m |` (- local ` {k..<k + length (i # slots)})"
    unfolding r using IH by (auto simp: restrict_map_def fun_eq_iff)
  moreover have "[k..<k + length (i # slots)] = k # [Suc k..<Suc k + length slots]" by (simp add: upt_rec)
  ultimately show ?case using IH by simp
qed (simp add: restrict_map_def)

text \<open>
  Also:  A chunk allocation of a slab loses its chunk: it is in no state stored in \<open>chunks\<close>, one pointer per slot is
  added to the free list, and after the call none of these pointers leads to a live slot, so taking a node
  from the free list would read memory that is no longer allocated.
\<close>

theorem allocate_chunk_dangles:
  "slab_chunks (fst (allocate_chunk local n s m)) = slab_chunks s
   \<and> (\<exists>ps. slab_free (fst (allocate_chunk local n s m)) = slab_free s @ ps \<and> length ps = n
        \<and> list_all (\<lambda>p. snd (allocate_chunk local n s m) p = None) ps)"
proof -
  obtain s' m' where r: "map_push local 0 (replicate n slot_new) s m = (s', m')" by (rule prod.exhaust)
  note ok = map_push_ok [OF r]
  have "list_all (\<lambda>p. m' p = None) (map local [0..<n])"
    using ok by (auto simp: list_all_iff restrict_map_def)
  then show ?thesis using ok r by (auto simp: allocate_chunk_def)
qed

text \<open>
  Also:  The layouts of the inner nodes: an empty node has no label, no children and no terminal leaf; a node of 4
  or 16 has as many edge bytes as child slots and the node of 256 has a slot per byte, but the node of 48 has
  48 edge bytes for 256 child slots, where an index by edge byte needs 256 bytes for 48 slots.
\<close>

theorem radix_node_layouts:
  "length (lc_edges (rn_children node4_default)) = 4 \<and> length (lc_children (rn_children node4_default)) = 4
   \<and> length (lc_edges (rn_children node16_default)) = 16 \<and> length (lc_children (rn_children node16_default)) = 16
   \<and> length (ic_edges (rn_children node48_default)) = 48 \<and> length (ic_children (rn_children node48_default)) = 256
   \<and> length (dc_children (rn_children node256_default)) = 256
   \<and> nh_children (rn_header (radix_node_new c)) = 0 \<and> nh_terminal (rn_header (radix_node_new c)) = None
   \<and> slab_chunks (ns_leaf (rt_store (radix_tree_new d))) = [] \<and> slab_free (ns_node4 (rt_store (radix_tree_new d))) = []"
  by (simp add: node4_default_def node16_default_def node48_default_def node256_default_def radix_node_new_def
      linear_child_new_def indexed_child_new_def direct_child_new_def radix_tree_new_def node_store_new_def chunk_slab_new_def)

end
