(* ===== verification/Db_Shell.thy ===== *)
theory Db_Shell
  imports Batch_Pool Write_Pipeline
begin

text \<open>
  The engine shell: \<open>crates/engine/src/db/db.rs\<close>, \<open>db_impl.rs\<close> and
  \<open>crates/engine/src/version/version_set.rs\<close>.  The column-family set is an empty struct and is left
  out.  The number of threads sizes the pool's table of thread caches.  A recursion that never ends is
  \<open>None\<close>.
\<close>

section \<open>Definitions\<close>

record version_set =
  vs_global_sn :: seq_num_state

definition version_set_new :: version_set where
  "version_set_new = \<lparr>vs_global_sn = \<lparr>visible_seq_num = 0, log_seq_num = 0\<rparr>\<rparr>"

record db_impl =
  di_version_set :: version_set
  di_batch_pool :: batch_pool

definition db_impl_new :: "nat \<Rightarrow> db_impl option" where
  "db_impl_new threads =
     do {
       pool \<leftarrow> pool_with_factory threads 4 16 8 4;
       Some \<lparr>di_version_set = version_set_new, di_batch_pool = pool\<rparr>
     }"

partial_function (option) seq_state :: "db_impl \<Rightarrow> seq_num_state option" where
  "seq_state d = seq_state d"

definition db_apply_commit :: "db_impl \<Rightarrow> batch_inner \<Rightarrow> engine_error + unit" where
  "db_apply_commit d batch = Inr ()"

definition db_prepare_commit :: "db_impl \<Rightarrow> batch_inner \<Rightarrow> engine_error + unit" where
  "db_prepare_commit d batch = Inr ()"

text \<open>A constant atomic: every use of it is a fresh cell, which the addition changes and drops.\<close>

definition DB_ID :: nat where
  "DB_ID = 0"

definition atomic_fetch_add :: "nat \<Rightarrow> nat \<Rightarrow> nat \<times> nat" where
  "atomic_fetch_add n cell = (cell, cell + n)"

definition next_id :: nat where
  "next_id = fst (atomic_fetch_add 1 DB_ID)"

record db =
  db_id :: nat
  db_tls_id :: nat
  db_inner :: db_impl
  db_write_pipeline :: write_pipeline

definition DEFAULT_WRITE_PIPELINE_CAPACITY_SIZE :: nat where
  "DEFAULT_WRITE_PIPELINE_CAPACITY_SIZE = 64"

definition db_new :: "nat \<Rightarrow> db option" where
  "db_new threads =
     do {
       let id = next_id;
       impl \<leftarrow> db_impl_new threads;
       sn \<leftarrow> seq_state impl;
       pipeline \<leftarrow> pipeline_new_with_size DEFAULT_WRITE_PIPELINE_CAPACITY_SIZE sn;
       Some \<lparr>db_id = id, db_tls_id = 0, db_inner = impl, db_write_pipeline = pipeline\<rparr>
     }"

definition db_open :: "nat \<Rightarrow> db option" where
  "db_open threads = db_new threads"

definition db_write :: "db \<Rightarrow> unit" where
  "db_write d = ()"

section \<open>Opening a database\<close>

lemma seq_state_diverges: "seq_state d = None"
proof (rule ccontr)
  assume "seq_state d \<noteq> None"
  then obtain s where "seq_state d = Some s" by blast
  then show False by (rule seq_state.raw_induct [rotated])
qed

text \<open>
  Also:  \<open>DB::open\<close> never returns: the engine behind it is built without a panic, with a pool in its
  invariant, and a pipeline of the default size over its sequence numbers can be built, but
  \<open>DbImpl::seq_state\<close>, which \<open>DB::new\<close> calls in between, only calls itself.
\<close>

theorem db_open_diverges:
  "(\<exists>d p. db_impl_new threads = Some d \<and> pool_ok (di_batch_pool d) \<and>
      pipeline_new_with_size DEFAULT_WRITE_PIPELINE_CAPACITY_SIZE (vs_global_sn (di_version_set d)) = Some p \<and>
      bq_size (wp_queue p) = DEFAULT_WRITE_PIPELINE_CAPACITY_SIZE \<and> admission_inv 0 0 p \<and> seq_state d = None) \<and>
   db_open threads = None"
proof -
  obtain pool where pool: "pool_with_factory threads 4 16 8 4 = Some pool" "pool_ok pool"
    by (rule pool_new_ok [of 4 16 4 8 threads]) simp_all
  let ?d = "\<lparr>di_version_set = version_set_new, di_batch_pool = pool\<rparr>"
  let ?sn = "vs_global_sn (di_version_set ?d)"
  have "is_power_of_two 64" unfolding is_power_of_two_def by (rule bexI [of _ 6]) simp_all
  then obtain q where q: "batch_queue_new 64 = Some q" "queue_ok q" "queue_contents q = []" "bq_size q = 64"
    using batch_queue_new_ok [of 6] by (auto simp: batch_queue_new_def)
  let ?p = "\<lparr>wp_queue = q, wp_commit_sem = \<lparr>pa_limit = 64, pa_count = 64\<rparr>, wp_seq_state = ?sn, wp_store = \<lambda>_. None\<rparr>"
  have "db_impl_new threads = Some ?d" using pool(1) by (simp add: db_impl_new_def)
  moreover have "pipeline_new_with_size DEFAULT_WRITE_PIPELINE_CAPACITY_SIZE ?sn = Some ?p"
    using q(1) by (simp add: pipeline_new_with_size_def admission_new_def DEFAULT_WRITE_PIPELINE_CAPACITY_SIZE_def)
  moreover have "bq_size (wp_queue ?p) = DEFAULT_WRITE_PIPELINE_CAPACITY_SIZE \<and> admission_inv 0 0 ?p"
    using q(2-4) by (simp add: admission_inv_def DEFAULT_WRITE_PIPELINE_CAPACITY_SIZE_def)
  moreover have "db_open threads = None"
    by (simp add: db_open_def db_new_def seq_state_diverges bind_eq_None_conv Let_def split: option.splits)
  ultimately show ?thesis using pool(2) seq_state_diverges by (auto intro!: exI [of _ ?d] exI [of _ ?p])
qed

end
