(* ===== verification/Spec2Isabelle.thy ===== *)
theory Spec2Isabelle
  imports Key_Buffers Log_Records Memtable Memtable_Conc Memtable_Handle Skip_List_Linear Skip_List_Solo Arena_Conc Batch_Lifecycle Indexed_Batch
    Batch_Queue_Conc Admission_Conc Pipeline_Conc Batch_Pool_Conc
    Hazard_Domain Thread_Local Tls_Scratch Write_Batch Engine_Options Radix_Store Db_Shell
begin

text \<open>
  A verification library for Ordinum, a log-structured storage engine in Rust
  (\<open>src/crates/engine\<close>, with hazard pointers in \<open>src/crates/mem\<close>).

  \<^bold>\<open>The program.\<close>  A write is encoded into a batch taken from a pool, the batch enters a commit queue
  through the write pipeline, its bytes are the record of the write-ahead log, and its operations go
  into a memtable: a skip list of internal keys in an arena.  A read looks an internal key up in the
  memtable.  Thread-local cells hold the pool's caches, hazard pointers protect shared objects, and the
  engine shell puts the parts together.  Paths below are under \<open>src/crates/engine/src/\<close> unless they
  say otherwise.

  \<^bold>\<open>Conventions.\<close>  Machine integers are words of their width where they can wrap, lengths and indices
  natural numbers.  Panics, failed assertions (debug assertions included), accesses out of bounds or
  through null, and loops that never end are \<open>None\<close>; results the code returns as errors are left
  injections of a sum.  State is passed explicitly, one record per struct.  Shared-memory steps are
  inductive relations where interleavings matter and sequentially consistent throughout: memory
  orderings and fences are not modelled.  Allocation of a fixed amount of memory succeeds; the base
  addresses of allocations are an argument.

  \<^bold>\<open>The theories.\<close>

  \<^item> \<open>Ord_Prelude\<close>: checked slices, byte encodings and the order of byte strings, with the
    collections of rewrite rules the other theories use.

  \<^item> \<open>Utils_Mod\<close>, \<open>Var_Int\<close> (\<open>utils/mod.rs\<close>, \<open>utils/var_int.rs\<close>): raw integer accessors and
    variable-length integers; round trips and buffer bounds.

  \<^item> \<open>Record_Kinds\<close>, \<open>Internal_Key\<close>, \<open>Key_Buffers\<close> (\<open>db/batch.rs\<close>, \<open>key/\<close>): kinds of records, internal
    keys with their packed trailer and their order, lookup keys and the iterator's key buffer.  The
    locale \<open>comparator\<close> states what a comparator promises and is interpreted for the bytewise and the
    internal-key comparator; round trip and order of internal keys, safety of the buffers.

  \<^item> \<open>Log_Records\<close>, \<open>Wal_Sync\<close> (\<open>log_records/mod.rs\<close>, \<open>wal/mod.rs\<close>): the header formats, and the
    completion waiter as a step relation of spinning, sleeping and signalling threads; the outcome
    every waiter reports and the absence of lost wake-ups, by rule induction.

  \<^item> \<open>Batch\<close>, \<open>Batch_Object\<close>, \<open>Write_Batch\<close> (\<open>db/batch.rs\<close>, \<open>db/write_batch.rs\<close>): the bounded batch with its
    header, record layout, deferred operations, sequence numbers and lifecycle, the handles on it,
    and the simple growing batch.  The encoded bytes refine a list of records, uniquely decodable: the bytes
    that puts leave determine the records put.

  \<^item> \<open>Batch_Pool\<close> (\<open>db/batch_pool.rs\<close>): thread caches, shards, acquire and release.  The locale
    \<open>bounded_stack\<close> is the contract of both tiers; no batch is lost, duplicated or handed out in a
    state other than fresh.

  \<^item> \<open>Batch_Pool_Conc\<close> (the same file): the pool shared by threads, cut at every access to a shard, the
    round-robin counter and the statistics.  Every allocation is always in exactly one place, and an operation
    returns within a bound on its own steps.

  \<^item> \<open>Batch_Lifecycle\<close>, \<open>Indexed_Batch\<close> (\<open>db/batch.rs\<close>, \<open>db/batch_pool.rs\<close>): handles that own a batch and a share of
    the pool, from acquisition to the drop of the pool, across batch, pool and pipeline: every
    allocation is freed exactly once, and a write session delivers its records; the part of indexed
    batches that is written.

  \<^item> \<open>Batch_Queue\<close>, \<open>Write_Pipeline\<close> (\<open>db/write_pipeline.rs\<close>, \<open>version/mod.rs\<close>): the packed head-tail ring
    behind the locale \<open>bounded_fifo\<close>, admission, preparation and commit; refinement of a queue,
    publication order, the admission invariant, and a race of the producer with a consumer.

  \<^item> \<open>Batch_Queue_Conc\<close>, \<open>Admission_Conc\<close>, \<open>Pipeline_Conc\<close> (\<open>db/write_pipeline.rs\<close>): the queue with its producer and
    consumers, and the semaphore with its spinning, sleeping and releasing threads, in every interleaving:
    batches leave in order, each claimed once and only when applied; as long as only granted permits are given
    back (the code does not check it), permits are never exceeded and a free permit is taken although threads
    sleep.  Put together, they are safe when dequeues do not overlap,
    and a batch can be lost when they do.

  \<^item> \<open>Arena\<close>, \<open>Skip_List\<close>, \<open>Skip_List_Index\<close>, \<open>Memtable\<close> (\<open>arena/\<close>, \<open>utils/skiplists/mem_skip_list.rs\<close>,
    \<open>memtable/memtable.rs\<close>, \<open>iterator/internal_iterator.rs\<close>): bump allocation in chunks, towers
    linked in the arena, search, insertion, iteration and ranges, and the memtable over them.  The
    locale \<open>ordered_index\<close> is what the memtable needs of the list; the list refines a sorted
    association list, reads answer with the newest visible version.  \<open>Memtable_Handle\<close> has the typestate
    handles that share a table through an \<open>Arc\<close>.

  \<^item> \<open>Arena_Conc\<close>, \<open>Skip_List_Conc\<close>, \<open>Skip_List_Runs\<close>, \<open>Skip_List_Linear\<close>, \<open>Skip_List_Solo\<close>,
    \<open>Memtable_Conc\<close> (the same files): the allocator and the list shared by threads.  Both are cut at
    every access to shared memory: a thread is at a program point with its local variables, a step
    relation interleaves the threads, and the weak exchanges may fail at any time.  The invariant of the list keeps its levels
    as ghost lists, what each search has still to rely on, and which node each thread has still to
    link at which levels; from it follow order and connectedness at every moment, the sequential
    invariant at rest, linearizability of searches, that a thread running alone finishes its call
    (the rank in \<open>Skip_List_Solo\<close> drops with every step), and the contents of a memtable written by many
    threads.  In the list an allocation is one step; that allocations of threads do not overlap
    is proved for the arena alone, for \<open>alloc_raw_fallback\<close>, which fails with a value, and \<open>alloc_raw\<close>, which
    panics: either happens only when the arena refuses the request.

  \<^item> \<open>Hazard_Domain\<close> (\<open>src/crates/mem/src/hazard/\<close>): records and their lists, acquisition, protection and
    release by one thread, and interleavings inside the acquisition of available records.

  \<^item> \<open>Thread_Local\<close> (\<open>thread_local_storage/\<close>): the ring of rows, columns, accesses and reclamation with
    every handler call recorded.  The locale \<open>thread_cells\<close> is what the owner of a column relies on.
    \<open>Tls_Scratch\<close> is the registration experiment beside it.

  \<^item> \<open>Engine_Options\<close>, \<open>Db_Shell\<close> (\<open>options.rs\<close>, \<open>utils/tagged_pointer.rs\<close>, \<open>db/db.rs\<close>, \<open>db/db_impl.rs\<close>,
    \<open>version/version_set.rs\<close>): size presets, the checks of pointer tagging, and opening a database.

  \<^item> \<open>Radix_Store\<close> (\<open>utils/radix.rs\<close>): slabs, node layouts and constructors of the radix tree.

  This theory adds the memtable as the history of its writes, across keys, arena, list and table.

  \<^bold>\<open>Loops and bounds.\<close>  Loops with a decreasing measure are total functions.  Loops that spin or follow
  links (arena retries, hazard-pointer loops, column walks, list searches) are partial functions in
  the option monad, and the lemmas about them prove that they return under the invariant.  No fuel is
  used, except for the spin of \<open>reserve_space\<close>, which has the 200 rounds of the code.

  \<^bold>\<open>Not modelled.\<close>  The index of indexed batches and the operations of the radix tree, which are not
  written; superversions, column families, database iterators, the virtual file system and WAL files,
  which are declarations without code; reclamation by hazard pointers, which the code does not have;
  memory orderings; formatting of statistics; and the tests.

  \<^bold>\<open>Defects shown.\<close>  Where the code does not do what it means to, the property states what it does: among
  others the count of \<open>put_with\<close>, sequence numbers handed out by \<open>prepare\<close>, permits kept by
  \<open>commit\<close>, a queued batch lost when dequeues overlap, the race on the available hazard records, columns freed twice, and the recursion that keeps
  a database from opening.
\<close>

section \<open>A memtable as the history of its writes\<close>

text \<open>Writes in the order they are applied, and what the history answers at a snapshot.\<close>

fun apply_writes :: "(nat \<Rightarrow> nat) \<Rightarrow> version list \<Rightarrow> memtable_inner \<Rightarrow> memtable_inner option" where
  "apply_writes base [] m = Some m"
| "apply_writes base (r # rs) m =
     do {
       m \<leftarrow> memtable_insert internal_key_compare base (version_key r) (vs_value r) m;
       apply_writes base rs m
     }"

definition history_answer :: "bytes \<Rightarrow> u64 \<Rightarrow> version list \<Rightarrow> mem_return" where
  "history_answer uk snapshot rs =
     (case filter (visible uk snapshot) (rev rs) of [] \<Rightarrow> MR_NotFound | r # _ \<Rightarrow> answer r)"

definition write_ok :: "version \<Rightarrow> bool" where
  "write_ok r \<longleftrightarrow> version_ok r \<and> length (vs_user r) + 8 < 2 ^ 16 \<and> length (vs_value r) < 2 ^ 32"

abbreviation in_order :: "version list \<Rightarrow> bool" where
  "in_order rs \<equiv> sorted_wrt (\<lambda>r r'. vs_seq r < vs_seq r') rs"

lemma apply_writes_holds:
  assumes "mem_holds m (map version_entry es)" and "apply_writes base rs m = Some m'"
    and "list_all write_ok rs" and "\<forall>r \<in> set es. version_ok r" and "in_order rs"
    and "\<forall>r \<in> set es. \<forall>r' \<in> set rs. vs_seq r < vs_seq r'"
  obtains es' where "mem_holds m' (map version_entry es')" and "set es' = set es \<union> set rs"
  using assms
proof (induction rs arbitrary: m es thesis)
  case (Cons r rs)
  have r: "version_ok r" "length (vs_user r) + 8 < 2 ^ 16" "length (vs_value r) < 2 ^ 32"
    using Cons.prems(4) by (simp_all add: write_ok_def)
  obtain m1 where m1: "memtable_insert internal_key_compare base (version_key r) (vs_value r) m = Some m1"
    and rest: "apply_writes base rs m1 = Some m'" using Cons.prems(3) by (auto simp: bind_eq_Some_conv)
  have "\<forall>r' \<in> set es. vs_user r' = vs_user r \<longrightarrow> vs_seq r' < vs_seq r" using Cons.prems(7) by simp
  then obtain es1 where es1: "mem_holds m1 (map version_entry es1)" "set es1 = insert r (set es)"
    by (rule insert_version [OF Cons.prems(2,5) r _ m1])
  obtain es' where "mem_holds m' (map version_entry es')" "set es' = set es1 \<union> set rs"
    by (rule Cons.IH [OF _ es1(1) rest]) (use Cons.prems es1(2) r(1) in auto)
  then show ?case using Cons.prems(1) es1(2) by auto
qed auto

text \<open>The first visible write from the end is the newest visible one.\<close>

lemma last_visible:
  assumes "in_order rs" and "filter (visible uk s) (rev rs) = r # qs"
  shows "r \<in> set rs" and "visible uk s r" and "\<forall>r' \<in> set rs. visible uk s r' \<longrightarrow> r' = r \<or> vs_seq r' < vs_seq r"
proof -
  have f: "filter (visible uk s) rs = rev qs @ [r]" using assms(2) by (metis rev_filter rev_rev_ident rev.simps(2))
  then have "in_order (rev qs @ [r])" using sorted_wrt_filter [OF assms(1), of "visible uk s"] by simp
  then have "\<forall>r' \<in> set (filter (visible uk s) rs). r' = r \<or> vs_seq r' < vs_seq r"
    unfolding f by (auto simp: sorted_wrt_append)
  then show "\<forall>r' \<in> set rs. visible uk s r' \<longrightarrow> r' = r \<or> vs_seq r' < vs_seq r" by auto
  have "r \<in> set (filter (visible uk s) rs)" unfolding f by simp
  then show "r \<in> set rs" and "visible uk s r" by simp_all
qed

lemma memtable_new_policy:
  assumes "memtable_inner_new base mem_id pol System = Some m" and "72 \<le> block_size pol"
  shows "mem_holds m []"
proof -
  have "0 < block_size pol" "block_size pol \<le> cap pol" "cap pol mod block_size pol = 0" "cap pol \<le> isize_MAX"
    using assms(1) by (auto simp: memtable_inner_new_def arena_new_def split: if_splits bind_splits)
  then obtain m' where "memtable_inner_new base mem_id pol System = Some m'" "mem_holds m' []"
    by (rule memtable_new_holds [OF _ _ _ _ assms(2)])
  then show ?thesis using assms(1) by simp
qed

text \<open>
  C1.  The memtable end to end: after any sequence of writes with increasing sequence numbers that a new
  memtable takes without running out of room, a lookup of any user key at any snapshot answers with the
  last of those writes to the key the snapshot covers (its value, that it is a deletion, or that it is a
  merge operand), and with not found when there is none.
\<close>

theorem memtable_history:
  assumes "memtable_inner_new base mem_id pol System = Some m" and "72 \<le> block_size pol"
    and "list_all write_ok rs" and "in_order rs" and "apply_writes base rs m = Some m'" and "s < 2 ^ 56"
  shows "memtable_get internal_key_compare (internal_key uk s IK_Max) m' = Some (history_answer uk s rs)"
proof -
  have "mem_holds m (map version_entry [])" using memtable_new_policy [OF assms(1,2)] by simp
  then obtain es where es: "mem_holds m' (map version_entry es)" "set es = set [] \<union> set rs"
    by (rule apply_writes_holds [OF _ assms(5,3) _ assms(4)]) simp_all
  then have set: "set es = set rs" by simp
  have ok: "\<forall>r \<in> set es. version_ok r" using assms(3) set by (auto simp: list_all_iff write_ok_def)
  show ?thesis
  proof (cases "filter (visible uk s) (rev rs)")
    case Nil
    then have "\<forall>r \<in> set es. \<not> visible uk s r" using set by (auto simp: filter_empty_conv)
    then show ?thesis using get_invisible [OF es(1) ok assms(6)] Nil by (simp add: history_answer_def)
  next
    case (Cons r qs)
    note r = last_visible [OF assms(4) Cons, folded set]
    show ?thesis using get_visible [OF es(1) ok assms(6) r] Cons by (simp add: history_answer_def)
  qed
qed

theorem memtable_history_witness:
  "\<exists>m m'. memtable_inner_new (\<lambda>_. 0) 0 demo_policy System = Some m \<and> apply_writes (\<lambda>_. 0) [demo_version] m = Some m' \<and>
     memtable_get internal_key_compare (internal_key [97] 8 IK_Max) m' = Some (MR_Value [1]) \<and>
     memtable_get internal_key_compare (internal_key [97] 2 IK_Max) m' = Some MR_NotFound"
proof -
  obtain m m' where m: "memtable_inner_new (\<lambda>_. 0) 0 demo_policy System = Some m"
    "memtable_insert internal_key_compare (\<lambda>_. 0) (version_key demo_version) (vs_value demo_version) m = Some m'"
    by (rule demo_insert)
  have pol: "72 \<le> block_size demo_policy" by (simp add: demo_policy_def)
  have ok: "list_all write_ok [demo_version]" by (simp add: write_ok_def version_ok_def demo_version_def)
  have run: "apply_writes (\<lambda>_. 0) [demo_version] m = Some m'" using m(2) by simp
  have "memtable_get internal_key_compare (internal_key [97] 8 IK_Max) m' = Some (history_answer [97] 8 [demo_version])"
    "memtable_get internal_key_compare (internal_key [97] 2 IK_Max) m' = Some (history_answer [97] 2 [demo_version])"
    using memtable_history [OF m(1) pol ok _ run] by simp_all
  moreover have "history_answer [97] 8 [demo_version] = MR_Value [1]" "history_answer [97] 2 [demo_version] = MR_NotFound"
    by (simp_all add: history_answer_def visible_def answer_def demo_version_def)
  ultimately show ?thesis using m(1) run by (intro exI conjI) auto
qed

text \<open>
  C39.  Every write buffer preset gives a memtable: creation with its arena policy never panics, the table
  is empty, active and a lookup in it finds nothing, and the table's own arena has the preset's block size and
  is limited to the preset's size, of which it holds one block.
\<close>

theorem preset_memtable_usable:
  "\<exists>m. memtable_inner_new base mem_id (wbs_arena_policy w) System = Some m \<and> mem_holds m [] \<and>
     mt_lifecycle m = mem_life_cycle_u8 ML_Active \<and>
     ar_policy (hp_arena (mt_heap m)) = wbs_arena_policy w \<and>
     max_bytes (hp_arena (mt_heap m)) = wbs_as_bytes w \<and> blocks_used (hp_arena (mt_heap m)) = 1 \<and>
     memtable_get internal_key_compare (internal_key uk 0 IK_Max) m = Some MR_NotFound"
proof -
  have blk: "72 \<le> block_size (wbs_arena_policy w)" by (cases w; simp add: preset_defs)
  obtain m where m: "memtable_inner_new base mem_id (wbs_arena_policy w) System = Some m" "mem_holds m []"
    by (rule memtable_new_holds [of "wbs_arena_policy w" base mem_id]) (cases w; simp add: preset_defs isize_MAX_def)+
  note arena = memtable_new_arena [OF m(1) blk]
  have "mt_lifecycle m = mem_life_cycle_u8 ML_Active" using m(1) by (auto simp: memtable_inner_new_def split: bind_splits)
  moreover have "max_bytes (hp_arena (mt_heap m)) = wbs_as_bytes w" unfolding max_bytes_def arena(1) by (cases w) simp_all
  moreover have "blocks_used (hp_arena (mt_heap m)) = 1" using arena blk by (simp add: blocks_used_def)
  moreover have "memtable_get internal_key_compare (internal_key uk 0 IK_Max) m = Some MR_NotFound"
    using get_invisible [of m "[]" 0] m(2) by simp
  ultimately show ?thesis using m arena(1) by blast
qed

end
